(* ===== verification/OpenPay_Prelude.thy ===== *)
theory OpenPay_Prelude
  imports Main "HOL-Library.Signed_Division"
begin

text \<open>
  The vocabulary every component of the development shares: the outcome of a Rust call, the
  machine integers of the sources, identifiers and the rendering of numbers.

  \<^item> \<open>result\<close> is the outcome of a call: \<open>Ok\<close> and \<open>Err\<close> are the two values of
    \<^verbatim>\<open>core::result::Result\<close>; \<open>Panic\<close> is a call that unwinds instead of returning (an
    \<^verbatim>\<open>expect\<close> on \<^verbatim>\<open>None\<close>, or an unchecked arithmetic overflow in a build with overflow
    checks).  A function that cannot panic never yields \<open>Panic\<close>.
  \<^item> Signed and unsigned machine integers are \<open>int\<close> and \<open>nat\<close> with their range written out:
    every checked, saturating or unchecked operation of the sources is a definition here.
  \<^item> \<open>uuid\<close> is the 128-bit value of \<^verbatim>\<open>uuid::Uuid\<close> as a natural number.  A call that mints an
    id (\<^verbatim>\<open>Uuid::new_v4\<close>, \<^verbatim>\<open>Uuid::now_v7\<close>) takes the minted id as an argument.
\<close>

named_theorems machine_bounds
named_theorems transition_defs

section \<open>Outcomes of calls\<close>

datatype ('a, 'e) result = Ok 'a | Err 'e | Panic

text \<open>Rust's \<^verbatim>\<open>?\<close> operator: continue on \<open>Ok\<close>, propagate everything else.\<close>

fun rbind :: "('a, 'e) result \<Rightarrow> ('a \<Rightarrow> ('b, 'e) result) \<Rightarrow> ('b, 'e) result" where
  "rbind (Ok a) f = f a"
| "rbind (Err e) f = Err e"
| "rbind Panic f = Panic"

fun map_err :: "('e \<Rightarrow> 'f) \<Rightarrow> ('a, 'e) result \<Rightarrow> ('a, 'f) result" where
  "map_err g (Ok a) = Ok a"
| "map_err g (Err e) = Err (g e)"
| "map_err g Panic = Panic"

fun ok_or :: "'a option \<Rightarrow> 'e \<Rightarrow> ('a, 'e) result" where
  "ok_or (Some a) e = Ok a"
| "ok_or None e = Err e"

text \<open>\<^verbatim>\<open>Option::expect\<close>.\<close>

fun expect :: "'a option \<Rightarrow> ('a, 'e) result" where
  "expect (Some a) = Ok a"
| "expect None = Panic"

lemma rbind_eq_Ok [simp]: "rbind r f = Ok b \<longleftrightarrow> (\<exists>a. r = Ok a \<and> f a = Ok b)"
  by (cases r) auto

lemma rbind_eq_Err: "rbind r f = Err e \<longleftrightarrow> r = Err e \<or> (\<exists>a. r = Ok a \<and> f a = Err e)"
  by (cases r) auto

lemma rbind_eq_Panic: "rbind r f = Panic \<longleftrightarrow> r = Panic \<or> (\<exists>a. r = Ok a \<and> f a = Panic)"
  by (cases r) auto

lemma rbind_returns: "\<exists>a. r = Ok a \<Longrightarrow> (\<And>a. \<exists>b. f a = Ok b) \<Longrightarrow> \<exists>b. rbind r f = Ok b"
  by (cases r) auto

lemma rbind_assoc: "rbind (rbind r f) g = rbind r (\<lambda>a. rbind (f a) g)"
  by (cases r) auto

lemma map_err_eq_Ok [simp]: "map_err g r = Ok a \<longleftrightarrow> r = Ok a"
  by (cases r) auto

lemma map_err_eq_Err: "map_err g r = Err e \<longleftrightarrow> (\<exists>e'. r = Err e' \<and> e = g e')"
  by (cases r) auto

lemma map_err_eq_Panic [simp]: "map_err g r = Panic \<longleftrightarrow> r = Panic"
  by (cases r) auto

lemma ok_or_eq_Ok [simp]: "ok_or m e = Ok a \<longleftrightarrow> m = Some a"
  by (cases m) auto

lemma ok_or_eq_Err: "ok_or m e = Err e' \<longleftrightarrow> m = None \<and> e = e'"
  by (cases m) auto

lemma ok_or_not_Panic [simp]: "ok_or m e \<noteq> Panic"
  by (cases m) auto

lemma expect_eq_Ok [simp]: "expect m = Ok a \<longleftrightarrow> m = Some a"
  by (cases m) auto

section \<open>Machine integers\<close>

abbreviation "i64_min \<equiv> (- 9223372036854775808) :: int"
abbreviation "i64_max \<equiv> 9223372036854775807 :: int"
abbreviation "u16_max \<equiv> 65535 :: nat"
abbreviation "u32_max \<equiv> 4294967295 :: nat"
abbreviation "u64_max \<equiv> 18446744073709551615 :: nat"
abbreviation "i128_min \<equiv> (- 170141183460469231731687303715884105728) :: int"
abbreviation "i128_max \<equiv> 170141183460469231731687303715884105727 :: int"

definition in_i64 :: "int \<Rightarrow> bool" where
  [machine_bounds]: "in_i64 x \<longleftrightarrow> i64_min \<le> x \<and> x \<le> i64_max"

definition in_i128 :: "int \<Rightarrow> bool" where
  [machine_bounds]: "in_i128 x \<longleftrightarrow> i128_min \<le> x \<and> x \<le> i128_max"

text \<open>\<^verbatim>\<open>i64::checked_add\<close>, \<^verbatim>\<open>checked_sub\<close>, \<^verbatim>\<open>checked_neg\<close> and \<^verbatim>\<open>i64::try_from(i128)\<close>.\<close>

definition i64_of :: "int \<Rightarrow> int option" where
  "i64_of x = (if in_i64 x then Some x else None)"

definition i64_checked_add :: "int \<Rightarrow> int \<Rightarrow> int option" where
  "i64_checked_add a b = i64_of (a + b)"

definition i64_checked_sub :: "int \<Rightarrow> int \<Rightarrow> int option" where
  "i64_checked_sub a b = i64_of (a - b)"

definition i64_checked_neg :: "int \<Rightarrow> int option" where
  "i64_checked_neg a = i64_of (- a)"

text \<open>Unchecked \<^verbatim>\<open>i64\<close> operators: a value outside the range panics.\<close>

definition i64_val :: "int \<Rightarrow> (int, 'e) result" where
  "i64_val x = (if in_i64 x then Ok x else Panic)"

lemma i64_of_eq_Some [simp]: "i64_of x = Some y \<longleftrightarrow> in_i64 x \<and> y = x"
  by (auto simp: i64_of_def)

lemma i64_of_eq_None [simp]: "i64_of x = None \<longleftrightarrow> \<not> in_i64 x"
  by (simp add: i64_of_def)

lemma i64_val_eq_Ok [simp]: "i64_val x = Ok y \<longleftrightarrow> in_i64 x \<and> y = x"
  by (auto simp: i64_val_def)

lemma i64_val_not_Err [simp]: "i64_val x \<noteq> Err e"
  by (simp add: i64_val_def)

text \<open>Unsigned operators: unchecked ones panic out of range, the others saturate.\<close>

definition u64_val :: "nat \<Rightarrow> (nat, 'e) result" where
  "u64_val x = (if x \<le> u64_max then Ok x else Panic)"

definition u32_val :: "nat \<Rightarrow> (nat, 'e) result" where
  "u32_val x = (if x \<le> u32_max then Ok x else Panic)"

definition u64_saturating_add :: "nat \<Rightarrow> nat \<Rightarrow> nat" where
  "u64_saturating_add a b = min (a + b) u64_max"

definition u64_saturating_sub :: "nat \<Rightarrow> nat \<Rightarrow> nat" where
  "u64_saturating_sub a b = a - b"

definition u32_saturating_add :: "nat \<Rightarrow> nat \<Rightarrow> nat" where
  "u32_saturating_add a b = min (a + b) u32_max"

lemma u64_val_eq_Ok [simp]: "u64_val x = Ok y \<longleftrightarrow> x \<le> u64_max \<and> y = x"
  by (auto simp: u64_val_def)

lemma u64_val_not_Err [simp]: "u64_val x \<noteq> Err e"
  by (simp add: u64_val_def)

text \<open>
  The products the sources form in \<^verbatim>\<open>i128\<close>, one \<^verbatim>\<open>i64\<close> factor and one \<^verbatim>\<open>u64\<close> factor, never
  leave the \<^verbatim>\<open>i128\<close> range, so they are \<open>int\<close> products.
\<close>

lemma i128_product_in_range:
  assumes "in_i64 a" and "b \<le> u64_max"
  shows "in_i128 (a * int b)"
proof -
  have b: "0 \<le> int b" "int b \<le> 18446744073709551615"
    using assms(2) by linarith+
  have "\<bar>a * int b\<bar> = \<bar>a\<bar> * int b" by (simp add: abs_mult)
  also have "\<dots> \<le> 9223372036854775808 * 18446744073709551615"
    using assms(1) b by (intro mult_mono) (auto simp: in_i64_def)
  finally show ?thesis unfolding in_i128_def by linarith
qed

text \<open>Facts on truncating division (\<^verbatim>\<open>/\<close> and \<^verbatim>\<open>%\<close> on signed integers) the components use.\<close>

lemma sdiv_nonneg_eq_div: "0 \<le> a \<Longrightarrow> 0 < b \<Longrightarrow> a sdiv b = a div (b :: int)"
  by (cases "a = 0") (auto simp: signed_divide_int_def)

lemma smod_nonneg_eq_mod: "0 \<le> a \<Longrightarrow> 0 < b \<Longrightarrow> a smod b = a mod (b :: int)"
  by (cases "a = 0") (auto simp: signed_modulo_int_def)

lemma sdiv_neg: "0 < b \<Longrightarrow> (- a) sdiv b = - (a sdiv (b :: int))"
  by (simp add: signed_divide_int_def)

lemma smod_neg: "0 < b \<Longrightarrow> (- a) smod b = - (a smod (b :: int))"
  by (simp add: signed_modulo_int_def)

lemma sdiv_smod_eq: "a sdiv b * b + a smod b = (a :: int)"
proof -
  have "a sdiv b * b + a smod b = sgn a * (\<bar>a\<bar> div \<bar>b\<bar> * \<bar>b\<bar> + \<bar>a\<bar> mod \<bar>b\<bar>)"
    by (simp add: signed_divide_int_def signed_modulo_int_def algebra_simps abs_sgn)
  also have "\<dots> = a" by (simp only: div_mult_mod_eq) (simp add: sgn_mult_abs)
  finally show ?thesis .
qed

lemma abs_smod_less: "0 < b \<Longrightarrow> \<bar>(a :: int) smod b\<bar> < b"
  by (simp add: signed_modulo_int_def abs_mult sgn_if)

section \<open>Identifiers and text\<close>

type_synonym uuid = nat

text \<open>Decimal rendering of \<^verbatim>\<open>format!\<close>: digits of a natural number, \<^verbatim>\<open>{:0width$}\<close> padding, and
  a signed number.\<close>

definition digit_char :: "nat \<Rightarrow> char" where
  "digit_char d = char_of (48 + d)"

fun show_nat :: "nat \<Rightarrow> string" where
  "show_nat n = (if n < 10 then [digit_char n] else show_nat (n div 10) @ [digit_char (n mod 10)])"

declare show_nat.simps [simp del]

definition show_int :: "int \<Rightarrow> string" where
  "show_int i = (if i < 0 then ''-'' @ show_nat (nat (- i)) else show_nat (nat i))"

definition pad_zero :: "nat \<Rightarrow> string \<Rightarrow> string" where
  "pad_zero w s = replicate (w - length s) (CHR ''0'') @ s"

text \<open>Reading decimal digits back, the reference the rendering is proved against.\<close>

definition digit_val :: "char \<Rightarrow> nat" where
  "digit_val c = of_char c - 48"

definition read_nat :: "string \<Rightarrow> nat" where
  "read_nat s = foldl (\<lambda>acc c. acc * 10 + digit_val c) 0 s"

lemma digit_val_char [simp]: "d < 10 \<Longrightarrow> digit_val (digit_char d) = d"
  by (simp add: digit_val_def digit_char_def)

lemma read_nat_snoc [simp]: "read_nat (s @ [c]) = read_nat s * 10 + digit_val c"
  by (simp add: read_nat_def)

lemma read_show_nat [simp]: "read_nat (show_nat n) = n"
proof (induction n rule: show_nat.induct)
  case (1 n)
  show ?case
  proof (cases "n < 10")
    case True
    then show ?thesis
      by (simp add: show_nat.simps [of n] read_nat_def)
  next
    case False
    with "1.IH" show ?thesis
      by (simp add: show_nat.simps [of n])
  qed
qed

lemma read_nat_pad_zero [simp]: "read_nat (pad_zero w s) = read_nat s"
proof -
  have zeros: "foldl (\<lambda>acc c. acc * 10 + digit_val c) 0 (replicate k (CHR ''0'')) = 0" for k
    by (induction k) (auto simp: digit_val_def)
  show ?thesis
    by (simp add: pad_zero_def read_nat_def zeros)
qed

lemma show_nat_length: "n < 10 ^ w \<Longrightarrow> 0 < w \<Longrightarrow> length (show_nat n) \<le> w"
proof (induction n arbitrary: w rule: show_nat.induct)
  case (1 n)
  show ?case
  proof (cases "n < 10")
    case True
    with "1.prems" show ?thesis by (simp add: show_nat.simps [of n])
  next
    case False
    with "1.prems" obtain v where w: "w = Suc v" "0 < v"
      by (cases w; cases "w - 1") auto
    with "1.prems" have "n div 10 < 10 ^ v" by (simp add: less_mult_imp_div_less mult.commute)
    with False w "1.IH" [of v] show ?thesis by (simp add: show_nat.simps [of n])
  qed
qed

lemma pad_zero_length: "length s \<le> w \<Longrightarrow> length (pad_zero w s) = w"
  by (simp add: pad_zero_def)

lemma show_nat_digits: "c \<in> set (show_nat n) \<Longrightarrow> \<exists>d < 10. c = digit_char d"
proof (induction n rule: show_nat.induct)
  case (1 n)
  show ?case
  proof (cases "n < 10")
    case True
    with "1.prems" show ?thesis by (auto simp: show_nat.simps [of n])
  next
    case False
    with 1 show ?thesis
      by (auto simp: show_nat.simps [of n] intro: exI [of _ "n mod 10"])
  qed
qed

text \<open>Two texts split by a separator neither front part contains.\<close>

lemma show_nat_inj: "show_nat m = show_nat n \<longleftrightarrow> m = n"
  by (metis read_show_nat)

lemma show_nat_hd_not_minus: "show_nat n = CHR ''-'' # xs \<Longrightarrow> False"
proof -
  assume "show_nat n = CHR ''-'' # xs"
  then obtain d where "d < 10" "CHR ''-'' = digit_char d" using show_nat_digits [of "CHR ''-''" n] by auto
  then have "(of_char (CHR ''-'') :: nat) = 48 + d" by (simp add: digit_char_def)
  then show False by simp
qed

lemma show_int_inj: "show_int x = show_int y \<longleftrightarrow> x = y"
  using show_nat_hd_not_minus [of "nat x"] show_nat_hd_not_minus [of "nat y"]
  by (auto simp: show_int_def show_nat_inj split: if_splits dest: sym)

lemma append_sep_eq: "x \<notin> set a \<Longrightarrow> x \<notin> set b \<Longrightarrow> a @ x # c = b @ x # d \<longleftrightarrow> a = b \<and> c = d"
proof (induction a arbitrary: b)
  case Nil
  then show ?case by (cases b) auto
next
  case (Cons y a)
  then show ?case by (cases b) auto
qed

end
