(* ===== verification/Hash_Map.thy ===== *)
theory Hash_Map
  imports OpenPay_Prelude "HOL-Library.AList" "HOL-Library.Multiset"
begin

text \<open>
  \<^verbatim>\<open>std::collections::HashMap\<close>, the container behind every in-memory store of the sources.
  A map is an association list without duplicate keys; the order of the list stands for the
  iteration order of \<^verbatim>\<open>values()\<close>, which the standard library leaves unspecified, so a result
  that depends on it is only ever stated up to a permutation of the list.

  The locale \<open>hash_table\<close> is the contract the stores rely on; the interpretation \<open>hm\<close>
  discharges it for the association lists.
\<close>

type_synonym ('k, 'v) hashmap = "('k \<times> 'v) list"

definition hm_get :: "('k, 'v) hashmap \<Rightarrow> 'k \<Rightarrow> 'v option" where
  "hm_get m k = map_of m k"

definition hm_insert :: "'k \<Rightarrow> 'v \<Rightarrow> ('k, 'v) hashmap \<Rightarrow> ('k, 'v) hashmap" where
  "hm_insert k v m = AList.update k v m"

definition hm_contains_key :: "('k, 'v) hashmap \<Rightarrow> 'k \<Rightarrow> bool" where
  "hm_contains_key m k \<longleftrightarrow> hm_get m k \<noteq> None"

definition hm_values :: "('k, 'v) hashmap \<Rightarrow> 'v list" where
  "hm_values m = map snd m"

definition hm_wf :: "('k, 'v) hashmap \<Rightarrow> bool" where
  "hm_wf m \<longleftrightarrow> distinct (map fst m)"

definition hm_remove :: "'k \<Rightarrow> ('k, 'v) hashmap \<Rightarrow> ('k, 'v) hashmap" where
  "hm_remove k m = AList.delete k m"

text \<open>\<^verbatim>\<open>PartialEq\<close>: the same number of entries, each of the first found in the second.\<close>

definition hm_eq :: "('k, 'v) hashmap \<Rightarrow> ('k, 'v) hashmap \<Rightarrow> bool" where
  "hm_eq a b \<longleftrightarrow> length a = length b \<and> list_all (\<lambda>(k, v). hm_get b k = Some v) a"

locale hash_table =
  fixes empty :: "'m"
    and get :: "'m \<Rightarrow> 'k \<Rightarrow> 'v option"
    and insert :: "'k \<Rightarrow> 'v \<Rightarrow> 'm \<Rightarrow> 'm"
    and vals :: "'m \<Rightarrow> 'v list"
    and wf :: "'m \<Rightarrow> bool"
  assumes get_empty: "get empty k = None"
    and get_insert: "get (insert k v m) k' = (if k' = k then Some v else get m k')"
    and wf_empty: "wf empty"
    and wf_insert: "wf m \<Longrightarrow> wf (insert k v m)"
    and vals_ran: "wf m \<Longrightarrow> set (vals m) = ran (get m)"
    and vals_fresh: "wf m \<Longrightarrow> get m k = None \<Longrightarrow> mset (vals (insert k v m)) = add_mset v (mset (vals m))"
    and vals_replace: "wf m \<Longrightarrow> get m k = Some u \<Longrightarrow>
          add_mset u (mset (vals (insert k v m))) = add_mset v (mset (vals m))"
begin

lemma get_insert_same: "get (insert k v m) k = Some v"
  by (simp add: get_insert)

lemma vals_insertE:
  assumes "wf m" and "x \<in> set (vals (insert k v m))"
  shows "x = v \<or> x \<in> set (vals m)"
  using assms wf_insert [of m k v] by (auto simp: vals_ran ran_def get_insert split: if_splits)

lemma vals_member: "wf m \<Longrightarrow> get m k = Some v \<Longrightarrow> v \<in> set (vals m)"
  by (auto simp: vals_ran ran_def)

lemma all_vals_insert:
  assumes "wf m" and "\<And>x. x \<in> set (vals m) \<Longrightarrow> P x" and "P v" and "x \<in> set (vals (insert k v m))"
  shows "P x"
  using vals_insertE [OF assms(1,4)] assms(2,3) by auto

text \<open>Any additive tally over the values moves by exactly the inserted value.\<close>

lemma tally_fresh:
  fixes f :: "'v \<Rightarrow> int"
  assumes "wf m" and "get m k = None"
  shows "(\<Sum>x\<leftarrow>vals (insert k v m). f x) = f v + (\<Sum>x\<leftarrow>vals m. f x)"
proof -
  have "(\<Sum>x\<in>#mset (vals (insert k v m)). f x) = (\<Sum>x\<in>#add_mset v (mset (vals m)). f x)"
    using vals_fresh [OF assms] by simp
  then show ?thesis by (simp flip: sum_mset_sum_list)
qed

lemma tally_replace:
  fixes f :: "'v \<Rightarrow> int"
  assumes "wf m" and "get m k = Some u"
  shows "(\<Sum>x\<leftarrow>vals (insert k v m). f x) = (\<Sum>x\<leftarrow>vals m. f x) + f v - f u"
proof -
  have "(\<Sum>x\<in>#add_mset u (mset (vals (insert k v m))). f x) = (\<Sum>x\<in>#add_mset v (mset (vals m)). f x)"
    using vals_replace [OF assms] by simp
  then show ?thesis by (simp flip: sum_mset_sum_list)
qed

end

lemma hm_wf_insert: "hm_wf m \<Longrightarrow> hm_wf (hm_insert k v m)"
  by (simp add: hm_wf_def hm_insert_def distinct_update)

lemma hm_get_insert: "hm_get (hm_insert k v m) k' = (if k' = k then Some v else hm_get m k')"
  by (simp add: hm_get_def hm_insert_def update_conv)

lemma hm_values_fresh:
  "hm_get m k = None \<Longrightarrow> mset (hm_values (hm_insert k v m)) = add_mset v (mset (hm_values m))"
  by (induction m) (auto simp: hm_get_def hm_insert_def hm_values_def split: if_splits)

lemma hm_values_replace:
  "hm_wf m \<Longrightarrow> hm_get m k = Some u \<Longrightarrow>
   add_mset u (mset (hm_values (hm_insert k v m))) = add_mset v (mset (hm_values m))"
  by (induction m) (auto simp: hm_wf_def hm_get_def hm_insert_def hm_values_def split: if_splits)

lemma hm_values_ran: "hm_wf m \<Longrightarrow> set (hm_values m) = ran (hm_get m)"
  by (simp add: hm_values_def hm_get_def [abs_def] hm_wf_def ran_distinct)

interpretation hm: hash_table "[]" hm_get hm_insert hm_values hm_wf
proof
  show "hm_get [] k = (None :: 'b option)" for k :: 'a by (simp add: hm_get_def)
  show "hm_wf []" by (simp add: hm_wf_def)
qed (simp_all add: hm_get_insert hm_wf_insert hm_values_ran hm_values_fresh hm_values_replace)

lemmas hm_simps [simp] = hm.get_empty hm.get_insert hm.wf_empty

lemma hm_get_remove [simp]: "hm_get (hm_remove k m) k' = (if k' = k then None else hm_get m k')"
  by (simp add: hm_get_def hm_remove_def delete_conv')

lemma hm_wf_remove: "hm_wf m \<Longrightarrow> hm_wf (hm_remove k m)"
  by (simp add: hm_wf_def hm_remove_def distinct_delete)

lemma hm_values_empty [simp]: "hm_values [] = []"
  by (simp add: hm_values_def)

lemma hm_keys_dom: "set (map fst m) = dom (hm_get m)"
  by (simp add: hm_get_def [abs_def] dom_map_of_conv_image_fst)

lemma hm_eq_iff:
  assumes "hm_wf a" and "hm_wf b"
  shows "hm_eq a b \<longleftrightarrow> hm_get a = hm_get b"
proof
  assume eq: "hm_eq a b"
  have sub: "hm_get b k = Some v" if "hm_get a k = Some v" for k v
    using eq that by (auto simp: hm_eq_def list_all_iff hm_get_def dest!: map_of_SomeD)
  have "set (map fst a) \<subseteq> set (map fst b)" unfolding hm_keys_dom using sub by (auto simp: dom_def)
  moreover have "card (set (map fst a)) = card (set (map fst b))"
    using eq assms by (metis hm_eq_def hm_wf_def distinct_card length_map)
  ultimately have "dom (hm_get a) = dom (hm_get b)"
    unfolding hm_keys_dom [symmetric] by (intro card_subset_eq) auto
  then show "hm_get a = hm_get b" using sub by (intro map_le_antisym) (force simp: map_le_def dom_def)+
next
  assume eq: "hm_get a = hm_get b"
  have "length a = length b"
    using assms distinct_card [of "map fst a"] distinct_card [of "map fst b"]
    by (metis hm_wf_def hm_keys_dom length_map eq)
  moreover have "list_all (\<lambda>(k, v). hm_get b k = Some v) a"
    using assms(1) unfolding eq [symmetric] by (auto simp: list_all_iff hm_wf_def hm_get_def)
  ultimately show "hm_eq a b" by (simp add: hm_eq_def)
qed

end
