(* ===== verification/Ext_Store.thy ===== *)
theory Ext_Store
  imports Hash_Map
begin

text \<open>
  The contract the domain stores of the sources share (\<^verbatim>\<open>LedgerStore\<close>, \<^verbatim>\<open>RefundStore\<close>,
  \<^verbatim>\<open>DisputeStore\<close>, \<^verbatim>\<open>SettlementStore\<close>, \<^verbatim>\<open>SubscriptionStore\<close>): rows keyed by id, a reverse index from
  the caller's \<^verbatim>\<open>external_id\<close> to the id, a \<open>create\<close> that is idempotent on the external id, and
  an \<open>update\<close> that commits only when its closure succeeds.

  \<open>index_ok\<close> is the \<^verbatim>\<open>index/store invariant\<close> that the sources' \<^verbatim>\<open>expect\<close> calls name.  The locale
  \<open>ext_store\<close> states what each branch of \<open>create\<close> does, \<open>ext_store_update\<close> adds
  \<open>update\<close>; their lemmas are proved once here and each store's theory interprets the locale on
  its own definitions.
\<close>

definition index_ok ::
  "('r \<Rightarrow> 'id) \<Rightarrow> ('r \<Rightarrow> string option) \<Rightarrow> ('id, 'r) hashmap \<Rightarrow> (string, 'id) hashmap \<Rightarrow> bool" where
  "index_ok rid ext rw ix \<longleftrightarrow>
     hm_wf rw \<and> hm_wf ix \<and> (\<forall>i r. hm_get rw i = Some r \<longrightarrow> rid r = i)
     \<and> (\<forall>e i. hm_get ix e = Some i \<longleftrightarrow> (\<exists>r. hm_get rw i = Some r \<and> ext r = Some e))"

lemma index_ok_empty: "index_ok rid ext [] []"
  by (simp add: index_ok_def)

lemma index_okD:
  assumes "index_ok rid ext rw ix"
  shows "hm_wf rw" "hm_wf ix" "hm_get rw i = Some r \<Longrightarrow> rid r = i"
    "hm_get ix e = Some i \<Longrightarrow> \<exists>r. hm_get rw i = Some r \<and> ext r = Some e"
    "hm_get rw i = Some r \<Longrightarrow> ext r = Some e \<Longrightarrow> hm_get ix e = Some i"
  using assms by (auto simp: index_ok_def)

text \<open>Inserting a row under a fresh id and, if it has one, a fresh external id.\<close>

lemma index_ok_insert_new:
  assumes ok: "index_ok rid ext rw ix" and id: "hm_get rw (rid r) = None"
    and e: "\<And>e. ext r = Some e \<Longrightarrow> hm_get ix e = None"
  shows "index_ok rid ext (hm_insert (rid r) r rw)
    (case ext r of None \<Rightarrow> ix | Some e \<Rightarrow> hm_insert e (rid r) ix)"
proof (cases "ext r")
  case None
  with ok id show ?thesis unfolding index_ok_def by (auto simp: hm.wf_insert)
next
  case (Some e)
  with ok id e [OF Some] show ?thesis unfolding index_ok_def
    by (auto simp: hm.wf_insert) (metis option.distinct(1))+
qed

text \<open>Replacing a row by one with the same id and external id.\<close>

lemma index_ok_replace:
  assumes "index_ok rid ext rw ix" and "hm_get rw i = Some r" and "rid r' = i" and "ext r' = ext r"
  shows "index_ok rid ext (hm_insert i r' rw) ix"
  using assms unfolding index_ok_def by (auto simp: hm.wf_insert)

locale ext_store =
  fixes rows :: "'s \<Rightarrow> ('id, 'r) hashmap"
    and idx :: "'s \<Rightarrow> (string, 'id) hashmap"
    and create :: "'s \<Rightarrow> 'r \<Rightarrow> 's \<times> ('id, 'e) result"
    and rid :: "'r \<Rightarrow> 'id"
    and ext :: "'r \<Rightarrow> string option"
    and same_body :: "'r \<Rightarrow> 'r \<Rightarrow> bool"
    and mismatch :: "string \<Rightarrow> 'e"
    and pre :: "'s \<Rightarrow> 'r \<Rightarrow> bool"
    and accepts :: "'s \<Rightarrow> 'r \<Rightarrow> bool"
  assumes create_hit: "pre s r \<Longrightarrow> ext r = Some e \<Longrightarrow> hm_get (idx s) e = Some i \<Longrightarrow>
        hm_get (rows s) i = Some q \<Longrightarrow> create s r = (s, if same_body q r then Ok i else Err (mismatch e))"
    and create_new: "pre s r \<Longrightarrow> accepts s r \<Longrightarrow> (\<And>e. ext r = Some e \<Longrightarrow> hm_get (idx s) e = None) \<Longrightarrow>
        snd (create s r) = Ok (rid r) \<and> rows (fst (create s r)) = hm_insert (rid r) r (rows s) \<and>
        idx (fst (create s r)) = (case ext r of None \<Rightarrow> idx s | Some e \<Rightarrow> hm_insert e (rid r) (idx s))"
    and create_refused: "\<not> pre s r \<or> (\<not> accepts s r \<and> (\<forall>e. ext r = Some e \<longrightarrow> hm_get (idx s) e = None)) \<Longrightarrow>
        fst (create s r) = s \<and> (\<exists>x. snd (create s r) = Err x)"
    and pre_stable: "pre s r \<Longrightarrow> pre (fst (create s r')) r"
begin

abbreviation ok :: "'s \<Rightarrow> bool" where
  "ok s \<equiv> index_ok rid ext (rows s) (idx s)"

abbreviation fresh :: "'s \<Rightarrow> 'r \<Rightarrow> bool" where
  "fresh s r \<equiv> hm_get (rows s) (rid r) = None"

text \<open>The three ways a call of \<open>create\<close> can end in a store whose index is consistent.\<close>

lemma create_cases:
  assumes "ok s"
  obtains (refused) x where "fst (create s r) = s" "snd (create s r) = Err x"
  | (replayed) e i q where "pre s r" "ext r = Some e" "hm_get (idx s) e = Some i" "hm_get (rows s) i = Some q"
      "same_body q r" "create s r = (s, Ok i)"
  | (inserted) "pre s r" "accepts s r" "\<And>e. ext r = Some e \<Longrightarrow> hm_get (idx s) e = None"
      "snd (create s r) = Ok (rid r)" "rows (fst (create s r)) = hm_insert (rid r) r (rows s)"
      "idx (fst (create s r)) = (case ext r of None \<Rightarrow> idx s | Some e \<Rightarrow> hm_insert e (rid r) (idx s))"
proof (cases "pre s r")
  case False
  with create_refused [of s r] refused show ?thesis by auto
next
  case pre: True
  show ?thesis
  proof (cases "\<exists>e i. ext r = Some e \<and> hm_get (idx s) e = Some i")
    case True
    then obtain e i where e: "ext r = Some e" "hm_get (idx s) e = Some i" by blast
    with index_okD(4) [OF assms] obtain q where q: "hm_get (rows s) i = Some q" by blast
    show ?thesis
    proof (cases "same_body q r")
      case True
      with pre e q create_hit [OF pre e q] show ?thesis by (intro replayed) auto
    next
      case False
      with create_hit [OF pre e q] show ?thesis by (intro refused) auto
    qed
  next
    case False
    then have none: "\<And>e. ext r = Some e \<Longrightarrow> hm_get (idx s) e = None" by (metis option.exhaust)
    show ?thesis
    proof (cases "accepts s r")
      case True
      with pre none create_new [OF pre True none] show ?thesis by (intro inserted) auto
    next
      case False
      with none create_refused [of s r] show ?thesis by (auto intro: refused)
    qed
  qed
qed

lemma create_ok: "ok s \<Longrightarrow> fresh s r \<Longrightarrow> ok (fst (create s r))"
  by (rule create_cases [of s r]) (auto simp: index_ok_insert_new)

lemma create_no_panic: "ok s \<Longrightarrow> snd (create s r) \<noteq> Panic"
  by (rule create_cases [of s r]) auto

text \<open>A failed call leaves the store unchanged.\<close>

lemma create_atomic: "ok s \<Longrightarrow> (\<And>i. snd (create s r) \<noteq> Ok i) \<Longrightarrow> fst (create s r) = s"
  by (rule create_cases [of s r]) auto

lemma create_Ok_row:
  assumes "ok s" and "fresh s r" and "create s r = (s', Ok i)" and "ext r = Some e"
  shows "\<exists>q. hm_get (rows s') i = Some q \<and> ext q = Some e \<and> hm_get (idx s') e = Some i \<and> (q = r \<or> same_body q r)"
  using assms
proof (cases rule: create_cases [of s r, case_names refused replayed inserted])
  case (replayed e' i' q)
  with assms index_okD(4) [OF assms(1)] show ?thesis by fastforce
qed (auto simp: assms)

text \<open>
  Idempotency: after a successful \<open>create\<close> under an external id, a further call under the same
  external id never changes the store; it returns the first id when the bodies agree and the
  mismatch error otherwise.
\<close>

lemma create_retry:
  assumes "ok s" and "fresh s r" and "create s r = (s', Ok i)" and "ext r = Some e"
    and "ext r2 = Some e" and "pre s r2"
  shows "\<exists>q. hm_get (rows s') i = Some q \<and> (q = r \<or> same_body q r) \<and>
    create s' r2 = (s', if same_body q r2 then Ok i else Err (mismatch e))"
proof -
  obtain q where q: "hm_get (rows s') i = Some q" "hm_get (idx s') e = Some i" "q = r \<or> same_body q r"
    using create_Ok_row [OF assms(1-4)] by blast
  have "pre s' r2" using pre_stable [OF assms(6), of r] assms(3) by simp
  with q create_hit [OF _ assms(5) q(2,1)] show ?thesis by auto
qed

text \<open>A property of rows that the new row has stays true of every row.\<close>

lemma create_all:
  assumes "ok s" and "\<And>i q. hm_get (rows s) i = Some q \<Longrightarrow> R q" and "R r"
    and "hm_get (rows (fst (create s r))) j = Some p"
  shows "R p"
  using assms by (cases rule: create_cases [of s r, case_names refused replayed inserted]) (auto split: if_splits)

text \<open>At most one row per external id.\<close>

lemma ext_unique:
  assumes "ok s" and "hm_get (rows s) i = Some q" and "hm_get (rows s) j = Some p"
    and "ext q = Some e" and "ext p = Some e"
  shows "i = j"
  using index_okD(5) [OF assms(1,2,4)] index_okD(5) [OF assms(1,3,5)] by simp

end

locale ext_store_update = ext_store rows idx create rid ext same_body mismatch pre accepts
  for rows :: "'s \<Rightarrow> ('id, 'r) hashmap" and idx :: "'s \<Rightarrow> (string, 'id) hashmap"
    and create :: "'s \<Rightarrow> 'r \<Rightarrow> 's \<times> ('id, 'e) result" and rid ext same_body mismatch pre accepts +
  fixes update :: "'s \<Rightarrow> 'id \<Rightarrow> ('r \<Rightarrow> ('r, 'e) result) \<Rightarrow> 's \<times> ('r, 'e) result"
    and not_found :: "'id \<Rightarrow> 'e"
  assumes update_missing: "hm_get (rows s) i = None \<Longrightarrow> update s i f = (s, Err (not_found i))"
    and update_refused: "hm_get (rows s) i = Some r \<Longrightarrow> (\<And>q. f r \<noteq> Ok q) \<Longrightarrow> update s i f = (s, f r)"
    and update_done: "hm_get (rows s) i = Some r \<Longrightarrow> f r = Ok q \<Longrightarrow>
        snd (update s i f) = Ok q \<and> rows (fst (update s i f)) = hm_insert i q (rows s) \<and>
        idx (fst (update s i f)) = idx s"
begin

lemma update_atomic: "(\<And>q. snd (update s i f) \<noteq> Ok q) \<Longrightarrow> fst (update s i f) = s"
proof (cases "hm_get (rows s) i")
  case (Some r)
  assume "\<And>q. snd (update s i f) \<noteq> Ok q"
  with Some update_done [OF Some] have "\<And>q. f r \<noteq> Ok q" by metis
  with update_refused [OF Some] show ?thesis by auto
qed (simp add: update_missing)

lemma update_OkE:
  assumes "update s i f = (s', Ok q)"
  obtains r where "hm_get (rows s) i = Some r" "f r = Ok q" "rows s' = hm_insert i q (rows s)" "idx s' = idx s"
proof (cases "hm_get (rows s) i")
  case None
  with assms show ?thesis by (simp add: update_missing)
next
  case (Some r)
  show ?thesis
  proof (cases "f r")
    case (Ok p)
    with update_done [where f = f, OF Some Ok] assms Some show ?thesis by (intro that) auto
  next
    case (Err x)
    with update_refused [OF Some, of f] assms show ?thesis by auto
  next
    case Panic
    with update_refused [OF Some, of f] assms show ?thesis by auto
  qed
qed

text \<open>A closure that keeps id and external id keeps the index consistent.\<close>

lemma update_ok:
  assumes "ok s" and keeps: "\<And>r q. f r = Ok q \<Longrightarrow> rid q = rid r \<and> ext q = ext r"
  shows "ok (fst (update s i f))"
proof (cases "\<exists>q. snd (update s i f) = Ok q")
  case True
  then obtain q s' where u: "update s i f = (s', Ok q)" by (metis prod.collapse)
  from update_OkE [OF u] obtain r where r: "hm_get (rows s) i = Some r" "f r = Ok q"
    "rows s' = hm_insert i q (rows s)" "idx s' = idx s" .
  have "rid q = i" "ext q = ext r" using keeps [OF r(2)] index_okD(3) [OF assms(1) r(1)] by auto
  with r u index_ok_replace [OF assms(1) r(1)] show ?thesis by simp
next
  case False
  with update_atomic [of s i f] assms(1) show ?thesis by auto
qed

lemma update_all:
  assumes "\<And>j q. hm_get (rows s) j = Some q \<Longrightarrow> R q" and "\<And>r q. R r \<Longrightarrow> f r = Ok q \<Longrightarrow> R q"
    and "hm_get (rows (fst (update s i f))) j = Some p"
  shows "R p"
proof (cases "\<exists>q. snd (update s i f) = Ok q")
  case True
  then obtain q s' where u: "update s i f = (s', Ok q)" by (metis prod.collapse)
  from update_OkE [OF u] obtain r where "hm_get (rows s) i = Some r" "f r = Ok q"
    "rows s' = hm_insert i q (rows s)" by blast
  with assms u show ?thesis by (auto split: if_splits)
next
  case False
  with update_atomic [of s i f] assms(1,3) show ?thesis by auto
qed

end

end
