(* ===== verification/Money.thy ===== *)
theory Money
  imports OpenPay_Prelude
begin

text \<open>
  \<^verbatim>\<open>op-core\<close>: the ISO 4217 currency, the exact minor-unit amount and the crate's error type
  (\<^verbatim>\<open>crates/op-core/src/money.rs\<close>, \<^verbatim>\<open>error.rs\<close>).  An amount is the \<^verbatim>\<open>i64\<close> of the source as an
  \<open>int\<close>; \<open>money_wf\<close> is the range its type guarantees.
\<close>

section \<open>Errors\<close>

datatype core_error =
    CurrencyMismatch
  | Overflow
  | InvalidCurrency
  | IllegalTransition string string
  | UnsupportedMethod
  | VaultNotFound

section \<open>Currency\<close>

record currency =
  cur_code :: "char \<times> char \<times> char"
  exponent :: nat

definition USD :: currency where
  "USD = \<lparr>cur_code = (CHR ''U'', CHR ''S'', CHR ''D''), exponent = 2\<rparr>"

definition EUR :: currency where
  "EUR = \<lparr>cur_code = (CHR ''E'', CHR ''U'', CHR ''R''), exponent = 2\<rparr>"

definition BRL :: currency where
  "BRL = \<lparr>cur_code = (CHR ''B'', CHR ''R'', CHR ''L''), exponent = 2\<rparr>"

definition INR :: currency where
  "INR = \<lparr>cur_code = (CHR ''I'', CHR ''N'', CHR ''R''), exponent = 2\<rparr>"

definition GBP :: currency where
  "GBP = \<lparr>cur_code = (CHR ''G'', CHR ''B'', CHR ''P''), exponent = 2\<rparr>"

definition JPY :: currency where
  "JPY = \<lparr>cur_code = (CHR ''J'', CHR ''P'', CHR ''Y''), exponent = 0\<rparr>"

definition CNY :: currency where
  "CNY = \<lparr>cur_code = (CHR ''C'', CHR ''N'', CHR ''Y''), exponent = 2\<rparr>"

lemmas currency_consts = USD_def EUR_def BRL_def INR_def GBP_def JPY_def CNY_def

definition code_bytes :: "currency \<Rightarrow> string" where
  "code_bytes c = (case cur_code c of (a, b, d) \<Rightarrow> [a, b, d])"

text \<open>The loop over the three bytes, then the exponent check.\<close>

fun first_not_upper :: "string \<Rightarrow> bool" where
  "first_not_upper [] = False"
| "first_not_upper (c # cs) =
     (if of_char c < (65 :: nat) \<or> of_char c > (90 :: nat) then True else first_not_upper cs)"

definition try_new :: "char \<times> char \<times> char \<Rightarrow> nat \<Rightarrow> (currency, core_error) result" where
  "try_new code expo =
     (if first_not_upper (case code of (a, b, d) \<Rightarrow> [a, b, d]) then Err InvalidCurrency
      else if expo > 4 then Err InvalidCurrency
      else Ok \<lparr>cur_code = code, exponent = expo\<rparr>)"

text \<open>
  \<^verbatim>\<open>core::str::from_utf8\<close> accepts exactly the well-formed UTF-8 byte sequences; any other code,
  which only deserialisation could produce, reads as \<^verbatim>\<open>???\<close>.
\<close>

definition utf8_cont :: "nat \<Rightarrow> nat \<Rightarrow> nat \<Rightarrow> bool" where
  "utf8_cont lo hi b \<longleftrightarrow> lo \<le> b \<and> b \<le> hi"

fun utf8_valid :: "nat list \<Rightarrow> bool" where
  "utf8_valid [] = True"
| "utf8_valid (b # bs) =
     (if b < 128 then utf8_valid bs
      else if 194 \<le> b \<and> b \<le> 223 then
        (case bs of c # r \<Rightarrow> utf8_cont 128 191 c \<and> utf8_valid r | _ \<Rightarrow> False)
      else if 224 \<le> b \<and> b \<le> 239 then
        (case bs of c # d # r \<Rightarrow>
           utf8_cont (if b = 224 then 160 else 128) (if b = 237 then 159 else 191) c
             \<and> utf8_cont 128 191 d \<and> utf8_valid r
         | _ \<Rightarrow> False)
      else if 240 \<le> b \<and> b \<le> 244 then
        (case bs of c # d # e # r \<Rightarrow>
           utf8_cont (if b = 240 then 144 else 128) (if b = 244 then 143 else 191) c
             \<and> utf8_cont 128 191 d \<and> utf8_cont 128 191 e \<and> utf8_valid r
         | _ \<Rightarrow> False)
      else False)"

definition code :: "currency \<Rightarrow> string" where
  "code c = (if utf8_valid (map of_char (code_bytes c)) then code_bytes c else ''???'')"

section \<open>Money\<close>

record money =
  minor_units :: int
  currency :: currency

definition money_wf :: "money \<Rightarrow> bool" where
  "money_wf m \<longleftrightarrow> in_i64 (minor_units m)"

definition from_minor :: "int \<Rightarrow> currency \<Rightarrow> money" where
  "from_minor m c = \<lparr>minor_units = m, currency = c\<rparr>"

definition zero :: "currency \<Rightarrow> money" where
  "zero c = \<lparr>minor_units = 0, currency = c\<rparr>"

definition is_zero :: "money \<Rightarrow> bool" where
  "is_zero m \<longleftrightarrow> minor_units m = 0"

definition is_positive :: "money \<Rightarrow> bool" where
  "is_positive m \<longleftrightarrow> minor_units m > 0"

definition checked_add :: "money \<Rightarrow> money \<Rightarrow> (money, core_error) result" where
  "checked_add a b =
     (if currency a \<noteq> currency b then Err CurrencyMismatch
      else rbind (ok_or (i64_checked_add (minor_units a) (minor_units b)) Overflow)
             (\<lambda>m. Ok \<lparr>minor_units = m, currency = currency a\<rparr>))"

definition checked_sub :: "money \<Rightarrow> money \<Rightarrow> (money, core_error) result" where
  "checked_sub a b =
     (if currency a \<noteq> currency b then Err CurrencyMismatch
      else rbind (ok_or (i64_checked_sub (minor_units a) (minor_units b)) Overflow)
             (\<lambda>m. Ok \<lparr>minor_units = m, currency = currency a\<rparr>))"

definition neg :: "money \<Rightarrow> (money, core_error) result" where
  "neg a = rbind (ok_or (i64_checked_neg (minor_units a)) Overflow)
             (\<lambda>m. Ok \<lparr>minor_units = m, currency = currency a\<rparr>)"

text \<open>\<^verbatim>\<open>Display for Money\<close>; \<^verbatim>\<open>10_i64.pow(exp)\<close> panics when the power leaves \<^verbatim>\<open>i64\<close>.\<close>

definition display :: "money \<Rightarrow> (string, core_error) result" where
  "display m =
     (let ex = exponent (currency m) in
      if ex = 0 then Ok (show_int (minor_units m) @ '' '' @ code (currency m))
      else rbind (i64_val (10 ^ ex)) (\<lambda>divisor.
        let whole = minor_units m sdiv divisor; frac = \<bar>minor_units m smod divisor\<bar>
        in Ok (show_int whole @ ''.'' @ pad_zero ex (show_nat (nat frac)) @ '' '' @ code (currency m))))"

section \<open>Arithmetic\<close>

lemma checked_add_eq_Ok [simp]:
  "checked_add a b = Ok c \<longleftrightarrow>
     currency a = currency b \<and> in_i64 (minor_units a + minor_units b)
     \<and> c = \<lparr>minor_units = minor_units a + minor_units b, currency = currency a\<rparr>"
  by (auto simp: checked_add_def i64_checked_add_def)

lemma checked_sub_eq_Ok [simp]:
  "checked_sub a b = Ok c \<longleftrightarrow>
     currency a = currency b \<and> in_i64 (minor_units a - minor_units b)
     \<and> c = \<lparr>minor_units = minor_units a - minor_units b, currency = currency a\<rparr>"
  by (auto simp: checked_sub_def i64_checked_sub_def)

lemma neg_eq_Ok [simp]:
  "neg a = Ok c \<longleftrightarrow> in_i64 (- minor_units a) \<and> c = \<lparr>minor_units = - minor_units a, currency = currency a\<rparr>"
  by (auto simp: neg_def i64_checked_neg_def)

lemma checked_add_not_Panic [simp]: "checked_add a b \<noteq> Panic"
  by (simp add: checked_add_def rbind_eq_Panic)

lemma checked_sub_not_Panic [simp]: "checked_sub a b \<noteq> Panic"
  by (simp add: checked_sub_def rbind_eq_Panic)

lemma checked_add_eq_Err:
  "checked_add a b = Err e \<longleftrightarrow>
     (currency a \<noteq> currency b \<and> e = CurrencyMismatch)
     \<or> (currency a = currency b \<and> \<not> in_i64 (minor_units a + minor_units b) \<and> e = Overflow)"
  by (auto simp: checked_add_def i64_checked_add_def rbind_eq_Err ok_or_eq_Err)

lemma money_eqI: "minor_units a = minor_units b \<Longrightarrow> currency a = currency b \<Longrightarrow> a = (b :: money)"
  by (cases a; cases b) auto


section \<open>Rendering\<close>

text \<open>The reference reader: an optional sign, digits, and after a point \<open>ex\<close> more digits.\<close>

definition read_minor :: "nat \<Rightarrow> string \<Rightarrow> int" where
  "read_minor ex s =
     (let negative = (take 1 s = ''-''); body = (if negative then drop 1 s else s);
          whole = read_nat (takeWhile (\<lambda>c. c \<noteq> CHR ''.'' \<and> c \<noteq> CHR '' '') body);
          frac = read_nat (takeWhile (\<lambda>c. c \<noteq> CHR '' '') (drop 1 (dropWhile (\<lambda>c. c \<noteq> CHR ''.'') body)));
          v = int (if ex = 0 then whole else whole * 10 ^ ex + frac)
      in if negative then - v else v)"

lemma digit_char_not_mark:
  assumes "d < 10"
  shows "digit_char d \<noteq> CHR ''.''" "digit_char d \<noteq> CHR '' ''" "digit_char d \<noteq> CHR ''-''"
proof -
  have *: "digit_char d \<noteq> c" if "of_char c < (48 :: nat)" for c
  proof
    assume "digit_char d = c"
    then have "of_char c = (48 + d :: nat)" using assms by (auto simp: digit_char_def)
    with that show False by simp
  qed
  show "digit_char d \<noteq> CHR ''.''" "digit_char d \<noteq> CHR '' ''" "digit_char d \<noteq> CHR ''-''"
    by (auto intro!: *)
qed

lemma show_nat_no_mark:
  "c \<in> set (show_nat n) \<Longrightarrow> c \<noteq> CHR ''.'' \<and> c \<noteq> CHR '' '' \<and> c \<noteq> CHR ''-''"
  by (drule show_nat_digits) (auto simp: digit_char_not_mark)

lemma pad_zero_no_mark: "c \<in> set (pad_zero w (show_nat n)) \<Longrightarrow> c \<noteq> CHR '' ''"
  using show_nat_no_mark by (auto simp: pad_zero_def)

lemma show_nat_head: "take 1 (show_nat n @ r) \<noteq> ''-''"
proof -
  have "show_nat n \<noteq> []" by (subst show_nat.simps) simp
  then obtain c cs where "show_nat n = c # cs" by (cases "show_nat n") auto
  then show ?thesis using show_nat_no_mark [of c n] by auto
qed

lemma read_minor_split:
  assumes "0 < ex"
  shows "read_minor ex (show_nat w @ ''.'' @ pad_zero ex (show_nat f) @ '' '' @ r) = int (w * 10 ^ ex + f)"
    and "read_minor ex (''-'' @ show_nat w @ ''.'' @ pad_zero ex (show_nat f) @ '' '' @ r) = - int (w * 10 ^ ex + f)"
proof -
  let ?t = "pad_zero ex (show_nat f) @ '' '' @ r"
  have 1: "takeWhile (\<lambda>c. c \<noteq> CHR ''.'' \<and> c \<noteq> CHR '' '') (show_nat w @ ''.'' @ ?t) = show_nat w"
    using show_nat_no_mark by (subst takeWhile_append2) auto
  have 2: "dropWhile (\<lambda>c. c \<noteq> CHR ''.'') (show_nat w @ ''.'' @ ?t) = ''.'' @ ?t"
    using show_nat_no_mark by (subst dropWhile_append2) auto
  have 3: "takeWhile (\<lambda>c. c \<noteq> CHR '' '') ?t = pad_zero ex (show_nat f)"
    using pad_zero_no_mark by (subst takeWhile_append2) auto
  show "read_minor ex (show_nat w @ ''.'' @ ?t) = int (w * 10 ^ ex + f)"
    using assms 1 2 3 show_nat_head [of w "''.'' @ ?t"] by (simp add: read_minor_def Let_def)
  show "read_minor ex (''-'' @ show_nat w @ ''.'' @ ?t) = - int (w * 10 ^ ex + f)"
    using assms 1 2 3 by (simp add: read_minor_def Let_def)
qed

lemma read_minor_whole:
  "read_minor 0 (show_nat w @ '' '' @ r) = int w" "read_minor 0 (''-'' @ show_nat w @ '' '' @ r) = - int w"
proof -
  have 1: "takeWhile (\<lambda>c. c \<noteq> CHR ''.'' \<and> c \<noteq> CHR '' '') (show_nat w @ '' '' @ r) = show_nat w"
    using show_nat_no_mark by (subst takeWhile_append2) auto
  show "read_minor 0 (show_nat w @ '' '' @ r) = int w"
    using 1 show_nat_head [of w "'' '' @ r"] by (simp add: read_minor_def Let_def)
  show "read_minor 0 (''-'' @ show_nat w @ '' '' @ r) = - int w"
    using 1 by (simp add: read_minor_def Let_def)
qed

lemma pow10_i64:
  assumes "ex \<le> 4"
  shows "in_i64 (10 ^ ex)"
proof -
  have "(10 :: int) ^ ex \<le> 10 ^ 4" using assms by (intro power_increasing) auto
  then have "(10 :: int) ^ ex \<le> 10000" by simp
  moreover have "0 \<le> (10 :: int) ^ ex" by simp
  ultimately have "i64_min \<le> 10 ^ ex" "10 ^ ex \<le> i64_max" by linarith+
  then show ?thesis by (simp add: in_i64_def)
qed

text \<open>The rendered text of a scaled amount, before the currency code.\<close>

abbreviation scaled_text :: "nat \<Rightarrow> int \<Rightarrow> string" where
  "scaled_text ex u \<equiv> show_int (u sdiv 10 ^ ex) @ ''.'' @ pad_zero ex (show_nat (nat \<bar>u smod 10 ^ ex\<bar>))"

lemma read_minor_nonneg:
  assumes "0 < ex" and "0 \<le> u"
  shows "read_minor ex (scaled_text ex u @ '' '' @ r) = u"
proof -
  let ?D = "(10 :: int) ^ ex"
  have q: "u sdiv ?D = u div ?D" "u smod ?D = u mod ?D" "0 \<le> u div ?D"
    using assms(2) by (simp_all add: sdiv_nonneg_eq_div smod_nonneg_eq_mod pos_imp_zdiv_nonneg_iff)
  then have "int (nat (u div ?D) * 10 ^ ex + nat (u mod ?D)) = u div ?D * ?D + u mod ?D" by simp
  also have "\<dots> = u" by (rule div_mult_mod_eq)
  finally show ?thesis
    using read_minor_split(1) [OF assms(1), of "nat (u div ?D)" "nat (u mod ?D)" r] q
    by (simp add: show_int_def)
qed

lemma read_minor_neg:
  assumes "0 < ex" and "10 ^ ex \<le> v"
  shows "read_minor ex (scaled_text ex (- v) @ '' '' @ r) = - v"
proof -
  let ?D = "(10 :: int) ^ ex"
  have "0 \<le> v" using assms(2) by (rule order_trans [rotated]) simp
  then have q: "(- v) sdiv ?D = - (v div ?D)" "(- v) smod ?D = - (v mod ?D)"
    by (simp_all add: sdiv_neg smod_neg sdiv_nonneg_eq_div smod_nonneg_eq_mod)
  have pos: "0 < v div ?D" using assms(2) by (simp add: pos_imp_zdiv_pos_iff)
  then have "int (nat (v div ?D) * 10 ^ ex + nat (v mod ?D)) = v div ?D * ?D + v mod ?D" by simp
  also have "\<dots> = v" by (rule div_mult_mod_eq)
  finally show ?thesis
    using read_minor_split(2) [OF assms(1), of "nat (v div ?D)" "nat (v mod ?D)" r] q pos
    by (simp add: show_int_def)
qed

lemma display_scaled:
  assumes "0 < exponent (currency m)" "exponent (currency m) \<le> 4"
  shows "display m = Ok (show_int (minor_units m sdiv 10 ^ exponent (currency m)) @ ''.'' @
    pad_zero (exponent (currency m)) (show_nat (nat \<bar>minor_units m smod 10 ^ exponent (currency m)\<bar>)) @
    '' '' @ code (currency m))"
  using assms pow10_i64 by (auto simp: display_def Let_def i64_val_def)

section \<open>Properties\<close>

text \<open>
  Addition of amounts is exact and reversible: it succeeds only within one currency and
  inside \<^verbatim>\<open>i64\<close>, the sum is again a machine amount of that currency, addition commutes, and
  subtracting the second summand gives the first one back.
\<close>

theorem checked_add_reversible:
  assumes "money_wf a" and "checked_add a b = Ok c"
  shows "money_wf c \<and> currency c = currency a \<and> minor_units c = minor_units a + minor_units b
    \<and> checked_add b a = Ok c \<and> checked_sub c b = Ok a"
  using assms by (auto simp: money_wf_def add.commute intro: money_eqI)

theorem checked_add_reversible_witness:
  "checked_sub (from_minor 350 USD) (from_minor 250 USD) = Ok (from_minor 100 USD)"
proof -
  have "money_wf (from_minor 100 USD)" "checked_add (from_minor 100 USD) (from_minor 250 USD) = Ok (from_minor 350 USD)"
    by (auto simp: money_wf_def from_minor_def in_i64_def)
  from checked_add_reversible [OF this] show ?thesis by blast
qed

text \<open>
  Rendering an amount loses nothing as long as the amount is not a negative fraction of one
  major unit: for every currency \<^verbatim>\<open>try_new\<close> accepts and every amount that is non-negative or at
  most \<^verbatim>\<open>-10^exponent\<close>, \<^verbatim>\<open>Display\<close> succeeds and reading the text back gives the amount.
\<close>

theorem display_read_back:
  assumes "exponent (currency m) \<le> 4"
    and "0 \<le> minor_units m \<or> minor_units m \<le> - (10 ^ exponent (currency m))"
  shows "\<exists>s. display m = Ok s \<and> read_minor (exponent (currency m)) s = minor_units m"
proof (cases "exponent (currency m) = 0")
  case True
  then have d: "display m = Ok (show_int (minor_units m) @ '' '' @ code (currency m))"
    by (simp add: display_def)
  have "read_minor 0 (show_int (minor_units m) @ '' '' @ code (currency m)) = minor_units m"
    by (cases "minor_units m < 0") (use read_minor_whole in \<open>auto simp: show_int_def\<close>)
  with d True show ?thesis by auto
next
  case False
  let ?ex = "exponent (currency m)" and ?u = "minor_units m"
  have "display m = Ok (scaled_text ?ex ?u @ '' '' @ code (currency m))"
    using display_scaled [of m] False assms(1) by simp
  moreover have "read_minor ?ex (scaled_text ?ex ?u @ '' '' @ code (currency m)) = ?u"
    using assms(2) False read_minor_nonneg [of ?ex ?u] read_minor_neg [of ?ex "- ?u"] by fastforce
  ultimately show ?thesis by blast
qed

theorem display_read_back_witness:
  "\<exists>s. display (from_minor 1234 USD) = Ok s \<and> read_minor 2 s = 1234"
  using display_read_back [of "from_minor 1234 USD"] by (simp add: from_minor_def USD_def)

text \<open>
  The remaining amounts are rendered without their sign: an amount strictly between minus
  one major unit and zero prints exactly like its absolute value, so the text of a small
  negative amount is that of the positive one.
\<close>

theorem display_drops_small_sign:
  assumes "0 < k" and "k < 10 ^ exponent c" and "0 < exponent c" and "exponent c \<le> 4"
  shows "display (from_minor (- k) c) = display (from_minor k c)"
proof -
  have "k sdiv 10 ^ exponent c = 0" "k smod 10 ^ exponent c = k"
    using assms by (simp_all add: sdiv_nonneg_eq_div smod_nonneg_eq_mod)
  then show ?thesis
    using assms sdiv_neg [of "10 ^ exponent c" k] smod_neg [of "10 ^ exponent c" k]
    by (simp add: display_scaled from_minor_def)
qed

theorem display_drops_small_sign_witness:
  "display (from_minor (- 50) USD) = display (from_minor 50 USD)
   \<and> display (from_minor 50 USD) = Ok ''0.50 USD''"
proof
  show "display (from_minor (- 50) USD) = display (from_minor 50 USD)"
    by (rule display_drops_small_sign) (auto simp: USD_def)
  show "display (from_minor 50 USD) = Ok ''0.50 USD''" by code_simp
qed

text \<open>
  \<^verbatim>\<open>Currency::try_new\<close> accepts exactly the codes of three ASCII capitals with an exponent of
  at most four, and the code of an accepted currency reads back as its three letters.
\<close>

theorem try_new_accepts:
  "if (\<forall>l \<in> set [x, y, z]. 65 \<le> (of_char l :: nat) \<and> of_char l \<le> (90 :: nat)) \<and> ex \<le> 4
   then \<exists>c. try_new (x, y, z) ex = Ok c \<and> code c = [x, y, z] \<and> exponent c = ex
   else try_new (x, y, z) ex = Err InvalidCurrency"
  by (auto simp: try_new_def code_def code_bytes_def)

theorem try_new_accepts_witness:
  "\<exists>c. try_new (CHR ''A'', CHR ''E'', CHR ''D'') 2 = Ok c \<and> code c = ''AED'' \<and> exponent c = 2"
  using try_new_accepts [of "CHR ''A''" "CHR ''E''" "CHR ''D''" 2] by simp

end
