(* ===== verification/Refund.thy ===== *)
theory Refund
  imports Ext_Store Money
begin

text \<open>
  \<^verbatim>\<open>op-refund\<close>: the refund record, its state machine and the in-memory store
  (\<^verbatim>\<open>crates/op-refund/src/refund.rs\<close>, \<^verbatim>\<open>reason.rs\<close>, \<^verbatim>\<open>store.rs\<close>, \<^verbatim>\<open>error.rs\<close>).
  A method that mutates \<^verbatim>\<open>&mut self\<close> and returns \<^verbatim>\<open>Result<()>\<close> is a function to the new record.
  Ids inside error messages are kept as ids; the source renders them with \<^verbatim>\<open>to_string\<close>.
\<close>

section \<open>Data\<close>

datatype refund_reason =
    CustomerRequest
  | DuplicateCharge
  | FraudulentCharge
  | MerchantInitiated
  | DisputeResolution
  | OtherRefund string

fun refund_reason_code :: "refund_reason \<Rightarrow> string" where
  "refund_reason_code CustomerRequest = ''customer_request''"
| "refund_reason_code DuplicateCharge = ''duplicate_charge''"
| "refund_reason_code FraudulentCharge = ''fraudulent_charge''"
| "refund_reason_code MerchantInitiated = ''merchant_initiated''"
| "refund_reason_code DisputeResolution = ''dispute_resolution''"
| "refund_reason_code (OtherRefund _) = ''other''"

datatype refund_error =
    RefundInvalid string
  | RefundNotFound uuid
  | RefundInvalidTransition uuid string
  | RefundIdempotencyMismatch string
  | RefundAmountExceeded int int
  | RefundCore core_error

datatype refund_status =
    Requested
  | Submitted string
  | Approved string
  | Settled string nat
  | Declined string string
  | RefundFailed string string

fun refund_is_terminal :: "refund_status \<Rightarrow> bool" where
  "refund_is_terminal (Settled _ _) = True"
| "refund_is_terminal (Declined _ _) = True"
| "refund_is_terminal (RefundFailed _ _) = True"
| "refund_is_terminal _ = False"

fun refund_status_code :: "refund_status \<Rightarrow> string" where
  "refund_status_code Requested = ''requested''"
| "refund_status_code (Submitted _) = ''submitted''"
| "refund_status_code (Approved _) = ''approved''"
| "refund_status_code (Settled _ _) = ''settled''"
| "refund_status_code (Declined _ _) = ''declined''"
| "refund_status_code (RefundFailed _ _) = ''failed''"

record refund =
  rf_id :: uuid
  rf_original_tx_id :: uuid
  rf_external_id :: "string option"
  rf_amount :: money
  rf_reason :: refund_reason
  rf_status :: refund_status
  rf_requested_at :: nat
  rf_metadata :: "(string \<times> string) list"

definition new_refund :: "uuid \<Rightarrow> uuid \<Rightarrow> money \<Rightarrow> refund_reason \<Rightarrow> nat \<Rightarrow> (refund, refund_error) result" where
  "new_refund uid tx amt rsn at_secs =
     (if minor_units amt < 0
      then Err (RefundInvalid (''refund amount must be non-negative, got '' @ show_int (minor_units amt)))
      else Ok \<lparr>rf_id = uid, rf_original_tx_id = tx, rf_external_id = None, rf_amount = amt,
               rf_reason = rsn, rf_status = Requested, rf_requested_at = at_secs, rf_metadata = []\<rparr>)"

definition refund_with_external_id :: "refund \<Rightarrow> string \<Rightarrow> refund" where
  "refund_with_external_id r e = r\<lparr>rf_external_id := Some e\<rparr>"

definition refund_with_metadata :: "refund \<Rightarrow> string \<Rightarrow> string \<Rightarrow> refund" where
  "refund_with_metadata r k v = r\<lparr>rf_metadata := rf_metadata r @ [(k, v)]\<rparr>"

section \<open>State transitions\<close>

abbreviation refund_blocked :: "refund \<Rightarrow> (refund, refund_error) result" where
  "refund_blocked r \<equiv> Err (RefundInvalidTransition (rf_id r) (refund_status_code (rf_status r)))"

definition submit :: "refund \<Rightarrow> string \<Rightarrow> (refund, refund_error) result" where
  [transition_defs]: "submit r psp =
     (case rf_status r of Requested \<Rightarrow> Ok (r\<lparr>rf_status := Submitted psp\<rparr>) | _ \<Rightarrow> refund_blocked r)"

definition approve :: "refund \<Rightarrow> (refund, refund_error) result" where
  [transition_defs]: "approve r =
     (case rf_status r of Submitted psp \<Rightarrow> Ok (r\<lparr>rf_status := Approved psp\<rparr>) | _ \<Rightarrow> refund_blocked r)"

definition settle :: "refund \<Rightarrow> nat \<Rightarrow> (refund, refund_error) result" where
  [transition_defs]: "settle r at_secs =
     (case rf_status r of
        Submitted psp \<Rightarrow> Ok (r\<lparr>rf_status := Settled psp at_secs\<rparr>)
      | Approved psp \<Rightarrow> Ok (r\<lparr>rf_status := Settled psp at_secs\<rparr>)
      | _ \<Rightarrow> refund_blocked r)"

definition decline :: "refund \<Rightarrow> string \<Rightarrow> string \<Rightarrow> (refund, refund_error) result" where
  [transition_defs]: "decline r c msg =
     (if refund_is_terminal (rf_status r) then refund_blocked r
      else Ok (r\<lparr>rf_status := Declined c msg\<rparr>))"

definition fail_after_approval :: "refund \<Rightarrow> string \<Rightarrow> string \<Rightarrow> (refund, refund_error) result" where
  [transition_defs]: "fail_after_approval r c msg =
     (case rf_status r of Approved _ \<Rightarrow> Ok (r\<lparr>rf_status := RefundFailed c msg\<rparr>) | _ \<Rightarrow> refund_blocked r)"

text \<open>One call of a transition method on a refund.\<close>

datatype refund_op =
    OpSubmit string | OpApprove | OpSettle nat | OpDecline string string | OpFail string string

fun apply_refund_op :: "refund_op \<Rightarrow> refund \<Rightarrow> (refund, refund_error) result" where
  "apply_refund_op (OpSubmit psp) r = submit r psp"
| "apply_refund_op OpApprove r = approve r"
| "apply_refund_op (OpSettle t) r = settle r t"
| "apply_refund_op (OpDecline c m) r = decline r c m"
| "apply_refund_op (OpFail c m) r = fail_after_approval r c m"

section \<open>The in-memory store\<close>

record refund_store =
  rs_refunds :: "(uuid, refund) hashmap"
  rs_by_external_id :: "(string, uuid) hashmap"

definition refund_store_new :: refund_store where
  "refund_store_new = \<lparr>rs_refunds = [], rs_by_external_id = []\<rparr>"

text \<open>The bag of metadata pairs as the counting \<^verbatim>\<open>HashMap\<close> the source builds; two such maps are
  equal when they hold the same counts.\<close>

fun bag_of :: "'a list \<Rightarrow> ('a, nat) hashmap" where
  "bag_of ps = foldl (\<lambda>bag p. hm_insert p (Suc (case hm_get bag p of None \<Rightarrow> 0 | Some n \<Rightarrow> n)) bag) [] ps"

definition refund_bodies_equivalent :: "refund \<Rightarrow> refund \<Rightarrow> bool" where
  "refund_bodies_equivalent a b \<longleftrightarrow>
     (if rf_original_tx_id a \<noteq> rf_original_tx_id b \<or> rf_amount a \<noteq> rf_amount b
         \<or> rf_reason a \<noteq> rf_reason b \<or> rf_external_id a \<noteq> rf_external_id b then False
      else if length (rf_metadata a) \<noteq> length (rf_metadata b) then False
      else hm_eq (bag_of (rf_metadata a)) (bag_of (rf_metadata b)))"

definition create_refund :: "refund_store \<Rightarrow> refund \<Rightarrow> refund_store \<times> (uuid, refund_error) result" where
  "create_refund s r =
     (case rf_external_id r of
        Some e \<Rightarrow>
          (case hm_get (rs_by_external_id s) e of
             Some existing_id \<Rightarrow>
               (case hm_get (rs_refunds s) existing_id of
                  None \<Rightarrow> (s, Panic)
                | Some existing \<Rightarrow>
                    if refund_bodies_equivalent existing r then (s, Ok existing_id)
                    else (s, Err (RefundIdempotencyMismatch e)))
           | None \<Rightarrow>
               (s\<lparr>rs_by_external_id := hm_insert e (rf_id r) (rs_by_external_id s),
                  rs_refunds := hm_insert (rf_id r) r (rs_refunds s)\<rparr>, Ok (rf_id r)))
      | None \<Rightarrow> (s\<lparr>rs_refunds := hm_insert (rf_id r) r (rs_refunds s)\<rparr>, Ok (rf_id r)))"

definition get_refund :: "refund_store \<Rightarrow> uuid \<Rightarrow> (refund, refund_error) result" where
  "get_refund s i = ok_or (hm_get (rs_refunds s) i) (RefundNotFound i)"

definition refund_find_by_external_id :: "refund_store \<Rightarrow> string \<Rightarrow> refund option" where
  "refund_find_by_external_id s e =
     (case hm_get (rs_by_external_id s) e of None \<Rightarrow> None | Some i \<Rightarrow> hm_get (rs_refunds s) i)"

definition refunds_for_tx :: "refund_store \<Rightarrow> uuid \<Rightarrow> refund list" where
  "refunds_for_tx s tx = filter (\<lambda>r. rf_original_tx_id r = tx) (hm_values (rs_refunds s))"

definition update_refund ::
  "refund_store \<Rightarrow> uuid \<Rightarrow> (refund \<Rightarrow> (refund, refund_error) result) \<Rightarrow> refund_store \<times> (refund, refund_error) result" where
  "update_refund s i f =
     (case hm_get (rs_refunds s) i of
        None \<Rightarrow> (s, Err (RefundNotFound i))
      | Some existing \<Rightarrow>
          (case f existing of
             Ok staged \<Rightarrow> (s\<lparr>rs_refunds := hm_insert i staged (rs_refunds s)\<rparr>, Ok staged)
           | Err e \<Rightarrow> (s, Err e)
           | Panic \<Rightarrow> (s, Panic)))"

section \<open>Lemmas on the state machine\<close>

lemma apply_refund_op_keeps:
  "apply_refund_op rop r = Ok q \<Longrightarrow>
   rf_id q = rf_id r \<and> rf_external_id q = rf_external_id r \<and> rf_amount q = rf_amount r
   \<and> rf_original_tx_id q = rf_original_tx_id r \<and> rf_reason q = rf_reason r \<and> rf_metadata q = rf_metadata r"
  by (cases rop) (auto simp: transition_defs split: refund_status.splits if_splits)

lemma apply_refund_op_terminal:
  "refund_is_terminal (rf_status r) \<Longrightarrow> apply_refund_op rop r = refund_blocked r"
  by (cases rop) (auto simp: transition_defs split: refund_status.splits)

lemma apply_refund_op_no_panic [simp]: "apply_refund_op rop r \<noteq> Panic"
  by (cases rop) (auto simp: transition_defs split: refund_status.splits)

fun refund_rank :: "refund_status \<Rightarrow> nat" where
  "refund_rank Requested = 0"
| "refund_rank (Submitted _) = 1"
| "refund_rank (Approved _) = 2"
| "refund_rank _ = 3"

lemma refund_rank_terminal: "refund_is_terminal st \<longleftrightarrow> refund_rank st = 3" "refund_rank st \<le> 3"
  by (cases st; simp)+

lemma apply_refund_op_rank:
  "apply_refund_op rop r = Ok q \<Longrightarrow> refund_rank (rf_status r) < refund_rank (rf_status q)"
  using refund_rank_terminal [of "rf_status r"]
  by (cases rop) (auto simp: transition_defs split: refund_status.splits if_splits)

text \<open>The reference of the rail call a status carries.\<close>

fun psp_ref :: "refund_status \<Rightarrow> string option" where
  "psp_ref (Submitted p) = Some p"
| "psp_ref (Approved p) = Some p"
| "psp_ref (Settled p _) = Some p"
| "psp_ref _ = None"

lemma apply_refund_op_psp:
  "apply_refund_op rop r = Ok q \<Longrightarrow> psp_ref (rf_status r) = Some p \<Longrightarrow>
   psp_ref (rf_status q) = Some p \<or> (\<exists>c m. rf_status q = Declined c m \<or> rf_status q = RefundFailed c m)"
  by (cases rop) (auto simp: transition_defs split: refund_status.splits if_splits)

text \<open>Runs of successful calls.\<close>

fun run_refund :: "refund_op list \<Rightarrow> refund \<Rightarrow> (refund, refund_error) result" where
  "run_refund [] r = Ok r"
| "run_refund (x # xs) r = rbind (apply_refund_op x r) (run_refund xs)"

lemma run_refund_rank: "run_refund xs r = Ok q \<Longrightarrow> refund_rank (rf_status r) + length xs \<le> refund_rank (rf_status q)"
  by (induction xs arbitrary: r) (fastforce dest: apply_refund_op_rank)+

lemma run_refund_keeps:
  "run_refund xs r = Ok q \<Longrightarrow> rf_id q = rf_id r \<and> rf_external_id q = rf_external_id r \<and> rf_amount q = rf_amount r"
  by (induction xs arbitrary: r) (auto dest!: apply_refund_op_keeps)

lemma run_refund_psp:
  "run_refund xs r = Ok q \<Longrightarrow> psp_ref (rf_status r) = Some p \<Longrightarrow> psp_ref (rf_status q) = Some p'
   \<Longrightarrow> p' = p"
proof (induction xs arbitrary: r)
  case (Cons x xs)
  then obtain m where m: "apply_refund_op x r = Ok m" "run_refund xs m = Ok q" by auto
  from apply_refund_op_psp [OF m(1) Cons.prems(2)] show ?case
  proof
    assume "psp_ref (rf_status m) = Some p"
    with Cons m show ?thesis by blast
  next
    assume "\<exists>c msg. rf_status m = Declined c msg \<or> rf_status m = RefundFailed c msg"
    then have "refund_is_terminal (rf_status m)" "psp_ref (rf_status m) = None" by auto
    with m(2) Cons.prems(3) show ?thesis
      by (cases xs) (auto simp: apply_refund_op_terminal)
  qed
qed auto

section \<open>Lemmas on body equality\<close>

lemma bag_of_get:
  "hm_get (bag_of xs) x = (if x \<in> set xs then Some (count_list xs x) else None)"
proof -
  have "hm_get (foldl (\<lambda>bag p. hm_insert p (Suc (case hm_get bag p of None \<Rightarrow> 0 | Some n \<Rightarrow> n)) bag) m xs) x
      = (if x \<in> set xs then Some (count_list xs x + (case hm_get m x of None \<Rightarrow> 0 | Some n \<Rightarrow> n)) else hm_get m x)" for m
    by (induction xs arbitrary: m) (auto split: option.splits)
  then show ?thesis by simp
qed

lemma bag_of_wf: "hm_wf (bag_of xs)"
proof -
  have "hm_wf m \<Longrightarrow> hm_wf (foldl (\<lambda>bag p. hm_insert p (Suc (case hm_get bag p of None \<Rightarrow> 0 | Some n \<Rightarrow> n)) bag) m xs)" for m
    by (induction xs arbitrary: m) (auto simp: hm.wf_insert)
  then show ?thesis by simp
qed

text \<open>The counting comparison of the source is equality of the metadata as multisets.\<close>

lemma bag_eq_mset: "hm_eq (bag_of xs) (bag_of ys) \<longleftrightarrow> mset xs = mset ys"
proof -
  have "hm_get (bag_of xs) = hm_get (bag_of ys) \<longleftrightarrow> mset xs = mset ys"
  proof
    assume eq: "hm_get (bag_of xs) = hm_get (bag_of ys)"
    show "mset xs = mset ys"
    proof (rule multiset_eqI)
      fix x
      from fun_cong [OF eq, of x] show "count (mset xs) x = count (mset ys) x"
        unfolding bag_of_get count_mset by (auto split: if_splits simp: count_list_0_iff)
    qed
  next
    assume "mset xs = mset ys"
    then show "hm_get (bag_of xs) = hm_get (bag_of ys)"
      unfolding bag_of_get [abs_def] fun_eq_iff bag_of_get
      by (metis count_mset mset_eq_setD)
  qed
  then show ?thesis by (simp only: hm_eq_iff [OF bag_of_wf bag_of_wf])
qed

lemma refund_bodies_equivalent_iff:
  "refund_bodies_equivalent a b \<longleftrightarrow>
     rf_original_tx_id a = rf_original_tx_id b \<and> rf_amount a = rf_amount b \<and> rf_reason a = rf_reason b
     \<and> rf_external_id a = rf_external_id b \<and> mset (rf_metadata a) = mset (rf_metadata b)"
  unfolding refund_bodies_equivalent_def bag_eq_mset by (auto dest: mset_eq_length)

section \<open>The store implements the shared contract\<close>

interpretation refunds: ext_store_update rs_refunds rs_by_external_id create_refund rf_id rf_external_id
  refund_bodies_equivalent RefundIdempotencyMismatch "\<lambda>_ _. True" "\<lambda>_ _. True" update_refund RefundNotFound
  by unfold_locales (auto simp: create_refund_def update_refund_def split: option.splits result.splits)

text \<open>The stores a client can reach: creations under freshly minted ids and transitions of rows.\<close>

inductive refund_reach :: "refund_store \<Rightarrow> bool" where
  reach_new: "refund_reach refund_store_new"
| reach_create: "refund_reach s \<Longrightarrow> hm_get (rs_refunds s) (rf_id r) = None \<Longrightarrow> refund_reach (fst (create_refund s r))"
| reach_update: "refund_reach s \<Longrightarrow> refund_reach (fst (update_refund s i (apply_refund_op rop)))"

lemma refund_reach_ok: "refund_reach s \<Longrightarrow> refunds.ok s"
proof (induction rule: refund_reach.induct)
  case reach_new
  show ?case by (simp add: refund_store_new_def index_ok_empty)
next
  case (reach_create s r)
  then show ?case by (intro refunds.create_ok)
next
  case (reach_update s i rop)
  then show ?case by (intro refunds.update_ok) (auto dest: apply_refund_op_keeps)
qed

lemma run_from_submitted:
  assumes "run_refund xs r = Ok q" and "rf_status r = Submitted p" and "rf_status q = Settled p' t"
  shows "p' = p \<and> (xs = [OpSettle t] \<or> xs = [OpApprove, OpSettle t])"
proof -
  have len: "length xs \<le> 2" using run_refund_rank [OF assms(1)] assms(2,3) by simp
  show ?thesis
  proof (cases xs)
    case Nil
    with assms show ?thesis by simp
  next
    case (Cons x ys)
    with len show ?thesis
      using assms
      by (cases ys; cases x; cases "hd ys")
         (auto simp: transition_defs apply_refund_op_terminal split: refund_status.splits if_splits)
  qed
qed

text \<open>A concrete refund for the closed instances below.\<close>

abbreviation sample_refund :: "string option \<Rightarrow> refund_status \<Rightarrow> refund" where
  "sample_refund e st \<equiv> \<lparr>rf_id = 1, rf_original_tx_id = 2, rf_external_id = e, rf_amount = from_minor 500 USD,
     rf_reason = CustomerRequest, rf_status = st, rf_requested_at = 10, rf_metadata = []\<rparr>"

section \<open>Properties\<close>

text \<open>
  The only way to a settled refund: from a freshly constructed refund, a run of successful
  transition calls that ends in \<^verbatim>\<open>Settled\<close> is submit-then-settle or submit-approve-settle, the
  settled record carries the PSP id of that submission and the settlement time of the last call,
  and id, external id and amount are the ones of construction.
\<close>

theorem refund_settles_only_after_submit:
  assumes "new_refund uid tx amt rsn at0 = Ok r" and "run_refund ops r = Ok q"
    and "rf_status q = Settled p t"
  shows "(ops = [OpSubmit p, OpSettle t] \<or> ops = [OpSubmit p, OpApprove, OpSettle t])
    \<and> rf_id q = uid \<and> rf_external_id q = None \<and> rf_amount q = amt"
proof -
  have r: "rf_status r = Requested" "rf_id r = uid" "rf_external_id r = None" "rf_amount r = amt"
    using assms(1) by (auto simp: new_refund_def split: if_splits)
  from assms r obtain x xs where ops: "ops = x # xs" by (cases ops) auto
  then obtain m where m: "apply_refund_op x r = Ok m" "run_refund xs m = Ok q" using assms(2) by auto
  have "\<not> refund_is_terminal (rf_status m)"
    using m(2) assms(3) m(1) r(1) by (cases xs; cases x) (auto simp: transition_defs apply_refund_op_terminal)
  with m(1) r(1) obtain p' where x: "x = OpSubmit p'" "rf_status m = Submitted p'"
    by (cases x) (auto simp: transition_defs)
  with run_from_submitted [OF m(2) x(2) assms(3)] ops run_refund_keeps [OF assms(2)] r show ?thesis by auto
qed

theorem refund_settles_only_after_submit_witness:
  "new_refund 1 2 (from_minor 500 USD) CustomerRequest 10 = Ok (sample_refund None Requested)
   \<and> run_refund [OpSubmit ''psp'', OpSettle 99] (sample_refund None Requested)
       = Ok (sample_refund None (Settled ''psp'' 99))
   \<and> rf_id (sample_refund None (Settled ''psp'' 99)) = 1"
proof -
  have 1: "new_refund 1 2 (from_minor 500 USD) CustomerRequest 10 = Ok (sample_refund None Requested)"
    by (simp add: new_refund_def from_minor_def)
  have 2: "run_refund [OpSubmit ''psp'', OpSettle 99] (sample_refund None Requested)
       = Ok (sample_refund None (Settled ''psp'' 99))"
    by (simp add: transition_defs)
  from refund_settles_only_after_submit [OF 1 2, of "''psp''" 99] 1 2 show ?thesis by simp
qed

text \<open>
  A settled, declined or failed refund is final: every transition method refuses it with
  \<^verbatim>\<open>InvalidTransition\<close>, naming the refund and its state, and a store update with that method
  leaves the store as it was.
\<close>

theorem refund_terminal_is_final:
  assumes "hm_get (rs_refunds s) i = Some r" and "refund_is_terminal (rf_status r)"
  shows "update_refund s i (apply_refund_op rop)
    = (s, Err (RefundInvalidTransition (rf_id r) (refund_status_code (rf_status r))))"
  using refunds.update_refused [OF assms(1), of "apply_refund_op rop"] apply_refund_op_terminal [OF assms(2)]
  by simp

theorem refund_terminal_is_final_witness:
  "let s = \<lparr>rs_refunds = [(1, sample_refund None (Declined ''c'' ''m''))], rs_by_external_id = []\<rparr>
   in update_refund s 1 (apply_refund_op OpApprove) = (s, Err (RefundInvalidTransition 1 ''declined''))"
proof -
  have "hm_get (rs_refunds \<lparr>rs_refunds = [(1, sample_refund None (Declined ''c'' ''m''))], rs_by_external_id = []\<rparr>) 1
      = Some (sample_refund None (Declined ''c'' ''m''))"
    by (simp add: hm_get_def)
  from refund_terminal_is_final [OF this, of OpApprove] show ?thesis by simp
qed

text \<open>
  The \<^verbatim>\<open>expect\<close> in \<^verbatim>\<open>create_refund\<close> never fires: in every store reachable by creations under
  fresh ids and by transitions, no creation panics and no external id is shared by two refunds.
\<close>

theorem refund_store_sound:
  assumes "refund_reach s"
  shows "snd (create_refund s r) \<noteq> Panic
    \<and> (\<forall>i j p q e. hm_get (rs_refunds s) i = Some p \<longrightarrow> hm_get (rs_refunds s) j = Some q
         \<longrightarrow> rf_external_id p = Some e \<longrightarrow> rf_external_id q = Some e \<longrightarrow> i = j)"
  using refunds.create_no_panic [OF refund_reach_ok [OF assms]] refunds.ext_unique [OF refund_reach_ok [OF assms]]
  by blast

theorem refund_store_sound_witness:
  "snd (create_refund refund_store_new (sample_refund (Some ''e'') Requested)) \<noteq> Panic"
  using refund_store_sound [OF reach_new] by blast

text \<open>
  Refund creation is idempotent on the external id.  After a successful creation, creating
  again under the same external id never changes the store: it returns the first id exactly
  when original transaction, amount, reason and the metadata as a bag agree with the stored
  row, and \<^verbatim>\<open>IdempotencyMismatch\<close> otherwise.
\<close>

theorem refund_create_idempotent:
  assumes "refund_reach s" and "hm_get (rs_refunds s) (rf_id r) = None"
    and "create_refund s r = (s', Ok i)" and "rf_external_id r = Some e" and "rf_external_id r2 = Some e"
  shows "create_refund s' r2 =
    (s', if rf_original_tx_id r2 = rf_original_tx_id r \<and> rf_amount r2 = rf_amount r
            \<and> rf_reason r2 = rf_reason r \<and> mset (rf_metadata r2) = mset (rf_metadata r)
         then Ok i else Err (RefundIdempotencyMismatch e))"
proof -
  from refunds.create_retry [OF refund_reach_ok [OF assms(1)] assms(2-5)]
  obtain q where q: "q = r \<or> refund_bodies_equivalent q r"
    "create_refund s' r2 = (s', if refund_bodies_equivalent q r2 then Ok i else Err (RefundIdempotencyMismatch e))"
    by auto
  have "refund_bodies_equivalent q r2 \<longleftrightarrow> rf_original_tx_id r2 = rf_original_tx_id r \<and> rf_amount r2 = rf_amount r
            \<and> rf_reason r2 = rf_reason r \<and> mset (rf_metadata r2) = mset (rf_metadata r)"
    using q(1) assms(4,5) by (auto simp: refund_bodies_equivalent_iff)
  with q(2) show ?thesis by simp
qed

theorem refund_create_idempotent_witness:
  "let s = fst (create_refund refund_store_new (sample_refund (Some ''e'') Requested))
   in create_refund s (sample_refund (Some ''e'') Requested\<lparr>rf_id := 7, rf_requested_at := 99\<rparr>) = (s, Ok 1)"
proof -
  let ?r = "sample_refund (Some ''e'') Requested"
  have "create_refund refund_store_new ?r = (fst (create_refund refund_store_new ?r), Ok 1)"
    by (simp add: create_refund_def refund_store_new_def)
  from refund_create_idempotent [OF reach_new _ this, of "''e''" "?r\<lparr>rf_id := 7, rf_requested_at := 99\<rparr>"]
  show ?thesis by (simp add: refund_store_new_def)
qed

end
