(* ===== verification/Dispute.thy ===== *)
theory Dispute
  imports Ext_Store Money "HOL-Library.Sublist"
begin

text \<open>
  \<^verbatim>\<open>op-dispute\<close>: the chargeback record, its state machine with evidence, and the in-memory store
  (\<^verbatim>\<open>crates/op-dispute/src/dispute.rs\<close>, \<^verbatim>\<open>evidence.rs\<close>, \<^verbatim>\<open>reason.rs\<close>, \<^verbatim>\<open>store.rs\<close>,
  \<^verbatim>\<open>error.rs\<close>).  The conventions are those of the refund theory; the lifecycle is a step relation,
  because evidence may be attached at any point before resolution.
\<close>

section \<open>Data\<close>

datatype dispute_error =
    DisputeInvalid string
  | DisputeNotFound uuid
  | DisputeInvalidTransition uuid string
  | DisputeIdempotencyMismatch string
  | DisputeCore core_error

datatype dispute_reason =
    Fraudulent
  | ProductNotReceived
  | NotAsDescribed
  | Duplicate
  | CancelledSubscription
  | CreditNotProcessed
  | AuthorizationIssue
  | ProcessingError
  | OtherDispute string

fun dispute_reason_code :: "dispute_reason \<Rightarrow> string" where
  "dispute_reason_code Fraudulent = ''fraudulent''"
| "dispute_reason_code ProductNotReceived = ''product_not_received''"
| "dispute_reason_code NotAsDescribed = ''not_as_described''"
| "dispute_reason_code Duplicate = ''duplicate''"
| "dispute_reason_code CancelledSubscription = ''cancelled_subscription''"
| "dispute_reason_code CreditNotProcessed = ''credit_not_processed''"
| "dispute_reason_code AuthorizationIssue = ''authorization_issue''"
| "dispute_reason_code ProcessingError = ''processing_error''"
| "dispute_reason_code (OtherDispute _) = ''other''"

record evidence_ref =
  ev_kind :: string
  ev_url :: string
  ev_note :: "string option"
  ev_attached_at :: nat

definition new_evidence :: "string \<Rightarrow> string \<Rightarrow> nat \<Rightarrow> evidence_ref" where
  "new_evidence kind url at_secs = \<lparr>ev_kind = kind, ev_url = url, ev_note = None, ev_attached_at = at_secs\<rparr>"

definition with_note :: "evidence_ref \<Rightarrow> string \<Rightarrow> evidence_ref" where
  "with_note ev note = ev\<lparr>ev_note := Some note\<rparr>"

datatype dispute_status = Inquiry | Chargeback | Representment | Won | Lost | Accepted

fun dispute_is_terminal :: "dispute_status \<Rightarrow> bool" where
  "dispute_is_terminal Won = True"
| "dispute_is_terminal Lost = True"
| "dispute_is_terminal Accepted = True"
| "dispute_is_terminal _ = False"

fun dispute_status_code :: "dispute_status \<Rightarrow> string" where
  "dispute_status_code Inquiry = ''inquiry''"
| "dispute_status_code Chargeback = ''chargeback''"
| "dispute_status_code Representment = ''representment''"
| "dispute_status_code Won = ''won''"
| "dispute_status_code Lost = ''lost''"
| "dispute_status_code Accepted = ''accepted''"

record dispute =
  dp_id :: uuid
  dp_original_tx_id :: uuid
  dp_external_id :: "string option"
  dp_amount :: money
  dp_reason :: dispute_reason
  dp_network_reason_code :: "string option"
  dp_status :: dispute_status
  dp_opened_at :: nat
  dp_due_by :: "nat option"
  dp_evidence :: "evidence_ref list"
  dp_metadata :: "(string \<times> string) list"

definition new_dispute :: "uuid \<Rightarrow> uuid \<Rightarrow> money \<Rightarrow> dispute_reason \<Rightarrow> nat \<Rightarrow> (dispute, dispute_error) result" where
  "new_dispute uid tx amt rsn at_secs =
     (if minor_units amt < 0
      then Err (DisputeInvalid (''dispute amount must be non-negative, got '' @ show_int (minor_units amt)))
      else Ok \<lparr>dp_id = uid, dp_original_tx_id = tx, dp_external_id = None, dp_amount = amt, dp_reason = rsn,
               dp_network_reason_code = None, dp_status = Chargeback, dp_opened_at = at_secs,
               dp_due_by = None, dp_evidence = [], dp_metadata = []\<rparr>)"

definition with_status :: "dispute \<Rightarrow> dispute_status \<Rightarrow> dispute" where
  "with_status d st = d\<lparr>dp_status := st\<rparr>"

definition dispute_with_external_id :: "dispute \<Rightarrow> string \<Rightarrow> dispute" where
  "dispute_with_external_id d e = d\<lparr>dp_external_id := Some e\<rparr>"

definition with_network_reason_code :: "dispute \<Rightarrow> string \<Rightarrow> dispute" where
  "with_network_reason_code d c = d\<lparr>dp_network_reason_code := Some c\<rparr>"

definition with_due_by :: "dispute \<Rightarrow> nat \<Rightarrow> dispute" where
  "with_due_by d t = d\<lparr>dp_due_by := Some t\<rparr>"

definition dispute_with_metadata :: "dispute \<Rightarrow> string \<Rightarrow> string \<Rightarrow> dispute" where
  "dispute_with_metadata d k v = d\<lparr>dp_metadata := dp_metadata d @ [(k, v)]\<rparr>"

section \<open>State transitions\<close>

abbreviation dispute_blocked :: "dispute \<Rightarrow> (dispute, dispute_error) result" where
  "dispute_blocked d \<equiv> Err (DisputeInvalidTransition (dp_id d) (dispute_status_code (dp_status d)))"

definition attach_evidence :: "dispute \<Rightarrow> evidence_ref \<Rightarrow> (dispute, dispute_error) result" where
  [transition_defs]: "attach_evidence d ev =
     (if dispute_is_terminal (dp_status d) then dispute_blocked d
      else Ok (d\<lparr>dp_evidence := dp_evidence d @ [ev]\<rparr>))"

definition escalate_to_chargeback :: "dispute \<Rightarrow> (dispute, dispute_error) result" where
  [transition_defs]: "escalate_to_chargeback d =
     (case dp_status d of Inquiry \<Rightarrow> Ok (d\<lparr>dp_status := Chargeback\<rparr>) | _ \<Rightarrow> dispute_blocked d)"

definition represent :: "dispute \<Rightarrow> (dispute, dispute_error) result" where
  [transition_defs]: "represent d =
     (case dp_status d of Chargeback \<Rightarrow> Ok (d\<lparr>dp_status := Representment\<rparr>) | _ \<Rightarrow> dispute_blocked d)"

definition resolve_won :: "dispute \<Rightarrow> (dispute, dispute_error) result" where
  [transition_defs]: "resolve_won d =
     (if dispute_is_terminal (dp_status d) then dispute_blocked d else Ok (d\<lparr>dp_status := Won\<rparr>))"

definition resolve_lost :: "dispute \<Rightarrow> (dispute, dispute_error) result" where
  [transition_defs]: "resolve_lost d =
     (if dispute_is_terminal (dp_status d) then dispute_blocked d else Ok (d\<lparr>dp_status := Lost\<rparr>))"

definition accept :: "dispute \<Rightarrow> (dispute, dispute_error) result" where
  [transition_defs]: "accept d =
     (if dispute_is_terminal (dp_status d) then dispute_blocked d else Ok (d\<lparr>dp_status := Accepted\<rparr>))"

inductive dispute_step :: "dispute \<Rightarrow> dispute \<Rightarrow> bool" where
  ds_attach: "attach_evidence d ev = Ok d' \<Longrightarrow> dispute_step d d'"
| ds_escalate: "escalate_to_chargeback d = Ok d' \<Longrightarrow> dispute_step d d'"
| ds_represent: "represent d = Ok d' \<Longrightarrow> dispute_step d d'"
| ds_won: "resolve_won d = Ok d' \<Longrightarrow> dispute_step d d'"
| ds_lost: "resolve_lost d = Ok d' \<Longrightarrow> dispute_step d d'"
| ds_accept: "accept d = Ok d' \<Longrightarrow> dispute_step d d'"

section \<open>The in-memory store\<close>

record dispute_store =
  ds_disputes :: "(uuid, dispute) hashmap"
  ds_by_external_id :: "(string, uuid) hashmap"

definition dispute_store_new :: dispute_store where
  "dispute_store_new = \<lparr>ds_disputes = [], ds_by_external_id = []\<rparr>"

definition dispute_bodies_equivalent :: "dispute \<Rightarrow> dispute \<Rightarrow> bool" where
  "dispute_bodies_equivalent a b \<longleftrightarrow>
     dp_original_tx_id a = dp_original_tx_id b \<and> dp_amount a = dp_amount b \<and> dp_reason a = dp_reason b
     \<and> dp_network_reason_code a = dp_network_reason_code b \<and> dp_external_id a = dp_external_id b"

definition create_dispute :: "dispute_store \<Rightarrow> dispute \<Rightarrow> dispute_store \<times> (uuid, dispute_error) result" where
  "create_dispute s d =
     (case dp_external_id d of
        Some e \<Rightarrow>
          (case hm_get (ds_by_external_id s) e of
             Some existing_id \<Rightarrow>
               (case hm_get (ds_disputes s) existing_id of
                  None \<Rightarrow> (s, Panic)
                | Some existing \<Rightarrow>
                    if dispute_bodies_equivalent existing d then (s, Ok existing_id)
                    else (s, Err (DisputeIdempotencyMismatch e)))
           | None \<Rightarrow>
               (s\<lparr>ds_by_external_id := hm_insert e (dp_id d) (ds_by_external_id s),
                  ds_disputes := hm_insert (dp_id d) d (ds_disputes s)\<rparr>, Ok (dp_id d)))
      | None \<Rightarrow> (s\<lparr>ds_disputes := hm_insert (dp_id d) d (ds_disputes s)\<rparr>, Ok (dp_id d)))"

definition get_dispute :: "dispute_store \<Rightarrow> uuid \<Rightarrow> (dispute, dispute_error) result" where
  "get_dispute s i = ok_or (hm_get (ds_disputes s) i) (DisputeNotFound i)"

definition dispute_find_by_external_id :: "dispute_store \<Rightarrow> string \<Rightarrow> dispute option" where
  "dispute_find_by_external_id s e =
     (case hm_get (ds_by_external_id s) e of None \<Rightarrow> None | Some i \<Rightarrow> hm_get (ds_disputes s) i)"

definition disputes_for_tx :: "dispute_store \<Rightarrow> uuid \<Rightarrow> dispute list" where
  "disputes_for_tx s tx = filter (\<lambda>d. dp_original_tx_id d = tx) (hm_values (ds_disputes s))"

definition update_dispute ::
  "dispute_store \<Rightarrow> uuid \<Rightarrow> (dispute \<Rightarrow> (dispute, dispute_error) result) \<Rightarrow> dispute_store \<times> (dispute, dispute_error) result" where
  "update_dispute s i f =
     (case hm_get (ds_disputes s) i of
        None \<Rightarrow> (s, Err (DisputeNotFound i))
      | Some existing \<Rightarrow>
          (case f existing of
             Ok staged \<Rightarrow> (s\<lparr>ds_disputes := hm_insert i staged (ds_disputes s)\<rparr>, Ok staged)
           | Err e \<Rightarrow> (s, Err e)
           | Panic \<Rightarrow> (s, Panic)))"

section \<open>Lemmas\<close>

interpretation disputes: ext_store_update ds_disputes ds_by_external_id create_dispute dp_id dp_external_id
  dispute_bodies_equivalent DisputeIdempotencyMismatch "\<lambda>_ _. True" "\<lambda>_ _. True" update_dispute DisputeNotFound
  by unfold_locales (auto simp: create_dispute_def update_dispute_def split: option.splits result.splits)

lemma dispute_step_keeps:
  "dispute_step d d' \<Longrightarrow> dp_id d' = dp_id d \<and> dp_external_id d' = dp_external_id d \<and> dp_amount d' = dp_amount d
     \<and> dp_original_tx_id d' = dp_original_tx_id d \<and> dp_reason d' = dp_reason d
     \<and> dp_network_reason_code d' = dp_network_reason_code d \<and> prefix (dp_evidence d) (dp_evidence d')"
  by (induction rule: dispute_step.induct) (auto simp: transition_defs split: dispute_status.splits if_splits)

lemma dispute_step_open: "dispute_step d d' \<Longrightarrow> \<not> dispute_is_terminal (dp_status d)"
  by (induction rule: dispute_step.induct) (auto simp: transition_defs split: dispute_status.splits if_splits)

text \<open>The order in which the statuses can appear.\<close>

fun dispute_rank :: "dispute_status \<Rightarrow> nat" where
  "dispute_rank Inquiry = 0"
| "dispute_rank Chargeback = 1"
| "dispute_rank Representment = 2"
| "dispute_rank _ = 3"

lemma dispute_rank_terminal: "dispute_rank st \<le> 3" "dispute_is_terminal st \<longleftrightarrow> dispute_rank st = 3"
  by (cases st; simp)+

lemma dispute_step_rank:
  "dispute_step d d' \<Longrightarrow> dp_status d' = dp_status d \<or> dispute_rank (dp_status d) < dispute_rank (dp_status d')"
  by (induction rule: dispute_step.induct)
     (auto simp: transition_defs split: dispute_status.splits if_splits,
      (metis dispute_rank_terminal le_neq_implies_less)+)

lemma dispute_steps_mono:
  "dispute_step\<^sup>*\<^sup>* d d' \<Longrightarrow> dispute_rank (dp_status d) \<le> dispute_rank (dp_status d')
     \<and> prefix (dp_evidence d) (dp_evidence d') \<and> dp_amount d' = dp_amount d \<and> dp_id d' = dp_id d"
proof (induction rule: rtranclp_induct)
  case (step y z)
  from dispute_step_rank [OF step(2)] dispute_step_keeps [OF step(2)] step(3) show ?case
    by (auto intro: prefix_order.trans)
qed simp

section \<open>Properties\<close>

text \<open>
  A dispute only moves forward along Inquiry, Chargeback, Representment, resolution; its
  evidence is only ever appended to, its id and amount never change, and once it is won, lost or
  accepted nothing about it changes any more.
\<close>

theorem dispute_lifecycle:
  assumes "dispute_step\<^sup>*\<^sup>* d d'"
  shows "dispute_rank (dp_status d) \<le> dispute_rank (dp_status d') \<and> prefix (dp_evidence d) (dp_evidence d')
    \<and> dp_amount d' = dp_amount d \<and> dp_id d' = dp_id d \<and> (dispute_is_terminal (dp_status d) \<longrightarrow> d' = d)"
proof -
  have "dispute_is_terminal (dp_status d) \<Longrightarrow> d' = d"
    using assms by (cases rule: converse_rtranclpE) (auto dest: dispute_step_open)
  with dispute_steps_mono [OF assms] show ?thesis by blast
qed

abbreviation sample_dispute :: "dispute_status \<Rightarrow> evidence_ref list \<Rightarrow> dispute" where
  "sample_dispute st evs \<equiv> \<lparr>dp_id = 1, dp_original_tx_id = 2, dp_external_id = Some ''e'',
     dp_amount = from_minor 700 EUR, dp_reason = Fraudulent, dp_network_reason_code = None, dp_status = st,
     dp_opened_at = 5, dp_due_by = None, dp_evidence = evs, dp_metadata = []\<rparr>"

theorem dispute_lifecycle_witness:
  "prefix (dp_evidence (sample_dispute Chargeback []))
     (dp_evidence (sample_dispute Representment [new_evidence ''receipt'' ''u'' 6]))"
proof -
  let ?a = "sample_dispute Chargeback []" and ?b = "sample_dispute Chargeback [new_evidence ''receipt'' ''u'' 6]"
    and ?c = "sample_dispute Representment [new_evidence ''receipt'' ''u'' 6]"
  have "dispute_step ?a ?b" by (rule ds_attach [of _ "new_evidence ''receipt'' ''u'' 6"]) (simp add: transition_defs)
  moreover have "dispute_step ?b ?c" by (rule ds_represent) (simp add: transition_defs)
  ultimately have "dispute_step\<^sup>*\<^sup>* ?a ?c" by (rule converse_rtranclp_into_rtranclp [OF _ r_into_rtranclp])
  from dispute_lifecycle [OF this] show ?thesis by blast
qed

text \<open>
  Dispute creation is idempotent on the external id, also after the dispute has moved on.
  In a store whose index is consistent, create a dispute and then update it through a lifecycle
  method: the index stays consistent, and re-creating a dispute under the same external id
  leaves the store unchanged; it returns the first id when transaction, amount, reason and
  network code agree with the created body and \<^verbatim>\<open>IdempotencyMismatch\<close> otherwise.
\<close>

theorem dispute_create_idempotent:
  assumes ok: "index_ok dp_id dp_external_id (ds_disputes s) (ds_by_external_id s)"
    and fresh: "hm_get (ds_disputes s) (dp_id d) = None"
    and created: "create_dispute s d = (s1, Ok i)" and e: "dp_external_id d = Some e"
    and updated: "update_dispute s1 i f = (s2, Ok d')" and f: "\<forall>x y. f x = Ok y \<longrightarrow> dispute_step x y"
    and e2: "dp_external_id d2 = Some e"
  shows "index_ok dp_id dp_external_id (ds_disputes s2) (ds_by_external_id s2)
    \<and> create_dispute s2 d2 =
        (s2, if dispute_bodies_equivalent d d2 then Ok i else Err (DisputeIdempotencyMismatch e))"
proof
  have ok1: "disputes.ok s1" using disputes.create_ok [OF ok fresh] created by simp
  then show "disputes.ok s2"
    using disputes.update_ok [of s1 f i] updated f by (auto dest: dispute_step_keeps)
  from disputes.create_Ok_row [OF ok fresh created e] obtain q
    where q: "hm_get (ds_disputes s1) i = Some q" "hm_get (ds_by_external_id s1) e = Some i"
      "q = d \<or> dispute_bodies_equivalent q d" by blast
  from disputes.update_OkE [OF updated] q(1)
  have u: "f q = Ok d'" "ds_disputes s2 = hm_insert i d' (ds_disputes s1)" "ds_by_external_id s2 = ds_by_external_id s1"
    by auto
  have "dispute_bodies_equivalent d' d2 \<longleftrightarrow> dispute_bodies_equivalent d d2"
    using q(3) dispute_step_keeps [of q d'] f u(1) by (auto simp: dispute_bodies_equivalent_def)
  with disputes.create_hit [of d2 e s2 i d'] u q e2 show "create_dispute s2 d2 =
        (s2, if dispute_bodies_equivalent d d2 then Ok i else Err (DisputeIdempotencyMismatch e))"
    by simp
qed

theorem dispute_create_idempotent_witness:
  "let s1 = fst (create_dispute dispute_store_new (sample_dispute Chargeback []));
       s2 = fst (update_dispute s1 1 represent)
   in create_dispute s2 (sample_dispute Chargeback []\<lparr>dp_id := 9\<rparr>) = (s2, Ok 1)"
proof -
  let ?d = "sample_dispute Chargeback []"
  let ?s1 = "fst (create_dispute dispute_store_new ?d)"
  let ?s2 = "fst (update_dispute ?s1 1 represent)"
  have ok: "disputes.ok dispute_store_new" by (simp add: dispute_store_new_def index_ok_empty)
  have c: "create_dispute dispute_store_new ?d = (?s1, Ok 1)"
    by (simp add: create_dispute_def dispute_store_new_def)
  have u: "update_dispute ?s1 1 represent = (?s2, Ok (sample_dispute Representment []))"
    by (simp add: create_dispute_def update_dispute_def dispute_store_new_def represent_def)
  have fr: "hm_get (ds_disputes dispute_store_new) (dp_id ?d) = None" by (simp add: dispute_store_new_def)
  have st: "\<forall>x y. represent x = Ok y \<longrightarrow> dispute_step x y" by (auto intro: ds_represent)
  from dispute_create_idempotent [OF ok fr c _ u st, of "''e''" "?d\<lparr>dp_id := 9\<rparr>"]
  show ?thesis by (simp add: Let_def dispute_bodies_equivalent_def del: One_nat_def)
qed

end
