(* ===== verification/Payment.thy ===== *)
theory Payment
  imports Money
begin

text \<open>
  The payment lifecycle of \<^verbatim>\<open>op-core\<close> (\<^verbatim>\<open>crates/op-core/src/payment.rs\<close>, \<^verbatim>\<open>method.rs\<close>,
  \<^verbatim>\<open>rails.rs\<close>).  The typestate marker of \<^verbatim>\<open>Payment<S>\<close> is the first component of a
  configuration: the methods of \<^verbatim>\<open>impl Payment<S>\<close> are functions on the record, and the step
  relation \<open>pay_step\<close> applies each of them only in the state whose \<^verbatim>\<open>impl\<close> block holds it,
  which is what the type checker enforces in the source.
\<close>

section \<open>Payment methods and rails\<close>

type_synonym vault_ref = string
type_synonym token = "nat list"

datatype a2a_key = Upi string | Pix string | Iban string | UsAch string string

record crypto_address =
  chain :: string
  address :: string

text \<open>\<open>RawPan\<close> exists under the \<^verbatim>\<open>pci-scope\<close> feature, which the orchestrator is built with.\<close>

record raw_pan =
  rp_pan :: string
  rp_exp_month :: nat
  rp_exp_year :: nat

datatype payment_method =
    Vault vault_ref
  | Wallet token
  | Emv token
  | A2a a2a_key
  | Qr string
  | Crypto crypto_address
  | RawPan raw_pan

datatype rail_kind = RailCard | RailA2a | RailWallet | RailQr | RailCrypto

section \<open>The payment record and its transitions\<close>

datatype payment_state = Created | Authorized | Captured | Voided | Refunded | Failed

fun state_name :: "payment_state \<Rightarrow> string" where
  "state_name Created = ''Created''"
| "state_name Authorized = ''Authorized''"
| "state_name Captured = ''Captured''"
| "state_name Voided = ''Voided''"
| "state_name Refunded = ''Refunded''"
| "state_name Failed = ''Failed''"

record payment =
  pay_id :: uuid
  amount :: money
  captured :: money
  refunded :: money
  pay_method :: payment_method
  rail :: rail_kind
  rail_ref :: "string option"

definition new_payment :: "uuid \<Rightarrow> money \<Rightarrow> payment_method \<Rightarrow> rail_kind \<Rightarrow> payment" where
  "new_payment uid amt meth rl =
     \<lparr>pay_id = uid, amount = amt, captured = zero (currency amt), refunded = zero (currency amt),
      pay_method = meth, rail = rl, rail_ref = None\<rparr>"

definition authorize :: "payment \<Rightarrow> string \<Rightarrow> payment" where
  [transition_defs]: "authorize p r = p\<lparr>rail_ref := Some r\<rparr>"

definition fail :: "payment \<Rightarrow> string \<Rightarrow> payment" where
  [transition_defs]: "fail p reason = p\<lparr>rail_ref := Some reason\<rparr>"

definition capture :: "payment \<Rightarrow> money \<Rightarrow> (payment, core_error) result" where
  [transition_defs]: "capture p amt =
     rbind (checked_add (captured p) amt) (\<lambda>new_captured.
       if minor_units new_captured > minor_units (amount p)
       then Err (IllegalTransition (state_name Authorized) (state_name Captured))
       else Ok (p\<lparr>captured := new_captured\<rparr>))"

definition void :: "payment \<Rightarrow> payment" where
  [transition_defs]: "void p = p"

definition refund :: "payment \<Rightarrow> money \<Rightarrow> (payment, core_error) result" where
  [transition_defs]: "refund p amt =
     rbind (checked_add (refunded p) amt) (\<lambda>new_refunded.
       if minor_units new_refunded > minor_units (captured p)
       then Err (IllegalTransition (state_name Captured) (state_name Refunded))
       else Ok (p\<lparr>refunded := new_refunded\<rparr>))"

section \<open>The lifecycle as a step relation\<close>

datatype pay_event = EvAuthorize string | EvFail string | EvCapture money | EvVoid | EvRefund money

inductive pay_step :: "payment_state \<times> payment \<Rightarrow> pay_event \<Rightarrow> payment_state \<times> payment \<Rightarrow> bool" where
  step_authorize: "pay_step (Created, p) (EvAuthorize r) (Authorized, authorize p r)"
| step_fail: "pay_step (Created, p) (EvFail r) (Failed, fail p r)"
| step_capture: "capture p amt = Ok q \<Longrightarrow> pay_step (Authorized, p) (EvCapture amt) (Captured, q)"
| step_void: "pay_step (Authorized, p) EvVoid (Voided, void p)"
| step_refund: "refund p amt = Ok q \<Longrightarrow> pay_step (Captured, p) (EvRefund amt) (Refunded, q)"

inductive_cases pay_step_CreatedE: "pay_step (Created, p) ev c"
inductive_cases pay_step_AuthorizedE: "pay_step (Authorized, p) ev c"
inductive_cases pay_step_CapturedE: "pay_step (Captured, p) ev c"
inductive_simps pay_step_Voided [simp]: "pay_step (Voided, p) ev c"
inductive_simps pay_step_Refunded [simp]: "pay_step (Refunded, p) ev c"
inductive_simps pay_step_Failed [simp]: "pay_step (Failed, p) ev c"

inductive pay_trace :: "payment_state \<times> payment \<Rightarrow> pay_event list \<Rightarrow> payment_state \<times> payment \<Rightarrow> bool" where
  trace_nil: "pay_trace c [] c"
| trace_snoc: "pay_trace c evs d \<Longrightarrow> pay_step d ev e \<Longrightarrow> pay_trace c (evs @ [ev]) e"

fun event_amount :: "pay_event \<Rightarrow> money option" where
  "event_amount (EvCapture m) = Some m"
| "event_amount (EvRefund m) = Some m"
| "event_amount _ = None"

definition nonneg_event :: "pay_event \<Rightarrow> bool" where
  "nonneg_event ev \<longleftrightarrow> (case event_amount ev of None \<Rightarrow> True | Some m \<Rightarrow> 0 \<le> minor_units m)"

section \<open>Invariants\<close>

text \<open>What every configuration reached from a fresh payment satisfies, whatever the amounts.\<close>

fun lifecycle_inv :: "payment \<Rightarrow> payment_state \<times> payment \<Rightarrow> bool" where
  "lifecycle_inv p0 (st, p) \<longleftrightarrow>
     pay_id p = pay_id p0 \<and> amount p = amount p0 \<and> pay_method p = pay_method p0 \<and> rail p = rail p0
     \<and> currency (captured p) = currency (amount p0) \<and> currency (refunded p) = currency (amount p0)
     \<and> (rail_ref p = None \<longleftrightarrow> st = Created)
     \<and> (st \<notin> {Captured, Refunded} \<longrightarrow> minor_units (captured p) = 0)
     \<and> (st \<noteq> Refunded \<longrightarrow> minor_units (refunded p) = 0)
     \<and> (st \<in> {Captured, Refunded} \<longrightarrow> minor_units (captured p) \<le> minor_units (amount p0))
     \<and> (st = Refunded \<longrightarrow> minor_units (refunded p) \<le> minor_units (captured p))"

text \<open>With non-negative requests the three amounts are ordered.\<close>

fun ordered_amounts :: "payment_state \<times> payment \<Rightarrow> bool" where
  "ordered_amounts (st, p) \<longleftrightarrow>
     0 \<le> minor_units (refunded p) \<and> minor_units (refunded p) \<le> minor_units (captured p)
     \<and> minor_units (captured p) \<le> minor_units (amount p)"

lemma lifecycle_inv_new: "lifecycle_inv (new_payment i a m r) (Created, new_payment i a m r)"
  by (simp add: new_payment_def zero_def)

lemma lifecycle_inv_step: "pay_step c ev d \<Longrightarrow> lifecycle_inv p0 c \<Longrightarrow> lifecycle_inv p0 d"
  by (induction rule: pay_step.induct) (auto simp: transition_defs split: if_splits)

lemma ordered_amounts_step:
  "pay_step c ev d \<Longrightarrow> nonneg_event ev \<Longrightarrow> ordered_amounts c \<Longrightarrow> lifecycle_inv p0 c \<Longrightarrow> ordered_amounts d"
  by (induction rule: pay_step.induct) (auto simp: transition_defs nonneg_event_def split: if_splits)

lemma lifecycle_inv_trace: "pay_trace c evs d \<Longrightarrow> lifecycle_inv p0 c \<Longrightarrow> lifecycle_inv p0 d"
  by (induction rule: pay_trace.induct) (auto intro: lifecycle_inv_step)

lemma ordered_amounts_trace:
  "pay_trace c evs d \<Longrightarrow> list_all nonneg_event evs \<Longrightarrow> ordered_amounts c \<Longrightarrow> lifecycle_inv p0 c \<Longrightarrow> ordered_amounts d"
proof (induction rule: pay_trace.induct)
  case (trace_snoc c evs d ev e)
  then have "ordered_amounts d" "lifecycle_inv p0 d" by (auto intro: lifecycle_inv_trace)
  with trace_snoc show ?case by (auto intro: ordered_amounts_step)
qed

text \<open>The position of a state on the lifecycle; every step moves strictly forward.\<close>

fun stage :: "payment_state \<Rightarrow> nat" where
  "stage Created = 0"
| "stage Authorized = 1"
| "stage Captured = 2"
| "stage _ = 3"

lemma pay_step_stage: "pay_step c ev d \<Longrightarrow> stage (fst c) < stage (fst d)"
  by (induction rule: pay_step.induct) auto

lemma pay_trace_stage: "pay_trace c evs d \<Longrightarrow> stage (fst c) + length evs \<le> stage (fst d)"
  by (induction rule: pay_trace.induct) (auto dest: pay_step_stage)

lemma stage_le_3: "stage s \<le> 3"
  by (cases s) auto

lemma trace_authorize: "pay_trace (Created, p) [EvAuthorize r] (Authorized, authorize p r)"
  using trace_snoc [OF trace_nil step_authorize] by simp

lemma trace_authorize_capture:
  assumes "capture (authorize p r) amt = Ok q"
  shows "pay_trace (Created, p) [EvAuthorize r, EvCapture amt] (Captured, q)"
  using trace_snoc [OF trace_authorize step_capture [OF assms]] by simp

section \<open>Properties\<close>

text \<open>
  C17.  Payment lifecycle.  Whatever is requested of a fresh payment, in every configuration it
  can reach the id, the amount, the method and the rail are the original ones, all amounts share
  one currency, money is captured only in \<^verbatim>\<open>Captured\<close>/\<^verbatim>\<open>Refunded\<close> and never beyond the
  authorized amount, money is refunded only in \<^verbatim>\<open>Refunded\<close> and never beyond the captured amount,
  and at most three transitions happen.
\<close>

theorem payment_lifecycle:
  assumes "pay_trace (Created, new_payment i a m r) evs (st, p)"
  shows "lifecycle_inv (new_payment i a m r) (st, p) \<and> length evs \<le> 3"
  using lifecycle_inv_trace [OF assms lifecycle_inv_new] pay_trace_stage [OF assms] stage_le_3 [of st]
  by simp

theorem payment_lifecycle_witness:
  "\<exists>p. pay_trace (Created, new_payment 1 (from_minor 1000 USD) (Vault ''tok'') RailCard)
       [EvAuthorize ''a'', EvCapture (from_minor 400 USD)] (Captured, p)
     \<and> minor_units (captured p) = 400
     \<and> lifecycle_inv (new_payment 1 (from_minor 1000 USD) (Vault ''tok'') RailCard) (Captured, p)"
proof -
  let ?p0 = "new_payment 1 (from_minor 1000 USD) (Vault ''tok'') RailCard"
  let ?q = "(authorize ?p0 ''a'')\<lparr>captured := from_minor 400 USD\<rparr>"
  have t: "pay_trace (Created, ?p0) [EvAuthorize ''a'', EvCapture (from_minor 400 USD)] (Captured, ?q)"
    by (rule trace_authorize_capture)
       (simp add: transition_defs new_payment_def from_minor_def zero_def in_i64_def)
  from payment_lifecycle [OF t] have "lifecycle_inv ?p0 (Captured, ?q)" by blast
  with t show ?thesis by (intro exI [of _ ?q] conjI) (simp_all add: from_minor_def del: lifecycle_inv.simps)
qed

text \<open>
  When the payment amount and every captured and refunded amount requested are non-negative,
  every reachable configuration satisfies zero \<open>\<le>\<close> refunded \<open>\<le>\<close> captured \<open>\<le>\<close> amount.
\<close>

theorem payment_amounts_ordered:
  assumes "pay_trace (Created, new_payment i a m r) evs (st, p)"
    and "0 \<le> minor_units a" and "list_all nonneg_event evs"
  shows "0 \<le> minor_units (refunded p) \<and> minor_units (refunded p) \<le> minor_units (captured p)
    \<and> minor_units (captured p) \<le> minor_units (amount p)"
proof -
  have "ordered_amounts (Created, new_payment i a m r)"
    using assms(2) by (simp add: new_payment_def zero_def)
  from ordered_amounts_trace [OF assms(1,3) this lifecycle_inv_new] show ?thesis by simp
qed

theorem payment_amounts_ordered_witness:
  "\<exists>p. pay_trace (Created, new_payment 1 (from_minor 1000 USD) (Vault ''tok'') RailCard)
       [EvAuthorize ''a''] (Authorized, p)
     \<and> 0 \<le> minor_units (refunded p) \<and> minor_units (captured p) \<le> minor_units (amount p)"
proof -
  let ?p0 = "new_payment 1 (from_minor 1000 USD) (Vault ''tok'') RailCard"
  note t = trace_authorize [of ?p0 "''a''"]
  have "0 \<le> minor_units (from_minor 1000 USD)" "list_all nonneg_event [EvAuthorize ''a'']"
    by (simp_all add: from_minor_def nonneg_event_def)
  from payment_amounts_ordered [OF t this] t show ?thesis by blast
qed

text \<open>
  Capture does not check the sign of its argument: any authorized payment with a
  non-negative amount accepts the capture of any negative amount, and in the resulting
  \<^verbatim>\<open>Captured\<close> payment the refunded amount exceeds the captured one, against the field
  documentation \<^verbatim>\<open>refunded: always \<le> captured\<close>.
\<close>

theorem negative_capture_accepted:
  assumes "0 \<le> minor_units a" and "k < 0" and "in_i64 k"
  shows "\<exists>p. pay_trace (Created, new_payment i a m r) [EvAuthorize ref, EvCapture (from_minor k (currency a))] (Captured, p)
     \<and> minor_units (captured p) < minor_units (refunded p)"
proof -
  let ?p0 = "new_payment i a m r"
  let ?q = "(authorize ?p0 ref)\<lparr>captured := from_minor k (currency a)\<rparr>"
  have "pay_trace (Created, ?p0) [EvAuthorize ref, EvCapture (from_minor k (currency a))] (Captured, ?q)"
    by (rule trace_authorize_capture)
       (use assms in \<open>simp add: transition_defs new_payment_def from_minor_def zero_def\<close>)
  then show ?thesis
    using assms by (intro exI [of _ ?q]) (simp add: new_payment_def authorize_def from_minor_def zero_def)
qed

theorem negative_capture_accepted_witness:
  "\<exists>p. pay_trace (Created, new_payment 1 (from_minor 1000 USD) (Vault ''tok'') RailCard)
       [EvAuthorize ''a'', EvCapture (from_minor (- 5) USD)] (Captured, p)
     \<and> minor_units (captured p) < minor_units (refunded p)"
  using negative_capture_accepted [of "from_minor 1000 USD" "- 5" 1 "Vault ''tok''" RailCard "''a''"]
  by (simp add: from_minor_def in_i64_def)

end
