(* ===== verification/Ledger.thy ===== *)
theory Ledger
  imports Hash_Map Money "HOL-Library.Product_Lexorder"
begin

text \<open>
  \<^verbatim>\<open>op-ledger\<close>, the domain types: accounts, entries, balanced transactions and their lifecycle
  (\<^verbatim>\<open>crates/op-ledger/src/account.rs\<close>, \<^verbatim>\<open>entry.rs\<close>, \<^verbatim>\<open>transaction.rs\<close>, \<^verbatim>\<open>ledger.rs\<close>,
  \<^verbatim>\<open>balance.rs\<close>, \<^verbatim>\<open>error.rs\<close>).  The store that holds them is the theory \<open>Ledger_Store\<close>.

  \<open>side_sum\<close> is the specification the validation loop is proved against: the exact total of
  one side of a list of entries, per currency code.
\<close>

section \<open>Accounts\<close>

datatype normal_balance = NormalDebit | NormalCredit

datatype account_class = Asset | Liability | Equity | Revenue | Expense

fun conventional_normal_balance :: "account_class \<Rightarrow> normal_balance" where
  "conventional_normal_balance Asset = NormalDebit"
| "conventional_normal_balance Expense = NormalDebit"
| "conventional_normal_balance Liability = NormalCredit"
| "conventional_normal_balance Equity = NormalCredit"
| "conventional_normal_balance Revenue = NormalCredit"

record account =
  acc_id :: uuid
  acc_ledger_id :: uuid
  acc_name :: string
  acc_class :: account_class
  acc_normal_balance :: normal_balance
  acc_currency :: currency
  acc_external_id :: "string option"

definition new_account :: "uuid \<Rightarrow> uuid \<Rightarrow> string \<Rightarrow> account_class \<Rightarrow> currency \<Rightarrow> account" where
  "new_account uid lid nm cls cur =
     \<lparr>acc_id = uid, acc_ledger_id = lid, acc_name = nm, acc_class = cls,
      acc_normal_balance = conventional_normal_balance cls, acc_currency = cur, acc_external_id = None\<rparr>"

definition account_with_external_id :: "account \<Rightarrow> string \<Rightarrow> account" where
  "account_with_external_id a e = a\<lparr>acc_external_id := Some e\<rparr>"

definition with_normal_balance :: "account \<Rightarrow> normal_balance \<Rightarrow> account" where
  "with_normal_balance a nb = a\<lparr>acc_normal_balance := nb\<rparr>"

section \<open>Entries\<close>

datatype direction = Debit | Credit

text \<open>The derived \<^verbatim>\<open>Ord\<close>: declaration order.\<close>

instantiation direction :: linorder
begin

fun less_eq_direction :: "direction \<Rightarrow> direction \<Rightarrow> bool" where
  "less_eq_direction Debit _ = True"
| "less_eq_direction Credit d = (d = Credit)"

definition less_direction :: "direction \<Rightarrow> direction \<Rightarrow> bool" where
  "less_direction a b \<longleftrightarrow> a \<le> b \<and> \<not> b \<le> a"

instance
proof
  fix x y z :: direction
  show "x < y \<longleftrightarrow> x \<le> y \<and> \<not> y \<le> x" by (simp add: less_direction_def)
  show "x \<le> x" by (cases x) auto
  show "x \<le> z" if "x \<le> y" "y \<le> z" using that by (cases x; cases y; cases z) auto
  show "x = y" if "x \<le> y" "y \<le> x" using that by (cases x; cases y) auto
  show "x \<le> y \<or> y \<le> x" by (cases x; cases y) auto
qed

end

fun opposite :: "direction \<Rightarrow> direction" where
  "opposite Debit = Credit"
| "opposite Credit = Debit"

fun increases :: "direction \<Rightarrow> normal_balance \<Rightarrow> bool" where
  "increases Debit NormalDebit = True"
| "increases Credit NormalCredit = True"
| "increases _ _ = False"

record entry =
  en_account_id :: uuid
  en_direction :: direction
  en_amount :: money

definition new_entry :: "uuid \<Rightarrow> direction \<Rightarrow> money \<Rightarrow> entry" where
  "new_entry a d m = \<lparr>en_account_id = a, en_direction = d, en_amount = m\<rparr>"

definition debit :: "uuid \<Rightarrow> money \<Rightarrow> entry" where
  "debit a m = new_entry a Debit m"

definition credit :: "uuid \<Rightarrow> money \<Rightarrow> entry" where
  "credit a m = new_entry a Credit m"

definition reverse :: "entry \<Rightarrow> entry" where
  "reverse e = \<lparr>en_account_id = en_account_id e, en_direction = opposite (en_direction e), en_amount = en_amount e\<rparr>"

section \<open>Errors, balances, ledgers\<close>

datatype tx_status = Pending | Posted | Archived

fun tx_is_terminal :: "tx_status \<Rightarrow> bool" where
  "tx_is_terminal Posted = True"
| "tx_is_terminal Archived = True"
| "tx_is_terminal Pending = False"

datatype ledger_error =
    Unbalanced string int int
  | TooFewEntries nat
  | LedgerCurrencyMismatch string string uuid
  | AccountNotFound uuid
  | CrossLedgerEntry uuid uuid uuid
  | LedgerIdempotencyMismatch
  | TerminalState uuid tx_status
  | TransactionNotFound uuid
  | LedgerNotFound uuid
  | LedgerInvalidInput string
  | LedgerCore core_error

record balance =
  bal_currency :: currency
  bal_posted :: money
  bal_pending :: money

definition zero_balance :: "currency \<Rightarrow> balance" where
  "zero_balance c = \<lparr>bal_currency = c, bal_posted = from_minor 0 c, bal_pending = from_minor 0 c\<rparr>"

definition balance_is_zero :: "balance \<Rightarrow> bool" where
  "balance_is_zero b \<longleftrightarrow> is_zero (bal_posted b) \<and> is_zero (bal_pending b)"

record ledger =
  lg_id :: uuid
  lg_name :: string
  lg_description :: "string option"

definition new_ledger :: "uuid \<Rightarrow> string \<Rightarrow> (ledger, ledger_error) result" where
  "new_ledger uid nm =
     (if nm = [] then Err (LedgerInvalidInput ''ledger name empty'')
      else Ok \<lparr>lg_id = uid, lg_name = nm, lg_description = None\<rparr>)"

definition ledger_with_description :: "ledger \<Rightarrow> string \<Rightarrow> ledger" where
  "ledger_with_description l d = l\<lparr>lg_description := Some d\<rparr>"

section \<open>Transactions\<close>

record transaction =
  tx_id :: uuid
  tx_ledger_id :: uuid
  tx_state :: tx_status
  tx_external_id :: "string option"
  tx_description :: "string option"
  tx_effective_at :: nat
  tx_entries :: "entry list"
  tx_metadata :: "(string \<times> string) list"

text \<open>The first loop of \<^verbatim>\<open>validate_balanced\<close>: the per-currency \<^verbatim>\<open>(debits, credits)\<close> tallies.\<close>

fun tally_entries ::
  "(string, int \<times> int) hashmap \<Rightarrow> entry list \<Rightarrow> ((string, int \<times> int) hashmap, ledger_error) result" where
  "tally_entries m [] = Ok m"
| "tally_entries m (e # es) =
     (let cur = code (currency (en_amount e));
          (d, c) = (case hm_get m cur of None \<Rightarrow> (0, 0) | Some p \<Rightarrow> p)
      in case en_direction e of
           Debit \<Rightarrow> rbind (ok_or (i64_checked_add d (minor_units (en_amount e))) (LedgerCore Overflow))
                      (\<lambda>d'. tally_entries (hm_insert cur (d', c) m) es)
         | Credit \<Rightarrow> rbind (ok_or (i64_checked_add c (minor_units (en_amount e))) (LedgerCore Overflow))
                      (\<lambda>c'. tally_entries (hm_insert cur (d, c') m) es))"

text \<open>The second loop: the first unequal tally in iteration order is reported.\<close>

fun check_tallies :: "(string, int \<times> int) hashmap \<Rightarrow> (unit, ledger_error) result" where
  "check_tallies [] = Ok ()"
| "check_tallies ((cur, d, c) # r) = (if d \<noteq> c then Err (Unbalanced cur d c) else check_tallies r)"

definition validate_balanced :: "entry list \<Rightarrow> (unit, ledger_error) result" where
  "validate_balanced es = rbind (tally_entries [] es) check_tallies"

definition construct :: "uuid \<Rightarrow> uuid \<Rightarrow> tx_status \<Rightarrow> nat \<Rightarrow> entry list \<Rightarrow> (transaction, ledger_error) result" where
  "construct uid lid st eff es =
     (if length es < 2 then Err (TooFewEntries (length es))
      else rbind (validate_balanced es) (\<lambda>_.
        Ok \<lparr>tx_id = uid, tx_ledger_id = lid, tx_state = st, tx_external_id = None, tx_description = None,
            tx_effective_at = eff, tx_entries = es, tx_metadata = []\<rparr>))"

definition new_pending :: "uuid \<Rightarrow> uuid \<Rightarrow> nat \<Rightarrow> entry list \<Rightarrow> (transaction, ledger_error) result" where
  "new_pending uid lid eff es = construct uid lid Pending eff es"

definition new_posted :: "uuid \<Rightarrow> uuid \<Rightarrow> nat \<Rightarrow> entry list \<Rightarrow> (transaction, ledger_error) result" where
  "new_posted uid lid eff es = construct uid lid Posted eff es"

definition tx_with_external_id :: "transaction \<Rightarrow> string \<Rightarrow> transaction" where
  "tx_with_external_id t e = t\<lparr>tx_external_id := Some e\<rparr>"

definition tx_with_description :: "transaction \<Rightarrow> string \<Rightarrow> transaction" where
  "tx_with_description t d = t\<lparr>tx_description := Some d\<rparr>"

definition tx_with_metadata :: "transaction \<Rightarrow> string \<Rightarrow> string \<Rightarrow> transaction" where
  "tx_with_metadata t k v = t\<lparr>tx_metadata := tx_metadata t @ [(k, v)]\<rparr>"

text \<open>\<open>ustr\<close> is the rendering of a UUID, code of the \<^verbatim>\<open>uuid\<close> crate.\<close>

definition reversal_of ::
  "(uuid \<Rightarrow> string) \<Rightarrow> uuid \<Rightarrow> transaction \<Rightarrow> nat \<Rightarrow> (transaction, ledger_error) result" where
  "reversal_of ustr uid original eff =
     rbind (new_pending uid (tx_ledger_id original) eff (map reverse (tx_entries original))) (\<lambda>t.
       let parent_id = (case tx_external_id original of Some e \<Rightarrow> e | None \<Rightarrow> ustr (tx_id original))
       in Ok (t\<lparr>tx_external_id := Some (parent_id @ '':reversal''),
                tx_description := Some (''Reversal of '' @ ustr (tx_id original)),
                tx_metadata := tx_metadata t @ [(''reverses'', ustr (tx_id original))]\<rparr>))"

definition post :: "transaction \<Rightarrow> (transaction, ledger_error) result" where
  [transition_defs]: "post t =
     (case tx_state t of Pending \<Rightarrow> Ok (t\<lparr>tx_state := Posted\<rparr>) | st \<Rightarrow> Err (TerminalState (tx_id t) st))"

definition archive :: "transaction \<Rightarrow> (transaction, ledger_error) result" where
  [transition_defs]: "archive t =
     (case tx_state t of Pending \<Rightarrow> Ok (t\<lparr>tx_state := Archived\<rparr>) | st \<Rightarrow> Err (TerminalState (tx_id t) st))"

section \<open>The specification of a balanced list of entries\<close>

definition side_sum :: "direction \<Rightarrow> string \<Rightarrow> entry list \<Rightarrow> int" where
  "side_sum d cur es =
     (\<Sum>e\<leftarrow>es. if en_direction e = d \<and> code (currency (en_amount e)) = cur then minor_units (en_amount e) else 0)"

definition codes_of :: "entry list \<Rightarrow> string set" where
  "codes_of es = (\<lambda>e. code (currency (en_amount e))) ` set es"

lemma side_sum_Nil [simp]: "side_sum d cur [] = 0"
  by (simp add: side_sum_def)

lemma side_sum_Cons [simp]:
  "side_sum d cur (e # es) =
     (if en_direction e = d \<and> code (currency (en_amount e)) = cur then minor_units (en_amount e) else 0)
     + side_sum d cur es"
  by (simp add: side_sum_def)

lemma side_sum_absent: "cur \<notin> codes_of es \<Longrightarrow> side_sum d cur es = 0"
  by (induction es) (auto simp: codes_of_def)

lemma opposite_opposite [simp]: "opposite (opposite d) = d"
  by (cases d) auto

lemma opposite_neq: "opposite d = e \<longleftrightarrow> d = opposite e"
  by (cases d; cases e) auto

lemma side_sum_reverse: "side_sum d cur (map reverse es) = side_sum (opposite d) cur es"
  by (induction es) (auto simp: reverse_def opposite_neq)

definition tally_at :: "(string, int \<times> int) hashmap \<Rightarrow> string \<Rightarrow> int \<times> int" where
  "tally_at m cur = (case hm_get m cur of None \<Rightarrow> (0, 0) | Some p \<Rightarrow> p)"

lemma tally_at_insert: "tally_at (hm_insert k p m) cur = (if cur = k then p else tally_at m cur)"
  by (simp add: tally_at_def)

lemma tally_at_Cons: "tally_at ((k, p) # r) cur = (if cur = k then p else tally_at r cur)"
  by (simp add: tally_at_def hm_get_def)

text \<open>What the tally loop computes: the exact sums, for exactly the currencies met.\<close>

lemma tally_entries_Ok:
  assumes "tally_entries m es = Ok m'" and "hm_wf m"
  shows "hm_wf m'" "dom (hm_get m') = dom (hm_get m) \<union> codes_of es"
    "tally_at m' cur = (fst (tally_at m cur) + side_sum Debit cur es, snd (tally_at m cur) + side_sum Credit cur es)"
proof -
  have "hm_wf m' \<and> dom (hm_get m') = dom (hm_get m) \<union> codes_of es \<and>
    tally_at m' cur = (fst (tally_at m cur) + side_sum Debit cur es, snd (tally_at m cur) + side_sum Credit cur es)"
    using assms
  proof (induction es arbitrary: m)
    case Nil
    then show ?case by (simp add: codes_of_def)
  next
    case (Cons e es)
    let ?k = "code (currency (en_amount e))" and ?a = "minor_units (en_amount e)"
    obtain d c where dc: "tally_at m ?k = (d, c)" by (cases "tally_at m ?k")
    define p where "p = (if en_direction e = Debit then (d + ?a, c) else (d, c + ?a))"
    have rec: "tally_entries (hm_insert ?k p m) es = Ok m'"
      using Cons.prems(1) dc
      by (cases "en_direction e")
         (auto simp: tally_at_def p_def Let_def i64_checked_add_def split: prod.splits)
    from Cons.IH [OF rec hm.wf_insert [OF Cons.prems(2)]] dc show ?case
      by (cases "en_direction e") (auto simp: tally_at_insert p_def codes_of_def dom_def)
  qed
  then show "hm_wf m'" "dom (hm_get m') = dom (hm_get m) \<union> codes_of es"
    "tally_at m' cur = (fst (tally_at m cur) + side_sum Debit cur es, snd (tally_at m cur) + side_sum Credit cur es)"
    by auto
qed

lemma check_tallies_Ok: "hm_wf m \<Longrightarrow> check_tallies m = Ok () \<longleftrightarrow> (\<forall>cur. fst (tally_at m cur) = snd (tally_at m cur))"
proof (induction m rule: check_tallies.induct)
  case (2 cur d c r)
  have fresh: "hm_get r cur = None" using 2(2) by (auto simp: hm_wf_def hm_get_def map_of_eq_None_iff)
  have zero: "tally_at r cur = (0, 0)" using fresh by (simp add: tally_at_def)
  have wf: "hm_wf r" using 2(2) by (simp add: hm_wf_def)
  show ?case
  proof (cases "d = c")
    case True
    then have "(\<forall>x. fst (tally_at ((cur, d, c) # r) x) = snd (tally_at ((cur, d, c) # r) x)) \<longleftrightarrow>
        (\<forall>x. fst (tally_at r x) = snd (tally_at r x))"
      by (intro all_cong1) (simp add: tally_at_Cons zero)
    with True 2(1) wf show ?thesis by simp
  next
    case False
    then have "fst (tally_at ((cur, d, c) # r) cur) \<noteq> snd (tally_at ((cur, d, c) # r) cur)" by (simp add: tally_at_Cons)
    then have "\<not> (\<forall>x. fst (tally_at ((cur, d, c) # r) x) = snd (tally_at ((cur, d, c) # r) x))" by blast
    with False show ?thesis by simp
  qed
qed (simp add: tally_at_def)

lemma check_tallies_Err:
  "hm_wf m \<Longrightarrow> check_tallies m = Err x \<Longrightarrow> \<exists>cur d c. x = Unbalanced cur d c \<and> tally_at m cur = (d, c) \<and> d \<noteq> c"
proof (induction m rule: check_tallies.induct)
  case (2 cur d c r)
  show ?case
  proof (cases "d = c")
    case True
    with 2 obtain cur' d' c' where IH: "x = Unbalanced cur' d' c'" "tally_at r cur' = (d', c')" "d' \<noteq> c'"
      by (auto simp: hm_wf_def)
    then have "hm_get r cur' \<noteq> None" by (auto simp: tally_at_def split: option.splits)
    with 2(2) have "cur' \<noteq> cur" by (auto simp: hm_wf_def hm_get_def map_of_eq_None_iff)
    with IH show ?thesis by (auto simp: tally_at_def hm_get_def)
  next
    case False
    with 2 show ?thesis by (auto simp: tally_at_def hm_get_def)
  qed
qed simp

lemma check_tallies_no_panic [simp]: "check_tallies m \<noteq> Panic"
  by (induction m rule: check_tallies.induct) auto

lemma tally_entries_no_panic [simp]: "tally_entries m es \<noteq> Panic"
  by (induction m es rule: tally_entries.induct)
     (auto simp: Let_def rbind_eq_Panic split: direction.splits prod.splits)

definition balanced :: "entry list \<Rightarrow> bool" where
  "balanced es \<longleftrightarrow> (\<forall>cur. side_sum Debit cur es = side_sum Credit cur es)"

lemma validate_balanced_Ok: "validate_balanced es = Ok () \<Longrightarrow> balanced es"
  using tally_entries_Ok [of "[]" es]
  by (auto simp: validate_balanced_def balanced_def check_tallies_Ok tally_at_def)

text \<open>Validation with the two sides exchanged.\<close>

definition swap_tallies :: "(string, int \<times> int) hashmap \<Rightarrow> (string, int \<times> int) hashmap" where
  "swap_tallies m = map (\<lambda>(k, d, c). (k, c, d)) m"

lemma swap_tallies_get: "hm_get (swap_tallies m) k = map_option prod.swap (hm_get m k)"
  by (induction m) (auto simp: swap_tallies_def hm_get_def)

lemma swap_tallies_insert: "swap_tallies (hm_insert k (d, c) m) = hm_insert k (c, d) (swap_tallies m)"
  by (induction m) (auto simp: swap_tallies_def hm_insert_def)

lemma tally_entries_reverse:
  "tally_entries m es = Ok m' \<Longrightarrow> tally_entries (swap_tallies m) (map reverse es) = Ok (swap_tallies m')"
proof (induction es arbitrary: m)
  case (Cons e es)
  then show ?case
    by (cases "en_direction e"; cases "hm_get m (code (currency (en_amount e)))")
       (auto simp: reverse_def Let_def swap_tallies_get swap_tallies_insert [symmetric])
qed simp

lemma check_tallies_swap: "check_tallies m = Ok () \<Longrightarrow> check_tallies (swap_tallies m) = Ok ()"
  by (induction m rule: check_tallies.induct) (auto simp: swap_tallies_def split: if_splits)

lemma validate_balanced_reverse: "validate_balanced es = Ok () \<Longrightarrow> validate_balanced (map reverse es) = Ok ()"
  using tally_entries_reverse [of "[]" es] check_tallies_swap
  by (fastforce simp: validate_balanced_def swap_tallies_def)

text \<open>Why validation fails: an overflow names a prefix whose exact total leaves the range.\<close>

definition pick :: "direction \<Rightarrow> int \<times> int \<Rightarrow> int" where
  "pick d p = (case d of Debit \<Rightarrow> fst p | Credit \<Rightarrow> snd p)"

lemma tally_entries_Err:
  "tally_entries m es = Err x \<Longrightarrow>
   x = LedgerCore Overflow \<and> (\<exists>k d cur. \<not> in_i64 (pick d (tally_at m cur) + side_sum d cur (take k es)))"
proof (induction es arbitrary: m)
  case (Cons e es)
  let ?k = "code (currency (en_amount e))" and ?a = "minor_units (en_amount e)" and ?d = "en_direction e"
  define v where "v = pick ?d (tally_at m ?k) + ?a"
  show ?case
  proof (cases "in_i64 v")
    case True
    define p where "p = (case ?d of Debit \<Rightarrow> (v, snd (tally_at m ?k)) | Credit \<Rightarrow> (fst (tally_at m ?k), v))"
    have "tally_entries (hm_insert ?k p m) es = Err x"
      using Cons.prems True
      by (cases ?d) (auto simp: tally_at_def p_def v_def pick_def Let_def i64_checked_add_def i64_of_def
        split: prod.splits option.splits)
    from Cons.IH [OF this] obtain k d cur where
      IH: "x = LedgerCore Overflow" "\<not> in_i64 (pick d (tally_at (hm_insert ?k p m) cur) + side_sum d cur (take k es))"
      by blast
    have "pick d (tally_at (hm_insert ?k p m) cur) + side_sum d cur (take k es)
        = pick d (tally_at m cur) + side_sum d cur (take (Suc k) (e # es))"
      by (cases ?d; cases d) (auto simp: tally_at_insert p_def v_def pick_def)
    with IH show ?thesis by metis
  next
    case False
    have "x = LedgerCore Overflow"
      using Cons.prems False
      by (cases ?d) (auto simp: tally_at_def v_def pick_def Let_def i64_checked_add_def i64_of_def
        split: prod.splits option.splits)
    moreover have "\<not> in_i64 (pick ?d (tally_at m ?k) + side_sum ?d ?k (take 1 (e # es)))"
      using False by (simp add: v_def)
    ultimately show ?thesis by blast
  qed
qed simp

definition prefix_overflow :: "entry list \<Rightarrow> bool" where
  "prefix_overflow es \<longleftrightarrow> (\<exists>k d cur. \<not> in_i64 (side_sum d cur (take k es)))"

lemma tally_from_empty_Err: "tally_entries [] es = Err x \<Longrightarrow> x = LedgerCore Overflow \<and> prefix_overflow es"
proof -
  assume "tally_entries [] es = Err x"
  from tally_entries_Err [OF this] obtain k d cur where
    "x = LedgerCore Overflow" "\<not> in_i64 (pick d (tally_at [] cur) + side_sum d cur (take k es))" by blast
  moreover have "pick d (tally_at [] cur) = 0" by (cases d) (simp_all add: pick_def tally_at_def)
  ultimately show ?thesis unfolding prefix_overflow_def by (metis add_0)
qed

lemma validate_balanced_Err:
  assumes "validate_balanced es = Err x"
  shows "x = LedgerCore Overflow \<and> prefix_overflow es
    \<or> (\<exists>cur. x = Unbalanced cur (side_sum Debit cur es) (side_sum Credit cur es)
         \<and> cur \<in> codes_of es \<and> side_sum Debit cur es \<noteq> side_sum Credit cur es)"
proof (cases "tally_entries [] es")
  case (Ok m)
  note facts = tally_entries_Ok [OF Ok hm.wf_empty]
  have "check_tallies m = Err x" using assms Ok by (simp add: validate_balanced_def)
  from check_tallies_Err [OF facts(1) this] obtain cur d c where
    x: "x = Unbalanced cur d c" "tally_at m cur = (d, c)" "d \<noteq> c" by blast
  with facts(3) [of cur] have sums: "d = side_sum Debit cur es" "c = side_sum Credit cur es"
    by (simp_all add: tally_at_def)
  with x(3) have "cur \<in> codes_of es" using side_sum_absent by metis
  with x sums show ?thesis by blast
next
  case (Err y)
  with assms have "y = x" by (simp add: validate_balanced_def)
  with tally_from_empty_Err [OF Err] show ?thesis by simp
qed simp

lemma validate_balanced_no_panic [simp]: "validate_balanced es \<noteq> Panic"
  by (simp add: validate_balanced_def rbind_eq_Panic)

section \<open>Per-account sums\<close>

definition acct_sum :: "direction \<Rightarrow> uuid \<Rightarrow> entry list \<Rightarrow> int" where
  "acct_sum d a es =
     (\<Sum>e\<leftarrow>es. if en_direction e = d \<and> en_account_id e = a then minor_units (en_amount e) else 0)"

lemma acct_sum_simps [simp]:
  "acct_sum d a [] = 0"
  "acct_sum d a (e # es) =
     (if en_direction e = d \<and> en_account_id e = a then minor_units (en_amount e) else 0) + acct_sum d a es"
  "acct_sum d a (xs @ ys) = acct_sum d a xs + acct_sum d a ys"
  by (simp_all add: acct_sum_def)

lemma acct_sum_reverse: "acct_sum d a (map reverse es) = acct_sum (opposite d) a es"
  by (induction es) (auto simp: reverse_def opposite_neq)

lemma reverse_reverse [simp]: "reverse (reverse e) = e"
  by (simp add: reverse_def)

section \<open>Properties\<close>

text \<open>
  C3.  Construction of a transaction, on every outcome.  It succeeds only with at least two
  entries whose debits equal their credits in every currency, and then stores them as given in the
  requested state; \<open>TooFewEntries\<close> reports the true number of entries; \<open>Unbalanced\<close> names a
  currency that occurs among the entries together with its two exact totals, which differ; the only
  other error is an overflow, which means the exact total of one side of a prefix of the entries
  leaves the 64-bit range.  Construction never panics.
\<close>

theorem construct_outcomes:
  "case construct uid lid st eff es of
     Ok t \<Rightarrow> 2 \<le> length es \<and> balanced es
       \<and> tx_entries t = es \<and> tx_state t = st \<and> tx_ledger_id t = lid \<and> tx_id t = uid \<and> tx_external_id t = None
   | Err (TooFewEntries n) \<Rightarrow> n = length es \<and> n < 2
   | Err (Unbalanced cur d c) \<Rightarrow> 2 \<le> length es \<and> cur \<in> codes_of es
       \<and> d = side_sum Debit cur es \<and> c = side_sum Credit cur es \<and> d \<noteq> c
   | Err x \<Rightarrow> x = LedgerCore Overflow \<and> prefix_overflow es
   | Panic \<Rightarrow> False"
proof (cases "length es < 2")
  case False
  show ?thesis
  proof (cases "validate_balanced es")
    case (Ok u)
    with False validate_balanced_Ok [of es] show ?thesis by (simp add: construct_def)
  next
    case (Err x)
    with False validate_balanced_Err [OF Err] show ?thesis by (auto simp: construct_def)
  qed simp
qed (simp add: construct_def)

text \<open>
  Reversal: every transaction that construction accepted has a reversal.  The reversal is a new
  pending transaction of the same ledger with the same accounts and amounts on the opposite sides;
  it is balanced, the two transactions together debit every account exactly as much as they credit
  it, and reversing the reversal gives back the original entries.
\<close>

theorem reversal_cancels:
  assumes "construct uid lid st eff es = Ok t"
  shows "\<exists>r. reversal_of ustr uid2 t eff2 = Ok r \<and> tx_state r = Pending \<and> tx_ledger_id r = lid \<and> balanced (tx_entries r)
    \<and> tx_external_id r = Some (ustr uid @ '':reversal'')
    \<and> (\<forall>a. acct_sum Debit a (tx_entries t @ tx_entries r) = acct_sum Credit a (tx_entries t @ tx_entries r))
    \<and> map reverse (tx_entries r) = tx_entries t"
proof -
  have ok: "validate_balanced es = Ok ()" "\<not> length es < 2" and
    t: "tx_entries t = es" "tx_ledger_id t = lid" "tx_id t = uid" "tx_external_id t = None"
    using assms by (auto simp: construct_def split: if_splits)
  have "validate_balanced (map reverse es) = Ok ()" by (rule validate_balanced_reverse [OF ok(1)])
  with ok t validate_balanced_Ok [of "map reverse es"] show ?thesis
    by (simp add: reversal_of_def new_pending_def construct_def Let_def acct_sum_reverse comp_def)
qed

abbreviation "sample_entries \<equiv>
  [debit 1 (from_minor 1000 USD), credit 2 (from_minor 970 USD), credit 3 (from_minor 30 USD)]"

lemma sample_construct:
  "construct 10 7 Posted 100 sample_entries = Ok
     \<lparr>tx_id = 10, tx_ledger_id = 7, tx_state = Posted, tx_external_id = None, tx_description = None,
      tx_effective_at = 100, tx_entries = sample_entries, tx_metadata = []\<rparr>"
  by code_simp

theorem reversal_cancels_witness:
  "\<exists>t r. construct 10 7 Posted 100 sample_entries = Ok t \<and> reversal_of show_nat 11 t 200 = Ok r
     \<and> balanced (tx_entries r)"
  using reversal_cancels [OF sample_construct, of show_nat 11 200] sample_construct by blast

text \<open>Entries of amount zero balance, so a transaction of nothing but zeros is accepted.\<close>

lemma zero_only_accepted:
  "\<exists>t. new_posted 10 7 100 [debit 1 (from_minor 0 USD), credit 2 (from_minor 0 USD)] = Ok t"
proof -
  have "validate_balanced [debit 1 (from_minor 0 USD), credit 2 (from_minor 0 USD)] = Ok ()" by code_simp
  then show ?thesis by (simp add: new_posted_def construct_def)
qed

end
