(* ===== verification/Ledger_Store.thy ===== *)
theory Ledger_Store
  imports Ledger Ext_Store
begin

text \<open>
  \<^verbatim>\<open>InMemoryLedgerStore\<close> of \<^verbatim>\<open>crates/op-ledger/src/store.rs\<close>: ledgers, accounts and transactions, the
  external-id index, posting, the pending-to-posted and pending-to-archived transitions, and the
  balance of an account as a walk over all transactions.

  The mutex is held for the whole body of each method, so a method is one atomic function on
  the state.  \<open>posted_sum\<close> and \<open>live_sum\<close> are the exact sums the walk is proved against, and
  \<open>ledger_step\<close> is the relation of the calls that change a store.
\<close>

section \<open>State and lookups\<close>

record ledger_store =
  ls_ledgers :: "(uuid, ledger) hashmap"
  ls_accounts :: "(uuid, account) hashmap"
  ls_transactions :: "(uuid, transaction) hashmap"
  ls_by_external_id :: "(string, uuid) hashmap"

definition ledger_store_new :: ledger_store where
  "ledger_store_new = \<lparr>ls_ledgers = [], ls_accounts = [], ls_transactions = [], ls_by_external_id = []\<rparr>"

definition ledger_count :: "ledger_store \<Rightarrow> nat" where
  "ledger_count s = length (ls_ledgers s)"

definition account_count :: "ledger_store \<Rightarrow> nat" where
  "account_count s = length (ls_accounts s)"

definition transaction_count :: "ledger_store \<Rightarrow> nat" where
  "transaction_count s = length (ls_transactions s)"

definition entry_key :: "entry \<Rightarrow> uuid \<times> direction \<times> int" where
  "entry_key e = (en_account_id e, en_direction e, minor_units (en_amount e))"

definition same_body :: "transaction \<Rightarrow> transaction \<Rightarrow> bool" where
  "same_body a b \<longleftrightarrow>
     (if tx_ledger_id a \<noteq> tx_ledger_id b then False
      else if length (tx_entries a) \<noteq> length (tx_entries b) then False
      else sort_key entry_key (tx_entries a) = sort_key entry_key (tx_entries b))"

definition create_ledger :: "ledger_store \<Rightarrow> ledger \<Rightarrow> ledger_store \<times> (uuid, ledger_error) result" where
  "create_ledger s l = (s\<lparr>ls_ledgers := hm_insert (lg_id l) l (ls_ledgers s)\<rparr>, Ok (lg_id l))"

definition get_ledger :: "ledger_store \<Rightarrow> uuid \<Rightarrow> (ledger, ledger_error) result" where
  "get_ledger s i = ok_or (hm_get (ls_ledgers s) i) (LedgerNotFound i)"

definition create_account :: "ledger_store \<Rightarrow> account \<Rightarrow> ledger_store \<times> (uuid, ledger_error) result" where
  "create_account s a =
     (if \<not> hm_contains_key (ls_ledgers s) (acc_ledger_id a) then (s, Err (LedgerNotFound (acc_ledger_id a)))
      else (s\<lparr>ls_accounts := hm_insert (acc_id a) a (ls_accounts s)\<rparr>, Ok (acc_id a)))"

definition get_account :: "ledger_store \<Rightarrow> uuid \<Rightarrow> (account, ledger_error) result" where
  "get_account s i = ok_or (hm_get (ls_accounts s) i) (AccountNotFound i)"

section \<open>Posting\<close>

text \<open>Step 3 of \<^verbatim>\<open>post_transaction\<close>: the first entry that fails decides the error.\<close>

fun check_entries :: "(uuid, account) hashmap \<Rightarrow> uuid \<Rightarrow> entry list \<Rightarrow> (unit, ledger_error) result" where
  "check_entries accts lid [] = Ok ()"
| "check_entries accts lid (e # es) =
     rbind (ok_or (hm_get accts (en_account_id e)) (AccountNotFound (en_account_id e))) (\<lambda>a.
       if acc_ledger_id a \<noteq> lid then Err (CrossLedgerEntry (en_account_id e) (acc_ledger_id a) lid)
       else if acc_currency a \<noteq> currency (en_amount e)
            then Err (LedgerCurrencyMismatch (code (currency (en_amount e))) (code (acc_currency a)) (en_account_id e))
       else check_entries accts lid es)"

definition post_transaction :: "ledger_store \<Rightarrow> transaction \<Rightarrow> ledger_store \<times> (uuid, ledger_error) result" where
  "post_transaction s t =
     (if \<not> hm_contains_key (ls_ledgers s) (tx_ledger_id t) then (s, Err (LedgerNotFound (tx_ledger_id t)))
      else case Option.bind (tx_external_id t) (hm_get (ls_by_external_id s)) of
        Some existing_id \<Rightarrow>
          (s, rbind (ok_or (hm_get (ls_transactions s) existing_id) (TransactionNotFound existing_id)) (\<lambda>existing.
                if \<not> same_body existing t then Err LedgerIdempotencyMismatch else Ok existing_id))
      | None \<Rightarrow>
          (case check_entries (ls_accounts s) (tx_ledger_id t) (tx_entries t) of
             Ok _ \<Rightarrow>
               (s\<lparr>ls_by_external_id := (case tx_external_id t of None \<Rightarrow> ls_by_external_id s
                                        | Some e \<Rightarrow> hm_insert e (tx_id t) (ls_by_external_id s)),
                  ls_transactions := hm_insert (tx_id t) t (ls_transactions s)\<rparr>, Ok (tx_id t))
           | Err x \<Rightarrow> (s, Err x)
           | Panic \<Rightarrow> (s, Panic)))"

definition get_transaction :: "ledger_store \<Rightarrow> uuid \<Rightarrow> (transaction, ledger_error) result" where
  "get_transaction s i = ok_or (hm_get (ls_transactions s) i) (TransactionNotFound i)"

definition ledger_find_by_external_id :: "ledger_store \<Rightarrow> string \<Rightarrow> (transaction option, ledger_error) result" where
  "ledger_find_by_external_id s e = Ok (Option.bind (hm_get (ls_by_external_id s) e) (hm_get (ls_transactions s)))"

text \<open>\<^verbatim>\<open>get_mut\<close> followed by a transition of the row in place.\<close>

definition mark_posted :: "ledger_store \<Rightarrow> uuid \<Rightarrow> ledger_store \<times> (unit, ledger_error) result" where
  "mark_posted s i =
     (case hm_get (ls_transactions s) i of
        None \<Rightarrow> (s, Err (TransactionNotFound i))
      | Some t \<Rightarrow> (case post t of
           Ok t' \<Rightarrow> (s\<lparr>ls_transactions := hm_insert i t' (ls_transactions s)\<rparr>, Ok ())
         | Err x \<Rightarrow> (s, Err x)
         | Panic \<Rightarrow> (s, Panic)))"

definition mark_archived :: "ledger_store \<Rightarrow> uuid \<Rightarrow> ledger_store \<times> (unit, ledger_error) result" where
  "mark_archived s i =
     (case hm_get (ls_transactions s) i of
        None \<Rightarrow> (s, Err (TransactionNotFound i))
      | Some t \<Rightarrow> (case archive t of
           Ok t' \<Rightarrow> (s\<lparr>ls_transactions := hm_insert i t' (ls_transactions s)\<rparr>, Ok ())
         | Err x \<Rightarrow> (s, Err x)
         | Panic \<Rightarrow> (s, Panic)))"

section \<open>Balances\<close>

record tallies =
  posted_debits :: int
  posted_credits :: int
  pending_debits :: int
  pending_credits :: int

definition no_tallies :: tallies where
  "no_tallies = \<lparr>posted_debits = 0, posted_credits = 0, pending_debits = 0, pending_credits = 0\<rparr>"

fun add_to_tally :: "tx_status \<Rightarrow> direction \<Rightarrow> int \<Rightarrow> tallies \<Rightarrow> (tallies, ledger_error) result" where
  "add_to_tally Posted Debit v w =
     rbind (ok_or (i64_checked_add (posted_debits w) v) (LedgerCore Overflow)) (\<lambda>x. Ok (w\<lparr>posted_debits := x\<rparr>))"
| "add_to_tally Posted Credit v w =
     rbind (ok_or (i64_checked_add (posted_credits w) v) (LedgerCore Overflow)) (\<lambda>x. Ok (w\<lparr>posted_credits := x\<rparr>))"
| "add_to_tally Pending Debit v w =
     rbind (ok_or (i64_checked_add (pending_debits w) v) (LedgerCore Overflow)) (\<lambda>x. Ok (w\<lparr>pending_debits := x\<rparr>))"
| "add_to_tally Pending Credit v w =
     rbind (ok_or (i64_checked_add (pending_credits w) v) (LedgerCore Overflow)) (\<lambda>x. Ok (w\<lparr>pending_credits := x\<rparr>))"
| "add_to_tally Archived _ v w = Ok w"

fun walk_entries :: "uuid \<Rightarrow> tx_status \<Rightarrow> entry list \<Rightarrow> tallies \<Rightarrow> (tallies, ledger_error) result" where
  "walk_entries a st [] w = Ok w"
| "walk_entries a st (e # es) w =
     (if en_account_id e \<noteq> a then walk_entries a st es w
      else rbind (add_to_tally st (en_direction e) (minor_units (en_amount e)) w) (walk_entries a st es))"

fun walk_transactions :: "uuid \<Rightarrow> transaction list \<Rightarrow> tallies \<Rightarrow> (tallies, ledger_error) result" where
  "walk_transactions a [] w = Ok w"
| "walk_transactions a (t # ts) w =
     rbind (walk_entries a (tx_state t) (tx_entries t) w) (walk_transactions a ts)"

definition sign_by_normal :: "normal_balance \<Rightarrow> int \<Rightarrow> int \<Rightarrow> (int, ledger_error) result" where
  "sign_by_normal normal debits credits =
     ok_or (case normal of NormalDebit \<Rightarrow> i64_checked_sub debits credits
            | NormalCredit \<Rightarrow> i64_checked_sub credits debits) (LedgerCore Overflow)"

definition balance_of :: "ledger_store \<Rightarrow> uuid \<Rightarrow> (balance, ledger_error) result" where
  "balance_of s i =
     rbind (ok_or (hm_get (ls_accounts s) i) (AccountNotFound i)) (\<lambda>account.
     let cur = acc_currency account; normal = acc_normal_balance account in
     rbind (walk_transactions i (hm_values (ls_transactions s)) no_tallies) (\<lambda>w.
     rbind (sign_by_normal normal (posted_debits w) (posted_credits w)) (\<lambda>posted_amt.
     rbind (ok_or (i64_checked_add (posted_debits w) (pending_debits w)) (LedgerCore Overflow)) (\<lambda>total_debits.
     rbind (ok_or (i64_checked_add (posted_credits w) (pending_credits w)) (LedgerCore Overflow)) (\<lambda>total_credits.
     rbind (sign_by_normal normal total_debits total_credits) (\<lambda>pending_amt.
     Ok \<lparr>bal_currency = cur, bal_posted = from_minor posted_amt cur, bal_pending = from_minor pending_amt cur\<rparr>))))))"

section \<open>The contract of \<^verbatim>\<open>post_transaction\<close>\<close>

lemma check_entries_no_panic [simp]: "check_entries accts lid es \<noteq> Panic"
  by (induction es) (auto simp: rbind_eq_Panic)

lemma check_entries_Ok:
  "check_entries accts lid es = Ok u \<longleftrightarrow>
   (\<forall>e\<in>set es. \<exists>a. hm_get accts (en_account_id e) = Some a \<and> acc_ledger_id a = lid \<and> acc_currency a = currency (en_amount e))"
  by (induction es) auto

abbreviation ledger_pre :: "ledger_store \<Rightarrow> transaction \<Rightarrow> bool" where
  "ledger_pre s t \<equiv> hm_contains_key (ls_ledgers s) (tx_ledger_id t)"

abbreviation ledger_accepts :: "ledger_store \<Rightarrow> transaction \<Rightarrow> bool" where
  "ledger_accepts s t \<equiv> check_entries (ls_accounts s) (tx_ledger_id t) (tx_entries t) = Ok ()"

interpretation ledger_txs: ext_store ls_transactions ls_by_external_id post_transaction tx_id tx_external_id same_body
  "\<lambda>_. LedgerIdempotencyMismatch" ledger_pre ledger_accepts
proof
  fix s t assume "\<not> ledger_pre s t \<or>
    (\<not> ledger_accepts s t \<and> (\<forall>e. tx_external_id t = Some e \<longrightarrow> hm_get (ls_by_external_id s) e = None))"
  then show "fst (post_transaction s t) = s \<and> (\<exists>x. snd (post_transaction s t) = Err x)"
    by (cases "check_entries (ls_accounts s) (tx_ledger_id t) (tx_entries t)"; cases "tx_external_id t")
       (auto simp: post_transaction_def)
next
  fix s t t' assume "ledger_pre s t"
  then show "ledger_pre (fst (post_transaction s t')) t"
    by (auto simp: post_transaction_def split: option.splits result.splits)
qed (auto simp: post_transaction_def split: option.splits)

section \<open>Exact sums\<close>

definition sum_over :: "(tx_status \<Rightarrow> bool) \<Rightarrow> direction \<Rightarrow> uuid \<Rightarrow> transaction list \<Rightarrow> int" where
  "sum_over P d a ts = (\<Sum>t\<leftarrow>ts. if P (tx_state t) then acct_sum d a (tx_entries t) else 0)"

abbreviation is_live :: "tx_status \<Rightarrow> bool" where
  "is_live st \<equiv> st = Posted \<or> st = Pending"

definition posted_sum :: "direction \<Rightarrow> uuid \<Rightarrow> ledger_store \<Rightarrow> int" where
  "posted_sum d a s = sum_over (\<lambda>st. st = Posted) d a (hm_values (ls_transactions s))"

definition live_sum :: "direction \<Rightarrow> uuid \<Rightarrow> ledger_store \<Rightarrow> int" where
  "live_sum d a s = sum_over is_live d a (hm_values (ls_transactions s))"

definition net :: "normal_balance \<Rightarrow> int \<Rightarrow> int \<Rightarrow> int" where
  "net nb d c = (case nb of NormalDebit \<Rightarrow> d - c | NormalCredit \<Rightarrow> c - d)"

lemma sum_over_simps [simp]:
  "sum_over P d a [] = 0"
  "sum_over P d a (t # ts) = (if P (tx_state t) then acct_sum d a (tx_entries t) else 0) + sum_over P d a ts"
  by (simp_all add: sum_over_def)

text \<open>The tallies after adding given sums.\<close>

definition tallies_plus :: "tallies \<Rightarrow> (tx_status \<Rightarrow> direction \<Rightarrow> int) \<Rightarrow> tallies" where
  "tallies_plus w f =
     \<lparr>posted_debits = posted_debits w + f Posted Debit, posted_credits = posted_credits w + f Posted Credit,
      pending_debits = pending_debits w + f Pending Debit, pending_credits = pending_credits w + f Pending Credit\<rparr>"

lemma tallies_plus_plus: "tallies_plus (tallies_plus w f) g = tallies_plus w (\<lambda>st d. f st d + g st d)"
  by (simp add: tallies_plus_def)

lemma tallies_plus_zero: "tallies_plus w (\<lambda>_ _. 0) = w"
  by (simp add: tallies_plus_def)

lemma add_to_tally_Ok:
  "add_to_tally st d v w = Ok w' \<Longrightarrow> w' = tallies_plus w (\<lambda>st' d'. if st' = st \<and> d' = d then v else 0)"
  by (cases st; cases d) (auto simp: tallies_plus_def i64_checked_add_def)

lemma walk_entries_Ok:
  "walk_entries a st es w = Ok w' \<Longrightarrow> w' = tallies_plus w (\<lambda>st' d. if st' = st then acct_sum d a es else 0)"
proof (induction es arbitrary: w)
  case (Cons e es)
  show ?case
  proof (cases "en_account_id e = a")
    case True
    with Cons.prems obtain x where x: "add_to_tally st (en_direction e) (minor_units (en_amount e)) w = Ok x"
      "walk_entries a st es x = Ok w'" by auto
    from Cons.IH [OF x(2)] add_to_tally_Ok [OF x(1)] True show ?thesis
      by (auto simp: tallies_plus_plus tallies_plus_def)
  next
    case False
    with Cons show ?thesis by (auto simp: tallies_plus_def)
  qed
qed (simp add: tallies_plus_def)

lemma walk_transactions_Ok:
  "walk_transactions a ts w = Ok w' \<Longrightarrow> w' = tallies_plus w (\<lambda>st d. sum_over (\<lambda>x. x = st) d a ts)"
proof (induction ts arbitrary: w)
  case (Cons t ts)
  then obtain x where x: "walk_entries a (tx_state t) (tx_entries t) w = Ok x" "walk_transactions a ts x = Ok w'"
    by auto
  from Cons.IH [OF x(2)] walk_entries_Ok [OF x(1)] show ?case
    by (auto simp: tallies_plus_plus tallies_plus_def)
qed (simp add: tallies_plus_def)

lemma live_sum_split: "sum_over is_live d a ts = sum_over (\<lambda>x. x = Posted) d a ts + sum_over (\<lambda>x. x = Pending) d a ts"
  by (induction ts) auto

lemma balance_of_Ok:
  assumes "balance_of s i = Ok b"
  shows "\<exists>acct. hm_get (ls_accounts s) i = Some acct \<and> bal_currency b = acc_currency acct
    \<and> bal_posted b = from_minor (net (acc_normal_balance acct) (posted_sum Debit i s) (posted_sum Credit i s)) (acc_currency acct)
    \<and> bal_pending b = from_minor (net (acc_normal_balance acct) (live_sum Debit i s) (live_sum Credit i s)) (acc_currency acct)"
proof -
  obtain acct w where a: "hm_get (ls_accounts s) i = Some acct"
    and w: "walk_transactions i (hm_values (ls_transactions s)) no_tallies = Ok w"
    using assms by (auto simp: balance_of_def Let_def)
  from assms a w walk_transactions_Ok [OF w] show ?thesis
    by (cases "acc_normal_balance acct")
       (auto simp: balance_of_def Let_def sign_by_normal_def i64_checked_add_def i64_checked_sub_def tallies_plus_def
          no_tallies_def posted_sum_def live_sum_def live_sum_split net_def)
qed

text \<open>The walk only fails by overflow, and not when no amount is negative and the totals fit.\<close>

lemma add_to_tally_outcome:
  "(\<exists>w'. add_to_tally st d v w = Ok w') \<or> add_to_tally st d v w = Err (LedgerCore Overflow)"
  by (cases st; cases d) (auto simp: i64_checked_add_def i64_of_def)

lemma walk_entries_outcome: "(\<exists>w'. walk_entries a st es w = Ok w') \<or> walk_entries a st es w = Err (LedgerCore Overflow)"
proof (induction es arbitrary: w)
  case (Cons e es)
  then show ?case
    using add_to_tally_outcome [of st "en_direction e" "minor_units (en_amount e)" w] by (auto simp: rbind_eq_Err)
qed simp

lemma walk_transactions_outcome:
  "(\<exists>w'. walk_transactions a ts w = Ok w') \<or> walk_transactions a ts w = Err (LedgerCore Overflow)"
proof (induction ts arbitrary: w)
  case (Cons t ts)
  then show ?case using walk_entries_outcome [of a "tx_state t" "tx_entries t" w] by (auto simp: rbind_eq_Err)
qed simp

fun tally_of :: "tallies \<Rightarrow> tx_status \<Rightarrow> direction \<Rightarrow> int" where
  "tally_of w Posted Debit = posted_debits w"
| "tally_of w Posted Credit = posted_credits w"
| "tally_of w Pending Debit = pending_debits w"
| "tally_of w Pending Credit = pending_credits w"
| "tally_of w Archived _ = 0"

lemma tally_of_plus: "st \<noteq> Archived \<Longrightarrow> tally_of (tallies_plus w f) st d = tally_of w st d + f st d"
  by (cases st; cases d) (auto simp: tallies_plus_def)

definition nonneg_entries :: "entry list \<Rightarrow> bool" where
  "nonneg_entries es \<longleftrightarrow> (\<forall>e\<in>set es. 0 \<le> minor_units (en_amount e))"

lemma acct_sum_nonneg: "nonneg_entries es \<Longrightarrow> 0 \<le> acct_sum d a es"
  by (induction es) (auto simp: nonneg_entries_def)

lemma sum_over_nonneg: "(\<forall>t\<in>set ts. nonneg_entries (tx_entries t)) \<Longrightarrow> 0 \<le> sum_over P d a ts"
  by (induction ts) (auto simp: acct_sum_nonneg)

definition room :: "tallies \<Rightarrow> (tx_status \<Rightarrow> direction \<Rightarrow> int) \<Rightarrow> bool" where
  "room w f \<longleftrightarrow> (\<forall>st d. st \<noteq> Archived \<longrightarrow> 0 \<le> tally_of w st d \<and> tally_of w st d + f st d \<le> i64_max)"

lemma add_to_tally_fits:
  assumes "room w (\<lambda>st' d'. if st' = st \<and> d' = d then v else 0)" and "0 \<le> v"
  shows "add_to_tally st d v w = Ok (tallies_plus w (\<lambda>st' d'. if st' = st \<and> d' = d then v else 0))"
proof (cases "st = Archived")
  case True
  then show ?thesis by (simp add: tallies_plus_def)
next
  case False
  with assms have "0 \<le> tally_of w st d" "tally_of w st d + v \<le> i64_max" by (auto simp: room_def dest!: spec [of _ st] spec [of _ d])
  with False assms(2) show ?thesis
    by (cases st; cases d) (auto simp: tallies_plus_def i64_checked_add_def i64_of_def in_i64_def)
qed

lemma room_split:
  assumes "room w (\<lambda>st d. f st d + g st d)" and "\<And>st d. 0 \<le> f st d" and "\<And>st d. 0 \<le> g st d"
  shows "room w f" "room (tallies_plus w f) g"
proof -
  have "0 \<le> tally_of w st d \<and> tally_of w st d + f st d \<le> i64_max \<and> 0 \<le> tally_of w st d + f st d
      \<and> tally_of w st d + f st d + g st d \<le> i64_max" if "st \<noteq> Archived" for st d
  proof -
    have "0 \<le> tally_of w st d" "tally_of w st d + (f st d + g st d) \<le> i64_max"
      using assms(1) that by (simp_all add: room_def)
    with assms(2,3) [of st d] show ?thesis by linarith
  qed
  then show "room w f" "room (tallies_plus w f) g" by (simp_all add: room_def tally_of_plus)
qed

lemma walk_entries_fits:
  assumes "nonneg_entries es" and "room w (\<lambda>st' d. if st' = st then acct_sum d a es else 0)"
  shows "\<exists>w'. walk_entries a st es w = Ok w'"
  using assms
proof (induction es arbitrary: w)
  case (Cons e es)
  let ?f = "\<lambda>st' d'. if st' = st \<and> d' = en_direction e then minor_units (en_amount e) else 0"
  let ?g = "\<lambda>st' d. if st' = st then acct_sum d a es else 0"
  have nn: "0 \<le> minor_units (en_amount e)" "nonneg_entries es" using Cons.prems(1) by (auto simp: nonneg_entries_def)
  show ?case
  proof (cases "en_account_id e = a")
    case True
    then have "(\<lambda>st' d. if st' = st then acct_sum d a (e # es) else 0) = (\<lambda>st d. ?f st d + ?g st d)"
      by (auto simp: fun_eq_iff)
    with Cons.prems(2) have "room w (\<lambda>st d. ?f st d + ?g st d)" by simp
    then have r: "room w ?f" "room (tallies_plus w ?f) ?g"
      by (rule room_split; use nn acct_sum_nonneg in auto)+
    from Cons.IH [OF nn(2) r(2)] add_to_tally_fits [OF r(1) nn(1)] True show ?thesis by simp
  next
    case False
    then have "(\<lambda>st' d. if st' = st then acct_sum d a (e # es) else 0) = ?g" by (auto simp: fun_eq_iff)
    with Cons.prems(2) Cons.IH [OF nn(2)] False show ?thesis by simp
  qed
qed simp

lemma walk_transactions_fits:
  assumes "\<forall>t\<in>set ts. nonneg_entries (tx_entries t)" and "room w (\<lambda>st d. sum_over (\<lambda>x. x = st) d a ts)"
  shows "\<exists>w'. walk_transactions a ts w = Ok w'"
  using assms
proof (induction ts arbitrary: w)
  case (Cons t ts)
  let ?f = "\<lambda>st d. if st = tx_state t then acct_sum d a (tx_entries t) else 0"
  let ?g = "\<lambda>st d. sum_over (\<lambda>x. x = st) d a ts"
  have "(\<lambda>st d. sum_over (\<lambda>x. x = st) d a (t # ts)) = (\<lambda>st d. ?f st d + ?g st d)" by (auto simp: fun_eq_iff)
  with Cons.prems(2) have "room w (\<lambda>st d. ?f st d + ?g st d)" by simp
  then have r: "room w ?f" "room (tallies_plus w ?f) ?g"
    by (rule room_split; use Cons.prems(1) acct_sum_nonneg sum_over_nonneg in auto)+
  from walk_entries_fits [OF _ r(1)] Cons.prems(1) obtain x where
    x: "walk_entries a (tx_state t) (tx_entries t) w = Ok x" by auto
  with Cons.IH [of x] Cons.prems(1) r(2) walk_entries_Ok [OF x] show ?case by simp
qed simp

definition nonneg_store :: "ledger_store \<Rightarrow> bool" where
  "nonneg_store s \<longleftrightarrow> (\<forall>t\<in>set (hm_values (ls_transactions s)). nonneg_entries (tx_entries t))"

lemma balance_walk_fits:
  assumes "nonneg_store s" and "\<And>d. live_sum d i s \<le> i64_max"
  shows "walk_transactions i (hm_values (ls_transactions s)) no_tallies
    = Ok (tallies_plus no_tallies (\<lambda>st d. sum_over (\<lambda>x. x = st) d i (hm_values (ls_transactions s))))"
proof -
  let ?ts = "hm_values (ls_transactions s)"
  have nn: "\<forall>t\<in>set ?ts. nonneg_entries (tx_entries t)" using assms(1) by (simp add: nonneg_store_def)
  have "sum_over (\<lambda>x. x = st) d i ?ts \<le> i64_max" if "st \<noteq> Archived" for st d
    using assms(2) [of d] sum_over_nonneg [OF nn, of "\<lambda>x. x = Posted" d i] sum_over_nonneg [OF nn, of "\<lambda>x. x = Pending" d i] that
    by (cases st) (auto simp: live_sum_def live_sum_split)
  moreover have "tally_of no_tallies st d = 0" for st d by (cases st; cases d) (auto simp: no_tallies_def)
  ultimately have "room no_tallies (\<lambda>st d. sum_over (\<lambda>x. x = st) d i ?ts)" by (simp add: room_def)
  from walk_transactions_fits [OF nn this] walk_transactions_Ok show ?thesis by blast
qed

lemma sign_by_normal_fits:
  assumes "0 \<le> d" "d \<le> i64_max" "0 \<le> c" "c \<le> i64_max"
  shows "sign_by_normal nb d c = Ok (net nb d c)"
  using assms by (cases nb) (auto simp: sign_by_normal_def net_def i64_checked_sub_def i64_of_def in_i64_def)

lemma balance_of_Err: "balance_of s i = Err x \<Longrightarrow> hm_get (ls_accounts s) i = Some a \<Longrightarrow> x = LedgerCore Overflow"
  using walk_transactions_outcome [of i "hm_values (ls_transactions s)" no_tallies]
  by (auto simp: balance_of_def Let_def rbind_eq_Err ok_or_eq_Err sign_by_normal_def)

lemma balance_of_no_panic [simp]: "balance_of s i \<noteq> Panic"
  using walk_transactions_outcome [of i "hm_values (ls_transactions s)" no_tallies]
  by (auto simp: balance_of_def Let_def rbind_eq_Panic sign_by_normal_def)

lemma balance_of_Ok_fits: "balance_of s i = Ok b \<Longrightarrow> in_i64 (live_sum d i s)"
proof -
  assume ok: "balance_of s i = Ok b"
  then obtain w where w: "walk_transactions i (hm_values (ls_transactions s)) no_tallies = Ok w"
    by (auto simp: balance_of_def Let_def)
  from ok w walk_transactions_Ok [OF w] show ?thesis
    by (cases d) (auto simp: balance_of_def Let_def i64_checked_add_def tallies_plus_def no_tallies_def
      live_sum_def live_sum_split)
qed

section \<open>Reachable stores\<close>

text \<open>A transaction as the constructors build it: at least two entries that pass validation.\<close>

definition tx_built :: "transaction \<Rightarrow> bool" where
  "tx_built t \<longleftrightarrow>
     (\<exists>t0. construct (tx_id t) (tx_ledger_id t) (tx_state t) (tx_effective_at t) (tx_entries t) = Ok t0)"

text \<open>The calls that change a store; ids of new accounts and transactions are fresh.\<close>

inductive ledger_step :: "ledger_store \<Rightarrow> ledger_store \<Rightarrow> bool" where
  step_ledger: "ledger_step s (fst (create_ledger s l))"
| step_account: "hm_get (ls_accounts s) (acc_id a) = None \<Longrightarrow> ledger_step s (fst (create_account s a))"
| step_post: "hm_get (ls_transactions s) (tx_id t) = None \<Longrightarrow> tx_built t \<Longrightarrow> ledger_step s (fst (post_transaction s t))"
| step_posted: "ledger_step s (fst (mark_posted s i))"
| step_archived: "ledger_step s (fst (mark_archived s i))"

abbreviation ledger_reach :: "ledger_store \<Rightarrow> bool" where
  "ledger_reach \<equiv> ledger_step\<^sup>*\<^sup>* ledger_store_new"

definition entries_ok :: "(uuid, account) hashmap \<Rightarrow> transaction \<Rightarrow> bool" where
  "entries_ok accts t \<longleftrightarrow> balanced (tx_entries t) \<and>
     (\<forall>e\<in>set (tx_entries t). \<exists>a. hm_get accts (en_account_id e) = Some a
        \<and> acc_ledger_id a = tx_ledger_id t \<and> acc_currency a = currency (en_amount e))"

definition ledger_inv :: "ledger_store \<Rightarrow> bool" where
  "ledger_inv s \<longleftrightarrow> index_ok tx_id tx_external_id (ls_transactions s) (ls_by_external_id s)
     \<and> hm_wf (ls_accounts s) \<and> (\<forall>i a. hm_get (ls_accounts s) i = Some a \<longrightarrow> acc_id a = i)
     \<and> (\<forall>i t. hm_get (ls_transactions s) i = Some t \<longrightarrow> entries_ok (ls_accounts s) t)"

lemma ledger_invD:
  assumes "ledger_inv s"
  shows "index_ok tx_id tx_external_id (ls_transactions s) (ls_by_external_id s)" "hm_wf (ls_accounts s)"
    "hm_get (ls_accounts s) i = Some a \<Longrightarrow> acc_id a = i"
    "hm_get (ls_transactions s) i = Some t \<Longrightarrow> entries_ok (ls_accounts s) t"
  using assms by (auto simp: ledger_inv_def)

lemma ledger_inv_new: "ledger_inv ledger_store_new"
  by (simp add: ledger_inv_def ledger_store_new_def index_ok_empty)

lemma entries_ok_mono:
  assumes "entries_ok accts t" and "hm_get accts (acc_id a) = None"
  shows "entries_ok (hm_insert (acc_id a) a accts) t"
  using assms unfolding entries_ok_def by (metis hm.get_insert option.distinct(1))

lemma tx_built_balanced: "tx_built t \<Longrightarrow> balanced (tx_entries t)"
  by (auto simp: tx_built_def construct_def validate_balanced_Ok split: if_splits)

text \<open>What a transition of one row does: nothing, or a pending row changes its state only.\<close>

lemma mark_cases:
  assumes "s' = fst (mark_posted s i) \<or> s' = fst (mark_archived s i)"
  obtains "s' = s"
  | t st where "hm_get (ls_transactions s) i = Some t" "tx_state t = Pending" "tx_is_terminal st"
      "s' = s\<lparr>ls_transactions := hm_insert i (t\<lparr>tx_state := st\<rparr>) (ls_transactions s)\<rparr>"
proof (cases "hm_get (ls_transactions s) i")
  case None
  with assms that(1) show ?thesis by (auto simp: mark_posted_def mark_archived_def)
next
  case (Some t)
  show ?thesis
  proof (cases "tx_state t")
    case Pending
    with Some assms that(2) [OF Some Pending, of Posted] that(2) [OF Some Pending, of Archived] show ?thesis
      by (auto simp: mark_posted_def mark_archived_def post_def archive_def)
  qed (use Some assms that(1) in \<open>auto simp: mark_posted_def mark_archived_def post_def archive_def\<close>)
qed

lemma mark_posted_OkD:
  assumes "mark_posted s i = (s', Ok ())"
  obtains t where "hm_get (ls_transactions s) i = Some t" "tx_state t = Pending"
    "s' = s\<lparr>ls_transactions := hm_insert i (t\<lparr>tx_state := Posted\<rparr>) (ls_transactions s)\<rparr>"
  using assms by (auto simp: mark_posted_def post_def split: option.splits tx_status.splits)

lemma mark_archived_OkD:
  assumes "mark_archived s i = (s', Ok ())"
  obtains t where "hm_get (ls_transactions s) i = Some t" "tx_state t = Pending"
    "s' = s\<lparr>ls_transactions := hm_insert i (t\<lparr>tx_state := Archived\<rparr>) (ls_transactions s)\<rparr>"
  using assms by (auto simp: mark_archived_def archive_def split: option.splits tx_status.splits)

lemma mark_inv:
  assumes "ledger_inv s" and "s' = fst (mark_posted s i) \<or> s' = fst (mark_archived s i)"
  shows "ledger_inv s'"
proof (rule mark_cases [OF assms(2)])
  fix t st
  assume t: "hm_get (ls_transactions s) i = Some t" "tx_state t = Pending"
    "s' = s\<lparr>ls_transactions := hm_insert i (t\<lparr>tx_state := st\<rparr>) (ls_transactions s)\<rparr>"
  note inv = ledger_invD [OF assms(1)]
  have "index_ok tx_id tx_external_id (hm_insert i (t\<lparr>tx_state := st\<rparr>) (ls_transactions s)) (ls_by_external_id s)"
    using index_ok_replace [OF inv(1) t(1)] index_okD(3) [OF inv(1) t(1)] by simp
  moreover have "entries_ok (ls_accounts s) (t\<lparr>tx_state := st\<rparr>)" using inv(4) [OF t(1)] by (simp add: entries_ok_def)
  ultimately show ?thesis using assms(1) t(3) by (auto simp: ledger_inv_def)
qed (use assms in simp)

lemma post_inv:
  assumes "ledger_inv s" and "hm_get (ls_transactions s) (tx_id t) = None" and "tx_built t"
  shows "ledger_inv (fst (post_transaction s t))"
proof -
  note inv = ledger_invD [OF assms(1)]
  show ?thesis
  proof (cases rule: ledger_txs.create_cases [OF inv(1), where r = t, case_names refused replayed inserted])
    case inserted
    have "entries_ok (ls_accounts s) t"
      using inserted tx_built_balanced [OF assms(3)] by (simp add: entries_ok_def check_entries_Ok)
    moreover have "ls_accounts (fst (post_transaction s t)) = ls_accounts s"
      by (auto simp: post_transaction_def split: option.splits result.splits)
    moreover have "index_ok tx_id tx_external_id (ls_transactions (fst (post_transaction s t)))
        (ls_by_external_id (fst (post_transaction s t)))"
      by (rule ledger_txs.create_ok [OF inv(1) assms(2)])
    ultimately show ?thesis using assms(1) inserted by (auto simp: ledger_inv_def)
  qed (use assms in auto)
qed

lemma ledger_step_inv: "ledger_step s s' \<Longrightarrow> ledger_inv s \<Longrightarrow> ledger_inv s'"
proof (induction rule: ledger_step.induct)
  case (step_account s a)
  then show ?case
    by (auto simp: create_account_def ledger_inv_def entries_ok_mono hm.wf_insert split: if_splits)
qed (auto simp: create_ledger_def ledger_inv_def [of "s\<lparr>ls_ledgers := l\<rparr>" for s l] ledger_invD post_inv intro: mark_inv)

lemma ledger_reach_inv: "ledger_reach s \<Longrightarrow> ledger_inv s"
  by (induction rule: rtranclp_induct) (auto intro: ledger_inv_new ledger_step_inv)

section \<open>The accounting equation\<close>

text \<open>The sum of a quantity over the accounts of one ledger, currency and normal side.\<close>

definition book :: "ledger_store \<Rightarrow> uuid \<Rightarrow> string \<Rightarrow> normal_balance \<Rightarrow> (account \<Rightarrow> int) \<Rightarrow> int" where
  "book s l cur nb f =
     (\<Sum>a\<leftarrow>hm_values (ls_accounts s).
        if acc_ledger_id a = l \<and> code (acc_currency a) = cur \<and> acc_normal_balance a = nb then f a else 0)"

definition in_book :: "uuid \<Rightarrow> string \<Rightarrow> account \<Rightarrow> bool" where
  "in_book l cur a \<longleftrightarrow> acc_ledger_id a = l \<and> code (acc_currency a) = cur"

lemma account_ids_distinct: "ledger_inv s \<Longrightarrow> distinct (map acc_id (hm_values (ls_accounts s)))"
proof -
  assume inv: "ledger_inv s"
  have "acc_id a = i" if "(i, a) \<in> set (ls_accounts s)" for i a
    using that inv by (auto simp: ledger_inv_def hm_wf_def hm_get_def)
  then have "map acc_id (hm_values (ls_accounts s)) = map fst (ls_accounts s)"
    by (auto simp: hm_values_def)
  with inv show ?thesis by (simp add: ledger_inv_def hm_wf_def)
qed

lemma sum_single_account:
  assumes "distinct (map acc_id xs)" and "a \<in> set xs" and "i = acc_id a"
  shows "(\<Sum>b\<leftarrow>xs. if P b \<and> i = acc_id b then v else (0 :: int)) = (if P a then v else 0)"
  using assms
proof (induction xs)
  case (Cons x xs)
  have none: "(\<Sum>b\<leftarrow>xs. if P b \<and> i = acc_id b then v else (0 :: int)) = 0" if "i \<notin> acc_id ` set xs"
    using that by (induction xs) auto
  show ?case
  proof (cases "a = x")
    case True
    with Cons none show ?thesis by auto
  next
    case False
    with Cons.prems have "a \<in> set xs" "acc_id x \<noteq> acc_id a" by auto
    with Cons show ?thesis by auto
  qed
qed simp

text \<open>Over the accounts of a book, the per-account sums of a validated transaction add up to its
  per-currency side, or to nothing when it belongs to another ledger.\<close>

lemma book_acct_sum:
  assumes "ledger_inv s"
    and "\<forall>e\<in>set es. \<exists>a. hm_get (ls_accounts s) (en_account_id e) = Some a \<and> acc_ledger_id a = lid
           \<and> acc_currency a = currency (en_amount e)"
  shows "(\<Sum>a\<leftarrow>hm_values (ls_accounts s). if in_book l cur a then acct_sum d (acc_id a) es else 0)
    = (if l = lid then side_sum d cur es else 0)"
  using assms(2)
proof (induction es)
  case (Cons e es)
  let ?xs = "hm_values (ls_accounts s)" and ?v = "if en_direction e = d then minor_units (en_amount e) else 0"
  from Cons.prems obtain a where a: "hm_get (ls_accounts s) (en_account_id e) = Some a" "acc_ledger_id a = lid"
    "acc_currency a = currency (en_amount e)" by auto
  have id: "en_account_id e = acc_id a" using ledger_invD(3) [OF assms(1) a(1)] by simp
  have mem: "a \<in> set ?xs" by (rule hm.vals_member [OF ledger_invD(2) [OF assms(1)] a(1)])
  have "(\<Sum>b\<leftarrow>?xs. if in_book l cur b then acct_sum d (acc_id b) (e # es) else 0)
      = (\<Sum>b\<leftarrow>?xs. (if in_book l cur b \<and> en_account_id e = acc_id b then ?v else 0)
          + (if in_book l cur b then acct_sum d (acc_id b) es else 0))"
    by (intro arg_cong [where f = sum_list] map_cong) auto
  also have "\<dots> = (if in_book l cur a then ?v else 0) + (if l = lid then side_sum d cur es else 0)"
    using Cons sum_single_account [OF account_ids_distinct [OF assms(1)] mem, where P = "in_book l cur"] id
    by (simp add: sum_list_addf)
  also have "\<dots> = (if l = lid then side_sum d cur (e # es) else 0)" using a by (auto simp: in_book_def)
  finally show ?case .
qed (simp cong: if_cong)

lemma sum_list_swap: "(\<Sum>x\<leftarrow>xs. \<Sum>y\<leftarrow>ys. f x y) = (\<Sum>y\<leftarrow>ys. \<Sum>x\<leftarrow>xs. (f x y :: int))"
  by (induction xs) (simp_all add: sum_list_addf)

lemma book_sum_over:
  assumes "ledger_inv s"
  shows "(\<Sum>a\<leftarrow>hm_values (ls_accounts s). if in_book l cur a
            then sum_over P Debit (acc_id a) (hm_values (ls_transactions s)) - sum_over P Credit (acc_id a) (hm_values (ls_transactions s))
            else 0) = 0"
proof -
  let ?xs = "hm_values (ls_accounts s)"
  let ?f = "\<lambda>a t. if P (tx_state t) then (if in_book l cur a then acct_sum Debit (acc_id a) (tx_entries t) else 0)
      - (if in_book l cur a then acct_sum Credit (acc_id a) (tx_entries t) else 0) else 0"
  have split: "(if in_book l cur a then sum_over P Debit (acc_id a) ts - sum_over P Credit (acc_id a) ts else 0) = (\<Sum>t\<leftarrow>ts. ?f a t)" for a ts
    by (induction ts) auto
  have zero: "(\<Sum>a\<leftarrow>?xs. ?f a t) = 0" if t: "t \<in> set (hm_values (ls_transactions s))" for t
  proof -
    have "entries_ok (ls_accounts s) t"
      using t ledger_invD(4) [OF assms] hm.vals_ran [OF index_okD(1) [OF ledger_invD(1) [OF assms]]] by (auto simp: ran_def)
    then have ok: "balanced (tx_entries t)" "\<forall>e\<in>set (tx_entries t). \<exists>a. hm_get (ls_accounts s) (en_account_id e) = Some a
        \<and> acc_ledger_id a = tx_ledger_id t \<and> acc_currency a = currency (en_amount e)" by (auto simp: entries_ok_def)
    show ?thesis
    proof (cases "P (tx_state t)")
      case True
      then show ?thesis
        using book_acct_sum [OF assms ok(2), of l cur] ok(1) by (simp add: sum_list_subtractf balanced_def)
    qed simp
  qed
  have "(\<Sum>a\<leftarrow>?xs. \<Sum>t\<leftarrow>hm_values (ls_transactions s). ?f a t) = (\<Sum>t\<leftarrow>hm_values (ls_transactions s). \<Sum>a\<leftarrow>?xs. ?f a t)"
    by (rule sum_list_swap)
  also have "\<dots> = (\<Sum>t\<leftarrow>hm_values (ls_transactions s). 0)"
    by (rule arg_cong [where f = sum_list], rule map_cong [OF refl]) (rule zero)
  finally show ?thesis by (simp only: split) simp
qed

lemma book_difference:
  "book s l cur NormalDebit (\<lambda>a. net (acc_normal_balance a) (D a) (C a))
   - book s l cur NormalCredit (\<lambda>a. net (acc_normal_balance a) (D a) (C a))
   = (\<Sum>a\<leftarrow>hm_values (ls_accounts s). if in_book l cur a then D a - C a else 0)"
  unfolding book_def sum_list_subtractf [symmetric]
proof (intro arg_cong [where f = sum_list] map_cong refl)
  show "(if acc_ledger_id a = l \<and> code (acc_currency a) = cur \<and> acc_normal_balance a = NormalDebit
          then net (acc_normal_balance a) (D a) (C a) else 0)
      - (if acc_ledger_id a = l \<and> code (acc_currency a) = cur \<and> acc_normal_balance a = NormalCredit
          then net (acc_normal_balance a) (D a) (C a) else 0)
      = (if in_book l cur a then D a - C a else 0)" for a
    by (cases "acc_normal_balance a") (auto simp: in_book_def net_def)
qed

lemma book_cong: "(\<And>a. a \<in> set (hm_values (ls_accounts s)) \<Longrightarrow> f a = g a) \<Longrightarrow> book s l cur nb f = book s l cur nb g"
  unfolding book_def by (intro arg_cong [where f = sum_list] map_cong) auto

section \<open>Properties\<close>

text \<open>
  C1.  The accounting equation.  In every store reached by the calls of the API, for every ledger
  and currency: if the balance of each account can be computed, then the balances of the
  debit-normal accounts add up to exactly the balances of the credit-normal accounts, in the posted
  view and in the pending view, whatever mixture of pending, posted and archived
  transactions the store holds.
\<close>

theorem accounting_equation:
  assumes "ledger_reach s"
    and "\<And>a. a \<in> set (hm_values (ls_accounts s)) \<Longrightarrow> balance_of s (acc_id a) = Ok (b a)"
  shows "book s l cur NormalDebit (\<lambda>a. minor_units (bal_posted (b a))) = book s l cur NormalCredit (\<lambda>a. minor_units (bal_posted (b a)))
    \<and> book s l cur NormalDebit (\<lambda>a. minor_units (bal_pending (b a))) = book s l cur NormalCredit (\<lambda>a. minor_units (bal_pending (b a)))"
proof -
  note inv = ledger_reach_inv [OF assms(1)]
  have exact: "minor_units (bal_posted (b a)) = net (acc_normal_balance a) (posted_sum Debit (acc_id a) s) (posted_sum Credit (acc_id a) s)"
    "minor_units (bal_pending (b a)) = net (acc_normal_balance a) (live_sum Debit (acc_id a) s) (live_sum Credit (acc_id a) s)"
    if a: "a \<in> set (hm_values (ls_accounts s))" for a
  proof -
    obtain i where "hm_get (ls_accounts s) i = Some a"
      using a hm.vals_ran [OF ledger_invD(2) [OF inv]] by (auto simp: ran_def)
    with ledger_invD(3) [OF inv] have "hm_get (ls_accounts s) (acc_id a) = Some a" by metis
    with balance_of_Ok [OF assms(2) [OF a]] show
      "minor_units (bal_posted (b a)) = net (acc_normal_balance a) (posted_sum Debit (acc_id a) s) (posted_sum Credit (acc_id a) s)"
      "minor_units (bal_pending (b a)) = net (acc_normal_balance a) (live_sum Debit (acc_id a) s) (live_sum Credit (acc_id a) s)"
      by (auto simp: from_minor_def)
  qed
  note flat = book_cong [OF exact(1)] book_cong [OF exact(2)]
  show ?thesis
    using book_difference [of s l cur "\<lambda>a. posted_sum Debit (acc_id a) s" "\<lambda>a. posted_sum Credit (acc_id a) s"]
      book_difference [of s l cur "\<lambda>a. live_sum Debit (acc_id a) s" "\<lambda>a. live_sum Credit (acc_id a) s"]
      book_sum_over [OF inv, of l cur "\<lambda>st. st = Posted", folded posted_sum_def]
      book_sum_over [OF inv, of l cur is_live, folded live_sum_def]
    by (simp add: flat)
qed

text \<open>
  C2.  The balance walk returns, exactly.  When no stored amount is negative, the balance of a known
  account is the exact posted and pending net of its entries, signed by its normal side, whenever
  the live debits and the live credits fit 64 bits; otherwise the call reports an overflow.
  No order of the walk changes the result.
\<close>

theorem balance_exact:
  assumes "hm_get (ls_accounts s) i = Some a" and "nonneg_store s"
  shows "balance_of s i =
    (if live_sum Debit i s \<le> i64_max \<and> live_sum Credit i s \<le> i64_max
     then Ok \<lparr>bal_currency = acc_currency a,
              bal_posted = from_minor (net (acc_normal_balance a) (posted_sum Debit i s) (posted_sum Credit i s)) (acc_currency a),
              bal_pending = from_minor (net (acc_normal_balance a) (live_sum Debit i s) (live_sum Credit i s)) (acc_currency a)\<rparr>
     else Err (LedgerCore Overflow))"
proof (cases "live_sum Debit i s \<le> i64_max \<and> live_sum Credit i s \<le> i64_max")
  case True
  let ?ts = "hm_values (ls_transactions s)"
  have fits: "live_sum d i s \<le> i64_max" for d using True by (cases d) auto
  have nn: "0 \<le> sum_over P d i ?ts" for P d using assms(2) by (simp add: sum_over_nonneg nonneg_store_def)
  have posted: "sum_over (\<lambda>x. x = Posted) d i ?ts = posted_sum d i s" for d by (simp add: posted_sum_def)
  have parts: "posted_sum d i s + sum_over (\<lambda>x. x = Pending) d i ?ts = live_sum d i s" for d
    by (simp add: live_sum_def live_sum_split posted_sum_def)
  have "posted_sum d i s \<le> i64_max" "0 \<le> posted_sum d i s" "0 \<le> live_sum d i s" for d
    using fits [of d] nn [of "\<lambda>x. x = Pending" d] nn [of "\<lambda>x. x = Posted" d] parts [of d] posted [of d] by linarith+
  then show ?thesis
    using True assms(1) balance_walk_fits [OF assms(2) fits] fits
    by (simp add: balance_of_def Let_def tallies_plus_def no_tallies_def parts posted
        sign_by_normal_fits i64_checked_add_def i64_of_def in_i64_def order_trans [of i64_min 0])
next
  case False
  then have "\<nexists>b. balance_of s i = Ok b" using balance_of_Ok_fits by (fastforce simp: in_i64_def)
  then obtain x where "balance_of s i = Err x" by (cases "balance_of s i") auto
  with False balance_of_Err [OF this assms(1)] show ?thesis by auto
qed

text \<open>Rows only ever change their state, and terminal rows not even that, unless a post carries their id.\<close>

lemma post_keeps_rows:
  assumes "hm_get (ls_transactions s) i = Some t" and "tx_id t' \<noteq> i"
  shows "hm_get (ls_transactions (fst (post_transaction s t'))) i = Some t"
  using assms by (auto simp: post_transaction_def split: option.splits result.splits)

text \<open>Any call on the store that changes it, without a guard.\<close>

datatype ledger_call =
    CallCreateLedger ledger
  | CallCreateAccount account
  | CallPost transaction
  | CallMarkPosted uuid
  | CallMarkArchived uuid

fun ledger_call_run :: "ledger_call \<Rightarrow> ledger_store \<Rightarrow> ledger_store" where
  "ledger_call_run (CallCreateLedger l) s = fst (create_ledger s l)"
| "ledger_call_run (CallCreateAccount a) s = fst (create_account s a)"
| "ledger_call_run (CallPost t) s = fst (post_transaction s t)"
| "ledger_call_run (CallMarkPosted i) s = fst (mark_posted s i)"
| "ledger_call_run (CallMarkArchived i) s = fst (mark_archived s i)"

fun posts_id :: "uuid \<Rightarrow> ledger_call \<Rightarrow> bool" where
  "posts_id i (CallPost t) \<longleftrightarrow> tx_id t = i"
| "posts_id i _ \<longleftrightarrow> False"

lemma ledger_call_history:
  assumes "\<not> posts_id i c" and "hm_get (ls_transactions s) i = Some t"
  shows "\<exists>st. hm_get (ls_transactions (ledger_call_run c s)) i = Some (t\<lparr>tx_state := st\<rparr>) \<and> (tx_is_terminal (tx_state t) \<longrightarrow> st = tx_state t)"
proof (cases c)
  case (CallPost t')
  then show ?thesis using assms post_keeps_rows [of s i t t'] by (intro exI [of _ "tx_state t"]) simp
next
  case (CallMarkPosted j)
  show ?thesis
    by (rule mark_cases [OF disjI1 [OF refl], of s j]) (use CallMarkPosted assms(2) in \<open>auto intro: exI [of _ "tx_state t"]\<close>)
next
  case (CallMarkArchived j)
  show ?thesis
    by (rule mark_cases [OF disjI2 [OF refl], of s j]) (use CallMarkArchived assms(2) in \<open>auto intro: exI [of _ "tx_state t"]\<close>)
qed (use assms in \<open>auto simp: create_ledger_def create_account_def intro!: exI [of _ "tx_state t"]\<close>)

lemma ledger_step_call:
  assumes "ledger_step s s'" and "hm_get (ls_transactions s) i = Some t"
  shows "\<exists>c. s' = ledger_call_run c s \<and> \<not> posts_id i c"
  using assms
proof (induction rule: ledger_step.induct)
  case (step_ledger s l)
  show ?case by (rule exI [of _ "CallCreateLedger l"]) simp
next
  case (step_account s a)
  show ?case by (rule exI [of _ "CallCreateAccount a"]) simp
next
  case (step_post s t')
  then show ?case by (intro exI [of _ "CallPost t'"]) auto
next
  case (step_posted s j)
  show ?case by (rule exI [of _ "CallMarkPosted j"]) simp
next
  case (step_archived s j)
  show ?case by (rule exI [of _ "CallMarkArchived j"]) simp
qed

text \<open>
  C4.  History is immutable.  Whatever calls follow, in whatever order and with whatever arguments, as long as none of them posts a
  transaction under the same id again (ids are minted, and \<open>repost_replaces_terminal\<close> shows what such a post does): a recorded transaction stays
  recorded under its id with its ledger, entries, external id and metadata untouched; only its state may move, and a posted or
  archived transaction keeps its state too.
\<close>

theorem ledger_history_immutable:
  assumes "list_all (\<lambda>c. \<not> posts_id i c) calls" and "hm_get (ls_transactions s) i = Some t"
  shows "\<exists>st. hm_get (ls_transactions (fold ledger_call_run calls s)) i = Some (t\<lparr>tx_state := st\<rparr>)
    \<and> (tx_is_terminal (tx_state t) \<longrightarrow> st = tx_state t)"
  using assms
proof (induction calls arbitrary: s t)
  case Nil
  then show ?case by (intro exI [of _ "tx_state t"]) simp
next
  case (Cons c calls)
  then obtain st where st: "hm_get (ls_transactions (ledger_call_run c s)) i = Some (t\<lparr>tx_state := st\<rparr>)"
    "tx_is_terminal (tx_state t) \<longrightarrow> st = tx_state t" using ledger_call_history [of i c s t] by auto
  from Cons.IH [OF _ st(1)] Cons.prems(1) st(2) show ?case by auto
qed

lemma sum_over_replace:
  assumes "ledger_inv s" and "hm_get (ls_transactions s) i = Some t"
  shows "sum_over P d a (hm_values (hm_insert i t' (ls_transactions s)))
    = sum_over P d a (hm_values (ls_transactions s))
      + (if P (tx_state t') then acct_sum d a (tx_entries t') else 0)
      - (if P (tx_state t) then acct_sum d a (tx_entries t) else 0)"
  unfolding sum_over_def using hm.tally_replace [OF index_okD(1) [OF ledger_invD(1) [OF assms(1)]] assms(2)] by simp

text \<open>
  Settling a pending transaction moves the two views as documented: posting it leaves every
  pending balance unchanged and moves the posted balance by the transaction's net effect on the
  account; archiving it leaves every posted balance unchanged and takes the net effect out of the
  pending balance.
\<close>

theorem settling_moves_balances:
  assumes "ledger_reach s" and "hm_get (ls_transactions s) i = Some t" and "hm_get (ls_accounts s) a = Some acct"
    and "balance_of s a = Ok b" and "balance_of s' a = Ok b'"
    and "move = net (acc_normal_balance acct) (acct_sum Debit a (tx_entries t)) (acct_sum Credit a (tx_entries t))"
  shows "(mark_posted s i = (s', Ok ()) \<longrightarrow>
        bal_pending b' = bal_pending b \<and> minor_units (bal_posted b') = minor_units (bal_posted b) + move)
    \<and> (mark_archived s i = (s', Ok ()) \<longrightarrow>
        bal_posted b' = bal_posted b \<and> minor_units (bal_pending b') = minor_units (bal_pending b) - move)"
proof (intro conjI impI)
  note inv = ledger_reach_inv [OF assms(1)]
  have b: "bal_posted b = from_minor (net (acc_normal_balance acct) (posted_sum Debit a s) (posted_sum Credit a s)) (acc_currency acct)"
    "bal_pending b = from_minor (net (acc_normal_balance acct) (live_sum Debit a s) (live_sum Credit a s)) (acc_currency acct)"
    using balance_of_Ok [OF assms(4)] assms(3) by auto
  note upd = sum_over_replace [OF inv assms(2)]
  {
    assume "mark_posted s i = (s', Ok ())"
    then have s': "s' = s\<lparr>ls_transactions := hm_insert i (t\<lparr>tx_state := Posted\<rparr>) (ls_transactions s)\<rparr>" "tx_state t = Pending"
      using assms(2) by (auto elim: mark_posted_OkD)
    with balance_of_Ok [OF assms(5)] assms(3,6) b
    show "bal_pending b' = bal_pending b" "minor_units (bal_posted b') = minor_units (bal_posted b) + move"
      by (auto simp: posted_sum_def live_sum_def upd from_minor_def net_def split: normal_balance.split)
  next
    assume "mark_archived s i = (s', Ok ())"
    then have s': "s' = s\<lparr>ls_transactions := hm_insert i (t\<lparr>tx_state := Archived\<rparr>) (ls_transactions s)\<rparr>" "tx_state t = Pending"
      using assms(2) by (auto elim: mark_archived_OkD)
    with balance_of_Ok [OF assms(5)] assms(3,6) b
    show "bal_posted b' = bal_posted b" "minor_units (bal_pending b') = minor_units (bal_pending b) - move"
      by (auto simp: posted_sum_def live_sum_def upd from_minor_def net_def split: normal_balance.split)
  }
qed

text \<open>What the sorted comparison of two bodies decides.\<close>

lemma same_body_iff:
  assumes "entries_ok accts q"
  shows "same_body q t \<longleftrightarrow> tx_ledger_id q = tx_ledger_id t \<and> mset (tx_entries q) = mset (tx_entries t)"
proof -
  have inj: "inj_on entry_key (set (tx_entries q))"
  proof (rule inj_onI)
    fix x y assume xy: "x \<in> set (tx_entries q)" "y \<in> set (tx_entries q)" "entry_key x = entry_key y"
    with assms obtain c d where "hm_get accts (en_account_id x) = Some c" "acc_currency c = currency (en_amount x)"
      "hm_get accts (en_account_id y) = Some d" "acc_currency d = currency (en_amount y)"
      unfolding entries_ok_def by metis
    with xy(3) show "x = y" by (auto simp: entry_key_def)
  qed
  have "mset (tx_entries q) = mset (tx_entries t)" if "sort_key entry_key (tx_entries q) = sort_key entry_key (tx_entries t)"
    using that by (metis mset_sort)
  moreover have "sort_key entry_key (tx_entries q) = sort_key entry_key (tx_entries t)"
    if "mset (tx_entries q) = mset (tx_entries t)"
    by (rule sort_key_inj_key_eq) (use that inj in auto)
  ultimately show ?thesis by (auto simp: same_body_def dest: mset_eq_length)
qed

lemma ledger_step_index:
  "ledger_step s s' \<Longrightarrow> hm_get (ls_by_external_id s) e = Some i \<Longrightarrow> hm_get (ls_by_external_id s') e = Some i"
proof (induction rule: ledger_step.induct)
  case (step_post s t)
  then show ?case by (auto simp: post_transaction_def split: option.splits result.splits)
next
  case (step_posted s j)
  show ?case by (rule mark_cases [OF disjI1 [OF refl], of s j]) (use step_posted in auto)
next
  case (step_archived s j)
  show ?case by (rule mark_cases [OF disjI2 [OF refl], of s j]) (use step_archived in auto)
qed (auto simp: create_ledger_def create_account_def)

lemma ledger_steps_keep_external:
  assumes "ledger_step\<^sup>*\<^sup>* s s'" and "hm_get (ls_by_external_id s) e = Some i" and "hm_get (ls_transactions s) i = Some t"
  shows "hm_get (ls_by_external_id s') e = Some i \<and> (\<exists>st. hm_get (ls_transactions s') i = Some (t\<lparr>tx_state := st\<rparr>))"
  using assms(1)
proof (induction rule: rtranclp_induct)
  case base
  from assms(2,3) show ?case by (auto intro: exI [of _ "tx_state t"])
next
  case (step u v)
  then obtain st where st: "hm_get (ls_by_external_id u) e = Some i" "hm_get (ls_transactions u) i = Some (t\<lparr>tx_state := st\<rparr>)" by blast
  obtain c where "v = ledger_call_run c u" "\<not> posts_id i c" using ledger_step_call [OF step(2) st(2)] by blast
  then show ?case using ledger_step_index [OF step(2) st(1)] ledger_call_history [OF _ st(2), of c] by auto
qed

lemma post_records_external:
  assumes "ledger_inv s" and "post_transaction s t = (s', Ok i)" and "tx_external_id t = Some e"
  shows "hm_get (ls_by_external_id s') e = Some i
    \<and> (\<exists>q. hm_get (ls_transactions s') i = Some q \<and> tx_ledger_id q = tx_ledger_id t \<and> mset (tx_entries q) = mset (tx_entries t))"
proof -
  have led: "hm_contains_key (ls_ledgers s) (tx_ledger_id t)"
    using assms(2) by (cases "hm_contains_key (ls_ledgers s) (tx_ledger_id t)") (simp_all add: post_transaction_def)
  show ?thesis
  proof (cases "hm_get (ls_by_external_id s) e")
    case None
    show ?thesis
    proof (cases "check_entries (ls_accounts s) (tx_ledger_id t) (tx_entries t)")
      case (Ok u)
      with assms(2,3) None led have "i = tx_id t"
        "s' = s\<lparr>ls_by_external_id := hm_insert e (tx_id t) (ls_by_external_id s), ls_transactions := hm_insert (tx_id t) t (ls_transactions s)\<rparr>"
        by (auto simp: post_transaction_def)
      then show ?thesis by simp
    qed (use assms(2,3) None led in \<open>simp_all add: post_transaction_def\<close>)
  next
    case (Some j)
    have "s' = s" using assms(2,3) led Some by (simp add: post_transaction_def)
    moreover obtain q where q: "hm_get (ls_transactions s) j = Some q" "same_body q t" "i = j"
      using assms(2,3) led Some
      by (cases "hm_get (ls_transactions s) j") (simp_all add: post_transaction_def split: if_splits)
    moreover have "tx_ledger_id q = tx_ledger_id t \<and> mset (tx_entries q) = mset (tx_entries t)"
      using q(2) same_body_iff [OF ledger_invD(4) [OF assms(1) q(1)], of t] by blast
    ultimately show ?thesis using Some by simp
  qed
qed

text \<open>
  C18.  Posting is idempotent on the external id.  Once a transaction was posted under an external id, then after any further calls (with fresh
  ids) a post under that external id never changes the store.  It reports an unknown ledger when its ledger does not exist; otherwise it
  returns the id of the first one exactly when ledger and entries agree, the entries compared as a multiset, and \<open>IdempotencyMismatch\<close> when not.
\<close>

theorem ledger_post_idempotent:
  assumes "ledger_reach s" and "hm_get (ls_transactions s) (tx_id t) = None" and "tx_built t"
    and "post_transaction s t = (s', Ok i)" and "tx_external_id t = Some e"
    and "ledger_step\<^sup>*\<^sup>* s' s2" and "tx_external_id t2 = Some e"
  shows "post_transaction s2 t2 =
    (s2, if \<not> hm_contains_key (ls_ledgers s2) (tx_ledger_id t2) then Err (LedgerNotFound (tx_ledger_id t2))
         else if tx_ledger_id t2 = tx_ledger_id t \<and> mset (tx_entries t2) = mset (tx_entries t)
         then Ok i else Err LedgerIdempotencyMismatch)"
proof -
  have "ledger_step s s'" using step_post [OF assms(2,3)] assms(4) by simp
  then have reach: "ledger_reach s2" using assms(1,6) by (meson rtranclp.rtrancl_into_rtrancl rtranclp_trans)
  obtain q where q: "hm_get (ls_by_external_id s') e = Some i" "hm_get (ls_transactions s') i = Some q"
    "tx_ledger_id q = tx_ledger_id t" "mset (tx_entries q) = mset (tx_entries t)"
    using post_records_external [OF ledger_reach_inv [OF assms(1)] assms(4,5)] by blast
  obtain st where s2: "hm_get (ls_by_external_id s2) e = Some i" "hm_get (ls_transactions s2) i = Some (q\<lparr>tx_state := st\<rparr>)"
    using ledger_steps_keep_external [OF assms(6) q(1,2)] by blast
  have "same_body (q\<lparr>tx_state := st\<rparr>) t2 \<longleftrightarrow> tx_ledger_id t2 = tx_ledger_id t \<and> mset (tx_entries t2) = mset (tx_entries t)"
    using same_body_iff [OF ledger_invD(4) [OF ledger_reach_inv [OF reach] s2(2)], of t2] q(3,4) by auto
  then show ?thesis using s2 assms(7) by (auto simp: post_transaction_def)
qed

text \<open>
  The guard on fresh transaction ids is needed: posting a transaction value again under the
  same id and without an external id replaces the recorded row, even when that row is posted or
  archived, so a stale pending copy turns a terminal transaction back into a pending one.
\<close>

theorem repost_replaces_terminal:
  assumes "hm_contains_key (ls_ledgers s) (tx_ledger_id t)"
    and "check_entries (ls_accounts s) (tx_ledger_id t) (tx_entries t) = Ok ()"
    and "tx_external_id t = None" and "tx_state t = Pending"
    and "get_transaction s (tx_id t) = Ok old" and "tx_is_terminal (tx_state old)"
  shows "\<exists>s'. post_transaction s t = (s', Ok (tx_id t)) \<and> get_transaction s' (tx_id t) = Ok t \<and> t \<noteq> old"
  using assms by (auto simp: post_transaction_def get_transaction_def)

section \<open>Concrete runs\<close>

abbreviation "sample_ledger \<equiv> \<lparr>lg_id = 7, lg_name = ''main'', lg_description = None\<rparr>"

abbreviation "sample_accounts \<equiv>
  [(1, new_account 1 7 ''cash'' Asset USD), (2, new_account 2 7 ''sales'' Revenue USD), (3, new_account 3 7 ''fees'' Liability USD)]"

abbreviation sample_tx :: "uuid \<Rightarrow> tx_status \<Rightarrow> string option \<Rightarrow> entry list \<Rightarrow> transaction" where
  "sample_tx i st e es \<equiv> \<lparr>tx_id = i, tx_ledger_id = 7, tx_state = st, tx_external_id = e, tx_description = None,
     tx_effective_at = 100, tx_entries = es, tx_metadata = []\<rparr>"

abbreviation sample_books :: "(uuid \<times> transaction) list \<Rightarrow> ledger_store" where
  "sample_books ts \<equiv> \<lparr>ls_ledgers = [(7, sample_ledger)], ls_accounts = sample_accounts, ls_transactions = ts, ls_by_external_id = []\<rparr>"

lemma tx_built_sample: "tx_built (sample_tx i st e sample_entries)"
proof -
  have "validate_balanced sample_entries = Ok ()" by code_simp
  then show ?thesis by (simp add: tx_built_def construct_def)
qed

lemma sample_setup_reach: "ledger_reach (sample_books [])"
proof -
  let ?s = "\<lambda>as. \<lparr>ls_ledgers = [(7, sample_ledger)], ls_accounts = as, ls_transactions = [], ls_by_external_id = []\<rparr>"
  have "fst (create_ledger ledger_store_new sample_ledger) = ?s []" by code_simp
  then have 0: "ledger_reach (?s [])" using step_ledger by (metis r_into_rtranclp)
  have add: "ledger_reach (?s (as @ [(acc_id a, a)]))"
    if "ledger_reach (?s as)" "acc_ledger_id a = 7" "hm_get as (acc_id a) = None" for as a
  proof -
    have "AList.update (acc_id a) a as = as @ [(acc_id a, a)]" using that(3) by (induction as) (auto simp: hm_get_def split: if_splits)
    then have "fst (create_account (?s as) a) = ?s (as @ [(acc_id a, a)])"
      using that by (simp add: create_account_def hm_contains_key_def hm_get_def hm_insert_def)
    with step_account [of "?s as" a] that show ?thesis by (simp add: rtranclp.rtrancl_into_rtrancl)
  qed
  note 1 = add [OF 0, of "new_account 1 7 ''cash'' Asset USD"]
  show ?thesis
    using add [OF add [OF 1], of "new_account 2 7 ''sales'' Revenue USD" "new_account 3 7 ''fees'' Liability USD"]
    by (simp add: new_account_def hm_get_def)
qed

lemma sample_posted_reach: "ledger_reach (sample_books [(10, sample_tx 10 st None sample_entries)])"
proof -
  have eq: "fst (post_transaction (sample_books []) (sample_tx 10 st None sample_entries)) = sample_books [(10, sample_tx 10 st None sample_entries)]"
    by code_simp
  have "ledger_step (sample_books []) (fst (post_transaction (sample_books []) (sample_tx 10 st None sample_entries)))"
    by (rule step_post [OF _ tx_built_sample]) simp
  from rtranclp.rtrancl_into_rtrancl [where r = ledger_step, OF sample_setup_reach this] show ?thesis by (simp only: eq)
qed

abbreviation "sample_balance n m \<equiv> \<lparr>bal_currency = USD, bal_posted = from_minor n USD, bal_pending = from_minor m USD\<rparr>"

lemma sample_balances:
  "balance_of (sample_books [(10, sample_tx 10 Posted None sample_entries)]) 1 = Ok (sample_balance 1000 1000)"
  "balance_of (sample_books [(10, sample_tx 10 Posted None sample_entries)]) 2 = Ok (sample_balance 970 970)"
  "balance_of (sample_books [(10, sample_tx 10 Posted None sample_entries)]) 3 = Ok (sample_balance 30 30)"
  "balance_of (sample_books [(10, sample_tx 10 Pending None sample_entries)]) 1 = Ok (sample_balance 0 1000)"
  by code_simp+

theorem accounting_equation_witness:
  "book (sample_books [(10, sample_tx 10 Posted None sample_entries)]) 7 ''USD'' NormalDebit (\<lambda>a. if acc_id a = 1 then 1000 else if acc_id a = 2 then 970 else 30)
   = book (sample_books [(10, sample_tx 10 Posted None sample_entries)]) 7 ''USD'' NormalCredit (\<lambda>a. if acc_id a = 1 then 1000 else if acc_id a = 2 then 970 else 30)"
proof -
  let ?s = "sample_books [(10, sample_tx 10 Posted None sample_entries)]"
  let ?b = "\<lambda>a. let n = (if acc_id a = 1 then 1000 else if acc_id a = 2 then 970 else 30) in sample_balance n n"
  have ids: "acc_id a = 1 \<or> acc_id a = 2 \<or> acc_id a = 3" if "a \<in> set (hm_values (ls_accounts ?s))" for a
    using that by (auto simp: hm_values_def new_account_def)
  have "balance_of ?s (acc_id a) = Ok (?b a)" if "a \<in> set (hm_values (ls_accounts ?s))" for a
    using ids [OF that] sample_balances(1-3) by auto
  from accounting_equation [OF sample_posted_reach this, of 7 "''USD''"] show ?thesis
    by (simp add: from_minor_def Let_def)
qed

theorem balance_exact_witness:
  "balance_of (sample_books [(10, sample_tx 10 Posted None sample_entries)]) 2 = Ok (sample_balance 970 970)"
proof -
  let ?s = "sample_books [(10, sample_tx 10 Posted None sample_entries)]"
  have 1: "hm_get (ls_accounts ?s) 2 = Some (new_account 2 7 ''sales'' Revenue USD)" by (simp add: hm_get_def)
  have 2: "nonneg_store ?s" by code_simp
  have 3: "live_sum Debit 2 ?s = 0" "live_sum Credit 2 ?s = 970" "posted_sum Debit 2 ?s = 0" "posted_sum Credit 2 ?s = 970"
    by code_simp+
  have 4: "acc_currency (new_account 2 7 ''sales'' Revenue USD) = USD"
    "acc_normal_balance (new_account 2 7 ''sales'' Revenue USD) = NormalCredit" by (simp_all add: new_account_def)
  have 5: "((0 :: int) \<le> i64_max \<and> (970 :: int) \<le> i64_max) = True" "net NormalCredit 0 970 = 970" by (simp_all add: net_def)
  show ?thesis using balance_exact [OF 1 2] unfolding 3 4 5 if_True .
qed

theorem ledger_history_immutable_witness:
  "get_transaction (fold ledger_call_run [CallPost (sample_tx 11 Posted None sample_entries), CallMarkArchived 10]
     (sample_books [(10, sample_tx 10 Posted None sample_entries)])) 10 = Ok (sample_tx 10 Posted None sample_entries)"
  using ledger_history_immutable [of 10 "[CallPost (sample_tx 11 Posted None sample_entries), CallMarkArchived 10]"
      "sample_books [(10, sample_tx 10 Posted None sample_entries)]" "sample_tx 10 Posted None sample_entries"]
  by (auto simp: hm_get_def [of "[(10 :: nat, _)]"] get_transaction_def simp del: fold.simps)

theorem settling_moves_balances_witness:
  "mark_posted (sample_books [(10, sample_tx 10 Pending None sample_entries)]) 10
     = (sample_books [(10, sample_tx 10 Posted None sample_entries)], Ok ())
   \<and> minor_units (from_minor 1000 USD) = minor_units (from_minor 0 USD) + 1000"
proof -
  let ?p = "sample_books [(10, sample_tx 10 Pending None sample_entries)]"
  let ?q = "sample_books [(10, sample_tx 10 Posted None sample_entries)]"
  have 1: "mark_posted ?p 10 = (?q, Ok ())" by code_simp
  have 2: "hm_get (ls_transactions ?p) 10 = Some (sample_tx 10 Pending None sample_entries)"
    "hm_get (ls_accounts ?p) 1 = Some (new_account 1 7 ''cash'' Asset USD)" by (simp_all add: hm_get_def)
  have 3: "1000 = net (acc_normal_balance (new_account 1 7 ''cash'' Asset USD)) (acct_sum Debit 1 (tx_entries (sample_tx 10 Pending None sample_entries)))
      (acct_sum Credit 1 (tx_entries (sample_tx 10 Pending None sample_entries)))" by code_simp
  from settling_moves_balances [OF sample_posted_reach 2 sample_balances(4,1) 3] 1 show ?thesis by simp
qed

theorem ledger_post_idempotent_witness:
  "snd (post_transaction (fst (mark_posted (fst (post_transaction (sample_books []) (sample_tx 10 Pending (Some ''ord-1'') sample_entries))) 10))
     (sample_tx 11 Posted (Some ''ord-1'') (rev sample_entries))) = Ok 10"
proof -
  let ?t = "sample_tx 10 Pending (Some ''ord-1'') sample_entries" and ?u = "sample_tx 11 Posted (Some ''ord-1'') (rev sample_entries)"
  let ?s' = "fst (post_transaction (sample_books []) ?t)" and ?s2 = "fst (mark_posted (fst (post_transaction (sample_books []) ?t)) 10)"
  have 1: "hm_get (ls_transactions (sample_books [])) (tx_id ?t) = None" by simp
  have "snd (post_transaction (sample_books []) ?t) = Ok 10" by code_simp
  then have 2: "post_transaction (sample_books []) ?t = (?s', Ok 10)" by (metis prod.collapse)
  have 3: "tx_external_id ?t = Some ''ord-1''" "tx_external_id ?u = Some ''ord-1''" by simp_all
  have 4: "ledger_step\<^sup>*\<^sup>* ?s' ?s2" using step_posted by blast
  have 5: "hm_contains_key (ls_ledgers ?s2) (tx_ledger_id ?u)" by code_simp
  show ?thesis
    using ledger_post_idempotent [OF sample_setup_reach 1 tx_built_sample 2 3(1) 4 3(2)] 5 by (simp del: rev.simps)
qed

theorem repost_replaces_terminal_witness:
  "get_transaction (fst (post_transaction (sample_books [(10, sample_tx 10 Archived None sample_entries)]) (sample_tx 10 Pending None sample_entries))) 10
     = Ok (sample_tx 10 Pending None sample_entries)"
proof -
  let ?s = "sample_books [(10, sample_tx 10 Archived None sample_entries)]" and ?t = "sample_tx 10 Pending None sample_entries"
  have 1: "hm_contains_key (ls_ledgers ?s) (tx_ledger_id ?t)" by code_simp
  have 2: "check_entries (ls_accounts ?s) (tx_ledger_id ?t) (tx_entries ?t) = Ok ()" by code_simp
  have 3: "get_transaction ?s (tx_id ?t) = Ok (sample_tx 10 Archived None sample_entries)" by code_simp
  from repost_replaces_terminal [OF 1 2 _ _ 3] show ?thesis by auto
qed

end
