(* ===== verification/Settlement_Batch.thy ===== *)
theory Settlement_Batch
  imports Money
begin

text \<open>
  \<^verbatim>\<open>op-settlement\<close>, the parts without a store: payout rails (\<^verbatim>\<open>payout.rs\<close>), batches and their lifecycle
  (\<^verbatim>\<open>batch.rs\<close>), cutoff schedules (\<^verbatim>\<open>cutoff.rs\<close>) and the holdback policy (\<^verbatim>\<open>holdback.rs\<close>).

  A batch is amended in place by its methods; here each method maps the batch to the amended
  batch.  The lifecycle is the step relation \<open>batch_step\<close>; the cutoff is proved against
  the calendar-free specification \<open>cutoff_between\<close> (an instant \<open>k * 86400 + h * 3600\<close> lies
  in the half-open window), and the holdback against exact rational rounding.
\<close>

section \<open>Rails and errors\<close>

datatype payout_rail = AchNacha | SepaCt | FedNow | Rtp | Wire | InternalBookTransfer

fun is_nacha :: "payout_rail \<Rightarrow> bool" where
  "is_nacha AchNacha = True"
| "is_nacha _ = False"

fun is_iso20022_pacs008 :: "payout_rail \<Rightarrow> bool" where
  "is_iso20022_pacs008 SepaCt = True"
| "is_iso20022_pacs008 FedNow = True"
| "is_iso20022_pacs008 Rtp = True"
| "is_iso20022_pacs008 _ = False"

text \<open>The derived \<^verbatim>\<open>Debug\<close> rendering of a rail.\<close>

fun rail_debug :: "payout_rail \<Rightarrow> string" where
  "rail_debug AchNacha = ''AchNacha''"
| "rail_debug SepaCt = ''SepaCt''"
| "rail_debug FedNow = ''FedNow''"
| "rail_debug Rtp = ''Rtp''"
| "rail_debug Wire = ''Wire''"
| "rail_debug InternalBookTransfer = ''InternalBookTransfer''"

text \<open>The variant \<^verbatim>\<open>Iso20022\<close> wraps an error of the message-building crate; no operation of this
  crate's batches, store or engine produces it.\<close>

datatype settlement_error =
    SettlementInvalid string
  | BatchNotFound uuid
  | BatchInvalidTransition string string
  | BatchIdempotencyMismatch string
  | BatchCurrencyMismatch string string
  | EmptyBatch
  | SettlementCore core_error

section \<open>Holdback\<close>

record holdback_policy =
  hp_flat_rate_bps :: nat
  hp_max_total_bps :: nat

record holdback =
  hb_gross :: money
  hb_reserve :: money
  hb_flat_rate_bps :: nat
  hb_dispute_adjustment_bps :: nat

definition policy_none :: holdback_policy where
  "policy_none = \<lparr>hp_flat_rate_bps = 0, hp_max_total_bps = 10000\<rparr>"

definition policy_flat :: "nat \<Rightarrow> holdback_policy" where
  "policy_flat r = \<lparr>hp_flat_rate_bps = r, hp_max_total_bps = 10000\<rparr>"

definition with_ceiling :: "holdback_policy \<Rightarrow> nat \<Rightarrow> holdback_policy" where
  "with_ceiling p m = p\<lparr>hp_max_total_bps := m\<rparr>"

definition effective_bps :: "holdback_policy \<Rightarrow> nat \<Rightarrow> nat" where
  "effective_bps p adj = min (u32_saturating_add (hp_flat_rate_bps p) adj) (hp_max_total_bps p)"

text \<open>\<^verbatim>\<open>i64::abs\<close> has no value for the least \<^verbatim>\<open>i64\<close>.  The product is formed in \<^verbatim>\<open>i128\<close> and cannot
  overflow there (\<open>i128_product_in_range\<close>); the division truncates towards zero.\<close>

definition compute :: "holdback_policy \<Rightarrow> money \<Rightarrow> nat \<Rightarrow> (holdback, settlement_error) result" where
  "compute p gr adj =
     (let minor = minor_units gr;
          scaled = (minor * int (effective_bps p adj)) sdiv 10000
      in rbind (ok_or (i64_of scaled) (SettlementCore Overflow)) (\<lambda>scaled_minor.
         rbind (i64_val \<bar>scaled_minor\<bar>) (\<lambda>reserve.
         rbind (i64_val \<bar>minor\<bar>) (\<lambda>bound.
           Ok \<lparr>hb_gross = gr,
               hb_reserve = from_minor (if reserve > bound then bound else reserve) (currency gr),
               hb_flat_rate_bps = hp_flat_rate_bps p,
               hb_dispute_adjustment_bps = adj\<rparr>))))"

definition net :: "holdback \<Rightarrow> (money, settlement_error) result" where
  "net h = map_err SettlementCore (checked_sub (hb_gross h) (hb_reserve h))"

section \<open>Batches\<close>

datatype batch_status =
    Open
  | Closed nat
  | Paying string nat
  | Paid string nat
  | Failed string string nat

fun status_code :: "batch_status \<Rightarrow> string" where
  "status_code Open = ''open''"
| "status_code (Closed _) = ''closed''"
| "status_code (Paying _ _) = ''paying''"
| "status_code (Paid _ _) = ''paid''"
| "status_code (Failed _ _ _) = ''failed''"

fun is_terminal :: "batch_status \<Rightarrow> bool" where
  "is_terminal (Paid _ _) = True"
| "is_terminal (Failed _ _ _) = True"
| "is_terminal _ = False"

record batch_entry =
  be_tx_id :: uuid
  be_amount :: money
  be_reference :: "string option"

record batch =
  bt_id :: uuid
  bt_currency :: currency
  bt_rail :: payout_rail
  bt_external_id :: "string option"
  bt_status :: batch_status
  bt_entries :: "batch_entry list"
  bt_holdback :: "holdback option"
  bt_opened_at :: nat
  bt_metadata :: "(string \<times> string) list"

definition open_at :: "uuid \<Rightarrow> currency \<Rightarrow> payout_rail \<Rightarrow> nat \<Rightarrow> batch" where
  "open_at uid cur rl now =
     \<lparr>bt_id = uid, bt_currency = cur, bt_rail = rl, bt_external_id = None, bt_status = Open, bt_entries = [],
      bt_holdback = None, bt_opened_at = now, bt_metadata = []\<rparr>"

definition batch_with_external_id :: "batch \<Rightarrow> string \<Rightarrow> batch" where
  "batch_with_external_id b e = b\<lparr>bt_external_id := Some e\<rparr>"

definition add_entry :: "batch \<Rightarrow> uuid \<Rightarrow> money \<Rightarrow> string option \<Rightarrow> (batch, settlement_error) result" where
  [transition_defs]: "add_entry b tx amt refr =
     (case bt_status b of
        Open \<Rightarrow>
          if currency amt \<noteq> bt_currency b then Err (BatchCurrencyMismatch (code (bt_currency b)) (code (currency amt)))
          else Ok (b\<lparr>bt_entries := bt_entries b @ [\<lparr>be_tx_id = tx, be_amount = amt, be_reference = refr\<rparr>]\<rparr>)
      | st \<Rightarrow> Err (BatchInvalidTransition (status_code st) ''open(add_entry)''))"

fun gross_from :: "money \<Rightarrow> batch_entry list \<Rightarrow> (money, settlement_error) result" where
  "gross_from tot [] = Ok tot"
| "gross_from tot (e # es) =
     rbind (map_err SettlementCore (checked_add tot (be_amount e))) (\<lambda>t. gross_from t es)"

definition gross :: "batch \<Rightarrow> (money, settlement_error) result" where
  "gross b = gross_from (from_minor 0 (bt_currency b)) (bt_entries b)"

definition close :: "batch \<Rightarrow> holdback \<Rightarrow> nat \<Rightarrow> (batch, settlement_error) result" where
  [transition_defs]: "close b h now =
     (case bt_status b of
        Open \<Rightarrow> Ok (b\<lparr>bt_holdback := Some h, bt_status := Closed now\<rparr>)
      | st \<Rightarrow> Err (BatchInvalidTransition (status_code st) ''closed''))"

definition pay :: "batch \<Rightarrow> string \<Rightarrow> nat \<Rightarrow> (batch, settlement_error) result" where
  [transition_defs]: "pay b rail_ref now =
     (case bt_status b of
        Closed _ \<Rightarrow> Ok (b\<lparr>bt_status := Paying rail_ref now\<rparr>)
      | st \<Rightarrow> Err (BatchInvalidTransition (status_code st) ''paying''))"

definition settled :: "batch \<Rightarrow> nat \<Rightarrow> (batch, settlement_error) result" where
  [transition_defs]: "settled b now =
     (case bt_status b of
        Paying rail_ref _ \<Rightarrow> Ok (b\<lparr>bt_status := Paid rail_ref now\<rparr>)
      | st \<Rightarrow> Err (BatchInvalidTransition (status_code st) ''paid''))"

definition fail :: "batch \<Rightarrow> string \<Rightarrow> string \<Rightarrow> nat \<Rightarrow> (batch, settlement_error) result" where
  [transition_defs]: "fail b cd msg now =
     (case bt_status b of
        Paying _ _ \<Rightarrow> Ok (b\<lparr>bt_status := Failed cd msg now\<rparr>)
      | st \<Rightarrow> Err (BatchInvalidTransition (status_code st) ''failed''))"

section \<open>Cutoffs\<close>

datatype cutoff = Daily nat | MultiDaily "nat list" | Manual

definition daily :: "nat \<Rightarrow> (cutoff, settlement_error) result" where
  "daily h = (if h \<ge> 24 then Err (SettlementInvalid (''hour_utc '' @ show_nat h @ '' not in [0,23]'')) else Ok (Daily h))"

text \<open>The loop of \<^verbatim>\<open>multi_daily\<close>; the text of the first error contains the character U+2265.\<close>

fun ascending_hours :: "int \<Rightarrow> nat list \<Rightarrow> (unit, settlement_error) result" where
  "ascending_hours prev [] = Ok ()"
| "ascending_hours prev (h # hs) =
     (if h \<ge> 24 then Err (SettlementInvalid (''hour '' @ show_nat h @ '' not in [0,23]''))
      else if int h \<le> prev then Err (SettlementInvalid ''multi_daily hours must be strictly ascending'')
      else ascending_hours (int h) hs)"

definition multi_daily :: "nat list \<Rightarrow> (cutoff, settlement_error) result" where
  "multi_daily hs =
     (if hs = [] then Err (SettlementInvalid (''multi_daily needs '' @ [CHR 0xE2, CHR 0x89, CHR 0xA5] @ ''1 hour''))
      else rbind (ascending_hours (-1) hs) (\<lambda>_. Ok (MultiDaily hs)))"

definition hour_crossed :: "nat \<Rightarrow> nat \<Rightarrow> nat \<Rightarrow> (bool, settlement_error) result" where
  "hour_crossed prev now h =
     (if now \<le> prev then Ok False
      else let day_floor = prev div 86400 * 86400 in
        rbind (u64_val (day_floor + h * 3600)) (\<lambda>candidate.
        rbind (if candidate \<le> prev then u64_val (candidate + 86400) else Ok candidate) (\<lambda>candidate.
        Ok (candidate \<le> now))))"

fun any_hour_crossed :: "nat \<Rightarrow> nat \<Rightarrow> nat list \<Rightarrow> (bool, settlement_error) result" where
  "any_hour_crossed prev now [] = Ok False"
| "any_hour_crossed prev now (h # hs) =
     rbind (hour_crossed prev now h) (\<lambda>c. if c then Ok True else any_hour_crossed prev now hs)"

definition should_close :: "cutoff \<Rightarrow> nat \<Rightarrow> nat \<Rightarrow> (bool, settlement_error) result" where
  "should_close c prev now =
     (if now \<le> prev then Ok False
      else case c of
        Manual \<Rightarrow> Ok False
      | Daily h \<Rightarrow> hour_crossed prev now h
      | MultiDaily hs \<Rightarrow> any_hour_crossed prev now hs)"

section \<open>Lifecycle of a batch\<close>

inductive batch_step :: "batch \<Rightarrow> batch \<Rightarrow> bool" where
  "add_entry b tx amt refr = Ok b' \<Longrightarrow> batch_step b b'"
| "close b h now = Ok b' \<Longrightarrow> batch_step b b'"
| "pay b rail_ref now = Ok b' \<Longrightarrow> batch_step b b'"
| "settled b now = Ok b' \<Longrightarrow> batch_step b b'"
| "fail b cd msg now = Ok b' \<Longrightarrow> batch_step b b'"

fun batch_rank :: "batch_status \<Rightarrow> nat" where
  "batch_rank Open = 0"
| "batch_rank (Closed _) = 1"
| "batch_rank (Paying _ _) = 2"
| "batch_rank _ = 3"

lemma batch_rank_terminal: "is_terminal st \<longleftrightarrow> batch_rank st = 3"
  by (cases st) auto

text \<open>One step either appends an entry to an open batch or moves the status one place on and
  leaves the entries alone.\<close>

lemma batch_step_shape:
  "batch_step b b' \<Longrightarrow>
   bt_id b' = bt_id b \<and> bt_currency b' = bt_currency b \<and> bt_rail b' = bt_rail b \<and> bt_external_id b' = bt_external_id b \<and>
   ((bt_status b = Open \<and> bt_status b' = Open \<and> bt_holdback b' = bt_holdback b
       \<and> (\<exists>e. bt_entries b' = bt_entries b @ [e] \<and> currency (be_amount e) = bt_currency b))
    \<or> (batch_rank (bt_status b') = Suc (batch_rank (bt_status b)) \<and> bt_entries b' = bt_entries b
       \<and> (bt_holdback b' = bt_holdback b \<and> bt_status b \<noteq> Open \<or> bt_status b = Open \<and> bt_holdback b' \<noteq> None)))"
  by (induction rule: batch_step.induct) (auto simp: transition_defs split: batch_status.splits if_splits)

definition batch_inv :: "batch \<Rightarrow> bool" where
  "batch_inv b \<longleftrightarrow> (\<forall>e\<in>set (bt_entries b). currency (be_amount e) = bt_currency b)
     \<and> (bt_holdback b = None \<longleftrightarrow> bt_status b = Open)"

lemma batch_rank_Open: "batch_rank st = 0 \<longleftrightarrow> st = Open"
  by (cases st) auto

lemma batch_step_inv: "batch_step b b' \<Longrightarrow> batch_inv b \<Longrightarrow> batch_inv b'"
  using batch_step_shape [of b b'] by (auto simp: batch_inv_def batch_rank_Open [symmetric])

lemma batch_steps_frozen:
  assumes "batch_step\<^sup>*\<^sup>* b b'" and "bt_status b \<noteq> Open"
  shows "bt_entries b' = bt_entries b \<and> bt_holdback b' = bt_holdback b \<and> bt_status b' \<noteq> Open
    \<and> batch_rank (bt_status b) \<le> batch_rank (bt_status b')"
  using assms
proof (induction rule: rtranclp_induct)
  case (step c d)
  with batch_step_shape [OF step(2)] show ?case by (auto simp: batch_rank_Open [symmetric])
qed simp

text \<open>
  Life of a batch.  Whatever calls succeed on a freshly opened batch, its id, currency, rail and
  external id stay as they were, every entry is in the batch currency, and the holdback is set exactly
  when the batch is no longer open.  A batch that is closed is frozen: entries and holdback never
  change again, it never reopens, and once it is paid or failed no call succeeds.
\<close>

theorem batch_lifecycle:
  assumes "batch_step\<^sup>*\<^sup>* (open_at uid cur rl now) b"
  shows "bt_id b = uid \<and> bt_currency b = cur \<and> bt_rail b = rl \<and> batch_inv b
    \<and> (bt_status b \<noteq> Open \<longrightarrow> (\<forall>b'. batch_step\<^sup>*\<^sup>* b b' \<longrightarrow>
          bt_entries b' = bt_entries b \<and> bt_holdback b' = bt_holdback b \<and> bt_status b' \<noteq> Open))
    \<and> (is_terminal (bt_status b) \<longrightarrow> (\<forall>b'. \<not> batch_step b b'))"
proof -
  have inv: "bt_id b = uid \<and> bt_currency b = cur \<and> bt_rail b = rl \<and> batch_inv b"
    using assms
  proof (induction rule: rtranclp_induct)
    case (step c d)
    with batch_step_shape [OF step(2)] batch_step_inv [OF step(2)] show ?case by simp
  qed (simp add: open_at_def batch_inv_def)
  have "\<not> batch_step b b'" if "is_terminal (bt_status b)" for b'
  proof
    assume "batch_step b b'"
    from batch_step_shape [OF this] that have "batch_rank (bt_status b') = 4"
      by (auto simp: batch_rank_terminal)
    then show False by (cases "bt_status b'") auto
  qed
  with inv batch_steps_frozen show ?thesis by blast
qed

section \<open>Gross and holdback\<close>

definition entries_sum :: "batch_entry list \<Rightarrow> int" where
  "entries_sum es = (\<Sum>e\<leftarrow>es. minor_units (be_amount e))"

lemma gross_from_Ok:
  "gross_from tot es = Ok g \<Longrightarrow> g = \<lparr>minor_units = minor_units tot + entries_sum es, currency = currency tot\<rparr>"
proof (induction es arbitrary: tot)
  case (Cons e es)
  then obtain t where "checked_add tot (be_amount e) = Ok t" "gross_from t es = Ok g" by auto
  with Cons.IH [of t] show ?case by (auto simp: entries_sum_def)
qed (simp add: entries_sum_def)

lemma gross_Ok: "gross b = Ok g \<Longrightarrow> g = from_minor (entries_sum (bt_entries b)) (bt_currency b)"
  by (auto simp: gross_def from_minor_def dest!: gross_from_Ok)

lemma gross_from_fits:
  assumes "\<forall>e\<in>set es. currency (be_amount e) = currency tot \<and> 0 \<le> minor_units (be_amount e)"
    and "0 \<le> minor_units tot" and "minor_units tot + entries_sum es \<le> i64_max"
  shows "\<exists>g. gross_from tot es = Ok g"
  using assms
proof (induction es arbitrary: tot)
  case (Cons e es)
  have "0 \<le> entries_sum es" using Cons.prems(1) by (induction es) (auto simp: entries_sum_def)
  with Cons.prems have "in_i64 (minor_units tot + minor_units (be_amount e))" by (auto simp: in_i64_def entries_sum_def)
  with Cons show ?case by (auto simp: entries_sum_def checked_add_def i64_checked_add_def i64_of_def)
qed simp

definition policy_wf :: "holdback_policy \<Rightarrow> bool" where
  "policy_wf p \<longleftrightarrow> hp_flat_rate_bps p \<le> u16_max \<and> hp_max_total_bps p \<le> u16_max"

lemma effective_bps_exact:
  "policy_wf p \<Longrightarrow> adj \<le> u16_max \<Longrightarrow> effective_bps p adj = min (hp_flat_rate_bps p + adj) (hp_max_total_bps p)"
  by (simp add: effective_bps_def policy_wf_def u32_saturating_add_def)

text \<open>
  C38.  The holdback of a gross that is not negative, under any policy and adjustment of 16 bits.  The rate is the flat
  rate plus the dispute adjustment, capped by the policy's ceiling; the reserve is the gross times that rate in basis
  points, rounded down and clamped to the gross.  The call fails only by a reported overflow, which needs a ceiling
  above 100 percent, and never panics; on success gross, reserve and net payout are all
  non-negative and the reserve and the net add up to the gross, and the holdback records both rates.
\<close>

theorem holdback_exact:
  assumes "money_wf gr" and "0 \<le> minor_units gr" and "policy_wf p" and "adj \<le> u16_max"
    and "rate = min (hp_flat_rate_bps p + adj) (hp_max_total_bps p)"
    and "raw = minor_units gr * int rate div 10000"
  shows "if raw \<le> i64_max
    then \<exists>h n. compute p gr adj = Ok h \<and> net h = Ok n \<and> hb_gross h = gr
       \<and> minor_units (hb_reserve h) = min raw (minor_units gr) \<and> currency (hb_reserve h) = currency gr
       \<and> 0 \<le> minor_units n \<and> minor_units n + minor_units (hb_reserve h) = minor_units gr
       \<and> hb_flat_rate_bps h = hp_flat_rate_bps p \<and> hb_dispute_adjustment_bps h = adj
    else compute p gr adj = Err (SettlementCore Overflow) \<and> 10000 < rate"
proof -
  let ?g = "minor_units gr"
  have rate: "effective_bps p adj = rate" using assms effective_bps_exact by simp
  have raw: "(?g * int (effective_bps p adj)) sdiv 10000 = raw" "0 \<le> raw"
    using assms by (simp_all add: rate sdiv_nonneg_eq_div pos_imp_zdiv_nonneg_iff)
  have g: "?g \<le> i64_max" using assms(1) by (simp add: money_wf_def in_i64_def)
  show ?thesis
  proof (cases "raw \<le> i64_max")
    case True
    with raw g assms(2) show ?thesis
      by (auto simp: compute_def Let_def i64_of_def i64_val_def in_i64_def net_def from_minor_def checked_sub_def
          i64_checked_sub_def min_def)
  next
    case False
    have "10000 < rate"
    proof (rule ccontr)
      assume "\<not> 10000 < rate"
      then have "?g * int rate \<le> ?g * 10000" using assms(2) by (intro mult_left_mono) auto
      then have "raw \<le> ?g" using assms(6) by linarith
      with False g show False by simp
    qed
    with False raw show ?thesis by (simp add: compute_def Let_def i64_of_def in_i64_def)
  qed
qed

theorem holdback_exact_witness:
  "\<exists>h n. compute (with_ceiling (policy_flat 50) 2000) (from_minor 1000099 USD) 25 = Ok h \<and> net h = Ok n
     \<and> minor_units (hb_reserve h) = 7500 \<and> minor_units n = 992599"
proof -
  have 1: "money_wf (from_minor 1000099 USD)" "0 \<le> minor_units (from_minor 1000099 USD)"
    by (simp_all add: money_wf_def from_minor_def in_i64_def)
  have 2: "policy_wf (with_ceiling (policy_flat 50) 2000)" "(25 :: nat) \<le> u16_max"
    by (simp_all add: policy_wf_def with_ceiling_def policy_flat_def)
  have 3: "75 = min (hp_flat_rate_bps (with_ceiling (policy_flat 50) 2000) + 25) (hp_max_total_bps (with_ceiling (policy_flat 50) 2000))"
    by (simp add: with_ceiling_def policy_flat_def)
  have 4: "7500 = minor_units (from_minor 1000099 USD) * int 75 div 10000" by (simp add: from_minor_def)
  have 5: "minor_units (from_minor 1000099 USD) = 1000099" by (simp add: from_minor_def)
  from holdback_exact [OF 1 2 3 4] show ?thesis unfolding 5 by auto
qed

theorem batch_lifecycle_witness:
  "\<exists>b. batch_step\<^sup>*\<^sup>* (open_at 5 USD FedNow 100) b \<and> bt_status b = Closed 200 \<and> batch_inv b"
proof -
  let ?h = "\<lparr>hb_gross = from_minor 10 USD, hb_reserve = from_minor 0 USD, hb_flat_rate_bps = 0, hb_dispute_adjustment_bps = 0\<rparr>"
  let ?a = "(open_at 5 USD FedNow 100)\<lparr>bt_entries := [\<lparr>be_tx_id = 9, be_amount = from_minor 10 USD, be_reference = None\<rparr>]\<rparr>"
  let ?b = "?a\<lparr>bt_holdback := Some ?h, bt_status := Closed 200\<rparr>"
  have "add_entry (open_at 5 USD FedNow 100) 9 (from_minor 10 USD) None = Ok ?a"
    by (simp add: add_entry_def open_at_def from_minor_def)
  moreover have "close ?a ?h 200 = Ok ?b" by (simp add: close_def open_at_def)
  ultimately have run: "batch_step\<^sup>*\<^sup>* (open_at 5 USD FedNow 100) ?b"
    by (meson batch_step.intros(1,2) converse_rtranclp_into_rtranclp r_into_rtranclp)
  have "bt_status ?b = Closed 200" by simp
  with batch_lifecycle [OF run] run show ?thesis by blast
qed

section \<open>Cutoffs\<close>

text \<open>The instants of a cutoff hour, and what it means for one to fall into \<open>(prev, now]\<close>.\<close>

definition cutoff_between :: "nat \<Rightarrow> nat \<Rightarrow> nat \<Rightarrow> bool" where
  "cutoff_between prev now h \<longleftrightarrow> (\<exists>day. prev < day * 86400 + h * 3600 \<and> day * 86400 + h * 3600 \<le> now)"

fun cutoff_hours :: "cutoff \<Rightarrow> nat list" where
  "cutoff_hours (Daily h) = [h]"
| "cutoff_hours (MultiDaily hs) = hs"
| "cutoff_hours Manual = []"

lemma next_cutoff:
  assumes "h < 24"
  shows "cutoff_between prev now h \<longleftrightarrow>
    (let c = prev div 86400 * 86400 + h * 3600 in (if c \<le> prev then c + 86400 else c) \<le> now)"
proof -
  define d where "d = prev div 86400"
  define c where "c = (if d * 86400 + h * 3600 \<le> prev then d * 86400 + h * 3600 + 86400 else d * 86400 + h * 3600)"
  have d: "d * 86400 \<le> prev" "prev < d * 86400 + 86400" unfolding d_def by auto
  have least: "c \<le> day * 86400 + h * 3600" if "prev < day * 86400 + h * 3600" for day
  proof (rule ccontr)
    assume "\<not> ?thesis"
    then have lt: "day * 86400 + h * 3600 < c" by simp
    show False
    proof (cases "d * 86400 + h * 3600 \<le> prev")
      case True
      with lt that have "day * 86400 < Suc d * 86400" "d * 86400 < day * 86400" by (auto simp: c_def)
      then show False by simp
    next
      case False
      with lt have "day < d" by (simp add: c_def)
      then have "day * 86400 + 86400 \<le> d * 86400" using mult_le_mono1 [of "Suc day" d 86400] by simp
      with d assms that show False by simp
    qed
  qed
  have "prev < c" using d by (auto simp: c_def)
  moreover have "\<exists>day. c = day * 86400 + h * 3600"
    by (cases "d * 86400 + h * 3600 \<le> prev") (auto simp: c_def intro: exI [of _ "Suc d"] exI [of _ d])
  ultimately have "cutoff_between prev now h \<longleftrightarrow> c \<le> now"
    unfolding cutoff_between_def using least by (meson order_trans)
  then show ?thesis by (simp add: c_def d_def Let_def)
qed

lemma cutoff_between_order: "cutoff_between prev now h \<Longrightarrow> prev < now"
  by (auto simp: cutoff_between_def)

lemma hour_crossed_exact:
  assumes "h < 24" and "prev + 86400 \<le> u64_max"
  shows "hour_crossed prev now h = Ok (cutoff_between prev now h)"
proof (cases "now \<le> prev")
  case True
  then show ?thesis using cutoff_between_order [of prev now h] by (auto simp: hour_crossed_def)
next
  case False
  have "prev div 86400 * 86400 \<le> prev" by simp
  with assms have "prev div 86400 * 86400 + h * 3600 \<le> u64_max" by linarith
  with False assms show ?thesis
    by (auto simp: hour_crossed_def Let_def u64_val_def next_cutoff [OF assms(1)])
qed

lemma any_hour_crossed_exact:
  "\<forall>h\<in>set hs. h < 24 \<Longrightarrow> prev + 86400 \<le> u64_max \<Longrightarrow>
   any_hour_crossed prev now hs = Ok (\<exists>h\<in>set hs. cutoff_between prev now h)"
  by (induction hs) (auto simp: hour_crossed_exact)

lemma ascending_hours_Ok:
  "ascending_hours prev hs = Ok () \<longleftrightarrow> sorted_wrt (<) hs \<and> (\<forall>h\<in>set hs. h < 24 \<and> prev < int h)"
proof (induction hs arbitrary: prev)
  case (Cons a hs)
  show ?case
  proof (cases "a < 24 \<and> prev < int a")
    case True
    then have "prev < int h" if "\<forall>h\<in>set hs. h < 24 \<and> a < h" "h \<in> set hs" for h using that by force
    with True Cons.IH [of "int a"] show ?thesis by auto
  qed auto
qed simp

lemma multi_daily_Ok:
  "multi_daily hs = Ok c \<longleftrightarrow> c = MultiDaily hs \<and> hs \<noteq> [] \<and> sorted_wrt (<) hs \<and> (\<forall>h\<in>set hs. h < 24)"
  by (auto simp: multi_daily_def ascending_hours_Ok)

definition cutoff_built :: "cutoff \<Rightarrow> bool" where
  "cutoff_built c \<longleftrightarrow> c = Manual \<or> (\<exists>h. daily h = Ok c) \<or> (\<exists>hs. multi_daily hs = Ok c)"

text \<open>
  Cutoff schedules fire exactly when they should.  For every schedule the constructors accept and
  any two instants at least a day below the end of the clock, the cutoff fires between the last tick
  and now precisely when some scheduled hour of some day lies strictly after the last tick and not
  after now, however many days the two are apart.
\<close>

theorem cutoff_fires_iff:
  assumes "cutoff_built c" and "prev + 86400 \<le> u64_max"
  shows "should_close c prev now = Ok (\<exists>h\<in>set (cutoff_hours c). cutoff_between prev now h)"
proof (cases "now \<le> prev")
  case True
  then show ?thesis using cutoff_between_order by (fastforce simp: should_close_def)
next
  case False
  have "\<forall>h\<in>set (cutoff_hours c). h < 24"
    using assms(1) by (auto simp: cutoff_built_def daily_def multi_daily_Ok split: if_splits)
  with False assms(2) show ?thesis
    by (cases c) (auto simp: should_close_def hour_crossed_exact any_hour_crossed_exact)
qed

theorem cutoff_fires_iff_witness:
  "should_close (MultiDaily [7, 19]) 1700000000 1700010000 = Ok (\<exists>h\<in>{7, 19}. cutoff_between 1700000000 1700010000 h)"
proof -
  have 1: "cutoff_built (MultiDaily [7, 19])" by (auto simp: cutoff_built_def multi_daily_Ok)
  have 2: "(1700000000 :: nat) + 86400 \<le> u64_max" by simp
  show ?thesis using cutoff_fires_iff [OF 1 2] by simp
qed

end
