(* ===== verification/Settlement.thy ===== *)
theory Settlement
  imports Settlement_Batch Ext_Store
begin

text \<open>
  \<^verbatim>\<open>op-settlement\<close>, the store (\<^verbatim>\<open>store.rs\<close>) and the engine that drives batches through their lifecycle
  (\<^verbatim>\<open>engine.rs\<close>).  The engine's methods take the store as an argument and return the amended store
  with their result; \<open>settlement_step\<close> is the relation of the calls that change a store.
\<close>

section \<open>Store\<close>

record settlement_store =
  ss_batches :: "(uuid, batch) hashmap"
  ss_by_external_id :: "(string, uuid) hashmap"

definition settlement_store_new :: settlement_store where
  "settlement_store_new = \<lparr>ss_batches = [], ss_by_external_id = []\<rparr>"

definition batch_bodies_equivalent :: "batch \<Rightarrow> batch \<Rightarrow> bool" where
  "batch_bodies_equivalent a b \<longleftrightarrow>
     bt_currency a = bt_currency b \<and> bt_rail a = bt_rail b \<and> bt_external_id a = bt_external_id b \<and> bt_entries a = bt_entries b"

definition create_batch :: "settlement_store \<Rightarrow> batch \<Rightarrow> settlement_store \<times> (uuid, settlement_error) result" where
  "create_batch s b =
     (case bt_external_id b of
        Some e \<Rightarrow>
          (case hm_get (ss_by_external_id s) e of
             Some existing_id \<Rightarrow>
               (case hm_get (ss_batches s) existing_id of
                  None \<Rightarrow> (s, Panic)
                | Some existing \<Rightarrow>
                    if batch_bodies_equivalent existing b then (s, Ok existing_id)
                    else (s, Err (BatchIdempotencyMismatch e)))
           | None \<Rightarrow>
               (s\<lparr>ss_by_external_id := hm_insert e (bt_id b) (ss_by_external_id s),
                  ss_batches := hm_insert (bt_id b) b (ss_batches s)\<rparr>, Ok (bt_id b)))
      | None \<Rightarrow> (s\<lparr>ss_batches := hm_insert (bt_id b) b (ss_batches s)\<rparr>, Ok (bt_id b)))"

definition get_batch :: "settlement_store \<Rightarrow> uuid \<Rightarrow> (batch, settlement_error) result" where
  "get_batch s i = ok_or (hm_get (ss_batches s) i) (BatchNotFound i)"

definition batch_find_by_external_id :: "settlement_store \<Rightarrow> string \<Rightarrow> (batch option, settlement_error) result" where
  "batch_find_by_external_id s e =
     Ok (case hm_get (ss_by_external_id s) e of None \<Rightarrow> None | Some i \<Rightarrow> hm_get (ss_batches s) i)"

definition list_open :: "settlement_store \<Rightarrow> batch list" where
  "list_open s = filter (\<lambda>b. bt_status b = Open) (hm_values (ss_batches s))"

definition update_batch ::
  "settlement_store \<Rightarrow> uuid \<Rightarrow> (batch \<Rightarrow> (batch, settlement_error) result)
   \<Rightarrow> settlement_store \<times> (batch, settlement_error) result" where
  "update_batch s i f =
     (case hm_get (ss_batches s) i of
        None \<Rightarrow> (s, Err (BatchNotFound i))
      | Some existing \<Rightarrow>
          (case f existing of
             Ok staged \<Rightarrow> (s\<lparr>ss_batches := hm_insert i staged (ss_batches s)\<rparr>, Ok staged)
           | Err e \<Rightarrow> (s, Err e)
           | Panic \<Rightarrow> (s, Panic)))"

section \<open>Engine\<close>

record settlement_engine =
  se_currency :: currency
  se_rail :: payout_rail
  se_cutoff :: cutoff
  se_holdback_policy :: holdback_policy

definition open_batch ::
  "settlement_engine \<Rightarrow> settlement_store \<Rightarrow> uuid \<Rightarrow> nat \<Rightarrow> settlement_store \<times> (uuid, settlement_error) result" where
  "open_batch eng s uid now =
     (let b = open_at uid (se_currency eng) (se_rail eng) now;
          (s', r) = create_batch s b
      in (s', rbind r (\<lambda>_. Ok (bt_id b))))"

definition engine_add_entry ::
  "settlement_store \<Rightarrow> uuid \<Rightarrow> uuid \<Rightarrow> money \<Rightarrow> string option \<Rightarrow> settlement_store \<times> (money, settlement_error) result" where
  "engine_add_entry s i tx amt refr =
     (let (s', r) = update_batch s i (\<lambda>b. add_entry b tx amt refr) in (s', rbind r gross))"

definition close_batch ::
  "settlement_engine \<Rightarrow> settlement_store \<Rightarrow> uuid \<Rightarrow> nat \<Rightarrow> nat \<Rightarrow> settlement_store \<times> (batch, settlement_error) result" where
  "close_batch eng s i adj now =
     update_batch s i (\<lambda>b. rbind (gross b) (\<lambda>g. rbind (compute (se_holdback_policy eng) g adj) (\<lambda>h. close b h now)))"

abbreviation engine_batches :: "settlement_engine \<Rightarrow> settlement_store \<Rightarrow> batch list" where
  "engine_batches eng s \<equiv> filter (\<lambda>b. bt_currency b = se_currency eng \<and> bt_rail b = se_rail eng) (list_open s)"

text \<open>
  The call \<^verbatim>\<open>tick\<close> takes the lock of the store twice: \<^verbatim>\<open>list_open\<close> reads the open batches under the first lock, \<^verbatim>\<open>close_batch\<close> changes
  the store under the second, and other calls may come between the two.
\<close>

definition tick_pick :: "settlement_engine \<Rightarrow> settlement_store \<Rightarrow> nat \<Rightarrow> nat \<Rightarrow> (uuid option, settlement_error) result" where
  "tick_pick eng s prev now =
     (case should_close (se_cutoff eng) prev now of
        Ok False \<Rightarrow> Ok None
      | Ok True \<Rightarrow>
          (case engine_batches eng s of
             [] \<Rightarrow> Ok None
           | [b] \<Rightarrow> Ok (Some (bt_id b))
           | bs \<Rightarrow> Err (SettlementInvalid
                 (show_nat (length bs) @ '' open batches for '' @ code (se_currency eng) @ ''/'' @ rail_debug (se_rail eng)
                  @ ''; operator must disambiguate'')))
      | Err e \<Rightarrow> Err e
      | Panic \<Rightarrow> Panic)"

definition tick_close ::
  "settlement_engine \<Rightarrow> settlement_store \<Rightarrow> nat \<Rightarrow> (uuid option, settlement_error) result \<Rightarrow> settlement_store \<times> (uuid option, settlement_error) result" where
  "tick_close eng s now picked =
     (case picked of
        Ok (Some i) \<Rightarrow> (let (s', r) = close_batch eng s i 0 now in (s', rbind r (\<lambda>_. Ok (Some i))))
      | _ \<Rightarrow> (s, picked))"

text \<open>A tick that nothing interrupts.\<close>

definition tick ::
  "settlement_engine \<Rightarrow> settlement_store \<Rightarrow> nat \<Rightarrow> nat \<Rightarrow> settlement_store \<times> (uuid option, settlement_error) result" where
  "tick eng s prev now = tick_close eng s now (tick_pick eng s prev now)"

definition submit_for_payout ::
  "settlement_store \<Rightarrow> uuid \<Rightarrow> string \<Rightarrow> nat \<Rightarrow> settlement_store \<times> (batch, settlement_error) result" where
  "submit_for_payout s i rail_ref now = update_batch s i (\<lambda>b. pay b rail_ref now)"

definition mark_settled :: "settlement_store \<Rightarrow> uuid \<Rightarrow> nat \<Rightarrow> settlement_store \<times> (batch, settlement_error) result" where
  "mark_settled s i now = update_batch s i (\<lambda>b. settled b now)"

definition mark_failed ::
  "settlement_store \<Rightarrow> uuid \<Rightarrow> string \<Rightarrow> string \<Rightarrow> nat \<Rightarrow> settlement_store \<times> (batch, settlement_error) result" where
  "mark_failed s i cd msg now = update_batch s i (\<lambda>b. fail b cd msg now)"

text \<open>The loop of \<^verbatim>\<open>total_reserve_held\<close>.\<close>

fun add_reserves :: "currency \<Rightarrow> money \<Rightarrow> batch list \<Rightarrow> (money, settlement_error) result" where
  "add_reserves cur tot [] = Ok tot"
| "add_reserves cur tot (b # bs) =
     (case (bt_status b, bt_holdback b) of
        (Open, _) \<Rightarrow> add_reserves cur tot bs
      | (Failed _ _ _, _) \<Rightarrow> add_reserves cur tot bs
      | (_, Some h) \<Rightarrow>
          if currency (hb_reserve h) = cur
          then rbind (map_err SettlementCore (checked_add tot (hb_reserve h))) (\<lambda>t. add_reserves cur t bs)
          else add_reserves cur tot bs
      | (_, None) \<Rightarrow> add_reserves cur tot bs)"

definition total_reserve_held :: "settlement_store \<Rightarrow> currency \<Rightarrow> (money, settlement_error) result" where
  "total_reserve_held s cur = add_reserves cur (from_minor 0 cur) (list_open s)"

section \<open>The store implements the shared contract\<close>

interpretation batches: ext_store_update ss_batches ss_by_external_id create_batch bt_id bt_external_id
  batch_bodies_equivalent BatchIdempotencyMismatch "\<lambda>_ _. True" "\<lambda>_ _. True" update_batch BatchNotFound
  by unfold_locales (auto simp: create_batch_def update_batch_def split: option.splits result.splits)

text \<open>
  What a closure passed to the store's \<^verbatim>\<open>update\<close> can do with a batch through its methods: any sequence of them, the holdback of a close computed by a
  policy from the gross of the batch, and any change of the metadata.  (The fields are public, so a closure could also write them directly.)
\<close>

inductive batch_call :: "batch \<Rightarrow> batch \<Rightarrow> bool" where
  call_add: "add_entry b tx amt refr = Ok b' \<Longrightarrow> batch_call b b'"
| call_close: "gross b = Ok g \<Longrightarrow> compute p g adj = Ok h \<Longrightarrow> close b h now = Ok b' \<Longrightarrow> batch_call b b'"
| call_pay: "pay b rail_ref now = Ok b' \<Longrightarrow> batch_call b b'"
| call_settled: "settled b now = Ok b' \<Longrightarrow> batch_call b b'"
| call_fail: "fail b cd msg now = Ok b' \<Longrightarrow> batch_call b b'"
| call_metadata: "batch_call b (b\<lparr>bt_metadata := md\<rparr>)"

text \<open>
  The calls that change a store, each the section under one lock; a batch is created open, under a fresh id.  The second section of a tick runs on
  whatever any first section has picked, so the relation has every interleaving of ticks with other calls.
\<close>

inductive settlement_step :: "settlement_store \<Rightarrow> settlement_store \<Rightarrow> bool" where
  st_create: "hm_get (ss_batches s) (bt_id b) = None \<Longrightarrow> bt_status b = Open \<Longrightarrow> batch_inv b \<Longrightarrow> settlement_step s (fst (create_batch s b))"
| st_open: "hm_get (ss_batches s) uid = None \<Longrightarrow> settlement_step s (fst (open_batch eng s uid now))"
| st_add: "settlement_step s (fst (engine_add_entry s i tx amt refr))"
| st_tick: "settlement_step s (fst (tick_close eng s now picked))"
| st_close: "settlement_step s (fst (close_batch eng s i adj now))"
| st_submit: "settlement_step s (fst (submit_for_payout s i rail_ref now))"
| st_settled: "settlement_step s (fst (mark_settled s i now))"
| st_failed: "settlement_step s (fst (mark_failed s i cd msg now))"
| st_update: "(\<And>b b'. f b = Ok b' \<Longrightarrow> batch_call\<^sup>*\<^sup>* b b') \<Longrightarrow> settlement_step s (fst (update_batch s i f))"

abbreviation settlement_reach :: "settlement_store \<Rightarrow> bool" where
  "settlement_reach \<equiv> settlement_step\<^sup>*\<^sup>* settlement_store_new"

text \<open>A row is sound when, once closed, its holdback was computed on the exact gross of its entries.\<close>

definition row_ok :: "batch \<Rightarrow> bool" where
  "row_ok b \<longleftrightarrow> batch_inv b \<and>
     (\<forall>h. bt_holdback b = Some h \<longrightarrow> gross b = Ok (hb_gross h) \<and> (\<exists>p adj. compute p (hb_gross h) adj = Ok h))"

definition settlement_inv :: "settlement_store \<Rightarrow> bool" where
  "settlement_inv s \<longleftrightarrow> index_ok bt_id bt_external_id (ss_batches s) (ss_by_external_id s)
     \<and> (\<forall>i b. hm_get (ss_batches s) i = Some b \<longrightarrow> row_ok b)"

lemma row_ok_open: "bt_status b = Open \<Longrightarrow> batch_inv b \<Longrightarrow> row_ok b"
  by (auto simp: row_ok_def batch_inv_def)

lemma row_ok_add: "row_ok b \<Longrightarrow> add_entry b tx amt refr = Ok b' \<Longrightarrow> row_ok b'"
  by (auto simp: row_ok_def batch_inv_def add_entry_def split: batch_status.splits if_splits)

lemma compute_gross: "compute p g adj = Ok h \<Longrightarrow> hb_gross h = g"
  by (auto simp: compute_def Let_def)

lemma row_ok_close:
  assumes "row_ok b" and "gross b = Ok g" and "compute p g adj = Ok h" and "close b h now = Ok b'"
  shows "row_ok b'"
proof -
  have b': "bt_status b = Open" "b' = b\<lparr>bt_holdback := Some h, bt_status := Closed now\<rparr>"
    using assms(4) by (auto simp: close_def split: batch_status.splits)
  have "gross b' = Ok (hb_gross h)" using assms(2) compute_gross [OF assms(3)] b'(2) by (simp add: gross_def)
  moreover have "\<exists>p adj. compute p (hb_gross h) adj = Ok h" using assms(3) compute_gross [OF assms(3)] by blast
  ultimately show ?thesis using assms(1) b' by (simp add: row_ok_def batch_inv_def)
qed

lemma row_ok_later:
  assumes "row_ok b" and "pay b r now = Ok b' \<or> settled b now = Ok b' \<or> fail b c m now = Ok b'"
  shows "row_ok b'"
  using assms
  by (auto simp: row_ok_def batch_inv_def pay_def settled_def fail_def gross_def split: batch_status.splits)

lemma batch_call_row_ok: "batch_call b b' \<Longrightarrow> row_ok b \<Longrightarrow> row_ok b' \<and> bt_id b' = bt_id b \<and> bt_external_id b' = bt_external_id b"
proof (induction rule: batch_call.induct)
  case (call_metadata b md)
  then show ?case by (auto simp: row_ok_def batch_inv_def gross_def)
qed (auto dest: row_ok_add row_ok_close row_ok_later batch_step.intros [THEN batch_step_shape])

lemma batch_calls_row_ok: "batch_call\<^sup>*\<^sup>* b b' \<Longrightarrow> row_ok b \<Longrightarrow> row_ok b' \<and> bt_id b' = bt_id b \<and> bt_external_id b' = bt_external_id b"
  by (induction rule: rtranclp_induct) (auto dest: batch_call_row_ok)

lemma update_inv:
  assumes "settlement_inv s" and "\<And>b b'. f b = Ok b' \<Longrightarrow> batch_call\<^sup>*\<^sup>* b b'"
  shows "settlement_inv (fst (update_batch s i f))"
proof (cases "\<exists>b b'. hm_get (ss_batches s) i = Some b \<and> f b = Ok b'")
  case True
  then obtain b b' where b: "hm_get (ss_batches s) i = Some b" "f b = Ok b'" by blast
  have "row_ok b" using assms(1) b(1) by (auto simp: settlement_inv_def)
  note b' = batch_calls_row_ok [OF assms(2) [OF b(2)] this]
  have ok: "batches.ok s" using assms(1) by (simp add: settlement_inv_def)
  have "index_ok bt_id bt_external_id (hm_insert i b' (ss_batches s)) (ss_by_external_id s)"
    by (rule index_ok_replace [OF ok b(1)]) (use b' index_okD(3) [OF ok b(1)] in auto)
  with b' assms(1) b show ?thesis by (auto simp: settlement_inv_def update_batch_def)
next
  case False
  then have "fst (update_batch s i f) = s" by (auto simp: update_batch_def split: option.splits result.splits)
  with assms(1) show ?thesis by simp
qed

lemma create_inv:
  assumes "settlement_inv s" and "hm_get (ss_batches s) (bt_id b) = None" and "bt_status b = Open" and "batch_inv b"
  shows "settlement_inv (fst (create_batch s b))"
  unfolding settlement_inv_def
proof (intro conjI allI impI)
  have ok: "batches.ok s" using assms(1) by (simp add: settlement_inv_def)
  show "batches.ok (fst (create_batch s b))" by (rule batches.create_ok [OF ok assms(2)])
  show "row_ok q" if "hm_get (ss_batches (fst (create_batch s b))) j = Some q" for j q
    using batches.create_all [where R = row_ok, OF ok _ row_ok_open [OF assms(3,4)] that] assms(1)
    by (auto simp: settlement_inv_def)
qed

lemma close_batch_inv: "settlement_inv s \<Longrightarrow> settlement_inv (fst (close_batch eng s i adj now))"
  unfolding close_batch_def by (rule update_inv) (auto intro: call_close)

lemma tick_close_eq: "fst (tick_close eng s now picked) = s \<or> (\<exists>i. fst (tick_close eng s now picked) = fst (close_batch eng s i 0 now))"
  by (auto simp: tick_close_def split: result.splits option.splits prod.splits) (metis fst_conv)

lemma tick_cases:
  obtains "fst (tick eng s prev now) = s" "\<And>i. snd (tick eng s prev now) \<noteq> Ok (Some i)"
  | b where "should_close (se_cutoff eng) prev now = Ok True" "engine_batches eng s = [b]"
      "fst (tick eng s prev now) = fst (close_batch eng s (bt_id b) 0 now)"
      "snd (tick eng s prev now) = rbind (snd (close_batch eng s (bt_id b) 0 now)) (\<lambda>_. Ok (Some (bt_id b)))"
proof (cases "should_close (se_cutoff eng) prev now = Ok True \<and> (\<exists>b. engine_batches eng s = [b])")
  case True
  then obtain b where "should_close (se_cutoff eng) prev now = Ok True" "engine_batches eng s = [b]" by blast
  then show ?thesis by (intro that(2) [of b]) (auto simp: tick_def tick_pick_def tick_close_def split: prod.splits)
next
  case False
  then show ?thesis
    by (intro that(1)) (auto simp: tick_def tick_pick_def tick_close_def split: result.splits bool.splits list.splits)
qed

lemma settlement_step_inv: "settlement_step s s' \<Longrightarrow> settlement_inv s \<Longrightarrow> settlement_inv s'"
proof (induction rule: settlement_step.induct)
  case (st_open s uid eng now)
  then show ?case
    using create_inv [of s "open_at uid (se_currency eng) (se_rail eng) now"]
    by (auto simp: open_batch_def Let_def open_at_def batch_inv_def split: prod.splits)
next
  case (st_add s i tx amt refr)
  have "settlement_inv (fst (update_batch s i (\<lambda>b. add_entry b tx amt refr)))"
    by (rule update_inv [OF st_add]) (auto intro: call_add)
  then show ?case by (auto simp: engine_add_entry_def split: prod.splits)
next
  case (st_tick s eng now picked)
  then show ?case using tick_close_eq [of eng s now picked] close_batch_inv by auto
next
  case (st_submit s i rail_ref now)
  then show ?case unfolding submit_for_payout_def by (rule update_inv) (auto intro: call_pay)
next
  case (st_settled s i now)
  then show ?case unfolding mark_settled_def by (rule update_inv) (auto intro: call_settled)
next
  case (st_failed s i cd msg now)
  then show ?case unfolding mark_failed_def by (rule update_inv) (auto intro: call_fail)
next
  case (st_update f s i)
  then show ?case by (intro update_inv)
qed (auto intro: create_inv close_batch_inv)

lemma settlement_reach_inv: "settlement_reach s \<Longrightarrow> settlement_inv s"
proof (induction rule: rtranclp_induct)
  case base
  show ?case by (simp add: settlement_inv_def settlement_store_new_def index_ok_empty)
qed (rule settlement_step_inv)

section \<open>Properties\<close>

lemma compute_reserve_bounds:
  "compute p g adj = Ok h \<Longrightarrow>
   0 \<le> minor_units (hb_reserve h) \<and> minor_units (hb_reserve h) \<le> \<bar>minor_units g\<bar> \<and> currency (hb_reserve h) = currency g"
  by (auto simp: compute_def Let_def from_minor_def)

text \<open>
  C7.  Payouts rest on the books.  In every reachable store (closures passed to \<^verbatim>\<open>update\<close> included, as far as they work through the methods of the
  batch), a batch that is no longer open carries a holdback whose gross is exactly the sum of its entries in the batch currency, and whose reserve
  is non-negative and at most that gross in absolute value (entries may be negative, and so the gross), in the same currency; an open batch
  carries no holdback.
\<close>

theorem settlement_payout_sound:
  assumes "settlement_reach s" and "hm_get (ss_batches s) i = Some b"
  shows "case bt_holdback b of
      None \<Rightarrow> bt_status b = Open
    | Some h \<Rightarrow> bt_status b \<noteq> Open \<and> hb_gross h = from_minor (entries_sum (bt_entries b)) (bt_currency b)
        \<and> 0 \<le> minor_units (hb_reserve h) \<and> minor_units (hb_reserve h) \<le> \<bar>entries_sum (bt_entries b)\<bar>
        \<and> currency (hb_reserve h) = bt_currency b"
proof (cases "bt_holdback b")
  case None
  have "row_ok b" using settlement_reach_inv [OF assms(1)] assms(2) by (auto simp: settlement_inv_def)
  with None show ?thesis by (simp add: row_ok_def batch_inv_def)
next
  case (Some h)
  with settlement_reach_inv [OF assms(1)] assms(2) obtain p adj where
    h: "batch_inv b" "gross b = Ok (hb_gross h)" "compute p (hb_gross h) adj = Ok h"
    unfolding settlement_inv_def row_ok_def by blast
  from gross_Ok [OF h(2)] compute_reserve_bounds [OF h(3)] h(1) Some show ?thesis
    by (simp add: batch_inv_def from_minor_def)
qed

lemma close_eq_Ok:
  "close b h now = Ok b' \<longleftrightarrow> bt_status b = Open \<and> b' = b\<lparr>bt_holdback := Some h, bt_status := Closed now\<rparr>"
  by (cases "bt_status b") (auto simp: close_def)

lemma close_batch_OkD:
  assumes "close_batch eng s i adj now = (s', Ok b')"
  obtains b g h where "hm_get (ss_batches s) i = Some b" "bt_status b = Open" "gross b = Ok g"
    "compute (se_holdback_policy eng) g adj = Ok h" "b' = b\<lparr>bt_holdback := Some h, bt_status := Closed now\<rparr>"
    "ss_batches s' = hm_insert i b' (ss_batches s)"
  using assms unfolding close_batch_def
  by (elim batches.update_OkE) (auto simp: close_eq_Ok)

lemma close_batch_atomic:
  assumes "close_batch eng s i adj now = (s', r)" and "\<And>b. r \<noteq> Ok b"
  shows "s' = s"
proof -
  have "snd (close_batch eng s i adj now) \<noteq> Ok b" for b using assms by simp
  then have "fst (close_batch eng s i adj now) = s" unfolding close_batch_def by (rule batches.update_atomic)
  with assms(1) show ?thesis by simp
qed

lemma mem_list_open:
  assumes "settlement_inv s"
  shows "b \<in> set (list_open s) \<longleftrightarrow> bt_status b = Open \<and> hm_get (ss_batches s) (bt_id b) = Some b"
proof -
  have ok: "batches.ok s" using assms by (simp add: settlement_inv_def)
  have "b \<in> ran (hm_get (ss_batches s)) \<longleftrightarrow> hm_get (ss_batches s) (bt_id b) = Some b"
    using index_okD(3) [OF ok] by (auto simp: ran_def)
  then show ?thesis using hm.vals_ran [OF index_okD(1) [OF ok]] by (auto simp: list_open_def)
qed

text \<open>
  C20.  A tick closes the one open batch or changes nothing.  When it reports a closed batch, the
  cutoff had fired, that batch was the only open one of the engine's currency and rail, it is now
  closed at the tick's time with a holdback on its unchanged entries, every other batch is as
  before, and no open batch of the pair remains.  On any other outcome the store is unchanged.
\<close>

theorem tick_closes_one:
  assumes "settlement_reach s" and "tick eng s prev now = (s', r)"
  shows "case r of
      Ok (Some i) \<Rightarrow> should_close (se_cutoff eng) prev now = Ok True \<and> engine_batches eng s' = []
        \<and> (\<exists>b h. engine_batches eng s = [b] \<and> bt_id b = i
             \<and> hm_get (ss_batches s') i = Some (b\<lparr>bt_holdback := Some h, bt_status := Closed now\<rparr>))
        \<and> (\<forall>j. j \<noteq> i \<longrightarrow> hm_get (ss_batches s') j = hm_get (ss_batches s) j)
    | _ \<Rightarrow> s' = s"
proof (cases rule: tick_cases [of eng s prev now])
  case 1
  with assms(2) show ?thesis by (auto split: result.splits option.splits)
next
  case (2 b)
  note inv = settlement_reach_inv [OF assms(1)]
  have inv': "settlement_inv s'" using settlement_step_inv [OF st_tick inv] assms(2) unfolding tick_def by (metis fst_conv)
  obtain r' where c: "close_batch eng s (bt_id b) 0 now = (s', r')" using 2 assms(2) by (metis fst_conv prod.collapse)
  show ?thesis
  proof (cases r')
    case (Ok b')
    from c Ok obtain b0 h where b0: "hm_get (ss_batches s) (bt_id b) = Some b0"
      "b' = b0\<lparr>bt_holdback := Some h, bt_status := Closed now\<rparr>" "ss_batches s' = hm_insert (bt_id b) b' (ss_batches s)"
      by (auto elim: close_batch_OkD)
    have "b \<in> set (engine_batches eng s)" unfolding 2(2) by simp
    then have "b \<in> set (list_open s)" by simp
    then have "b0 = b" using b0(1) mem_list_open [OF inv] by simp
    have other: "x = b" if "x \<in> set (engine_batches eng s)" for x using that 2(2) by simp
    have "x \<notin> set (engine_batches eng s')" for x
    proof
      assume x: "x \<in> set (engine_batches eng s')"
      then have x': "bt_status x = Open" "hm_get (ss_batches s') (bt_id x) = Some x"
        using mem_list_open [OF inv'] by auto
      show False
      proof (cases "bt_id x = bt_id b")
        case True
        with x' b0 show False by auto
      next
        case False
        with x x' b0(3) have "x \<in> set (engine_batches eng s)" by (auto simp: mem_list_open [OF inv])
        with other False show False by blast
      qed
    qed
    then have none: "engine_batches eng s' = []" by (meson last_in_set)
    have "hm_get (ss_batches s') (bt_id b) = Some (b\<lparr>bt_holdback := Some h, bt_status := Closed now\<rparr>)"
      using b0(2,3) \<open>b0 = b\<close> by simp
    with 2(2) have ex: "\<exists>c h. engine_batches eng s = [c] \<and> bt_id c = bt_id b
        \<and> hm_get (ss_batches s') (bt_id b) = Some (c\<lparr>bt_holdback := Some h, bt_status := Closed now\<rparr>)" by blast
    have "\<forall>j. j \<noteq> bt_id b \<longrightarrow> hm_get (ss_batches s') j = hm_get (ss_batches s) j" using b0(3) by simp
    moreover have r: "r = Ok (Some (bt_id b))" using 2(4) c Ok assms(2) by simp
    ultimately show ?thesis unfolding r result.case option.case using none 2(1) ex by (intro conjI)
  next
    case (Err e)
    with c have "s' = s" by (auto dest: close_batch_atomic)
    with 2(4) c Err assms(2) show ?thesis by simp
  next
    case Panic
    with c have "s' = s" by (auto dest: close_batch_atomic)
    with 2(4) c Panic assms(2) show ?thesis by simp
  qed
qed

text \<open>
  When other calls come between the two sections of a tick, the batch picked may have been closed meanwhile: the second section closes it, with the
  entries it has by then, exactly when it is still open, and otherwise fails and changes nothing.
\<close>

lemma interrupted_tick:
  assumes "tick_close eng s now (Ok (Some i)) = (s', r)"
  shows "(case r of
      Ok p \<Rightarrow> p = Some i \<and> (\<exists>b h. hm_get (ss_batches s) i = Some b \<and> bt_status b = Open
        \<and> hm_get (ss_batches s') i = Some (b\<lparr>bt_holdback := Some h, bt_status := Closed now\<rparr>))
        \<and> (\<forall>j. j \<noteq> i \<longrightarrow> hm_get (ss_batches s') j = hm_get (ss_batches s) j)
    | _ \<Rightarrow> s' = s)"
proof -
  obtain r' where c: "close_batch eng s i 0 now = (s', r')" "r = rbind r' (\<lambda>_. Ok (Some i))"
    using assms by (auto simp: tick_close_def split: prod.splits)
  show ?thesis
  proof (cases r')
    case (Ok b')
    from close_batch_OkD [OF c(1) [unfolded Ok]] obtain b h where b: "hm_get (ss_batches s) i = Some b" "bt_status b = Open"
      "ss_batches s' = hm_insert i (b\<lparr>bt_holdback := Some h, bt_status := Closed now\<rparr>) (ss_batches s)" by metis
    then show ?thesis using Ok c(2) by auto
  qed (use c close_batch_atomic [OF c(1)] in auto)
qed

text \<open>
  The reserve total is always zero.  \<^verbatim>\<open>total_reserve_held\<close> walks the open batches and adds the
  reserves of the closed, paying and paid ones among them; there are none, so whatever reserves
  the closed batches of the store hold, the result is zero.
\<close>

theorem total_reserve_held_always_zero: "total_reserve_held s cur = Ok (from_minor 0 cur)"
proof -
  have "add_reserves cur t bs = Ok t" if "\<forall>b\<in>set bs. bt_status b = Open" for t bs
    using that by (induction bs) auto
  then show ?thesis by (simp add: total_reserve_held_def list_open_def)
qed

text \<open>
  Replaying the creation of a batch after an entry was added is refused.  In a reachable store,
  create a batch under an external id and add an entry to it: repeating the very same creation
  returns \<open>IdempotencyMismatch\<close> and changes nothing.
\<close>

theorem batch_replay_after_add:
  assumes "settlement_reach s" and "hm_get (ss_batches s) (bt_id b) = None" and "bt_external_id b = Some e"
    and "hm_get (ss_by_external_id s) e = None"
    and "create_batch s b = (s1, Ok i)" and "engine_add_entry s1 i tx amt refr = (s2, Ok g)"
  shows "create_batch s2 b = (s2, Err (BatchIdempotencyMismatch e))"
proof -
  have s1: "i = bt_id b" "hm_get (ss_batches s1) i = Some b" "hm_get (ss_by_external_id s1) e = Some i"
    using assms(3-5) by (auto simp: create_batch_def)
  obtain b' where u: "update_batch s1 i (\<lambda>b. add_entry b tx amt refr) = (s2, Ok b')"
    using assms(6) by (auto simp: engine_add_entry_def split: prod.splits)
  have a: "add_entry b tx amt refr = Ok b'" "ss_batches s2 = hm_insert i b' (ss_batches s1)"
    "ss_by_external_id s2 = ss_by_external_id s1"
    using s1(2) by (auto intro: batches.update_OkE [OF u])
  then have "bt_entries b' \<noteq> bt_entries b" by (auto simp: add_entry_def split: batch_status.splits if_splits)
  then have "\<not> batch_bodies_equivalent b' b" by (simp add: batch_bodies_equivalent_def)
  with batches.create_hit [OF _ assms(3), of s2 i b'] a s1 show ?thesis by simp
qed

section \<open>Concrete runs\<close>

abbreviation sample_batch :: "uuid \<Rightarrow> string option \<Rightarrow> batch" where
  "sample_batch i e \<equiv> \<lparr>bt_id = i, bt_currency = USD, bt_rail = FedNow, bt_external_id = e, bt_status = Open,
     bt_entries = [\<lparr>be_tx_id = 9, be_amount = from_minor 10000 USD, be_reference = None\<rparr>],
     bt_holdback = None, bt_opened_at = 100, bt_metadata = []\<rparr>"

abbreviation "sample_engine \<equiv>
  \<lparr>se_currency = USD, se_rail = FedNow, se_cutoff = Daily 7, se_holdback_policy = policy_flat 500\<rparr>"

abbreviation sample_batches :: "batch \<Rightarrow> settlement_store" where
  "sample_batches b \<equiv> \<lparr>ss_batches = [(bt_id b, b)], ss_by_external_id = []\<rparr>"

abbreviation "sample_holdback \<equiv>
  \<lparr>hb_gross = from_minor 10000 USD, hb_reserve = from_minor 500 USD, hb_flat_rate_bps = 500, hb_dispute_adjustment_bps = 0\<rparr>"

lemma sample_batch_reach: "settlement_reach (sample_batches (sample_batch 4 None))"
proof -
  have 1: "fst (create_batch settlement_store_new (sample_batch 4 None)) = sample_batches (sample_batch 4 None)"
    by (simp add: create_batch_def settlement_store_new_def hm_insert_def)
  have 2: "hm_get (ss_batches settlement_store_new) (bt_id (sample_batch 4 None)) = None" by (simp add: settlement_store_new_def)
  have 3: "batch_inv (sample_batch 4 None)" by (simp add: batch_inv_def from_minor_def)
  have "bt_status (sample_batch 4 None) = Open" by simp
  from st_create [OF 2 this 3] show ?thesis unfolding 1 by (rule r_into_rtranclp)
qed

lemma sample_close:
  "close_batch sample_engine (sample_batches (sample_batch 4 None)) 4 0 30000 =
     (sample_batches ((sample_batch 4 None)\<lparr>bt_holdback := Some sample_holdback, bt_status := Closed 30000\<rparr>),
      Ok ((sample_batch 4 None)\<lparr>bt_holdback := Some sample_holdback, bt_status := Closed 30000\<rparr>))"
  by (simp add: close_batch_def update_batch_def gross_def compute_def Let_def effective_bps_def policy_flat_def u32_saturating_add_def
      checked_add_def i64_checked_add_def i64_of_def i64_val_def in_i64_def from_minor_def close_def hm_get_def hm_insert_def signed_divide_int_def)

theorem settlement_payout_sound_witness:
  "0 \<le> minor_units (hb_reserve sample_holdback)
   \<and> minor_units (hb_reserve sample_holdback) \<le> \<bar>entries_sum (bt_entries (sample_batch 4 None))\<bar>"
proof -
  let ?b = "(sample_batch 4 None)\<lparr>bt_holdback := Some sample_holdback, bt_status := Closed 30000\<rparr>"
  have 1: "fst (close_batch sample_engine (sample_batches (sample_batch 4 None)) 4 0 30000) = sample_batches ?b"
    unfolding sample_close by simp
  have "settlement_step (sample_batches (sample_batch 4 None)) (sample_batches ?b)" using st_close unfolding 1 [symmetric] .
  then have 2: "settlement_reach (sample_batches ?b)"
    by (rule rtranclp.rtrancl_into_rtrancl [where r = settlement_step, OF sample_batch_reach])
  have 3: "hm_get (ss_batches (sample_batches ?b)) 4 = Some ?b" by (simp add: hm_get_def)
  from settlement_payout_sound [OF 2 3] show ?thesis by simp
qed

theorem tick_closes_one_witness:
  "engine_batches sample_engine (fst (tick sample_engine (sample_batches (sample_batch 4 None)) 100 30000)) = []"
proof -
  let ?s = "sample_batches (sample_batch 4 None)"
  have "should_close (Daily 7) 100 30000 = Ok True" by (simp add: should_close_def hour_crossed_def Let_def u64_val_def)
  moreover have "engine_batches sample_engine ?s = [sample_batch 4 None]" by (simp add: list_open_def hm_values_def)
  ultimately have 1: "snd (tick sample_engine ?s 100 30000) = Ok (Some 4)"
    using sample_close by (simp add: tick_def tick_pick_def tick_close_def)
  have "tick sample_engine ?s 100 30000 = (fst (tick sample_engine ?s 100 30000), Ok (Some 4))"
    using 1 by (metis prod.collapse)
  from tick_closes_one [OF sample_batch_reach this] show ?thesis by simp
qed

theorem batch_replay_after_add_witness:
  "snd (create_batch (fst (engine_add_entry (fst (create_batch settlement_store_new (sample_batch 4 (Some ''b1'')))) 4 10 (from_minor 5 USD) None))
     (sample_batch 4 (Some ''b1''))) = Err (BatchIdempotencyMismatch ''b1'')"
proof -
  let ?b = "sample_batch 4 (Some ''b1'')"
  let ?s1 = "fst (create_batch settlement_store_new ?b)"
  let ?s2 = "fst (engine_add_entry ?s1 4 10 (from_minor 5 USD) None)"
  have 1: "hm_get (ss_batches settlement_store_new) (bt_id ?b) = None" "hm_get (ss_by_external_id settlement_store_new) ''b1'' = None"
    by (simp_all add: settlement_store_new_def)
  have "snd (create_batch settlement_store_new ?b) = Ok 4" by (simp add: create_batch_def settlement_store_new_def)
  then have 2: "create_batch settlement_store_new ?b = (?s1, Ok 4)" by (metis prod.collapse)
  have "snd (engine_add_entry ?s1 4 10 (from_minor 5 USD) None) = Ok (from_minor 10005 USD)"
    by (simp add: create_batch_def settlement_store_new_def engine_add_entry_def update_batch_def add_entry_def gross_def
        checked_add_def i64_checked_add_def i64_of_def in_i64_def from_minor_def)
  then have 3: "engine_add_entry ?s1 4 10 (from_minor 5 USD) None = (?s2, Ok (from_minor 10005 USD))" by (metis prod.collapse)
  have 4: "bt_external_id ?b = Some ''b1''" by simp
  from batch_replay_after_add [OF rtranclp.rtrancl_refl 1(1) 4 1(2) 2 3] show ?thesis by simp
qed

end
