(* ===== verification/Fx.thy ===== *)
theory Fx
  imports Money Hash_Map
begin

text \<open>
  \<^verbatim>\<open>op-fx\<close>: quotes (\<^verbatim>\<open>quote.rs\<close>), conversion with rounding (\<^verbatim>\<open>convert.rs\<close>), the static and the cached
  quote provider (\<^verbatim>\<open>provider.rs\<close>).

  The products are formed in \<^verbatim>\<open>i128\<close>, where they cannot overflow (\<open>i128_product_in_range\<close>), so
  they are \<open>int\<close> products; division and rem truncate towards zero.  \<open>rounds_to\<close> is
  the specification of the three rounding modes, independent of the algorithm.  The locale
  \<open>quote_source\<close> is the \<^verbatim>\<open>QuoteProvider\<close> contract; the cache is proved against any provider that
  keeps it and the static provider is shown to keep it.
\<close>

section \<open>Quotes\<close>

datatype fx_error =
    NoQuote string string
  | QuoteExpired string string nat nat
  | SameCurrency string
  | FxCurrencyMismatch string string
  | InvalidRate
  | FxOverflow
  | FxCore core_error

record quote =
  q_source_currency :: currency
  q_target_currency :: currency
  q_rate_ppm :: nat
  q_fetched_at :: nat
  q_valid_until :: nat
  q_source_name :: string

definition new_quote :: "currency \<Rightarrow> currency \<Rightarrow> nat \<Rightarrow> nat \<Rightarrow> nat \<Rightarrow> string \<Rightarrow> quote" where
  "new_quote src tgt rate fetched until nm =
     \<lparr>q_source_currency = src, q_target_currency = tgt, q_rate_ppm = rate, q_fetched_at = fetched,
      q_valid_until = until, q_source_name = nm\<rparr>"

definition is_valid_at :: "quote \<Rightarrow> nat \<Rightarrow> bool" where
  "is_valid_at q now \<longleftrightarrow> now \<le> q_valid_until q"

definition inverse_quote :: "quote \<Rightarrow> quote option" where
  "inverse_quote q =
     (if q_rate_ppm q = 0 then None
      else let inv = (1000000 * 1000000) div q_rate_ppm q
        in Some \<lparr>q_source_currency = q_target_currency q, q_target_currency = q_source_currency q,
                 q_rate_ppm = (if inv \<le> u64_max then inv else u64_max),
                 q_fetched_at = q_fetched_at q, q_valid_until = q_valid_until q, q_source_name = q_source_name q\<rparr>)"

section \<open>Conversion\<close>

datatype rounding_mode = HalfEven | Down | Up

definition apply_rounding :: "int \<Rightarrow> int \<Rightarrow> int \<Rightarrow> rounding_mode \<Rightarrow> int" where
  "apply_rounding quot rem divisor mode =
     (if rem = 0 then quot
      else let sign = (if quot < 0 \<or> (quot = 0 \<and> rem < 0) then -1 else 1);
               abs_rem = \<bar>rem\<bar>;
               half = divisor sdiv 2
        in case mode of
             Down \<Rightarrow> quot
           | Up \<Rightarrow> quot + sign
           | HalfEven \<Rightarrow>
               if abs_rem < half then quot
               else if abs_rem > half then quot + sign
               else if quot smod 2 = 0 then quot else quot + sign)"

definition convert :: "money \<Rightarrow> quote \<Rightarrow> rounding_mode \<Rightarrow> nat \<Rightarrow> (money, fx_error) result" where
  "convert m q mode now =
     (if q_rate_ppm q = 0 then Err InvalidRate
      else if q_source_currency q = q_target_currency q then Err (SameCurrency (code (q_source_currency q)))
      else if currency m \<noteq> q_source_currency q
        then Err (FxCurrencyMismatch (code (currency m)) (code (q_source_currency q)))
      else if \<not> is_valid_at q now
        then Err (QuoteExpired (code (q_source_currency q)) (code (q_target_currency q)) (q_valid_until q) now)
      else let scaled = minor_units m * int (q_rate_ppm q);
               divisor = 1000000;
               quot = scaled sdiv divisor;
               rem = scaled smod divisor;
               adjusted = apply_rounding quot rem divisor mode
        in rbind (ok_or (i64_of adjusted) FxOverflow) (\<lambda>minor. Ok (from_minor minor (q_target_currency q))))"

section \<open>Providers\<close>

record static_provider =
  sp_rates :: "(string \<times> string, nat) hashmap"
  sp_validity_secs :: nat

definition static_provider_new :: static_provider where
  "static_provider_new = \<lparr>sp_rates = [], sp_validity_secs = 300\<rparr>"

definition with_validity_secs :: "static_provider \<Rightarrow> nat \<Rightarrow> static_provider" where
  "with_validity_secs p secs = p\<lparr>sp_validity_secs := secs\<rparr>"

definition with_rate :: "static_provider \<Rightarrow> currency \<Rightarrow> currency \<Rightarrow> nat \<Rightarrow> static_provider" where
  "with_rate p src tgt rate = p\<lparr>sp_rates := hm_insert (code src, code tgt) rate (sp_rates p)\<rparr>"

definition static_get_quote :: "static_provider \<Rightarrow> currency \<Rightarrow> currency \<Rightarrow> nat \<Rightarrow> (quote, fx_error) result" where
  "static_get_quote p src tgt now =
     rbind (ok_or (hm_get (sp_rates p) (code src, code tgt)) (NoQuote (code src) (code tgt))) (\<lambda>rate.
       Ok (new_quote src tgt rate now (u64_saturating_add now (sp_validity_secs p)) ''static''))"

record cached_entry =
  ce_quote :: quote
  ce_cached_at :: nat

type_synonym quote_cache = "(string \<times> string, cached_entry) hashmap"

text \<open>\<open>inner\<close> is the wrapped provider, \<open>ttl\<close> the time to live.\<close>

definition cached_get_quote ::
  "(currency \<Rightarrow> currency \<Rightarrow> nat \<Rightarrow> (quote, fx_error) result) \<Rightarrow> nat
   \<Rightarrow> quote_cache \<Rightarrow> currency \<Rightarrow> currency \<Rightarrow> nat \<Rightarrow> quote_cache \<times> (quote, fx_error) result" where
  "cached_get_quote inner ttl cache src tgt now =
     (let key = (code src, code tgt);
          fetch = (case inner src tgt now of
                     Ok q \<Rightarrow> (hm_insert key \<lparr>ce_quote = q, ce_cached_at = now\<rparr> cache, Ok q)
                   | Err e \<Rightarrow> (cache, Err e)
                   | Panic \<Rightarrow> (cache, Panic))
      in case hm_get cache key of
           Some entry \<Rightarrow>
             if u64_saturating_sub now (ce_cached_at entry) < ttl \<and> is_valid_at (ce_quote entry) now
             then (cache, Ok (ce_quote entry)) else fetch
         | None \<Rightarrow> fetch)"

section \<open>Rounding\<close>

text \<open>\<open>rounds_to mode x d r\<close>: \<open>r\<close> is \<open>x / d\<close> rounded in the given mode.\<close>

definition rounds_to :: "rounding_mode \<Rightarrow> int \<Rightarrow> int \<Rightarrow> int \<Rightarrow> bool" where
  "rounds_to mode x d r \<longleftrightarrow>
     (case mode of
        Down \<Rightarrow> \<bar>r\<bar> * d \<le> \<bar>x\<bar> \<and> \<bar>x\<bar> < (\<bar>r\<bar> + 1) * d \<and> 0 \<le> r * x
      | Up \<Rightarrow> (\<bar>r\<bar> - 1) * d < \<bar>x\<bar> \<and> \<bar>x\<bar> \<le> \<bar>r\<bar> * d \<and> 0 \<le> r * x
      | HalfEven \<Rightarrow> 2 * \<bar>r * d - x\<bar> \<le> d \<and> (2 * \<bar>r * d - x\<bar> = d \<longrightarrow> even r))"

lemma apply_rounding_neg:
  assumes "0 < d" and "\<bar>m\<bar> < d" and "0 \<le> q" and "0 \<le> m"
  shows "apply_rounding (- q) (- m) d mode = - apply_rounding q m d mode"
proof (cases "m = 0")
  case False
  with assms show ?thesis
    by (auto simp: apply_rounding_def Let_def smod_neg split: rounding_mode.splits)
qed (simp add: apply_rounding_def)

lemma rounds_to_neg: "rounds_to mode (- x) d (- r) \<longleftrightarrow> rounds_to mode x d r"
proof -
  have "\<bar>- (r * d) + x\<bar> = \<bar>r * d - x\<bar>" by arith
  then show ?thesis by (cases mode) (auto simp: rounds_to_def)
qed

lemma apply_rounding_nonneg:
  assumes "0 \<le> x" and "0 < d" and "even d"
  shows "rounds_to mode x d (apply_rounding (x div d) (x mod d) d mode)"
proof -
  define q m where "q = x div d" and "m = x mod d"
  have x: "x = q * d + m" "0 \<le> m" "m < d" "0 \<le> q"
    using assms by (simp_all add: q_def m_def pos_imp_zdiv_nonneg_iff)
  obtain h where h: "d = 2 * h" "0 < h" using assms by (auto elim: evenE)
  have "d sdiv 2 = h" using h by (simp add: sdiv_nonneg_eq_div)
  then have half: "m < d sdiv 2 \<longleftrightarrow> 2 * m < d" "d sdiv 2 < m \<longleftrightarrow> d < 2 * m" using h by auto
  have par: "q smod 2 = 0 \<longleftrightarrow> even q" using x(4) by (simp add: smod_nonneg_eq_mod even_iff_mod_2_eq_zero)
  have "rounds_to mode x d (apply_rounding q m d mode)"
  proof (cases mode)
    case HalfEven
    have dist: "\<bar>q * d - x\<bar> = m" "\<bar>(q + 1) * d - x\<bar> = d - m" using x by (simp_all add: algebra_simps)
    show ?thesis
      using x(2-4) by (auto simp: HalfEven rounds_to_def apply_rounding_def Let_def half par dist)
  next
    case Down
    then show ?thesis using x assms by (auto simp: rounds_to_def apply_rounding_def algebra_simps)
  next
    case Up
    have "0 \<le> (q + 1) * x" using x(4) assms(1) by (intro mult_nonneg_nonneg) auto
    moreover have "0 \<le> q * x" using x(4) assms(1) by simp
    ultimately show ?thesis using x assms Up
      by (auto simp: rounds_to_def apply_rounding_def Let_def algebra_simps)
  qed
  then show ?thesis by (simp add: q_def m_def)
qed

lemma apply_rounding_rounds:
  assumes "0 < d" and "even d"
  shows "rounds_to mode x d (apply_rounding (x sdiv d) (x smod d) d mode)"
proof (cases "0 \<le> x")
  case True
  with assms show ?thesis by (simp add: sdiv_nonneg_eq_div smod_nonneg_eq_mod apply_rounding_nonneg)
next
  case False
  define y where "y = - x"
  have y: "0 \<le> y" "x = - y" using False by (simp_all add: y_def)
  have "0 \<le> y div d" "0 \<le> y mod d" "\<bar>y mod d\<bar> < d" using y(1) assms(1) by (simp_all add: pos_imp_zdiv_nonneg_iff)
  with y assms show ?thesis
    by (simp add: sdiv_neg smod_neg sdiv_nonneg_eq_div smod_nonneg_eq_mod apply_rounding_neg rounds_to_neg
        apply_rounding_nonneg)
qed

lemma near_multiples:
  assumes "0 < d" and "r * d - s * d < d" and "s * d - r * d < d"
  shows "r = (s :: int)"
proof -
  have "\<bar>r * d - s * d\<bar> < d" using assms by (simp add: abs_if)
  then have "\<bar>r - s\<bar> * d < 1 * d" using assms by (simp add: abs_mult left_diff_distrib [symmetric])
  then show ?thesis using assms(1) by (simp only: mult_less_cancel_right) auto
qed

lemma rounds_to_unique:
  assumes "0 < d" and "rounds_to mode x d r" and "rounds_to mode x d s"
  shows "r = s"
proof (cases mode)
  case HalfEven
  then have b: "2 * \<bar>r * d - x\<bar> \<le> d" "2 * \<bar>s * d - x\<bar> \<le> d"
    "2 * \<bar>r * d - x\<bar> = d \<Longrightarrow> even r" "2 * \<bar>s * d - x\<bar> = d \<Longrightarrow> even s"
    using assms by (auto simp: rounds_to_def)
  show ?thesis
  proof (cases "\<bar>r * d - s * d\<bar> < d")
    case False
    have "\<bar>r * d - s * d\<bar> \<le> \<bar>r * d - x\<bar> + \<bar>s * d - x\<bar>"
      using abs_triangle_ineq4 [of "r * d - x" "s * d - x"] by simp
    moreover have "2 * u = d \<and> 2 * v = d \<and> w = d" if "\<not> w < d" "2 * u \<le> d" "2 * v \<le> d" "w \<le> u + v" for u v w :: int
      using that by linarith
    ultimately have "2 * \<bar>r * d - x\<bar> = d" "2 * \<bar>s * d - x\<bar> = d" "\<bar>r * d - s * d\<bar> = d" using False b(1,2) by blast+
    moreover from this(3) have "\<bar>r - s\<bar> * d = 1 * d" by (simp add: abs_mult left_diff_distrib [symmetric] assms(1) less_imp_le)
    then have "\<bar>r - s\<bar> = 1" using assms(1) by (simp only: mult_cancel_right) auto
    ultimately show ?thesis using b(3,4) by (auto simp: abs_if split: if_splits) presburger+
  qed (rule near_multiples [OF assms(1)]; linarith)
next
  case Down
  then have "\<bar>r\<bar> * d \<le> \<bar>x\<bar>" "\<bar>x\<bar> < (\<bar>r\<bar> + 1) * d" "\<bar>s\<bar> * d \<le> \<bar>x\<bar>" "\<bar>x\<bar> < (\<bar>s\<bar> + 1) * d" "0 \<le> r * x" "0 \<le> s * x"
    using assms by (auto simp: rounds_to_def)
  then have "\<bar>r\<bar> = \<bar>s\<bar>" by (intro near_multiples [OF assms(1)]) (simp_all add: distrib_right)
  with \<open>0 \<le> r * x\<close> \<open>0 \<le> s * x\<close> \<open>\<bar>r\<bar> * d \<le> \<bar>x\<bar>\<close> assms(1) show ?thesis
    by (cases "x = 0") (auto simp: abs_if zero_le_mult_iff mult_le_0_iff split: if_splits)
next
  case Up
  then have "(\<bar>r\<bar> - 1) * d < \<bar>x\<bar>" "\<bar>x\<bar> \<le> \<bar>r\<bar> * d" "(\<bar>s\<bar> - 1) * d < \<bar>x\<bar>" "\<bar>x\<bar> \<le> \<bar>s\<bar> * d" "0 \<le> r * x" "0 \<le> s * x"
    using assms by (auto simp: rounds_to_def)
  then have "\<bar>r\<bar> = \<bar>s\<bar>" by (intro near_multiples [OF assms(1)]) (simp_all add: left_diff_distrib)
  with \<open>0 \<le> r * x\<close> \<open>0 \<le> s * x\<close> \<open>(\<bar>r\<bar> - 1) * d < \<bar>x\<bar>\<close> assms(1) show ?thesis
    by (cases "x = 0") (auto simp: abs_if zero_le_mult_iff mult_le_0_iff mult_less_0_iff split: if_splits)
qed

section \<open>The provider contract\<close>

text \<open>What a client expects of \<^verbatim>\<open>get_quote\<close>: the quote is for the requested pair and usable now, for
  every instant the clock can show.\<close>

locale quote_source =
  fixes get_quote :: "currency \<Rightarrow> currency \<Rightarrow> nat \<Rightarrow> (quote, fx_error) result"
  assumes get_pair: "get_quote src tgt now = Ok q \<Longrightarrow>
      code (q_source_currency q) = code src \<and> code (q_target_currency q) = code tgt"
    and get_valid: "get_quote src tgt now = Ok q \<Longrightarrow> now \<le> u64_max \<Longrightarrow> is_valid_at q now"
    and get_total: "get_quote src tgt now \<noteq> Panic"
begin

text \<open>A cache is sound when each entry is an answer of the wrapped provider for its key.\<close>

definition cache_ok :: "quote_cache \<Rightarrow> bool" where
  "cache_ok cache \<longleftrightarrow>
     (\<forall>a b e. hm_get cache (a, b) = Some e \<longrightarrow>
        (\<exists>src tgt. code src = a \<and> code tgt = b \<and> get_quote src tgt (ce_cached_at e) = Ok (ce_quote e)))"

lemma cache_ok_empty: "cache_ok []"
  by (simp add: cache_ok_def)

lemma cached_outcome:
  assumes "cache_ok cache" and "cached_get_quote get_quote ttl cache src tgt now = (cache', r)"
  shows "cache_ok cache' \<and> r \<noteq> Panic \<and>
    (\<forall>q. r = Ok q \<longrightarrow> (\<exists>src' tgt' t. code src' = code src \<and> code tgt' = code tgt \<and> get_quote src' tgt' t = Ok q
        \<and> (t = now \<or> now - t < ttl \<and> is_valid_at q now)))
    \<and> (\<forall>e. r = Err e \<longrightarrow> cache' = cache \<and> get_quote src tgt now = Err e)"
proof (cases "\<exists>e. hm_get cache (code src, code tgt) = Some e \<and> now - ce_cached_at e < ttl \<and> is_valid_at (ce_quote e) now")
  case True
  then obtain e where e: "hm_get cache (code src, code tgt) = Some e" "now - ce_cached_at e < ttl" "is_valid_at (ce_quote e) now"
    by blast
  then have r: "cache' = cache" "r = Ok (ce_quote e)"
    using assms(2) by (auto simp: cached_get_quote_def u64_saturating_sub_def Let_def)
  obtain s t where "code s = code src" "code t = code tgt" "get_quote s t (ce_cached_at e) = Ok (ce_quote e)"
    using assms(1) e(1) unfolding cache_ok_def by blast
  with e r assms(1) show ?thesis by blast
next
  case False
  then have f: "(cache', r) = (case get_quote src tgt now of
      Ok q \<Rightarrow> (hm_insert (code src, code tgt) \<lparr>ce_quote = q, ce_cached_at = now\<rparr> cache, Ok q)
    | Err e \<Rightarrow> (cache, Err e) | Panic \<Rightarrow> (cache, Panic))"
    using assms(2) by (auto simp: cached_get_quote_def u64_saturating_sub_def Let_def split: option.splits)
  show ?thesis
  proof (cases "get_quote src tgt now")
    case (Ok q)
    then have "cache_ok cache'" using f assms(1) by (auto simp: cache_ok_def)
    with f Ok show ?thesis by auto
  next
    case (Err e)
    with f assms(1) show ?thesis by simp
  qed (simp add: get_total)
qed

lemma cached_usable:
  assumes "cache_ok cache" and "cached_get_quote get_quote ttl cache src tgt now = (cache', Ok q)" and "now \<le> u64_max"
  shows "is_valid_at q now \<and> code (q_source_currency q) = code src \<and> code (q_target_currency q) = code tgt"
proof -
  obtain s t k where k: "code s = code src" "code t = code tgt" "get_quote s t k = Ok q" "k = now \<or> is_valid_at q now"
    using cached_outcome [OF assms(1,2)] by blast
  with get_pair [OF k(3)] get_valid [OF k(3)] assms(3) show ?thesis by auto
qed

end

interpretation static: quote_source "static_get_quote p" for p
proof
  show "is_valid_at q now" if "static_get_quote p src tgt now = Ok q" "now \<le> u64_max" for src tgt now q
    using that by (auto simp: static_get_quote_def new_quote_def is_valid_at_def u64_saturating_add_def)
qed (auto simp: static_get_quote_def new_quote_def rbind_eq_Panic)

text \<open>Sequences of requests to a cache over the static provider.\<close>

fun serve ::
  "static_provider \<Rightarrow> nat \<Rightarrow> quote_cache \<Rightarrow> (currency \<times> currency \<times> nat) list \<Rightarrow> quote_cache" where
  "serve p ttl cache [] = cache"
| "serve p ttl cache ((src, tgt, now) # rs) =
     serve p ttl (fst (cached_get_quote (static_get_quote p) ttl cache src tgt now)) rs"

lemma serve_ok: "static.cache_ok p cache \<Longrightarrow> static.cache_ok p (serve p ttl cache rs)"
proof (induction rs arbitrary: cache)
  case (Cons r rs)
  obtain src tgt now where r: "r = (src, tgt, now)" by (cases r)
  have "static.cache_ok p (fst (cached_get_quote (static_get_quote p) ttl cache src tgt now))"
    using static.cached_outcome [OF Cons.prems, of ttl src tgt now] by (metis prod.collapse)
  with Cons.IH r show ?case by simp
qed simp

section \<open>Properties\<close>

text \<open>
  C8.  Conversion is exact up to the stated rounding.  For a usable quote and an amount in its source
  currency, there is exactly one integer that is the amount times the rate over a million rounded in
  the requested mode: to nearest with ties to even, towards zero, or away from zero.  The call
  returns that amount in the target currency when it fits 64 bits and reports an overflow otherwise.
\<close>

theorem convert_exact:
  assumes "q_rate_ppm q \<noteq> 0" and "q_source_currency q \<noteq> q_target_currency q"
    and "currency m = q_source_currency q" and "is_valid_at q now"
  shows "\<exists>!r. rounds_to mode (minor_units m * int (q_rate_ppm q)) 1000000 r
    \<and> convert m q mode now = (if in_i64 r then Ok (from_minor r (q_target_currency q)) else Err FxOverflow)"
proof -
  let ?x = "minor_units m * int (q_rate_ppm q)"
  let ?r = "apply_rounding (?x sdiv 1000000) (?x smod 1000000) 1000000 mode"
  have "rounds_to mode ?x 1000000 ?r" by (rule apply_rounding_rounds) auto
  moreover have "convert m q mode now = (if in_i64 ?r then Ok (from_minor ?r (q_target_currency q)) else Err FxOverflow)"
    using assms by (simp add: convert_def Let_def i64_of_def)
  ultimately show ?thesis using rounds_to_unique [of 1000000 mode ?x] by (intro ex1I [of _ ?r]) auto
qed

abbreviation "sample_quote \<equiv> new_quote EUR USD 1082500 100 400 ''static''"

theorem convert_exact_witness:
  "\<exists>!r. rounds_to HalfEven (1001 * 1082500) 1000000 r
     \<and> convert (from_minor 1001 EUR) sample_quote HalfEven 200 = (if in_i64 r then Ok (from_minor r USD) else Err FxOverflow)"
proof -
  have 1: "q_rate_ppm sample_quote \<noteq> 0" by (simp add: new_quote_def)
  have 2: "q_source_currency sample_quote \<noteq> q_target_currency sample_quote" by (simp add: new_quote_def EUR_def USD_def)
  have 3: "currency (from_minor 1001 EUR) = q_source_currency sample_quote" by (simp add: new_quote_def from_minor_def)
  have 4: "is_valid_at sample_quote 200" by (simp add: new_quote_def is_valid_at_def)
  have 5: "minor_units (from_minor 1001 EUR) * int (q_rate_ppm sample_quote) = 1001 * 1082500" "q_target_currency sample_quote = USD"
    by (simp_all add: new_quote_def from_minor_def)
  from convert_exact [OF 1 2 3 4, of HalfEven] show ?thesis unfolding 5 .
qed

text \<open>
  Cached quotes are genuine and usable.  Start with an empty cache over a static provider and
  serve any requests in any order, with any clock: each quote then served is an answer the provider
  gave for the same pair of codes, fetched now or less than the time to live ago; it is valid now and for the
  requested pair, so converting with it now never reports an expired quote.
\<close>

theorem cached_quotes_usable:
  assumes "cached_get_quote (static_get_quote p) ttl (serve p ttl [] rs) src tgt now = (cache', Ok q)" and "now \<le> u64_max"
  shows "(\<exists>src' tgt' t. code src' = code src \<and> code tgt' = code tgt \<and> static_get_quote p src' tgt' t = Ok q \<and> (t = now \<or> now - t < ttl))
    \<and> is_valid_at q now \<and> code (q_source_currency q) = code src \<and> code (q_target_currency q) = code tgt
    \<and> (\<forall>m mode a b u v. convert m q mode now \<noteq> Err (QuoteExpired a b u v))"
proof -
  have ok: "static.cache_ok p (serve p ttl [] rs)" by (rule serve_ok) (rule static.cache_ok_empty)
  have "convert m q mode now \<noteq> Err (QuoteExpired a b u v)" if "is_valid_at q now" for m mode a b u v
    using that by (simp add: convert_def Let_def rbind_eq_Err ok_or_eq_Err)
  with static.cached_usable [OF ok assms] static.cached_outcome [OF ok assms(1)] show ?thesis by blast
qed

abbreviation "sample_provider \<equiv> with_rate static_provider_new EUR USD 1082500"

theorem cached_quotes_usable_witness:
  "is_valid_at (new_quote EUR USD 1082500 100 400 ''static'') 130"
proof -
  have f: "cached_get_quote (static_get_quote sample_provider) 60 [] EUR USD 100 =
      ([((code EUR, code USD), \<lparr>ce_quote = new_quote EUR USD 1082500 100 400 ''static'', ce_cached_at = 100\<rparr>)],
       Ok (new_quote EUR USD 1082500 100 400 ''static''))"
    by (simp add: cached_get_quote_def static_get_quote_def with_rate_def static_provider_new_def u64_saturating_add_def hm_insert_def hm_get_def)
  then have "cached_get_quote (static_get_quote sample_provider) 60 (serve sample_provider 60 [] [(EUR, USD, 100)]) EUR USD 130 =
      (fst (cached_get_quote (static_get_quote sample_provider) 60 [] EUR USD 100), Ok (new_quote EUR USD 1082500 100 400 ''static''))"
    by (simp add: cached_get_quote_def [of _ _ "x # xs" for x xs] hm_get_def u64_saturating_sub_def is_valid_at_def new_quote_def)
  from cached_quotes_usable [OF this] show ?thesis by simp
qed

text \<open>
  Inverse quotes.  Inversion is refused exactly for a zero rate; otherwise it exchanges the
  currencies, keeps the validity, never hits the 64-bit clamp, and its rate is the true reciprocal in
  parts per million rounded down: the product of the two rates is at most \<open>10^12\<close> and misses it by
  less than the original rate.
\<close>

theorem inverse_quote_exact:
  "case inverse_quote q of
     None \<Rightarrow> q_rate_ppm q = 0
   | Some i \<Rightarrow> q_rate_ppm q \<noteq> 0 \<and> q_source_currency i = q_target_currency q \<and> q_target_currency i = q_source_currency q
       \<and> (\<forall>now. is_valid_at i now = is_valid_at q now)
       \<and> q_rate_ppm i * q_rate_ppm q \<le> 10 ^ 12 \<and> 10 ^ 12 < q_rate_ppm i * q_rate_ppm q + q_rate_ppm q"
proof (cases "q_rate_ppm q = 0")
  case False
  have "(1000000000000 :: nat) div q_rate_ppm q \<le> 1000000000000" by (rule div_le_dividend)
  then have "(1000000000000 :: nat) div q_rate_ppm q \<le> u64_max" by linarith
  moreover have "1000000000000 div q_rate_ppm q * q_rate_ppm q \<le> (1000000000000 :: nat)" by simp
  moreover have "(1000000000000 :: nat) < 1000000000000 div q_rate_ppm q * q_rate_ppm q + q_rate_ppm q"
    using False by (metis add.commute add_less_cancel_left div_mult_mod_eq mod_less_divisor neq0_conv)
  ultimately show ?thesis using False by (simp add: inverse_quote_def Let_def is_valid_at_def)
qed (simp add: inverse_quote_def)

text \<open>
  The minor-unit exponents of the two currencies play no part.  At a spot rate of 150 yen per
  dollar, ten dollars (1000 cents) convert to 150000 yen, a hundred times the 1500 yen the
  rate means, because the cents are multiplied by the rate as if yen had two decimals.
\<close>

theorem convert_ignores_exponents:
  "convert (from_minor 1000 USD) (new_quote USD JPY 150000000 100 400 ''static'') mode 200 = Ok (from_minor 150000 JPY)"
  by (cases mode)
     (simp_all add: convert_def new_quote_def is_valid_at_def from_minor_def apply_rounding_def USD_def JPY_def Let_def
        signed_divide_int_def signed_modulo_int_def i64_of_def in_i64_def)

end
