(* ===== verification/Subscription.thy ===== *)
theory Subscription
  imports Payment Ext_Store
begin

text \<open>
  \<^verbatim>\<open>op-subscriptions\<close>: plans (\<^verbatim>\<open>plan.rs\<close>), the subscription state machine (\<^verbatim>\<open>subscription.rs\<close>), period
  arithmetic and the billing scheduler (\<^verbatim>\<open>scheduler.rs\<close>), proration (\<^verbatim>\<open>proration.rs\<close>), dunning
  (\<^verbatim>\<open>dunning.rs\<close>) and the store (\<^verbatim>\<open>store.rs\<close>).

  The calendar of the \<^verbatim>\<open>time\<close> crate is a parameter (\<open>calendar\<close>): splitting a timestamp into a civil
  date and a time of day, and the day number of a civil date, both undefined outside the crate's
  range.  Unsigned additions and \<^verbatim>\<open>i32\<close> additions that leave their type panic.
\<close>

section \<open>Plans and errors\<close>

datatype sub_error =
    SubInvalid string
  | SubNotFound uuid
  | SubInvalidTransition uuid string
  | SubIdempotencyMismatch string
  | SubCurrencyMismatch string string
  | SubCore core_error

datatype interval = Day | Week | Month | Year

fun interval_code :: "interval \<Rightarrow> string" where
  "interval_code Day = ''day''"
| "interval_code Week = ''week''"
| "interval_code Month = ''month''"
| "interval_code Year = ''year''"

record plan =
  pl_id :: uuid
  pl_name :: string
  pl_amount :: money
  pl_interval :: interval
  pl_interval_count :: nat
  pl_trial_days :: "nat option"
  pl_metadata :: "(string \<times> string) list"

text \<open>The text of the first error contains the character U+2265.\<close>

definition new_plan :: "uuid \<Rightarrow> string \<Rightarrow> money \<Rightarrow> interval \<Rightarrow> nat \<Rightarrow> (plan, sub_error) result" where
  "new_plan uid nm amt itv cnt =
     (if cnt = 0 then Err (SubInvalid (''interval_count must be '' @ [CHR 0xE2, CHR 0x89, CHR 0xA5] @ '' 1''))
      else if minor_units amt < 0
        then Err (SubInvalid (''plan amount must be non-negative, got '' @ show_int (minor_units amt)))
      else Ok \<lparr>pl_id = uid, pl_name = nm, pl_amount = amt, pl_interval = itv, pl_interval_count = cnt,
               pl_trial_days = None, pl_metadata = []\<rparr>)"

definition with_trial_days :: "plan \<Rightarrow> nat \<Rightarrow> plan" where
  "with_trial_days p d = p\<lparr>pl_trial_days := Some d\<rparr>"

definition plan_with_metadata :: "plan \<Rightarrow> string \<Rightarrow> string \<Rightarrow> plan" where
  "plan_with_metadata p k v = p\<lparr>pl_metadata := pl_metadata p @ [(k, v)]\<rparr>"

section \<open>Period arithmetic\<close>

text \<open>
  \<open>cal_split\<close> is \<^verbatim>\<open>OffsetDateTime::from_unix_timestamp\<close> with the year, month, day and second of the day
  of the result; \<open>cal_days\<close> is \<^verbatim>\<open>Date::from_calendar_date\<close> as a number of days since the epoch.
\<close>

record calendar =
  cal_split :: "int \<Rightarrow> (int \<times> nat \<times> nat \<times> nat) option"
  cal_days :: "int \<Rightarrow> nat \<Rightarrow> nat \<Rightarrow> int option"

definition i32_val :: "int \<Rightarrow> (int, 'e) result" where
  "i32_val x = (if - 2147483648 \<le> x \<and> x \<le> 2147483647 then Ok x else Panic)"

definition days_in_month :: "calendar \<Rightarrow> int \<Rightarrow> nat \<Rightarrow> (nat, sub_error) result" where
  "days_in_month cal year month =
     rbind (if month = 12 then i32_val (year + 1) else Ok year) (\<lambda>next_month_year.
     let next_month = (if month = 12 then 1 else month + 1) in
     rbind (expect (cal_days cal next_month_year next_month 1)) (\<lambda>first_of_next.
     rbind (expect (cal_days cal year month 1)) (\<lambda>first_of_this.
     let diff = first_of_next - first_of_this in
     Ok (if 0 \<le> diff \<and> diff \<le> 255 then nat diff else 28))))"

definition add_months :: "calendar \<Rightarrow> nat \<Rightarrow> nat \<Rightarrow> (nat, sub_error) result" where
  "add_months cal from months =
     (if int from > i64_max then Ok from
      else case cal_split cal (int from) of
        None \<Rightarrow> Ok from
      | Some (dt_year, dt_month, dt_day, dt_secs) \<Rightarrow>
          let delta = months mod 12;
              year_delta = months div 12;
              month = (if dt_month + delta > 12 then dt_month + delta - 12 else dt_month + delta)
          in rbind (if dt_month + delta > 12 then i32_val (dt_year + 1) else Ok dt_year) (\<lambda>year.
             rbind (i32_val (year + (if year_delta \<le> 2147483647 then int year_delta else 0))) (\<lambda>year.
             let month_enum = (if 1 \<le> month \<and> month \<le> 12 then month else dt_month) in
             rbind (days_in_month cal year month_enum) (\<lambda>max_day.
             let day = min dt_day max_day in
             case cal_days cal year month_enum day of
               None \<Rightarrow> Ok from
             | Some n \<Rightarrow>
                 let ts = n * 86400 + int dt_secs in
                 Ok (if 0 \<le> ts then nat ts else from)))))"

fun advance :: "calendar \<Rightarrow> nat \<Rightarrow> interval \<Rightarrow> nat \<Rightarrow> (nat, sub_error) result" where
  "advance cal from Day cnt = u64_val (from + cnt * 86400)"
| "advance cal from Week cnt = u64_val (from + cnt * 7 * 86400)"
| "advance cal from Month cnt = add_months cal from cnt"
| "advance cal from Year cnt = add_months cal from (cnt * 12)"

text \<open>The end of a trial that starts now, if the plan has one.\<close>

definition trial_end :: "plan \<Rightarrow> nat \<Rightarrow> nat option" where
  "trial_end p now = (case pl_trial_days p of Some d \<Rightarrow> if d > 0 then Some (now + d * 86400) else None | None \<Rightarrow> None)"

definition first_period :: "calendar \<Rightarrow> plan \<Rightarrow> nat \<Rightarrow> (nat \<times> nat, sub_error) result" where
  "first_period cal p now =
     rbind (case trial_end p now of Some t \<Rightarrow> u64_val t | None \<Rightarrow> Ok now) (\<lambda>start.
     rbind (advance cal start (pl_interval p) (pl_interval_count p)) (\<lambda>en. Ok (start, en)))"

section \<open>Subscriptions\<close>

datatype sub_status =
    Trialing nat
  | Active
  | PastDue nat nat
  | Paused nat
  | Canceled nat

fun sub_status_code :: "sub_status \<Rightarrow> string" where
  "sub_status_code (Trialing _) = ''trialing''"
| "sub_status_code Active = ''active''"
| "sub_status_code (PastDue _ _) = ''past_due''"
| "sub_status_code (Paused _) = ''paused''"
| "sub_status_code (Canceled _) = ''canceled''"

fun sub_is_terminal :: "sub_status \<Rightarrow> bool" where
  "sub_is_terminal (Canceled _) = True"
| "sub_is_terminal _ = False"

record subscription =
  sub_id :: uuid
  sub_external_id :: "string option"
  sub_customer_ref :: string
  sub_plan :: plan
  sub_method :: payment_method
  sub_status :: sub_status
  sub_period_start :: nat
  sub_period_end :: nat
  sub_cancel_at_period_end :: bool
  sub_metadata :: "(string \<times> string) list"

definition new_subscription ::
  "calendar \<Rightarrow> uuid \<Rightarrow> string \<Rightarrow> plan \<Rightarrow> payment_method \<Rightarrow> nat \<Rightarrow> (subscription, sub_error) result" where
  "new_subscription cal uid cust p meth now =
     rbind (first_period cal p now) (\<lambda>(start, en).
     rbind (case trial_end p now of Some t \<Rightarrow> rbind (u64_val t) (\<lambda>t. Ok (Trialing t)) | None \<Rightarrow> Ok Active) (\<lambda>st.
       Ok \<lparr>sub_id = uid, sub_external_id = None, sub_customer_ref = cust, sub_plan = p, sub_method = meth,
           sub_status = st, sub_period_start = start, sub_period_end = en, sub_cancel_at_period_end = False,
           sub_metadata = []\<rparr>))"

definition sub_with_external_id :: "subscription \<Rightarrow> string \<Rightarrow> subscription" where
  "sub_with_external_id s e = s\<lparr>sub_external_id := Some e\<rparr>"

definition sub_with_metadata :: "subscription \<Rightarrow> string \<Rightarrow> string \<Rightarrow> subscription" where
  "sub_with_metadata s k v = s\<lparr>sub_metadata := sub_metadata s @ [(k, v)]\<rparr>"

abbreviation sub_blocked :: "subscription \<Rightarrow> (subscription, sub_error) result" where
  "sub_blocked s \<equiv> Err (SubInvalidTransition (sub_id s) (sub_status_code (sub_status s)))"

definition promote_from_trial :: "subscription \<Rightarrow> (subscription, sub_error) result" where
  [transition_defs]: "promote_from_trial s =
     (case sub_status s of Trialing _ \<Rightarrow> Ok (s\<lparr>sub_status := Active\<rparr>) | Active \<Rightarrow> Ok s | _ \<Rightarrow> sub_blocked s)"

definition record_billing_failure :: "subscription \<Rightarrow> nat \<Rightarrow> (subscription, sub_error) result" where
  [transition_defs]: "record_billing_failure s at =
     (case sub_status s of
        Trialing _ \<Rightarrow> Ok (s\<lparr>sub_status := PastDue at 0\<rparr>)
      | Active \<Rightarrow> Ok (s\<lparr>sub_status := PastDue at 0\<rparr>)
      | PastDue failed_at retry_count \<Rightarrow> Ok (s\<lparr>sub_status := PastDue failed_at (u32_saturating_add retry_count 1)\<rparr>)
      | _ \<Rightarrow> sub_blocked s)"

definition record_billing_recovered :: "subscription \<Rightarrow> (subscription, sub_error) result" where
  [transition_defs]: "record_billing_recovered s =
     (case sub_status s of PastDue _ _ \<Rightarrow> Ok (s\<lparr>sub_status := Active\<rparr>) | _ \<Rightarrow> sub_blocked s)"

definition pause :: "subscription \<Rightarrow> nat \<Rightarrow> (subscription, sub_error) result" where
  [transition_defs]: "pause s at =
     (case sub_status s of
        Active \<Rightarrow> Ok (s\<lparr>sub_status := Paused at\<rparr>)
      | Trialing _ \<Rightarrow> Ok (s\<lparr>sub_status := Paused at\<rparr>)
      | _ \<Rightarrow> sub_blocked s)"

definition resume :: "subscription \<Rightarrow> (subscription, sub_error) result" where
  [transition_defs]: "resume s =
     (case sub_status s of Paused _ \<Rightarrow> Ok (s\<lparr>sub_status := Active\<rparr>) | _ \<Rightarrow> sub_blocked s)"

definition schedule_cancel_at_period_end :: "subscription \<Rightarrow> subscription" where
  [transition_defs]: "schedule_cancel_at_period_end s = s\<lparr>sub_cancel_at_period_end := True\<rparr>"

definition cancel_now :: "subscription \<Rightarrow> nat \<Rightarrow> subscription" where
  [transition_defs]: "cancel_now s at = s\<lparr>sub_status := Canceled at, sub_cancel_at_period_end := True\<rparr>"

section \<open>Scheduler\<close>

datatype due_state = NotDue | TrialEnded | PeriodRollover | CancelAtPeriodEnd

definition classify :: "subscription \<Rightarrow> nat \<Rightarrow> due_state" where
  "classify s now =
     (if sub_is_terminal (sub_status s) then NotDue
      else if (case sub_status s of Trialing t \<Rightarrow> now \<ge> t | _ \<Rightarrow> False) then TrialEnded
      else if (case sub_status s of Paused _ \<Rightarrow> True | _ \<Rightarrow> False) then NotDue
      else if now < sub_period_end s then NotDue
      else if sub_cancel_at_period_end s then CancelAtPeriodEnd
      else PeriodRollover)"

definition tick :: "calendar \<Rightarrow> subscription \<Rightarrow> nat \<Rightarrow> (subscription \<times> due_state, sub_error) result" where
  "tick cal s now =
     (let st = classify s now in
      case st of
        NotDue \<Rightarrow> Ok (s, st)
      | TrialEnded \<Rightarrow> rbind (promote_from_trial s) (\<lambda>s'. Ok (s', st))
      | PeriodRollover \<Rightarrow>
          let next_start = sub_period_end s in
          rbind (advance cal next_start (pl_interval (sub_plan s)) (pl_interval_count (sub_plan s))) (\<lambda>next_end.
            Ok (s\<lparr>sub_period_start := next_start, sub_period_end := next_end\<rparr>, st))
      | CancelAtPeriodEnd \<Rightarrow> Ok (cancel_now s now, st))"

section \<open>Proration\<close>

definition credit_remaining :: "subscription \<Rightarrow> nat \<Rightarrow> (money, sub_error) result" where
  "credit_remaining s now =
     (let start = sub_period_start s; en = sub_period_end s in
      if en \<le> start
      then Err (SubInvalid (''period bounds inverted: start='' @ show_nat start @ '' end='' @ show_nat en))
      else if now < start
      then Err (SubInvalid (''now ('' @ show_nat now @ '') before period start ('' @ show_nat start @ '')''))
      else if now \<ge> en then Ok (from_minor 0 (currency (pl_amount (sub_plan s))))
      else let period_len = en - start;
               remaining = en - now;
               scaled = (minor_units (pl_amount (sub_plan s)) * int remaining) sdiv int period_len
        in rbind (ok_or (i64_of scaled) (SubInvalid ''proration overflow'')) (\<lambda>cr.
             Ok (from_minor cr (currency (pl_amount (sub_plan s))))))"

definition switch_charge :: "money \<Rightarrow> money \<Rightarrow> (money, sub_error) result" where
  "switch_charge new_amount cr =
     (if currency new_amount \<noteq> currency cr
      then Err (SubCurrencyMismatch (code (currency new_amount)) (code (currency cr)))
      else rbind (i64_val (minor_units new_amount - minor_units cr)) (\<lambda>net.
             Ok (from_minor (max net 0) (currency new_amount))))"

section \<open>Dunning\<close>

record dunning_policy =
  dp_schedule_days :: "nat list"

datatype dunning_outcome = RetryNow | Wait nat | Cancel

definition dunning_default :: dunning_policy where
  "dunning_default = \<lparr>dp_schedule_days = [1, 3, 5, 7]\<rparr>"

definition aggressive_daily :: dunning_policy where
  "aggressive_daily = \<lparr>dp_schedule_days = replicate 7 1\<rparr>"

definition conservative :: dunning_policy where
  "conservative = \<lparr>dp_schedule_days = [1, 7, 30]\<rparr>"

definition decide :: "dunning_policy \<Rightarrow> nat \<Rightarrow> nat \<Rightarrow> nat \<Rightarrow> (dunning_outcome, sub_error) result" where
  "decide p retry_count failed_at now =
     (if retry_count \<ge> length (dp_schedule_days p) then Ok Cancel
      else let delay = dp_schedule_days p ! retry_count * 86400 in
        rbind (u64_val (failed_at + delay)) (\<lambda>next_attempt_at.
          if now \<ge> next_attempt_at then Ok RetryNow else Ok (Wait next_attempt_at)))"

section \<open>Store\<close>

record sub_store =
  ss_subs :: "(uuid, subscription) hashmap"
  ss_by_external_id :: "(string, uuid) hashmap"

definition sub_store_new :: sub_store where
  "sub_store_new = \<lparr>ss_subs = [], ss_by_external_id = []\<rparr>"

definition sub_bodies_equivalent :: "subscription \<Rightarrow> subscription \<Rightarrow> bool" where
  "sub_bodies_equivalent a b \<longleftrightarrow>
     sub_customer_ref a = sub_customer_ref b \<and> pl_id (sub_plan a) = pl_id (sub_plan b)
     \<and> pl_amount (sub_plan a) = pl_amount (sub_plan b) \<and> pl_interval (sub_plan a) = pl_interval (sub_plan b)
     \<and> pl_interval_count (sub_plan a) = pl_interval_count (sub_plan b) \<and> sub_external_id a = sub_external_id b"

definition create_subscription :: "sub_store \<Rightarrow> subscription \<Rightarrow> sub_store \<times> (uuid, sub_error) result" where
  "create_subscription st s =
     (case Option.bind (sub_external_id s) (hm_get (ss_by_external_id st)) of
        Some existing_id \<Rightarrow>
          (case hm_get (ss_subs st) existing_id of
             None \<Rightarrow> (st, Panic)
           | Some existing \<Rightarrow>
               if sub_bodies_equivalent existing s then (st, Ok existing_id)
               else (st, case sub_external_id s of Some e \<Rightarrow> Err (SubIdempotencyMismatch e) | None \<Rightarrow> Panic))
      | None \<Rightarrow>
          (st\<lparr>ss_by_external_id := (case sub_external_id s of None \<Rightarrow> ss_by_external_id st
                                    | Some e \<Rightarrow> hm_insert e (sub_id s) (ss_by_external_id st)),
              ss_subs := hm_insert (sub_id s) s (ss_subs st)\<rparr>, Ok (sub_id s)))"

definition get_subscription :: "sub_store \<Rightarrow> uuid \<Rightarrow> (subscription, sub_error) result" where
  "get_subscription st i = ok_or (hm_get (ss_subs st) i) (SubNotFound i)"

definition sub_find_by_external_id :: "sub_store \<Rightarrow> string \<Rightarrow> (subscription option, sub_error) result" where
  "sub_find_by_external_id st e =
     Ok (case hm_get (ss_by_external_id st) e of None \<Rightarrow> None | Some i \<Rightarrow> hm_get (ss_subs st) i)"

definition list_for_customer :: "sub_store \<Rightarrow> string \<Rightarrow> subscription list" where
  "list_for_customer st cust = filter (\<lambda>s. sub_customer_ref s = cust) (hm_values (ss_subs st))"

definition list_due_at :: "sub_store \<Rightarrow> nat \<Rightarrow> subscription list" where
  "list_due_at st as_of =
     filter (\<lambda>s. \<not> sub_is_terminal (sub_status s) \<and> sub_period_end s \<le> as_of) (hm_values (ss_subs st))"

definition update_subscription ::
  "sub_store \<Rightarrow> uuid \<Rightarrow> (subscription \<Rightarrow> (subscription, sub_error) result) \<Rightarrow> sub_store \<times> (subscription, sub_error) result" where
  "update_subscription st i f =
     (case hm_get (ss_subs st) i of
        None \<Rightarrow> (st, Err (SubNotFound i))
      | Some existing \<Rightarrow>
          (case f existing of
             Ok staged \<Rightarrow> (st\<lparr>ss_subs := hm_insert i staged (ss_subs st)\<rparr>, Ok staged)
           | Err e \<Rightarrow> (st, Err e)
           | Panic \<Rightarrow> (st, Panic)))"

interpretation subs: ext_store_update ss_subs ss_by_external_id create_subscription sub_id sub_external_id
  sub_bodies_equivalent SubIdempotencyMismatch "\<lambda>_ _. True" "\<lambda>_ _. True" update_subscription SubNotFound
  by unfold_locales (auto simp: create_subscription_def update_subscription_def split: option.splits result.splits)

section \<open>The state machine\<close>

inductive sub_step :: "calendar \<Rightarrow> subscription \<Rightarrow> subscription \<Rightarrow> bool" for cal where
  ss_promote: "promote_from_trial s = Ok s' \<Longrightarrow> sub_step cal s s'"
| ss_failure: "record_billing_failure s at = Ok s' \<Longrightarrow> sub_step cal s s'"
| ss_recovered: "record_billing_recovered s = Ok s' \<Longrightarrow> sub_step cal s s'"
| ss_pause: "pause s at = Ok s' \<Longrightarrow> sub_step cal s s'"
| ss_resume: "resume s = Ok s' \<Longrightarrow> sub_step cal s s'"
| ss_schedule: "sub_step cal s (schedule_cancel_at_period_end s)"
| ss_cancel: "sub_step cal s (cancel_now s at)"
| ss_tick: "tick cal s now = Ok (s', st) \<Longrightarrow> sub_step cal s s'"

lemma tick_outcome:
  assumes "tick cal s now = Ok (s', st)"
  shows "st = classify s now \<and>
    (case st of
       NotDue \<Rightarrow> s' = s
     | TrialEnded \<Rightarrow> s' = s\<lparr>sub_status := Active\<rparr>
     | PeriodRollover \<Rightarrow> (\<exists>e. advance cal (sub_period_end s) (pl_interval (sub_plan s)) (pl_interval_count (sub_plan s)) = Ok e
         \<and> s' = s\<lparr>sub_period_start := sub_period_end s, sub_period_end := e\<rparr>)
     | CancelAtPeriodEnd \<Rightarrow> s' = cancel_now s now)"
  using assms
  by (auto simp: tick_def Let_def promote_from_trial_def classify_def split: due_state.splits sub_status.splits if_splits)

text \<open>What every step keeps.\<close>

lemma sub_step_keeps:
  "sub_step cal s s' \<Longrightarrow>
   sub_id s' = sub_id s \<and> sub_external_id s' = sub_external_id s \<and> sub_customer_ref s' = sub_customer_ref s
   \<and> sub_plan s' = sub_plan s \<and> sub_method s' = sub_method s
   \<and> (sub_cancel_at_period_end s \<longrightarrow> sub_cancel_at_period_end s')
   \<and> (sub_is_terminal (sub_status s) \<longrightarrow> sub_is_terminal (sub_status s')
        \<and> sub_period_start s' = sub_period_start s \<and> sub_period_end s' = sub_period_end s)"
proof (induction rule: sub_step.induct)
  case (ss_tick s now s' st)
  from tick_outcome [OF this] show ?case
    by (auto simp: cancel_now_def classify_def split: due_state.splits if_splits)
qed (auto simp: transition_defs split: sub_status.splits)

section \<open>Period arithmetic\<close>

text \<open>The length of a fixed-length period.\<close>

fun fixed_len :: "plan \<Rightarrow> nat option" where
  "fixed_len p = (case pl_interval p of Day \<Rightarrow> Some (pl_interval_count p * 86400)
     | Week \<Rightarrow> Some (pl_interval_count p * 7 * 86400) | _ \<Rightarrow> None)"

lemma advance_fixed:
  "fixed_len p = Some len \<Longrightarrow> from + len \<le> u64_max \<Longrightarrow> advance cal from (pl_interval p) (pl_interval_count p) = Ok (from + len)"
  by (cases "pl_interval p") (auto simp: u64_val_def)

lemma classify_billable:
  assumes "sub_status s = Active \<or> (\<exists>f r. sub_status s = PastDue f r)" and "\<not> sub_cancel_at_period_end s"
  shows "classify s now = (if now < sub_period_end s then NotDue else PeriodRollover)"
  using assms by (auto simp: classify_def)

text \<open>Ticking repeatedly at the same instant.\<close>

fun tick_n :: "calendar \<Rightarrow> nat \<Rightarrow> subscription \<Rightarrow> nat \<Rightarrow> (subscription, sub_error) result" where
  "tick_n cal 0 s now = Ok s"
| "tick_n cal (Suc n) s now = rbind (tick cal s now) (\<lambda>(s', _). tick_n cal n s' now)"

text \<open>A subscription rolled over a number of periods of fixed length; nothing but the period changes.\<close>

definition rolled :: "subscription \<Rightarrow> nat \<Rightarrow> nat \<Rightarrow> subscription" where
  "rolled s len k = (if k = 0 then s
     else s\<lparr>sub_period_start := sub_period_end s + (k - 1) * len, sub_period_end := sub_period_end s + k * len\<rparr>)"

lemma rolled_fields [simp]:
  "sub_period_end (rolled s len k) = sub_period_end s + k * len" "sub_status (rolled s len k) = sub_status s" "sub_plan (rolled s len k) = sub_plan s"
  "sub_cancel_at_period_end (rolled s len k) = sub_cancel_at_period_end s" "sub_period_start (rolled s len (Suc k)) = sub_period_end s + k * len"
  by (simp_all add: rolled_def)

lemma rolled_Suc: "(rolled s len k)\<lparr>sub_period_start := sub_period_end s + k * len, sub_period_end := sub_period_end s + k * len + len\<rparr> = rolled s len (Suc k)"
  by (simp add: rolled_def algebra_simps)

lemma tick_rolls:
  assumes "sub_status s = Active \<or> (\<exists>f r. sub_status s = PastDue f r)" and "\<not> sub_cancel_at_period_end s"
    and "fixed_len (sub_plan s) = Some len" and "sub_period_end s + k * len \<le> now" and "now + len \<le> u64_max"
  shows "tick cal (rolled s len k) now = Ok (rolled s len (Suc k), PeriodRollover)"
proof -
  have "sub_period_end s + k * len + len \<le> u64_max" using assms(4,5) by linarith
  then have "advance cal (sub_period_end s + k * len) (pl_interval (sub_plan s)) (pl_interval_count (sub_plan s)) = Ok (sub_period_end s + k * len + len)"
    by (rule advance_fixed [OF assms(3)])
  moreover have "classify (rolled s len k) now = PeriodRollover"
    using assms(4) classify_billable [of "rolled s len k" now] assms(1,2) by simp
  ultimately show ?thesis by (simp add: tick_def Let_def rolled_Suc)
qed

lemma tick_n_rolls:
  assumes "\<And>j. j < n \<Longrightarrow> tick cal (rolled s len (k + j)) now = Ok (rolled s len (Suc (k + j)), PeriodRollover)"
  shows "tick_n cal n (rolled s len k) now = Ok (rolled s len (k + n))"
  using assms
proof (induction n arbitrary: k)
  case (Suc n)
  have "tick cal (rolled s len (Suc k + j)) now = Ok (rolled s len (Suc (Suc k + j)), PeriodRollover)" if "j < n" for j
    using Suc.prems [of "Suc j"] that by simp
  from Suc.IH [OF this] Suc.prems [of 0] show ?case by simp
qed simp

section \<open>Properties\<close>

text \<open>
  Life of a subscription.  Whatever calls succeed, id, external id, customer, payment method and the
  plan snapshot (so the price) never change, a scheduled cancellation is never withdrawn, and a
  cancelled subscription stays cancelled and its billing period never moves again.
\<close>

theorem subscription_lifecycle:
  assumes "(sub_step cal)\<^sup>*\<^sup>* s s'"
  shows "sub_id s' = sub_id s \<and> sub_external_id s' = sub_external_id s \<and> sub_customer_ref s' = sub_customer_ref s
   \<and> sub_plan s' = sub_plan s \<and> sub_method s' = sub_method s
   \<and> (sub_cancel_at_period_end s \<longrightarrow> sub_cancel_at_period_end s')
   \<and> (sub_is_terminal (sub_status s) \<longrightarrow> sub_is_terminal (sub_status s')
        \<and> sub_period_start s' = sub_period_start s \<and> sub_period_end s' = sub_period_end s)"
  using assms
proof (induction rule: rtranclp_induct)
  case (step u v)
  with sub_step_keeps [OF step(2)] show ?case by auto
qed simp

text \<open>
  C23.  Billing catches up.  Take an active or past-due subscription on a daily or weekly plan of positive length that is not set to cancel at the
  end of its period, and whose period ended.  Exactly \<open>(now - end) div length + 1\<close> ticks bring it up to date: each of them reports a
  rollover and moves the subscription to the next period, which starts where the last one ended and has the plan's exact length, and changes
  nothing else; after the last one the period contains now, and a further tick reports that nothing is due and changes nothing.
\<close>

theorem billing_catches_up:
  assumes "sub_status s = Active \<or> (\<exists>f r. sub_status s = PastDue f r)" and "\<not> sub_cancel_at_period_end s"
    and "fixed_len (sub_plan s) = Some len" and "0 < len"
    and "sub_period_end s \<le> now" and "now + len \<le> u64_max" and "n = (now - sub_period_end s) div len"
  shows "(\<forall>k \<le> n. tick cal (rolled s len k) now = Ok (rolled s len (Suc k), PeriodRollover))
    \<and> tick_n cal (Suc n) s now = Ok (rolled s len (Suc n))
    \<and> sub_period_start (rolled s len (Suc n)) \<le> now \<and> now < sub_period_end (rolled s len (Suc n))
    \<and> tick cal (rolled s len (Suc n)) now = Ok (rolled s len (Suc n), NotDue)"
proof -
  have "n * len \<le> now - sub_period_end s" unfolding assms(7) by (rule div_times_less_eq_dividend)
  then have le: "sub_period_end s + n * len \<le> now" using assms(5) by linarith
  have lt: "now < sub_period_end s + Suc n * len"
    using dividend_less_div_times [OF assms(4), of "now - sub_period_end s", folded assms(7)] assms(5) by simp
  have step: "tick cal (rolled s len k) now = Ok (rolled s len (Suc k), PeriodRollover)" if "k \<le> n" for k
  proof (rule tick_rolls [OF assms(1-3) _ assms(6)])
    have "k * len \<le> n * len" using that by simp
    then show "sub_period_end s + k * len \<le> now" using le by linarith
  qed
  have "tick_n cal (Suc n) (rolled s len 0) now = Ok (rolled s len (Suc n))"
    using tick_n_rolls [of "Suc n" cal s len 0 now] step by simp
  then have run: "tick_n cal (Suc n) s now = Ok (rolled s len (Suc n))" by (simp add: rolled_def)
  have "classify (rolled s len (Suc n)) now = NotDue"
    using lt classify_billable [of "rolled s len (Suc n)" now] assms(1,2) by simp
  then have "tick cal (rolled s len (Suc n)) now = Ok (rolled s len (Suc n), NotDue)" by (simp add: tick_def Let_def)
  then show ?thesis using step run le lt by simp
qed

text \<open>
  A cancellation scheduled for the end of the period takes effect at the first tick after that end
  and is final: the tick cancels the subscription at the time of the tick, and every later tick
  reports nothing due and changes nothing.  Before the end of the period the tick does not
  cancel.
\<close>

theorem scheduled_cancel_honoured:
  assumes "sub_cancel_at_period_end s" and "sub_status s = Active \<or> (\<exists>f r. sub_status s = PastDue f r)"
  shows "if now < sub_period_end s then tick cal s now = Ok (s, NotDue)
    else (\<exists>s'. tick cal s now = Ok (s', CancelAtPeriodEnd) \<and> sub_status s' = Canceled now
            \<and> (\<forall>later. tick cal s' later = Ok (s', NotDue)))"
  using assms by (auto simp: tick_def Let_def classify_def cancel_now_def)

text \<open>
  Proration never over-credits.  Inside the period, for a non-negative price, the credit is the price
  times the remaining share of the period rounded down: it never exceeds the price, it is the full
  price at the start, it never grows as time passes, and the switch charge computed from it
  is the new price less the credit, or zero when the credit is larger; nothing overflows or panics.
\<close>

theorem proration_bounds:
  assumes "sub_period_start s \<le> now" and "now \<le> later" and "later < sub_period_end s"
    and "pl_amount (sub_plan s) = from_minor price cur" and "0 \<le> price" and "price \<le> i64_max"
    and "0 \<le> new_price" and "new_price \<le> i64_max"
  shows "\<exists>c c'. credit_remaining s now = Ok (from_minor c cur) \<and> credit_remaining s later = Ok (from_minor c' cur)
    \<and> c * int (sub_period_end s - sub_period_start s) \<le> price * int (sub_period_end s - now)
    \<and> 0 \<le> c' \<and> c' \<le> c \<and> c \<le> price \<and> (now = sub_period_start s \<longrightarrow> c = price)
    \<and> switch_charge (from_minor new_price cur) (from_minor c cur) = Ok (from_minor (max 0 (new_price - c)) cur)"
proof -
  define L where "L = sub_period_end s - sub_period_start s"
  define cr where "cr t = price * int (sub_period_end s - t) div int L" for t
  have L: "0 < L" using assms(1-3) by (simp add: L_def)
  have bound: "0 \<le> cr t \<and> cr t \<le> price \<and> cr t * int L \<le> price * int (sub_period_end s - t)
      \<and> (t = sub_period_start s \<longrightarrow> cr t = price)" if "sub_period_start s \<le> t" for t
  proof -
    have "int (sub_period_end s - t) \<le> int L" using that by (simp add: L_def)
    then have "price * int (sub_period_end s - t) \<le> price * int L" using assms(5) by (rule mult_left_mono)
    then have "cr t \<le> price * int L div int L" unfolding cr_def using L by (intro zdiv_mono1) auto
    moreover have "0 \<le> cr t" unfolding cr_def using assms(5) L by (simp add: pos_imp_zdiv_nonneg_iff)
    moreover have "cr t * int L \<le> price * int (sub_period_end s - t)"
      unfolding cr_def using L by (metis add_increasing2 div_mult_mod_eq le_add_same_cancel1 of_nat_0_less_iff order_refl pos_mod_sign)
    ultimately show ?thesis using L by (auto simp: cr_def L_def)
  qed
  have ok: "credit_remaining s t = Ok (from_minor (cr t) cur)" if "sub_period_start s \<le> t" "t < sub_period_end s" for t
  proof -
    have "(price * int (sub_period_end s - t)) sdiv int L = cr t"
      unfolding cr_def using assms(5) L by (intro sdiv_nonneg_eq_div) auto
    moreover have "in_i64 (cr t)" using bound [OF that(1)] assms(6) by (auto simp: in_i64_def)
    ultimately show ?thesis using that assms(4)
      by (simp add: credit_remaining_def Let_def L_def [symmetric] from_minor_def i64_of_def)
  qed
  have "cr later \<le> cr now" unfolding cr_def using assms(2,5) L by (intro zdiv_mono1 mult_left_mono) auto
  moreover have "switch_charge (from_minor new_price cur) (from_minor (cr now) cur) = Ok (from_minor (max 0 (new_price - cr now)) cur)"
    using bound [OF assms(1)] assms(6-8) by (auto simp: switch_charge_def from_minor_def i64_val_def in_i64_def max.commute)
  ultimately show ?thesis
    using ok [of now] ok [of later] bound [of now] bound [of later] assms(1-3) unfolding L_def [symmetric] by auto
qed

text \<open>
  The aggressive policy does not retry once a day for a week.  Every delay of the schedule is
  counted from the first failure, so once a day has passed each of the seven retries is due
  immediately, one after the other, and then the policy cancels.
\<close>

theorem aggressive_retries_all_due:
  assumes "first + 86400 \<le> u64_max" and "first + 86400 \<le> now"
  shows "(\<forall>n<7. decide aggressive_daily n first now = Ok RetryNow) \<and> decide aggressive_daily 7 first now = Ok Cancel"
  using assms by (auto simp: decide_def aggressive_daily_def u64_val_def Let_def)

text \<open>Months counted from year zero: the arithmetic the month carry implements.\<close>

definition month_index :: "int \<Rightarrow> nat \<Rightarrow> int" where
  "month_index y m = y * 12 + int m - 1"

lemma month_carry:
  assumes "1 \<le> m" and "m \<le> 12"
  shows "(month_index y m + int k) div 12 = (if m + k mod 12 > 12 then y + 1 else y) + int (k div 12)"
    and "nat ((month_index y m + int k) mod 12) + 1 = (if m + k mod 12 > 12 then m + k mod 12 - 12 else m + k mod 12)"
proof -
  define r where "r = int m - 1 + int (k mod 12)"
  have "int k = int (k div 12) * 12 + int (k mod 12)"
    by (metis div_mult_mod_eq of_nat_add of_nat_mult of_nat_numeral)
  then have k: "month_index y m + int k = r + (y + int (k div 12)) * 12"
    by (simp add: month_index_def r_def algebra_simps)
  have "0 \<le> r" "r < 24" using assms by (auto simp: r_def)
  then have r: "r div 12 = (if 12 \<le> r then 1 else 0)" "r mod 12 = (if 12 \<le> r then r - 12 else r)" by presburger+
  have over: "12 \<le> r \<longleftrightarrow> m + k mod 12 > 12" using assms by (auto simp: r_def)
  have shift: "(r + z * 12) div 12 = r div 12 + z" "(r + z * 12) mod 12 = r mod 12" for z by simp_all
  have fin: "nat (if m + q > 12 then int m - 1 + int q - 12 else int m - 1 + int q) + 1
      = (if m + q > 12 then m + q - 12 else m + q)" for q
    using assms(1) by (auto simp: nat_eq_iff Suc_nat_eq_nat_zadd1)
  show "(month_index y m + int k) div 12 = (if m + k mod 12 > 12 then y + 1 else y) + int (k div 12)"
    unfolding k shift r over by simp
  show "nat ((month_index y m + int k) mod 12) + 1 = (if m + k mod 12 > 12 then m + k mod 12 - 12 else m + k mod 12)"
    unfolding k shift r over using fin [of "k mod 12"] by (simp only: r_def)
qed

text \<open>
  Calendar months.  Adding months moves the date by exactly that many months, the year carried when
  the month passes December; the day is kept or clamped to the length of the destination month
  and the time of day is kept.  The civil calendar enters through its day numbers: the
  destination month runs from day number \<open>a\<close> to \<open>a + len\<close>.
\<close>

theorem month_advance_clamps:
  assumes "int from \<le> i64_max" and "cal_split cal (int from) = Some (y, m, d, secs)" and "1 \<le> m" and "m \<le> 12"
    and "0 \<le> y" and "y + int months < 2147483646"
    and "i = month_index y m + int months" and "y' = i div 12" and "m' = nat (i mod 12) + 1"
    and "cal_days cal y' m' 1 = Some a"
    and "cal_days cal ((i + 1) div 12) (nat ((i + 1) mod 12) + 1) 1 = Some (a + int len)" and "len \<le> 31"
    and "cal_days cal y' m' (min d len) = Some n" and "0 \<le> n"
  shows "add_months cal from months = Ok (nat (n * 86400) + secs)"
proof -
  have ym: "y' = (if m + months mod 12 > 12 then y + 1 else y) + int (months div 12)"
    "m' = (if m + months mod 12 > 12 then m + months mod 12 - 12 else m + months mod 12)"
    using month_carry [OF assms(3,4), of y months] assms(7-9) by auto
  have m': "1 \<le> m'" "m' \<le> 12" using assms(9) by auto
  have i: "i = month_index y' m'"
    using assms(8,9) by (simp add: month_index_def)
  have div: "int (months div 12) \<le> int months" by simp
  then have y': "y' + 1 \<le> 2147483647" "0 \<le> y'" using ym(1) assms(5,6) by (auto split: if_splits)
  have next_m: "(i + 1) div 12 = (if m' = 12 then y' + 1 else y')" "nat ((i + 1) mod 12) + 1 = (if m' = 12 then 1 else m' + 1)"
    using month_carry [OF m', of y' 1] m' unfolding i by auto
  have "days_in_month cal y' m' = Ok len"
    using assms(10-12) y' unfolding next_m
    by (cases "m' = 12") (auto simp: days_in_month_def i32_val_def Let_def)
  moreover have "i32_val (y + 1) = (Ok (y + 1) :: (int, sub_error) result)" using assms(5,6) by (simp add: i32_val_def)
  moreover have "i32_val y' = (Ok y' :: (int, sub_error) result)" using y' by (simp add: i32_val_def)
  moreover have "months div 12 \<le> 2147483647" using div assms(5,6) by linarith
  moreover have "nat (n * 86400 + int secs) = nat (n * 86400) + secs" "0 \<le> n * 86400 + int secs" using assms(14) by auto
  ultimately show ?thesis using assms(1,2,13) m'
    by (auto simp: add_months_def Let_def ym [symmetric] split: if_splits)
       (auto simp: ym)
qed

text \<open>
  Subscription creation is idempotent on the external id.  In a store whose index is consistent,
  once a subscription was created under an external id and moved on by calls of the state machine,
  re-creating under that id leaves the store unchanged; it returns the first id exactly when
  customer, plan, price, interval and count agree, and \<open>IdempotencyMismatch\<close> otherwise.
\<close>

theorem subscription_create_idempotent:
  assumes ok: "index_ok sub_id sub_external_id (ss_subs st) (ss_by_external_id st)"
    and fresh: "hm_get (ss_subs st) (sub_id s) = None"
    and created: "create_subscription st s = (st1, Ok i)" and e: "sub_external_id s = Some e"
    and updated: "update_subscription st1 i f = (st2, Ok s')" and f: "\<forall>x y. f x = Ok y \<longrightarrow> sub_step cal x y"
    and e2: "sub_external_id s2 = Some e"
  shows "create_subscription st2 s2 =
    (st2, if sub_bodies_equivalent s s2 then Ok i else Err (SubIdempotencyMismatch e))"
proof -
  from subs.create_Ok_row [OF ok fresh created e] obtain q
    where q: "hm_get (ss_subs st1) i = Some q" "hm_get (ss_by_external_id st1) e = Some i"
      "q = s \<or> sub_bodies_equivalent q s" by blast
  from subs.update_OkE [OF updated] q(1)
  have u: "f q = Ok s'" "ss_subs st2 = hm_insert i s' (ss_subs st1)" "ss_by_external_id st2 = ss_by_external_id st1"
    by auto
  have "sub_step cal q s'" using f u(1) by blast
  from sub_step_keeps [OF this] q(3) have "sub_bodies_equivalent s' s2 \<longleftrightarrow> sub_bodies_equivalent s s2"
    by (auto simp: sub_bodies_equivalent_def)
  with subs.create_hit [of s2 e st2 i s'] u q e2 show ?thesis by simp
qed

section \<open>Concrete runs\<close>

abbreviation sample_plan :: "nat option \<Rightarrow> plan" where
  "sample_plan t \<equiv> \<lparr>pl_id = 3, pl_name = ''pro'', pl_amount = from_minor 3000 USD, pl_interval = Week, pl_interval_count = 1,
     pl_trial_days = t, pl_metadata = []\<rparr>"

abbreviation sample_sub :: "string option \<Rightarrow> sub_status \<Rightarrow> bool \<Rightarrow> subscription" where
  "sample_sub e st c \<equiv> \<lparr>sub_id = 1, sub_external_id = e, sub_customer_ref = ''c'', sub_plan = sample_plan None,
     sub_method = Qr ''t'', sub_status = st, sub_period_start = 0, sub_period_end = 604800,
     sub_cancel_at_period_end = c, sub_metadata = []\<rparr>"

text \<open>31 January 2023, 12:00, on the three day numbers a step of one month needs.\<close>

definition sample_calendar :: calendar where
  "sample_calendar =
     \<lparr>cal_split = (\<lambda>t. if t = 1675166400 then Some (2023, 1, 31, 43200) else None),
      cal_days = (\<lambda>y m d. if (y, m, d) = (2023, 2, 1) then Some 19389 else if (y, m, d) = (2023, 2, 28) then Some 19416
                   else if (y, m, d) = (2023, 3, 1) then Some 19417 else None)\<rparr>"

theorem subscription_lifecycle_witness:
  "sub_plan (cancel_now (sample_sub None Active False) 5) = sample_plan None
   \<and> sub_is_terminal (sub_status (schedule_cancel_at_period_end (cancel_now (sample_sub None Active False) 5)))"
proof -
  let ?s = "sample_sub None Active False" and ?c = sample_calendar
  have "(sub_step ?c)\<^sup>*\<^sup>* ?s (cancel_now ?s 5)" by (rule r_into_rtranclp) (rule ss_cancel)
  moreover have "(sub_step ?c)\<^sup>*\<^sup>* (cancel_now ?s 5) (schedule_cancel_at_period_end (cancel_now ?s 5))"
    by (rule r_into_rtranclp) (rule ss_schedule)
  ultimately show ?thesis
    using subscription_lifecycle [of ?c ?s "cancel_now ?s 5"]
      subscription_lifecycle [of ?c "cancel_now ?s 5" "schedule_cancel_at_period_end (cancel_now ?s 5)"]
    by (simp add: cancel_now_def)
qed

theorem billing_catches_up_witness:
  "tick_n sample_calendar 3 (sample_sub None Active False) 2000000 = Ok (rolled (sample_sub None Active False) 604800 3)
   \<and> tick sample_calendar (rolled (sample_sub None Active False) 604800 1) 2000000 = Ok (rolled (sample_sub None Active False) 604800 2, PeriodRollover)"
proof -
  let ?s = "sample_sub None Active False"
  have 1: "sub_status ?s = Active \<or> (\<exists>f r. sub_status ?s = PastDue f r)" "\<not> sub_cancel_at_period_end ?s"
    "fixed_len (sub_plan ?s) = Some 604800" "(0 :: nat) < 604800" "sub_period_end ?s \<le> 2000000"
    "(2000000 :: nat) + 604800 \<le> u64_max" "2 = (2000000 - sub_period_end ?s) div 604800"
    by simp_all
  have 2: "Suc 2 = 3" "Suc 1 = 2" "(1 :: nat) \<le> 2" by simp_all
  from billing_catches_up [OF 1, of sample_calendar] 2 show ?thesis by metis
qed

theorem scheduled_cancel_honoured_witness:
  "\<exists>s'. tick sample_calendar (sample_sub None Active True) 700000 = Ok (s', CancelAtPeriodEnd) \<and> sub_status s' = Canceled 700000"
  using scheduled_cancel_honoured [of "sample_sub None Active True" 700000 sample_calendar] by auto

theorem proration_bounds_witness:
  "\<exists>c. credit_remaining (sample_sub None Active False) 302400 = Ok (from_minor c USD) \<and> 0 \<le> c \<and> c \<le> 3000"
proof -
  let ?s = "sample_sub None Active False"
  have 1: "sub_period_start ?s \<le> 302400" "(302400 :: nat) \<le> 302401" "302401 < sub_period_end ?s"
    "pl_amount (sub_plan ?s) = from_minor 3000 USD" "(0 :: int) \<le> 3000" "(3000 :: int) \<le> i64_max"
    by simp_all
  from proration_bounds [OF 1, of 5000] show ?thesis by auto
qed

theorem aggressive_retries_all_due_witness:
  "decide aggressive_daily 6 1000 87400 = Ok RetryNow"
  using aggressive_retries_all_due [of 1000 87400] by simp

theorem month_advance_clamps_witness: "add_months sample_calendar 1675166400 1 = Ok (19416 * 86400 + 43200)"
proof -
  have 1: "int 1675166400 \<le> i64_max" "cal_split sample_calendar (int 1675166400) = Some (2023, 1, 31, 43200)"
    by (simp_all add: sample_calendar_def)
  have 2: "(1 :: nat) \<le> 1" "(1 :: nat) \<le> 12" "(0 :: int) \<le> 2023" "(2023 :: int) + int 1 < 2147483646" by simp_all
  have 3: "24277 = month_index 2023 1 + int 1" "(2023 :: int) = 24277 div 12" "2 = nat ((24277 :: int) mod 12) + 1"
    by (simp_all add: month_index_def)
  have 4: "cal_days sample_calendar 2023 2 1 = Some 19389"
    "cal_days sample_calendar ((24277 + 1) div 12) (nat ((24277 + 1) mod 12) + 1) 1 = Some (19389 + int 28)" "(28 :: nat) \<le> 31"
    "cal_days sample_calendar 2023 2 (min 31 28) = Some 19416" "(0 :: int) \<le> 19416"
    by (simp_all add: sample_calendar_def)
  from month_advance_clamps [OF 1 2 3 4] show ?thesis by simp
qed

theorem subscription_create_idempotent_witness:
  "let st1 = fst (create_subscription sub_store_new (sample_sub (Some ''e'') Active False));
       st2 = fst (update_subscription st1 1 (\<lambda>s. pause s 9))
   in create_subscription st2 (sample_sub (Some ''e'') Active False\<lparr>sub_id := 9\<rparr>) = (st2, Ok 1)"
proof -
  let ?s = "sample_sub (Some ''e'') Active False"
  let ?st1 = "fst (create_subscription sub_store_new ?s)"
  let ?st2 = "fst (update_subscription ?st1 1 (\<lambda>s. pause s 9))"
  have ok: "subs.ok sub_store_new" by (simp add: sub_store_new_def index_ok_empty)
  have fr: "hm_get (ss_subs sub_store_new) (sub_id ?s) = None" by (simp add: sub_store_new_def)
  have c: "create_subscription sub_store_new ?s = (?st1, Ok 1)" by (simp add: create_subscription_def sub_store_new_def)
  have u: "update_subscription ?st1 1 (\<lambda>s. pause s 9) = (?st2, Ok (sample_sub (Some ''e'') (Paused 9) False))"
    by (simp add: create_subscription_def update_subscription_def sub_store_new_def pause_def)
  have f: "\<forall>x y. pause x 9 = Ok y \<longrightarrow> sub_step sample_calendar x y" by (auto intro: ss_pause)
  from subscription_create_idempotent [OF ok fr c _ u f, of "''e''" "?s\<lparr>sub_id := 9\<rparr>"]
  show ?thesis by (simp add: Let_def sub_bodies_equivalent_def del: One_nat_def)
qed

end
