(* ===== verification/Circuit_Breaker.thy ===== *)
theory Circuit_Breaker
  imports Payment Hash_Map
begin

text \<open>
  \<^verbatim>\<open>op-orchestrator/src/circuit_breaker.rs\<close>: the in-memory circuit breaker per rail and driver, and its state as a function of
  the history of reported calls.
\<close>

section \<open>Circuit breaker\<close>

datatype circuit_state = CircuitClosed | CircuitOpen nat | HalfOpen

record breaker_state =
  bs_consecutive_failures :: nat
  bs_open_until :: "nat option"

definition breaker_default :: breaker_state where
  "breaker_default = \<lparr>bs_consecutive_failures = 0, bs_open_until = None\<rparr>"

type_synonym breaker_key = "rail_kind \<times> string"

record breaker =
  cb_inner :: "(breaker_key, breaker_state) hashmap"
  cb_failure_threshold :: nat
  cb_cooldown_secs :: nat

definition breaker_new :: breaker where
  "breaker_new = \<lparr>cb_inner = [], cb_failure_threshold = 5, cb_cooldown_secs = 60\<rparr>"

definition with_threshold :: "breaker \<Rightarrow> nat \<Rightarrow> breaker" where
  "with_threshold b t = b\<lparr>cb_failure_threshold := t\<rparr>"

definition with_cooldown :: "breaker \<Rightarrow> nat \<Rightarrow> breaker" where
  "with_cooldown b c = b\<lparr>cb_cooldown_secs := c\<rparr>"

text \<open>\<^verbatim>\<open>entry(key).or_default()\<close>.\<close>

definition or_default :: "breaker \<Rightarrow> breaker_key \<Rightarrow> breaker_state" where
  "or_default b k = (case hm_get (cb_inner b) k of None \<Rightarrow> breaker_default | Some s \<Rightarrow> s)"

definition circuit_state_of :: "breaker \<Rightarrow> rail_kind \<Rightarrow> string \<Rightarrow> nat \<Rightarrow> circuit_state" where
  "circuit_state_of b rl driver now =
     (case hm_get (cb_inner b) (rl, driver) of
        None \<Rightarrow> CircuitClosed
      | Some s \<Rightarrow>
          (case bs_open_until s of
             None \<Rightarrow> CircuitClosed
           | Some t \<Rightarrow> if now < t then CircuitOpen t else HalfOpen))"

definition allow :: "breaker \<Rightarrow> rail_kind \<Rightarrow> string \<Rightarrow> nat \<Rightarrow> bool" where
  "allow b rl driver now = (case circuit_state_of b rl driver now of CircuitOpen _ \<Rightarrow> False | _ \<Rightarrow> True)"

definition record_success :: "breaker \<Rightarrow> rail_kind \<Rightarrow> string \<Rightarrow> breaker" where
  "record_success b rl driver =
     b\<lparr>cb_inner := hm_insert (rl, driver)
         ((or_default b (rl, driver))\<lparr>bs_consecutive_failures := 0, bs_open_until := None\<rparr>) (cb_inner b)\<rparr>"

definition record_failure :: "breaker \<Rightarrow> rail_kind \<Rightarrow> string \<Rightarrow> nat \<Rightarrow> breaker" where
  "record_failure b rl driver now =
     (let s = or_default b (rl, driver);
          s = s\<lparr>bs_consecutive_failures := u32_saturating_add (bs_consecutive_failures s) 1\<rparr>;
          s = (if bs_consecutive_failures s \<ge> cb_failure_threshold b
               then s\<lparr>bs_open_until := Some (u64_saturating_add now (cb_cooldown_secs b))\<rparr> else s)
      in b\<lparr>cb_inner := hm_insert (rl, driver) s (cb_inner b)\<rparr>)"

section \<open>The breaker against its event history\<close>

text \<open>What callers report to a breaker, and the failures of one pair since its last success, oldest first.\<close>

datatype breaker_event = Succeeded rail_kind string | FailedAt rail_kind string nat

fun apply_event :: "breaker_event \<Rightarrow> breaker \<Rightarrow> breaker" where
  "apply_event (Succeeded rl d) b = record_success b rl d"
| "apply_event (FailedAt rl d t) b = record_failure b rl d t"

fun note_event :: "breaker_key \<Rightarrow> breaker_event \<Rightarrow> nat list \<Rightarrow> nat list" where
  "note_event k (Succeeded rl d) ts = (if k = (rl, d) then [] else ts)"
| "note_event k (FailedAt rl d t) ts = (if k = (rl, d) then ts @ [t] else ts)"

definition recent_failures :: "breaker_key \<Rightarrow> breaker_event list \<Rightarrow> nat list" where
  "recent_failures k es = fold (note_event k) es []"

definition breaker_spec :: "nat \<Rightarrow> nat \<Rightarrow> nat list \<Rightarrow> nat \<Rightarrow> circuit_state" where
  "breaker_spec threshold cooldown ts now =
     (if ts = [] \<or> length ts < threshold then CircuitClosed
      else let t = u64_saturating_add (List.last ts) cooldown in if now < t then CircuitOpen t else HalfOpen)"

definition tracks :: "breaker_event list \<Rightarrow> breaker \<Rightarrow> bool" where
  "tracks es b \<longleftrightarrow> (\<forall>k. let ts = recent_failures k es; s = or_default b k in
     bs_consecutive_failures s = min (length ts) u32_max
     \<and> bs_open_until s = (if ts = [] \<or> length ts < cb_failure_threshold b then None
                          else Some (u64_saturating_add (List.last ts) (cb_cooldown_secs b))))"

lemma apply_event_config [simp]:
  "cb_failure_threshold (apply_event e b) = cb_failure_threshold b"
  "cb_cooldown_secs (apply_event e b) = cb_cooldown_secs b"
  by (cases e; simp add: record_success_def record_failure_def Let_def)+

lemma fold_apply_config [simp]:
  "cb_failure_threshold (fold apply_event es b) = cb_failure_threshold b"
  "cb_cooldown_secs (fold apply_event es b) = cb_cooldown_secs b"
  by (induction es arbitrary: b) simp_all

lemma recent_failures_snoc [simp]: "recent_failures k (es @ [e]) = note_event k e (recent_failures k es)"
  by (simp add: recent_failures_def)

lemma or_default_insert:
  "or_default (b\<lparr>cb_inner := hm_insert k v m\<rparr>) k' = (if k' = k then v else or_default (b\<lparr>cb_inner := m\<rparr>) k')"
  by (simp add: or_default_def)

lemma tracks_step:
  assumes "tracks es b" and "cb_failure_threshold b \<le> u32_max"
  shows "tracks (es @ [e]) (apply_event e b)"
  using assms
  by (cases e)
    (auto simp: tracks_def Let_def record_success_def record_failure_def or_default_insert u32_saturating_add_def
      split: if_splits)

lemma tracks_fold:
  assumes "cb_inner b = []" and "cb_failure_threshold b \<le> u32_max"
  shows "tracks es (fold apply_event es b)"
proof (induction es rule: rev_induct)
  case Nil
  show ?case using assms(1) by (simp add: tracks_def or_default_def breaker_default_def recent_failures_def)
next
  case (snoc e es)
  then show ?case using assms(2) tracks_step by simp
qed

lemma circuit_state_or_default:
  "circuit_state_of b rl d now =
     (case bs_open_until (or_default b (rl, d)) of
        None \<Rightarrow> CircuitClosed | Some t \<Rightarrow> if now < t then CircuitOpen t else HalfOpen)"
  by (simp add: circuit_state_of_def or_default_def breaker_default_def split: option.split)

text \<open>
  C19.  Circuit breaker: after any sequence of reported successes and failures of any rails and drivers,
  the state of one pair is a function of that pair's failures since its last success alone: closed
  below the threshold, otherwise open until the last failure plus the cooldown and half-open after.
\<close>

theorem breaker_history:
  assumes "cb_inner b = []" and "cb_failure_threshold b \<le> u32_max"
  shows "circuit_state_of (fold apply_event es b) rl d now =
     breaker_spec (cb_failure_threshold b) (cb_cooldown_secs b) (recent_failures (rl, d) es) now"
proof -
  have "bs_open_until (or_default (fold apply_event es b) (rl, d)) =
     (let ts = recent_failures (rl, d) es in if ts = [] \<or> length ts < cb_failure_threshold b then None
      else Some (u64_saturating_add (List.last ts) (cb_cooldown_secs b)))"
    using tracks_fold [OF assms, of es] by (simp add: tracks_def Let_def)
  then show ?thesis by (simp add: circuit_state_or_default breaker_spec_def Let_def)
qed

theorem breaker_history_witness:
  "circuit_state_of (fold apply_event
      [FailedAt RailCard ''a'' 1, Succeeded RailCard ''a'', FailedAt RailCard ''a'' 2, FailedAt RailA2a ''a'' 3, FailedAt RailCard ''a'' 4]
      (with_cooldown (with_threshold breaker_new 2) 3)) RailCard ''a'' 6 = CircuitOpen 7"
  by (subst breaker_history)
    (simp_all add: breaker_new_def with_threshold_def with_cooldown_def breaker_spec_def recent_failures_def
      u64_saturating_add_def Let_def)

end
