(* ===== verification/Intent.thy ===== *)
theory Intent
  imports Payment
begin

text \<open>
  \<^verbatim>\<open>op-orchestrator\<close>: payment intents and their body signature (\<^verbatim>\<open>intent.rs\<close>), the outcomes of attempts and of whole
  orchestrations (\<^verbatim>\<open>outcome.rs\<close>) and the errors (\<^verbatim>\<open>error.rs\<close>).  Shown here: equal signatures mean equal amounts.
\<close>

section \<open>Intents\<close>

record routing_hints =
  rh_customer_country :: "string option"
  rh_merchant_country :: "string option"
  rh_merchant_category :: "string option"
  rh_bin_bucket :: "string option"
  rh_three_ds_enrolled :: bool
  rh_prefer_a2a :: bool

definition no_hints :: routing_hints where
  "no_hints = \<lparr>rh_customer_country = None, rh_merchant_country = None, rh_merchant_category = None, rh_bin_bucket = None,
     rh_three_ds_enrolled = False, rh_prefer_a2a = False\<rparr>"

record payment_intent =
  pi_idempotency_key :: string
  pi_amount :: money
  pi_method :: payment_method
  pi_hints :: routing_hints
  pi_metadata :: "(string \<times> string) list"

definition new_intent :: "string \<Rightarrow> money \<Rightarrow> payment_method \<Rightarrow> payment_intent" where
  "new_intent key amt meth =
     \<lparr>pi_idempotency_key = key, pi_amount = amt, pi_method = meth, pi_hints = no_hints, pi_metadata = []\<rparr>"

definition with_hints :: "payment_intent \<Rightarrow> routing_hints \<Rightarrow> payment_intent" where
  "with_hints i h = i\<lparr>pi_hints := h\<rparr>"

definition intent_with_metadata :: "payment_intent \<Rightarrow> string \<Rightarrow> string \<Rightarrow> payment_intent" where
  "intent_with_metadata i k v = i\<lparr>pi_metadata := pi_metadata i @ [(k, v)]\<rparr>"

fun a2a_key_signature :: "a2a_key \<Rightarrow> string" where
  "a2a_key_signature (Upi h) = ''upi:'' @ h"
| "a2a_key_signature (Pix h) = ''pix:'' @ h"
| "a2a_key_signature (Iban i) = ''iban:'' @ i"
| "a2a_key_signature (UsAch rt acct) = ''usach:'' @ rt @ '':'' @ acct"

fun method_signature :: "payment_method \<Rightarrow> string" where
  "method_signature (Vault v) = ''Vault:'' @ v"
| "method_signature (Wallet _) = ''Wallet:<opaque>''"
| "method_signature (Emv _) = ''Emv:<binary>''"
| "method_signature (A2a k) = ''A2a:'' @ a2a_key_signature k"
| "method_signature (Qr s) = ''Qr:'' @ s"
| "method_signature (Crypto a) = ''Crypto:'' @ chain a @ '':'' @ address a"
| "method_signature (RawPan _) = ''RawPan:<pci-scoped>''"

definition unwrap_or_empty :: "string option \<Rightarrow> string" where
  "unwrap_or_empty x = (case x of None \<Rightarrow> [] | Some s \<Rightarrow> s)"

definition body_signature :: "payment_intent \<Rightarrow> string" where
  "body_signature i =
     ''amount='' @ show_int (minor_units (pi_amount i)) @ ''|currency='' @ code (currency (pi_amount i))
     @ ''|method='' @ method_signature (pi_method i)
     @ ''|cc='' @ unwrap_or_empty (rh_customer_country (pi_hints i))
     @ ''|mc='' @ unwrap_or_empty (rh_merchant_country (pi_hints i))"

section \<open>Outcomes and errors\<close>

datatype attempt_outcome = Success | HardDecline string | SoftFailure string | RequiresAction string

datatype terminal_status = Approved | RequiresCustomerAction | Declined

record attempt =
  at_rail :: rail_kind
  at_driver :: string
  at_outcome :: attempt_outcome

record orchestration_outcome =
  oo_terminal_status :: terminal_status
  oo_attempts :: "attempt list"
  oo_rail_used :: "rail_kind option"
  oo_psp_payment_id :: "string option"
  oo_uetr :: "string option"

definition is_approved :: "orchestration_outcome \<Rightarrow> bool" where
  "is_approved out \<longleftrightarrow> oo_terminal_status out = Approved"

definition requires_customer_action :: "orchestration_outcome \<Rightarrow> bool" where
  "requires_customer_action out \<longleftrightarrow> oo_terminal_status out = RequiresCustomerAction"

definition is_declined :: "orchestration_outcome \<Rightarrow> bool" where
  "is_declined out \<longleftrightarrow> oo_terminal_status out = Declined"

definition attempt_count :: "orchestration_outcome \<Rightarrow> nat" where
  "attempt_count out = length (oo_attempts out)"

text \<open>The variants that wrap errors of other crates come only out of the fraud step, a parameter here.\<close>

datatype orch_error =
    FraudDeclined string
  | FraudReviewRequired string
  | NoEligibleRail string
  | AllRailsExhausted nat
  | OrchIdempotencyMismatch
  | AllCircuitsOpen
  | OrchInner string

datatype attempt_result_class = ClassApproved | ClassSoftFailure | ClassHardFailure

fun classify_attempt :: "attempt_outcome \<Rightarrow> attempt_result_class" where
  "classify_attempt Success = ClassApproved"
| "classify_attempt (RequiresAction _) = ClassApproved"
| "classify_attempt (SoftFailure _) = ClassSoftFailure"
| "classify_attempt (HardDecline _) = ClassHardFailure"

fun is_failure :: "attempt_result_class \<Rightarrow> bool" where
  "is_failure ClassApproved = False"
| "is_failure _ = True"

fun implied_rail :: "payment_method \<Rightarrow> rail_kind" where
  "implied_rail (Vault _) = RailCard"
| "implied_rail (Wallet _) = RailCard"
| "implied_rail (Emv _) = RailCard"
| "implied_rail (A2a _) = RailA2a"
| "implied_rail (Qr _) = RailA2a"
| "implied_rail (Crypto _) = RailCrypto"
| "implied_rail (RawPan _) = RailCard"

section \<open>Signatures\<close>

lemma show_int_chars: "c \<in> set (show_int x) \<Longrightarrow> c = CHR ''-'' \<or> (\<exists>d < 10. c = digit_char d)"
  using show_nat_digits by (auto simp: show_int_def split: if_splits)

lemma bar_not_in_show_int: "CHR ''|'' \<notin> set (show_int x)"
proof
  assume "CHR ''|'' \<in> set (show_int x)"
  then obtain d where "d < 10" "CHR ''|'' = digit_char d" using show_int_chars by blast
  then have "(of_char (CHR ''|'') :: nat) = 48 + d" by (simp add: digit_char_def)
  with \<open>d < 10\<close> show False by simp
qed

lemma code_length [simp]: "length (code c) = 3"
  by (simp add: code_def code_bytes_def split: prod.split)

lemma signature_amount:
  assumes "body_signature i = body_signature j"
  shows "minor_units (pi_amount i) = minor_units (pi_amount j) \<and> code (currency (pi_amount i)) = code (currency (pi_amount j))"
proof -
  have "show_int (minor_units (pi_amount i)) = show_int (minor_units (pi_amount j))"
    and "code (currency (pi_amount i)) = code (currency (pi_amount j))"
    using assms by (auto simp: body_signature_def append_sep_eq bar_not_in_show_int append_eq_append_conv)
  then show ?thesis by (simp add: show_int_inj)
qed

end
