(* ===== verification/Idempotency.thy ===== *)
theory Idempotency
  imports Intent Hash_Map
begin

text \<open>
  \<^verbatim>\<open>op-orchestrator/src/idempotency.rs\<close>: the in-memory idempotency store, and the contract of the store as the locale
  \<open>idempotency_backend\<close> that the engine's proofs rest on.
\<close>

section \<open>Idempotency store\<close>

record idempotency_record =
  ir_body_signature :: string
  ir_outcome :: "orchestration_outcome option"

type_synonym idempotency_store = "(string, idempotency_record) hashmap"

definition reserve :: "idempotency_store \<Rightarrow> string \<Rightarrow> string \<Rightarrow> idempotency_store \<times> idempotency_record option" where
  "reserve m key sig =
     (case hm_get m key of
        Some existing \<Rightarrow> (m, Some existing)
      | None \<Rightarrow> (hm_insert key \<lparr>ir_body_signature = sig, ir_outcome = None\<rparr> m, None))"

definition commit :: "idempotency_store \<Rightarrow> string \<Rightarrow> orchestration_outcome \<Rightarrow> idempotency_store" where
  "commit m key out =
     (case hm_get m key of
        Some rec \<Rightarrow> hm_insert key (rec\<lparr>ir_outcome := Some out\<rparr>) m
      | None \<Rightarrow> hm_insert key \<lparr>ir_body_signature = [], ir_outcome = Some out\<rparr> m)"

definition release :: "idempotency_store \<Rightarrow> string \<Rightarrow> idempotency_store" where
  "release m key =
     (case hm_get m key of
        Some rec \<Rightarrow> if ir_outcome rec = None then hm_remove key m else m
      | None \<Rightarrow> m)"

section \<open>The idempotency contract\<close>

text \<open>The laws of the trait \<^verbatim>\<open>IdempotencyStore\<close>, as its users see them through \<open>look\<close>.\<close>

locale idempotency_backend =
  fixes look :: "'m \<Rightarrow> string \<Rightarrow> idempotency_record option"
    and res :: "'m \<Rightarrow> string \<Rightarrow> string \<Rightarrow> 'm \<times> idempotency_record option"
    and com :: "'m \<Rightarrow> string \<Rightarrow> orchestration_outcome \<Rightarrow> 'm"
    and rel :: "'m \<Rightarrow> string \<Rightarrow> 'm"
  assumes reserve_reports: "snd (res m k sig) = look m k"
    and reserve_occupied: "look m k \<noteq> None \<Longrightarrow> fst (res m k sig) = m"
    and reserve_free: "look m k = None \<Longrightarrow>
          look (fst (res m k sig)) = (look m)(k \<mapsto> \<lparr>ir_body_signature = sig, ir_outcome = None\<rparr>)"
    and commit_reserved: "look m k = Some r \<Longrightarrow> look (com m k out) = (look m)(k \<mapsto> r\<lparr>ir_outcome := Some out\<rparr>)"
    and commit_unreserved: "look m k = None \<Longrightarrow>
          look (com m k out) = (look m)(k \<mapsto> \<lparr>ir_body_signature = [], ir_outcome = Some out\<rparr>)"
    and release_pending: "look m k = Some r \<Longrightarrow> ir_outcome r = None \<Longrightarrow> look (rel m k) = (look m)(k := None)"
    and release_settled: "look m k = Some r \<Longrightarrow> ir_outcome r = Some out \<Longrightarrow> rel m k = m"
begin

lemma reserve_commit:
  "look m k = None \<Longrightarrow>
   look (com (fst (res m k sig)) k out) = (look m)(k \<mapsto> \<lparr>ir_body_signature = sig, ir_outcome = Some out\<rparr>)"
  by (simp add: commit_reserved reserve_free)

lemma reserve_release: "look m k = None \<Longrightarrow> look (rel (fst (res m k sig)) k) = look m"
  by (auto simp: release_pending reserve_free)

lemma recorded_kept: "look m k = Some r \<Longrightarrow> look (fst (res m k' sig)) k = Some r"
  by (cases "look m k'") (auto simp: reserve_free reserve_occupied)

end

interpretation mem: idempotency_backend hm_get reserve commit release
  by unfold_locales (auto simp: reserve_def commit_def release_def split: option.split)

end
