(* ===== verification/Router.thy ===== *)
theory Router
  imports Intent "HOL-Library.Multiset"
begin

text \<open>
  \<^verbatim>\<open>op-orchestrator/src/router.rs\<close>: the policy router and the chain of drivers it returns.
\<close>

section \<open>Router\<close>

record rail_choice =
  rc_rail :: rail_kind
  rc_driver :: string

text \<open>\<open>pr_noise\<close> is the combined score \<^verbatim>\<open>combiner.combine(signals, ..)\<close> of the configured signal source, a
  number type with a total order (scores are never NaN).\<close>

record 'n policy_router =
  pr_card_drivers :: "string list"
  pr_a2a_drivers :: "string list"
  pr_crypto_drivers :: "string list"
  pr_a2a_above_minor_units :: "int option"
  pr_noise :: "(rail_kind \<Rightarrow> string \<Rightarrow> 'n) option"

definition router_new :: "string list \<Rightarrow> string list \<Rightarrow> 'n policy_router" where
  "router_new cards a2as = \<lparr>pr_card_drivers = cards, pr_a2a_drivers = a2as, pr_crypto_drivers = [], pr_a2a_above_minor_units = None, pr_noise = None\<rparr>"

definition router_default :: "'n policy_router" where
  "router_default = \<lparr>pr_card_drivers = [''hyperswitch''], pr_a2a_drivers = [''fednow''], pr_crypto_drivers = [],
     pr_a2a_above_minor_units = None, pr_noise = None\<rparr>"

definition with_crypto_drivers :: "'n policy_router \<Rightarrow> string list \<Rightarrow> 'n policy_router" where
  "with_crypto_drivers pr ds = pr\<lparr>pr_crypto_drivers := ds\<rparr>"

definition with_a2a_above :: "'n policy_router \<Rightarrow> int \<Rightarrow> 'n policy_router" where
  "with_a2a_above pr t = pr\<lparr>pr_a2a_above_minor_units := Some t\<rparr>"

definition with_signals :: "'n policy_router \<Rightarrow> (rail_kind \<Rightarrow> string \<Rightarrow> 'n) \<Rightarrow> 'n policy_router" where
  "with_signals pr noise = pr\<lparr>pr_noise := Some noise\<rparr>"

fun method_supports :: "payment_method \<Rightarrow> rail_kind \<Rightarrow> bool" where
  "method_supports (Vault _) RailCard = True"
| "method_supports (Wallet _) RailCard = True"
| "method_supports (Emv _) RailCard = True"
| "method_supports (A2a _) RailA2a = True"
| "method_supports (Qr _) RailA2a = True"
| "method_supports (Crypto _) RailCrypto = True"
| "method_supports _ _ = False"

definition rail_order :: "'n policy_router \<Rightarrow> payment_intent \<Rightarrow> rail_kind option \<times> rail_kind option" where
  "rail_order pr i =
     (if (case pi_method i of Crypto _ \<Rightarrow> True | _ \<Rightarrow> False) then (Some RailCrypto, None)
      else let card_compat = method_supports (pi_method i) RailCard;
               a2a_compat = method_supports (pi_method i) RailA2a
        in if \<not> card_compat \<and> \<not> a2a_compat then (None, None)
           else if card_compat \<and> \<not> a2a_compat then (Some RailCard, None)
           else if \<not> card_compat \<and> a2a_compat then (Some RailA2a, None)
           else let prefer_a2a = (rh_prefer_a2a (pi_hints i)
                    \<or> (case pr_a2a_above_minor_units pr of Some t \<Rightarrow> minor_units (pi_amount i) \<ge> t | None \<Rightarrow> False))
             in if prefer_a2a then (Some RailA2a, Some RailCard) else (Some RailCard, Some RailA2a))"

fun drivers_for :: "'n policy_router \<Rightarrow> rail_kind \<Rightarrow> string list" where
  "drivers_for pr RailCard = pr_card_drivers pr"
| "drivers_for pr RailWallet = pr_card_drivers pr"
| "drivers_for pr RailA2a = pr_a2a_drivers pr"
| "drivers_for pr RailQr = pr_a2a_drivers pr"
| "drivers_for pr RailCrypto = pr_crypto_drivers pr"

text \<open>The closure \<^verbatim>\<open>push_for\<close>: a sort by score that is stable by original index.\<close>

definition choices_for :: "('n :: linorder) policy_router \<Rightarrow> rail_kind \<Rightarrow> rail_choice list" where
  "choices_for pr rl =
     map (\<lambda>d. \<lparr>rc_rail = rl, rc_driver = d\<rparr>)
       (case pr_noise pr of None \<Rightarrow> drivers_for pr rl | Some noise \<Rightarrow> sort_key (noise rl) (drivers_for pr rl))"

text \<open>\<open>dbg\<close> is the \<^verbatim>\<open>Debug\<close> rendering of a payment method.\<close>

definition route ::
  "(payment_method \<Rightarrow> string) \<Rightarrow> ('n :: linorder) policy_router \<Rightarrow> payment_intent \<Rightarrow> (rail_choice list, string) result" where
  "route dbg pr i =
     (let (primary, secondary) = rail_order pr i;
          chn = (case primary of None \<Rightarrow> [] | Some p \<Rightarrow> choices_for pr p)
                  @ (case secondary of None \<Rightarrow> [] | Some r \<Rightarrow> choices_for pr r)
      in if chn = [] then Err (''no rail compatible with payment method '' @ dbg (pi_method i)) else Ok chn)"

section \<open>Routing\<close>

text \<open>The drivers configured for the one rail a method supports; a raw card number supports none.\<close>

definition eligible_drivers :: "'n policy_router \<Rightarrow> payment_method \<Rightarrow> string list" where
  "eligible_drivers pr meth = (case meth of RawPan _ \<Rightarrow> [] | _ \<Rightarrow> drivers_for pr (implied_rail meth))"

lemma rail_order_implied:
  "rail_order pr i = (case pi_method i of RawPan _ \<Rightarrow> (None, None) | meth \<Rightarrow> (Some (implied_rail meth), None))"
  by (cases "pi_method i") (simp_all add: rail_order_def)

lemma method_supports_implied:
  "method_supports meth rl \<longleftrightarrow> rl = implied_rail meth \<and> (case meth of RawPan _ \<Rightarrow> False | _ \<Rightarrow> True)"
  by (cases meth; cases rl) simp_all

lemma choices_for_drivers:
  "map rc_driver (choices_for pr rl) =
     (case pr_noise pr of None \<Rightarrow> drivers_for pr rl | Some noise \<Rightarrow> sort_key (noise rl) (drivers_for pr rl))"
  by (simp add: choices_for_def comp_def)

lemma choices_for_Nil [simp]: "choices_for pr rl = [] \<longleftrightarrow> drivers_for pr rl = []"
  by (auto simp: choices_for_def split: option.split) (metis length_0_conv length_sort)

lemma choices_for_set: "c \<in> set (choices_for pr rl) \<Longrightarrow> rc_rail c = rl \<and> rc_driver c \<in> set (drivers_for pr rl)"
  by (auto simp: choices_for_def split: option.splits)

lemma route_eq:
  "route dbg pr i =
     (if eligible_drivers pr (pi_method i) = [] then Err (''no rail compatible with payment method '' @ dbg (pi_method i))
      else Ok (choices_for pr (implied_rail (pi_method i))))"
  by (cases "pi_method i") (simp_all add: route_def rail_order_implied eligible_drivers_def)

lemma route_Ok_supports:
  "route dbg pr i = Ok cs \<Longrightarrow> cs = choices_for pr (implied_rail (pi_method i))
     \<and> method_supports (pi_method i) (implied_rail (pi_method i))
     \<and> eligible_drivers pr (pi_method i) = drivers_for pr (implied_rail (pi_method i)) \<and> cs \<noteq> []"
  by (cases "pi_method i") (auto simp: route_eq eligible_drivers_def split: if_splits)

text \<open>
  The policy router's chain, when there is one, holds exactly the drivers configured for the one rail the
  payment method supports; so the customer's preference, the amount threshold and the countries never change it.
  With signals the chain is ordered by rising score, and drivers of equal score keep their configured order.
\<close>

theorem route_single_rail:
  assumes "route dbg pr i = Ok cs"
  shows "cs \<noteq> [] \<and> list_all (\<lambda>c. method_supports (pi_method i) (rc_rail c)) cs
     \<and> mset (map rc_driver cs) = mset (eligible_drivers pr (pi_method i))
     \<and> (case pr_noise pr of
          None \<Rightarrow> map rc_driver cs = eligible_drivers pr (pi_method i)
        | Some noise \<Rightarrow> sorted (map (noise (implied_rail (pi_method i))) (map rc_driver cs))
            \<and> filter (\<lambda>d. noise (implied_rail (pi_method i)) d = x) (map rc_driver cs) =
              filter (\<lambda>d. noise (implied_rail (pi_method i)) d = x) (eligible_drivers pr (pi_method i)))"
proof -
  note r = route_Ok_supports [OF assms]
  have "list_all (\<lambda>c. method_supports (pi_method i) (rc_rail c)) cs"
    using r choices_for_set by (fastforce simp: list_all_iff)
  moreover have "cs \<noteq> []" using r by blast
  moreover have "map rc_driver cs =
     (case pr_noise pr of None \<Rightarrow> eligible_drivers pr (pi_method i)
      | Some noise \<Rightarrow> sort_key (noise (implied_rail (pi_method i))) (eligible_drivers pr (pi_method i)))"
    using r choices_for_drivers [of pr "implied_rail (pi_method i)"] by metis
  ultimately show ?thesis by (simp add: sort_key_stable del: map_map split: option.split)
qed

theorem route_single_rail_witness:
  "\<exists>cs. route (\<lambda>_. []) (with_signals (router_new [''a'', ''b'', ''c''] []) (\<lambda>_ d. if d = ''a'' then 2 else (1 :: nat)))
       (new_intent ''k'' (from_minor 1 USD) (Vault ''t'')) = Ok cs \<and> map rc_driver cs = [''b'', ''c'', ''a'']
     \<and> list_all (\<lambda>c. rc_rail c = RailCard) cs"
proof -
  let ?pr = "with_signals (router_new [''a'', ''b'', ''c''] []) (\<lambda>_ d. if d = ''a'' then 2 else (1 :: nat))"
  let ?i = "new_intent ''k'' (from_minor 1 USD) (Vault ''t'')"
  obtain cs where cs: "route (\<lambda>_. []) ?pr ?i = Ok cs" "map rc_driver cs = [''b'', ''c'', ''a'']"
    by (simp add: route_eq eligible_drivers_def choices_for_def with_signals_def router_new_def new_intent_def)
  with route_single_rail [OF cs(1)] show ?thesis
    by (auto simp: method_supports_implied new_intent_def)
qed

end
