(* ===== verification/Orchestrator.thy ===== *)
theory Orchestrator
  imports Circuit_Breaker Idempotency Router "HOL-Library.Sublist"
begin

text \<open>
  \<^verbatim>\<open>op-orchestrator/src/engine.rs\<close>: the engine, which screens an intent for fraud, routes it and tries the drivers of the
  chain in turn, under an idempotency key and the circuit breaker.

  What the engine only calls through trait objects or closures is a field of \<open>orchestrator\<close>: the router, the
  fraud scorer with its thresholds, the clock, the telemetry sink and the rail adapters.
  Adapters, clock and telemetry may do anything to the outside world, a value of type \<open>'w\<close>
  that is passed through every such call; so an adapter may answer differently each time.
  The router and the scorer are functions of the intent: one with state of its own is outside the model.
  The store and the breaker are the in-memory ones.
\<close>

section \<open>Engine\<close>

record backoff_policy =
  bp_initial :: nat
  bp_multiplier :: nat
  bp_max_delay :: nat

definition backoff_default :: backoff_policy where
  "backoff_default = \<lparr>bp_initial = 1, bp_multiplier = 2, bp_max_delay = 30\<rparr>"

definition delay_for :: "backoff_policy \<Rightarrow> nat \<Rightarrow> nat" where
  "delay_for p n =
     (let factor = min (bp_multiplier p ^ (n mod 4294967296)) u64_max
      in min (min (bp_initial p * factor) u64_max) (bp_max_delay p))"

record adapter_result =
  ar_outcome :: attempt_outcome
  ar_psp_payment_id :: "string option"
  ar_uetr :: "string option"

text \<open>The default body of \<^verbatim>\<open>RailAdapter::resume\<close>.\<close>

definition resume_not_supported :: adapter_result where
  "resume_not_supported = \<lparr>ar_outcome = SoftFailure ''resume_not_supported'', ar_psp_payment_id = None, ar_uetr = None\<rparr>"

datatype fraud_decision = FraudApprove | FraudReview | FraudDecline | FraudFreeze

record 'w adapter =
  ad_attempt :: "'w \<Rightarrow> payment_intent \<Rightarrow> nat \<Rightarrow> 'w \<times> adapter_result"
  ad_resume :: "'w \<Rightarrow> payment_intent \<Rightarrow> string \<Rightarrow> 'w \<times> adapter_result"

text \<open>\<open>or_scorer\<close> stands for feature extraction, scoring and thresholds on an intent and its implied rail: it
  yields the score as rendered and the decision, or an inner error.  \<open>or_elapsed\<close> is the monotonic clock's
  time, in milliseconds, between two worlds.\<close>

record 'w orchestrator =
  or_max_attempts :: nat
  or_backoff :: backoff_policy
  or_router :: "payment_intent \<Rightarrow> (rail_choice list, string) result"
  or_adapters :: "(breaker_key, 'w adapter) hashmap"
  or_scorer :: "(payment_intent \<Rightarrow> rail_kind \<Rightarrow> (string \<times> fraud_decision, orch_error) result) option"
  or_telemetry :: "'w \<Rightarrow> rail_kind \<Rightarrow> string \<Rightarrow> attempt_result_class \<Rightarrow> nat \<Rightarrow> string option \<Rightarrow> nat option \<Rightarrow> 'w"
  or_elapsed :: "'w \<Rightarrow> 'w \<Rightarrow> nat"
  or_clock :: "'w \<Rightarrow> 'w \<times> nat"

record 'w orch_state =
  os_idempotency :: idempotency_store
  os_breaker :: breaker
  os_world :: 'w

text \<open>\<^verbatim>\<open>Orchestrator::new\<close>, for a given rendering of payment methods and a given clock.\<close>

definition orchestrator_new :: "(payment_method \<Rightarrow> string) \<Rightarrow> ('w \<Rightarrow> 'w \<times> nat) \<Rightarrow> ('w \<Rightarrow> 'w \<Rightarrow> nat) \<Rightarrow> 'w orchestrator" where
  "orchestrator_new dbg clock elapsed =
     \<lparr>or_max_attempts = 3, or_backoff = backoff_default, or_router = route dbg (router_default :: nat policy_router),
      or_adapters = [], or_scorer = None, or_telemetry = \<lambda>w _ _ _ _ _ _. w, or_elapsed = elapsed, or_clock = clock\<rparr>"

definition orch_state_new :: "'w \<Rightarrow> 'w orch_state" where
  "orch_state_new w = \<lparr>os_idempotency = [], os_breaker = breaker_new, os_world = w\<rparr>"

definition with_config :: "'w orchestrator \<Rightarrow> nat \<Rightarrow> backoff_policy \<Rightarrow> 'w orchestrator" where
  "with_config eng n p = eng\<lparr>or_max_attempts := n, or_backoff := p\<rparr>"

definition with_router :: "'w orchestrator \<Rightarrow> (payment_intent \<Rightarrow> (rail_choice list, string) result) \<Rightarrow> 'w orchestrator" where
  "with_router eng f = eng\<lparr>or_router := f\<rparr>"

definition with_circuit_breaker :: "'w orch_state \<Rightarrow> breaker \<Rightarrow> 'w orch_state" where
  "with_circuit_breaker s b = s\<lparr>os_breaker := b\<rparr>"

definition registered_drivers :: "'w orchestrator \<Rightarrow> (rail_kind \<times> string) list" where
  "registered_drivers eng = map fst (or_adapters eng)"

definition register_adapter :: "'w orchestrator \<Rightarrow> rail_kind \<Rightarrow> string \<Rightarrow> 'w adapter \<Rightarrow> 'w orchestrator" where
  "register_adapter eng rl driver a = eng\<lparr>or_adapters := hm_insert (rl, driver) a (or_adapters eng)\<rparr>"

definition has_driver :: "'w orchestrator \<Rightarrow> rail_kind \<Rightarrow> string \<Rightarrow> bool" where
  "has_driver eng rl driver = hm_contains_key (or_adapters eng) (rl, driver)"

definition fraud_check :: "'w orchestrator \<Rightarrow> payment_intent \<Rightarrow> (unit, orch_error) result" where
  "fraud_check eng i =
     (case or_scorer eng of
        None \<Rightarrow> Ok ()
      | Some scorer \<Rightarrow>
          rbind (scorer i (implied_rail (pi_method i))) (\<lambda>(score, decision).
            case decision of
              FraudApprove \<Rightarrow> Ok ()
            | FraudReview \<Rightarrow> Err (FraudReviewRequired (''score='' @ score @ '' (review threshold)''))
            | FraudDecline \<Rightarrow> Err (FraudDeclined (''score='' @ score @ '' (decline threshold)''))
            | FraudFreeze \<Rightarrow> Err (FraudDeclined (''score='' @ score @ '' (freeze threshold)''))))"

definition finish :: "terminal_status \<Rightarrow> attempt list \<Rightarrow> rail_kind \<Rightarrow> adapter_result \<Rightarrow> orchestration_outcome" where
  "finish st as rl r =
     \<lparr>oo_terminal_status = st, oo_attempts = as, oo_rail_used = Some rl, oo_psp_payment_id = ar_psp_payment_id r, oo_uetr = ar_uetr r\<rparr>"

text \<open>The attempt loop: \<open>k\<close> is the position in the chain, \<open>as\<close> the attempts so far, \<open>seen\<close> the flag
  \<^verbatim>\<open>any_circuit_was_closed\<close>.\<close>

fun attempt_loop ::
  "'w orchestrator \<Rightarrow> payment_intent \<Rightarrow> rail_choice list \<Rightarrow> nat \<Rightarrow> attempt list \<Rightarrow> bool \<Rightarrow> 'w orch_state
   \<Rightarrow> 'w orch_state \<times> (orchestration_outcome, orch_error) result" where
  "attempt_loop eng i [] k as seen s = (s, if \<not> seen then Err AllCircuitsOpen else Err (AllRailsExhausted (length as)))"
| "attempt_loop eng i (c # cs) k as seen s =
     (if length as \<ge> or_max_attempts eng
      then (s, if \<not> seen then Err AllCircuitsOpen else Err (AllRailsExhausted (length as)))
      else let (w, now) = or_clock eng (os_world s); s = s\<lparr>os_world := w\<rparr> in
        if \<not> allow (os_breaker s) (rc_rail c) (rc_driver c) now then attempt_loop eng i cs (Suc k) as seen s
        else case hm_get (or_adapters eng) (rc_rail c, rc_driver c) of
          None \<Rightarrow> attempt_loop eng i cs (Suc k) as True s
        | Some adapter \<Rightarrow>
            let (w, r) = ad_attempt adapter (os_world s) i k;
                duration_ms = min (or_elapsed eng (os_world s) w) u32_max;
                w = or_telemetry eng w (rc_rail c) (rc_driver c) (classify_attempt (ar_outcome r)) now
                      (Some (pi_idempotency_key i)) (Some duration_ms);
                s = s\<lparr>os_world := w\<rparr>;
                as = as @ [\<lparr>at_rail = rc_rail c, at_driver = rc_driver c, at_outcome = ar_outcome r\<rparr>]
            in case ar_outcome r of
                 Success \<Rightarrow> (s\<lparr>os_breaker := record_success (os_breaker s) (rc_rail c) (rc_driver c)\<rparr>,
                              Ok (finish Approved as (rc_rail c) r))
               | RequiresAction _ \<Rightarrow> (s, Ok (finish RequiresCustomerAction as (rc_rail c) r))
               | HardDecline _ \<Rightarrow> (s\<lparr>os_breaker := record_success (os_breaker s) (rc_rail c) (rc_driver c)\<rparr>,
                                  Ok (finish Declined as (rc_rail c) r))
               | SoftFailure _ \<Rightarrow>
                   attempt_loop eng i cs (Suc k) as True
                     (s\<lparr>os_breaker := record_failure (os_breaker s) (rc_rail c) (rc_driver c) now\<rparr>))"

definition run_inner ::
  "'w orchestrator \<Rightarrow> payment_intent \<Rightarrow> 'w orch_state \<Rightarrow> 'w orch_state \<times> (orchestration_outcome, orch_error) result" where
  "run_inner eng i s =
     (case fraud_check eng i of
        Err e \<Rightarrow> (s, Err e)
      | Panic \<Rightarrow> (s, Panic)
      | Ok _ \<Rightarrow>
          (case or_router eng i of
             Err reason \<Rightarrow> (s, Err (NoEligibleRail reason))
           | Panic \<Rightarrow> (s, Panic)
           | Ok chn \<Rightarrow> attempt_loop eng i chn 0 [] False s))"

definition run ::
  "'w orchestrator \<Rightarrow> 'w orch_state \<Rightarrow> payment_intent \<Rightarrow> 'w orch_state \<times> (orchestration_outcome, orch_error) result" where
  "run eng s i =
     (let sig = body_signature i;
          (m, rec) = reserve (os_idempotency s) (pi_idempotency_key i) sig;
          s = s\<lparr>os_idempotency := m\<rparr>
      in case rec of
           Some rec \<Rightarrow>
             (s, if ir_body_signature rec \<noteq> sig then Err OrchIdempotencyMismatch
                 else case ir_outcome rec of Some cached \<Rightarrow> Ok cached | None \<Rightarrow> Err (AllRailsExhausted 0))
         | None \<Rightarrow>
             (let (s, r) = run_inner eng i s
              in (case r of
                    Ok out \<Rightarrow> s\<lparr>os_idempotency := commit (os_idempotency s) (pi_idempotency_key i) out\<rparr>
                  | Err _ \<Rightarrow> s\<lparr>os_idempotency := release (os_idempotency s) (pi_idempotency_key i)\<rparr>
                  | Panic \<Rightarrow> s, r)))"

fun resumed_status :: "attempt_outcome \<Rightarrow> terminal_status" where
  "resumed_status Success = Approved"
| "resumed_status (RequiresAction _) = RequiresCustomerAction"
| "resumed_status (HardDecline _) = Declined"
| "resumed_status (SoftFailure _) = Declined"

text \<open>\<open>dbg\<close> is the derived \<^verbatim>\<open>Debug\<close> rendering of a rail.\<close>

definition resume_intent ::
  "(rail_kind \<Rightarrow> string) \<Rightarrow> 'w orchestrator \<Rightarrow> 'w orch_state \<Rightarrow> payment_intent \<Rightarrow> rail_kind \<Rightarrow> string \<Rightarrow> string
   \<Rightarrow> 'w orch_state \<times> (orchestration_outcome, orch_error) result" where
  "resume_intent dbg eng s i rl driver psp =
     (case hm_get (or_adapters eng) (rl, driver) of
        None \<Rightarrow> (s, Err (NoEligibleRail (''no adapter for rail='' @ dbg rl @ '' driver='' @ driver)))
      | Some adapter \<Rightarrow>
          let (w, r) = ad_resume adapter (os_world s) i psp;
              out = finish (resumed_status (ar_outcome r)) [\<lparr>at_rail = rl, at_driver = driver, at_outcome = ar_outcome r\<rparr>] rl r
          in (s\<lparr>os_world := w, os_idempotency := commit (os_idempotency s) (pi_idempotency_key i) out\<rparr>, Ok out))"

lemma delay_for_default: "n < 4294967296 \<Longrightarrow> delay_for backoff_default n = min (2 ^ n) 30"
  by (simp add: delay_for_def backoff_default_def)

lemma has_driver_register:
  "has_driver (register_adapter eng rl d a) rl' d' \<longleftrightarrow> (rl', d') = (rl, d) \<or> has_driver eng rl' d'"
  by (auto simp: has_driver_def register_adapter_def hm_contains_key_def)

lemma registered_drivers_iff: "(rl, d) \<in> set (registered_drivers eng) \<longleftrightarrow> has_driver eng rl d"
  using hm_keys_dom [of "or_adapters eng"] by (auto simp: registered_drivers_def has_driver_def hm_contains_key_def dom_def)

section \<open>Attempts\<close>

definition choice_of :: "attempt \<Rightarrow> rail_choice" where
  "choice_of a = \<lparr>rc_rail = at_rail a, rc_driver = at_driver a\<rparr>"

fun is_soft :: "attempt_outcome \<Rightarrow> bool" where
  "is_soft (SoftFailure _) = True"
| "is_soft _ = False"

text \<open>What one attempt tells the breaker, when it was made at time \<open>t\<close>.\<close>

definition attempt_events :: "attempt \<Rightarrow> nat \<Rightarrow> breaker_event list" where
  "attempt_events a t =
     (case at_outcome a of
        SoftFailure _ \<Rightarrow> [FailedAt (at_rail a) (at_driver a) t]
      | RequiresAction _ \<Rightarrow> []
      | _ \<Rightarrow> [Succeeded (at_rail a) (at_driver a)])"

text \<open>\<open>xs\<close> is a list of attempts along the chain \<open>cs\<close> that ends in the status \<open>st\<close>.\<close>

definition attempts_sound :: "'w orchestrator \<Rightarrow> rail_choice list \<Rightarrow> attempt list \<Rightarrow> terminal_status \<Rightarrow> bool" where
  "attempts_sound eng cs xs st \<longleftrightarrow>
     xs \<noteq> [] \<and> list_all (\<lambda>a. is_soft (at_outcome a)) (butlast xs)
     \<and> \<not> is_soft (at_outcome (List.last xs)) \<and> resumed_status (at_outcome (List.last xs)) = st
     \<and> subseq (map choice_of xs) cs \<and> list_all (\<lambda>a. has_driver eng (at_rail a) (at_driver a)) xs"

lemma attempt_loop_idempotency [simp]:
  "os_idempotency (fst (attempt_loop eng i cs k as seen s)) = os_idempotency s"
  by (induction cs arbitrary: k as seen s) (simp_all add: Let_def split: prod.split option.split attempt_outcome.split)

lemma attempt_loop_outcomes:
  "length as \<le> or_max_attempts eng \<Longrightarrow>
   (\<exists>out. snd (attempt_loop eng i cs k as seen s) = Ok out) \<or> snd (attempt_loop eng i cs k as seen s) = Err AllCircuitsOpen
   \<or> (\<exists>n. snd (attempt_loop eng i cs k as seen s) = Err (AllRailsExhausted n) \<and> n \<le> or_max_attempts eng)"
  by (induction cs arbitrary: k as seen s) (simp_all add: Let_def split: prod.split option.split attempt_outcome.split)

lemma attempts_sound_skip: "attempts_sound eng cs xs st \<Longrightarrow> attempts_sound eng (c # cs) xs st"
  by (auto simp: attempts_sound_def intro: list_emb_Cons)

lemma attempts_sound_soft:
  "attempts_sound eng cs xs st \<Longrightarrow> is_soft (at_outcome a) \<Longrightarrow> choice_of a = c \<Longrightarrow> has_driver eng (at_rail a) (at_driver a)
   \<Longrightarrow> attempts_sound eng (c # cs) (a # xs) st"
  by (simp add: attempts_sound_def)

lemma attempts_sound_final:
  "\<not> is_soft (at_outcome a) \<Longrightarrow> choice_of a = c \<Longrightarrow> has_driver eng (at_rail a) (at_driver a)
   \<Longrightarrow> attempts_sound eng (c # cs) [a] (resumed_status (at_outcome a))"
  by (simp add: attempts_sound_def)

definition loop_result ::
  "'w orchestrator \<Rightarrow> rail_choice list \<Rightarrow> attempt list \<Rightarrow> breaker \<Rightarrow> breaker \<Rightarrow> orchestration_outcome \<Rightarrow> bool" where
  "loop_result eng cs as b b' out \<longleftrightarrow>
     (\<exists>xs ts. oo_attempts out = as @ xs \<and> attempts_sound eng cs xs (oo_terminal_status out)
        \<and> oo_rail_used out = Some (at_rail (List.last xs)) \<and> length (as @ xs) \<le> or_max_attempts eng
        \<and> length ts = length xs \<and> b' = fold apply_event (concat (map2 attempt_events xs ts)) b)"

lemma loop_result_skip: "loop_result eng cs as b b' out \<Longrightarrow> loop_result eng (c # cs) as b b' out"
  unfolding loop_result_def using attempts_sound_skip by blast

lemma loop_result_soft:
  assumes "loop_result eng cs (as @ [a]) (record_failure b (at_rail a) (at_driver a) now) b' out"
    and "at_outcome a = SoftFailure e" and "choice_of a = c" and "has_driver eng (at_rail a) (at_driver a)"
  shows "loop_result eng (c # cs) as b b' out"
proof -
  obtain xs ts where r: "oo_attempts out = as @ a # xs" "attempts_sound eng cs xs (oo_terminal_status out)"
      "oo_rail_used out = Some (at_rail (List.last xs))" "length (as @ a # xs) \<le> or_max_attempts eng" "length ts = length xs"
      "b' = fold apply_event (concat (map2 attempt_events xs ts)) (record_failure b (at_rail a) (at_driver a) now)"
    using assms(1) by (auto simp: loop_result_def)
  have "attempts_sound eng (c # cs) (a # xs) (oo_terminal_status out)"
    using r(2) assms(2-4) by (simp add: attempts_sound_soft)
  moreover have "xs \<noteq> []" using r(2) by (simp add: attempts_sound_def)
  moreover have "b' = fold apply_event (concat (map2 attempt_events (a # xs) (now # ts))) b"
    using r(6) assms(2) by (simp add: attempt_events_def)
  ultimately show ?thesis
    unfolding loop_result_def using r by (intro exI [of _ "a # xs"] exI [of _ "now # ts"]) simp
qed

lemma loop_result_final:
  assumes "\<not> is_soft (at_outcome a)" and "choice_of a = c" and "has_driver eng (at_rail a) (at_driver a)"
    and "length as < or_max_attempts eng" and "b' = fold apply_event (attempt_events a 0) b"
    and "oo_attempts out = as @ [a]" and "oo_terminal_status out = resumed_status (at_outcome a)"
    and "oo_rail_used out = Some (at_rail a)"
  shows "loop_result eng (c # cs) as b b' out"
  unfolding loop_result_def using assms attempts_sound_final [OF assms(1-3)]
  by (intro exI [of _ "[a]"] exI [of _ "[0]"]) simp

lemma attempt_loop_Ok:
  assumes "attempt_loop eng i cs k as seen s = (s', Ok out)"
  shows "loop_result eng cs as (os_breaker s) (os_breaker s') out"
  using assms
proof (induction cs arbitrary: k as seen s)
  case Nil
  then show ?case by (auto split: if_splits)
next
  case (Cons c cs)
  obtain w now where clk: "or_clock eng (os_world s) = (w, now)" by fastforce
  have room: "length as < or_max_attempts eng" using Cons.prems by (auto split: if_splits)
  show ?case
  proof (cases "allow (os_breaker s) (rc_rail c) (rc_driver c) now")
    case False
    then have "loop_result eng cs as (os_breaker (s\<lparr>os_world := w\<rparr>)) (os_breaker s') out"
      using Cons.prems room by (intro Cons.IH) (simp add: clk Let_def)
    then show ?thesis by (simp add: loop_result_skip)
  next
    case allowed: True
    show ?thesis
    proof (cases "hm_get (or_adapters eng) (rc_rail c, rc_driver c)")
      case None
      then have "loop_result eng cs as (os_breaker (s\<lparr>os_world := w\<rparr>)) (os_breaker s') out"
        using Cons.prems room allowed by (intro Cons.IH) (simp add: clk Let_def)
      then show ?thesis by (simp add: loop_result_skip)
    next
      case (Some adapter)
      obtain w' r where att: "ad_attempt adapter w i k = (w', r)" by fastforce
      define a where "a = \<lparr>at_rail = rc_rail c, at_driver = rc_driver c, at_outcome = ar_outcome r\<rparr>"
      have a: "choice_of a = c" "has_driver eng (at_rail a) (at_driver a)" "at_outcome a = ar_outcome r"
        "at_rail a = rc_rail c" "at_driver a = rc_driver c"
        using Some by (simp_all add: a_def choice_of_def has_driver_def hm_contains_key_def)
      show ?thesis
      proof (cases "ar_outcome r")
        case (SoftFailure e)
        have "loop_result eng cs (as @ [a]) (record_failure (os_breaker s) (rc_rail c) (rc_driver c) now) (os_breaker s') out"
          using Cons.prems room allowed Some SoftFailure Cons.IH by (fastforce simp: clk att Let_def a_def)
        then show ?thesis using a SoftFailure by (intro loop_result_soft [where a = a and now = now and e = e]) simp_all
      qed (use Cons.prems room allowed Some a in
            \<open>intro loop_result_final [where a = a]; auto simp: clk att Let_def finish_def a_def attempt_events_def\<close>)+
    qed
  qed
qed

section \<open>Runs and the idempotency store\<close>

lemma run_inner_idempotency [simp]: "os_idempotency (fst (run_inner eng i s)) = os_idempotency s"
  by (auto simp: run_inner_def split: result.split)

text \<open>What a run does to the store when its key is free, and that it does nothing at all when it is not.\<close>

lemma run_free:
  assumes "hm_get (os_idempotency s) (pi_idempotency_key i) = None" and "run eng s i = (s', r)"
  shows "hm_get (os_idempotency s') =
     (case r of
        Ok out \<Rightarrow> (hm_get (os_idempotency s))(pi_idempotency_key i \<mapsto> \<lparr>ir_body_signature = body_signature i, ir_outcome = Some out\<rparr>)
      | Err _ \<Rightarrow> hm_get (os_idempotency s)
      | Panic \<Rightarrow> (hm_get (os_idempotency s))(pi_idempotency_key i \<mapsto> \<lparr>ir_body_signature = body_signature i, ir_outcome = None\<rparr>))"
    and "r = snd (run_inner eng i (s\<lparr>os_idempotency := fst (reserve (os_idempotency s) (pi_idempotency_key i) (body_signature i))\<rparr>))"
    and "os_breaker s' = os_breaker (fst (run_inner eng i
           (s\<lparr>os_idempotency := fst (reserve (os_idempotency s) (pi_idempotency_key i) (body_signature i))\<rparr>)))"
proof -
  obtain m where m: "reserve (os_idempotency s) (pi_idempotency_key i) (body_signature i) = (m, None)"
    using assms(1) by (simp add: reserve_def)
  obtain s1 r1 where r1: "run_inner eng i (s\<lparr>os_idempotency := m\<rparr>) = (s1, r1)" by fastforce
  have keep: "os_idempotency s1 = m" using run_inner_idempotency [of eng i "s\<lparr>os_idempotency := m\<rparr>"] by (simp add: r1)
  show "hm_get (os_idempotency s') =
     (case r of
        Ok out \<Rightarrow> (hm_get (os_idempotency s))(pi_idempotency_key i \<mapsto> \<lparr>ir_body_signature = body_signature i, ir_outcome = Some out\<rparr>)
      | Err _ \<Rightarrow> hm_get (os_idempotency s)
      | Panic \<Rightarrow> (hm_get (os_idempotency s))(pi_idempotency_key i \<mapsto> \<lparr>ir_body_signature = body_signature i, ir_outcome = None\<rparr>))"
    using assms(2) mem.reserve_commit [OF assms(1), of "body_signature i"] mem.reserve_release [OF assms(1), of "body_signature i"]
      mem.reserve_free [OF assms(1), of "body_signature i"]
    by (auto simp: run_def m r1 keep split: result.split)
  show "r = snd (run_inner eng i (s\<lparr>os_idempotency := fst (reserve (os_idempotency s) (pi_idempotency_key i) (body_signature i))\<rparr>))"
    "os_breaker s' = os_breaker (fst (run_inner eng i
           (s\<lparr>os_idempotency := fst (reserve (os_idempotency s) (pi_idempotency_key i) (body_signature i))\<rparr>)))"
    using assms(2) by (auto simp: run_def m r1 split: result.splits)
qed

lemma run_recorded:
  assumes "hm_get (os_idempotency s) (pi_idempotency_key i) = Some rec"
  shows "run eng s i =
     (s, if ir_body_signature rec \<noteq> body_signature i then Err OrchIdempotencyMismatch
         else case ir_outcome rec of Some cached \<Rightarrow> Ok cached | None \<Rightarrow> Err (AllRailsExhausted 0))"
  using assms by (simp add: run_def reserve_def)

lemma run_Ok_recorded:
  assumes "run eng s i = (s', Ok out)"
  shows "hm_get (os_idempotency s') (pi_idempotency_key i) = Some \<lparr>ir_body_signature = body_signature i, ir_outcome = Some out\<rparr>"
proof (cases "hm_get (os_idempotency s) (pi_idempotency_key i)")
  case None
  from run_free(1) [OF this assms] show ?thesis by simp
next
  case (Some rec)
  with assms show ?thesis by (cases rec) (auto simp: run_recorded split: if_splits option.splits)
qed

lemma run_keeps_settled:
  assumes "hm_get (os_idempotency s) k = Some rec" and "ir_outcome rec = Some out"
  shows "hm_get (os_idempotency (fst (run eng s i))) k = Some rec"
proof (cases "hm_get (os_idempotency s) (pi_idempotency_key i)")
  case None
  obtain s' r where r: "run eng s i = (s', r)" by fastforce
  from run_free(1) [OF None r] None assms(1) show ?thesis by (auto simp: r split: result.splits)
next
  case (Some rec')
  with assms show ?thesis by (simp add: run_recorded)
qed

text \<open>The calls of the public interface that touch the store.\<close>

datatype orch_call = CallRun payment_intent | CallResume payment_intent rail_kind string string

fun orch_step :: "(rail_kind \<Rightarrow> string) \<Rightarrow> 'w orchestrator \<Rightarrow> orch_call \<Rightarrow> 'w orch_state \<Rightarrow> 'w orch_state" where
  "orch_step dbg eng (CallRun i) s = fst (run eng s i)"
| "orch_step dbg eng (CallResume i rl d psp) s = fst (resume_intent dbg eng s i rl d psp)"

fun resumes :: "string \<Rightarrow> orch_call \<Rightarrow> bool" where
  "resumes k (CallRun _) = False"
| "resumes k (CallResume i _ _ _) = (pi_idempotency_key i = k)"

lemma commit_other: "k \<noteq> k' \<Longrightarrow> hm_get (commit m k' out) k = hm_get m k"
  by (cases "hm_get m k'") (simp_all add: mem.commit_reserved mem.commit_unreserved)

lemma orch_step_keeps_settled:
  assumes "hm_get (os_idempotency s) k = Some rec" and "ir_outcome rec = Some out" and "\<not> resumes k c"
  shows "hm_get (os_idempotency (orch_step dbg eng c s)) k = Some rec"
proof (cases c)
  case (CallRun i)
  then show ?thesis using assms by (simp add: run_keeps_settled)
next
  case (CallResume i rl d psp)
  then show ?thesis using assms by (simp add: resume_intent_def commit_other Let_def split: option.split prod.split)
qed

lemma orch_steps_keep_settled:
  assumes "hm_get (os_idempotency s) k = Some rec" and "ir_outcome rec = Some out" and "list_all (\<lambda>c. \<not> resumes k c) cs"
  shows "hm_get (os_idempotency (fold (orch_step dbg eng) cs s)) k = Some rec"
  using assms by (induction cs arbitrary: s) (simp_all add: orch_step_keeps_settled)

section \<open>Guarantees of the engine\<close>

text \<open>A small engine for the examples: the driver \<^verbatim>\<open>flaky\<close> always fails softly, \<^verbatim>\<open>steady\<close> always approves.\<close>

definition sample_adapter :: "attempt_outcome \<Rightarrow> unit adapter" where
  "sample_adapter x =
     \<lparr>ad_attempt = \<lambda>w i k. (w, \<lparr>ar_outcome = x, ar_psp_payment_id = Some ''psp'', ar_uetr = None\<rparr>),
      ad_resume = \<lambda>w i psp. (w, \<lparr>ar_outcome = Success, ar_psp_payment_id = Some psp, ar_uetr = None\<rparr>)\<rparr>"

definition sample_router :: "nat policy_router" where
  "sample_router = \<lparr>pr_card_drivers = [''flaky'', ''steady''], pr_a2a_drivers = [''fednow''], pr_crypto_drivers = [],
     pr_a2a_above_minor_units = Some 500, pr_noise = None\<rparr>"

definition sample_engine :: "unit orchestrator" where
  "sample_engine =
     \<lparr>or_max_attempts = 3, or_backoff = backoff_default,
      or_router = route (\<lambda>_. ''method'') sample_router,
      or_adapters = [((RailCard, ''flaky''), sample_adapter (SoftFailure ''timeout'')), ((RailCard, ''steady''), sample_adapter Success)],
      or_scorer = None, or_telemetry = \<lambda>w _ _ _ _ _ _. w, or_elapsed = \<lambda>_ _. 7, or_clock = \<lambda>w. (w, 10)\<rparr>"

definition sample_state :: "unit orch_state" where
  "sample_state = \<lparr>os_idempotency = [], os_breaker = breaker_new, os_world = ()\<rparr>"

definition sample_intent :: payment_intent where
  "sample_intent = new_intent ''key'' (from_minor 1000 USD) (Vault ''tok'')"

definition sample_outcome :: orchestration_outcome where
  "sample_outcome =
     \<lparr>oo_terminal_status = Approved,
      oo_attempts = [\<lparr>at_rail = RailCard, at_driver = ''flaky'', at_outcome = SoftFailure ''timeout''\<rparr>,
                     \<lparr>at_rail = RailCard, at_driver = ''steady'', at_outcome = Success\<rparr>],
      oo_rail_used = Some RailCard, oo_psp_payment_id = Some ''psp'', oo_uetr = None\<rparr>"

lemmas sample_defs = sample_adapter_def sample_router_def sample_engine_def sample_state_def sample_intent_def sample_outcome_def

lemmas routing_defs = route_def rail_order_def choices_for_def

lemmas attempt_eval_defs = allow_def circuit_state_of_def breaker_new_def record_failure_def or_default_def breaker_default_def
  u32_saturating_add_def finish_def hm_get_def hm_insert_def

lemma sample_run: "snd (run sample_engine sample_state sample_intent) = Ok sample_outcome"
  by (simp add: run_def reserve_def run_inner_def fraud_check_def routing_defs sample_defs new_intent_def
      attempt_eval_defs Let_def)

lemma sample_run_pair: "run sample_engine sample_state sample_intent = (fst (run sample_engine sample_state sample_intent), Ok sample_outcome)"
  using sample_run by (simp add: prod_eq_iff)

lemma sample_free: "hm_get (os_idempotency sample_state) k = None"
  by (simp add: sample_state_def)

text \<open>
  C5.  Idempotent execution: once a run has returned an outcome, then after any later calls, runs of any
  intents and resumptions of other keys alike, a run with the same key calls no rail and changes nothing; it returns that
  same outcome if the body signature agrees and reports a mismatch if it does not.
\<close>

theorem run_replays_outcome:
  assumes "run eng s i = (s', Ok out)" and "list_all (\<lambda>c. \<not> resumes (pi_idempotency_key i) c) cs"
    and "pi_idempotency_key j = pi_idempotency_key i"
  shows "run eng (fold (orch_step dbg eng) cs s') j =
     (fold (orch_step dbg eng) cs s', if body_signature j = body_signature i then Ok out else Err OrchIdempotencyMismatch)"
proof -
  have "hm_get (os_idempotency (fold (orch_step dbg eng) cs s')) (pi_idempotency_key j) =
      Some \<lparr>ir_body_signature = body_signature i, ir_outcome = Some out\<rparr>"
    using orch_steps_keep_settled [OF run_Ok_recorded [OF assms(1)] _ assms(2)] assms(3) by simp
  then show ?thesis by (simp add: run_recorded)
qed

theorem run_replays_outcome_witness:
  "snd (run sample_engine
     (fold (orch_step (\<lambda>_. []) sample_engine) [CallRun (sample_intent\<lparr>pi_idempotency_key := ''other''\<rparr>), CallRun sample_intent]
       (fst (run sample_engine sample_state sample_intent))) (intent_with_metadata sample_intent ''a'' ''b''))
   = Ok sample_outcome"
  by (subst run_replays_outcome [OF sample_run_pair]) (simp_all add: intent_with_metadata_def body_signature_def)

text \<open>
  A run that fails on a free key leaves every idempotency slot as it was, so the key can be retried; the
  failure is the fraud step's, the router's, or says that circuits are open or that at most the configured number of
  attempts failed.
\<close>

theorem failed_run_releases_key:
  assumes "hm_get (os_idempotency s) (pi_idempotency_key i) = None" and "run eng s i = (s', Err e)"
  shows "hm_get (os_idempotency s') = hm_get (os_idempotency s)
     \<and> (fraud_check eng i = Err e \<or> (\<exists>reason. or_router eng i = Err reason \<and> e = NoEligibleRail reason)
        \<or> e = AllCircuitsOpen \<or> (\<exists>n \<le> or_max_attempts eng. e = AllRailsExhausted n))"
proof
  show "hm_get (os_idempotency s') = hm_get (os_idempotency s)" using run_free(1) [OF assms] by simp
  show "fraud_check eng i = Err e \<or> (\<exists>reason. or_router eng i = Err reason \<and> e = NoEligibleRail reason)
        \<or> e = AllCircuitsOpen \<or> (\<exists>n \<le> or_max_attempts eng. e = AllRailsExhausted n)"
    using run_free(2) [OF assms] attempt_loop_outcomes [of "[]" eng i]
    by (auto simp: run_inner_def split: result.splits) (metis result.distinct(1) result.inject(2))
qed

theorem failed_run_releases_key_witness:
  "snd (run (sample_engine\<lparr>or_adapters := []\<rparr>) sample_state sample_intent) = Err (AllRailsExhausted 0)
   \<and> hm_get (os_idempotency (fst (run (sample_engine\<lparr>or_adapters := []\<rparr>) sample_state sample_intent))) ''key'' = None"
proof -
  have r: "snd (run (sample_engine\<lparr>or_adapters := []\<rparr>) sample_state sample_intent) = Err (AllRailsExhausted 0)"
    by (simp add: run_def reserve_def run_inner_def fraud_check_def routing_defs sample_defs new_intent_def
        allow_def circuit_state_of_def breaker_new_def hm_get_def hm_insert_def Let_def)
  then have "run (sample_engine\<lparr>or_adapters := []\<rparr>) sample_state sample_intent =
      (fst (run (sample_engine\<lparr>or_adapters := []\<rparr>) sample_state sample_intent), Err (AllRailsExhausted 0))"
    by (simp add: prod_eq_iff)
  from failed_run_releases_key [OF sample_free this] r show ?thesis by (simp add: sample_free)
qed

lemma run_attempts_sound_core:
  assumes "hm_get (os_idempotency s) (pi_idempotency_key i) = None" and "run eng s i = (s', Ok out)"
  shows "fraud_check eng i = Ok () \<and> attempt_count out \<le> or_max_attempts eng
     \<and> (\<exists>chn. or_router eng i = Ok chn \<and> attempts_sound eng chn (oo_attempts out) (oo_terminal_status out))
     \<and> oo_rail_used out = Some (at_rail (List.last (oo_attempts out)))
     \<and> (\<exists>ts. length ts = attempt_count out
          \<and> os_breaker s' = fold apply_event (concat (map2 attempt_events (oo_attempts out) ts)) (os_breaker s))"
proof -
  define s0 where "s0 = s\<lparr>os_idempotency := fst (reserve (os_idempotency s) (pi_idempotency_key i) (body_signature i))\<rparr>"
  obtain s1 where inner: "run_inner eng i s0 = (s1, Ok out)" and b: "os_breaker s' = os_breaker s1"
    using run_free(2,3) [OF assms] unfolding s0_def [symmetric] by (metis prod.collapse fst_conv snd_conv)
  obtain chn where chn: "fraud_check eng i = Ok ()" "or_router eng i = Ok chn" "attempt_loop eng i chn 0 [] False s0 = (s1, Ok out)"
    using inner by (auto simp: run_inner_def split: result.splits)
  have "loop_result eng chn [] (os_breaker s0) (os_breaker s1) out" by (rule attempt_loop_Ok [OF chn(3)])
  then show ?thesis using chn by (auto simp: loop_result_def attempt_count_def b s0_def)
qed

text \<open>
  C9.  What an outcome of a run on a free key means: fraud screening passed; the attempts follow the routed chain
  in order, at most the configured number of them, each on a registered driver; all but the last failed softly, and
  the last gives the terminal status and the rail; and the breaker has recorded exactly these attempts.
\<close>

theorem run_attempts_sound:
  assumes "hm_get (os_idempotency s) (pi_idempotency_key i) = None" and "run eng s i = (s', Ok out)"
  shows "fraud_check eng i = Ok () \<and> attempt_count out \<le> or_max_attempts eng
     \<and> (\<exists>chn. or_router eng i = Ok chn \<and> attempts_sound eng chn (oo_attempts out) (oo_terminal_status out))
     \<and> oo_rail_used out = Some (at_rail (List.last (oo_attempts out)))
     \<and> (\<exists>ts. length ts = attempt_count out
          \<and> os_breaker s' = fold apply_event (concat (map2 attempt_events (oo_attempts out) ts)) (os_breaker s))"
  by (rule run_attempts_sound_core [OF assms])

theorem run_attempts_sound_witness:
  "attempts_sound sample_engine [\<lparr>rc_rail = RailCard, rc_driver = ''flaky''\<rparr>, \<lparr>rc_rail = RailCard, rc_driver = ''steady''\<rparr>]
     (oo_attempts sample_outcome) Approved"
proof -
  have "or_router sample_engine sample_intent =
      Ok [\<lparr>rc_rail = RailCard, rc_driver = ''flaky''\<rparr>, \<lparr>rc_rail = RailCard, rc_driver = ''steady''\<rparr>]"
    by (simp add: sample_defs new_intent_def routing_defs)
  with run_attempts_sound [OF sample_free sample_run_pair] show ?thesis
    by (simp add: sample_outcome_def)
qed

text \<open>
  Resuming a customer challenge overwrites the cached outcome: a later run with that key returns the resumed outcome
  if its body agrees with the one reserved, and changes nothing.  If nothing was reserved under the key the record
  has an empty signature, which no intent has, so every later run with the key is a mismatch.
\<close>

theorem resume_then_run:
  assumes "resume_intent dbg eng s i rl d psp = (s', Ok out)" and "pi_idempotency_key j = pi_idempotency_key i"
  shows "run eng s' j =
     (s', case hm_get (os_idempotency s) (pi_idempotency_key i) of
            None \<Rightarrow> Err OrchIdempotencyMismatch
          | Some rec \<Rightarrow> if body_signature j = ir_body_signature rec then Ok out else Err OrchIdempotencyMismatch)"
proof -
  have "os_idempotency s' = commit (os_idempotency s) (pi_idempotency_key i) out"
    using assms(1) by (auto simp: resume_intent_def Let_def split: option.splits prod.splits)
  moreover have "body_signature j \<noteq> []" by (simp add: body_signature_def)
  ultimately show ?thesis
    using assms(2) by (auto simp: run_recorded mem.commit_reserved mem.commit_unreserved split: option.split)
qed

theorem resume_then_run_witness:
  "run sample_engine (fst (resume_intent (\<lambda>_. []) sample_engine sample_state sample_intent RailCard ''steady'' ''p'')) sample_intent =
   (fst (resume_intent (\<lambda>_. []) sample_engine sample_state sample_intent RailCard ''steady'' ''p''), Err OrchIdempotencyMismatch)"
proof -
  have "\<exists>out. snd (resume_intent (\<lambda>_. []) sample_engine sample_state sample_intent RailCard ''steady'' ''p'') = Ok out"
    by (simp add: resume_intent_def sample_engine_def sample_adapter_def hm_get_def Let_def)
  then obtain out where "resume_intent (\<lambda>_. []) sample_engine sample_state sample_intent RailCard ''steady'' ''p'' =
      (fst (resume_intent (\<lambda>_. []) sample_engine sample_state sample_intent RailCard ''steady'' ''p''), Ok out)"
    by (auto simp: prod_eq_iff)
  from resume_then_run [OF this refl] show ?thesis by (simp add: sample_free)
qed

section \<open>Replays and the body signature\<close>

text \<open>
  A replayed outcome is for the same money: if a run returns an outcome and any later run with that key, after any
  calls that do not resume it, also returns one, the two intents ask for the same amount in the same currency code.
\<close>

theorem replay_same_amount:
  assumes "run eng s i = (s', Ok out)" and "list_all (\<lambda>c. \<not> resumes (pi_idempotency_key i) c) cs"
    and "pi_idempotency_key j = pi_idempotency_key i" and "run eng (fold (orch_step dbg eng) cs s') j = (s'', Ok out')"
  shows "out' = out \<and> minor_units (pi_amount j) = minor_units (pi_amount i)
     \<and> code (currency (pi_amount j)) = code (currency (pi_amount i))"
proof -
  have "hm_get (os_idempotency (fold (orch_step dbg eng) cs s')) (pi_idempotency_key j) =
      Some \<lparr>ir_body_signature = body_signature i, ir_outcome = Some out\<rparr>"
    using orch_steps_keep_settled [OF run_Ok_recorded [OF assms(1)] _ assms(2)] assms(3) by simp
  with assms(4) have "out' = out \<and> body_signature j = body_signature i" by (auto simp: run_recorded split: if_splits)
  then show ?thesis using signature_amount by blast
qed

theorem replay_same_amount_witness:
  "minor_units (pi_amount (intent_with_metadata sample_intent ''a'' ''b'')) = 1000"
proof -
  define s1 where "s1 = fst (run sample_engine sample_state sample_intent)"
  have first: "run sample_engine sample_state sample_intent = (s1, Ok sample_outcome)"
    unfolding s1_def by (rule sample_run_pair)
  have "run sample_engine (fold (orch_step (\<lambda>_. []) sample_engine) [] s1) (intent_with_metadata sample_intent ''a'' ''b'') =
      (s1, Ok sample_outcome)"
    using run_Ok_recorded [OF first] by (simp add: run_recorded intent_with_metadata_def body_signature_def)
  from replay_same_amount [OF first _ _ this] show ?thesis
    by (simp add: intent_with_metadata_def sample_intent_def new_intent_def from_minor_def)
qed

text \<open>
  Wallet tokens are not part of the signature: after a run paid with one wallet token, the same intent with any other
  wallet token and the same key is answered with the first one's outcome instead of a mismatch.
\<close>

theorem wallet_swap_replays:
  assumes "run eng s i = (s', Ok out)" and "pi_method i = Wallet t"
  shows "run eng s' (i\<lparr>pi_method := Wallet t'\<rparr>) = (s', Ok out)"
proof -
  have "body_signature (i\<lparr>pi_method := Wallet t'\<rparr>) = body_signature i" using assms(2) by (simp add: body_signature_def)
  then show ?thesis using run_Ok_recorded [OF assms(1)] by (simp add: run_recorded)
qed

theorem wallet_swap_replays_witness:
  "let i = sample_intent\<lparr>pi_method := Wallet [1]\<rparr>
   in snd (run sample_engine (fst (run sample_engine sample_state i)) (i\<lparr>pi_method := Wallet [2]\<rparr>)) = Ok sample_outcome"
proof -
  have "snd (run sample_engine sample_state (sample_intent\<lparr>pi_method := Wallet [1]\<rparr>)) = Ok sample_outcome"
    by (simp add: run_def reserve_def run_inner_def fraud_check_def routing_defs sample_defs new_intent_def
        attempt_eval_defs Let_def)
  then have "run sample_engine sample_state (sample_intent\<lparr>pi_method := Wallet [1]\<rparr>) =
      (fst (run sample_engine sample_state (sample_intent\<lparr>pi_method := Wallet [1]\<rparr>)), Ok sample_outcome)"
    by (simp add: prod_eq_iff)
  from wallet_swap_replays [OF this, of "[1]" "[2]"] show ?thesis by (simp add: Let_def)
qed

section \<open>The engine with the policy router\<close>

text \<open>
  Engine and router together: with the policy router, a payment that was executed was only ever attempted on rails
  its method supports and with drivers configured for that rail, and so was the rail reported as used.
\<close>

theorem run_respects_method:
  assumes "or_router eng = route dbg pr" and "hm_get (os_idempotency s) (pi_idempotency_key i) = None"
    and "run eng s i = (s', Ok out)"
  shows "list_all (\<lambda>a. method_supports (pi_method i) (at_rail a) \<and> at_driver a \<in> set (drivers_for pr (at_rail a))) (oo_attempts out)
     \<and> oo_rail_used out = Some (implied_rail (pi_method i))"
proof -
  let ?rl = "implied_rail (pi_method i)"
  from run_attempts_sound_core [OF assms(2,3)] obtain chn where r: "route dbg pr i = Ok chn"
      "attempts_sound eng chn (oo_attempts out) (oo_terminal_status out)"
      "oo_rail_used out = Some (at_rail (List.last (oo_attempts out)))"
    using assms(1) by auto
  have chn: "chn = choices_for pr ?rl" "method_supports (pi_method i) ?rl" using route_Ok_supports [OF r(1)] by simp_all
  have "at_rail a = ?rl \<and> at_driver a \<in> set (drivers_for pr ?rl)" if "a \<in> set (oo_attempts out)" for a
  proof -
    have "choice_of a \<in> set chn"
      using r(2) that list_emb_set [of "(=)" "map choice_of (oo_attempts out)" chn "choice_of a"] by (auto simp: attempts_sound_def)
    then show ?thesis
      using choices_for_set [of "choice_of a" pr ?rl] by (simp add: chn(1) choice_of_def)
  qed
  moreover have "oo_attempts out \<noteq> []" using r(2) by (simp add: attempts_sound_def)
  ultimately show ?thesis using r(3) chn(2) by (auto simp: list_all_iff)
qed

theorem run_respects_method_witness: "oo_rail_used sample_outcome = Some (implied_rail (Vault ''tok''))"
proof -
  have "or_router sample_engine = route (\<lambda>_. ''method'') sample_router" by (simp add: sample_engine_def)
  from run_respects_method [OF this sample_free sample_run_pair] show ?thesis
    by (simp add: sample_intent_def new_intent_def)
qed

end
