(* ===== verification/Bytes.thy ===== *)
theory Bytes
  imports OpenPay_Prelude "HOL-Library.Word"
begin

text \<open>
  Bytes and big-endian numbers, shared by the wire codecs: a \<^verbatim>\<open>u8\<close> is an 8-bit word, a byte slice a list, and
  \<^verbatim>\<open>to_be_bytes\<close> and the accumulating shift-and-or loops of the decoders are \<open>be_bytes\<close> and \<open>be_word\<close>.
\<close>

unbundle bit_operations_syntax

type_synonym byte = "8 word"

text \<open>The last \<open>n\<close> bytes of a number, most significant first.\<close>

definition be_bytes :: "nat \<Rightarrow> 'a :: len word \<Rightarrow> byte list" where
  "be_bytes n x = map (\<lambda>i. ucast (drop_bit (8 * (n - 1 - i)) x)) [0..<n]"

definition be_step :: "byte \<Rightarrow> 'a :: len word \<Rightarrow> 'a word" where
  "be_step b acc = push_bit 8 acc OR ucast b"

definition be_word :: "byte list \<Rightarrow> 'a :: len word" where
  "be_word bs = fold be_step bs 0"

text \<open>The same loop in \<^verbatim>\<open>usize\<close>, with the bits that are shifted out dropped.\<close>

definition be_usize :: "byte list \<Rightarrow> nat" where
  "be_usize bs = fold (\<lambda>b acc. (acc * 256 + unat b) mod 2 ^ 64) bs 0"

lemma be_bytes_length [simp]: "length (be_bytes n x) = n"
  by (simp add: be_bytes_def)

lemma be_bytes_0 [simp]: "be_bytes 0 x = []"
  by (simp add: be_bytes_def)

lemma be_bytes_nth: "i < n \<Longrightarrow> be_bytes n x ! i = ucast (drop_bit (8 * (n - 1 - i)) x)"
  by (simp add: be_bytes_def)

lemma be_bytes_Suc: "be_bytes (Suc n) x = ucast (drop_bit (8 * n) x) # be_bytes n x"
  by (simp add: be_bytes_def upt_conv_Cons map_Suc_upt [symmetric] del: upt_Suc)

lemma be_word_Nil [simp]: "be_word [] = 0"
  by (simp add: be_word_def)

lemma be_word_snoc: "be_word (bs @ [b]) = be_step b (be_word bs)"
  by (simp add: be_word_def)

text \<open>Bit by bit: bit \<open>k\<close> of the number is bit \<open>k mod 8\<close> of the byte \<open>k div 8\<close> from the end.\<close>

lemma bit_be_word:
  "bit (be_word bs :: 'a :: len word) k \<longleftrightarrow>
     k < LENGTH('a) \<and> k < 8 * length bs \<and> bit (rev bs ! (k div 8)) (k mod 8)"
proof (induction bs arbitrary: k rule: rev_induct)
  case Nil
  then show ?case by simp
next
  case (snoc b bs)
  show ?case
  proof (cases "k < 8")
    case True
    then show ?thesis
      by (auto simp: be_word_snoc be_step_def bit_or_iff bit_push_bit_iff bit_ucast_iff dest: bit_imp_le_length)
  next
    case False
    then obtain j where j: "k = j + 8" by (metis le_add_diff_inverse2 not_less)
    have "\<not> bit b (j + 8)" using bit_imp_le_length [of b "j + 8"] by auto
    moreover have "(j + 8) div 8 = Suc (j div 8)" by simp
    ultimately show ?thesis using snoc [of j] unfolding j
      by (auto simp: be_word_snoc be_step_def bit_or_iff bit_push_bit_iff bit_ucast_iff dest: bit_imp_le_length)
  qed
qed

lemma be_word_bytes: "be_word (be_bytes n x) = (take_bit (8 * n) x :: 'a :: len word)"
proof (rule bit_word_eqI)
  fix k assume k: "k < LENGTH('a)"
  show "bit (be_word (be_bytes n x) :: 'a word) k \<longleftrightarrow> bit (take_bit (8 * n) x) k"
  proof (cases "k < 8 * n")
    case True
    then have d: "k div 8 < n" by auto
    have "rev (be_bytes n x) ! (k div 8) = be_bytes n x ! (n - Suc (k div 8))"
      using d by (simp add: rev_nth)
    also have "\<dots> = ucast (drop_bit (8 * (k div 8)) x)" using d by (simp add: be_bytes_nth)
    finally show ?thesis using True k
      by (auto simp: bit_be_word bit_take_bit_iff bit_ucast_iff bit_drop_bit_eq)
  next
    case False
    then show ?thesis by (simp add: bit_be_word bit_take_bit_iff)
  qed
qed

lemma be_usize_Nil [simp]: "be_usize [] = 0"
  by (simp add: be_usize_def)

lemma be_usize_snoc: "be_usize (bs @ [b]) = (be_usize bs * 256 + unat b) mod 2 ^ 64"
  by (simp add: be_usize_def)

lemma be_usize_less: "be_usize bs < 2 ^ 64"
  by (cases bs rule: rev_cases) (simp_all add: be_usize_snoc)

lemma be_usize_bound: "be_usize bs < 256 ^ length bs"
proof (induction bs rule: rev_induct)
  case (snoc b bs)
  have "unat b < 256" by (rule order_less_le_trans [OF unsigned_less]) simp
  then have "be_usize bs * 256 + unat b < 256 ^ length (bs @ [b])" using snoc by simp
  then show ?case unfolding be_usize_snoc by (rule le_less_trans [OF mod_less_eq_dividend])
qed simp

text \<open>The value of a byte string as a number, without a width; the two loops compute it when it fits.\<close>

definition be_nat :: "byte list \<Rightarrow> nat" where
  "be_nat bs = fold (\<lambda>b acc. acc * 256 + unat b) bs 0"

lemma unat_byte_less [simp]: "unat (b :: byte) < 256"
  by (rule order_less_le_trans [OF unsigned_less]) simp

lemma be_nat_Nil [simp]: "be_nat [] = 0"
  by (simp add: be_nat_def)

lemma be_nat_snoc: "be_nat (bs @ [b]) = be_nat bs * 256 + unat b"
  by (simp add: be_nat_def)

lemma be_nat_Cons: "be_nat (b # bs) = unat b * 256 ^ length bs + be_nat bs"
proof (induction bs rule: rev_induct)
  case (snoc c bs)
  then show ?case using be_nat_snoc [of "b # bs" c] by (simp add: be_nat_snoc algebra_simps)
qed (simp add: be_nat_def)

lemma be_nat_less: "be_nat bs < 256 ^ length bs"
proof (induction bs)
  case (Cons b bs)
  have "unat b * 256 ^ length bs + be_nat bs < (unat b + 1) * 256 ^ length bs" using Cons by simp
  also have "\<dots> \<le> 256 * 256 ^ length bs" using unat_byte_less [of b] by (intro mult_right_mono) linarith+
  finally show ?case by (simp add: be_nat_Cons)
qed simp

lemma be_usize_eq_be_nat: "length bs \<le> 8 \<Longrightarrow> be_usize bs = be_nat bs"
proof (induction bs rule: rev_induct)
  case (snoc b bs)
  have "be_nat (bs @ [b]) < 256 ^ length (bs @ [b])" by (rule be_nat_less)
  also have "\<dots> \<le> 256 ^ 8" using snoc.prems by (intro power_increasing) simp_all
  finally have "be_nat (bs @ [b]) < 2 ^ 64" by simp
  then show ?case using snoc by (simp add: be_usize_snoc be_nat_snoc)
qed simp

lemma unat_be_word:
  "8 * length bs \<le> LENGTH('a) \<Longrightarrow> unat (be_word bs :: 'a :: len word) = be_nat bs"
proof (induction bs rule: rev_induct)
  case (snoc b bs)
  have disj: "push_bit 8 (be_word bs) AND (ucast b :: 'a word) = 0"
    by (rule bit_word_eqI) (auto simp: bit_and_iff bit_push_bit_iff bit_ucast_iff dest: bit_imp_le_length)
  have le: "be_nat (bs @ [b]) < 2 ^ LENGTH('a)"
  proof -
    have "be_nat (bs @ [b]) < 256 ^ length (bs @ [b])" by (rule be_nat_less)
    also have "(256 :: nat) ^ length (bs @ [b]) = 2 ^ (8 * length (bs @ [b]))" unfolding power_mult by simp
    also have "\<dots> \<le> 2 ^ LENGTH('a)" using snoc.prems by (intro power_increasing) simp_all
    finally show ?thesis .
  qed
  have "8 \<le> LENGTH('a)" using snoc.prems by simp
  then have ub: "unat (ucast b :: 'a word) = unat b"
    by (intro bit_eqI) (auto simp: bit_simps dest: bit_imp_le_length)
  have "be_word (bs @ [b]) = push_bit 8 (be_word bs) + (ucast b :: 'a word)"
    using disj by (simp add: be_word_snoc be_step_def disjunctive_add_eq_or)
  then show ?case
    using snoc le ub by (simp add: push_bit_eq_mult unat_word_ariths be_nat_snoc take_bit_eq_mod mod_simps)
qed simp

lemma be_nat_be_bytes: "unat x < 256 ^ n \<Longrightarrow> 8 * n \<le> LENGTH('a) \<Longrightarrow> be_nat (be_bytes n (x :: 'a :: len word)) = unat x"
proof -
  assume x: "unat x < 256 ^ n" and n: "8 * n \<le> LENGTH('a)"
  have "unat x < 2 ^ (8 * n)" using x by (simp add: power_mult)
  then have "take_bit (8 * n) (unat x) = unat x" by (simp add: take_bit_nat_eq_self)
  then have "unat (be_word (be_bytes n x) :: 'a word) = unat x"
    unfolding be_word_bytes unsigned_take_bit_eq .
  then show ?thesis using unat_be_word [of "be_bytes n x", where ?'a = 'a] n by simp
qed

lemma be_word_be_bytes: "unat x < 256 ^ n \<Longrightarrow> be_word (be_bytes n x) = (x :: 'a :: len word)"
proof -
  assume "unat x < 256 ^ n"
  then have "unat x < 2 ^ (8 * n)" by (simp add: power_mult)
  then show ?thesis
    unfolding be_word_bytes word_unat_eq_iff by (simp add: unsigned_take_bit_eq take_bit_nat_eq_self)
qed

lemma byte_and_80: "(b :: byte) AND 0x80 = 0 \<longleftrightarrow> unat b < 0x80"
proof -
  have "b AND 2 ^ 7 = 0 \<longleftrightarrow> \<not> bit b 7" by (rule and_exp_eq_0_iff_not_bit)
  also have "bit b 7 \<longleftrightarrow> odd (unat b div 128)"
    using bit_unsigned_iff [of b 7, where ?'a = nat] by (simp add: bit_iff_odd)
  also have "\<not> odd (unat b div 128) \<longleftrightarrow> unat b < 128"
  proof -
    have "n < 256 \<Longrightarrow> n div 128 = (if n < 128 then 0 else 1)" for n :: nat by auto
    then show ?thesis using unat_byte_less [of b] by simp
  qed
  finally show ?thesis by simp
qed

text \<open>A slice that is in range, read back from the middle of a buffer.\<close>

lemma slice_mid [simp]:
  "take (length xs) (drop (length pre) (pre @ xs @ rest)) = xs"
  by simp

text \<open>A property of the sixteen nibbles is checked one by one.\<close>

lemma all_nibbles:
  assumes "list_all P ([0, 1] @ [2..<16])" and "n < 16"
  shows "P n"
proof -
  consider "n = 0" | "n = 1" | "2 \<le> n" by linarith
  then show ?thesis using assms by cases (simp_all add: list_all_iff del: upt_rec_numeral)
qed

lemma nibble_bounds: "unat (drop_bit 4 x :: byte) < 16" "unat (x AND 0x0F :: byte) < 16"
proof -
  have "unat (drop_bit 4 x :: byte) = unat x div 16" by (simp add: drop_bit_eq_div unat_div)
  then show "unat (drop_bit 4 x :: byte) < 16" using unat_byte_less [of x] by linarith
  have "(0x0F :: byte) = mask 4" by (simp add: mask_eq_exp_minus_1)
  then have "x AND 0x0F = take_bit 4 x" by (simp add: take_bit_eq_mask)
  then show "unat (x AND 0x0F :: byte) < 16"
    using take_bit_nat_less_exp [of 4 "unat x"] by (simp add: unsigned_take_bit_eq)
qed

lemma nibbles_join: "push_bit 4 (drop_bit 4 x) OR (x AND 0x0F) = (x :: byte)"
proof -
  have "(0x0F :: byte) = mask 4" by (simp add: mask_eq_exp_minus_1)
  then have "x AND 0x0F = take_bit 4 x" by (simp add: take_bit_eq_mask)
  then show ?thesis by (intro bit_word_eqI) (auto simp: bit_simps)
qed

text \<open>\<^verbatim>\<open>u8::is_ascii_digit\<close>.\<close>

definition is_ascii_digit :: "char \<Rightarrow> bool" where
  "is_ascii_digit c \<longleftrightarrow> 48 \<le> (of_char c :: nat) \<and> (of_char c :: nat) \<le> 57"

lemma is_ascii_digit_digit_char [simp]: "d < 10 \<Longrightarrow> is_ascii_digit (digit_char d)"
  by (simp add: is_ascii_digit_def digit_char_def)

lemma digit_char_of_digit: "is_ascii_digit c \<Longrightarrow> c = digit_char (of_char c - 48)"
  by (simp add: is_ascii_digit_def digit_char_def)

lemma show_nat_is_digits: "list_all is_ascii_digit (show_nat n)"
  using show_nat_digits by (fastforce simp: list_all_iff)

lemma unat_of_char [simp]: "unat (of_char c :: byte) = of_char c"
proof -
  have "(of_char c :: nat) < 256" by (metis of_char_mod_256 mod_less_divisor zero_less_numeral)
  then have "unat (of_nat (of_char c) :: byte) = of_char c" by (simp add: unsigned_of_nat take_bit_nat_eq_self)
  then show ?thesis by (simp only: of_nat_of_char)
qed

end
