(* ===== verification/Emv.thy ===== *)
theory Emv
  imports Bytes "HOL-Library.Sublist"
begin

text \<open>
  \<^verbatim>\<open>op-emv\<close>: BER-TLV tags (\<^verbatim>\<open>tag.rs\<close>), the streaming reader (\<^verbatim>\<open>stream.rs\<close>) and the owned tree (\<^verbatim>\<open>tree.rs\<close>).
  A tag is its \<^verbatim>\<open>u32\<close>, the reader a record of buffer, position, base offset and failure flag; a buffer is a list, and an index
  into it is guarded the way the source guards it.  The tree parser recurses into the values of constructed entries;
  it terminates because every entry is longer than its value.
\<close>

section \<open>Errors and tags\<close>

datatype emv_error =
    UnexpectedEof nat
  | TagTooLong nat
  | IndefiniteLength nat
  | LengthTooLong nat nat
  | LengthExceedsBuffer nat nat nat
  | NotConstructed "32 word" nat
  | InvalidTag "32 word" nat string

datatype tag_class = Universal | Application | ContextSpecific | Private

definition from_first_byte :: "byte \<Rightarrow> tag_class" where
  "from_first_byte b =
     (let c = drop_bit 6 b in
      if c = 0 then Universal else if c = 1 then Application else if c = 2 then ContextSpecific else Private)"

type_synonym tag = "32 word"

lemma drop_bit_8_unat: "unat (drop_bit 8 t :: tag) = unat t div 256"
  by (simp add: drop_bit_eq_div unat_div)

text \<open>The loop that shifts the tag down to its first byte; it runs at most three times.\<close>

function first_byte_loop :: "tag \<Rightarrow> tag" where
  "first_byte_loop t = (if 0xFF < t then first_byte_loop (drop_bit 8 t) else t)"
  by pat_completeness auto

termination
  by (relation "measure unat") (auto simp: drop_bit_8_unat word_less_nat_alt)

declare first_byte_loop.simps [simp del]

definition first_byte :: "tag \<Rightarrow> byte" where
  "first_byte t = ucast (first_byte_loop t)"

definition tag_class_of :: "tag \<Rightarrow> tag_class" where
  "tag_class_of t = from_first_byte (first_byte t)"

definition is_constructed :: "tag \<Rightarrow> bool" where
  "is_constructed t \<longleftrightarrow> first_byte t AND 0x20 \<noteq> 0"

definition wire_len :: "tag \<Rightarrow> nat" where
  "wire_len t = (if 0x00FFFFFF < t then 4 else if 0x0000FFFF < t then 3 else if 0x000000FF < t then 2 else 1)"

text \<open>\<open>tag_read_more\<close> is the loop of \<^verbatim>\<open>Tag::read\<close> over continuation bytes.\<close>

function tag_read_more :: "byte list \<Rightarrow> nat \<Rightarrow> tag \<Rightarrow> nat \<Rightarrow> (tag \<times> nat, emv_error) result" where
  "tag_read_more buf start val consumed =
     (if start + consumed \<ge> length buf then Err (UnexpectedEof (start + consumed))
      else let b = buf ! (start + consumed);
               val' = be_step b val
        in if Suc consumed > 4 then Err (TagTooLong start)
           else if b AND 0x80 = 0 then Ok (val', Suc consumed)
           else tag_read_more buf start val' (Suc consumed))"
  by pat_completeness auto

termination
  by (relation "measure (\<lambda>(_, _, _, consumed). 5 - consumed)") auto

declare tag_read_more.simps [simp del]

definition tag_read :: "byte list \<Rightarrow> nat \<Rightarrow> (tag \<times> nat, emv_error) result" where
  "tag_read buf start =
     (if start \<ge> length buf then Err (UnexpectedEof start)
      else let first = buf ! start in
        if first AND 0x1F \<noteq> 0x1F then Ok (ucast first, 1)
        else tag_read_more buf start (ucast first) 1)"

text \<open>\<^verbatim>\<open>Tag::write\<close> into a caller's buffer: the buffer afterwards and the number of bytes written.\<close>

definition tag_write :: "tag \<Rightarrow> byte list \<Rightarrow> (byte list \<times> nat, emv_error) result" where
  "tag_write t buf =
     (let n = wire_len t in
      if length buf < n then Err (LengthExceedsBuffer n (length buf) 0)
      else Ok (drop (4 - n) (be_bytes 4 t) @ drop n buf, n))"

section \<open>The streaming reader\<close>

record tlv_ref =
  tr_tag :: tag
  tr_value :: "byte list"
  tr_offset :: nat
  tr_value_offset :: nat

record tlv_iter =
  it_buf :: "byte list"
  it_pos :: nat
  it_base_offset :: nat
  it_failed :: bool

definition iter_new :: "byte list \<Rightarrow> tlv_iter" where
  "iter_new buf = \<lparr>it_buf = buf, it_pos = 0, it_base_offset = 0, it_failed = False\<rparr>"

definition with_base_offset :: "byte list \<Rightarrow> nat \<Rightarrow> tlv_iter" where
  "with_base_offset buf base = \<lparr>it_buf = buf, it_pos = 0, it_base_offset = base, it_failed = False\<rparr>"

definition tlv_children :: "tlv_ref \<Rightarrow> (tlv_iter, emv_error) result" where
  "tlv_children r =
     (if \<not> is_constructed (tr_tag r) then Err (NotConstructed (tr_tag r) (tr_offset r))
      else Ok (with_base_offset (tr_value r) (tr_value_offset r)))"

definition read_length :: "tlv_iter \<Rightarrow> tlv_iter \<times> (nat, emv_error) result" where
  "read_length it =
     (if it_pos it \<ge> length (it_buf it) then (it, Err (UnexpectedEof (it_base_offset it + it_pos it)))
      else
        let first = it_buf it ! it_pos it;
            it = it\<lparr>it_pos := it_pos it + 1\<rparr>
        in if first AND 0x80 = 0 then (it, Ok (unat first))
           else let n_bytes = unat (first AND 0x7F) in
             if n_bytes = 0 then (it, Err (IndefiniteLength (it_base_offset it + it_pos it - 1)))
             else if n_bytes > 4 then (it, Err (LengthTooLong n_bytes (it_base_offset it + it_pos it - 1)))
             else if it_pos it + n_bytes > length (it_buf it)
             then (it, Err (UnexpectedEof (it_base_offset it + it_pos it + n_bytes)))
             else (it\<lparr>it_pos := it_pos it + n_bytes\<rparr>, Ok (be_usize (take n_bytes (drop (it_pos it) (it_buf it))))))"

text \<open>The loop that skips zero padding.\<close>

function skip_padding :: "byte list \<Rightarrow> nat \<Rightarrow> nat" where
  "skip_padding buf pos = (if pos < length buf \<and> buf ! pos = 0 then skip_padding buf (pos + 1) else pos)"
  by pat_completeness auto

termination
  by (relation "measure (\<lambda>(buf, pos). length buf - pos)") auto

declare skip_padding.simps [simp del]

fun rebase :: "nat \<Rightarrow> emv_error \<Rightarrow> emv_error" where
  "rebase base (UnexpectedEof off) = UnexpectedEof (base + off)"
| "rebase base (TagTooLong off) = TagTooLong (base + off)"
| "rebase base e = e"

definition tlv_next :: "tlv_iter \<Rightarrow> tlv_iter \<times> (tlv_ref, emv_error) result option" where
  "tlv_next it =
     (if it_failed it then (it, None)
      else let it = it\<lparr>it_pos := skip_padding (it_buf it) (it_pos it)\<rparr> in
        if it_pos it \<ge> length (it_buf it) then (it, None)
        else let entry_start = it_pos it in
          case tag_read (it_buf it) (it_pos it) of
            Err e \<Rightarrow> (it\<lparr>it_failed := True\<rparr>, Some (Err (rebase (it_base_offset it) e)))
          | Panic \<Rightarrow> (it, Some Panic)
          | Ok (tg, tag_len) \<Rightarrow>
              let (it, len_r) = read_length (it\<lparr>it_pos := it_pos it + tag_len\<rparr>) in
              case len_r of
                Err e \<Rightarrow> (it\<lparr>it_failed := True\<rparr>, Some (Err e))
              | Panic \<Rightarrow> (it, Some Panic)
              | Ok len \<Rightarrow>
                  let remaining = length (it_buf it) - it_pos it in
                  if len > remaining
                  then (it\<lparr>it_failed := True\<rparr>, Some (Err (LengthExceedsBuffer len remaining (it_base_offset it + it_pos it))))
                  else (it\<lparr>it_pos := it_pos it + len\<rparr>,
                        Some (Ok \<lparr>tr_tag = tg, tr_value = take len (drop (it_pos it) (it_buf it)),
                                  tr_offset = it_base_offset it + entry_start, tr_value_offset = it_base_offset it + it_pos it\<rparr>)))"

section \<open>Tags on the wire\<close>

definition length_len :: "nat \<Rightarrow> nat" where
  "length_len n = (if n < 0x80 then 1 else if n < 0x100 then 2 else if n < 0x10000 then 3 else if n < 0x1000000 then 4 else 5)"

text \<open>The tags the format has: not a padding byte, one byte without the continuation mark, or up to four bytes whose
  continuation bits are set on all but the last.\<close>

definition tag_bytes_wf :: "byte list \<Rightarrow> bool" where
  "tag_bytes_wf bs \<longleftrightarrow> bs \<noteq> [] \<and> length bs \<le> 4 \<and> hd bs \<noteq> 0
     \<and> (if length bs = 1 then hd bs AND 0x1F \<noteq> 0x1F
        else hd bs AND 0x1F = 0x1F \<and> list_all (\<lambda>b. b AND 0x80 \<noteq> 0) (butlast (tl bs)) \<and> List.last bs AND 0x80 = 0)"

definition tag_wf :: "tag \<Rightarrow> bool" where
  "tag_wf t \<longleftrightarrow> tag_bytes_wf (be_bytes (wire_len t) t)"

lemma wire_len_bounds: "1 \<le> wire_len t" "wire_len t \<le> 4"
  by (simp_all add: wire_len_def)

lemma unat_less_wire_len: "unat t < 256 ^ wire_len t"
proof -
  have "unat t < 2 ^ 32" by (rule order_less_le_trans [OF unsigned_less]) simp
  then show ?thesis by (auto simp: wire_len_def word_less_nat_alt)
qed

lemma wire_len_be_word:
  assumes "b \<noteq> 0" and "length bs \<le> 3"
  shows "wire_len (be_word (b # bs)) = Suc (length bs)"
proof -
  have u: "unat (be_word (b # bs) :: tag) = unat b * 256 ^ length bs + be_nat bs"
    using assms(2) by (simp add: unat_be_word be_nat_Cons)
  have b: "1 \<le> unat b" "unat b < 256" using assms(1) by (simp_all add: unat_gt_0 Suc_leI)
  have lo: "256 ^ length bs \<le> unat b * 256 ^ length bs" using b(1) by simp
  have hi: "unat b * 256 ^ length bs + be_nat bs < 256 * 256 ^ length bs"
    using be_nat_less [of "b # bs"] by (simp add: be_nat_Cons)
  have "length bs = 0 \<or> length bs = 1 \<or> length bs = 2 \<or> length bs = 3" using assms(2) by linarith
  moreover have "unat b \<le> 255" using b(2) by linarith
  ultimately show ?thesis using u lo hi by (auto simp: wire_len_def word_less_nat_alt)
qed

lemma be_word_tag: "be_word (be_bytes (wire_len t) t) = t"
  by (rule be_word_be_bytes [OF unat_less_wire_len])

lemma be_bytes_be_word:
  assumes "length bs = n" and "8 * n \<le> LENGTH('a)"
  shows "be_bytes n (be_word bs :: 'a :: len word) = bs"
proof (rule nth_equalityI)
  show "length (be_bytes n (be_word bs :: 'a word)) = length bs" using assms(1) by simp
next
  fix i assume "i < length (be_bytes n (be_word bs :: 'a word))"
  then have i: "i < n" by simp
  show "be_bytes n (be_word bs :: 'a word) ! i = bs ! i"
  proof (rule bit_word_eqI)
    fix k assume k: "k < LENGTH(8)"
    then have d: "(8 * (n - 1 - i) + k) div 8 = n - 1 - i" "(8 * (n - 1 - i) + k) mod 8 = k" by simp_all
    have lt: "8 * (n - 1 - i) + k < 8 * n" using i k by simp
    have "rev bs ! (n - 1 - i) = bs ! i" using i assms(1) by (simp add: rev_nth)
    then show "bit (be_bytes n (be_word bs :: 'a word) ! i) k \<longleftrightarrow> bit (bs ! i) k"
      using i k d lt assms by (simp add: be_bytes_nth bit_ucast_iff bit_drop_bit_eq bit_be_word)
  qed
qed

lemma tag_wf_be_word:
  assumes "tag_bytes_wf bs"
  shows "tag_wf (be_word bs) \<and> wire_len (be_word bs) = length bs"
proof -
  obtain b cs where bs: "bs = b # cs" "b \<noteq> 0" "length cs \<le> 3" using assms by (cases bs) (auto simp: tag_bytes_wf_def)
  then have "wire_len (be_word bs) = length bs" using wire_len_be_word by simp
  moreover from this have "be_bytes (wire_len (be_word bs)) (be_word bs :: tag) = bs"
    using bs by (intro be_bytes_be_word) simp_all
  ultimately show ?thesis using assms by (simp add: tag_wf_def)
qed

section \<open>Progress of the readers\<close>

lemma tag_read_more_Ok:
  assumes "tag_read_more (pre @ bs @ rest) (length pre) (be_word bs) (length bs) = Ok (t, n)"
  obtains cs where "prefix cs rest" and "t = be_word (bs @ cs)" and "n = length (bs @ cs)" and "cs \<noteq> []" and "n \<le> 4"
    and "list_all (\<lambda>b. b AND 0x80 \<noteq> 0) (butlast cs)" and "List.last cs AND 0x80 = 0"
proof -
  have "\<exists>cs. prefix cs rest \<and> t = be_word (bs @ cs) \<and> n = length (bs @ cs) \<and> cs \<noteq> [] \<and> n \<le> 4
      \<and> list_all (\<lambda>b. b AND 0x80 \<noteq> 0) (butlast cs) \<and> List.last cs AND 0x80 = 0"
    using assms
  proof (induction rest arbitrary: bs)
    case Nil
    then show ?case by (subst (asm) tag_read_more.simps) simp
  next
    case (Cons b rest)
    show ?case
    proof (cases "b AND 0x80 = 0")
      case True
      then have "t = be_word (bs @ [b]) \<and> n = Suc (length bs) \<and> n \<le> 4"
        using Cons.prems by (subst (asm) tag_read_more.simps) (simp add: Let_def nth_append be_word_snoc split: if_splits)
      then show ?thesis using True by (intro exI [of _ "[b]"]) simp
    next
      case False
      then have "tag_read_more (pre @ (bs @ [b]) @ rest) (length pre) (be_word (bs @ [b])) (length (bs @ [b])) = Ok (t, n)"
        using Cons.prems by (subst (asm) tag_read_more.simps) (simp add: Let_def nth_append be_word_snoc split: if_splits)
      from Cons.IH [OF this] obtain cs where "prefix cs rest" "t = be_word (bs @ b # cs)" "n = length (bs @ b # cs)" "cs \<noteq> []" "n \<le> 4"
        "list_all (\<lambda>b. b AND 0x80 \<noteq> 0) (butlast cs)" "List.last cs AND 0x80 = 0" by auto
      then show ?thesis using False by (intro exI [of _ "b # cs"]) simp
    qed
  qed
  then show thesis using that by blast
qed

lemma tag_read_more_encoded:
  assumes "list_all (\<lambda>b. b AND 0x80 \<noteq> 0) (butlast cs)" and "List.last cs AND 0x80 = 0" and "cs \<noteq> []"
    and "length (bs @ cs) \<le> 4"
  shows "tag_read_more (pre @ bs @ cs @ rest) (length pre) (be_word bs) (length bs) = Ok (be_word (bs @ cs), length (bs @ cs))"
  using assms
proof (induction cs arbitrary: bs)
  case (Cons b cs)
  show ?case
  proof (cases "cs = []")
    case True
    then show ?thesis using Cons.prems
      by (subst tag_read_more.simps) (simp add: Let_def nth_append be_word_snoc)
  next
    case False
    have "tag_read_more (pre @ (bs @ [b]) @ cs @ rest) (length pre) (be_word (bs @ [b])) (length (bs @ [b])) =
        Ok (be_word ((bs @ [b]) @ cs), length ((bs @ [b]) @ cs))"
      using Cons.prems False by (intro Cons.IH) simp_all
    then show ?thesis using Cons.prems False
      by (subst tag_read_more.simps) (auto simp add: Let_def nth_append be_word_snoc)
  qed
qed simp

lemma tag_read_more_not_Panic: "tag_read_more buf start v consumed \<noteq> Panic"
  by (induction buf start v consumed rule: tag_read_more.induct)
    (subst tag_read_more.simps, simp add: Let_def)

lemma be_word_single: "be_word [b] = (ucast b :: tag)"
  by (simp add: be_word_def be_step_def)

text \<open>Reading a tag that does not start with padding yields a well-formed tag and its exact width, and conversely.\<close>

lemma tag_read_Ok:
  assumes "tag_read (pre @ rest) (length pre) = Ok (t, n)" and "rest \<noteq> []" and "hd rest \<noteq> 0"
  shows "tag_wf t \<and> n = wire_len t \<and> n \<le> length rest"
proof -
  obtain b rest' where rest: "rest = b # rest'" "b \<noteq> 0" using assms(2,3) by (cases rest) auto
  show ?thesis
  proof (cases "b AND 0x1F = 0x1F")
    case False
    then have "t = be_word [b]" "n = 1" using assms(1) rest by (simp_all add: tag_read_def Let_def nth_append be_word_single)
    then show ?thesis using tag_wf_be_word [of "[b]"] False rest by (simp add: tag_bytes_wf_def)
  next
    case True
    then have "tag_read_more (pre @ [b] @ rest') (length pre) (be_word [b]) (length [b]) = Ok (t, n)"
      using assms(1) rest by (simp add: tag_read_def Let_def nth_append be_word_single)
    from tag_read_more_Ok [OF this] obtain cs where cs: "prefix cs rest'" "t = be_word (b # cs)" "n = length (b # cs)"
        "cs \<noteq> []" "n \<le> 4" "list_all (\<lambda>b. b AND 0x80 \<noteq> 0) (butlast cs)" "List.last cs AND 0x80 = 0" by auto
    have "tag_bytes_wf (b # cs)" using True rest cs by (simp add: tag_bytes_wf_def)
    then show ?thesis using tag_wf_be_word [of "b # cs"] cs rest prefix_length_le [OF cs(1)] by simp
  qed
qed

lemma tag_read_encoded:
  assumes "tag_wf t"
  shows "tag_read (pre @ be_bytes (wire_len t) t @ rest) (length pre) = Ok (t, wire_len t)"
proof -
  obtain b cs where bs: "be_bytes (wire_len t) t = b # cs" and wf: "tag_bytes_wf (b # cs)"
    using assms by (cases "be_bytes (wire_len t) t") (auto simp: tag_wf_def tag_bytes_wf_def)
  have t: "be_word (b # cs) = t" using be_word_tag [of t] bs by simp
  have n: "wire_len t = Suc (length cs)" using be_bytes_length [of "wire_len t" t] by (simp add: bs)
  show ?thesis
  proof (cases "cs = []")
    case True
    then show ?thesis using wf t n bs
      by (simp add: tag_read_def Let_def nth_append tag_bytes_wf_def be_word_single)
  next
    case False
    then have "tag_read_more (pre @ [b] @ cs @ rest) (length pre) (be_word [b]) (length [b]) = Ok (be_word ([b] @ cs), length ([b] @ cs))"
      using wf by (intro tag_read_more_encoded) (auto simp: tag_bytes_wf_def)
    then show ?thesis using wf t n bs False
      by (auto simp: tag_read_def Let_def nth_append tag_bytes_wf_def be_word_single)
  qed
qed

lemma tag_read_not_Panic: "tag_read buf start \<noteq> Panic"
  by (simp add: tag_read_def Let_def tag_read_more_not_Panic)

lemma read_length_Ok:
  assumes "read_length it = (it', Ok n)"
  obtains p where "it' = it\<lparr>it_pos := p\<rparr>" and "it_pos it + length_len n \<le> p" and "p \<le> length (it_buf it)" and "n < 2 ^ 32"
proof -
  define first where "first = it_buf it ! it_pos it"
  define k where "k = unat (first AND 0x7F)"
  define xs where "xs = take k (drop (it_pos it + 1) (it_buf it))"
  have inb: "it_pos it < length (it_buf it)" using assms by (auto simp: read_length_def split: if_splits)
  show thesis
  proof (cases "first AND 0x80 = 0")
    case True
    then have "it' = it\<lparr>it_pos := it_pos it + 1\<rparr>" "n = unat first"
      using assms inb by (auto simp: read_length_def Let_def first_def [symmetric])
    moreover have "unat first < 0x80" using True byte_and_80 by blast
    ultimately show thesis using inb by (intro that [of "it_pos it + 1"]) (simp_all add: length_len_def)
  next
    case False
    then have r: "it' = it\<lparr>it_pos := it_pos it + 1 + k\<rparr>" "n = be_usize xs" "k \<noteq> 0" "k \<le> 4" "it_pos it + 1 + k \<le> length (it_buf it)"
      using assms inb by (auto simp: read_length_def Let_def first_def [symmetric] k_def [symmetric] xs_def split: if_splits)
    then have len: "length xs = k" by (simp add: xs_def)
    then have n: "n < 256 ^ k" using r be_nat_less [of xs] by (simp add: be_usize_eq_be_nat)
    have "k = 1 \<or> k = 2 \<or> k = 3 \<or> k = 4" using r(3,4) by linarith
    then have "length_len n \<le> 1 + k" "n < 2 ^ 32" using n by (auto simp: length_len_def)
    then show thesis using r by (intro that [of "it_pos it + 1 + k"]) simp_all
  qed
qed

lemma read_length_not_Panic: "snd (read_length it) \<noteq> Panic"
  by (simp add: read_length_def Let_def)

lemma skip_padding_ge: "pos \<le> skip_padding buf pos"
  by (induction buf pos rule: skip_padding.induct) (subst skip_padding.simps, auto)

lemma skip_padding_stop: "skip_padding buf pos < length buf \<Longrightarrow> buf ! skip_padding buf pos \<noteq> 0"
proof (induction buf pos rule: skip_padding.induct)
  case (1 buf pos)
  then show ?case using skip_padding.simps [of buf pos] by (auto split: if_splits)
qed

lemma tlv_next_Ok:
  assumes "tlv_next it = (it', Some (Ok r))"
  obtains q where "it' = it\<lparr>it_pos := q\<rparr>" and "q \<le> length (it_buf it)"
    and "it_pos it + wire_len (tr_tag r) + length_len (length (tr_value r)) + length (tr_value r) \<le> q"
    and "tr_value r = take (length (tr_value r)) (drop (q - length (tr_value r)) (it_buf it))"
    and "tr_value_offset r = it_base_offset it + (q - length (tr_value r))"
    and "length (tr_value r) < 2 ^ 32" and "tag_wf (tr_tag r)"
proof -
  define p where "p = skip_padding (it_buf it) (it_pos it)"
  have nf: "\<not> it_failed it" using assms by (auto simp: tlv_next_def)
  have p: "it_pos it \<le> p" "p < length (it_buf it)"
    using assms nf by (auto simp: tlv_next_def p_def skip_padding_ge Let_def split: if_splits)
  obtain t n where t: "tag_read (it_buf it) p = Ok (t, n)"
    using assms nf p by (cases "tag_read (it_buf it) p") (auto simp: tlv_next_def p_def Let_def)
  have tw: "tag_wf t \<and> n = wire_len t"
    using tag_read_Ok [of "take p (it_buf it)" "drop p (it_buf it)" t n] t p skip_padding_stop [of "it_buf it" "it_pos it"]
    by (simp add: p_def [symmetric] hd_drop_conv_nth min_def)
  obtain it2 lr where l: "read_length (it\<lparr>it_pos := p + n\<rparr>) = (it2, lr)" by fastforce
  obtain len where len: "lr = Ok len"
    using assms nf p t l by (cases lr) (auto simp: tlv_next_def p_def Let_def)
  obtain q where q: "it2 = it\<lparr>it_pos := q\<rparr>" "p + n + length_len len \<le> q" "q \<le> length (it_buf it)" "len < 2 ^ 32"
    using read_length_Ok [OF l [unfolded len]] by auto
  have fits: "len \<le> length (it_buf it) - q"
    using assms nf p t l len q by (auto simp: tlv_next_def p_def Let_def split: if_splits)
  have r: "it' = it\<lparr>it_pos := q + len\<rparr>"
    "r = \<lparr>tr_tag = t, tr_value = take len (drop q (it_buf it)), tr_offset = it_base_offset it + p, tr_value_offset = it_base_offset it + q\<rparr>"
    using assms nf p t l len q fits by (auto simp: tlv_next_def p_def [symmetric] Let_def)
  show thesis
    using that [of "q + len"] r fits p q tw by simp
qed

lemma tlv_next_progress:
  assumes "tlv_next it = (it', Some (Ok r))"
  shows "it_buf it' = it_buf it \<and> it_pos it + 2 + length (tr_value r) \<le> it_pos it' \<and> it_pos it' \<le> length (it_buf it)"
proof (rule tlv_next_Ok [OF assms])
  fix q assume "it' = it\<lparr>it_pos := q\<rparr>" "q \<le> length (it_buf it)"
    "it_pos it + wire_len (tr_tag r) + length_len (length (tr_value r)) + length (tr_value r) \<le> q"
  moreover have "1 \<le> length_len (length (tr_value r))" by (simp add: length_len_def)
  ultimately show ?thesis using wire_len_bounds(1) [of "tr_tag r"] by simp
qed

lemma tlv_next_not_Panic: "snd (tlv_next it) \<noteq> Some Panic"
  using read_length_not_Panic tag_read_not_Panic
  by (auto simp: tlv_next_def Let_def split: result.splits prod.splits) (metis snd_conv)+

section \<open>The owned tree\<close>

datatype tlv = Tlv (tlv_tag: tag) (tlv_body: tlv_body)
  and tlv_body = Primitive "byte list" | Constructed "tlv list"

text \<open>\<open>tlv_loop\<close> is the \<^verbatim>\<open>for\<close> loop of \<^verbatim>\<open>parse_all\<close> and of the constructed case of \<^verbatim>\<open>from_ref\<close>.\<close>

function tlv_loop :: "tlv_iter \<Rightarrow> (tlv list, emv_error) result"
  and from_ref :: "tlv_ref \<Rightarrow> (tlv, emv_error) result" where
  "tlv_loop it =
     (case tlv_next it of
        (_, None) \<Rightarrow> Ok []
      | (_, Some (Err e)) \<Rightarrow> Err e
      | (_, Some Panic) \<Rightarrow> Panic
      | (it', Some (Ok r)) \<Rightarrow>
          (case from_ref r of
             Ok t \<Rightarrow> rbind (tlv_loop it') (\<lambda>ts. Ok (t # ts))
           | Err e \<Rightarrow> Err e
           | Panic \<Rightarrow> Panic))"
| "from_ref r =
     (if is_constructed (tr_tag r)
      then rbind (tlv_loop (with_base_offset (tr_value r) (tr_value_offset r))) (\<lambda>cs. Ok (Tlv (tr_tag r) (Constructed cs)))
      else Ok (Tlv (tr_tag r) (Primitive (tr_value r))))"
  by pat_completeness auto

termination
proof (relation "measure (\<lambda>x. case x of Inl it \<Rightarrow> 2 * (length (it_buf it) - it_pos it) | Inr r \<Rightarrow> 2 * length (tr_value r) + 1)", goal_cases)
  case 1
  show ?case by simp
next
  case (2 it x1 x2 x2a x1a)
  then have "tlv_next it = (x1, Some (Ok x1a))" by simp
  from tlv_next_progress [OF this] show ?case by auto
next
  case (3 it x1 x2 x2a x1a x1b)
  then have "tlv_next it = (x1, Some (Ok x1a))" by simp
  from tlv_next_progress [OF this] show ?case by auto
next
  case (4 r)
  show ?case by (simp add: with_base_offset_def)
qed

declare tlv_loop.simps [simp del] from_ref.simps [simp del]

definition parse_all :: "byte list \<Rightarrow> (tlv list, emv_error) result" where
  "parse_all buf = tlv_loop (iter_new buf)"

fun find_tlv :: "tag \<Rightarrow> tlv \<Rightarrow> tlv option"
  and find_tlv_list :: "tag \<Rightarrow> tlv list \<Rightarrow> tlv option" where
  "find_tlv tg (Tlv t b) =
     (if t = tg then Some (Tlv t b)
      else case b of Constructed cs \<Rightarrow> find_tlv_list tg cs | Primitive _ \<Rightarrow> None)"
| "find_tlv_list tg [] = None"
| "find_tlv_list tg (c # cs) = (case find_tlv tg c of Some hit \<Rightarrow> Some hit | None \<Rightarrow> find_tlv_list tg cs)"

definition primitive :: "tlv \<Rightarrow> byte list option" where
  "primitive t = (case tlv_body t of Primitive b \<Rightarrow> Some b | Constructed _ \<Rightarrow> None)"

fun encoded_len :: "tlv \<Rightarrow> nat" and value_len :: "tlv_body \<Rightarrow> nat" where
  "encoded_len (Tlv t b) = wire_len t + length_len (value_len b) + value_len b"
| "value_len (Primitive v) = length v"
| "value_len (Constructed cs) = sum_list (map encoded_len cs)"

section \<open>A reference encoder\<close>

text \<open>The canonical encoding: minimal lengths, no padding.  The crate itself only has \<^verbatim>\<open>Tag::write\<close> and
  \<^verbatim>\<open>encoded_len\<close>; this is what the parser is measured against.\<close>

definition enc_length :: "nat \<Rightarrow> byte list" where
  "enc_length n =
     (if n < 0x80 then [of_nat n]
      else if n < 0x100 then 0x81 # be_bytes 1 (of_nat n :: 32 word)
      else if n < 0x10000 then 0x82 # be_bytes 2 (of_nat n :: 32 word)
      else if n < 0x1000000 then 0x83 # be_bytes 3 (of_nat n :: 32 word)
      else 0x84 # be_bytes 4 (of_nat n :: 32 word))"

fun tlv_encode :: "tlv \<Rightarrow> byte list" and body_encode :: "tlv_body \<Rightarrow> byte list" where
  "tlv_encode (Tlv t b) = be_bytes (wire_len t) t @ enc_length (length (body_encode b)) @ body_encode b"
| "body_encode (Primitive v) = v"
| "body_encode (Constructed cs) = concat (map tlv_encode cs)"

fun tlv_wf :: "tlv \<Rightarrow> bool" and body_wf :: "tag \<Rightarrow> tlv_body \<Rightarrow> bool" where
  "tlv_wf (Tlv t b) \<longleftrightarrow> tag_wf t \<and> body_wf t b \<and> value_len b < 2 ^ 32"
| "body_wf t (Primitive v) \<longleftrightarrow> \<not> is_constructed t"
| "body_wf t (Constructed cs) \<longleftrightarrow> is_constructed t \<and> list_all tlv_wf cs"

lemma enc_length_length [simp]: "length (enc_length n) = length_len n"
  by (simp add: enc_length_def length_len_def)

lemma tlv_encode_length: "length (tlv_encode t) = encoded_len t" and body_encode_length: "length (body_encode b) = value_len b"
  by (induction t and b) (simp_all add: length_concat comp_def cong: map_cong)

lemma enc_length_cases:
  assumes "n < 2 ^ 32"
  shows "(n < 0x80 \<and> enc_length n = [of_nat n])
    \<or> (\<exists>k h. 1 \<le> k \<and> k \<le> 4 \<and> enc_length n = h # be_bytes k (of_nat n :: 32 word) \<and> n < 256 ^ k
        \<and> h AND 0x80 \<noteq> 0 \<and> unat (h AND 0x7F) = k)"
proof -
  consider "n < 0x80" | "0x80 \<le> n" "n < 0x100" | "0x100 \<le> n" "n < 0x10000" | "0x10000 \<le> n" "n < 0x1000000" | "0x1000000 \<le> n"
    by linarith
  then show ?thesis
  proof cases
    case 1
    then show ?thesis by (simp add: enc_length_def)
  next
    case 2
    then show ?thesis by (intro disjI2 exI [of _ 1] exI [of _ "0x81"]) (simp add: enc_length_def)
  next
    case 3
    then show ?thesis by (intro disjI2 exI [of _ 2] exI [of _ "0x82"]) (simp add: enc_length_def)
  next
    case 4
    then show ?thesis by (intro disjI2 exI [of _ 3] exI [of _ "0x83"]) (simp add: enc_length_def)
  next
    case 5
    then show ?thesis using assms by (intro disjI2 exI [of _ 4] exI [of _ "0x84"]) (simp add: enc_length_def)
  qed
qed

lemma read_length_encoded:
  assumes "n < 2 ^ 32" and "it_buf it = pre @ enc_length n @ rest" and "it_pos it = length pre"
  shows "read_length it = (it\<lparr>it_pos := length pre + length_len n\<rparr>, Ok n)"
  using enc_length_cases [OF assms(1)]
proof (elim disjE conjE exE)
  assume n: "n < 0x80" "enc_length n = [of_nat n]"
  then have u: "unat (of_nat n :: byte) = n" by (simp add: unsigned_of_nat take_bit_nat_eq_self)
  with n show ?thesis using assms(2,3) byte_and_80 [of "of_nat n"]
    by (simp add: read_length_def Let_def nth_append length_len_def)
next
  fix k h assume k: "1 \<le> k" "k \<le> 4" "enc_length n = h # be_bytes k (of_nat n :: 32 word)" "n < 256 ^ k"
    "h AND 0x80 \<noteq> 0" "unat (h AND 0x7F) = k"
  have u: "unat (of_nat n :: 32 word) = n" using assms(1) by (simp add: unsigned_of_nat take_bit_nat_eq_self)
  have v: "be_usize (be_bytes k (of_nat n :: 32 word)) = n"
    using k(2,4) u by (simp add: be_usize_eq_be_nat be_nat_be_bytes)
  have "length_len n = Suc k" using k(3) enc_length_length [of n] by simp
  then show ?thesis using assms(2,3) k v by (simp add: read_length_def Let_def nth_append)
qed

lemma skip_padding_replicate:
  "xs \<noteq> [] \<longrightarrow> hd xs \<noteq> 0 \<Longrightarrow> skip_padding (pre @ replicate k 0 @ xs) (length pre) = length pre + k"
proof (induction k arbitrary: pre)
  case 0
  then show ?case by (subst skip_padding.simps) (auto simp: nth_append hd_conv_nth)
next
  case (Suc k)
  have "skip_padding ((pre @ [0]) @ replicate k 0 @ xs) (length (pre @ [0])) = length (pre @ [0]) + k"
    using Suc by blast
  then show ?case by (subst skip_padding.simps) (simp add: nth_append replicate_app_Cons_same)
qed

lemma encoded_hd: "tag_wf t \<Longrightarrow> be_bytes (wire_len t) t \<noteq> [] \<and> hd (be_bytes (wire_len t) t @ xs) \<noteq> 0"
  by (cases "be_bytes (wire_len t) t") (auto simp: tag_wf_def tag_bytes_wf_def)

lemma tlv_next_encoded:
  assumes "tag_wf t" and "length v < 2 ^ 32" and "\<not> it_failed it"
    and "it_buf it = pre @ replicate k 0 @ be_bytes (wire_len t) t @ enc_length (length v) @ v @ rest" and "it_pos it = length pre"
  defines "h \<equiv> length pre + k + wire_len t + length_len (length v)"
  shows "tlv_next it = (it\<lparr>it_pos := h + length v\<rparr>,
     Some (Ok \<lparr>tr_tag = t, tr_value = v, tr_offset = it_base_offset it + (length pre + k), tr_value_offset = it_base_offset it + h\<rparr>))"
proof -
  let ?e = "be_bytes (wire_len t) t" and ?l = "enc_length (length v)"
  let ?it = "it\<lparr>it_pos := length pre + k + wire_len t\<rparr>"
  have sp: "skip_padding (it_buf it) (it_pos it) = length pre + k"
    unfolding assms(4,5) using encoded_hd [OF assms(1), of "[]"] by (intro skip_padding_replicate) auto
  have tg: "tag_read (it_buf it) (length pre + k) = Ok (t, wire_len t)"
    using tag_read_encoded [OF assms(1), of "pre @ replicate k 0" "?l @ v @ rest"] by (simp add: assms(4))
  have buf: "it_buf ?it = (pre @ replicate k 0 @ ?e) @ ?l @ v @ rest" by (simp add: assms(4))
  have ln: "read_length ?it = (it\<lparr>it_pos := h\<rparr>, Ok (length v))"
    using read_length_encoded [OF assms(2) buf] by (simp add: h_def add.assoc)
  have vl: "take (length v) (drop h (it_buf it)) = v"
    by (simp add: assms(4) h_def drop_append)
  have bl: "length (it_buf it) = h + length v + length rest" by (simp add: assms(4) h_def)
  have pl: "\<not> length (it_buf it) \<le> length pre + k"
    unfolding bl h_def using wire_len_bounds(1) [of t] by linarith
  show ?thesis using assms(3) sp tg ln vl bl pl by (simp add: tlv_next_def Let_def)
qed

lemma tlv_next_end:
  assumes "it_buf it = pre @ replicate k 0" and "it_pos it = length pre"
  shows "snd (tlv_next it) = None"
  using skip_padding_replicate [of "[]" pre k] assms by (simp add: tlv_next_def Let_def)

lemma tlv_loop_end:
  assumes "it_buf it = pre @ replicate k 0" and "it_pos it = length pre"
  shows "tlv_loop it = Ok []"
  using tlv_next_end [OF assms] by (subst tlv_loop.simps) (auto split: prod.split)

section \<open>The parser against the encoder\<close>

text \<open>One entry at the head of the remaining input, whatever surrounds it.\<close>

definition reads_back :: "tlv \<Rightarrow> bool" where
  "reads_back t \<longleftrightarrow> (\<forall>it pre k rest. it_buf it = pre @ replicate k 0 @ tlv_encode t @ rest \<longrightarrow> it_pos it = length pre \<longrightarrow> \<not> it_failed it \<longrightarrow>
     tlv_loop it = rbind (tlv_loop (it\<lparr>it_pos := length pre + k + length (tlv_encode t)\<rparr>)) (\<lambda>ts. Ok (t # ts)))"

lemma tlv_loop_entries:
  assumes "list_all reads_back (map snd kts)" and "\<not> it_failed it" and "it_pos it = length pre"
    and "it_buf it = pre @ concat (map (\<lambda>(k, t). replicate k 0 @ tlv_encode t) kts) @ replicate m 0"
  shows "tlv_loop it = Ok (map snd kts)"
  using assms
proof (induction kts arbitrary: it pre)
  case Nil
  then show ?case by (simp add: tlv_loop_end)
next
  case (Cons kt kts)
  obtain k t where kt: "kt = (k, t)" by fastforce
  let ?it = "it\<lparr>it_pos := length pre + k + length (tlv_encode t)\<rparr>"
  have "tlv_loop it = rbind (tlv_loop ?it) (\<lambda>ts. Ok (t # ts))"
    using Cons.prems unfolding kt by (auto simp: reads_back_def)
  moreover have "tlv_loop ?it = Ok (map snd kts)"
    using Cons.prems by (intro Cons.IH [of ?it "pre @ replicate k 0 @ tlv_encode t"]) (simp_all add: kt)
  ultimately show ?case by (simp add: kt)
qed

lemma from_ref_reads_back:
  assumes "body_wf t b" and "case b of Primitive _ \<Rightarrow> True | Constructed cs \<Rightarrow> list_all reads_back cs"
    and "tr_tag r = t" and "tr_value r = body_encode b"
  shows "from_ref r = Ok (Tlv t b)"
proof (cases b)
  case (Primitive v)
  then show ?thesis using assms by (simp add: from_ref.simps)
next
  case (Constructed cs)
  have "tlv_loop (with_base_offset (tr_value r) (tr_value_offset r)) = Ok (map snd (map (Pair (0 :: nat)) cs))"
    using assms(2,4) Constructed
    by (intro tlv_loop_entries [where pre = "[]" and m = 0]) (simp_all add: with_base_offset_def comp_def)
  then show ?thesis using assms Constructed by (simp add: from_ref.simps comp_def)
qed

lemma reads_back_wf: "tlv_wf t \<Longrightarrow> reads_back t"
  and reads_back_body: "body_wf tg b \<Longrightarrow> (case b of Primitive _ \<Rightarrow> True | Constructed cs \<Rightarrow> list_all reads_back cs)"
proof (induction t and b arbitrary: and tg)
  case (Tlv t b)
  have wf: "body_wf t b" using Tlv.prems by simp
  have ref: "tr_tag r = t \<Longrightarrow> tr_value r = body_encode b \<Longrightarrow> from_ref r = Ok (Tlv t b)" for r
    by (rule from_ref_reads_back [OF wf Tlv.IH [OF wf]])
  show ?case unfolding reads_back_def
  proof (intro allI impI)
    fix it :: tlv_iter and pre k rest
    assume it: "it_buf it = pre @ replicate k 0 @ tlv_encode (Tlv t b) @ rest" "it_pos it = length pre" "\<not> it_failed it"
    have n: "tlv_next it = (it\<lparr>it_pos := length pre + k + length (tlv_encode (Tlv t b))\<rparr>,
        Some (Ok \<lparr>tr_tag = t, tr_value = body_encode b, tr_offset = it_base_offset it + (length pre + k),
          tr_value_offset = it_base_offset it + (length pre + k + wire_len t + length_len (length (body_encode b)))\<rparr>))"
      using tlv_next_encoded [of t "body_encode b" it pre k rest] Tlv.prems it
      by (simp add: body_encode_length add.assoc)
    show "tlv_loop it = rbind (tlv_loop (it\<lparr>it_pos := length pre + k + length (tlv_encode (Tlv t b))\<rparr>)) (\<lambda>ts. Ok (Tlv t b # ts))"
      using n ref by (subst tlv_loop.simps) simp
  qed
qed (auto simp: list_all_iff)

text \<open>
  BER-TLV round trip: the parser reads the canonical encoding of any list of well-formed entries, nested to any depth and with any
  amount of zero padding before, between and after the entries, as exactly that list.
\<close>

theorem tlv_round_trip:
  assumes "list_all (\<lambda>(k, t). tlv_wf t) kts"
  shows "parse_all (concat (map (\<lambda>(k, t). replicate k 0 @ tlv_encode t) kts) @ replicate m 0) = Ok (map snd kts)"
  unfolding parse_all_def
  by (rule tlv_loop_entries [where pre = "[]" and m = m])
    (use assms in \<open>auto simp: iter_new_def list_all_iff reads_back_wf split: prod.splits\<close>)

text \<open>A nested example: an \<^verbatim>\<open>FCI\<close> template holding a name and an empty proprietary template.\<close>

definition sample_tlv :: tlv where
  "sample_tlv = Tlv 0x6F (Constructed [Tlv 0x84 (Primitive [0xAA, 0]), Tlv 0xA5 (Constructed [])])"

lemma sample_tlv_wf: "tlv_wf sample_tlv"
  by (simp add: sample_tlv_def tag_wf_def tag_bytes_wf_def be_bytes_def wire_len_def is_constructed_def first_byte_def
      first_byte_loop.simps length_len_def)

theorem tlv_round_trip_witness:
  "parse_all ([0, 0] @ tlv_encode sample_tlv @ [0]) = Ok [sample_tlv]"
  using tlv_round_trip [of "[(2, sample_tlv)]" 1] sample_tlv_wf by (simp add: numeral_2_eq_2)

section \<open>What a successful parse means\<close>

lemma length_len_mono: "m \<le> n \<Longrightarrow> length_len m \<le> length_len n"
  by (simp add: length_len_def)

lemma parse_sound_aux:
  "tlv_loop it = Ok ts \<Longrightarrow> list_all tlv_wf ts \<and> sum_list (map encoded_len ts) \<le> length (it_buf it) - it_pos it"
  "from_ref r = Ok t \<Longrightarrow> tag_wf (tr_tag r) \<Longrightarrow> length (tr_value r) < 2 ^ 32 \<Longrightarrow>
     tlv_wf t \<and> tlv_tag t = tr_tag r \<and> value_len (tlv_body t) \<le> length (tr_value r)"
proof (induction it and r arbitrary: ts and t rule: tlv_loop_from_ref.induct)
  case (1 it)
  obtain it' x where n: "tlv_next it = (it', x)" by fastforce
  show ?case
  proof (cases "x = None")
    case True
    then show ?thesis using "1.prems" n by (subst (asm) tlv_loop.simps) simp
  next
    case False
    obtain r t ts' where r: "x = Some (Ok r)" "from_ref r = Ok t" "tlv_loop it' = Ok ts'" "ts = t # ts'"
      using "1.prems" n False by (subst (asm) tlv_loop.simps) (auto split: result.splits option.splits)
    note nx = n [unfolded r(1)]
    show ?thesis
    proof (rule tlv_next_Ok [OF nx])
      fix q assume q: "it' = it\<lparr>it_pos := q\<rparr>" "q \<le> length (it_buf it)"
        "it_pos it + wire_len (tr_tag r) + length_len (length (tr_value r)) + length (tr_value r) \<le> q"
        "length (tr_value r) < 2 ^ 32" "tag_wf (tr_tag r)"
      have t: "tlv_wf t" "tlv_tag t = tr_tag r" "value_len (tlv_body t) \<le> length (tr_value r)"
        using "1.IH"(1) [OF nx [symmetric] refl refl r(2) q(5,4)] by auto
      have ts: "list_all tlv_wf ts'" "sum_list (map encoded_len ts') \<le> length (it_buf it) - q"
        using "1.IH"(2) [OF nx [symmetric] refl refl r(2,3)] q(1) by auto
      have "encoded_len t \<le> wire_len (tr_tag r) + length_len (length (tr_value r)) + length (tr_value r)"
        using t length_len_mono [OF t(3)] by (cases t) simp
      then show ?thesis using t ts q(2,3) r(4) by simp
    qed
  qed
next
  case (2 r)
  show ?case
  proof (cases "is_constructed (tr_tag r)")
    case True
    then obtain cs where cs: "tlv_loop (with_base_offset (tr_value r) (tr_value_offset r)) = Ok cs" "t = Tlv (tr_tag r) (Constructed cs)"
      using "2.prems"(1) by (auto simp: from_ref.simps)
    have "list_all tlv_wf cs" "sum_list (map encoded_len cs) \<le> length (tr_value r)"
      using "2.IH" [OF True cs(1)] by (auto simp: with_base_offset_def)
    then show ?thesis using cs True "2.prems" by simp
  next
    case False
    then show ?thesis using "2.prems" by (auto simp: from_ref.simps)
  qed
qed

text \<open>
  Soundness of the TLV parser: every entry of a successful parse is well formed (its tag is one the format has, its body
  is nested exactly when the tag says so), and the encoded lengths add up to no more than the input.
\<close>

theorem tlv_parse_sound:
  assumes "parse_all buf = Ok ts"
  shows "list_all tlv_wf ts \<and> sum_list (map encoded_len ts) \<le> length buf"
  using parse_sound_aux(1) [OF assms [unfolded parse_all_def]] by (simp add: iter_new_def)

theorem tlv_parse_sound_witness:
  "list_all tlv_wf [sample_tlv] \<and> sum_list (map encoded_len [sample_tlv]) \<le> length (tlv_encode sample_tlv)"
proof -
  have "parse_all (tlv_encode sample_tlv) = Ok [sample_tlv]"
    using tlv_loop_entries [of "[(0, sample_tlv)]" "iter_new (tlv_encode sample_tlv)" "[]" 0] reads_back_wf [OF sample_tlv_wf]
    by (simp add: parse_all_def iter_new_def)
  from tlv_parse_sound [OF this] show ?thesis .
qed

text \<open>
  The TLV parser terminates on every input with a tree or an error and never panics.
\<close>

theorem tlv_parse_total: "(\<exists>ts. parse_all buf = Ok ts) \<or> (\<exists>e. parse_all buf = Err e)"
proof -
  have "tlv_loop it \<noteq> Panic" and "from_ref r \<noteq> Panic" for it r
  proof (induction it and r rule: tlv_loop_from_ref.induct)
    case (1 it)
    obtain it' x where n: "tlv_next it = (it', x)" by fastforce
    show ?case
    proof (cases "\<exists>r. x = Some (Ok r)")
      case True
      then obtain r where "x = Some (Ok r)" by blast
      then show ?thesis using "1.IH" n by (subst tlv_loop.simps) (simp add: rbind_eq_Panic split: result.split)
    next
      case False
      then show ?thesis using tlv_next_not_Panic [of it] n
        by (subst tlv_loop.simps) (auto split: option.split result.split)
    qed
  next
    case (2 r)
    then show ?case by (subst from_ref.simps) (auto simp: rbind_eq_Panic)
  qed
  then show ?thesis unfolding parse_all_def by (cases "tlv_loop (iter_new buf)") auto
qed

section \<open>The tags of the EMV catalog\<close>

definition known_tags :: "(string \<times> tag) list" where
  "known_tags =
     [(''FCI_TEMPLATE'', 0x6F),
      (''AEF_DATA_TEMPLATE'', 0x70),
      (''RESPONSE_FMT2'', 0x77),
      (''RESPONSE_FMT1'', 0x80),
      (''DF_NAME'', 0x84),
      (''FCI_PROPRIETARY'', 0xA5),
      (''PAN'', 0x5A),
      (''CARDHOLDER_NAME'', 0x5F20),
      (''EXPIRY'', 0x5F24),
      (''TXN_CURRENCY'', 0x5F2A),
      (''LANGUAGE'', 0x5F2D),
      (''PAN_SEQ'', 0x5F34),
      (''AIP'', 0x82),
      (''SFI'', 0x88),
      (''ARC'', 0x8A),
      (''TXN_DATE'', 0x9A),
      (''TXN_TYPE'', 0x9C),
      (''AMOUNT_AUTHORISED'', 0x9F02),
      (''AMOUNT_OTHER'', 0x9F03),
      (''TERMINAL_COUNTRY'', 0x9F1A),
      (''CRYPTOGRAM'', 0x9F26),
      (''CID'', 0x9F27),
      (''ATC'', 0x9F36),
      (''UNPREDICTABLE_NUMBER'', 0x9F37)]"

lemma be_bytes_upto_4:
  "be_bytes (Suc 0) t = [ucast t]" "be_bytes 2 t = [ucast (drop_bit 8 t), ucast t]"
  "be_bytes 3 t = [ucast (drop_bit 16 t), ucast (drop_bit 8 t), ucast t]"
  "be_bytes 4 t = [ucast (drop_bit 24 t), ucast (drop_bit 16 t), ucast (drop_bit 8 t), ucast t]" for t :: tag
  using be_bytes_Suc [of 0 t] be_bytes_Suc [of 1 t] be_bytes_Suc [of 2 t] be_bytes_Suc [of 3 t]
  by (simp_all add: numeral_2_eq_2 numeral_3_eq_3 eval_nat_numeral)

lemma known_tags_wf: "list_all (\<lambda>(n, t). tag_wf t) known_tags"
  by (simp add: known_tags_def tag_wf_def tag_bytes_wf_def wire_len_def be_bytes_upto_4)

text \<open>Writing a well-formed tag into a buffer with room for it and reading it back.\<close>

lemma tag_write_read:
  assumes "tag_wf t" and "wire_len t \<le> length buf"
  shows "\<exists>buf' n. tag_write t buf = Ok (buf', n) \<and> tag_read buf' 0 = Ok (t, n)"
proof -
  have "drop (4 - wire_len t) (be_bytes 4 t) = be_bytes (wire_len t) t"
    by (simp add: wire_len_def be_bytes_upto_4)
  then show ?thesis using assms tag_read_encoded [of t "[]"] by (simp add: tag_write_def Let_def)
qed

end
