(* ===== verification/Iso_Codec.thy ===== *)
theory Iso_Codec
  imports Bytes Money
begin

text \<open>
  \<^verbatim>\<open>op-iso8583/src/codec.rs\<close> and \<^verbatim>\<open>error.rs\<close>: packed BCD, printable ASCII, IBM-037 EBCDIC, opaque bytes and the LL/LLL length
  prefixes.  A Rust string is its bytes, a \<open>string\<close>; readers take the whole input and an offset and return the value and the
  next offset.  Shown: every codec reads back what it wrote, wherever it stands in a message, and what EBCDIC loses.
\<close>

datatype iso_error =
    IsoUnexpectedEof nat nat
  | InvalidBcd byte nat
  | InvalidAscii byte nat
  | InvalidVarLength nat nat
  | InvalidMti string
  | UnknownDataElement nat
  | MissingDataElement nat
  | InvalidDataElement nat string
  | InvalidTrack2 string
  | InvalidEmvTlv nat string
  | MacMismatch
  | DialectViolation string string
  | IsoCore core_error

section \<open>Codecs\<close>

definition is_printable :: "char \<Rightarrow> bool" where
  "is_printable c \<longleftrightarrow> 0x20 \<le> (of_char c :: nat) \<and> (of_char c :: nat) \<le> 0x7E"

definition is_seven_bit :: "char \<Rightarrow> bool" where
  "is_seven_bit c \<longleftrightarrow> (of_char c :: nat) \<le> 0x7F"

text \<open>The loops that reject the first byte outside an alphabet; \<open>i\<close> is its position.\<close>

fun check_chars :: "(char \<Rightarrow> bool) \<Rightarrow> nat \<Rightarrow> string \<Rightarrow> (unit, iso_error) result" where
  "check_chars P i [] = Ok ()"
| "check_chars P i (c # cs) = (if \<not> P c then Err (InvalidAscii (of_char c) i) else check_chars P (Suc i) cs)"

fun bcd_pack :: "string \<Rightarrow> byte list" where
  "bcd_pack (a # b # cs) = (push_bit 4 (of_char a - 48) OR (of_char b - 48)) # bcd_pack cs"
| "bcd_pack _ = []"

definition bcd_encode :: "string \<Rightarrow> (byte list, iso_error) result" where
  "bcd_encode digits =
     rbind (check_chars is_ascii_digit 0 digits) (\<lambda>_.
       let normalized = (if length digits mod 2 = 1 then CHR ''0'' # digits else digits) in Ok (bcd_pack normalized))"

fun bcd_unpack :: "nat \<Rightarrow> nat \<Rightarrow> nat \<Rightarrow> byte list \<Rightarrow> (string, iso_error) result" where
  "bcd_unpack off skip idx [] = Ok []"
| "bcd_unpack off skip idx (b # bs) =
     (let hi = drop_bit 4 b; lo = b AND 0x0F in
      if hi > 9 then Err (InvalidBcd hi (off + idx))
      else if lo > 9 then Err (InvalidBcd lo (off + idx))
      else rbind (bcd_unpack off skip (Suc idx) bs) (\<lambda>s.
        Ok ((if idx = 0 \<and> skip = 1 then [digit_char (unat lo)] else [digit_char (unat hi), digit_char (unat lo)]) @ s)))"

definition bcd_decode :: "byte list \<Rightarrow> nat \<Rightarrow> nat \<Rightarrow> (string \<times> nat, iso_error) result" where
  "bcd_decode input off n_digits =
     (let n_bytes = (n_digits + 1) div 2 in
      if off + n_bytes > length input then Err (IsoUnexpectedEof off n_bytes)
      else rbind (bcd_unpack off (n_bytes * 2 - n_digits) 0 (take n_bytes (drop off input))) (\<lambda>out. Ok (out, off + n_bytes)))"

definition ascii_encode :: "string \<Rightarrow> (byte list, iso_error) result" where
  "ascii_encode s = rbind (check_chars is_printable 0 s) (\<lambda>_. Ok (map of_char s))"

fun ascii_loop :: "nat \<Rightarrow> byte list \<Rightarrow> (string, iso_error) result" where
  "ascii_loop off [] = Ok []"
| "ascii_loop off (b # bs) =
     (if \<not> is_printable (char_of (unat b)) then Err (InvalidAscii b off)
      else rbind (ascii_loop (Suc off) bs) (\<lambda>s. Ok (char_of (unat b) # s)))"

definition ascii_decode :: "byte list \<Rightarrow> nat \<Rightarrow> nat \<Rightarrow> (string \<times> nat, iso_error) result" where
  "ascii_decode input off n =
     (if off + n > length input then Err (IsoUnexpectedEof off n)
      else rbind (ascii_loop off (take n (drop off input))) (\<lambda>out. Ok (out, off + n)))"

text \<open>The table \<^verbatim>\<open>ASCII_TO_EBCDIC_037\<close>: the assigned entries, every other one is \<^verbatim>\<open>0x6F\<close>.\<close>

definition ebcdic_entries :: "(char \<times> byte) list" where
  "ebcdic_entries = zip ''0123456789'' [0xF0, 0xF1, 0xF2, 0xF3, 0xF4, 0xF5, 0xF6, 0xF7, 0xF8, 0xF9]
     @ zip ''ABCDEFGHI'' [0xC1, 0xC2, 0xC3, 0xC4, 0xC5, 0xC6, 0xC7, 0xC8, 0xC9]
     @ zip ''JKLMNOPQR'' [0xD1, 0xD2, 0xD3, 0xD4, 0xD5, 0xD6, 0xD7, 0xD8, 0xD9]
     @ zip ''STUVWXYZ'' [0xE2, 0xE3, 0xE4, 0xE5, 0xE6, 0xE7, 0xE8, 0xE9]
     @ zip ''abcdefghi'' [0x81, 0x82, 0x83, 0x84, 0x85, 0x86, 0x87, 0x88, 0x89]
     @ zip ''jklmnopqr'' [0x91, 0x92, 0x93, 0x94, 0x95, 0x96, 0x97, 0x98, 0x99]
     @ zip ''stuvwxyz'' [0xA2, 0xA3, 0xA4, 0xA5, 0xA6, 0xA7, 0xA8, 0xA9]
     @ zip '' .,-/*()'' [0x40, 0x4B, 0x6B, 0x60, 0x61, 0x5C, 0x4D, 0x5D]
     @ [(CHR 0x27, 0x7D), (CHR 0x22, 0x7F)]
     @ zip ''&+:;=?#@'' [0x50, 0x4E, 0x7A, 0x5E, 0x7E, 0x6F, 0x7B, 0x7C]"

definition ascii_to_ebcdic :: "char \<Rightarrow> byte" where
  "ascii_to_ebcdic c = (case map_of ebcdic_entries c of Some e \<Rightarrow> e | None \<Rightarrow> 0x6F)"

definition ebcdic_encode :: "string \<Rightarrow> (byte list, iso_error) result" where
  "ebcdic_encode s = rbind (check_chars is_seven_bit 0 s) (\<lambda>_. Ok (map ascii_to_ebcdic s))"

definition ebcdic_to_ascii :: "byte \<Rightarrow> char" where
  "ebcdic_to_ascii b =
     (case List.find (\<lambda>i. ascii_to_ebcdic (char_of i) = b) [0..<128] of Some i \<Rightarrow> char_of i | None \<Rightarrow> CHR ''?'')"

definition ebcdic_decode :: "byte list \<Rightarrow> nat \<Rightarrow> nat \<Rightarrow> (string \<times> nat, iso_error) result" where
  "ebcdic_decode input off n =
     (if off + n > length input then Err (IsoUnexpectedEof off n)
      else Ok (map ebcdic_to_ascii (take n (drop off input)), off + n))"

definition binary_decode :: "byte list \<Rightarrow> nat \<Rightarrow> nat \<Rightarrow> (byte list \<times> nat, iso_error) result" where
  "binary_decode input off n =
     (if off + n > length input then Err (IsoUnexpectedEof off n) else Ok (take n (drop off input), off + n))"

datatype var_len_kind = LlBcd | LllBcd | LlAscii | LllAscii

fun var_max :: "var_len_kind \<Rightarrow> nat" where
  "var_max LlBcd = 99"
| "var_max LlAscii = 99"
| "var_max LllBcd = 999"
| "var_max LllAscii = 999"

definition var_encode :: "var_len_kind \<Rightarrow> byte list \<Rightarrow> (byte list, iso_error) result" where
  "var_encode kind payload =
     (if length payload > var_max kind then Err (InvalidVarLength (length payload) (var_max kind))
      else rbind
        (case kind of
           LlBcd \<Rightarrow> bcd_encode (pad_zero 2 (show_nat (length payload)))
         | LllBcd \<Rightarrow> bcd_encode (pad_zero 3 (show_nat (length payload)))
         | LlAscii \<Rightarrow> Ok (map of_char (pad_zero 2 (show_nat (length payload))))
         | LllAscii \<Rightarrow> Ok (map of_char (pad_zero 3 (show_nat (length payload)))))
        (\<lambda>out. Ok (out @ payload)))"

text \<open>\<^verbatim>\<open>str::parse::<usize>\<close> on the two or three characters of a prefix: an optional plus sign, then digits.\<close>

definition parse_usize :: "string \<Rightarrow> nat option" where
  "parse_usize s =
     (let ds = (case s of c # cs \<Rightarrow> if c = CHR ''+'' then cs else s | [] \<Rightarrow> s) in
      if ds \<noteq> [] \<and> list_all is_ascii_digit ds then Some (read_nat ds) else None)"

definition var_decode :: "var_len_kind \<Rightarrow> byte list \<Rightarrow> nat \<Rightarrow> (byte list \<times> nat, iso_error) result" where
  "var_decode kind input off =
     rbind
       (case kind of
          LlBcd \<Rightarrow> bcd_decode input off 2
        | LllBcd \<Rightarrow> bcd_decode input off 3
        | LlAscii \<Rightarrow> ascii_decode input off 2
        | LllAscii \<Rightarrow> ascii_decode input off 3)
       (\<lambda>(s, new_offset). rbind (ok_or (parse_usize s) (InvalidVarLength 0 (var_max kind))) (\<lambda>len.
          if len > var_max kind then Err (InvalidVarLength len (var_max kind))
          else if new_offset + len > length input then Err (IsoUnexpectedEof new_offset len)
          else Ok (take len (drop new_offset input), new_offset + len)))"

section \<open>Nibbles and characters\<close>

lemma check_chars_Ok [simp]: "check_chars P i s = Ok () \<longleftrightarrow> list_all P s"
  by (induction s arbitrary: i) auto

lemma char_of_byte [simp]: "char_of (unat (of_char c :: byte)) = c"
  by simp

lemma of_char_char_of_byte [simp]: "(of_char (char_of (unat b) :: char) :: byte) = b"
  by (simp add: word_unat_eq_iff)

lemma digit_nibble: "is_ascii_digit c \<Longrightarrow> \<exists>d < 10. c = digit_char d \<and> (of_char c - 48 :: byte) = of_nat d"
proof -
  assume c: "is_ascii_digit c"
  define d where "d = (of_char c :: nat) - 48"
  have d: "d < 10" "(of_char c :: nat) = d + 48" using c by (auto simp: is_ascii_digit_def d_def)
  have "(of_char c :: byte) = of_nat (d + 48)" using d(2) of_nat_of_char by metis
  moreover have "c = digit_char d" using digit_char_of_digit [OF c] by (simp add: d_def)
  ultimately show ?thesis using d(1) by auto
qed

lemma nibbles:
  fixes x y :: byte
  assumes "unat x < 16" and "unat y < 16"
  shows "drop_bit 4 (push_bit 4 x OR y) = x" and "(push_bit 4 x OR y) AND 0x0F = y"
proof -
  have t: "take_bit 4 x = x" "take_bit 4 y = y"
    using assms by (simp_all add: word_unat_eq_iff unsigned_take_bit_eq take_bit_nat_eq_self)
  have nb: "\<not> bit x (n + 4)" "\<not> bit y (n + 4)" for n
    using t by (metis add.commute bit_take_bit_iff not_add_less1)+
  have ge: "n \<ge> 4 \<Longrightarrow> \<not> bit x n" for n using nb(1) [of "n - 4"] by simp
  show "drop_bit 4 (push_bit 4 x OR y) = x"
    using nb ge by (intro bit_word_eqI) (auto simp: bit_simps add.commute not_le intro: ccontr)
  have "(0x0F :: byte) = mask 4" by (simp add: mask_eq_exp_minus_1)
  moreover have "take_bit 4 (push_bit 4 x OR y) = take_bit 4 y"
    by (intro bit_word_eqI) (auto simp: bit_simps)
  ultimately show "(push_bit 4 x OR y) AND 0x0F = y" using t(2) by (simp add: take_bit_eq_mask)
qed

lemma bcd_byte:
  assumes "is_ascii_digit a" and "is_ascii_digit b"
  defines "w \<equiv> push_bit 4 (of_char a - 48) OR (of_char b - 48) :: byte"
  shows "\<not> drop_bit 4 w > 9" "\<not> w AND 0x0F > 9" "digit_char (unat (drop_bit 4 w)) = a" "digit_char (unat (w AND 0x0F)) = b"
proof -
  obtain i j where i: "i < 10" "a = digit_char i" "(of_char a - 48 :: byte) = of_nat i"
    and j: "j < 10" "b = digit_char j" "(of_char b - 48 :: byte) = of_nat j"
    using digit_nibble [OF assms(1)] digit_nibble [OF assms(2)] by blast
  have u: "unat (of_nat i :: byte) = i" "unat (of_nat j :: byte) = j"
    using i(1) j(1) by (simp_all add: unsigned_of_nat take_bit_nat_eq_self)
  have n: "drop_bit 4 w = of_nat i" "w AND 0x0F = of_nat j"
    unfolding w_def i(3) j(3) using u i(1) j(1) by (intro nibbles; simp)+
  show "\<not> drop_bit 4 w > 9" "\<not> w AND 0x0F > 9" "digit_char (unat (drop_bit 4 w)) = a" "digit_char (unat (w AND 0x0F)) = b"
    unfolding n using u i j by (simp_all add: word_less_nat_alt)
qed

section \<open>Round trips\<close>

lemma bcd_pack_length: "length (bcd_pack s) = length s div 2"
  by (induction s rule: bcd_pack.induct) simp_all

lemma bcd_unpack_pack:
  "list_all is_ascii_digit s \<Longrightarrow> even (length s) \<Longrightarrow> 0 < idx \<or> skip \<noteq> 1 \<Longrightarrow> bcd_unpack off skip idx (bcd_pack s) = Ok s"
proof (induction s arbitrary: idx rule: bcd_pack.induct)
  case (1 a b cs)
  have "bcd_unpack off skip (Suc idx) (bcd_pack cs) = Ok cs" using "1.prems" by (intro "1.IH") simp_all
  then show ?case using "1.prems" bcd_byte [of a b] by (simp add: Let_def)
qed simp_all

lemma bcd_round_trip:
  assumes "list_all is_ascii_digit s"
  obtains bs where "bcd_encode s = Ok bs" and "length bs = (length s + 1) div 2"
    and "\<And>pre rest. bcd_decode (pre @ bs @ rest) (length pre) (length s) = Ok (s, length pre + length bs)"
proof (cases "odd (length s)")
  case False
  then have "even (length s)" by simp
  then have "bcd_decode (pre @ bcd_pack s @ rest) (length pre) (length s) = Ok (s, length pre + length (bcd_pack s))" for pre rest
    using assms by (simp add: bcd_decode_def Let_def bcd_pack_length bcd_unpack_pack)
  then show thesis using assms \<open>even (length s)\<close>
    by (intro that [of "bcd_pack s"]) (auto simp: bcd_encode_def bcd_pack_length even_iff_mod_2_eq_zero)
next
  case True
  then obtain c cs where s: "s = c # cs" "even (length cs)" by (cases s) auto
  let ?bs = "bcd_pack (CHR ''0'' # s)"
  have d: "is_ascii_digit (CHR ''0'')" "is_ascii_digit c" "list_all is_ascii_digit cs" using assms s by (simp_all add: is_ascii_digit_def)
  have l: "length ?bs = (length s + 1) div 2" by (simp add: bcd_pack_length)
  have "(length s + 1) div 2 * 2 - length s = 1" using True by (simp add: odd_iff_mod_2_eq_one) presburger
  moreover have "bcd_unpack off 1 (Suc 0) (bcd_pack cs) = Ok cs" for off using d s by (simp add: bcd_unpack_pack)
  ultimately have "bcd_decode (pre @ ?bs @ rest) (length pre) (length s) = Ok (s, length pre + length ?bs)" for pre rest
    using l bcd_byte [OF d(1,2)] by (simp add: bcd_decode_def Let_def s)
  then show thesis using assms True l
    by (intro that [of ?bs]) (auto simp: bcd_encode_def odd_iff_mod_2_eq_one)
qed

lemma ascii_loop_map: "list_all is_printable s \<Longrightarrow> ascii_loop off (map of_char s) = Ok s"
  by (induction s arbitrary: off) simp_all

lemma ascii_round_trip:
  "list_all is_printable s \<Longrightarrow> ascii_encode s = Ok (map of_char s)"
  "list_all is_printable s \<Longrightarrow> ascii_decode (pre @ map of_char s @ rest) (length pre) (length s) = Ok (s, length pre + length s)"
  by (simp_all add: ascii_encode_def ascii_decode_def ascii_loop_map)

text \<open>The characters EBCDIC carries faithfully: the ones in the table, except the question mark.\<close>

definition ebcdic_faithful :: "char \<Rightarrow> bool" where
  "ebcdic_faithful c \<longleftrightarrow> c \<in> set (map fst ebcdic_entries) \<and> c \<noteq> CHR ''?''"

lemma ebcdic_entries_distinct: "distinct (map snd ebcdic_entries)" and ebcdic_keys_distinct: "distinct (map fst ebcdic_entries)"
  by (simp_all add: ebcdic_entries_def)

lemma ebcdic_keys_seven_bit: "c \<in> set (map fst ebcdic_entries) \<Longrightarrow> is_seven_bit c"
  by (simp add: ebcdic_entries_def) (elim disjE; simp add: is_seven_bit_def)

lemma ebcdic_inj:
  assumes "ebcdic_faithful c" and "ascii_to_ebcdic c' = ascii_to_ebcdic c"
  shows "c' = c"
proof -
  obtain e where e: "(c, e) \<in> set ebcdic_entries" using assms(1) by (auto simp: ebcdic_faithful_def)
  then have ce: "ascii_to_ebcdic c = e" using ebcdic_keys_distinct by (simp add: ascii_to_ebcdic_def)
  have q: "(CHR ''?'', 0x6F) \<in> set ebcdic_entries" by (simp add: ebcdic_entries_def)
  have uniq: "(a, e) \<in> set ebcdic_entries \<Longrightarrow> a = c" for a
    using e ebcdic_entries_distinct by (metis distinct_map fst_conv inj_on_def snd_conv)
  then have "e \<noteq> 0x6F" using q assms(1) by (auto simp: ebcdic_faithful_def)
  then show ?thesis using assms(2) ce uniq
    by (auto simp: ascii_to_ebcdic_def split: option.splits dest!: map_of_SomeD)
qed

lemma ebcdic_to_ascii_back: "ebcdic_faithful c \<Longrightarrow> ebcdic_to_ascii (ascii_to_ebcdic c) = c"
proof -
  assume c: "ebcdic_faithful c"
  have "is_seven_bit c" using c ebcdic_keys_seven_bit unfolding ebcdic_faithful_def by blast
  then have lt: "(of_char c :: nat) < 128" by (simp add: is_seven_bit_def)
  let ?P = "\<lambda>i. ascii_to_ebcdic (char_of (i :: nat)) = ascii_to_ebcdic c"
  have "List.find ?P [0..<128] \<noteq> None" using lt by (auto simp: find_None_iff intro!: bexI [of _ "of_char c"])
  then obtain i where i: "List.find ?P [0..<128] = Some i" by blast
  then have "?P i" by (auto simp: find_Some_iff)
  then have "char_of i = c" using ebcdic_inj [OF c] by blast
  then show ?thesis by (simp add: ebcdic_to_ascii_def i)
qed

lemma ebcdic_round_trip:
  assumes "list_all ebcdic_faithful s"
  shows "ebcdic_encode s = Ok (map ascii_to_ebcdic s)"
    and "ebcdic_decode (pre @ map ascii_to_ebcdic s @ rest) (length pre) (length s) = Ok (s, length pre + length s)"
proof -
  have "list_all is_seven_bit s"
    using assms ebcdic_keys_seven_bit by (auto simp: list_all_iff ebcdic_faithful_def)
  then show "ebcdic_encode s = Ok (map ascii_to_ebcdic s)" by (simp add: ebcdic_encode_def)
  have "map (ebcdic_to_ascii \<circ> ascii_to_ebcdic) s = s"
    using assms by (intro map_idI) (simp add: list_all_iff ebcdic_to_ascii_back)
  then show "ebcdic_decode (pre @ map ascii_to_ebcdic s @ rest) (length pre) (length s) = Ok (s, length pre + length s)"
    by (simp add: ebcdic_decode_def)
qed

text \<open>
  EBCDIC text is not carried faithfully: the question mark, and every character that is not in the table, comes back as the NUL
  character, because the reverse search finds the first unmapped table entry.
\<close>

theorem ebcdic_question_mark_lost:
  "ebcdic_encode ''OK?'' = Ok [0xD6, 0xD2, 0x6F]
   \<and> ebcdic_decode [0xD6, 0xD2, 0x6F] 0 3 = Ok (''OK'' @ [CHR 0x00], 3)"
proof -
  have "ebcdic_to_ascii 0x6F = CHR 0x00"
  proof -
    have "[0..<128] = 0 # [Suc 0..<128]" by (simp add: upt_conv_Cons)
    moreover have z: "char_of (0 :: nat) = CHR 0x00" by (simp add: char_of_def)
    moreover have "ascii_to_ebcdic (CHR 0x00) = 0x6F" by (simp add: ascii_to_ebcdic_def ebcdic_entries_def)
    ultimately show ?thesis by (simp add: ebcdic_to_ascii_def)
  qed
  moreover have "ebcdic_to_ascii 0xD6 = CHR ''O''" "ebcdic_to_ascii 0xD2 = CHR ''K''"
    using ebcdic_to_ascii_back [of "CHR ''O''"] ebcdic_to_ascii_back [of "CHR ''K''"]
    by (simp_all add: ebcdic_faithful_def ascii_to_ebcdic_def ebcdic_entries_def)
  ultimately show ?thesis
    by (simp add: ebcdic_decode_def ebcdic_encode_def is_seven_bit_def ascii_to_ebcdic_def ebcdic_entries_def)
qed

lemma prefix_text:
  assumes "n < 10 ^ w" and "0 < w"
  shows "list_all is_ascii_digit (pad_zero w (show_nat n))" "length (pad_zero w (show_nat n)) = w"
    "parse_usize (pad_zero w (show_nat n)) = Some n" "list_all is_printable (pad_zero w (show_nat n))"
proof -
  let ?s = "pad_zero w (show_nat n)"
  show d: "list_all is_ascii_digit ?s"
    using show_nat_is_digits [of n] by (auto simp: pad_zero_def list_all_iff is_ascii_digit_def)
  show l: "length ?s = w" using assms show_nat_length pad_zero_length by blast
  have "?s \<noteq> []" using l assms(2) by auto
  moreover have "CHR ''+'' \<notin> set ?s" using d by (auto simp: list_all_iff is_ascii_digit_def)
  moreover have "read_nat ?s = n" by simp
  ultimately show "parse_usize ?s = Some n"
    using d by (cases ?s) (auto simp: parse_usize_def Let_def simp del: read_nat_pad_zero)
  show "list_all is_printable ?s"
    using d by (auto simp: list_all_iff is_ascii_digit_def is_printable_def)
qed

lemma var_round_trip:
  assumes "length payload \<le> var_max kind"
  obtains bs where "var_encode kind payload = Ok (bs @ payload)"
    and "\<And>pre rest. var_decode kind (pre @ (bs @ payload) @ rest) (length pre) = Ok (payload, length pre + length (bs @ payload))"
proof -
  define w :: nat where "w = (case kind of LlBcd \<Rightarrow> 2 | LlAscii \<Rightarrow> 2 | LllBcd \<Rightarrow> 3 | LllAscii \<Rightarrow> 3)"
  let ?s = "pad_zero w (show_nat (length payload))"
  have n: "length payload < 10 ^ w" "0 < w" using assms by (cases kind; simp add: w_def)+
  note pt = prefix_text [OF n]
  show thesis
  proof (cases "kind = LlBcd \<or> kind = LllBcd")
    case True
    obtain bs where bs: "bcd_encode ?s = Ok bs" "length bs = (length ?s + 1) div 2"
      "\<And>pre rest. bcd_decode (pre @ bs @ rest) (length pre) (length ?s) = Ok (?s, length pre + length bs)"
      using bcd_round_trip [OF pt(1)] by blast
    show thesis
    proof (rule that [of bs])
      show "var_encode kind payload = Ok (bs @ payload)"
        using True assms bs(1) by (auto simp: var_encode_def w_def)
      show "var_decode kind (pre @ (bs @ payload) @ rest) (length pre) = Ok (payload, length pre + length (bs @ payload))" for pre rest
        using True assms bs(3) [of pre "payload @ rest"] pt(2,3) by (auto simp: var_decode_def w_def simp del: rbind_eq_Ok)
    qed
  next
    case False
    let ?bs = "map of_char ?s :: byte list"
    show thesis
    proof (rule that [of ?bs])
      show "var_encode kind payload = Ok (?bs @ payload)"
        using False assms by (cases kind) (auto simp: var_encode_def w_def)
      show "var_decode kind (pre @ (?bs @ payload) @ rest) (length pre) = Ok (payload, length pre + length (?bs @ payload))" for pre rest
        using False assms ascii_round_trip(2) [OF pt(4), of pre "payload @ rest"] pt(2,3)
        by (cases kind) (auto simp: var_decode_def w_def simp del: rbind_eq_Ok)
    qed
  qed
qed

end
