(* ===== verification/Iso_Bitmap.thy ===== *)
theory Iso_Bitmap
  imports Iso_Codec
begin

text \<open>
  \<^verbatim>\<open>op-iso8583/src/bitmap.rs\<close>: the primary and secondary bitmaps as one 128-bit word, data element \<open>n\<close> at bit \<open>128 - n\<close>, and their
  binary and hexadecimal wire forms.
\<close>

type_synonym bitmaps = "128 word"

definition bm_new :: bitmaps where
  "bm_new = 0"

definition bm_has :: "bitmaps \<Rightarrow> nat \<Rightarrow> bool" where
  "bm_has b de = (if de < 1 \<or> de > 128 then False else drop_bit (128 - de) b AND 1 = 1)"

definition bm_set :: "nat \<Rightarrow> bitmaps \<Rightarrow> bitmaps" where
  "bm_set de b = (if de < 1 \<or> de > 128 then b else b OR push_bit (128 - de) 1)"

definition bm_clear :: "nat \<Rightarrow> bitmaps \<Rightarrow> bitmaps" where
  "bm_clear de b = (if de < 1 \<or> de > 128 then b else b AND NOT (push_bit (128 - de) 1))"

definition secondary_needed :: "bitmaps \<Rightarrow> bool" where
  "secondary_needed b \<longleftrightarrow> b AND (push_bit 64 1 - 1) \<noteq> 0"

definition bm_encode_binary :: "bitmaps \<Rightarrow> byte list" where
  "bm_encode_binary b =
     (let secondary = secondary_needed b;
          bits = (if secondary then b OR push_bit 127 1 else b AND NOT (push_bit 127 1));
          primary = (ucast (drop_bit 64 bits) :: 64 word)
      in if secondary then be_bytes 8 primary @ be_bytes 8 (ucast bits :: 64 word) else be_bytes 8 primary)"

definition hex_char :: "byte \<Rightarrow> char" where
  "hex_char n = ''0123456789ABCDEF'' ! unat n"

definition bm_encode_hex :: "bitmaps \<Rightarrow> string" where
  "bm_encode_hex b = concat (map (\<lambda>x. [hex_char (drop_bit 4 x), hex_char (x AND 0x0F)]) (bm_encode_binary b))"

definition bm_decode_binary :: "byte list \<Rightarrow> nat \<Rightarrow> (bitmaps \<times> nat, iso_error) result" where
  "bm_decode_binary input off =
     (if off + 8 > length input then Err (IsoUnexpectedEof off 8)
      else let primary = (be_word (take 8 (drop off input)) :: 64 word);
               bits = (push_bit 64 (ucast primary) :: 128 word)
        in if primary AND push_bit 63 1 \<noteq> 0
           then if off + 8 + 8 > length input then Err (IsoUnexpectedEof (off + 8) 8)
                else Ok (bits OR ucast (be_word (take 8 (drop (off + 8) input)) :: 64 word), off + 8 + 8)
           else Ok (bits, off + 8))"

definition hex_nibble :: "byte \<Rightarrow> byte option" where
  "hex_nibble b =
     (if 0x30 \<le> b \<and> b \<le> 0x39 then Some (b - 0x30)
      else if 0x61 \<le> b \<and> b \<le> 0x66 then Some (b - 0x61 + 10)
      else if 0x41 \<le> b \<and> b \<le> 0x46 then Some (b - 0x41 + 10)
      else None)"

fun hex_pairs :: "nat \<Rightarrow> byte list \<Rightarrow> (byte list, iso_error) result" where
  "hex_pairs i (a # b # bs) =
     rbind (ok_or (hex_nibble a) (InvalidAscii a (i * 2))) (\<lambda>hi.
     rbind (ok_or (hex_nibble b) (InvalidAscii b (i * 2 + 1))) (\<lambda>lo.
     rbind (hex_pairs (Suc i) bs) (\<lambda>out. Ok ((push_bit 4 hi OR lo) # out))))"
| "hex_pairs i _ = Ok []"

definition hex_to_bytes :: "byte list \<Rightarrow> (byte list, iso_error) result" where
  "hex_to_bytes input =
     (if length input mod 2 \<noteq> 0 then Err (InvalidVarLength (length input) (length input + 1)) else hex_pairs 0 input)"

definition bm_decode_hex :: "byte list \<Rightarrow> nat \<Rightarrow> (bitmaps \<times> nat, iso_error) result" where
  "bm_decode_hex input off =
     (if off + 16 > length input then Err (IsoUnexpectedEof off 16)
      else rbind (hex_to_bytes (take 16 (drop off input))) (\<lambda>primary_bytes.
        let primary = (be_word primary_bytes :: 64 word);
            bits = (push_bit 64 (ucast primary) :: 128 word)
        in if primary AND push_bit 63 1 \<noteq> 0
           then if off + 16 + 16 > length input then Err (IsoUnexpectedEof (off + 16) 16)
                else rbind (hex_to_bytes (take 16 (drop (off + 16) input))) (\<lambda>sec_bytes.
                  Ok (bits OR ucast (be_word sec_bytes :: 64 word), off + 16 + 16))
           else Ok (bits, off + 16)))"

definition iter_des :: "bitmaps \<Rightarrow> nat list" where
  "iter_des b = filter (bm_has b) [2..<129]"

section \<open>Data elements as bits\<close>

lemma bm_has_iff: "bm_has b de \<longleftrightarrow> 1 \<le> de \<and> de \<le> 128 \<and> bit b (128 - de)"
  by (auto simp: bm_has_def bit_iff_odd_drop_bit and_one_eq odd_iff_mod_2_eq_one)

lemma bm_has_set: "bm_has (bm_set de b) n \<longleftrightarrow> bm_has b n \<or> (n = de \<and> 1 \<le> de \<and> de \<le> 128)"
  by (auto simp: bm_has_iff bm_set_def bit_simps)

lemma bm_has_clear: "bm_has (bm_clear de b) n \<longleftrightarrow> bm_has b n \<and> n \<noteq> de"
  by (auto simp: bm_has_iff bm_clear_def bit_simps)

lemma bm_has_new: "\<not> bm_has bm_new n"
  by (simp add: bm_has_iff bm_new_def)

lemma bm_eqI: "(\<And>n. 1 \<le> n \<Longrightarrow> n \<le> 128 \<Longrightarrow> bm_has a n = bm_has b n) \<Longrightarrow> a = b"
proof (rule bit_word_eqI)
  fix k assume h: "\<And>n. 1 \<le> n \<Longrightarrow> n \<le> 128 \<Longrightarrow> bm_has a n = bm_has b n" and k: "k < LENGTH(128)"
  then show "bit a k = bit b k" using h [of "128 - k"] by (simp add: bm_has_iff)
qed

lemma iter_des_set: "set (iter_des b) = {n. 2 \<le> n \<and> bm_has b n}"
  by (auto simp: iter_des_def bm_has_iff simp del: upt_rec_numeral)

lemma iter_des_sorted: "sorted (iter_des b) \<and> distinct (iter_des b)"
  by (simp add: iter_des_def sorted_wrt_filter del: upt_rec_numeral)

lemma secondary_needed_iff: "secondary_needed b \<longleftrightarrow> (\<exists>n. 65 \<le> n \<and> n \<le> 128 \<and> bm_has b n)"
proof -
  have m: "push_bit 64 1 - 1 = (mask 64 :: bitmaps)" by (simp add: mask_eq_exp_minus_1 push_bit_of_1)
  have "secondary_needed b \<longleftrightarrow> (\<exists>k < 64. bit b k)"
    unfolding secondary_needed_def m take_bit_eq_mask [symmetric]
  proof -
    have "take_bit 64 b = 0 \<longleftrightarrow> (\<forall>k < 64. \<not> bit b k)"
    proof
      assume "take_bit 64 b = 0"
      then show "\<forall>k < 64. \<not> bit b k" by (metis bit_0_eq bit_take_bit_iff bot_apply bot_bool_def)
    next
      assume "\<forall>k < 64. \<not> bit b k"
      then show "take_bit 64 b = 0" by (intro bit_word_eqI) (simp add: bit_take_bit_iff)
    qed
    then show "(take_bit 64 b \<noteq> 0) = (\<exists>k < 64. bit b k)" by blast
  qed
  also have "\<dots> \<longleftrightarrow> (\<exists>n. 65 \<le> n \<and> n \<le> 128 \<and> bit b (128 - n))"
  proof
    assume "\<exists>k < 64. bit b k"
    then obtain k where "k < 64" "bit b k" by blast
    then show "\<exists>n. 65 \<le> n \<and> n \<le> 128 \<and> bit b (128 - n)" by (intro exI [of _ "128 - k"]) auto
  next
    assume "\<exists>n. 65 \<le> n \<and> n \<le> 128 \<and> bit b (128 - n)"
    then obtain n where "65 \<le> n" "n \<le> 128" "bit b (128 - n)" by blast
    then show "\<exists>k < 64. bit b k" by (intro exI [of _ "128 - n"]) auto
  qed
  finally show ?thesis by (auto simp: bm_has_iff)
qed

text \<open>What the wire form stands for: the continuation flag, data element 1, is set exactly when a secondary bitmap follows.\<close>

definition bm_wire :: "bitmaps \<Rightarrow> bitmaps" where
  "bm_wire b = (if secondary_needed b then bm_set 1 b else bm_clear 1 b)"

lemma bm_wire_has: "bm_has (bm_wire b) n \<longleftrightarrow> (if n = 1 then secondary_needed b else bm_has b n)"
  by (auto simp: bm_wire_def bm_has_set bm_has_clear)

lemma iter_des_wire [simp]: "iter_des (bm_wire b) = iter_des b"
  unfolding iter_des_def by (rule filter_cong) (auto simp: bm_wire_has simp del: upt_rec_numeral)

lemma bm_wire_bits: "bm_wire b = (if secondary_needed b then b OR push_bit 127 1 else b AND NOT (push_bit 127 1))"
  by (simp add: bm_wire_def bm_set_def bm_clear_def)

lemma halves:
  fixes x :: bitmaps
  shows "push_bit 64 (ucast (ucast (drop_bit 64 x) :: 64 word)) OR ucast (ucast x :: 64 word) = x"
  by (rule bit_word_eqI) (auto simp: bit_simps)

lemma upper_half:
  fixes x :: bitmaps
  assumes "\<And>k. k < 64 \<Longrightarrow> \<not> bit x k"
  shows "push_bit 64 (ucast (ucast (drop_bit 64 x) :: 64 word)) = x"
proof (rule bit_word_eqI)
  fix k assume "k < LENGTH(128)"
  then show "bit (push_bit 64 (ucast (ucast (drop_bit 64 x) :: 64 word)) :: bitmaps) k = bit x k"
    using assms [of k] by (cases "k < 64") (auto simp: bit_simps)
qed

lemma flag_bit: "(ucast (drop_bit 64 x) :: 64 word) AND push_bit 63 1 \<noteq> 0 \<longleftrightarrow> bm_has x 1" for x :: bitmaps
proof -
  have "(push_bit 63 1 :: 64 word) = 2 ^ 63" by (simp add: push_bit_of_1)
  then have "(ucast (drop_bit 64 x) :: 64 word) AND push_bit 63 1 \<noteq> 0 \<longleftrightarrow> bit (ucast (drop_bit 64 x) :: 64 word) 63"
    by (simp only: and_exp_eq_0_iff_not_bit not_not)
  then show ?thesis by (simp add: bit_simps bm_has_iff)
qed

lemma word64_back: "be_word (be_bytes 8 x) = (x :: 64 word)"
proof (rule be_word_be_bytes)
  show "unat x < 256 ^ 8" by (rule order_less_le_trans [OF unsigned_less]) simp
qed

lemma wire_low_bits:
  assumes "\<not> secondary_needed b" and "k < 64"
  shows "\<not> bit (bm_wire b) k"
proof -
  have "\<not> bm_has b (128 - k)" using assms secondary_needed_iff by auto
  then show ?thesis using assms by (simp add: bm_has_iff bm_wire_bits bit_simps)
qed

lemma bm_encode_wire:
  "bm_encode_binary b =
     (let hi = (ucast (drop_bit 64 (bm_wire b)) :: 64 word); lo = (ucast (bm_wire b) :: 64 word)
      in if secondary_needed b then be_bytes 8 hi @ be_bytes 8 lo else be_bytes 8 hi)"
  by (simp add: bm_encode_binary_def bm_wire_bits Let_def)

lemma wire_assembled:
  "push_bit 64 (ucast (ucast (drop_bit 64 (bm_wire b)) :: 64 word)) OR
     (if secondary_needed b then ucast (ucast (bm_wire b) :: 64 word) else 0) = bm_wire b"
proof (cases "secondary_needed b")
  case True
  then show ?thesis by (simp add: halves)
next
  case False
  then show ?thesis using wire_low_bits [OF False] by (simp add: upper_half)
qed

text \<open>
  Bitmap round trip: decoding an encoded bitmap, wherever it stands in the input, yields exactly the data elements that were set, with
  the continuation flag telling whether a secondary bitmap was needed, and consumes exactly the encoded bytes.
\<close>

lemma bitmap_round_trip:
  "bm_decode_binary (pre @ bm_encode_binary b @ rest) (length pre) = Ok (bm_wire b, length pre + length (bm_encode_binary b))"
proof (cases "secondary_needed b")
  case True
  let ?hi = "ucast (drop_bit 64 (bm_wire b)) :: 64 word" and ?lo = "ucast (bm_wire b) :: 64 word"
  have "bm_has (bm_wire b) 1" using True by (simp add: bm_wire_has)
  moreover have "drop (length pre + 8) (pre @ be_bytes 8 ?hi @ be_bytes 8 ?lo @ rest) = be_bytes 8 ?lo @ rest" by simp
  ultimately show ?thesis
    using True wire_assembled [of b] flag_bit [of "bm_wire b"]
    by (simp add: bm_encode_wire bm_decode_binary_def Let_def word64_back)
next
  case False
  have "\<not> bm_has (bm_wire b) 1" using False by (simp add: bm_wire_has)
  then show ?thesis
    using False wire_assembled [of b] flag_bit [of "bm_wire b"]
    by (simp add: bm_encode_wire bm_decode_binary_def Let_def word64_back)
qed

section \<open>Hexadecimal form\<close>

definition hex_pair :: "byte \<Rightarrow> string" where
  "hex_pair x = [hex_char (drop_bit 4 x), hex_char (x AND 0x0F)]"

lemma hex_nibble_char:
  assumes "unat n < 16"
  shows "hex_nibble (of_char (hex_char n)) = Some n"
proof -
  have "hex_nibble (of_char (hex_char (of_nat (unat n)))) = Some (of_nat (unat n))"
    by (rule all_nibbles [OF _ assms]) (simp add: hex_char_def hex_nibble_def)
  then show ?thesis by simp
qed

lemma hex_pairs_back: "hex_pairs i (map of_char (concat (map hex_pair bs))) = Ok bs"
proof (induction bs arbitrary: i)
  case (Cons b bs)
  then show ?case
    using hex_nibble_char [OF nibble_bounds(1) [of b]] hex_nibble_char [OF nibble_bounds(2) [of b]]
    by (simp add: hex_pair_def nibbles_join)
qed simp

lemma hex_pairs_length [simp]: "length (concat (map hex_pair bs)) = 2 * length bs"
  by (induction bs) (simp_all add: hex_pair_def)

lemma hex_to_bytes_back:
  assumes "length bs = n" and "drop off input = map of_char (concat (map hex_pair bs)) @ rest"
  shows "hex_to_bytes (take (2 * n) (drop off input)) = Ok bs" and "off \<le> length input \<Longrightarrow> off + 2 * n \<le> length input"
proof -
  have l: "length (map (of_char :: char \<Rightarrow> byte) (concat (map hex_pair bs))) = 2 * n"
    using assms(1) by simp
  then show "hex_to_bytes (take (2 * n) (drop off input)) = Ok bs"
    unfolding assms(2) hex_to_bytes_def using hex_pairs_back [of 0 bs] by simp
  show "off + 2 * n \<le> length input" if "off \<le> length input"
    using l assms(2) that by (metis diff_is_0_eq length_append length_drop le_add1 le_diff_conv2 add.commute)
qed

lemma bm_encode_hex_eq: "bm_encode_hex b = concat (map hex_pair (bm_encode_binary b))"
  by (simp add: bm_encode_hex_def hex_pair_def [abs_def])

lemma bitmap_hex_round_trip:
  "bm_decode_hex (pre @ map of_char (bm_encode_hex b) @ rest) (length pre) = Ok (bm_wire b, length pre + length (bm_encode_hex b))"
proof -
  let ?hi = "ucast (drop_bit 64 (bm_wire b)) :: 64 word" and ?lo = "ucast (bm_wire b) :: 64 word"
  let ?in = "pre @ map of_char (bm_encode_hex b) @ rest"
  have len: "length (concat (map hex_pair (be_bytes 8 x))) = 16" for x :: "64 word"
    by simp
  have fl: "?hi AND push_bit 63 1 \<noteq> 0 \<longleftrightarrow> secondary_needed b" using flag_bit bm_wire_has by simp
  show ?thesis
  proof (cases "secondary_needed b")
    case True
    have e: "bm_encode_hex b = concat (map hex_pair (be_bytes 8 ?hi)) @ concat (map hex_pair (be_bytes 8 ?lo))"
      using True by (simp add: bm_encode_hex_eq bm_encode_wire Let_def)
    have "drop (length pre) ?in = map of_char (concat (map hex_pair (be_bytes 8 ?hi))) @ map of_char (concat (map hex_pair (be_bytes 8 ?lo))) @ rest"
      by (simp add: e)
    note h1 = hex_to_bytes_back [OF _ this, of 8]
    have "drop (length pre + 16) ?in = map of_char (concat (map hex_pair (be_bytes 8 ?lo))) @ rest"
      by (simp add: e len)
    note h2 = hex_to_bytes_back [OF _ this, of 8]
    have "length ?in = length pre + 32 + length rest" by (simp add: e len)
    then show ?thesis using True h1(1) h2(1) fl wire_assembled [of b] word64_back [of ?hi] word64_back [of ?lo]
      by (simp add: bm_decode_hex_def Let_def e len del: map_append)
  next
    case False
    have e: "bm_encode_hex b = concat (map hex_pair (be_bytes 8 ?hi))"
      using False by (simp add: bm_encode_hex_eq bm_encode_wire Let_def)
    have "drop (length pre) ?in = map of_char (concat (map hex_pair (be_bytes 8 ?hi))) @ rest"
      by (simp add: e)
    note h1 = hex_to_bytes_back [OF _ this, of 8]
    have "length ?in = length pre + 16 + length rest" by (simp add: e len)
    then show ?thesis using False h1(1) fl wire_assembled [of b] word64_back [of ?hi]
      by (simp add: bm_decode_hex_def Let_def e len)
  qed
qed

end
