(* ===== verification/Btree_Map.thy ===== *)
theory Btree_Map
  imports Hash_Map
begin

text \<open>
  \<^verbatim>\<open>std::collections::BTreeMap\<close>: an association list in strictly ascending key order, which is the order of \<^verbatim>\<open>iter\<close> and
  \<^verbatim>\<open>keys\<close>.  The locale \<open>ordered_table\<close> extends the contract of \<open>hash_table\<close> by that order; \<open>bt\<close> discharges it.
\<close>

type_synonym ('k, 'v) btreemap = "('k \<times> 'v) list"

definition bt_get :: "('k, 'v) btreemap \<Rightarrow> 'k \<Rightarrow> 'v option" where
  "bt_get m k = map_of m k"

fun bt_insert :: "'k :: linorder \<Rightarrow> 'v \<Rightarrow> ('k, 'v) btreemap \<Rightarrow> ('k, 'v) btreemap" where
  "bt_insert k v [] = [(k, v)]"
| "bt_insert k v ((k', v') # m) =
     (if k < k' then (k, v) # (k', v') # m else if k = k' then (k, v) # m else (k', v') # bt_insert k v m)"

definition bt_remove :: "'k \<Rightarrow> ('k, 'v) btreemap \<Rightarrow> ('k, 'v) btreemap" where
  "bt_remove k m = filter (\<lambda>(k', v). k' \<noteq> k) m"

definition bt_keys :: "('k, 'v) btreemap \<Rightarrow> 'k list" where
  "bt_keys m = map fst m"

definition bt_values :: "('k, 'v) btreemap \<Rightarrow> 'v list" where
  "bt_values m = map snd m"

definition bt_wf :: "('k :: linorder, 'v) btreemap \<Rightarrow> bool" where
  "bt_wf m \<longleftrightarrow> sorted_wrt (<) (map fst m)"

locale ordered_table = hash_table empty get insert vals wf
  for empty :: "'m" and get :: "'m \<Rightarrow> 'k :: linorder \<Rightarrow> 'v option" and insert :: "'k \<Rightarrow> 'v \<Rightarrow> 'm \<Rightarrow> 'm"
    and vals :: "'m \<Rightarrow> 'v list" and wf :: "'m \<Rightarrow> bool" +
  fixes keys :: "'m \<Rightarrow> 'k list"
  assumes keys_dom: "wf m \<Longrightarrow> set (keys m) = dom (get m)"
    and keys_sorted: "wf m \<Longrightarrow> sorted_wrt (<) (keys m)"
begin

lemma keys_determined:
  assumes "wf m" and "sorted_wrt (<) ks" and "set ks = dom (get m)"
  shows "keys m = ks"
proof -
  have "sorted (keys m)" "distinct (keys m)" "sorted ks" "distinct ks"
    using keys_sorted [OF assms(1)] assms(2) by (simp_all add: strict_sorted_iff)
  then show ?thesis using assms(3) keys_dom [OF assms(1)] by (metis sorted_distinct_set_unique)
qed

lemma keys_insert:
  "wf m \<Longrightarrow> set (keys (insert k v m)) = Set.insert k (set (keys m))"
  using keys_dom [OF wf_insert] keys_dom get_insert by (auto simp: dom_def split: if_splits)

end

lemma bt_get_insert [simp]: "bt_get (bt_insert k v m) k' = (if k' = k then Some v else bt_get m k')"
  by (induction m) (auto simp: bt_get_def)

lemma bt_insert_keys [simp]: "fst ` set (bt_insert k v m) = insert k (fst ` set m)"
proof (induction m)
  case (Cons x m)
  then show ?case by (cases x) (simp add: insert_commute)
qed simp

lemma bt_wf_Cons: "bt_wf (x # m) \<longleftrightarrow> (\<forall>k \<in> fst ` set m. fst x < k) \<and> bt_wf m"
  by (auto simp: bt_wf_def)

lemma bt_wf_insert [simp]: "bt_wf m \<Longrightarrow> bt_wf (bt_insert k v m)"
proof (induction m)
  case (Cons x m)
  then show ?case by (cases x) (auto simp: bt_wf_Cons simp del: image_insert)
qed (simp add: bt_wf_def)

lemma bt_get_remove [simp]: "bt_get (bt_remove k m) k' = (if k' = k then None else bt_get m k')"
  by (induction m) (auto simp: bt_get_def bt_remove_def)

lemma bt_wf_remove [simp]: "bt_wf m \<Longrightarrow> bt_wf (bt_remove k m)"
  unfolding bt_wf_def bt_remove_def by (induction m) auto

lemma bt_wf_distinct: "bt_wf m \<Longrightarrow> distinct (map fst m)"
  by (simp add: bt_wf_def strict_sorted_iff)

interpretation bt: ordered_table "[]" bt_get bt_insert bt_values bt_wf bt_keys
proof
  fix m :: "('a :: linorder \<times> 'b) list" and k v u
  show "bt_get [] k = (None :: 'b option)" for k :: 'a by (simp add: bt_get_def)
  show "bt_wf ([] :: ('a \<times> 'b) list)" by (simp add: bt_wf_def)
  show "bt_wf m \<Longrightarrow> set (bt_values m) = ran (bt_get m)"
    by (simp add: bt_values_def bt_get_def [abs_def] ran_distinct bt_wf_distinct)
  show "bt_wf m \<Longrightarrow> set (bt_keys m) = dom (bt_get m)"
    by (simp add: bt_keys_def bt_get_def [abs_def] dom_map_of_conv_image_fst)
  show "bt_wf m \<Longrightarrow> bt_get m k = None \<Longrightarrow> mset (bt_values (bt_insert k v m)) = add_mset v (mset (bt_values m))"
    by (induction m) (auto simp: bt_wf_def bt_get_def bt_values_def split: if_splits)
  show "bt_wf m \<Longrightarrow> bt_get m k = Some u \<Longrightarrow> add_mset u (mset (bt_values (bt_insert k v m))) = add_mset v (mset (bt_values m))"
  proof (induction m)
    case (Cons x m)
    then show ?case
      by (cases x) (auto simp: bt_wf_def bt_get_def bt_values_def dest!: map_of_SomeD split: if_splits)
  qed (simp add: bt_get_def)
  show "bt_wf m \<Longrightarrow> sorted_wrt (<) (bt_keys m)" by (simp add: bt_wf_def bt_keys_def)
qed simp_all

text \<open>Inserting keys in ascending order appends.\<close>

lemma bt_insert_last: "list_all (\<lambda>k'. k' < k) (map fst m) \<Longrightarrow> bt_insert k v m = m @ [(k, v)]"
  by (induction m) auto

end
