(* ===== verification/Iso_Message.thy ===== *)
theory Iso_Message
  imports Iso_Bitmap Btree_Map
begin

text \<open>
  \<^verbatim>\<open>op-iso8583\<close>: the data-element catalog (\<^verbatim>\<open>fields.rs\<close>), the message with its encoder and decoder (\<^verbatim>\<open>message.rs\<close>) and the
  network-management constructors (\<^verbatim>\<open>network_mgmt.rs\<close>).  A data-element number is a \<^verbatim>\<open>u8\<close>, a natural number below 256.

  Shown: a message whose fields meet their specifications is decoded from its own encoding; the bitmap of a message agrees with its
  fields after every operation; what the encoder drops, and that network-management messages cannot be encoded.
\<close>

section \<open>Data elements\<close>

datatype encoding = Bcd | Ascii | Ebcdic | Binary

datatype length_rule = Fixed nat | Ll nat | Lll nat

record field_spec =
  fs_de :: nat
  fs_label :: string
  fs_encoding :: encoding
  fs_length :: length_rule

type_synonym catalog = "field_spec option list"

datatype field_value = Numeric string | Text string | Bytes "byte list"

fun as_numeric :: "field_value \<Rightarrow> string option" where
  "as_numeric (Numeric s) = Some s"
| "as_numeric _ = None"

fun as_text :: "field_value \<Rightarrow> string option" where
  "as_text (Text s) = Some s"
| "as_text _ = None"

fun as_bytes :: "field_value \<Rightarrow> byte list option" where
  "as_bytes (Bytes b) = Some b"
| "as_bytes _ = None"

definition catalog_entries :: "(nat \<times> string \<times> encoding \<times> length_rule) list" where
  "catalog_entries =
     [(2, ''PAN'', Bcd, Ll 19),
      (3, ''Processing code'', Bcd, Fixed 6),
      (4, ''Amount, transaction'', Bcd, Fixed 12),
      (7, ''Transmission date/time'', Bcd, Fixed 10),
      (11, ''Systems trace audit number (STAN)'', Bcd, Fixed 6),
      (12, ''Local time (hhmmss)'', Bcd, Fixed 6),
      (13, ''Local date (MMDD)'', Bcd, Fixed 4),
      (14, ''Expiration date (YYMM)'', Bcd, Fixed 4),
      (18, ''Merchant category code (MCC)'', Bcd, Fixed 4),
      (22, ''POS entry mode'', Bcd, Fixed 3),
      (25, ''POS condition code'', Bcd, Fixed 2),
      (32, ''Acquiring institution ID code'', Bcd, Ll 11),
      (35, ''Track 2 data'', Bcd, Ll 37),
      (37, ''Retrieval reference number (RRN)'', Ascii, Fixed 12),
      (38, ''Approval code'', Ascii, Fixed 6),
      (39, ''Response code'', Ascii, Fixed 2),
      (41, ''Card acceptor terminal ID'', Ascii, Fixed 8),
      (42, ''Card acceptor ID (merchant ID)'', Ascii, Fixed 15),
      (43, ''Card acceptor name/location'', Ascii, Fixed 40),
      (49, ''Currency code, transaction'', Bcd, Fixed 3),
      (52, ''PIN block'', Binary, Fixed 8),
      (54, ''Additional amounts'', Ascii, Lll 120),
      (55, ''ICC / EMV data (TLV)'', Binary, Lll 255),
      (64, ''MAC (primary)'', Binary, Fixed 8),
      (90, ''Original data elements'', Bcd, Fixed 42),
      (128, ''MAC (secondary)'', Binary, Fixed 8)]"

definition default_catalog :: catalog where
  "default_catalog =
     fold (\<lambda>(de, label, enc, len) table. table[de := Some \<lparr>fs_de = de, fs_label = label, fs_encoding = enc, fs_length = len\<rparr>])
       catalog_entries (replicate 129 None)"

definition lookup :: "catalog \<Rightarrow> nat \<Rightarrow> (field_spec, iso_error) result" where
  "lookup catalog de = ok_or (if de < length catalog then catalog ! de else None) (UnknownDataElement de)"

fun discriminant :: "field_value \<Rightarrow> string" where
  "discriminant (Numeric _) = ''Numeric''"
| "discriminant (Text _) = ''Text''"
| "discriminant (Bytes _) = ''Bytes''"

fun debug_encoding :: "encoding \<Rightarrow> string" where
  "debug_encoding Bcd = ''Bcd''"
| "debug_encoding Ascii = ''Ascii''"
| "debug_encoding Ebcdic = ''Ebcdic''"
| "debug_encoding Binary = ''Binary''"

definition incompatible :: "field_spec \<Rightarrow> field_value \<Rightarrow> iso_error" where
  "incompatible spec v = InvalidDataElement (fs_de spec)
     (''value type '' @ [CHR 0x22] @ discriminant v @ [CHR 0x22] @ '' not compatible with encoding '' @ debug_encoding (fs_encoding spec))"

definition field_payload :: "field_spec \<Rightarrow> field_value \<Rightarrow> (byte list, iso_error) result" where
  "field_payload spec v =
     (case (fs_encoding spec, v) of
        (Bcd, Numeric s) \<Rightarrow> bcd_encode s
      | (Ascii, Numeric s) \<Rightarrow> ascii_encode s
      | (Ascii, Text s) \<Rightarrow> ascii_encode s
      | (Ebcdic, Numeric s) \<Rightarrow> ebcdic_encode s
      | (Ebcdic, Text s) \<Rightarrow> ebcdic_encode s
      | (Binary, Bytes b) \<Rightarrow> Ok b
      | _ \<Rightarrow> Err (incompatible spec v))"

text \<open>The kind of length prefix: BCD for packed and binary data, ASCII otherwise.\<close>

definition ll_kind :: "encoding \<Rightarrow> var_len_kind" where
  "ll_kind enc = (if enc = Bcd \<or> enc = Binary then LlBcd else LlAscii)"

definition lll_kind :: "encoding \<Rightarrow> var_len_kind" where
  "lll_kind enc = (if enc = Bcd \<or> enc = Binary then LllBcd else LllAscii)"

definition expected_bytes :: "encoding \<Rightarrow> nat \<Rightarrow> nat" where
  "expected_bytes enc n = (if enc = Bcd then (n + 1) div 2 else n)"

definition encode_field :: "field_spec \<Rightarrow> field_value \<Rightarrow> (byte list, iso_error) result" where
  "encode_field spec v =
     rbind (field_payload spec v) (\<lambda>payload.
       case fs_length spec of
         Fixed n \<Rightarrow>
           if length payload \<noteq> expected_bytes (fs_encoding spec) n
           then Err (InvalidDataElement (fs_de spec)
                  (''fixed-length DE expects '' @ show_nat (expected_bytes (fs_encoding spec) n) @ '' bytes, got '' @ show_nat (length payload)))
           else Ok payload
       | Ll _ \<Rightarrow> var_encode (ll_kind (fs_encoding spec)) payload
       | Lll _ \<Rightarrow> var_encode (lll_kind (fs_encoding spec)) payload)"

text \<open>The digits of variable-length packed decimals: every nibble up to nine, pads dropped.\<close>

definition bcd_raw_digits :: "byte list \<Rightarrow> string" where
  "bcd_raw_digits payload =
     concat (map (\<lambda>b. (if drop_bit 4 b \<le> 9 then [digit_char (unat (drop_bit 4 b))] else [])
                    @ (if b AND 0x0F \<le> 9 then [digit_char (unat (b AND 0x0F))] else [])) payload)"

definition decode_var :: "field_spec \<Rightarrow> var_len_kind \<Rightarrow> byte list \<Rightarrow> nat \<Rightarrow> (field_value \<times> nat, iso_error) result" where
  "decode_var spec kind input off =
     rbind (var_decode kind input off) (\<lambda>(payload, new_offset).
     rbind (case fs_encoding spec of
              Bcd \<Rightarrow> Ok (Numeric (bcd_raw_digits payload))
            | Ascii \<Rightarrow>
                if utf8_valid (map unat payload) then Ok (Text (map (\<lambda>b. char_of (unat b)) payload))
                else Err (InvalidDataElement (fs_de spec) ''non-UTF8 payload in ASCII variable-length field'')
            | Ebcdic \<Rightarrow> rbind (ebcdic_decode payload 0 (length payload)) (\<lambda>(text, _). Ok (Text text))
            | Binary \<Rightarrow> Ok (Bytes payload))
       (\<lambda>v. Ok (v, new_offset)))"

definition decode_field :: "field_spec \<Rightarrow> byte list \<Rightarrow> nat \<Rightarrow> (field_value \<times> nat, iso_error) result" where
  "decode_field spec input off =
     (case fs_length spec of
        Fixed n \<Rightarrow>
          (case fs_encoding spec of
             Bcd \<Rightarrow> rbind (bcd_decode input off n) (\<lambda>(digits, new_offset). Ok (Numeric digits, new_offset))
           | Ascii \<Rightarrow> rbind (ascii_decode input off n) (\<lambda>(text, new_offset). Ok (Text text, new_offset))
           | Ebcdic \<Rightarrow> rbind (ebcdic_decode input off n) (\<lambda>(text, new_offset). Ok (Text text, new_offset))
           | Binary \<Rightarrow> rbind (binary_decode input off n) (\<lambda>(bytes, new_offset). Ok (Bytes bytes, new_offset)))
      | Ll _ \<Rightarrow> decode_var spec (ll_kind (fs_encoding spec)) input off
      | Lll _ \<Rightarrow> decode_var spec (lll_kind (fs_encoding spec)) input off)"

section \<open>Messages\<close>

type_synonym mti = "16 word"

abbreviation AUTH_REQUEST :: mti where "AUTH_REQUEST \<equiv> 0x0100"
abbreviation AUTH_RESPONSE :: mti where "AUTH_RESPONSE \<equiv> 0x0110"
abbreviation FINANCIAL_REQUEST :: mti where "FINANCIAL_REQUEST \<equiv> 0x0200"
abbreviation FINANCIAL_RESPONSE :: mti where "FINANCIAL_RESPONSE \<equiv> 0x0210"
abbreviation FINANCIAL_ADVICE :: mti where "FINANCIAL_ADVICE \<equiv> 0x0220"
abbreviation REVERSAL_ADVICE :: mti where "REVERSAL_ADVICE \<equiv> 0x0420"
abbreviation NETWORK_REQUEST :: mti where "NETWORK_REQUEST \<equiv> 0x0800"
abbreviation NETWORK_RESPONSE :: mti where "NETWORK_RESPONSE \<equiv> 0x0810"

definition lower_hex :: "nat \<Rightarrow> char" where
  "lower_hex n = ''0123456789abcdef'' ! n"

text \<open>\<^verbatim>\<open>format!("{:04x}")\<close> of a 16-bit value: its four nibbles.\<close>

definition as_str4 :: "mti \<Rightarrow> string" where
  "as_str4 m = map (\<lambda>k. lower_hex (unat (drop_bit k m AND 0x0F))) [12, 8, 4, 0]"

definition is_response :: "mti \<Rightarrow> bool" where
  "is_response m \<longleftrightarrow> drop_bit 4 m AND 0x0F \<in> {1, 3, 5, 7, 9}"

text \<open>\<^verbatim>\<open>u16::from_str_radix(_, 16)\<close>: an optional plus sign, then hexadecimal digits of a value below \<open>2 ^ 16\<close>.\<close>

definition hex_value :: "char \<Rightarrow> nat option" where
  "hex_value c = map_option unat (hex_nibble (of_char c))"

definition from_str_radix_16 :: "string \<Rightarrow> mti option" where
  "from_str_radix_16 s =
     (let ds = (case s of c # cs \<Rightarrow> if c = CHR ''+'' then cs else s | [] \<Rightarrow> s);
          v = fold (\<lambda>c acc. acc * 16 + the (hex_value c)) ds 0
      in if ds = [] \<or> list_ex (\<lambda>c. hex_value c = None) ds \<or> v \<ge> 65536 then None else Some (of_nat v))"

record iso8583_message =
  msg_mti :: mti
  msg_bitmaps :: bitmaps
  msg_fields :: "(nat, field_value) btreemap"

definition msg_new :: "mti \<Rightarrow> iso8583_message" where
  "msg_new m = \<lparr>msg_mti = m, msg_bitmaps = bm_new, msg_fields = []\<rparr>"

definition msg_set :: "nat \<Rightarrow> field_value \<Rightarrow> iso8583_message \<Rightarrow> iso8583_message" where
  "msg_set de v m = m\<lparr>msg_bitmaps := bm_set de (msg_bitmaps m), msg_fields := bt_insert de v (msg_fields m)\<rparr>"

definition msg_unset :: "nat \<Rightarrow> iso8583_message \<Rightarrow> iso8583_message" where
  "msg_unset de m = m\<lparr>msg_bitmaps := bm_clear de (msg_bitmaps m), msg_fields := bt_remove de (msg_fields m)\<rparr>"

definition msg_get :: "iso8583_message \<Rightarrow> nat \<Rightarrow> field_value option" where
  "msg_get m de = bt_get (msg_fields m) de"

definition pan :: "iso8583_message \<Rightarrow> string option" where
  "pan m = Option.bind (msg_get m 2) as_numeric"

definition processing_code :: "iso8583_message \<Rightarrow> string option" where
  "processing_code m = Option.bind (msg_get m 3) as_numeric"

definition amount_tx :: "iso8583_message \<Rightarrow> string option" where
  "amount_tx m = Option.bind (msg_get m 4) as_numeric"

definition stan :: "iso8583_message \<Rightarrow> string option" where
  "stan m = Option.bind (msg_get m 11) as_numeric"

definition rrn :: "iso8583_message \<Rightarrow> string option" where
  "rrn m = Option.bind (msg_get m 37) as_text"

definition approval_code :: "iso8583_message \<Rightarrow> string option" where
  "approval_code m = Option.bind (msg_get m 38) as_text"

definition response_code :: "iso8583_message \<Rightarrow> string option" where
  "response_code m = Option.bind (msg_get m 39) as_text"

definition terminal_id :: "iso8583_message \<Rightarrow> string option" where
  "terminal_id m = Option.bind (msg_get m 41) as_text"

definition merchant_id :: "iso8583_message \<Rightarrow> string option" where
  "merchant_id m = Option.bind (msg_get m 42) as_text"

definition currency_tx :: "iso8583_message \<Rightarrow> string option" where
  "currency_tx m = Option.bind (msg_get m 49) as_numeric"

definition emv_blob :: "iso8583_message \<Rightarrow> byte list option" where
  "emv_blob m = Option.bind (msg_get m 55) as_bytes"

definition mac_primary :: "iso8583_message \<Rightarrow> byte list option" where
  "mac_primary m = Option.bind (msg_get m 64) as_bytes"

definition original_data_elements :: "iso8583_message \<Rightarrow> string option" where
  "original_data_elements m = Option.bind (msg_get m 90) as_numeric"

fun encode_des :: "catalog \<Rightarrow> (nat, field_value) btreemap \<Rightarrow> nat list \<Rightarrow> (byte list, iso_error) result" where
  "encode_des catalog fs [] = Ok []"
| "encode_des catalog fs (de # des) =
     rbind (ok_or (bt_get fs de) (MissingDataElement de)) (\<lambda>v.
     rbind (lookup catalog de) (\<lambda>spec.
     rbind (encode_field spec v) (\<lambda>bytes.
     rbind (encode_des catalog fs des) (\<lambda>out. Ok (bytes @ out)))))"

definition refreshed_bitmap :: "(nat, field_value) btreemap \<Rightarrow> bitmaps" where
  "refreshed_bitmap fs = fold bm_set (bt_keys fs) bm_new"

definition encode_with_catalog :: "catalog \<Rightarrow> iso8583_message \<Rightarrow> (byte list, iso_error) result" where
  "encode_with_catalog catalog m =
     rbind (bcd_encode (as_str4 (msg_mti m))) (\<lambda>head.
       let bm = refreshed_bitmap (msg_fields m) in
       rbind (encode_des catalog (msg_fields m) (iter_des bm)) (\<lambda>body. Ok (head @ bm_encode_binary bm @ body)))"

definition msg_encode :: "iso8583_message \<Rightarrow> (byte list, iso_error) result" where
  "msg_encode m = encode_with_catalog default_catalog m"

fun decode_des :: "catalog \<Rightarrow> byte list \<Rightarrow> nat list \<Rightarrow> nat \<Rightarrow> (nat, field_value) btreemap \<Rightarrow> ((nat, field_value) btreemap, iso_error) result" where
  "decode_des catalog input [] off fs = Ok fs"
| "decode_des catalog input (de # des) off fs =
     rbind (lookup catalog de) (\<lambda>spec.
     rbind (decode_field spec input off) (\<lambda>(v, new_offset).
       decode_des catalog input des new_offset (bt_insert de v fs)))"

definition decode_with_catalog :: "byte list \<Rightarrow> catalog \<Rightarrow> (iso8583_message, iso_error) result" where
  "decode_with_catalog input catalog =
     (if length input < 2 then Err (IsoUnexpectedEof 0 2)
      else rbind (bcd_decode input 0 4) (\<lambda>(mti_str, off).
           rbind (ok_or (from_str_radix_16 mti_str) (InvalidMti mti_str)) (\<lambda>mti_val.
           rbind (bm_decode_binary input off) (\<lambda>(bm, off').
           rbind (decode_des catalog input (iter_des bm) off' []) (\<lambda>fs.
             Ok \<lparr>msg_mti = mti_val, msg_bitmaps = bm, msg_fields = fs\<rparr>)))))"

definition msg_decode :: "byte list \<Rightarrow> (iso8583_message, iso_error) result" where
  "msg_decode input = decode_with_catalog input default_catalog"

section \<open>Network management\<close>

datatype network_mgmt_code = SignOn | SignOff | Cutover | EchoTest | KeyChange

fun nm_code :: "network_mgmt_code \<Rightarrow> nat" where
  "nm_code SignOn = 1"
| "nm_code SignOff = 2"
| "nm_code Cutover = 201"
| "nm_code EchoTest = 301"
| "nm_code KeyChange = 101"

definition as_str3 :: "network_mgmt_code \<Rightarrow> string" where
  "as_str3 c = pad_zero 3 (show_nat (nm_code c))"

definition build_request :: "network_mgmt_code \<Rightarrow> string \<Rightarrow> string \<Rightarrow> (iso8583_message, iso_error) result" where
  "build_request c transmission_date_time st =
     (let m = msg_new NETWORK_REQUEST;
          m = msg_set 7 (Numeric transmission_date_time) m;
          m = msg_set 11 (Numeric st) m;
          m = msg_set 70 (Numeric (as_str3 c)) m
      in Ok m)"

definition mirror_field :: "iso8583_message \<Rightarrow> nat \<Rightarrow> iso8583_message \<Rightarrow> iso8583_message" where
  "mirror_field request de m = (case msg_get request de of Some v \<Rightarrow> msg_set de v m | None \<Rightarrow> m)"

definition build_response :: "iso8583_message \<Rightarrow> string \<Rightarrow> (iso8583_message, iso_error) result" where
  "build_response request rc =
     (let m = msg_new NETWORK_RESPONSE;
          m = mirror_field request 7 m;
          m = mirror_field request 11 m;
          m = mirror_field request 70 m;
          m = msg_set 39 (Text rc) m
      in Ok m)"

definition sign_on :: "string \<Rightarrow> string \<Rightarrow> (iso8583_message, iso_error) result" where
  "sign_on date_time st = build_request SignOn date_time st"

definition sign_off :: "string \<Rightarrow> string \<Rightarrow> (iso8583_message, iso_error) result" where
  "sign_off date_time st = build_request SignOff date_time st"

definition echo_test :: "string \<Rightarrow> string \<Rightarrow> (iso8583_message, iso_error) result" where
  "echo_test date_time st = build_request EchoTest date_time st"

definition key_change :: "string \<Rightarrow> string \<Rightarrow> (iso8583_message, iso_error) result" where
  "key_change date_time st = build_request KeyChange date_time st"

definition cutover :: "string \<Rightarrow> string \<Rightarrow> (iso8583_message, iso_error) result" where
  "cutover date_time st = build_request Cutover date_time st"

section \<open>Round trips\<close>

text \<open>
  The values the codec carries exactly for a data element: a packed number of digits (of even length in a variable-length element, since an odd
  number of digits comes back with a zero in front, \<open>odd_var_bcd_gains_zero\<close>), printable text in an ASCII element, text of the EBCDIC table in an EBCDIC
  element, or bytes in a binary one, of the fixed length or one the length prefix can express.
\<close>

fun wire_exact :: "field_spec \<Rightarrow> field_value \<Rightarrow> bool" where
  "wire_exact spec (Numeric s) \<longleftrightarrow> fs_encoding spec = Bcd \<and> list_all is_ascii_digit s
     \<and> (case fs_length spec of Fixed n \<Rightarrow> length s = n
         | Ll _ \<Rightarrow> even (length s) \<and> length s div 2 \<le> 99 | Lll _ \<Rightarrow> even (length s) \<and> length s div 2 \<le> 999)"
| "wire_exact spec (Text s) \<longleftrightarrow> (fs_encoding spec = Ascii \<and> list_all is_printable s \<or> fs_encoding spec = Ebcdic \<and> list_all ebcdic_faithful s)
     \<and> (case fs_length spec of Fixed n \<Rightarrow> length s = n | Ll _ \<Rightarrow> length s \<le> 99 | Lll _ \<Rightarrow> length s \<le> 999)"
| "wire_exact spec (Bytes b) \<longleftrightarrow> fs_encoding spec = Binary
     \<and> (case fs_length spec of Fixed n \<Rightarrow> length b = n | Ll _ \<Rightarrow> length b \<le> 99 | Lll _ \<Rightarrow> length b \<le> 999)"

lemma utf8_valid_ascii: "list_all is_printable s \<Longrightarrow> utf8_valid (map of_char s)"
  by (induction s) (auto simp: is_printable_def)

lemma bcd_raw_digits_pack:
  "list_all is_ascii_digit s \<Longrightarrow> even (length s) \<Longrightarrow> bcd_raw_digits (bcd_pack s) = s"
proof (induction s rule: bcd_pack.induct)
  case (1 a b cs)
  then show ?case using bcd_byte [of a b] by (simp add: bcd_raw_digits_def not_less)
qed (simp_all add: bcd_raw_digits_def)

lemma var_max_kind [simp]:
  "var_max (ll_kind enc) = 99" "var_max (lll_kind enc) = 999"
  by (simp_all add: ll_kind_def lll_kind_def)

text \<open>Round trip of one variable-length field: the payload, then what \<open>decode_var\<close> makes of it.\<close>

fun payload_of :: "encoding \<Rightarrow> field_value \<Rightarrow> byte list" where
  "payload_of enc (Numeric s) = bcd_pack s"
| "payload_of enc (Text s) = map (if enc = Ebcdic then ascii_to_ebcdic else of_char) s"
| "payload_of enc (Bytes b) = b"

lemma field_payload_ok:
  assumes "wire_exact spec v" and "\<And>n. fs_length spec \<noteq> Fixed n"
  shows "field_payload spec v = Ok (payload_of (fs_encoding spec) v)"
    and "length (payload_of (fs_encoding spec) v) \<le> (case fs_length spec of Ll _ \<Rightarrow> 99 | _ \<Rightarrow> 999)"
proof -
  show "field_payload spec v = Ok (payload_of (fs_encoding spec) v)"
    using assms by (cases v)
      (auto simp: field_payload_def bcd_encode_def even_iff_mod_2_eq_zero ascii_round_trip ebcdic_round_trip split: length_rule.splits)
  show "length (payload_of (fs_encoding spec) v) \<le> (case fs_length spec of Ll _ \<Rightarrow> 99 | _ \<Rightarrow> 999)"
    using assms by (cases v) (auto simp: bcd_pack_length split: length_rule.splits)
qed

lemma decode_var_back:
  assumes "wire_exact spec v" and "\<And>n. fs_length spec \<noteq> Fixed n"
    and "var_decode kind input off = Ok (payload_of (fs_encoding spec) v, off')"
  shows "decode_var spec kind input off = Ok (v, off')"
proof (cases v)
  case (Numeric s)
  then show ?thesis using assms by (auto simp: decode_var_def bcd_raw_digits_pack split: length_rule.splits)
next
  case (Text s)
  have "list_all ebcdic_faithful s \<Longrightarrow> ebcdic_decode (map ascii_to_ebcdic s) 0 (length s) = Ok (s, length s)"
    using ebcdic_round_trip(2) [of s "[]" "[]"] by simp
  then show ?thesis using assms Text
    by (auto simp: decode_var_def utf8_valid_ascii comp_def simp del: rbind_eq_Ok)
next
  case (Bytes b)
  then show ?thesis using assms by (auto simp: decode_var_def)
qed

lemma field_round_trip:
  assumes "wire_exact spec v"
  obtains bs where "encode_field spec v = Ok bs"
    and "\<And>pre rest. decode_field spec (pre @ bs @ rest) (length pre) = Ok (v, length pre + length bs)"
proof (cases "\<exists>n. fs_length spec = Fixed n")
  case True
  then obtain n where n: "fs_length spec = Fixed n" by blast
  show thesis
  proof (cases v)
    case (Numeric s)
    then have s: "fs_encoding spec = Bcd" "list_all is_ascii_digit s" "length s = n" using assms n by auto
    obtain bs where "bcd_encode s = Ok bs" "length bs = (length s + 1) div 2"
      "\<And>pre rest. bcd_decode (pre @ bs @ rest) (length pre) (length s) = Ok (s, length pre + length bs)"
      using bcd_round_trip [OF s(2)] by blast
    then show thesis using n Numeric s
      by (intro that [of bs]) (simp_all add: encode_field_def decode_field_def field_payload_def expected_bytes_def del: rbind_eq_Ok)
  next
    case (Text s)
    then show thesis using assms n
      by (intro that [of "payload_of (fs_encoding spec) v"])
        (auto simp: encode_field_def decode_field_def field_payload_def expected_bytes_def ascii_round_trip ebcdic_round_trip
           simp del: rbind_eq_Ok)
  next
    case (Bytes b)
    then show thesis using assms n
      by (intro that [of b]) (simp_all add: encode_field_def decode_field_def field_payload_def expected_bytes_def binary_decode_def)
  qed
next
  case False
  let ?p = "payload_of (fs_encoding spec) v"
  define kind where "kind = (case fs_length spec of Ll _ \<Rightarrow> ll_kind (fs_encoding spec) | _ \<Rightarrow> lll_kind (fs_encoding spec))"
  have nf: "\<And>n. fs_length spec \<noteq> Fixed n" using False by blast
  note fp = field_payload_ok [OF assms nf]
  have "length ?p \<le> var_max kind" using fp(2) nf by (auto simp: kind_def split: length_rule.splits)
  then obtain bs where bs: "var_encode kind ?p = Ok (bs @ ?p)"
    "\<And>pre rest. var_decode kind (pre @ (bs @ ?p) @ rest) (length pre) = Ok (?p, length pre + length (bs @ ?p))"
    using var_round_trip by blast
  show thesis
  proof (rule that [of "bs @ ?p"])
    show "encode_field spec v = Ok (bs @ ?p)"
      using fp(1) bs(1) nf by (cases "fs_length spec") (auto simp: encode_field_def kind_def)
    show "decode_field spec (pre @ (bs @ ?p) @ rest) (length pre) = Ok (v, length pre + length (bs @ ?p))" for pre rest
      using decode_var_back [OF assms nf bs(2) [of pre rest]] nf
      by (cases "fs_length spec") (auto simp: decode_field_def kind_def)
  qed
qed

lemma encode_wire_exact: "wire_exact spec v \<Longrightarrow> \<exists>bs. encode_field spec v = Ok bs"
  by (erule field_round_trip) (rule exI)

section \<open>The message type indicator on the wire\<close>

lemma hex_value_lower_hex: "n < 16 \<Longrightarrow> hex_value (lower_hex n) = Some n"
  by (erule all_nibbles [rotated]) (simp add: lower_hex_def hex_value_def hex_nibble_def)

lemma lower_hex_not_plus: "n < 16 \<Longrightarrow> lower_hex n \<noteq> CHR ''+''"
  using hex_value_lower_hex [of n] by (auto simp: hex_value_def hex_nibble_def)

lemma mti_nibble: "unat (drop_bit k m AND 0x0F) = unat m div 2 ^ k mod 16" for m :: mti
proof -
  have "(0x0F :: mti) = mask 4" by (simp add: mask_eq_exp_minus_1)
  then have "drop_bit k m AND 0x0F = take_bit 4 (drop_bit k m)" by (simp add: take_bit_eq_mask)
  then have "unat (drop_bit k m AND 0x0F) = take_bit 4 (drop_bit k (unat m))"
    using take_bit_nat_eq_self [OF unsigned_less [of m]] by (simp only: unsigned_take_bit_eq unsigned_drop_bit_eq)
  then show ?thesis by (simp only: take_bit_eq_mod drop_bit_eq_div) simp
qed

lemma nibbles_sum: "((n div 2 ^ 12 mod 16 * 16 + n div 2 ^ 8 mod 16) * 16 + n div 2 ^ 4 mod 16) * 16 + n div 2 ^ 0 mod 16 = n"
  if "n < 65536" for n :: nat
proof -
  have s: "n div 2 ^ 8 = n div 16 div 16" "n div 2 ^ 12 = n div 16 div 16 div 16" "n div 2 ^ 4 = n div 16" "n div 2 ^ 0 = n"
    by (simp_all add: div_mult2_eq [symmetric])
  have "n div 16 div 16 div 16 < 16" using that by (simp add: div_mult2_eq [symmetric] less_mult_imp_div_less)
  then show ?thesis unfolding s
    using div_mult_mod_eq [of n 16] div_mult_mod_eq [of "n div 16" 16] div_mult_mod_eq [of "n div 16 div 16" 16] by simp
qed

lemma as_str4_length: "length (as_str4 m) = 4"
  by (simp add: as_str4_def)

lemma from_str_radix_as_str4: "from_str_radix_16 (as_str4 m) = Some m"
proof -
  let ?n = "unat m"
  have lt: "?n < 65536" by (rule order_less_le_trans [OF unsigned_less]) simp
  let ?a = "?n div 2 ^ 12 mod 16" and ?b = "?n div 2 ^ 8 mod 16" and ?c = "?n div 2 ^ 4 mod 16" and ?d = "?n div 2 ^ 0 mod 16"
  have e: "as_str4 m = [lower_hex ?a, lower_hex ?b, lower_hex ?c, lower_hex ?d]"
    by (simp only: as_str4_def mti_nibble list.map)
  have "((?a * 16 + ?b) * 16 + ?c) * 16 + ?d = ?n" by (rule nibbles_sum [OF lt])
  then show ?thesis unfolding e using lt
    by (simp add: from_str_radix_16_def Let_def hex_value_lower_hex lower_hex_not_plus)
qed

lemma mti_round_trip:
  assumes "list_all is_ascii_digit (as_str4 m)"
  obtains bs where "bcd_encode (as_str4 m) = Ok bs" and "length bs = 2"
    and "\<And>rest. bcd_decode (bs @ rest) 0 4 = Ok (as_str4 m, 2)"
proof -
  obtain bs where bs: "bcd_encode (as_str4 m) = Ok bs" "length bs = (length (as_str4 m) + 1) div 2"
    "\<And>pre rest. bcd_decode (pre @ bs @ rest) (length pre) (length (as_str4 m)) = Ok (as_str4 m, length pre + length bs)"
    using bcd_round_trip [OF assms] by blast
  show thesis using bs(1,2) bs(3) [of "[]"] by (intro that [of bs]) (simp_all add: as_str4_length)
qed

section \<open>Messages on the wire\<close>

lemma refreshed_bitmap_has: "bm_has (refreshed_bitmap fs) n \<longleftrightarrow> n \<in> set (bt_keys fs) \<and> 1 \<le> n \<and> n \<le> 128"
proof -
  have "bm_has (fold bm_set ks b) n \<longleftrightarrow> bm_has b n \<or> (n \<in> set ks \<and> 1 \<le> n \<and> n \<le> 128)" for ks b
    by (induction ks arbitrary: b) (auto simp: bm_has_set)
  then show ?thesis by (simp add: refreshed_bitmap_def bm_has_new)
qed

definition keys_in_range :: "(nat, field_value) btreemap \<Rightarrow> bool" where
  "keys_in_range fs \<longleftrightarrow> list_all (\<lambda>de. 2 \<le> de \<and> de \<le> 128) (bt_keys fs)"

lemma iter_des_refreshed:
  assumes "bt_wf fs" and "keys_in_range fs"
  shows "iter_des (refreshed_bitmap fs) = bt_keys fs"
proof -
  have "set (iter_des (refreshed_bitmap fs)) = set (bt_keys fs)"
    using assms(2) by (auto simp: iter_des_set refreshed_bitmap_has keys_in_range_def list_all_iff)
  moreover have "sorted (bt_keys fs)" "distinct (bt_keys fs)"
    using bt.keys_sorted [OF assms(1)] by (simp_all add: strict_sorted_iff)
  ultimately show ?thesis using iter_des_sorted sorted_distinct_set_unique by blast
qed

fun fields_exact :: "catalog \<Rightarrow> (nat, field_value) btreemap \<Rightarrow> bool" where
  "fields_exact cat [] \<longleftrightarrow> True"
| "fields_exact cat ((de, v) # fs) \<longleftrightarrow> (case lookup cat de of Ok spec \<Rightarrow> wire_exact spec v | _ \<Rightarrow> False) \<and> fields_exact cat fs"

lemma des_round_trip:
  assumes "fields_exact cat xs" and "\<And>de v. (de, v) \<in> set xs \<Longrightarrow> bt_get fs de = Some v"
  obtains body where "encode_des cat fs (map fst xs) = Ok body"
    and "\<And>pre rest acc. bt_wf (acc @ xs) \<Longrightarrow> decode_des cat (pre @ body @ rest) (map fst xs) (length pre) acc = Ok (acc @ xs)"
  using assms
proof (induction xs arbitrary: thesis)
  case Nil
  show ?case by (rule Nil.prems(1) [of "[]"]) simp_all
next
  case (Cons x xs)
  obtain de v where x: "x = (de, v)" by (cases x)
  obtain spec where spec: "lookup cat de = Ok spec" "wire_exact spec v" "fields_exact cat xs"
    using Cons.prems(2) x by (auto split: result.splits)
  obtain body where body: "encode_des cat fs (map fst xs) = Ok body"
    "\<And>pre rest acc. bt_wf (acc @ xs) \<Longrightarrow> decode_des cat (pre @ body @ rest) (map fst xs) (length pre) acc = Ok (acc @ xs)"
    using Cons.IH spec(3) Cons.prems(3) by (metis list.set_intros(2))
  obtain bs where bs: "encode_field spec v = Ok bs"
    "\<And>pre rest. decode_field spec (pre @ bs @ rest) (length pre) = Ok (v, length pre + length bs)"
    using field_round_trip [OF spec(2)] by blast
  have g: "bt_get fs de = Some v" using Cons.prems(3) x by simp
  show ?case
  proof (rule Cons.prems(1) [of "bs @ body"])
    show "encode_des cat fs (map fst (x # xs)) = Ok (bs @ body)" using x g spec bs(1) body(1) by simp
    fix pre rest acc assume wf: "bt_wf (acc @ x # xs)"
    have "bt_insert de v acc = acc @ [x]"
      unfolding x using wf by (intro bt_insert_last) (auto simp: x bt_wf_def list_all_iff sorted_wrt_append)
    then show "decode_des cat (pre @ (bs @ body) @ rest) (map fst (x # xs)) (length pre) acc = Ok (acc @ x # xs)"
      using wf body(2) [of "acc @ [x]" "pre @ bs" rest] bs(2) [of pre "body @ rest"] by (simp add: x spec(1) del: rbind_eq_Ok)
  qed
qed

text \<open>The maximum the catalog gives for a variable-length element, in digits, characters or bytes (the codec does not check it).\<close>

fun value_length :: "field_value \<Rightarrow> nat" where
  "value_length (Numeric s) = length s"
| "value_length (Text s) = length s"
| "value_length (Bytes b) = length b"

definition within_max :: "field_spec \<Rightarrow> field_value \<Rightarrow> bool" where
  "within_max spec v \<longleftrightarrow> (case fs_length spec of Fixed _ \<Rightarrow> True | Ll n \<Rightarrow> value_length v \<le> n | Lll n \<Rightarrow> value_length v \<le> n)"

text \<open>
  A message the wire carries exactly: fields in key order, within the bitmaps, each carried exactly and within the catalog's maximum; a decimal type
  indicator.
\<close>

definition msg_ok :: "catalog \<Rightarrow> iso8583_message \<Rightarrow> bool" where
  "msg_ok cat m \<longleftrightarrow> bt_wf (msg_fields m) \<and> keys_in_range (msg_fields m) \<and> fields_exact cat (msg_fields m)
     \<and> list_all (\<lambda>(de, v). \<exists>spec. lookup cat de = Ok spec \<and> within_max spec v) (msg_fields m) \<and> list_all is_ascii_digit (as_str4 (msg_mti m))"

text \<open>
  C34.  Message round trip.  Take a message with a decimal type indicator whose fields are in the catalog, within its maximum lengths, and of the kind
  the codec carries exactly: digits in packed elements (an even number of them in a variable-length element), printable text in ASCII elements,
  text of the EBCDIC table in EBCDIC elements, bytes in binary elements.  It is encoded, and decoding those bytes yields the same type
  indicator and fields, with the bitmap recomputed from the fields.
\<close>

theorem message_round_trip:
  assumes "msg_ok cat m"
  shows "\<exists>bytes. encode_with_catalog cat m = Ok bytes
    \<and> decode_with_catalog bytes cat = Ok (m\<lparr>msg_bitmaps := bm_wire (refreshed_bitmap (msg_fields m))\<rparr>)"
proof -
  let ?fs = "msg_fields m" and ?bm = "refreshed_bitmap (msg_fields m)"
  have ok: "bt_wf ?fs" "keys_in_range ?fs" "fields_exact cat ?fs" "list_all is_ascii_digit (as_str4 (msg_mti m))"
    using assms by (simp_all add: msg_ok_def)
  obtain head where head: "bcd_encode (as_str4 (msg_mti m)) = Ok head" "length head = 2"
    "\<And>rest. bcd_decode (head @ rest) 0 4 = Ok (as_str4 (msg_mti m), 2)"
    using mti_round_trip [OF ok(4)] by blast
  have "\<And>de v. (de, v) \<in> set ?fs \<Longrightarrow> bt_get ?fs de = Some v"
    using bt_wf_distinct [OF ok(1)] by (simp add: bt_get_def)
  from des_round_trip [OF ok(3) this] obtain body where body: "encode_des cat ?fs (map fst ?fs) = Ok body"
    "\<And>pre rest acc. bt_wf (acc @ ?fs) \<Longrightarrow> decode_des cat (pre @ body @ rest) (map fst ?fs) (length pre) acc = Ok (acc @ ?fs)"
    by blast
  have des: "iter_des ?bm = map fst ?fs" using iter_des_refreshed [OF ok(1,2)] by (simp add: bt_keys_def)
  let ?bytes = "head @ bm_encode_binary ?bm @ body"
  have "bm_decode_binary ?bytes 2 = Ok (bm_wire ?bm, 2 + length (bm_encode_binary ?bm))"
    using bitmap_round_trip [of head ?bm body] head(2) by simp
  moreover have "decode_des cat ?bytes (map fst ?fs) (2 + length (bm_encode_binary ?bm)) [] = Ok ?fs"
    using body(2) [of "[]" "head @ bm_encode_binary ?bm" "[]"] ok(1) head(2) by simp
  ultimately have "decode_with_catalog ?bytes cat = Ok (m\<lparr>msg_bitmaps := bm_wire ?bm\<rparr>)"
    using head(2,3) by (simp add: decode_with_catalog_def from_str_radix_as_str4 des del: rbind_eq_Ok)
  moreover have "encode_with_catalog cat m = Ok ?bytes"
    using head(1) body(1) by (simp add: encode_with_catalog_def Let_def des)
  ultimately show ?thesis by blast
qed

lemma lookup_default:
  assumes "de < 129"
  shows "lookup default_catalog de =
    ok_or (map_option (\<lambda>(l, e, n). \<lparr>fs_de = de, fs_label = l, fs_encoding = e, fs_length = n\<rparr>) (map_of catalog_entries de)) (UnknownDataElement de)"
proof -
  let ?put = "\<lambda>(de, label, enc, len) table. table[de := Some \<lparr>fs_de = de, fs_label = label, fs_encoding = enc, fs_length = len\<rparr>]"
  have l: "length (fold ?put es t) = length t" for es and t :: catalog
    by (induction es arbitrary: t) auto
  have "distinct (map fst es) \<Longrightarrow> de < length t \<Longrightarrow> fold ?put es t ! de =
      (case map_of es de of None \<Rightarrow> t ! de
       | Some (l, e, n) \<Rightarrow> Some \<lparr>fs_de = de, fs_label = l, fs_encoding = e, fs_length = n\<rparr>)" for es and t :: catalog
  proof (induction es arbitrary: t)
    case (Cons x es)
    then show ?case by (cases x) (auto simp: map_of_eq_None_iff [symmetric] split: option.splits)
  qed simp
  moreover have "distinct (map fst catalog_entries)" by (simp add: catalog_entries_def)
  ultimately show ?thesis using assms l
    by (simp add: lookup_def default_catalog_def split: option.splits prod.splits)
qed

lemmas default_lookup = lookup_default catalog_entries_def

theorem message_round_trip_witness:
  "\<exists>bytes. encode_with_catalog default_catalog
      \<lparr>msg_mti = AUTH_REQUEST, msg_bitmaps = bm_new, msg_fields = [(4, Numeric ''000000010000''), (39, Text ''00''), (55, Bytes [0x95, 0])]\<rparr> = Ok bytes
    \<and> decode_with_catalog bytes default_catalog =
        Ok \<lparr>msg_mti = AUTH_REQUEST,
            msg_bitmaps = bm_wire (refreshed_bitmap [(4, Numeric ''000000010000''), (39, Text ''00''), (55, Bytes [0x95, 0])]),
            msg_fields = [(4, Numeric ''000000010000''), (39, Text ''00''), (55, Bytes [0x95, 0])]\<rparr>"
proof -
  let ?fs = "[(4, Numeric ''000000010000''), (39, Text ''00''), (55, Bytes [0x95, 0])]"
  have "msg_ok default_catalog \<lparr>msg_mti = AUTH_REQUEST, msg_bitmaps = bm_new, msg_fields = ?fs\<rparr>"
    by (simp add: msg_ok_def within_max_def bt_wf_def keys_in_range_def bt_keys_def default_lookup is_ascii_digit_def is_printable_def as_str4_def lower_hex_def)
  from message_round_trip [OF this] show ?thesis by simp
qed

section \<open>The bitmap follows the fields\<close>

definition msg_consistent :: "iso8583_message \<Rightarrow> bool" where
  "msg_consistent m \<longleftrightarrow> bt_wf (msg_fields m) \<and> (\<forall>n. 2 \<le> n \<and> n \<le> 128 \<longrightarrow> (bm_has (msg_bitmaps m) n \<longleftrightarrow> n \<in> set (bt_keys (msg_fields m))))"

text \<open>The messages a program can hold: built from an empty one with the public operations, or decoded.\<close>

inductive msg_reach :: "iso8583_message \<Rightarrow> bool" where
  reach_new: "msg_reach (msg_new t)"
| reach_set: "msg_reach m \<Longrightarrow> msg_reach (msg_set de v m)"
| reach_unset: "msg_reach m \<Longrightarrow> msg_reach (msg_unset de m)"
| reach_decode: "decode_with_catalog input cat = Ok m \<Longrightarrow> msg_reach m"

lemma bt_remove_keys: "set (bt_keys (bt_remove de fs)) = set (bt_keys fs) - {de}"
  by (auto simp: bt_keys_def bt_remove_def)

lemma bt_insert_key_set: "set (bt_keys (bt_insert de v fs)) = insert de (set (bt_keys fs))"
  by (simp add: bt_keys_def)

lemma decode_des_keys:
  assumes "decode_des cat input des off fs = Ok fs'" and "bt_wf fs"
  shows "bt_wf fs' \<and> set (bt_keys fs') = set des \<union> set (bt_keys fs)"
  using assms
  by (induction des arbitrary: off fs) (fastforce simp: bt_insert_key_set split: prod.splits)+

lemma msg_reach_consistent: "msg_reach m \<Longrightarrow> msg_consistent m"
proof (induction rule: msg_reach.induct)
  case (reach_decode input cat m)
  then obtain bm off fs where m: "msg_bitmaps m = bm" "msg_fields m = fs" "decode_des cat input (iter_des bm) off [] = Ok fs"
    by (auto simp: decode_with_catalog_def split: if_splits prod.splits)
  then show ?case using decode_des_keys [OF m(3)]
    by (simp add: msg_consistent_def iter_des_set bt_keys_def [of "[]"] bt.wf_empty)
qed (auto simp: msg_consistent_def msg_new_def msg_set_def msg_unset_def bm_has_new bm_has_set bm_has_clear bt_keys_def [of "[]"]
       bt_remove_keys bt_insert_key_set bt.wf_empty)

text \<open>
  Bitmap invariant: in every message built with \<^verbatim>\<open>new\<close>, \<^verbatim>\<open>set\<close> and \<^verbatim>\<open>unset\<close> or returned by the decoder the stored bitmap
  has exactly the bits of the stored fields, so the bitmap the encoder recomputes from the fields is, on the wire, the stored one.
\<close>

theorem bitmap_follows_fields:
  assumes "msg_reach m"
  shows "bm_wire (msg_bitmaps m) = bm_wire (refreshed_bitmap (msg_fields m))
    \<and> iter_des (msg_bitmaps m) = filter (\<lambda>de. 2 \<le> de \<and> de \<le> 128) (bt_keys (msg_fields m))"
proof
  have c: "bt_wf (msg_fields m)"
    "\<And>n. 2 \<le> n \<Longrightarrow> n \<le> 128 \<Longrightarrow> bm_has (msg_bitmaps m) n \<longleftrightarrow> n \<in> set (bt_keys (msg_fields m))"
    using msg_reach_consistent [OF assms] by (auto simp: msg_consistent_def)
  then have "secondary_needed (msg_bitmaps m) = secondary_needed (refreshed_bitmap (msg_fields m))"
    by (auto simp: secondary_needed_iff refreshed_bitmap_has)
  then show "bm_wire (msg_bitmaps m) = bm_wire (refreshed_bitmap (msg_fields m))"
    using c(2) by (intro bm_eqI) (auto simp: bm_wire_has refreshed_bitmap_has)
  let ?ks = "filter (\<lambda>de. 2 \<le> de \<and> de \<le> 128) (bt_keys (msg_fields m))"
  have "sorted ?ks" "distinct ?ks"
    using bt.keys_sorted [OF c(1)] by (simp_all add: strict_sorted_iff sorted_wrt_filter)
  moreover have "set (iter_des (msg_bitmaps m)) = set ?ks" using c(2) by (auto simp: iter_des_set bm_has_iff)
  ultimately show "iter_des (msg_bitmaps m) = ?ks" using iter_des_sorted sorted_distinct_set_unique by blast
qed

theorem bitmap_follows_fields_witness:
  "bm_wire (msg_bitmaps (msg_set 39 (Text ''00'') (msg_new AUTH_RESPONSE))) = bm_wire (refreshed_bitmap [(39, Text ''00'')])
   \<and> iter_des (msg_bitmaps (msg_set 39 (Text ''00'') (msg_new AUTH_RESPONSE))) = [39]"
  using bitmap_follows_fields [OF reach_set [OF reach_new, of 39 "Text ''00''" AUTH_RESPONSE]]
  by (simp add: msg_set_def msg_new_def bt_keys_def)

section \<open>What does not reach the wire\<close>

lemma de70_unknown: "lookup default_catalog 70 = Err (UnknownDataElement 70)"
  by (simp add: default_lookup)

lemma encode_des_unknown:
  assumes "fields_exact cat xs" and "\<And>de v. (de, v) \<in> set xs \<Longrightarrow> bt_get fs de = Some v"
    and "bt_get fs de = Some v" and "lookup cat de = Err e"
  shows "encode_des cat fs (map fst xs @ de # des) = Err e"
  using assms(1,2)
proof (induction xs)
  case (Cons x xs)
  obtain k u where x: "x = (k, u)" by (cases x)
  obtain spec where spec: "lookup cat k = Ok spec" "wire_exact spec u"
    using Cons.prems(1) x by (auto split: result.splits)
  obtain bs where "encode_field spec u = Ok bs" using encode_wire_exact [OF spec(2)] by blast
  moreover have "bt_get fs k = Some u" using Cons.prems(2) x by simp
  moreover have "encode_des cat fs (map fst xs @ de # des) = Err e" using Cons x by simp
  ultimately show ?case using x spec(1) by simp
qed (simp add: assms)

text \<open>
  Network-management messages do not encode: every request the constructors build, with a ten-digit time stamp and a six-digit
  trace number, is refused by \<^verbatim>\<open>encode\<close> because the default catalog has no entry for data element 70.
\<close>

theorem network_request_not_encodable:
  assumes "list_all is_ascii_digit dt" and "length dt = 10" and "list_all is_ascii_digit st" and "length st = 6"
  shows "\<exists>m. build_request c dt st = Ok m \<and> msg_encode m = Err (UnknownDataElement 70)"
proof -
  let ?v = "Numeric (as_str3 c)"
  let ?xs = "[(7 :: nat, Numeric dt), (11, Numeric st)]"
  let ?fs = "?xs @ [(70, ?v)]"
  obtain m where m: "build_request c dt st = Ok m" "msg_fields m = ?fs" "msg_mti m = NETWORK_REQUEST"
    by (simp add: build_request_def msg_set_def msg_new_def Let_def)
  have wf: "bt_wf ?fs" "keys_in_range ?fs" by (simp_all add: bt_wf_def keys_in_range_def bt_keys_def)
  have "fields_exact default_catalog ?xs" using assms by (simp add: default_lookup)
  then have "encode_des default_catalog ?fs (map fst ?xs @ [70]) = Err (UnknownDataElement 70)"
    by (rule encode_des_unknown [where v = ?v]) (auto simp: bt_get_def de70_unknown)
  moreover have "iter_des (refreshed_bitmap ?fs) = map fst ?xs @ [70]"
    using iter_des_refreshed [OF wf] by (simp add: bt_keys_def)
  moreover have "list_all is_ascii_digit (as_str4 NETWORK_REQUEST)"
    by (simp add: as_str4_def lower_hex_def is_ascii_digit_def)
  then obtain head where "bcd_encode (as_str4 NETWORK_REQUEST) = Ok head" using mti_round_trip by blast
  ultimately show ?thesis using m by (simp add: msg_encode_def encode_with_catalog_def Let_def)
qed

theorem network_request_not_encodable_witness:
  "\<exists>m. build_request SignOn ''0101120000'' ''000001'' = Ok m \<and> msg_encode m = Err (UnknownDataElement 70)"
  by (rule network_request_not_encodable) (simp_all add: is_ascii_digit_def)

text \<open>A data element outside 2 to 128 is stored but never encoded.\<close>

lemma out_of_range_dropped:
  assumes "bt_wf (msg_fields m)" and "de < 2 \<or> 128 < de"
  shows "encode_with_catalog cat (msg_set de v m) = encode_with_catalog cat m"
proof -
  let ?fs = "msg_fields m" and ?fs' = "bt_insert de v (msg_fields m)"
  have k: "set (bt_keys ?fs') = insert de (set (bt_keys ?fs))" by (rule bt_insert_key_set)
  have has: "2 \<le> n \<Longrightarrow> bm_has (refreshed_bitmap ?fs') n = bm_has (refreshed_bitmap ?fs) n" for n
    using assms(2) k by (auto simp: refreshed_bitmap_has)
  have w: "bm_wire (refreshed_bitmap ?fs') = bm_wire (refreshed_bitmap ?fs)"
    using has by (intro bm_eqI) (auto simp: bm_wire_has secondary_needed_iff)
  have i: "iter_des (refreshed_bitmap ?fs') = iter_des (refreshed_bitmap ?fs)"
    using arg_cong [OF w, of iter_des] by simp
  have s: "secondary_needed (refreshed_bitmap ?fs') = secondary_needed (refreshed_bitmap ?fs)"
    using has by (auto simp: secondary_needed_iff)
  have b: "bm_encode_binary (refreshed_bitmap ?fs') = bm_encode_binary (refreshed_bitmap ?fs)"
    unfolding bm_encode_wire by (simp only: w s)
  have "list_all (\<lambda>d. d \<noteq> de) des \<Longrightarrow> encode_des cat ?fs' des = encode_des cat ?fs des" for des
    by (induction des) simp_all
  moreover have "list_all (\<lambda>d. d \<noteq> de) (iter_des (refreshed_bitmap ?fs))"
    using assms(2) by (auto simp: list_all_iff iter_des_set bm_has_iff)
  ultimately have "encode_des cat ?fs' (iter_des (refreshed_bitmap ?fs)) = encode_des cat ?fs (iter_des (refreshed_bitmap ?fs))"
    by blast
  then show ?thesis by (simp add: encode_with_catalog_def msg_set_def i b Let_def)
qed

text \<open>
  A packed number of odd length in a variable-length field gains a digit: the length prefix counts bytes, so the decoder cannot
  tell the pad nibble from a digit and returns the number with a zero in front.
\<close>

theorem odd_var_bcd_gains_zero:
  assumes "fs_encoding spec = Bcd" and "fs_length spec = Ll n" and "list_all is_ascii_digit s" and "odd (length s)" and "length s \<le> 197"
  shows "\<exists>bs. encode_field spec (Numeric s) = Ok bs \<and> decode_field spec bs 0 = Ok (Numeric (CHR ''0'' # s), length bs)"
proof -
  let ?t = "CHR ''0'' # s"
  have t: "wire_exact spec (Numeric ?t)" using assms by (auto simp: is_ascii_digit_def elim!: oddE)
  have "length s mod 2 = 1" "length ?t mod 2 = 0" using assms(4) by (simp_all add: odd_iff_mod_2_eq_one mod_Suc)
  moreover have "list_all is_ascii_digit ?t" using assms(3) by (simp add: is_ascii_digit_def)
  then have "check_chars is_ascii_digit 0 ?t = Ok ()" "check_chars is_ascii_digit 0 s = Ok ()" using assms(3) by (simp_all only: check_chars_Ok)
  ultimately have "bcd_encode s = bcd_encode ?t" by (simp only: bcd_encode_def Let_def rbind.simps if_True if_False zero_neq_one simp_thms)
  then have "encode_field spec (Numeric s) = encode_field spec (Numeric ?t)"
    using assms(1) by (simp only: encode_field_def field_payload_def prod.case encoding.case field_value.case)
  moreover obtain bs where bs: "encode_field spec (Numeric ?t) = Ok bs"
    "\<And>pre rest. decode_field spec (pre @ bs @ rest) (length pre) = Ok (Numeric ?t, length pre + length bs)"
    using field_round_trip [OF t] by blast
  ultimately show ?thesis using bs(2) [of "[]" "[]"] by simp
qed

theorem odd_var_bcd_gains_zero_witness:
  "\<exists>bs. encode_field \<lparr>fs_de = 2, fs_label = ''PAN'', fs_encoding = Bcd, fs_length = Ll 19\<rparr> (Numeric ''378282246310005'') = Ok bs
    \<and> decode_field \<lparr>fs_de = 2, fs_label = ''PAN'', fs_encoding = Bcd, fs_length = Ll 19\<rparr> bs 0 = Ok (Numeric ''0378282246310005'', length bs)"
  by (rule odd_var_bcd_gains_zero) (simp_all add: is_ascii_digit_def)

end
