(* ===== verification/Iso_De55.thy ===== *)
theory Iso_De55
  imports Iso_Message
begin

text \<open>
  \<^verbatim>\<open>op-iso8583/src/emv.rs\<close>: the flat BER-TLV walker of data element 55.  The long-form length is accumulated in a \<^verbatim>\<open>usize\<close>, whose
  shift drops high bits silently; the sum of the offset and that length is an unchecked addition, which panics.
\<close>

type_synonym emv_tag = "16 word"

record emv_tlv =
  et_tag :: emv_tag
  et_value :: "byte list"

definition de55_tag :: "byte list \<Rightarrow> nat \<Rightarrow> (emv_tag \<times> nat, iso_error) result" where
  "de55_tag input off =
     (let first = input ! off; off = off + 1 in
      if first AND 0x1F = 0x1F
      then if off \<ge> length input then Err (InvalidEmvTlv off ''tag continuation byte missing'')
           else let second = input ! off; off = off + 1 in
             if second AND 0x80 \<noteq> 0 then Err (InvalidEmvTlv off ''3+ byte tags not supported in DE 55'')
             else Ok (push_bit 8 (ucast first) OR ucast second, off)
      else Ok (ucast first, off))"

definition de55_length :: "byte list \<Rightarrow> nat \<Rightarrow> (nat \<times> nat, iso_error) result" where
  "de55_length input off =
     (if off \<ge> length input then Err (InvalidEmvTlv off ''length byte missing'')
      else let len_byte = input ! off; off = off + 1 in
        if len_byte AND 0x80 = 0 then Ok (unat len_byte, off)
        else let n = unat (len_byte AND 0x7F) in
          if n = 0 then Err (InvalidEmvTlv off ''indefinite-length form not allowed in EMV'')
          else if off + n > length input then Err (InvalidEmvTlv off ''long-form length bytes truncated'')
          else Ok (be_usize (take n (drop off input)), off + n))"

definition de55_value :: "byte list \<Rightarrow> nat \<Rightarrow> nat \<Rightarrow> (byte list \<times> nat, iso_error) result" where
  "de55_value input off value_len =
     rbind (u64_val (off + value_len)) (\<lambda>stop.
       if stop > length input then Err (InvalidEmvTlv off ''value bytes truncated'')
       else Ok (take value_len (drop off input), stop))"

definition de55_entry :: "byte list \<Rightarrow> nat \<Rightarrow> (emv_tlv \<times> nat, iso_error) result" where
  "de55_entry input off =
     rbind (de55_tag input off) (\<lambda>(tag, off).
     rbind (de55_length input off) (\<lambda>(value_len, off).
     rbind (de55_value input off value_len) (\<lambda>(v, off). Ok (\<lparr>et_tag = tag, et_value = v\<rparr>, off))))"

lemma de55_entry_advances: "de55_entry input off = Ok (t, off') \<Longrightarrow> off < off'"
  by (auto simp: de55_entry_def de55_tag_def de55_length_def de55_value_def Let_def split: if_splits prod.splits)

function de55_loop :: "byte list \<Rightarrow> nat \<Rightarrow> (emv_tlv list, iso_error) result" where
  "de55_loop input off =
     (if off < length input then
        if input ! off = 0 then de55_loop input (off + 1)
        else (case de55_entry input off of
                Ok (t, off') \<Rightarrow> rbind (de55_loop input off') (\<lambda>out. Ok (t # out))
              | Err e \<Rightarrow> Err e
              | Panic \<Rightarrow> Panic)
      else Ok [])"
  by pat_completeness auto

termination
  by (relation "measure (\<lambda>(input, off). length input - off)") (auto dest!: de55_entry_advances)

declare de55_loop.simps [simp del]

definition parse_de55 :: "byte list \<Rightarrow> (emv_tlv list, iso_error) result" where
  "parse_de55 input = de55_loop input 0"

definition encode_tag :: "emv_tag \<Rightarrow> byte list" where
  "encode_tag t = (if t > 0xFF then [ucast (drop_bit 8 t), ucast t] else [ucast t])"

text \<open>The loop of \<^verbatim>\<open>encode_de55\<close>; \<open>out\<close> is what has been pushed so far.\<close>

fun encode_loop :: "byte list \<Rightarrow> emv_tlv list \<Rightarrow> (byte list, iso_error) result" where
  "encode_loop out [] = Ok out"
| "encode_loop out (t # ts) =
     (let out = out @ encode_tag (et_tag t);
          n = length (et_value t)
      in if n < 0x80 then encode_loop (out @ [of_nat n] @ et_value t) ts
         else if n < 0x100 then encode_loop (out @ [0x81, of_nat n] @ et_value t) ts
         else if n < 0x10000 then encode_loop (out @ [0x82, of_nat (n div 256), of_nat n] @ et_value t) ts
         else Err (InvalidEmvTlv (length out) ''value too large for 2-byte length encoding''))"

definition encode_de55 :: "emv_tlv list \<Rightarrow> (byte list, iso_error) result" where
  "encode_de55 tlvs = encode_loop [] tlvs"

definition tlv_map :: "emv_tlv list \<Rightarrow> (emv_tag, byte list) btreemap" where
  "tlv_map tlvs = fold (\<lambda>t m. bt_insert (et_tag t) (et_value t) m) tlvs []"

section \<open>Round trip\<close>

definition de55_tag_ok :: "emv_tag \<Rightarrow> bool" where
  "de55_tag_ok t \<longleftrightarrow>
     (if t > 0xFF then (ucast (drop_bit 8 t) :: byte) AND 0x1F = 0x1F \<and> (ucast t :: byte) AND 0x80 = 0
      else t \<noteq> 0 \<and> (ucast t :: byte) AND 0x1F \<noteq> 0x1F)"

definition encode_length :: "nat \<Rightarrow> byte list" where
  "encode_length n = (if n < 0x80 then [of_nat n] else if n < 0x100 then [0x81, of_nat n] else [0x82, of_nat (n div 256), of_nat n])"

definition encode_entry :: "emv_tlv \<Rightarrow> byte list" where
  "encode_entry t = encode_tag (et_tag t) @ encode_length (length (et_value t)) @ et_value t"

definition entry_ok :: "emv_tlv \<Rightarrow> bool" where
  "entry_ok t \<longleftrightarrow> de55_tag_ok (et_tag t) \<and> length (et_value t) < 0x10000"

lemma encode_loop_entries:
  "list_all (\<lambda>t. length (et_value t) < 0x10000) ts \<Longrightarrow> encode_loop out ts = Ok (out @ concat (map encode_entry ts))"
  by (induction ts arbitrary: out) (simp_all add: Let_def encode_entry_def encode_length_def)

lemma small_tag: "\<not> t > 0xFF \<Longrightarrow> ucast (ucast t :: byte) = t" for t :: emv_tag
proof -
  assume "\<not> t > 0xFF"
  then have "unat t < 2 ^ 8" by (simp add: word_less_nat_alt not_less)
  then show ?thesis by (simp add: word_unat_eq_iff unsigned_ucast_eq unsigned_take_bit_eq take_bit_nat_eq_self)
qed

lemma tag_halves: "push_bit 8 (ucast (ucast (drop_bit 8 t) :: byte)) OR ucast (ucast t :: byte) = t" for t :: emv_tag
  by (rule bit_word_eqI) (auto simp: bit_simps)

lemma encode_tag_head:
  assumes "de55_tag_ok t"
  shows "encode_tag t \<noteq> []" and "hd (encode_tag t) \<noteq> 0"
proof -
  show "encode_tag t \<noteq> []" by (simp add: encode_tag_def)
  have "hd (encode_tag t) = 0 \<Longrightarrow> False"
  proof (cases "t > 0xFF")
    case True
    assume "hd (encode_tag t) = 0"
    then have "(ucast (drop_bit 8 t) :: byte) = 0" using True by (simp add: encode_tag_def)
    then show False using assms True unfolding de55_tag_ok_def by simp
  next
    case False
    assume "hd (encode_tag t) = 0"
    then have "(ucast t :: byte) = 0" using False by (simp add: encode_tag_def)
    then have "t = 0" using small_tag [OF False] by (metis unsigned_0)
    then show False using assms False by (simp add: de55_tag_ok_def)
  qed
  then show "hd (encode_tag t) \<noteq> 0" by blast
qed

lemma de55_tag_back:
  assumes "de55_tag_ok t" and "drop off input = encode_tag t @ rest" and "off \<le> length input"
  shows "de55_tag input off = Ok (t, off + length (encode_tag t))"
    and "drop (off + length (encode_tag t)) input = rest"
proof -
  have n: "input ! off = hd (encode_tag t)"
    using assms(2) encode_tag_head(1) [OF assms(1)] by (metis hd_append2 hd_drop_conv_nth drop_eq_Nil append_is_Nil_conv not_le)
  have l: "length input = off + length (encode_tag t) + length rest"
    using arg_cong [OF assms(2), of length] assms(3) by simp
  show "de55_tag input off = Ok (t, off + length (encode_tag t))"
  proof (cases "t > 0xFF")
    case True
    have "input ! Suc off = ucast t"
      using arg_cong [OF assms(2), of "\<lambda>xs. xs ! 1"] True assms(3) l by (simp add: encode_tag_def)
    then show ?thesis using n l True assms(1) by (simp add: de55_tag_def Let_def encode_tag_def de55_tag_ok_def tag_halves)
  next
    case False
    then show ?thesis using n assms(1) by (simp add: de55_tag_def Let_def encode_tag_def de55_tag_ok_def small_tag)
  qed
  show "drop (off + length (encode_tag t)) input = rest"
    using arg_cong [OF assms(2), of "drop (length (encode_tag t))"] by (simp add: add.commute)
qed

lemma de55_length_back:
  assumes "n < 0x10000" and "drop off input = encode_length n @ rest" and "off \<le> length input"
  shows "de55_length input off = Ok (n, off + length (encode_length n))"
    and "drop (off + length (encode_length n)) input = rest"
proof -
  have l: "length input = off + length (encode_length n) + length rest"
    using arg_cong [OF assms(2), of length] assms(3) by simp
  have ne: "encode_length n \<noteq> []" by (simp add: encode_length_def)
  have h: "input ! off = hd (encode_length n)" "off < length input"
    using assms(2) ne l by (metis hd_append2 hd_drop_conv_nth drop_eq_Nil append_is_Nil_conv not_le) (use ne l in simp)
  have t: "drop (Suc off) input = tl (encode_length n) @ rest"
    using arg_cong [OF assms(2), of tl] ne by (simp add: drop_Suc tl_drop)
  consider "n < 0x80" | "0x80 \<le> n" "n < 0x100" | "0x100 \<le> n" by linarith
  then show "de55_length input off = Ok (n, off + length (encode_length n))"
  proof cases
    case 1
    then have "unat (of_nat n :: byte) = n" by (simp add: unsigned_of_nat take_bit_nat_eq_self)
    then show ?thesis using 1 h by (simp add: de55_length_def Let_def encode_length_def byte_and_80)
  next
    case 2
    then have u: "unat (of_nat n :: byte) = n" by (simp add: unsigned_of_nat take_bit_nat_eq_self)
    have "be_usize [of_nat n] = n" using be_usize_eq_be_nat [of "[of_nat n]"] u by (simp add: be_nat_Cons)
    then show ?thesis using 2 h t l by (simp add: de55_length_def Let_def encode_length_def)
  next
    case 3
    have "unat (of_nat (n div 256) :: byte) = n div 256" using assms(1) by (simp add: unsigned_of_nat take_bit_nat_eq_self)
    moreover have "unat (of_nat n :: byte) = n mod 256" by (simp add: unsigned_of_nat take_bit_eq_mod)
    ultimately have "be_usize [of_nat (n div 256), of_nat n] = n"
      using be_usize_eq_be_nat [of "[of_nat (n div 256), of_nat n]"] by (simp add: be_nat_Cons)
    then show ?thesis using 3 h t l by (simp add: de55_length_def Let_def encode_length_def)
  qed
  show "drop (off + length (encode_length n)) input = rest"
    using arg_cong [OF assms(2), of "drop (length (encode_length n))"] by (simp add: add.commute)
qed

lemma de55_entry_back:
  assumes "entry_ok t" and "drop off input = encode_entry t @ rest" and "off \<le> length input" and "length input \<le> u64_max"
  shows "de55_entry input off = Ok (t, off + length (encode_entry t))" and "input ! off \<noteq> 0"
proof -
  let ?n = "length (et_value t)"
  have ok: "de55_tag_ok (et_tag t)" "?n < 0x10000" using assms(1) by (simp_all add: entry_ok_def)
  have l: "length input = off + length (encode_entry t) + length rest" using arg_cong [OF assms(2), of length] assms(3) by simp
  note tb = de55_tag_back [OF ok(1) assms(2) [unfolded encode_entry_def append_assoc] assms(3)]
  let ?o1 = "off + length (encode_tag (et_tag t))"
  have "?o1 \<le> length input" using l by (simp add: encode_entry_def)
  note lb = de55_length_back [OF ok(2) tb(2) this]
  let ?o2 = "?o1 + length (encode_length ?n)"
  have "?o2 + ?n \<le> length input" using l by (simp add: encode_entry_def)
  then have "de55_value input ?o2 ?n = Ok (et_value t, ?o2 + ?n)" using lb(2) assms(4) by (simp add: de55_value_def u64_val_def)
  then show "de55_entry input off = Ok (t, off + length (encode_entry t))"
    using tb(1) lb(1) by (simp add: de55_entry_def encode_entry_def add.assoc del: rbind_eq_Ok)
  have "off < length input" using l encode_tag_head(1) [OF ok(1)] by (simp add: encode_entry_def)
  then have "input ! off = hd (encode_tag (et_tag t))"
    using assms(2) encode_tag_head(1) [OF ok(1)] by (metis append_assoc encode_entry_def hd_append2 hd_drop_conv_nth)
  then show "input ! off \<noteq> 0" using encode_tag_head(2) [OF ok(1)] by simp
qed

lemma de55_loop_back:
  assumes "list_all entry_ok ts" and "drop off input = concat (map encode_entry ts)" and "off \<le> length input" and "length input \<le> u64_max"
  shows "de55_loop input off = Ok ts"
  using assms
proof (induction ts arbitrary: off)
  case Nil
  then show ?case by (subst de55_loop.simps) simp
next
  case (Cons t ts)
  have t: "entry_ok t" "list_all entry_ok ts" using Cons.prems(1) by simp_all
  have d: "drop off input = encode_entry t @ concat (map encode_entry ts)" using Cons.prems(2) by simp
  note e = de55_entry_back [OF t(1) d Cons.prems(3,4)]
  let ?o = "off + length (encode_entry t)"
  have l: "length input = ?o + length (concat (map encode_entry ts))" using arg_cong [OF d, of length] Cons.prems(3) by simp
  have "encode_entry t \<noteq> []" by (simp add: encode_entry_def encode_tag_def)
  then have lt: "off < length input" using l by simp
  have "drop ?o input = concat (map encode_entry ts)"
    using arg_cong [OF d, of "drop (length (encode_entry t))"] by (simp add: add.commute)
  then have "de55_loop input ?o = Ok ts" using Cons.IH [OF t(2)] l Cons.prems(4) by simp
  then show ?case using e lt by (subst de55_loop.simps) simp
qed

text \<open>
  Data element 55 round trip: a list of entries with tags the walker supports and values below 65536 bytes is encoded, and parsing
  the encoding yields the list.
\<close>

theorem de55_round_trip:
  assumes "list_all entry_ok ts" and "length (concat (map encode_entry ts)) \<le> u64_max"
  shows "\<exists>bytes. encode_de55 ts = Ok bytes \<and> parse_de55 bytes = Ok ts"
proof -
  have "list_all (\<lambda>t. length (et_value t) < 0x10000) ts" using assms(1) by (simp add: list_all_iff entry_ok_def)
  then have "encode_de55 ts = Ok (concat (map encode_entry ts))" by (simp add: encode_de55_def encode_loop_entries)
  moreover have "parse_de55 (concat (map encode_entry ts)) = Ok ts"
    unfolding parse_de55_def using assms by (intro de55_loop_back) simp_all
  ultimately show ?thesis by blast
qed

theorem de55_round_trip_witness:
  "\<exists>bytes. encode_de55 [\<lparr>et_tag = 0x9F26, et_value = [1, 2]\<rparr>, \<lparr>et_tag = 0x95, et_value = []\<rparr>] = Ok bytes
    \<and> parse_de55 bytes = Ok [\<lparr>et_tag = 0x9F26, et_value = [1, 2]\<rparr>, \<lparr>et_tag = 0x95, et_value = []\<rparr>]"
  by (rule de55_round_trip) (simp_all add: entry_ok_def de55_tag_ok_def encode_entry_def encode_tag_def encode_length_def)

text \<open>
  A crafted field crashes the walker: a long-form length of eight 0xFF bytes makes the addition of the offset overflow, so the
  parser panics instead of reporting a truncated value.
\<close>

theorem de55_length_overflow_panics:
  "parse_de55 ([0x95, 0x88] @ replicate 8 0xFF @ rest) = Panic"
proof -
  let ?in = "[0x95, 0x88] @ replicate 8 0xFF @ rest"
  have r: "replicate 8 (0xFF :: byte) = [0xFF, 0xFF, 0xFF, 0xFF, 0xFF, 0xFF, 0xFF, 0xFF]" by (simp add: eval_nat_numeral)
  have "de55_tag ?in 0 = Ok (0x95, 1)" by (simp add: de55_tag_def Let_def)
  moreover have "be_usize (replicate 8 0xFF) = u64_max"
    using be_usize_eq_be_nat [of "replicate 8 0xFF"] unfolding r by (simp add: be_nat_Cons)
  then have "de55_length ?in 1 = Ok (u64_max, 10)" by (simp add: de55_length_def Let_def)
  moreover have "de55_value ?in 10 u64_max = Panic" by (simp add: de55_value_def u64_val_def)
  ultimately have "de55_entry ?in 0 = Panic" by (simp add: de55_entry_def)
  then show ?thesis unfolding parse_de55_def by (subst de55_loop.simps) simp
qed

section \<open>The last occurrence of a tag wins\<close>

lemma tlv_map_get:
  "bt_get (tlv_map ts) tag = map_option et_value (List.find (\<lambda>t. et_tag t = tag) (rev ts))"
proof -
  let ?put = "\<lambda>t m. bt_insert (et_tag t) (et_value t) m"
  have "bt_get (fold ?put ts m) tag =
      (case List.find (\<lambda>t. et_tag t = tag) (rev ts) of Some t \<Rightarrow> Some (et_value t) | None \<Rightarrow> bt_get m tag)" for m
  proof (induction ts rule: rev_induct)
    case (snoc x xs)
    then show ?case by auto
  qed simp
  then show ?thesis by (simp add: tlv_map_def bt.get_empty split: option.split)
qed

end
