(* ===== verification/Iso_Dialect.thy ===== *)
theory Iso_Dialect
  imports Iso_Message
begin

text \<open>
  \<^verbatim>\<open>op-iso8583/src/dialect.rs\<close>: the five network profiles and the reference MAC.  The marker structs are the constructors of
  \<open>dialect\<close>; a trait method is a function by cases on them, its default body the last case.

  Shown: the Feistel rounds are invertible, so the MAC of two messages that differ inside one block differs; the MAC does not
  tell a message from one with zeros appended to its last block; the field overrides do not reach the catalog.
\<close>

datatype dialect = VisaBaseI | MastercardMds | AmexGns | DiscoverCard | Jcb

datatype card_network = Visa | Mastercard | Amex | Discover

fun dialect_name :: "dialect \<Rightarrow> string" where
  "dialect_name VisaBaseI = ''Visa Base I''"
| "dialect_name MastercardMds = ''Mastercard MDS''"
| "dialect_name AmexGns = ''Amex GNS''"
| "dialect_name DiscoverCard = ''Discover''"
| "dialect_name Jcb = ''JCB''"

fun dialect_network :: "dialect \<Rightarrow> card_network" where
  "dialect_network VisaBaseI = Visa"
| "dialect_network MastercardMds = Mastercard"
| "dialect_network AmexGns = Amex"
| "dialect_network DiscoverCard = Discover"
| "dialect_network Jcb = Discover"

definition dialect_catalog :: "dialect \<Rightarrow> catalog" where
  "dialect_catalog d = default_catalog"

fun override_field :: "dialect \<Rightarrow> nat \<Rightarrow> field_spec option" where
  "override_field MastercardMds de =
     (if de = 48 then Some \<lparr>fs_de = 48, fs_label = ''Additional data (Mastercard private)'', fs_encoding = Ascii, fs_length = Lll 999\<rparr>
      else None)"
| "override_field AmexGns de =
     (if de = 41 then Some \<lparr>fs_de = 41, fs_label = ''Terminal ID (EBCDIC, Amex GNS)'', fs_encoding = Ebcdic, fs_length = Fixed 8\<rparr>
      else if de = 42 then Some \<lparr>fs_de = 42, fs_label = ''Merchant ID (EBCDIC, Amex GNS)'', fs_encoding = Ebcdic, fs_length = Fixed 15\<rparr>
      else if de = 43 then Some \<lparr>fs_de = 43, fs_label = ''Merchant name/location (EBCDIC, Amex GNS)'', fs_encoding = Ebcdic, fs_length = Fixed 40\<rparr>
      else None)"
| "override_field _ de = None"

fun supports_mti :: "dialect \<Rightarrow> mti \<Rightarrow> bool" where
  "supports_mti VisaBaseI m \<longleftrightarrow> m AND 0xFF00 \<in> {0x0100, 0x0200, 0x0400, 0x0800}"
| "supports_mti MastercardMds m \<longleftrightarrow> m AND 0xFF00 \<in> {0x0100, 0x0200, 0x0400, 0x0420, 0x0800}"
| "supports_mti _ m \<longleftrightarrow> True"

definition visa_codes :: "(string \<times> string) list" where
  "visa_codes =
     [(''00'', ''Approved''),
      (''01'', ''Refer to card issuer''),
      (''05'', ''Do not honor''),
      (''12'', ''Invalid transaction''),
      (''13'', ''Invalid amount''),
      (''14'', ''Invalid card number''),
      (''30'', ''Format error''),
      (''41'', ''Lost card, pick up''),
      (''43'', ''Stolen card, pick up''),
      (''51'', ''Insufficient funds''),
      (''54'', ''Expired card''),
      (''55'', ''Incorrect PIN''),
      (''57'', ''Transaction not permitted to cardholder''),
      (''61'', ''Withdrawal amount exceeds limit''),
      (''62'', ''Restricted card''),
      (''65'', ''Withdrawal frequency exceeds limit''),
      (''75'', ''PIN tries exceeded''),
      (''91'', ''Issuer or switch is unavailable''),
      (''96'', ''System malfunction'')]"

definition mastercard_codes :: "(string \<times> string) list" where
  "mastercard_codes =
     [(''00'', ''Approved''),
      (''01'', ''Refer to card issuer''),
      (''05'', ''Do not honor''),
      (''08'', ''Honor with ID''),
      (''12'', ''Invalid transaction''),
      (''14'', ''Invalid card number''),
      (''30'', ''Format error''),
      (''51'', ''Insufficient funds''),
      (''54'', ''Expired card''),
      (''55'', ''Invalid PIN''),
      (''57'', ''Transaction not permitted to cardholder''),
      (''58'', ''Transaction not permitted to terminal''),
      (''62'', ''Restricted card''),
      (''63'', ''Security violation''),
      (''70'', ''Contact card issuer''),
      (''75'', ''PIN tries exceeded''),
      (''82'', ''Negative CAM, dCVV, iCVV, or CVV results''),
      (''91'', ''Issuer or switch unavailable''),
      (''92'', ''Routing error''),
      (''96'', ''System malfunction'')]"

definition amex_codes :: "(string \<times> string) list" where
  "amex_codes =
     [(''000'', ''Approved''),
      (''00'', ''Approved''),
      (''100'', ''Decline''),
      (''05'', ''Decline''),
      (''101'', ''Expired card''),
      (''109'', ''Invalid merchant''),
      (''110'', ''Invalid amount''),
      (''111'', ''Invalid card number''),
      (''115'', ''Requested function not supported''),
      (''120'', ''Not permitted''),
      (''121'', ''Limit exceeded''),
      (''125'', ''Card not effective''),
      (''187'', ''Transaction not allowed''),
      (''200'', ''Pick up card''),
      (''04'', ''Pick up card''),
      (''400'', ''Reversal accepted''),
      (''900'', ''Advice acknowledged'')]"

definition discover_codes :: "(string \<times> string) list" where
  "discover_codes =
     [(''00'', ''Approved''),
      (''01'', ''Refer to issuer''),
      (''05'', ''Do not honor''),
      (''12'', ''Invalid transaction''),
      (''14'', ''Invalid account number''),
      (''39'', ''No credit account''),
      (''51'', ''Insufficient funds''),
      (''54'', ''Expired card''),
      (''55'', ''Invalid PIN''),
      (''57'', ''Transaction not permitted''),
      (''58'', ''Transaction not allowed at terminal''),
      (''61'', ''Exceeds withdrawal limit''),
      (''91'', ''Issuer unavailable''),
      (''96'', ''System malfunction'')]"

definition jcb_codes :: "(string \<times> string) list" where
  "jcb_codes =
     [(''00'', ''Approved''),
      (''01'', ''Refer to issuer''),
      (''05'', ''Do not honor''),
      (''14'', ''Invalid card number''),
      (''51'', ''Insufficient funds''),
      (''54'', ''Expired card''),
      (''55'', ''Invalid PIN''),
      (''91'', ''Issuer unavailable'')]"

fun response_code_meaning :: "dialect \<Rightarrow> string \<Rightarrow> string option" where
  "response_code_meaning VisaBaseI c = map_of visa_codes c"
| "response_code_meaning MastercardMds c = map_of mastercard_codes c"
| "response_code_meaning AmexGns c = map_of amex_codes c"
| "response_code_meaning DiscoverCard c = map_of discover_codes c"
| "response_code_meaning Jcb c = map_of jcb_codes c"

section \<open>The reference MAC\<close>

definition feistel_f :: "byte list \<Rightarrow> byte list \<Rightarrow> nat \<Rightarrow> byte list" where
  "feistel_f key_slice r round =
     map (\<lambda>i. r ! ((i + 1) mod 4) XOR key_slice ! ((i + round) mod length key_slice) XOR (of_nat round * 0x9E)) [0..<4]"

definition feistel_step :: "byte list \<Rightarrow> byte list \<Rightarrow> nat \<Rightarrow> byte list \<times> byte list \<Rightarrow> byte list \<times> byte list" where
  "feistel_step k1 k2 round = (\<lambda>(l, r).
     let key_slice = (if round mod 2 = 0 then k1 else k2);
         f = feistel_f key_slice r round
     in (r, map2 (XOR) l f))"

definition feistel_round :: "byte list \<Rightarrow> byte list \<Rightarrow> byte list \<Rightarrow> byte list" where
  "feistel_round k1 k2 state =
     (case fold (feistel_step k1 k2) [0..<8] (take 4 state, drop 4 state) of (l, r) \<Rightarrow> l @ r)"

lemma pad_measure: "n mod 8 \<noteq> 0 \<Longrightarrow> (8 - Suc n mod 8) mod 8 < (8 - n mod 8) mod (8 :: nat)"
proof -
  assume m: "n mod 8 \<noteq> 0"
  have "n mod 8 < 8" by simp
  then show ?thesis using m by (cases "Suc (n mod 8) = 8") (simp_all add: mod_Suc)
qed

text \<open>The loop that pushes zeros until the length is a multiple of eight.\<close>

function pad_block :: "byte list \<Rightarrow> byte list" where
  "pad_block d = (if length d mod 8 \<noteq> 0 then pad_block (d @ [0]) else d)"
  by pat_completeness auto

termination
proof (relation "measure (\<lambda>d. (8 - length d mod 8) mod 8)")
  fix d :: "byte list" assume "length d mod 8 \<noteq> 0"
  from pad_measure [OF this] show "(d @ [0], d) \<in> measure (\<lambda>d. (8 - length d mod 8) mod 8)"
    by (simp only: in_measure length_append list.size add_Suc_right add_0_right)
qed (rule wf_measure)

declare pad_block.simps [simp del]

fun chunks_exact_8 :: "byte list \<Rightarrow> byte list list" where
  "chunks_exact_8 (a # b # c # d # e # f # g # h # rest) = [a, b, c, d, e, f, g, h] # chunks_exact_8 rest"
| "chunks_exact_8 _ = []"

definition cbc_mac_tdes :: "byte list \<Rightarrow> byte list \<Rightarrow> (byte list, iso_error) result" where
  "cbc_mac_tdes key data =
     (if length key \<noteq> 16 then Err (DialectViolation ''TDES MAC'' (''expected 16-byte key, got '' @ show_nat (length key)))
      else let k1 = take 8 key; k2 = take 8 (drop 8 key) in
        Ok (fold (\<lambda>block state. feistel_round k1 k2 (map2 (XOR) state block)) (chunks_exact_8 (pad_block data)) (replicate 8 0)))"

definition cbc_mac_aes128 :: "byte list \<Rightarrow> byte list \<Rightarrow> (byte list, iso_error) result" where
  "cbc_mac_aes128 key data =
     (if length key \<noteq> 16 then Err (DialectViolation ''AES-128 MAC'' (''expected 16-byte key, got '' @ show_nat (length key)))
      else let k1 = take 8 key; k2 = take 8 (drop 8 key) in
        Ok (fold (\<lambda>block state. feistel_round k2 k1 (feistel_round k1 k2 (map2 (XOR) state block)))
              (chunks_exact_8 (pad_block data)) (replicate 8 0)))"

fun dialect_mac :: "dialect \<Rightarrow> byte list \<Rightarrow> byte list \<Rightarrow> (byte list, iso_error) result" where
  "dialect_mac DiscoverCard key data = cbc_mac_aes128 key data"
| "dialect_mac _ key data = cbc_mac_tdes key data"

section \<open>The MAC separates messages\<close>

lemma map2_xor_cancel:
  fixes s b :: "byte list"
  shows "length s = length b \<Longrightarrow> map2 (XOR) (map2 (XOR) s b) b = s"
    and "length s = length b \<Longrightarrow> map2 (XOR) s (map2 (XOR) s b) = b"
  by (induction s b rule: list_induct2) (simp_all add: xor.assoc xor.left_commute)

text \<open>
  A block function that is injective on eight-byte states, chained by exclusive or: the contract the MAC relies on.
\<close>

locale block_chain =
  fixes blk :: "byte list \<Rightarrow> byte list"
  assumes blk_length: "length s = 8 \<Longrightarrow> length (blk s) = 8"
    and blk_inj: "length s = 8 \<Longrightarrow> length t = 8 \<Longrightarrow> blk s = blk t \<Longrightarrow> s = t"
begin

definition chain_step :: "byte list \<Rightarrow> byte list \<Rightarrow> byte list" where
  "chain_step block state = blk (map2 (XOR) state block)"

lemma chain_step_length: "length s = 8 \<Longrightarrow> length b = 8 \<Longrightarrow> length (chain_step b s) = 8"
  by (simp add: chain_step_def blk_length)

lemma fold_length: "length s = 8 \<Longrightarrow> list_all (\<lambda>b. length b = 8) bs \<Longrightarrow> length (fold chain_step bs s) = 8"
  by (induction bs arbitrary: s) (simp_all add: chain_step_length)

lemma chain_step_state: "length s = 8 \<Longrightarrow> length t = 8 \<Longrightarrow> length b = 8 \<Longrightarrow> chain_step b s = chain_step b t \<Longrightarrow> s = t"
proof -
  assume l: "length s = 8" "length t = 8" "length b = 8" and e: "chain_step b s = chain_step b t"
  then have "map2 (XOR) s b = map2 (XOR) t b"
    using blk_inj [of "map2 (XOR) s b" "map2 (XOR) t b"] by (simp add: chain_step_def)
  then have "map2 (XOR) (map2 (XOR) s b) b = map2 (XOR) (map2 (XOR) t b) b" by simp
  then show "s = t" using l by (simp only: map2_xor_cancel)
qed

lemma chain_step_block: "length s = 8 \<Longrightarrow> length b = 8 \<Longrightarrow> length c = 8 \<Longrightarrow> chain_step b s = chain_step c s \<Longrightarrow> b = c"
proof -
  assume l: "length s = 8" "length b = 8" "length c = 8" and e: "chain_step b s = chain_step c s"
  then have "map2 (XOR) s b = map2 (XOR) s c"
    using blk_inj [of "map2 (XOR) s b" "map2 (XOR) s c"] by (simp add: chain_step_def)
  then have "map2 (XOR) s (map2 (XOR) s b) = map2 (XOR) s (map2 (XOR) s c)" by simp
  then show "b = c" using l by (simp only: map2_xor_cancel)
qed

lemma fold_state:
  "length s = 8 \<Longrightarrow> length t = 8 \<Longrightarrow> list_all (\<lambda>b. length b = 8) bs \<Longrightarrow> fold chain_step bs s = fold chain_step bs t \<Longrightarrow> s = t"
proof (induction bs arbitrary: s t)
  case (Cons b bs)
  then have "chain_step b s = chain_step b t" using chain_step_length by simp
  then show ?case using Cons.prems by (intro chain_step_state [of s t b]) simp_all
qed simp

lemma one_block_differs:
  assumes "list_all (\<lambda>b. length b = 8) (xs @ b # ys)" and "length c = 8" and "b \<noteq> c" and "length s = 8"
  shows "fold chain_step (xs @ b # ys) s \<noteq> fold chain_step (xs @ c # ys) s"
proof
  let ?m = "fold chain_step xs s"
  assume "fold chain_step (xs @ b # ys) s = fold chain_step (xs @ c # ys) s"
  then have e: "fold chain_step ys (chain_step b ?m) = fold chain_step ys (chain_step c ?m)" by simp
  have l: "length ?m = 8" "length b = 8" "list_all (\<lambda>b. length b = 8) ys" using assms fold_length by simp_all
  then have "chain_step b ?m = chain_step c ?m" using fold_state [OF _ _ l(3) e] assms(2) by (simp add: chain_step_length)
  then show False using chain_step_block l assms(2,3) by blast
qed

end

lemma feistel_f_length [simp]: "length (feistel_f k r n) = 4"
  by (simp add: feistel_f_def del: upt_rec_numeral)

definition halves_ok :: "byte list \<times> byte list \<Rightarrow> bool" where
  "halves_ok p \<longleftrightarrow> length (fst p) = 4 \<and> length (snd p) = 4"

lemma feistel_step_ok: "halves_ok p \<Longrightarrow> halves_ok (feistel_step k1 k2 n p)"
  by (cases p) (simp add: halves_ok_def feistel_step_def Let_def)

text \<open>One round is undone by applying the round function to the half it kept.\<close>

definition feistel_unstep :: "byte list \<Rightarrow> byte list \<Rightarrow> nat \<Rightarrow> byte list \<times> byte list \<Rightarrow> byte list \<times> byte list" where
  "feistel_unstep k1 k2 n = (\<lambda>(l, r). (map2 (XOR) r (feistel_f (if n mod 2 = 0 then k1 else k2) l n), l))"

lemma feistel_unstep_step: "halves_ok p \<Longrightarrow> feistel_unstep k1 k2 n (feistel_step k1 k2 n p) = p"
  by (cases p) (simp add: halves_ok_def feistel_step_def feistel_unstep_def Let_def map2_xor_cancel)

lemma feistel_rounds_ok: "halves_ok p \<Longrightarrow> halves_ok (fold (feistel_step k1 k2) ns p)"
  by (induction ns arbitrary: p) (simp_all add: feistel_step_ok)

lemma feistel_rounds_back: "halves_ok p \<Longrightarrow> fold (feistel_unstep k1 k2) (rev ns) (fold (feistel_step k1 k2) ns p) = p"
  by (induction ns arbitrary: p) (simp_all add: feistel_step_ok feistel_unstep_step)

lemma feistel_round_split:
  assumes "length s = 8"
  shows "halves_ok (take 4 s, drop 4 s)"
    and "take 4 (feistel_round k1 k2 s) = fst (fold (feistel_step k1 k2) [0..<8] (take 4 s, drop 4 s))"
    and "drop 4 (feistel_round k1 k2 s) = snd (fold (feistel_step k1 k2) [0..<8] (take 4 s, drop 4 s))"
    and "length (feistel_round k1 k2 s) = 8"
proof -
  show h: "halves_ok (take 4 s, drop 4 s)" using assms by (simp add: halves_ok_def)
  let ?p = "fold (feistel_step k1 k2) [0..<8] (take 4 s, drop 4 s)"
  have "halves_ok ?p" by (rule feistel_rounds_ok [OF h])
  moreover have "feistel_round k1 k2 s = fst ?p @ snd ?p" by (simp only: feistel_round_def split_beta)
  ultimately show "take 4 (feistel_round k1 k2 s) = fst ?p" "drop 4 (feistel_round k1 k2 s) = snd ?p"
    "length (feistel_round k1 k2 s) = 8" by (simp_all add: halves_ok_def del: upt_rec_numeral)
qed

lemma feistel_round_inj:
  assumes "length s = 8" and "length t = 8" and "feistel_round k1 k2 s = feistel_round k1 k2 t"
  shows "s = t"
proof -
  note ss = feistel_round_split(1) [OF assms(1)] feistel_round_split(2,3) [OF assms(1), of k1 k2]
    and ts = feistel_round_split(1) [OF assms(2)] feistel_round_split(2,3) [OF assms(2), of k1 k2]
  have "fold (feistel_step k1 k2) [0..<8] (take 4 s, drop 4 s) = fold (feistel_step k1 k2) [0..<8] (take 4 t, drop 4 t)"
    using ss(2,3) ts(2,3) assms(3) by (simp add: prod_eq_iff del: upt_rec_numeral)
  then have "(take 4 s, drop 4 s) = (take 4 t, drop 4 t)"
    using feistel_rounds_back [OF ss(1)] feistel_rounds_back [OF ts(1)] by metis
  then show ?thesis by (metis append_take_drop_id prod.inject)
qed

interpretation tdes: block_chain "feistel_round k1 k2" for k1 k2
  by unfold_locales (simp_all add: feistel_round_split(4) feistel_round_inj)

interpretation aes: block_chain "\<lambda>s. feistel_round k2 k1 (feistel_round k1 k2 s)" for k1 k2
proof
  show "length (feistel_round k2 k1 (feistel_round k1 k2 s)) = 8" if "length s = 8" for s
    using that by (simp add: feistel_round_split(4))
  show "s = t" if "length s = 8" "length t = 8" "feistel_round k2 k1 (feistel_round k1 k2 s) = feistel_round k2 k1 (feistel_round k1 k2 t)" for s t
    using that by (metis feistel_round_inj feistel_round_split(4))
qed

lemma chunks_block: "length b = 8 \<Longrightarrow> chunks_exact_8 (b @ rest) = b # chunks_exact_8 rest"
proof -
  assume "length b = 8"
  then obtain a1 a2 a3 a4 a5 a6 a7 a8 where "b = [a1, a2, a3, a4, a5, a6, a7, a8]"
    by (auto simp: numeral_eq_Suc length_Suc_conv)
  then show ?thesis by simp
qed

lemma chunks_blocks: "list_all (\<lambda>b. length b = 8) bs \<Longrightarrow> chunks_exact_8 (concat bs @ rest) = bs @ chunks_exact_8 rest"
  by (induction bs) (simp_all add: chunks_block)

lemma chunks_length: "list_all (\<lambda>b. length b = 8) (chunks_exact_8 d)"
  by (induction d rule: chunks_exact_8.induct) simp_all

lemma pad_block_append: "length p mod 8 = 0 \<Longrightarrow> pad_block (p @ d) = p @ pad_block d"
proof (induction d rule: pad_block.induct)
  case (1 d)
  have "length (p @ d) mod 8 = length d mod 8" using "1.prems" by (simp add: mod_add_left_eq [symmetric])
  then show ?case using "1.IH" "1.prems" pad_block.simps [of "p @ d"] pad_block.simps [of d] by auto
qed

text \<open>
  The MAC detects a changed block: for every dialect and every sixteen-byte key, two messages that differ in one aligned block and
  agree everywhere else have different MACs.
\<close>

theorem mac_detects_block_change:
  assumes "length key = 16" and "list_all (\<lambda>b. length b = 8) blocks" and "length x = 8" and "length y = 8" and "x \<noteq> y"
  shows "\<exists>m n. dialect_mac d key (concat blocks @ x @ rest) = Ok m \<and> dialect_mac d key (concat blocks @ y @ rest) = Ok n \<and> m \<noteq> n"
proof -
  have cl: "length (concat blocks) mod 8 = 0" using assms(2) by (induction blocks) simp_all
  have ch: "chunks_exact_8 (pad_block (concat blocks @ b @ rest)) = blocks @ b # chunks_exact_8 (pad_block rest)" if "length b = 8" for b
    using that cl pad_block_append [of "concat blocks @ b" rest] chunks_blocks [OF assms(2)]
    by (simp add: chunks_block)
  have bl: "list_all (\<lambda>b. length b = 8) (blocks @ x # chunks_exact_8 (pad_block rest))"
    using assms(2,3) chunks_length by simp
  note d = tdes.one_block_differs [OF bl assms(4,5), of "replicate 8 0"] aes.one_block_differs [OF bl assms(4,5), of "replicate 8 0"]
  show ?thesis using assms(1) d
    by (cases d) (simp_all add: cbc_mac_tdes_def cbc_mac_aes128_def ch [OF assms(3)] ch [OF assms(4)]
      tdes.chain_step_def [abs_def] aes.chain_step_def [abs_def] Let_def)
qed

theorem mac_detects_block_change_witness:
  "\<exists>m n. dialect_mac VisaBaseI (replicate 16 7) [1, 2, 3, 4, 5, 6, 7, 8, 9] = Ok m
    \<and> dialect_mac VisaBaseI (replicate 16 7) [1, 2, 3, 4, 5, 6, 7, 0, 9] = Ok n \<and> m \<noteq> n"
  using mac_detects_block_change [of "replicate 16 7" "[]" "[1, 2, 3, 4, 5, 6, 7, 8]" "[1, 2, 3, 4, 5, 6, 7, 0]" VisaBaseI "[9]"] by simp

text \<open>Zero padding is not injective: a message and the same message with a zero byte appended inside its last block share their MAC.\<close>

lemma mac_ignores_trailing_zero:
  "length data mod 8 \<noteq> 0 \<Longrightarrow> dialect_mac d key (data @ [0]) = dialect_mac d key data"
  using pad_block.simps [of data] by (cases d) (simp_all add: cbc_mac_tdes_def cbc_mac_aes128_def)

text \<open>The overrides the dialects declare are not in the catalogs they return.\<close>

lemma overrides_not_in_catalog:
  "lookup (dialect_catalog MastercardMds) 48 = Err (UnknownDataElement 48)"
  "override_field AmexGns 41 \<noteq> None \<and> lookup (dialect_catalog AmexGns) 41 \<noteq> Ok (the (override_field AmexGns 41))"
  by (simp_all add: dialect_catalog_def default_lookup)

end
