(* ===== verification/Bin_Range.thy ===== *)
theory Bin_Range
  imports OpenPay_Prelude
begin

text \<open>
  Card numbers and issuer prefixes (\<^verbatim>\<open>op-bin\<close>): the Luhn check digit, the normalised prefix \<^verbatim>\<open>Bin\<close>, half-open prefix intervals.  A \<^verbatim>\<open>&str\<close> is the list of
  its Unicode scalar values, because the code walks \<^verbatim>\<open>chars()\<close>; \<open>utf8_len\<close> is its \<^verbatim>\<open>len()\<close> in bytes.
\<close>

section \<open>Errors and text\<close>

datatype bin_error =
    InvalidBinLength nat
  | InvalidBinCharacter nat
  | NoRange "nat list"
  | InvalidRange nat nat
  | LuhnFailed
  | InvalidCountryCode "nat list"

type_synonym scalars = "nat list"

definition utf8_width :: "nat \<Rightarrow> nat" where
  "utf8_width c = (if c < 0x80 then 1 else if c < 0x800 then 2 else if c < 0x10000 then 3 else 4)"

definition utf8_len :: "scalars \<Rightarrow> nat" where
  "utf8_len s = sum_list (map utf8_width s)"

text \<open>\<^verbatim>\<open>char::to_digit(10)\<close>, and the prefix slice \<^verbatim>\<open>&s[..d]\<close>, which panics unless \<open>d\<close> is a character boundary.\<close>

definition to_digit :: "nat \<Rightarrow> nat option" where
  "to_digit c = (if 48 \<le> c \<and> c \<le> 57 then Some (c - 48) else None)"

fun str_prefix :: "nat \<Rightarrow> scalars \<Rightarrow> (scalars, 'e) result" where
  "str_prefix d [] = (if d = 0 then Ok [] else Panic)"
| "str_prefix d (c # cs) =
     (if d = 0 then Ok [] else if d < utf8_width c then Panic
      else rbind (str_prefix (d - utf8_width c) cs) (\<lambda>t. Ok (c # t)))"

text \<open>The suffix \<^verbatim>\<open>&s[d..]\<close>, and \<^verbatim>\<open>char::is_ascii_digit\<close>.\<close>

fun str_suffix :: "nat \<Rightarrow> scalars \<Rightarrow> (scalars, 'e) result" where
  "str_suffix d [] = (if d = 0 then Ok [] else Panic)"
| "str_suffix d (c # cs) =
     (if d = 0 then Ok (c # cs) else if d < utf8_width c then Panic else str_suffix (d - utf8_width c) cs)"

definition is_digit_scalar :: "nat \<Rightarrow> bool" where
  "is_digit_scalar c \<longleftrightarrow> 48 \<le> c \<and> c \<le> 57"

text \<open>On ASCII text bytes are characters.\<close>

definition is_ascii :: "scalars \<Rightarrow> bool" where
  "is_ascii s \<longleftrightarrow> list_all (\<lambda>c. c < 0x80) s"

lemma is_ascii_simps [simp]:
  "is_ascii []" "is_ascii (c # s) \<longleftrightarrow> c < 0x80 \<and> is_ascii s" "is_ascii (s @ t) \<longleftrightarrow> is_ascii s \<and> is_ascii t"
  by (simp_all add: is_ascii_def)

lemma utf8_width_bounds: "1 \<le> utf8_width c" "utf8_width c = 1 \<longleftrightarrow> c < 0x80"
  by (auto simp: utf8_width_def)

lemma utf8_len_simps [simp]:
  "utf8_len [] = 0" "utf8_len (c # s) = utf8_width c + utf8_len s" "utf8_len (s @ t) = utf8_len s + utf8_len t"
  by (simp_all add: utf8_len_def)

lemma utf8_len_ge: "length s \<le> utf8_len s"
proof (induction s)
  case (Cons c s)
  then show ?case using utf8_width_bounds(1) [of c] by simp
qed simp

lemma utf8_len_ascii: "utf8_len s = length s \<longleftrightarrow> is_ascii s"
proof (induction s)
  case (Cons c s)
  have "utf8_width c + utf8_len s = Suc (length s) \<longleftrightarrow> utf8_width c = 1 \<and> utf8_len s = length s"
    using utf8_width_bounds(1) [of c] utf8_len_ge [of s] by linarith
  then show ?case using Cons utf8_width_bounds(2) [of c] by simp
qed simp

lemma digits_ascii: "list_all is_digit_scalar s \<Longrightarrow> is_ascii s"
  by (induction s) (auto simp: is_digit_scalar_def)

lemma str_prefix_take:
  "is_ascii (take d s) \<Longrightarrow> d \<le> length s \<Longrightarrow> str_prefix d s = Ok (take d s)"
proof (induction s arbitrary: d)
  case (Cons c s)
  then show ?case by (cases d) (auto simp: utf8_width_def)
qed simp

lemma str_suffix_drop:
  "is_ascii (take d s) \<Longrightarrow> d \<le> length s \<Longrightarrow> str_suffix d s = Ok (drop d s)"
proof (induction s arbitrary: d)
  case (Cons c s)
  then show ?case by (cases d) (auto simp: utf8_width_def)
qed simp

lemma str_prefix_OkD: "str_prefix d s = Ok t \<Longrightarrow> utf8_len t = d \<and> t = take (length t) s"
proof (induction s arbitrary: d t)
  case (Cons c s)
  then show ?case using utf8_width_bounds(1) [of c] by (auto split: if_splits)
qed (auto split: if_splits)

section \<open>Luhn\<close>

definition luhn_digit :: "bool \<Rightarrow> nat \<Rightarrow> nat" where
  "luhn_digit alt d = (if alt then (let doubled = d * 2 in if doubled > 9 then doubled - 9 else doubled) else d)"

fun luhn_loop :: "scalars \<Rightarrow> bool \<Rightarrow> nat \<Rightarrow> (nat, bin_error) result" where
  "luhn_loop [] alt acc = Ok acc"
| "luhn_loop (c # cs) alt acc =
     rbind (ok_or (to_digit c) (InvalidBinCharacter c)) (\<lambda>d.
       rbind (u32_val (acc + luhn_digit alt d)) (\<lambda>acc. luhn_loop cs (\<not> alt) acc))"

definition validate :: "scalars \<Rightarrow> (unit, bin_error) result" where
  "validate pan =
     (if utf8_len pan < 2 then Err LuhnFailed
      else rbind (luhn_loop (rev pan) False 0) (\<lambda>total. if total mod 10 = 0 then Ok () else Err LuhnFailed))"

fun is_ok :: "('a, 'e) result \<Rightarrow> bool" where
  "is_ok (Ok _) = True"
| "is_ok _ = False"

definition is_valid :: "scalars \<Rightarrow> bool" where
  "is_valid pan = is_ok (validate pan)"

definition check_digit :: "scalars \<Rightarrow> (nat, bin_error) result" where
  "check_digit partial = rbind (luhn_loop (rev partial) True 0) (\<lambda>total. Ok ((10 - (total mod 10)) mod 10))"

section \<open>Prefixes and intervals\<close>

datatype card_network = Visa | Mastercard | Amex | Discover | Jcb | DinersClub | UnionPay | RuPay | Maestro | Elo | Mir | Troy | UnknownNetwork

fun network_as_str :: "card_network \<Rightarrow> string" where
  "network_as_str Visa = ''visa''"
| "network_as_str Mastercard = ''mastercard''"
| "network_as_str Amex = ''amex''"
| "network_as_str Discover = ''discover''"
| "network_as_str Jcb = ''jcb''"
| "network_as_str DinersClub = ''diners-club''"
| "network_as_str UnionPay = ''unionpay''"
| "network_as_str RuPay = ''rupay''"
| "network_as_str Maestro = ''maestro''"
| "network_as_str Elo = ''elo''"
| "network_as_str Mir = ''mir''"
| "network_as_str Troy = ''troy''"
| "network_as_str UnknownNetwork = ''unknown''"

datatype card_type = Credit | Debit | Prepaid | Charge | UnknownType

fun card_type_as_str :: "card_type \<Rightarrow> string" where
  "card_type_as_str Credit = ''credit''"
| "card_type_as_str Debit = ''debit''"
| "card_type_as_str Prepaid = ''prepaid''"
| "card_type_as_str Charge = ''charge''"
| "card_type_as_str UnknownType = ''unknown''"

text \<open>A country is its two bytes.\<close>

type_synonym issuer_country = "nat \<times> nat"

definition is_ascii_uppercase :: "nat \<Rightarrow> bool" where
  "is_ascii_uppercase b \<longleftrightarrow> 65 \<le> b \<and> b \<le> 90"

definition country_parse :: "scalars \<Rightarrow> (issuer_country, bin_error) result" where
  "country_parse s =
     (if utf8_len s \<noteq> 2 \<or> \<not> list_all is_ascii_uppercase s then Err (InvalidCountryCode s) else Ok (s ! 0, s ! 1))"

definition from_ascii :: "nat \<Rightarrow> nat \<Rightarrow> (issuer_country, bin_error) result" where
  "from_ascii a b = (if is_ascii_uppercase a \<and> is_ascii_uppercase b then Ok (a, b) else Panic)"

definition country_as_str :: "issuer_country \<Rightarrow> scalars" where
  "country_as_str c = [fst c, snd c]"

record bin =
  prefix_8 :: nat
  bin_length :: nat

fun digits_loop :: "scalars \<Rightarrow> nat \<Rightarrow> (nat, bin_error) result" where
  "digits_loop [] acc = Ok acc"
| "digits_loop (c # cs) acc =
     rbind (ok_or (to_digit c) (InvalidBinCharacter c)) (\<lambda>d. rbind (u32_val (acc * 10 + d)) (\<lambda>acc. digits_loop cs acc))"

definition bin_parse :: "scalars \<Rightarrow> (bin, bin_error) result" where
  "bin_parse s =
     (let n = utf8_len s in
      if \<not> (6 \<le> n \<and> n \<le> 8) then Err (InvalidBinLength n)
      else rbind (digits_loop s 0) (\<lambda>v. rbind (u32_val (v * 10 ^ (8 - n))) (\<lambda>p. Ok \<lparr>prefix_8 = p, bin_length = n\<rparr>)))"

definition from_u32 :: "nat \<Rightarrow> nat \<Rightarrow> (bin, bin_error) result" where
  "from_u32 v len =
     (if \<not> (6 \<le> len \<and> len \<le> 8) then Err (InvalidBinLength len)
      else rbind (u32_val (v * 10 ^ (8 - len))) (\<lambda>p. Ok \<lparr>prefix_8 = p, bin_length = len\<rparr>))"

definition from_pan_prefix :: "scalars \<Rightarrow> nat \<Rightarrow> (bin, bin_error) result" where
  "from_pan_prefix prefix digits =
     (let d = min (max digits 6) 8 in
      if utf8_len prefix < d then Err (InvalidBinLength (utf8_len prefix)) else rbind (str_prefix d prefix) bin_parse)"

definition bin_display :: "bin \<Rightarrow> string" where
  "bin_display b = pad_zero (bin_length b) (show_nat (prefix_8 b div 10 ^ (8 - bin_length b)))"

record bin_range =
  br_low :: nat
  br_high :: nat
  br_network :: card_network
  br_card_type :: card_type
  br_country :: "issuer_country option"
  br_durbin_regulated :: bool

definition range_new :: "nat \<Rightarrow> nat \<Rightarrow> card_network \<Rightarrow> card_type \<Rightarrow> issuer_country option \<Rightarrow> bool \<Rightarrow> (bin_range, bin_error) result" where
  "range_new low high net ct country durbin =
     (if low \<ge> high then Err (InvalidRange low high)
      else Ok \<lparr>br_low = low, br_high = high, br_network = net, br_card_type = ct, br_country = country, br_durbin_regulated = durbin\<rparr>)"

definition range_contains :: "bin_range \<Rightarrow> bin \<Rightarrow> bool" where
  "range_contains r b \<longleftrightarrow> prefix_8 b \<ge> br_low r \<and> prefix_8 b < br_high r"

definition is_regulated :: "bin_range \<Rightarrow> bool" where
  "is_regulated r \<longleftrightarrow> (br_card_type r = Debit \<or> br_card_type r = Prepaid) \<and> br_durbin_regulated r"

definition is_exempt :: "bin_range \<Rightarrow> bool" where
  "is_exempt r \<longleftrightarrow> \<not> is_regulated r"

section \<open>The check digit\<close>

text \<open>On decimal digits the loop computes a weighted sum, started with or without doubling.\<close>

fun luhn_sum :: "bool \<Rightarrow> nat list \<Rightarrow> nat" where
  "luhn_sum alt [] = 0"
| "luhn_sum alt (d # ds) = luhn_digit alt d + luhn_sum (\<not> alt) ds"

abbreviation numerals :: "nat list \<Rightarrow> scalars" where
  "numerals ds \<equiv> map (\<lambda>d. 48 + d) ds"

lemma to_digit_numeral [simp]: "d < 10 \<Longrightarrow> to_digit (48 + d) = Some d"
  by (simp add: to_digit_def)

lemma luhn_digit_le: "d < 10 \<Longrightarrow> luhn_digit alt d \<le> 9"
  by (auto simp: luhn_digit_def Let_def)

lemma luhn_loop_numerals:
  "list_all (\<lambda>d. d < 10) ds \<Longrightarrow> acc + 9 * length ds \<le> u32_max \<Longrightarrow> luhn_loop (numerals ds) alt acc = Ok (acc + luhn_sum alt ds)"
proof (induction ds arbitrary: alt acc)
  case (Cons d ds)
  then have d: "d < 10" "list_all (\<lambda>d. d < 10) ds" by simp_all
  have le: "luhn_digit alt d \<le> 9" using luhn_digit_le [OF d(1)] .
  have "luhn_loop (numerals ds) (\<not> alt) (acc + luhn_digit alt d) = Ok (acc + luhn_digit alt d + luhn_sum (\<not> alt) ds)"
    using Cons.IH [OF d(2)] Cons.prems(2) le by simp
  then show ?case using d le Cons.prems(2) by (simp add: u32_val_def add.assoc del: rbind_eq_Ok)
qed simp

lemma luhn_sum_append: "luhn_sum alt (xs @ ys) = luhn_sum alt xs + luhn_sum (alt \<noteq> odd (length xs)) ys"
proof (induction xs arbitrary: alt)
  case (Cons x xs)
  have "((\<not> alt) \<noteq> odd (length xs)) = (alt \<noteq> odd (length (x # xs)))" by auto
  then show ?case using Cons.IH [of "\<not> alt"] by simp
qed simp

lemma utf8_len_numerals [simp]: "list_all (\<lambda>d. d < 10) ds \<Longrightarrow> utf8_len (numerals ds) = length ds"
  by (induction ds) (auto simp: utf8_len_def utf8_width_def)

lemma validate_numerals:
  assumes "list_all (\<lambda>d. d < 10) ds" and "2 \<le> length ds" and "9 * length ds \<le> u32_max"
  shows "validate (numerals ds) = (if luhn_sum False (rev ds) mod 10 = 0 then Ok () else Err LuhnFailed)"
proof -
  have "luhn_loop (rev (numerals ds)) False 0 = Ok (luhn_sum False (rev ds))"
    using luhn_loop_numerals [of "rev ds" 0 False] assms by (simp add: rev_map list_all_rev)
  then show ?thesis using assms by (simp add: validate_def)
qed

lemma mod_10_complement:
  assumes "c < 10"
  shows "(c + s) mod 10 = 0 \<longleftrightarrow> c = (10 - s mod 10) mod (10 :: nat)"
proof -
  have "(c + s) mod 10 = (c + s mod 10) mod 10" by (simp add: mod_add_right_eq)
  moreover have "(c + r) mod 10 = 0 \<longleftrightarrow> c = (10 - r) mod 10" if "r < 10" for r :: nat
  proof (cases "r = 0")
    case False
    then have "(c + r) mod 10 = (if c + r < 10 then c + r else c + r - 10)" using assms that by (simp add: mod_if)
    then show ?thesis using False assms that by auto
  qed (use assms in simp)
  moreover have "s mod 10 < 10" by simp
  ultimately show ?thesis by metis
qed

text \<open>
  The check digit: for every nonempty string of digits there is exactly one digit that completes it to a valid number, and \<^verbatim>\<open>check_digit\<close>
  computes it; every other final digit is refused as a checksum failure.
\<close>

theorem check_digit_completes:
  assumes "list_all (\<lambda>d. d < 10) ds" and "ds \<noteq> []" and "length ds < 400000000"
  shows "\<exists>d<10. check_digit (numerals ds) = Ok d \<and>
    (\<forall>c<10. validate (numerals (ds @ [c])) = (if c = d then Ok () else Err LuhnFailed))"
proof -
  let ?s = "luhn_sum True (rev ds)" and ?d = "(10 - luhn_sum True (rev ds) mod 10) mod 10"
  have "luhn_loop (rev (numerals ds)) True 0 = Ok ?s"
    using luhn_loop_numerals [of "rev ds" 0 True] assms by (simp add: rev_map list_all_rev)
  then have "check_digit (numerals ds) = Ok ?d" by (simp add: check_digit_def del: rbind_eq_Ok)
  moreover have "validate (numerals (ds @ [c])) = (if c = ?d then Ok () else Err LuhnFailed)" if "c < 10" for c
  proof -
    have "luhn_sum False (rev (ds @ [c])) = c + ?s" by (simp add: luhn_digit_def)
    moreover have "(c + ?s) mod 10 = 0 \<longleftrightarrow> c = ?d" by (rule mod_10_complement [OF that])
    moreover have "2 \<le> length (ds @ [c])" using assms(2) by (cases ds) auto
    ultimately show ?thesis using validate_numerals [of "ds @ [c]"] assms that by simp
  qed
  ultimately show ?thesis by (intro exI [of _ ?d]) simp
qed

theorem check_digit_completes_witness:
  "check_digit (numerals [7, 9, 9, 2, 7, 3, 9, 8, 7, 1]) = Ok 3 \<and> validate (numerals [7, 9, 9, 2, 7, 3, 9, 8, 7, 1, 3]) = Ok ()"
proof -
  have e: "check_digit (numerals [7, 9, 9, 2, 7, 3, 9, 8, 7, 1]) = Ok 3"
    by (simp add: check_digit_def to_digit_def luhn_digit_def Let_def u32_val_def del: rbind_eq_Ok)
  then have "\<forall>c<10. validate (numerals ([7, 9, 9, 2, 7, 3, 9, 8, 7, 1] @ [c])) = (if c = 3 then Ok () else Err LuhnFailed)"
    using check_digit_completes [of "[7, 9, 9, 2, 7, 3, 9, 8, 7, 1]"] by auto
  from this [rule_format, of 3] e show ?thesis by simp
qed

text \<open>Weighting is a permutation of the digits, and a swap shows unless it exchanges 0 and 9; both are finite checks.\<close>

lemma luhn_digit_table:
  "list_all (\<lambda>alt. list_all (\<lambda>a. list_all (\<lambda>b. luhn_digit alt a mod 10 = luhn_digit alt b mod 10 \<longrightarrow> a = b) [0..<10]) [0..<10]) [True, False]"
  "list_all (\<lambda>alt. list_all (\<lambda>a. list_all (\<lambda>b.
     (luhn_digit alt a + luhn_digit (\<not> alt) b) mod 10 = (luhn_digit alt b + luhn_digit (\<not> alt) a) mod 10 \<longrightarrow>
     a = b \<or> a = 0 \<and> b = 9 \<or> a = 9 \<and> b = 0) [0..<10]) [0..<10]) [True, False]"
  by code_simp+

lemma luhn_digit_inj: "a < 10 \<Longrightarrow> b < 10 \<Longrightarrow> luhn_digit alt a mod 10 = luhn_digit alt b mod 10 \<Longrightarrow> a = b"
proof -
  assume "a < 10" "b < 10" and e: "luhn_digit alt a mod 10 = luhn_digit alt b mod 10"
  then have "alt \<in> set [True, False]" "a \<in> set [0..<10]" "b \<in> set [0..<10]" by (cases alt; simp)+
  then show ?thesis using luhn_digit_table(1) e unfolding list_all_iff by blast
qed

lemma luhn_swap:
  assumes "a < 10" and "b < 10" and "{a, b} \<noteq> {0, 9}"
    and "(luhn_digit alt a + luhn_digit (\<not> alt) b) mod 10 = (luhn_digit alt b + luhn_digit (\<not> alt) a) mod 10"
  shows "a = b"
proof -
  have "alt \<in> set [True, False]" "a \<in> set [0..<10]" "b \<in> set [0..<10]" using assms(1,2) by (cases alt; simp)+
  then have "a = b \<or> a = 0 \<and> b = 9 \<or> a = 9 \<and> b = 0"
    using luhn_digit_table(2) assms(4) unfolding list_all_iff by blast
  then show ?thesis using assms(3) by auto
qed

lemma mod_middle: "(x + a + y) mod 10 = (x + b + y) mod 10 \<longleftrightarrow> a mod 10 = (b :: nat) mod 10"
proof -
  have "int ((x + a + y) mod 10) = int ((x + b + y) mod 10) \<longleftrightarrow> int (a mod 10) = int (b mod 10)"
    by (simp add: zmod_int mod_eq_dvd_iff)
  then show ?thesis by simp
qed

lemma luhn_sum_middle:
  assumes "length as = length bs" and "luhn_sum False (rev (xs @ as @ ys)) mod 10 = luhn_sum False (rev (xs @ bs @ ys)) mod 10"
  shows "luhn_sum (odd (length ys)) (rev as) mod 10 = luhn_sum (odd (length ys)) (rev bs) mod 10"
  using assms by (simp add: luhn_sum_append add.assoc [symmetric] mod_middle)

text \<open>
  C39.  Typing errors: replacing one digit of a valid number by another digit, or exchanging two different neighbours other than 0 and 9,
  gives a number that validation refuses.
\<close>

theorem luhn_detects_typing_errors:
  assumes "validate (numerals (xs @ [a] @ ys)) = Ok ()" and "list_all (\<lambda>d. d < 10) (xs @ [a, b] @ ys)"
    and "2 \<le> length (xs @ [a] @ ys)" and "length xs + length ys < 400000000"
  shows "(b \<noteq> a \<longrightarrow> validate (numerals (xs @ [b] @ ys)) = Err LuhnFailed)
    \<and> (\<forall>c zs. ys = c # zs \<longrightarrow> c \<noteq> a \<longrightarrow> {a, c} \<noteq> {0, 9} \<longrightarrow> validate (numerals (xs @ [c, a] @ zs)) = Err LuhnFailed)"
proof -
  have valid: "luhn_sum False (rev (xs @ [a] @ ys)) mod 10 = 0"
    using assms validate_numerals [of "xs @ [a] @ ys"] by (auto split: if_splits)
  have "validate (numerals (xs @ [b] @ ys)) = Err LuhnFailed" if "b \<noteq> a"
  proof -
    have "luhn_sum False (rev (xs @ [b] @ ys)) mod 10 \<noteq> 0"
      using luhn_sum_middle [of "[a]" "[b]" xs ys] luhn_digit_inj [of a b] valid that assms(2) by auto
    then show ?thesis using assms validate_numerals [of "xs @ [b] @ ys"] by simp
  qed
  moreover have "validate (numerals (xs @ [c, a] @ zs)) = Err LuhnFailed" if "ys = c # zs" "c \<noteq> a" "{a, c} \<noteq> {0, 9}" for c zs
  proof -
    have "luhn_sum False (rev (xs @ [c, a] @ zs)) mod 10 \<noteq> 0"
      using luhn_sum_middle [of "[a, c]" "[c, a]" xs zs] luhn_swap [of a c "\<not> odd (length zs)"] valid that assms(2)
      by (auto simp: add.commute)
    then show ?thesis using assms that validate_numerals [of "xs @ [c, a] @ zs"] by simp
  qed
  ultimately show ?thesis by blast
qed

theorem luhn_detects_typing_errors_witness:
  "validate (numerals [7, 9, 9, 2, 7, 3, 9, 8, 7, 1, 3]) = Ok () \<and> validate (numerals [7, 9, 9, 2, 8, 3, 9, 8, 7, 1, 3]) = Err LuhnFailed
   \<and> validate (numerals [7, 9, 9, 2, 3, 7, 9, 8, 7, 1, 3]) = Err LuhnFailed"
proof -
  have e: "validate (numerals ([7, 9, 9, 2] @ [7] @ [3, 9, 8, 7, 1, 3])) = Ok ()"
    by (simp add: validate_def utf8_len_def utf8_width_def to_digit_def luhn_digit_def Let_def u32_val_def)
  have "{7 :: nat, 3} \<noteq> {0, 9}" by auto
  then show ?thesis using luhn_detects_typing_errors [OF e, of 8] e by simp
qed

section \<open>Prefixes are read exactly\<close>

text \<open>A digit string of a given length is determined by its value.\<close>

lemma read_digits_inj:
  "length ds = length es \<Longrightarrow> list_all (\<lambda>d. d < 10) ds \<Longrightarrow> list_all (\<lambda>d. d < 10) es \<Longrightarrow>
   read_nat (map digit_char ds) = read_nat (map digit_char es) \<Longrightarrow> ds = es"
proof (induction ds arbitrary: es rule: rev_induct)
  case (snoc d ds)
  then obtain e es' where es: "es = es' @ [e]" by (cases es rule: rev_cases) auto
  have "d < 10" "e < 10" using snoc.prems es by simp_all
  moreover have "read_nat (map digit_char ds) * 10 + d = read_nat (map digit_char es') * 10 + e"
    using snoc.prems(4) es calculation by simp
  ultimately have "read_nat (map digit_char ds) = read_nat (map digit_char es')" "d = e" by presburger+
  then show ?case using snoc es by simp
qed simp

lemma padded_digits:
  assumes "list_all (\<lambda>d. d < 10) ds" and "ds \<noteq> []" and "read_nat (map digit_char ds) < 10 ^ length ds"
  shows "pad_zero (length ds) (show_nat (read_nat (map digit_char ds))) = map digit_char ds"
proof -
  let ?v = "read_nat (map digit_char ds)" and ?n = "length ds"
  have "\<exists>d<10. c = digit_char d" if "c \<in> set (pad_zero ?n (show_nat ?v))" for c
  proof -
    have "CHR ''0'' = digit_char 0" by code_simp
    moreover from that have "c = CHR ''0'' \<or> c \<in> set (show_nat ?v)" by (auto simp: pad_zero_def split: if_splits)
    ultimately show ?thesis using show_nat_digits [of c ?v] zero_less_numeral by blast
  qed
  then obtain f where f: "\<forall>c\<in>set (pad_zero ?n (show_nat ?v)). f c < 10 \<and> c = digit_char (f c)" by metis
  let ?es = "map f (pad_zero ?n (show_nat ?v))"
  have es: "map digit_char ?es = pad_zero ?n (show_nat ?v)" using f by (auto intro!: map_idI)
  have "length (show_nat ?v) \<le> ?n" using show_nat_length [OF assms(3)] assms(2) by simp
  then have "ds = ?es"
    by (intro read_digits_inj) (use f assms(1) es in \<open>simp_all add: pad_zero_length list_all_iff\<close>)
  then show ?thesis using es by simp
qed

lemma digits_loop_outcome:
  "(acc + 1) * 10 ^ length s \<le> u32_max \<Longrightarrow>
   (case digits_loop s acc of
      Ok v \<Rightarrow> (\<exists>ds. list_all (\<lambda>d. d < 10) ds \<and> s = numerals ds \<and> v = foldl (\<lambda>a c. a * 10 + digit_val c) acc (map digit_char ds))
        \<and> v < (acc + 1) * 10 ^ length s
    | Err e \<Rightarrow> \<exists>c\<in>set s. to_digit c = None \<and> e = InvalidBinCharacter c
    | Panic \<Rightarrow> False)"
proof (induction s arbitrary: acc)
  case (Cons c cs)
  show ?case
  proof (cases "to_digit c")
    case (Some d)
    then have d: "d < 10" "c = 48 + d" by (auto simp: to_digit_def split: if_splits)
    have step: "(acc * 10 + d + 1) * 10 ^ length cs \<le> (acc + 1) * 10 ^ length (c # cs)"
    proof -
      have "acc * 10 + d + 1 \<le> (acc + 1) * 10" using d(1) by simp
      from mult_le_mono1 [OF this, of "10 ^ length cs"] show ?thesis by (simp only: list.size power_Suc mult.assoc Suc_eq_plus1 add_0_right power_add power_one_right ac_simps)
    qed
    then have le: "(acc * 10 + d + 1) * 10 ^ length cs \<le> u32_max" using Cons.prems by (rule order_trans)
    have "(acc * 10 + d + 1) * 1 \<le> (acc * 10 + d + 1) * 10 ^ length cs" by (intro mult_le_mono2) simp
    with le have "u32_val (acc * 10 + d) = (Ok (acc * 10 + d) :: (nat, bin_error) result)" by (simp add: u32_val_def)
    then have e: "digits_loop (c # cs) acc = digits_loop cs (acc * 10 + d)" using Some by simp
    note ih = Cons.IH [OF le]
    show ?thesis
    proof (cases "digits_loop cs (acc * 10 + d)")
      case (Ok v)
      then obtain ds where ds: "list_all (\<lambda>d. d < 10) ds" "cs = numerals ds"
          "v = foldl (\<lambda>a c. a * 10 + digit_val c) (acc * 10 + d) (map digit_char ds)" and v: "v < (acc * 10 + d + 1) * 10 ^ length cs"
        using ih by auto
      have "v < (acc + 1) * 10 ^ length (c # cs)" using v step by (rule order_less_le_trans)
      moreover have "list_all (\<lambda>d. d < 10) (d # ds) \<and> c # cs = numerals (d # ds)
          \<and> v = foldl (\<lambda>a c. a * 10 + digit_val c) acc (map digit_char (d # ds))"
        using ds d by simp
      ultimately show ?thesis unfolding e Ok result.case by (intro conjI exI [of _ "d # ds"]) (simp_all only:)
    next
      case (Err er)
      then show ?thesis unfolding e using ih by auto
    next
      case Panic
      then show ?thesis using ih by simp
    qed
  qed auto
qed simp

text \<open>
  C40.  Prefixes are well formed and read exactly: for every string, parsing yields a prefix of six to eight digits, left-justified and below \<open>10^8\<close>,
  whose rendering is the string again, or an error that is true of the string: a wrong length or a character of it that is no digit.  It
  never panics.
\<close>

theorem bin_parse_exact:
  "case bin_parse s of
     Ok b \<Rightarrow> 6 \<le> bin_length b \<and> bin_length b \<le> 8 \<and> prefix_8 b < 10 ^ 8 \<and> 10 ^ (8 - bin_length b) dvd prefix_8 b
       \<and> map of_char (bin_display b) = s
   | Err e \<Rightarrow> e = InvalidBinLength (utf8_len s) \<and> (utf8_len s < 6 \<or> 8 < utf8_len s)
       \<or> (\<exists>c\<in>set s. to_digit c = None \<and> e = InvalidBinCharacter c)
   | Panic \<Rightarrow> False"
proof (cases "6 \<le> utf8_len s \<and> utf8_len s \<le> 8")
  case True
  let ?n = "utf8_len s"
  have len: "length s \<le> ?n" by (induction s) (auto simp: utf8_len_def utf8_width_def)
  then have p8: "(10 :: nat) ^ length s \<le> 10 ^ 8" using True by (intro power_increasing) auto
  then have "(0 + 1) * 10 ^ length s \<le> u32_max" by simp
  note loop = digits_loop_outcome [OF this]
  show ?thesis
  proof (cases "digits_loop s 0")
    case (Ok v)
    then obtain ds where ds: "list_all (\<lambda>d. d < 10) ds" "s = numerals ds" "v = read_nat (map digit_char ds)" and v: "v < 10 ^ length ds"
      using loop by (auto simp: read_nat_def)
    have n: "?n = length ds" using ds by simp
    have "v * 10 ^ (8 - ?n) < 10 ^ length ds * 10 ^ (8 - ?n)" using v by simp
    also have "\<dots> = 10 ^ 8" using True n by (simp add: power_add [symmetric])
    finally have b: "v * 10 ^ (8 - ?n) < 10 ^ 8" .
    then have "bin_parse s = Ok \<lparr>prefix_8 = v * 10 ^ (8 - ?n), bin_length = ?n\<rparr>"
      using True Ok by (simp add: bin_parse_def Let_def u32_val_def del: rbind_eq_Ok)
    moreover have "map of_char (pad_zero (length ds) (show_nat v)) = s"
    proof -
      have "ds \<noteq> []" using True n by auto
      then have "pad_zero (length ds) (show_nat v) = map digit_char ds" using padded_digits [OF ds(1)] v ds(3) by simp
      moreover have "of_char (digit_char d) = 48 + d" if "d < 10" for d using that by (simp add: digit_char_def)
      ultimately show ?thesis using ds(1,2) by (simp add: list_all_iff)
    qed
    ultimately show ?thesis using b True n by (simp add: bin_display_def)
  next
    case (Err e)
    then show ?thesis using loop True by (auto simp: bin_parse_def Let_def)
  next
    case Panic
    then show ?thesis using loop by simp
  qed
qed (auto simp: bin_parse_def Let_def)

end
