(* ===== verification/Bin_Tree.thy ===== *)
theory Bin_Tree
  imports Bin_Range
begin

text \<open>
  Lookup of issuer prefixes (\<^verbatim>\<open>op-bin/src/range_tree.rs\<close>, \<^verbatim>\<open>network.rs\<close>, \<^verbatim>\<open>network_ranges.rs\<close>): the sorted vector of intervals with its binary
  search, the classification by leading digits and the built-in table.  Shown: a tree is built exactly from pairwise disjoint
  intervals and its lookup finds the interval that contains the prefix; on the built-in table the two ways to find the network agree.
\<close>

section \<open>Binary search\<close>

text \<open>
  \<^verbatim>\<open>slice::binary_search_by\<close>: the loop narrows a window of the vector and compares once more at the end; a miss yields the insertion point.
\<close>

datatype ordering = Less | Equal | Greater

definition nat_cmp :: "nat \<Rightarrow> nat \<Rightarrow> ordering" where
  "nat_cmp a b = (if a < b then Less else if a = b then Equal else Greater)"

function search_loop :: "(nat \<Rightarrow> ordering) \<Rightarrow> nat \<Rightarrow> nat \<Rightarrow> nat" where
  "search_loop f base n =
     (if n > 1 then
        let half = n div 2; mid = base + half in
        search_loop f (if f mid = Greater then base else mid) (n - half)
      else base)"
  by pat_completeness auto
termination
  by (relation "measure (\<lambda>(f, base, n). n)") auto

declare search_loop.simps [simp del]

definition binary_search_by :: "('a \<Rightarrow> ordering) \<Rightarrow> 'a list \<Rightarrow> (nat, nat) result" where
  "binary_search_by f xs =
     (if xs = [] then Err 0
      else let base = search_loop (\<lambda>i. f (xs ! i)) 0 (length xs) in
        case f (xs ! base) of Equal \<Rightarrow> Ok base | Less \<Rightarrow> Err (base + 1) | Greater \<Rightarrow> Err base)"

section \<open>The range tree\<close>

type_synonym range_tree = "bin_range list"

text \<open>\<^verbatim>\<open>unwrap_or_else(|i| i)\<close>: a hit and a miss both give a position.\<close>

fun found_or_insertion :: "(nat, nat) result \<Rightarrow> nat" where
  "found_or_insertion (Ok i) = i"
| "found_or_insertion (Err i) = i"
| "found_or_insertion Panic = 0"

definition tree_insert :: "range_tree \<Rightarrow> bin_range \<Rightarrow> (range_tree, bin_error) result" where
  "tree_insert t r =
     (let pos = found_or_insertion (binary_search_by (\<lambda>probe. nat_cmp (br_low probe) (br_low r)) t) in
      if pos > 0 \<and> br_high (t ! (pos - 1)) > br_low r then Err (InvalidRange (br_low r) (br_high r))
      else if pos < length t \<and> br_high r > br_low (t ! pos) then Err (InvalidRange (br_low r) (br_high r))
      else Ok (take pos t @ r # drop pos t))"

fun insert_all :: "bin_range list \<Rightarrow> range_tree \<Rightarrow> (range_tree, bin_error) result" where
  "insert_all [] t = Ok t"
| "insert_all (r # rs) t = rbind (tree_insert t r) (insert_all rs)"

definition from_ranges :: "bin_range list \<Rightarrow> (range_tree, bin_error) result" where
  "from_ranges rs = insert_all rs []"

definition tree_lookup :: "range_tree \<Rightarrow> bin \<Rightarrow> bin_range option" where
  "tree_lookup t b =
     (let at = (\<lambda>i. if range_contains (t ! i) b then Some (t ! i) else None) in
      case binary_search_by (\<lambda>probe. nat_cmp (br_low probe) (prefix_8 b)) t of
        Ok i \<Rightarrow> at i
      | Err 0 \<Rightarrow> None
      | Err i \<Rightarrow> at (i - 1)
      | Panic \<Rightarrow> None)"

section \<open>Classification by leading digits\<close>

definition classify :: "bin \<Rightarrow> card_network" where
  "classify b =
     (let p = prefix_8 b;
          lead2 = p div 1000000;
          lead4 = p div 10000;
          lead6 = p div 100;
          lead3 = p div 100000;
          lead1 = p div 10000000 in
      if lead1 = 4 then Visa
      else if lead2 = 34 \<or> lead2 = 37 then Amex
      else if 51 \<le> lead2 \<and> lead2 \<le> 55 then Mastercard
      else if 2221 \<le> lead4 \<and> lead4 \<le> 2720 then Mastercard
      else if lead4 = 6011 then Discover
      else if 622126 \<le> lead6 \<and> lead6 \<le> 622925 then Discover
      else if 644 \<le> lead3 \<and> lead3 \<le> 649 then Discover
      else if lead2 = 65 then Discover
      else if 3528 \<le> lead4 \<and> lead4 \<le> 3589 then Jcb
      else if 300 \<le> lead3 \<and> lead3 \<le> 305 \<or> lead3 = 309 then DinersClub
      else if lead2 = 36 \<or> lead2 = 38 \<or> lead2 = 39 then DinersClub
      else if lead2 = 62 then UnionPay
      else if lead2 = 60 \<and> lead4 \<noteq> 6011 then RuPay
      else if lead2 = 81 \<or> lead2 = 82 then RuPay
      else if 2200 \<le> lead4 \<and> lead4 \<le> 2204 then Mir
      else if lead4 = 9792 then Troy
      else if lead4 \<in> {5018, 5020, 5038, 5612, 5893, 6304, 6759, 6761, 6762, 6763} then Maestro
      else if lead4 \<in> {4011, 4312, 4389, 4514, 5041, 5066, 5067, 5090, 6277, 6362, 6363, 6504, 6505} then Elo
      else UnknownNetwork)"

section \<open>The built-in table\<close>

type_synonym table_row = "nat \<times> nat \<times> card_network \<times> card_type \<times> issuer_country option \<times> bool"

abbreviation "US \<equiv> Some (85 :: nat, 83 :: nat)"
abbreviation "CN \<equiv> Some (67 :: nat, 78 :: nat)"
abbreviation "JP \<equiv> Some (74 :: nat, 80 :: nat)"
abbreviation "IN \<equiv> Some (73 :: nat, 78 :: nat)"
abbreviation "BR \<equiv> Some (66 :: nat, 82 :: nat)"
abbreviation "RU \<equiv> Some (82 :: nat, 85 :: nat)"
abbreviation "TR \<equiv> Some (84 :: nat, 82 :: nat)"
abbreviation "ANY \<equiv> None :: issuer_country option"

definition VISA :: "table_row list" where
  "VISA =
  [(40000000, 50000000, Visa, Credit, ANY, False)]"

definition MASTERCARD :: "table_row list" where
  "MASTERCARD =
  [(22210000, 27210000, Mastercard, Credit, ANY, False),
   (51000000, 56000000, Mastercard, Credit, ANY, False)]"

definition AMEX :: "table_row list" where
  "AMEX =
  [(34000000, 35000000, Amex, Charge, ANY, False),
   (37000000, 38000000, Amex, Charge, ANY, False)]"

definition DISCOVER :: "table_row list" where
  "DISCOVER =
  [(60110000, 60120000, Discover, Credit, US, False),
   (62212600, 62292600, Discover, Credit, US, False),
   (64400000, 65000000, Discover, Credit, US, False),
   (65000000, 66000000, Discover, Credit, US, False)]"

definition JCB :: "table_row list" where
  "JCB =
  [(35280000, 35900000, Jcb, Credit, JP, False)]"

definition DINERS_CLUB :: "table_row list" where
  "DINERS_CLUB =
  [(30000000, 30600000, DinersClub, Charge, ANY, False),
   (30900000, 31000000, DinersClub, Charge, ANY, False),
   (36000000, 37000000, DinersClub, Charge, ANY, False),
   (38000000, 40000000, DinersClub, Charge, ANY, False)]"

definition UNIONPAY :: "table_row list" where
  "UNIONPAY =
  [(62000000, 62212600, UnionPay, Credit, CN, False),
   (62292600, 63000000, UnionPay, Credit, CN, False)]"

definition RUPAY :: "table_row list" where
  "RUPAY =
  [(60000000, 60110000, RuPay, Debit, IN, False),
   (60120000, 61000000, RuPay, Debit, IN, False),
   (81000000, 83000000, RuPay, Debit, IN, False)]"

definition MAESTRO :: "table_row list" where
  "MAESTRO =
  [(50180000, 50190000, Maestro, Debit, ANY, False),
   (50200000, 50210000, Maestro, Debit, ANY, False),
   (50380000, 50390000, Maestro, Debit, ANY, False),
   (56120000, 56130000, Maestro, Debit, ANY, False),
   (58930000, 58940000, Maestro, Debit, ANY, False),
   (63040000, 63050000, Maestro, Debit, ANY, False),
   (67590000, 67600000, Maestro, Debit, ANY, False),
   (67610000, 67640000, Maestro, Debit, ANY, False)]"

definition ELO :: "table_row list" where
  "ELO =
  [(63620000, 63640000, Elo, Credit, BR, False)]"

definition MIR :: "table_row list" where
  "MIR =
  [(22000000, 22050000, Mir, Debit, RU, False)]"

definition TROY :: "table_row list" where
  "TROY =
  [(97920000, 97930000, Troy, Debit, TR, False)]"

fun load_rows :: "table_row list \<Rightarrow> range_tree \<Rightarrow> (range_tree, bin_error) result" where
  "load_rows [] t = Ok t"
| "load_rows ((low, high, net, ct, country, durbin) # rows) t =
     rbind (range_new low high net ct country durbin) (\<lambda>r. rbind (tree_insert t r) (load_rows rows))"

definition build_default_tree :: "(range_tree, bin_error) result" where
  "build_default_tree =
     load_rows (concat [VISA, MASTERCARD, AMEX, DISCOVER, JCB, DINERS_CLUB, UNIONPAY, RUPAY, MAESTRO, ELO, MIR, TROY]) []"

section \<open>The search finds the insertion point\<close>

text \<open>What the loop keeps: everything behind the window is greater, and the element at its start is not.\<close>

lemma search_loop_partition:
  assumes "0 < n" and "base + n \<le> m" and "base = 0 \<or> f base \<noteq> Greater" and "\<forall>j<m. base + n \<le> j \<longrightarrow> f j = Greater"
    and "\<And>i j. i < j \<Longrightarrow> j < m \<Longrightarrow> f i = Greater \<Longrightarrow> f j = Greater"
  shows "search_loop f base n < m \<and> (search_loop f base n = 0 \<or> f (search_loop f base n) \<noteq> Greater)
    \<and> (\<forall>j<m. search_loop f base n < j \<longrightarrow> f j = Greater)"
  using assms
proof (induction f base n rule: search_loop.induct)
  case (1 f base n)
  show ?case
  proof (cases "n > 1")
    case True
    let ?mid = "base + n div 2" and ?base = "if f (base + n div 2) = Greater then base else base + n div 2"
    have step: "search_loop f base n = search_loop f ?base (n - n div 2)" using True by (simp add: search_loop.simps [of f base n] Let_def)
    have le: "n div 2 < n" "0 < n div 2" using True by simp_all
    have hi: "f j = Greater" if "j < m" "?base + (n - n div 2) \<le> j" for j
    proof (cases "f ?mid = Greater")
      case g: True
      with that(2) have "?mid \<le> j" using le by simp
      then show ?thesis using g 1(6) [of ?mid j] that(1) by (cases "?mid = j") auto
    next
      case False
      then show ?thesis using 1(5) that le by simp
    qed
    show ?thesis unfolding step
    proof (rule 1(1) [OF True refl refl])
      show "?base = 0 \<or> f ?base \<noteq> Greater" using 1(4) by auto
      show "?base + (n - n div 2) \<le> m" using 1(3) le by auto
      show "\<forall>j<m. ?base + (n - n div 2) \<le> j \<longrightarrow> f j = Greater" using hi by blast
      show "0 < n - n div 2" using le by simp
    qed (rule 1(6))
  next
    case False
    with 1(2) have "n = 1" by simp
    have "search_loop f base n = base" using False by (simp add: search_loop.simps [of f base n])
    then show ?thesis using 1(3-5) \<open>n = 1\<close> by simp
  qed
qed

lemma nat_cmp_iff [simp]:
  "nat_cmp a b = Less \<longleftrightarrow> a < b" "nat_cmp a b = Equal \<longleftrightarrow> a = b" "nat_cmp a b = Greater \<longleftrightarrow> b < a"
  by (auto simp: nat_cmp_def)

lemma binary_search_strict:
  assumes "sorted_wrt (\<lambda>x y. key x < key y) xs" and "n = length (takeWhile (\<lambda>x. key x < k) xs)"
  shows "binary_search_by (\<lambda>x. nat_cmp (key x) k) xs = (if n < length xs \<and> key (xs ! n) = k then Ok n else Err n)"
proof (cases "xs = []")
  case False
  let ?f = "\<lambda>i. nat_cmp (key (xs ! i)) k"
  let ?b = "search_loop ?f 0 (length xs)"
  have mono: "i < j \<Longrightarrow> j < length xs \<Longrightarrow> key (xs ! i) < key (xs ! j)" for i j
    using assms(1) by (simp add: sorted_wrt_iff_nth_less)
  have "?b < length xs \<and> (?b = 0 \<or> ?f ?b \<noteq> Greater) \<and> (\<forall>j<length xs. ?b < j \<longrightarrow> ?f j = Greater)"
    by (rule search_loop_partition) (use False mono in \<open>auto intro: less_trans\<close>)
  then have b: "?b < length xs" "?b = 0 \<or> key (xs ! ?b) \<le> k" "\<And>j. j < length xs \<Longrightarrow> ?b < j \<Longrightarrow> k < key (xs ! j)"
    by (auto simp: not_less)
  have at_n: "n = m" if "m \<le> length xs" "\<And>i. i < m \<Longrightarrow> key (xs ! i) < k" "m < length xs \<Longrightarrow> k \<le> key (xs ! m)" for m
    using that takeWhile_eq_take_P_nth [of m xs "\<lambda>x. key x < k"] by (simp add: assms(2) not_less)
  consider "key (xs ! ?b) = k" | "key (xs ! ?b) < k" | "k < key (xs ! ?b)" by linarith
  then show ?thesis
  proof cases
    case 1
    then have "n = ?b" using at_n [of ?b] b(1) mono [of _ ?b] by auto
    then show ?thesis using 1 b(1) False by (simp add: binary_search_by_def Let_def nat_cmp_def)
  next
    case 2
    then have "key (xs ! i) < k" if "i < ?b + 1" for i
      using that mono [of i ?b] b(1) by (cases "i = ?b") auto
    moreover have "k \<le> key (xs ! (?b + 1))" if "?b + 1 < length xs" using b(3) [OF that] by simp
    ultimately have "n = ?b + 1" by (intro at_n) (use b(1) in simp_all)
    then show ?thesis using 2 b(3) [of "?b + 1"] False by (auto simp: binary_search_by_def Let_def nat_cmp_def)
  next
    case 3
    then have "?b = 0" using b(2) by auto
    then have "n = 0" using at_n [of 0] 3 by auto
    then show ?thesis using 3 \<open>?b = 0\<close> False by (simp add: binary_search_by_def Let_def nat_cmp_def)
  qed
qed (simp add: binary_search_by_def assms(2))

section \<open>Trees are sorted and disjoint\<close>

definition range_ok :: "bin_range \<Rightarrow> bool" where
  "range_ok r \<longleftrightarrow> br_low r < br_high r"

definition before :: "bin_range \<Rightarrow> bin_range \<Rightarrow> bool" where
  "before q r \<longleftrightarrow> br_high q \<le> br_low r"

definition disjoint :: "bin_range \<Rightarrow> bin_range \<Rightarrow> bool" where
  "disjoint q r \<longleftrightarrow> before q r \<or> before r q"

definition tree_ok :: "range_tree \<Rightarrow> bool" where
  "tree_ok t \<longleftrightarrow> sorted_wrt before t \<and> list_all range_ok t"

lemma tree_strict: "tree_ok t \<Longrightarrow> sorted_wrt (\<lambda>q r. br_low q < br_low r) t"
proof -
  assume ok: "tree_ok t"
  have "br_low (t ! i) < br_low (t ! j)" if "i < j" "j < length t" for i j
  proof -
    have "before (t ! i) (t ! j)" using ok that by (simp add: tree_ok_def sorted_wrt_iff_nth_less)
    moreover have "range_ok (t ! i)" using ok that by (simp add: tree_ok_def list_all_length)
    ultimately show ?thesis by (simp add: before_def range_ok_def)
  qed
  then show ?thesis by (simp add: sorted_wrt_iff_nth_less)
qed

lemma nth_mid: "t = xs @ q # ys \<Longrightarrow> length xs < length t \<and> t ! length xs = q"
  by simp

text \<open>The tree is cut at the position the search returns.\<close>

lemma tree_split:
  assumes "tree_ok t"
  obtains xs ys where "t = xs @ ys" "\<forall>q\<in>set xs. br_low q < k" "\<forall>q\<in>set ys. k \<le> br_low q"
    "binary_search_by (\<lambda>q. nat_cmp (br_low q) k) t = (case ys of q # _ \<Rightarrow> if br_low q = k then Ok (length xs) else Err (length xs) | [] \<Rightarrow> Err (length xs))"
proof
  let ?xs = "takeWhile (\<lambda>q. br_low q < k) t" and ?ys = "dropWhile (\<lambda>q. br_low q < k) t"
  show t: "t = ?xs @ ?ys" by simp
  show "\<forall>q\<in>set ?xs. br_low q < k" by (auto dest: set_takeWhileD)
  have "sorted_wrt (\<lambda>q r. br_low q < br_low r) ?ys" using tree_strict [OF assms] t by (metis sorted_wrt_append)
  then show "\<forall>q\<in>set ?ys. k \<le> br_low q"
    using hd_dropWhile [of "\<lambda>q. br_low q < k" t] by (cases ?ys) (auto simp: not_less simp del: dropWhile_eq_Nil_conv)
  show "binary_search_by (\<lambda>q. nat_cmp (br_low q) k) t
      = (case ?ys of q # _ \<Rightarrow> if br_low q = k then Ok (length ?xs) else Err (length ?xs) | [] \<Rightarrow> Err (length ?xs))"
  proof (cases ?ys)
    case Nil
    then have "length ?xs = length t" using t by (metis append_Nil2)
    then show ?thesis
      using binary_search_strict [OF tree_strict [OF assms] refl, of k] Nil by (simp del: dropWhile_eq_Nil_conv)
  next
    case (Cons q zs)
    then have "t = ?xs @ q # zs" using t by metis
    from nth_mid [OF this] show ?thesis
      using binary_search_strict [OF tree_strict [OF assms] refl, of k] Cons by simp
  qed
qed

text \<open>Insertion accepts exactly the ranges disjoint from all others, and lookup finds the range that contains the prefix.\<close>

lemma left_neighbour_decides:
  assumes "sorted_wrt before xs" and "list_all range_ok xs" and "range_ok r" and "\<forall>q\<in>set xs. br_low q < br_low r"
  shows "list_all (disjoint r) xs \<longleftrightarrow> (\<forall>q\<in>set xs. before q r)" and "(\<forall>q\<in>set xs. before q r) \<longleftrightarrow> xs = [] \<or> before (last xs) r"
proof -
  show "list_all (disjoint r) xs \<longleftrightarrow> (\<forall>q\<in>set xs. before q r)"
    using assms(3,4) by (fastforce simp: list_all_iff disjoint_def before_def range_ok_def)
  show "(\<forall>q\<in>set xs. before q r) \<longleftrightarrow> xs = [] \<or> before (last xs) r"
  proof (cases xs rule: rev_cases)
    case (snoc zs z)
    then show ?thesis using assms(1,2) by (fastforce simp: sorted_wrt_append list_all_iff before_def range_ok_def)
  qed simp
qed

lemma right_neighbour_decides:
  assumes "sorted_wrt before ys" and "list_all range_ok ys" and "\<forall>q\<in>set ys. br_low r \<le> br_low q"
  shows "list_all (disjoint r) ys \<longleftrightarrow> (\<forall>q\<in>set ys. before r q)" and "(\<forall>q\<in>set ys. before r q) \<longleftrightarrow> ys = [] \<or> before r (hd ys)"
proof -
  show "list_all (disjoint r) ys \<longleftrightarrow> (\<forall>q\<in>set ys. before r q)"
    using assms(2,3) by (fastforce simp: list_all_iff disjoint_def before_def range_ok_def)
  show "(\<forall>q\<in>set ys. before r q) \<longleftrightarrow> ys = [] \<or> before r (hd ys)"
    using assms(1,2) by (cases ys) (fastforce simp: list_all_iff before_def range_ok_def)+
qed

lemma tree_insert_exact:
  assumes "tree_ok t" and "range_ok r"
  shows "if list_all (disjoint r) t then \<exists>t'. tree_insert t r = Ok t' \<and> tree_ok t' \<and> set t' = insert r (set t)
    else tree_insert t r = Err (InvalidRange (br_low r) (br_high r))"
proof -
  obtain xs ys where t: "t = xs @ ys" "\<forall>q\<in>set xs. br_low q < br_low r" "\<forall>q\<in>set ys. br_low r \<le> br_low q"
    and bs: "binary_search_by (\<lambda>q. nat_cmp (br_low q) (br_low r)) t
      = (case ys of q # _ \<Rightarrow> if br_low q = br_low r then Ok (length xs) else Err (length xs) | [] \<Rightarrow> Err (length xs))"
    using tree_split [OF assms(1)] by blast
  have pos: "found_or_insertion (binary_search_by (\<lambda>q. nat_cmp (br_low q) (br_low r)) t) = length xs"
    unfolding bs by (cases ys) simp_all
  have ok: "sorted_wrt before xs" "sorted_wrt before ys" "\<forall>q\<in>set xs. \<forall>q'\<in>set ys. before q q'" "list_all range_ok xs" "list_all range_ok ys"
    using assms(1) unfolding tree_ok_def t(1) by (auto simp: sorted_wrt_append)
  have left: "list_all (disjoint r) xs \<longleftrightarrow> (\<forall>q\<in>set xs. before q r)" "(\<forall>q\<in>set xs. before q r) \<longleftrightarrow> \<not> (length xs > 0 \<and> br_high (t ! (length xs - 1)) > br_low r)"
    using left_neighbour_decides [OF ok(1,4) assms(2) t(2)] t(1) by (auto simp: last_conv_nth nth_append before_def)
  have right: "list_all (disjoint r) ys \<longleftrightarrow> (\<forall>q\<in>set ys. before r q)" "(\<forall>q\<in>set ys. before r q) \<longleftrightarrow> \<not> (length xs < length t \<and> br_high r > br_low (t ! length xs))"
    using right_neighbour_decides [OF ok(2,5) t(3)] t(1) by (auto simp: hd_conv_nth nth_append before_def)
  have "tree_insert t r = (if list_all (disjoint r) t then Ok (xs @ r # ys) else Err (InvalidRange (br_low r) (br_high r)))"
    unfolding tree_insert_def Let_def pos using left right t(1) by simp
  moreover have "tree_ok (xs @ r # ys)" if "list_all (disjoint r) t"
    using that ok left(1) right(1) assms(2) t(1) by (auto simp: tree_ok_def sorted_wrt_append)
  ultimately show ?thesis using t(1) by auto
qed

lemma find_append: "find P (xs @ ys) = (case find P xs of Some x \<Rightarrow> Some x | None \<Rightarrow> find P ys)"
  by (induction xs) auto

lemma find_none: "\<forall>x\<in>set xs. \<not> P x \<Longrightarrow> find P xs = None"
  by (simp add: find_None_iff)

lemma tree_lookup_exact:
  assumes "tree_ok t"
  shows "tree_lookup t b = find (\<lambda>r. range_contains r b) t"
proof -
  let ?p = "prefix_8 b"
  obtain xs ys where t: "t = xs @ ys" "\<forall>q\<in>set xs. br_low q < ?p" "\<forall>q\<in>set ys. ?p \<le> br_low q"
    and bs: "binary_search_by (\<lambda>q. nat_cmp (br_low q) ?p) t
      = (case ys of q # _ \<Rightarrow> if br_low q = ?p then Ok (length xs) else Err (length xs) | [] \<Rightarrow> Err (length xs))"
    using tree_split [OF assms] by blast
  have ok: "sorted_wrt before xs" "list_all range_ok ys" "sorted_wrt before ys" "\<forall>q\<in>set xs. \<forall>q'\<in>set ys. before q q'"
    using assms unfolding tree_ok_def t(1) by (auto simp: sorted_wrt_append)
  show ?thesis
  proof (cases "\<exists>q zs. ys = q # zs \<and> br_low q = ?p")
    case True
    then obtain q zs where q: "ys = q # zs" "br_low q = ?p" by blast
    then have "\<forall>x\<in>set xs. \<not> range_contains x b" "range_contains q b"
      using ok(2,4) by (auto simp: range_contains_def before_def range_ok_def)
    then show ?thesis using q t(1) bs by (simp add: tree_lookup_def find_append find_none nth_append)
  next
    case False
    then have "binary_search_by (\<lambda>q. nat_cmp (br_low q) ?p) t = Err (length xs)" using bs by (auto split: list.splits)
    then have lk: "tree_lookup t b = (if xs = [] then None else if range_contains (last xs) b then Some (last xs) else None)"
      using t(1) by (cases xs rule: rev_cases) (auto simp: tree_lookup_def Let_def nth_append)
    have "\<forall>q\<in>set ys. ?p < br_low q"
    proof (cases ys)
      case (Cons y zs)
      then have "?p < br_low y" "br_low y < br_high y" "\<forall>q\<in>set zs. br_high y \<le> br_low q"
        using False ok(2,3) t(3) by (auto simp: before_def range_ok_def)
      then show ?thesis using Cons by auto
    qed simp
    then have ys: "find (\<lambda>r. range_contains r b) ys = None" by (intro find_none) (auto simp: range_contains_def)
    show ?thesis
    proof (cases xs rule: rev_cases)
      case Nil
      then show ?thesis using lk ys t(1) by simp
    next
      case (snoc zs z)
      then have "\<forall>x\<in>set zs. \<not> range_contains x b" using ok(1) t(2) by (fastforce simp: sorted_wrt_append before_def range_contains_def)
      then show ?thesis using lk ys snoc t(1) by (simp add: find_append find_none)
    qed
  qed
qed

lemma insert_all_exact:
  assumes "tree_ok t" and "list_all range_ok rs"
  shows "if sorted_wrt disjoint rs \<and> (\<forall>r\<in>set rs. list_all (disjoint r) t)
    then \<exists>t'. insert_all rs t = Ok t' \<and> tree_ok t' \<and> set t' = set rs \<union> set t
    else \<exists>r\<in>set rs. insert_all rs t = Err (InvalidRange (br_low r) (br_high r))"
  using assms
proof (induction rs arbitrary: t)
  case (Cons r rs)
  have r: "range_ok r" "list_all range_ok rs" using Cons.prems(2) by simp_all
  show ?case
  proof (cases "list_all (disjoint r) t")
    case True
    then obtain t' where t': "tree_insert t r = Ok t'" "tree_ok t'" "set t' = insert r (set t)"
      using tree_insert_exact [OF Cons.prems(1) r(1)] by auto
    have "(\<forall>q\<in>set rs. list_all (disjoint q) t') \<longleftrightarrow> (\<forall>q\<in>set rs. disjoint r q) \<and> (\<forall>q\<in>set rs. list_all (disjoint q) t)"
      unfolding list_all_iff t'(3) by (auto simp: disjoint_def)
    then show ?thesis using Cons.IH [OF t'(2) r(2)] t'(1,3) True by (auto simp del: rbind_eq_Ok split: if_splits)
  next
    case False
    then show ?thesis using tree_insert_exact [OF Cons.prems(1) r(1)] by auto
  qed
qed simp

lemma tree_unique:
  assumes "tree_ok t" and "q \<in> set t" and "r \<in> set t" and "range_contains q b" and "range_contains r b"
  shows "q = r"
proof -
  obtain i j where ij: "i < length t" "j < length t" "q = t ! i" "r = t ! j" using assms(2,3) by (auto simp: in_set_conv_nth)
  have "\<not> i < j" "\<not> j < i"
    using assms(1,4,5) ij unfolding tree_ok_def sorted_wrt_iff_nth_less by (force simp: before_def range_contains_def)+
  then show ?thesis using ij by simp
qed

lemma find_same_set:
  assumes "set xs = set ys" and "\<And>x y. x \<in> set xs \<Longrightarrow> y \<in> set xs \<Longrightarrow> P x \<Longrightarrow> P y \<Longrightarrow> x = y"
  shows "find P xs = find P ys"
proof (cases "find P ys")
  case None
  then have "find P xs = None" using assms(1) by (simp add: find_None_iff)
  then show ?thesis using None by simp
next
  case (Some y)
  then have y: "y \<in> set ys" "P y" by (auto simp: find_Some_iff)
  then have "find P xs \<noteq> None" using assms(1) by (auto simp: find_None_iff)
  then obtain x where x: "find P xs = Some x" by blast
  then have "x \<in> set xs" "P x" by (auto simp: find_Some_iff)
  then show ?thesis using x y Some assms by auto
qed

lemma tree_lookup_scan: "tree_ok t \<Longrightarrow> set t = set rs \<Longrightarrow> tree_lookup t b = find (\<lambda>r. range_contains r b) rs"
  unfolding tree_lookup_exact by (rule find_same_set) (auto dest: tree_unique)

text \<open>
  C35.  Range trees are exact: from nonempty intervals a tree is built if and only if they are pairwise disjoint, and is refused
  with the bounds of an offending interval otherwise.  A tree that is built is sorted and disjoint, and its lookup finds the interval that contains the prefix, or
  nothing when there is none: binary search and a linear scan of the given list agree on every prefix.
\<close>

theorem range_tree_exact:
  assumes "list_all (\<lambda>r. br_low r < br_high r) rs"
  shows "if sorted_wrt (\<lambda>q r. br_high q \<le> br_low r \<or> br_high r \<le> br_low q) rs
    then \<exists>t. from_ranges rs = Ok t \<and> sorted_wrt (\<lambda>q r. br_high q \<le> br_low r) t \<and> set t = set rs
      \<and> (\<forall>b. tree_lookup t b = find (\<lambda>r. range_contains r b) rs)
    else \<exists>r\<in>set rs. from_ranges rs = Err (InvalidRange (br_low r) (br_high r))"
proof -
  have e: "(\<lambda>q r. br_high q \<le> br_low r \<or> br_high r \<le> br_low q) = disjoint" "(\<lambda>q r. br_high q \<le> br_low r) = before"
    "(\<lambda>r. br_low r < br_high r) = range_ok"
    by (auto simp: disjoint_def before_def range_ok_def fun_eq_iff)
  have "tree_ok []" by (simp add: tree_ok_def)
  from insert_all_exact [OF this assms [unfolded e]] show ?thesis
    unfolding e from_ranges_def by (auto simp: tree_ok_def intro: tree_lookup_scan [unfolded tree_ok_def] split: if_splits)
qed

definition sample_range :: "nat \<Rightarrow> nat \<Rightarrow> bin_range" where
  "sample_range low high = \<lparr>br_low = low, br_high = high, br_network = Visa, br_card_type = Credit, br_country = None, br_durbin_regulated = False\<rparr>"

theorem range_tree_exact_witness:
  "\<exists>t. from_ranges [sample_range 50 60, sample_range 10 20, sample_range 20 30] = Ok t
    \<and> tree_lookup t \<lparr>prefix_8 = 20, bin_length = 8\<rparr> = Some (sample_range 20 30) \<and> tree_lookup t \<lparr>prefix_8 = 40, bin_length = 8\<rparr> = None"
proof -
  let ?rs = "[sample_range 50 60, sample_range 10 20, sample_range 20 30]"
  have ok: "list_all (\<lambda>r. br_low r < br_high r) ?rs" and d: "sorted_wrt (\<lambda>q r. br_high q \<le> br_low r \<or> br_high r \<le> br_low q) ?rs"
    by (simp_all add: sample_range_def)
  obtain t where "from_ranges ?rs = Ok t" "\<forall>b. tree_lookup t b = find (\<lambda>r. range_contains r b) ?rs"
    using range_tree_exact [OF ok, unfolded if_P [OF d]] by blast
  then show ?thesis by (simp add: sample_range_def range_contains_def)
qed

section \<open>The two classifications agree\<close>

definition row_range :: "table_row \<Rightarrow> bin_range" where
  "row_range = (\<lambda>(low, high, net, ct, country, durbin).
     \<lparr>br_low = low, br_high = high, br_network = net, br_card_type = ct, br_country = country, br_durbin_regulated = durbin\<rparr>)"

definition table :: "table_row list" where
  "table = concat [VISA, MASTERCARD, AMEX, DISCOVER, JCB, DINERS_CLUB, UNIONPAY, RUPAY, MAESTRO, ELO, MIR, TROY]"

lemmas table_defs = table_def VISA_def MASTERCARD_def AMEX_def DISCOVER_def JCB_def DINERS_CLUB_def UNIONPAY_def RUPAY_def
  MAESTRO_def ELO_def MIR_def TROY_def

lemma load_rows_eq:
  "list_all (\<lambda>row. fst row < fst (snd row)) rows \<Longrightarrow> load_rows rows t = insert_all (map row_range rows) t"
proof (induction rows arbitrary: t)
  case (Cons row rows)
  then have "load_rows rows = insert_all (map row_range rows)" by (simp add: fun_eq_iff)
  then show ?case using Cons.prems by (cases row) (simp add: range_new_def row_range_def)
qed simp

lemma table_ranges: "list_all (\<lambda>row. fst row < fst (snd row)) table" "sorted_wrt disjoint (map row_range table)" "list_all range_ok (map row_range table)"
  by (simp_all add: table_defs row_range_def disjoint_def before_def range_ok_def)

lemma default_tree: "\<exists>t. build_default_tree = Ok t \<and> (\<forall>b. tree_lookup t b = find (\<lambda>r. range_contains r b) (map row_range table))"
proof -
  have "tree_ok []" by (simp add: tree_ok_def)
  from insert_all_exact [OF this table_ranges(3)] table_ranges(2) obtain t
    where "insert_all (map row_range table) [] = Ok t" "tree_ok t" "set t = set (map row_range table)"
    by auto
  then show ?thesis using load_rows_eq [OF table_ranges(1), of "[]"] tree_lookup_scan
    by (auto simp: build_default_tree_def table_def)
qed

lemma leading_digits:
  assumes "0 < k"
  shows "n \<le> p div k \<longleftrightarrow> n * k \<le> p" and "p div k \<le> n \<longleftrightarrow> p < Suc n * k" and "p div k = n \<longleftrightarrow> n * k \<le> p \<and> p < Suc n * (k :: nat)"
proof -
  show 1: "n \<le> p div k \<longleftrightarrow> n * k \<le> p" by (rule less_eq_div_iff_mult_less_eq [OF assms])
  show 2: "p div k \<le> n \<longleftrightarrow> p < Suc n * k" using div_less_iff_less_mult [OF assms, of p "Suc n"] by (simp only: less_Suc_eq_le)
  show "p div k = n \<longleftrightarrow> n * k \<le> p \<and> p < Suc n * k" using 1 2 by (metis order_antisym order_refl)
qed

text \<open>Each rule on leading digits is an interval of prefixes.\<close>

lemma rule_intervals:
  fixes p :: nat
  shows
  "p div 10000000 = 4 \<longleftrightarrow> 40000000 \<le> p \<and> p < 50000000" "p div 1000000 = 34 \<longleftrightarrow> 34000000 \<le> p \<and> p < 35000000"
  "p div 1000000 = 37 \<longleftrightarrow> 37000000 \<le> p \<and> p < 38000000" "p div 1000000 = 65 \<longleftrightarrow> 65000000 \<le> p \<and> p < 66000000"
  "p div 1000000 = 36 \<longleftrightarrow> 36000000 \<le> p \<and> p < 37000000" "p div 1000000 = 38 \<longleftrightarrow> 38000000 \<le> p \<and> p < 39000000"
  "p div 1000000 = 39 \<longleftrightarrow> 39000000 \<le> p \<and> p < 40000000" "p div 1000000 = 62 \<longleftrightarrow> 62000000 \<le> p \<and> p < 63000000"
  "p div 1000000 = 60 \<longleftrightarrow> 60000000 \<le> p \<and> p < 61000000" "p div 1000000 = 81 \<longleftrightarrow> 81000000 \<le> p \<and> p < 82000000"
  "p div 1000000 = 82 \<longleftrightarrow> 82000000 \<le> p \<and> p < 83000000" "51 \<le> p div 1000000 \<and> p div 1000000 \<le> 55 \<longleftrightarrow> 51000000 \<le> p \<and> p < 56000000"
  "644 \<le> p div 100000 \<and> p div 100000 \<le> 649 \<longleftrightarrow> 64400000 \<le> p \<and> p < 65000000" "300 \<le> p div 100000 \<and> p div 100000 \<le> 305 \<longleftrightarrow> 30000000 \<le> p \<and> p < 30600000"
  "p div 100000 = 309 \<longleftrightarrow> 30900000 \<le> p \<and> p < 31000000" "2221 \<le> p div 10000 \<and> p div 10000 \<le> 2720 \<longleftrightarrow> 22210000 \<le> p \<and> p < 27210000"
  "3528 \<le> p div 10000 \<and> p div 10000 \<le> 3589 \<longleftrightarrow> 35280000 \<le> p \<and> p < 35900000" "2200 \<le> p div 10000 \<and> p div 10000 \<le> 2204 \<longleftrightarrow> 22000000 \<le> p \<and> p < 22050000"
  "p div 10000 = 6011 \<longleftrightarrow> 60110000 \<le> p \<and> p < 60120000" "p div 10000 = 9792 \<longleftrightarrow> 97920000 \<le> p \<and> p < 97930000"
  "p div 10000 = 5018 \<longleftrightarrow> 50180000 \<le> p \<and> p < 50190000" "p div 10000 = 5020 \<longleftrightarrow> 50200000 \<le> p \<and> p < 50210000"
  "p div 10000 = 5038 \<longleftrightarrow> 50380000 \<le> p \<and> p < 50390000" "p div 10000 = 5612 \<longleftrightarrow> 56120000 \<le> p \<and> p < 56130000"
  "p div 10000 = 5893 \<longleftrightarrow> 58930000 \<le> p \<and> p < 58940000" "p div 10000 = 6304 \<longleftrightarrow> 63040000 \<le> p \<and> p < 63050000"
  "p div 10000 = 6759 \<longleftrightarrow> 67590000 \<le> p \<and> p < 67600000" "p div 10000 = 6761 \<longleftrightarrow> 67610000 \<le> p \<and> p < 67620000"
  "p div 10000 = 6762 \<longleftrightarrow> 67620000 \<le> p \<and> p < 67630000" "p div 10000 = 6763 \<longleftrightarrow> 67630000 \<le> p \<and> p < 67640000"
  "p div 10000 = 4011 \<longleftrightarrow> 40110000 \<le> p \<and> p < 40120000" "p div 10000 = 4312 \<longleftrightarrow> 43120000 \<le> p \<and> p < 43130000"
  "p div 10000 = 4389 \<longleftrightarrow> 43890000 \<le> p \<and> p < 43900000" "p div 10000 = 4514 \<longleftrightarrow> 45140000 \<le> p \<and> p < 45150000"
  "p div 10000 = 5041 \<longleftrightarrow> 50410000 \<le> p \<and> p < 50420000" "p div 10000 = 5066 \<longleftrightarrow> 50660000 \<le> p \<and> p < 50670000"
  "p div 10000 = 5067 \<longleftrightarrow> 50670000 \<le> p \<and> p < 50680000" "p div 10000 = 5090 \<longleftrightarrow> 50900000 \<le> p \<and> p < 50910000"
  "p div 10000 = 6277 \<longleftrightarrow> 62770000 \<le> p \<and> p < 62780000" "p div 10000 = 6362 \<longleftrightarrow> 63620000 \<le> p \<and> p < 63630000"
  "p div 10000 = 6363 \<longleftrightarrow> 63630000 \<le> p \<and> p < 63640000" "p div 10000 = 6504 \<longleftrightarrow> 65040000 \<le> p \<and> p < 65050000"
  "p div 10000 = 6505 \<longleftrightarrow> 65050000 \<le> p \<and> p < 65060000" "622126 \<le> p div 100 \<and> p div 100 \<le> 622925 \<longleftrightarrow> 62212600 \<le> p \<and> p < 62292600"
  by (auto simp: leading_digits)

lemma classify_in_row:
  assumes "row \<in> set table" and "range_contains (row_range row) b"
  shows "classify b = br_network (row_range row)"
  using assms unfolding classify_def Let_def
  by (simp only: rule_intervals insert_iff empty_iff simp_thms, simp add: table_defs, elim disjE)
    (simp_all add: row_range_def range_contains_def, linarith+)

lemma classify_off_table:
  assumes "\<forall>row\<in>set table. \<not> range_contains (row_range row) b"
  shows "classify b = (if prefix_8 b div 10000 \<in> {5041, 5066, 5067, 5090} then Elo else UnknownNetwork)"
  using assms unfolding classify_def Let_def
  by (simp only: rule_intervals insert_iff empty_iff simp_thms, simp add: table_defs row_range_def range_contains_def, elim conjE, intro conjI impI notI)
    simp_all

text \<open>
  The fast path and the table agree: the built-in table loads without an overlap, and for every prefix the network that the rules on
  leading digits give is the one of the interval found in the table; where the table has none, the rules answer Elo for the prefixes 5041, 5066, 5067 and 5090
  and Unknown otherwise.
\<close>

theorem classify_agrees_with_table:
  "\<exists>t. build_default_tree = Ok t \<and> (\<forall>b. classify b = (case tree_lookup t b of
      Some r \<Rightarrow> br_network r
    | None \<Rightarrow> if prefix_8 b div 10000 \<in> {5041, 5066, 5067, 5090} then Elo else UnknownNetwork))"
proof -
  obtain t where t: "build_default_tree = Ok t" "\<And>b. tree_lookup t b = find (\<lambda>r. range_contains r b) (map row_range table)"
    using default_tree by blast
  have "classify b = (case find (\<lambda>r. range_contains r b) (map row_range table) of Some r \<Rightarrow> br_network r
      | None \<Rightarrow> if prefix_8 b div 10000 \<in> {5041, 5066, 5067, 5090} then Elo else UnknownNetwork)" for b
  proof (cases "find (\<lambda>r. range_contains r b) (map row_range table)")
    case None
    then have "\<forall>row\<in>set table. \<not> range_contains (row_range row) b" by (auto simp: find_None_iff)
    then show ?thesis using classify_off_table None by simp
  next
    case (Some r)
    then have "r \<in> set (map row_range table)" "range_contains r b" by (metis find_Some_iff nth_mem)+
    then obtain row where "row \<in> set table" "r = row_range row" unfolding set_map by blast
    then show ?thesis using classify_in_row \<open>range_contains r b\<close> Some by simp
  qed
  then show ?thesis using t by auto
qed

text \<open>The Elo prefixes inside the ranges of Visa and Discover are classified as those networks: the rules of \<^verbatim>\<open>classify\<close> for them are never reached.\<close>

lemma elo_prefixes_shadowed:
  "prefix_8 b div 10000 \<in> {4011, 4312, 4389, 4514} \<Longrightarrow> classify b = Visa"
  "prefix_8 b div 10000 \<in> {6504, 6505} \<Longrightarrow> classify b = Discover"
  "prefix_8 b div 10000 = 6277 \<Longrightarrow> classify b = UnionPay"
proof -
  have rows: "(40000000, 50000000, Visa, Credit, ANY, False) \<in> set table" "(65000000, 66000000, Discover, Credit, US, False) \<in> set table"
    "(62292600, 63000000, UnionPay, Credit, CN, False) \<in> set table"
    by (simp_all add: table_defs)
  note cls = rows [THEN classify_in_row, of b, unfolded row_range_def range_contains_def, simplified]
  show "prefix_8 b div 10000 \<in> {4011, 4312, 4389, 4514} \<Longrightarrow> classify b = Visa"
    by (rule cls(1)) (auto simp: rule_intervals)
  show "prefix_8 b div 10000 \<in> {6504, 6505} \<Longrightarrow> classify b = Discover"
    by (rule cls(2)) (auto simp: rule_intervals)
  show "prefix_8 b div 10000 = 6277 \<Longrightarrow> classify b = UnionPay"
    by (rule cls(3)) (auto simp: rule_intervals)
qed

end
