(* ===== verification/Webhook_Signing.thy ===== *)
theory Webhook_Signing
  imports Bytes Money
begin

text \<open>
  \<^verbatim>\<open>op-webhook/src/hexutil.rs\<close>, \<^verbatim>\<open>signing.rs\<close> and \<^verbatim>\<open>error.rs\<close>.  HMAC-SHA256 is third-party code: it is the argument \<open>hmac\<close>, a
  function of key and message; its constructor accepts keys of every length.  A Rust string is its bytes.

  Shown: hexadecimal reads back; a header built by the dispatcher parses to its parts; signing and verifying fit together; what
  a successful verification guarantees about time stamp and body.
\<close>

datatype webhook_error =
    EndpointNotFound uuid
  | EventNotFound uuid
  | AttemptNotFound uuid
  | Transport string
  | InvalidUrl string
  | EndpointDisabled string
  | RetryExhausted nat
  | SignatureMismatch
  | MalformedSignature string
  | TimestampOutOfTolerance int
  | InvalidInput string
  | WebhookCore core_error

section \<open>Hexadecimal\<close>

definition hex_digit :: "byte \<Rightarrow> char" where
  "hex_digit n = ''0123456789abcdef'' ! unat n"

definition hex_encode :: "byte list \<Rightarrow> string" where
  "hex_encode bytes = concat (map (\<lambda>b. [hex_digit (drop_bit 4 b), hex_digit (b AND 0x0F)]) bytes)"

definition hex_val :: "byte \<Rightarrow> (byte, unit) result" where
  "hex_val c =
     (if 0x30 \<le> c \<and> c \<le> 0x39 then Ok (c - 0x30)
      else if 0x61 \<le> c \<and> c \<le> 0x66 then Ok (c - 0x61 + 10)
      else if 0x41 \<le> c \<and> c \<le> 0x46 then Ok (c - 0x41 + 10)
      else Err ())"

fun hex_decode_loop :: "string \<Rightarrow> (byte list, unit) result" where
  "hex_decode_loop (a # b # cs) =
     rbind (hex_val (of_char a)) (\<lambda>hi. rbind (hex_val (of_char b)) (\<lambda>lo.
     rbind (hex_decode_loop cs) (\<lambda>out. Ok ((push_bit 4 hi OR lo) # out))))"
| "hex_decode_loop _ = Ok []"

definition hex_decode :: "string \<Rightarrow> (byte list, unit) result" where
  "hex_decode s = (if length s mod 2 \<noteq> 0 then Err () else hex_decode_loop s)"

section \<open>Strings\<close>

text \<open>\<^verbatim>\<open>str::split(',')\<close> and \<^verbatim>\<open>str::split_once('=')\<close>.\<close>

fun split_on :: "char \<Rightarrow> string \<Rightarrow> string list" where
  "split_on d [] = [[]]"
| "split_on d (c # cs) = (if c = d then [] # split_on d cs else (c # hd (split_on d cs)) # tl (split_on d cs))"

fun split_once :: "char \<Rightarrow> string \<Rightarrow> (string \<times> string) option" where
  "split_once d [] = None"
| "split_once d (c # cs) = (if c = d then Some ([], cs) else map_option (\<lambda>(k, v). (c # k, v)) (split_once d cs))"

text \<open>\<^verbatim>\<open>str::trim\<close>: the UTF-8 encodings of the characters with the property \<^verbatim>\<open>White_Space\<close>, stripped from both ends.\<close>

definition white_space :: "nat list list" where
  "white_space = map (\<lambda>c. [c]) [0x09, 0x0A, 0x0B, 0x0C, 0x0D, 0x20] @ [[0xC2, 0x85], [0xC2, 0xA0], [0xE1, 0x9A, 0x80]]
     @ map (\<lambda>c. [0xE2, 0x80, c]) ([0x80..<0x8B] @ [0xA8, 0xA9, 0xAF]) @ [[0xE2, 0x81, 0x9F], [0xE3, 0x80, 0x80]]"

definition leading_space :: "string \<Rightarrow> nat" where
  "leading_space s = (case List.find (\<lambda>w. take (length w) (map of_char s) = w) white_space of Some w \<Rightarrow> length w | None \<Rightarrow> 0)"

definition trailing_space :: "string \<Rightarrow> nat" where
  "trailing_space s =
     (case List.find (\<lambda>w. take (length w) (map of_char (rev s)) = rev w) white_space of Some w \<Rightarrow> length w | None \<Rightarrow> 0)"

lemma white_space_not_Nil: "w \<in> set white_space \<Longrightarrow> w \<noteq> []"
  by (auto simp: white_space_def)

lemma leading_space_le: "leading_space s \<le> length s"
proof (cases "List.find (\<lambda>w. take (length w) (map of_char s) = w) white_space")
  case (Some w)
  then have "take (length w) (map of_char s) = w" by (auto simp: find_Some_iff)
  then have "min (length s) (length w) = length w" by (metis length_map length_take)
  then show ?thesis using Some by (simp add: leading_space_def)
qed (simp add: leading_space_def)

lemma trailing_space_le: "trailing_space s \<le> length s"
proof (cases "List.find (\<lambda>w. take (length w) (map of_char (rev s)) = rev w) white_space")
  case (Some w)
  then have "take (length w) (map of_char (rev s)) = rev w" by (auto simp: find_Some_iff)
  then have "min (length s) (length w) = length w" by (metis length_map length_rev length_take)
  then show ?thesis using Some by (simp add: trailing_space_def)
qed (simp add: trailing_space_def)

lemma leading_space_shrinks: "0 < leading_space s \<Longrightarrow> length s - leading_space s < length s"
  using leading_space_le [of s] by linarith

lemma trailing_space_shrinks: "0 < trailing_space s \<Longrightarrow> length s - trailing_space s < length s"
  using trailing_space_le [of s] by linarith

function trim_start :: "string \<Rightarrow> string" where
  "trim_start s = (if 0 < leading_space s then trim_start (drop (leading_space s) s) else s)"
  by pat_completeness auto
termination
  by (relation "measure length") (simp_all add: leading_space_shrinks)

function trim_end :: "string \<Rightarrow> string" where
  "trim_end s = (if 0 < trailing_space s then trim_end (take (length s - trailing_space s) s) else s)"
  by pat_completeness auto
termination
  by (relation "measure length") (simp_all add: trailing_space_shrinks min_def not_le)

declare trim_start.simps [simp del] trim_end.simps [simp del]

definition trim :: "string \<Rightarrow> string" where
  "trim s = trim_end (trim_start s)"

text \<open>\<^verbatim>\<open>str::parse::<u64>\<close>: an optional plus sign, then decimal digits; the errors are rendered as the standard library does.\<close>

fun parse_u64_loop :: "nat \<Rightarrow> string \<Rightarrow> (nat, string) result" where
  "parse_u64_loop acc [] = Ok acc"
| "parse_u64_loop acc (c # cs) =
     (if \<not> is_ascii_digit c then Err ''invalid digit found in string''
      else if acc * 10 + digit_val c > u64_max then Err ''number too large to fit in target type''
      else parse_u64_loop (acc * 10 + digit_val c) cs)"

definition parse_u64 :: "string \<Rightarrow> (nat, string) result" where
  "parse_u64 s =
     (case s of
        [] \<Rightarrow> Err ''cannot parse integer from empty string''
      | c # cs \<Rightarrow> if c = CHR ''+'' \<and> cs \<noteq> [] then parse_u64_loop 0 cs else parse_u64_loop 0 s)"

section \<open>Signatures\<close>

definition SIGNATURE_HEADER :: string where
  "SIGNATURE_HEADER = ''OpenPay-Signature''"

definition DEFAULT_TIMESTAMP_TOLERANCE_SECS :: int where
  "DEFAULT_TIMESTAMP_TOLERANCE_SECS = 300"

record signed_payload =
  sp_timestamp :: nat
  sp_body :: "byte list"

definition to_bytes :: "signed_payload \<Rightarrow> byte list" where
  "to_bytes p = map of_char (show_nat (sp_timestamp p)) @ [of_char (CHR ''.'')] @ sp_body p"

definition compute_signature :: "(byte list \<Rightarrow> byte list \<Rightarrow> byte list) \<Rightarrow> byte list \<Rightarrow> signed_payload \<Rightarrow> (string, webhook_error) result" where
  "compute_signature hmac secret payload =
     (if secret = [] then Err (InvalidInput ''signing secret is empty'') else Ok (hex_encode (hmac secret (to_bytes payload))))"

definition build_signature_header :: "nat \<Rightarrow> string \<Rightarrow> string" where
  "build_signature_header timestamp signature_hex = ''t='' @ show_nat timestamp @ '',v1='' @ signature_hex"

fun parse_parts :: "string list \<Rightarrow> nat option \<Rightarrow> string list \<Rightarrow> (nat option \<times> string list, webhook_error) result" where
  "parse_parts [] timestamp sigs = Ok (timestamp, sigs)"
| "parse_parts (p # ps) timestamp sigs =
     (let part = trim p in
      case split_once (CHR ''='') part of
        None \<Rightarrow> Err (MalformedSignature (''part lacks '' @ [CHR 0x27] @ ''='' @ [CHR 0x27] @ '': '' @ part))
      | Some (k, v) \<Rightarrow>
          if k = ''t'' then
            rbind (map_err (\<lambda>e. MalformedSignature (''bad timestamp: '' @ e)) (parse_u64 v)) (\<lambda>ts. parse_parts ps (Some ts) sigs)
          else if k = ''v1'' then parse_parts ps timestamp (sigs @ [v])
          else parse_parts ps timestamp sigs)"

definition parse_signature_header :: "string \<Rightarrow> (nat \<times> string list, webhook_error) result" where
  "parse_signature_header header =
     rbind (parse_parts (split_on (CHR '','') header) None []) (\<lambda>(timestamp, sigs).
     rbind (ok_or timestamp (MalformedSignature ''missing t='')) (\<lambda>timestamp.
       if sigs = [] then Err (MalformedSignature ''no v1= signatures'') else Ok (timestamp, sigs)))"

text \<open>\<^verbatim>\<open>as i64\<close>: reinterpretation of a 64-bit value.\<close>

definition as_i64 :: "nat \<Rightarrow> int" where
  "as_i64 n = (let m = int n mod 2 ^ 64 in if m < 2 ^ 63 then m else m - 2 ^ 64)"

definition verify_signature ::
    "(byte list \<Rightarrow> byte list \<Rightarrow> byte list) \<Rightarrow> byte list \<Rightarrow> byte list \<Rightarrow> string \<Rightarrow> nat \<Rightarrow> int \<Rightarrow> (unit, webhook_error) result" where
  "verify_signature hmac secret body header now tolerance_secs =
     rbind (parse_signature_header header) (\<lambda>(ts, sigs).
     rbind (i64_val (as_i64 now - as_i64 ts)) (\<lambda>delta.
     rbind (i64_val \<bar>delta\<bar>) (\<lambda>dist.
       if dist > tolerance_secs then Err (TimestampOutOfTolerance delta)
       else rbind (compute_signature hmac secret \<lparr>sp_timestamp = ts, sp_body = body\<rparr>) (\<lambda>expected.
         if list_ex (\<lambda>sig. length sig = length expected \<and> sig = expected) sigs then Ok () else Err SignatureMismatch))))"

section \<open>Hexadecimal and numbers read back\<close>

lemma hex_val_digit: "unat n < 16 \<Longrightarrow> hex_val (of_char (hex_digit n)) = Ok n"
proof -
  assume n: "unat n < 16"
  have "hex_val (of_char (hex_digit (of_nat (unat n)))) = Ok (of_nat (unat n))"
    by (rule all_nibbles [OF _ n]) (simp add: hex_digit_def hex_val_def)
  then show ?thesis by simp
qed

lemma hex_encode_length [simp]: "length (hex_encode bs) = 2 * length bs"
  by (induction bs) (simp_all add: hex_encode_def)

lemma hex_round_trip: "hex_decode (hex_encode bs) = Ok bs"
proof -
  have "hex_decode_loop (hex_encode bs) = Ok bs"
    by (induction bs) (simp_all add: hex_encode_def hex_val_digit nibble_bounds nibbles_join)
  then show ?thesis by (simp add: hex_decode_def)
qed

lemma hex_encode_inj: "hex_encode a = hex_encode b \<longleftrightarrow> a = b"
  by (metis hex_round_trip result.inject(1))

lemma foldl_digits_ge: "acc \<le> foldl (\<lambda>acc c. acc * 10 + digit_val c) acc s"
proof (induction s arbitrary: acc)
  case (Cons c s)
  show ?case using Cons [of "acc * 10 + digit_val c"] by simp
qed simp

lemma parse_u64_loop_digits:
  assumes "list_all is_ascii_digit s" and "foldl (\<lambda>acc c. acc * 10 + digit_val c) acc s \<le> u64_max"
  shows "parse_u64_loop acc s = Ok (foldl (\<lambda>acc c. acc * 10 + digit_val c) acc s)"
  using assms
proof (induction s arbitrary: acc)
  case (Cons c s)
  then show ?case using foldl_digits_ge [of "acc * 10 + digit_val c" s] by simp
qed simp

lemma show_nat_not_Nil: "show_nat n \<noteq> []"
  by (subst show_nat.simps) simp

lemma parse_u64_show: "n \<le> u64_max \<Longrightarrow> parse_u64 (show_nat n) = Ok n"
proof -
  assume n: "n \<le> u64_max"
  obtain c cs where c: "show_nat n = c # cs" using show_nat_not_Nil by (cases "show_nat n") blast+
  have d: "list_all is_ascii_digit (show_nat n)" by (rule show_nat_is_digits)
  then have "c \<noteq> CHR ''+''" using c by (auto simp: is_ascii_digit_def)
  moreover have "parse_u64_loop 0 (show_nat n) = Ok n"
    using parse_u64_loop_digits [OF d, of 0] n by (simp add: read_nat_def [symmetric])
  ultimately show ?thesis by (simp add: parse_u64_def c)
qed

section \<open>The header reads back\<close>

lemma split_on_part: "d \<notin> set a \<Longrightarrow> split_on d (a @ d # b) = a # split_on d b"
  by (induction a) auto

lemma split_on_last: "d \<notin> set a \<Longrightarrow> split_on d a = [a]"
  by (induction a) auto

definition graphic :: "char \<Rightarrow> bool" where
  "graphic c \<longleftrightarrow> 33 \<le> (of_char c :: nat) \<and> (of_char c :: nat) \<le> 126"

lemma white_space_ends:
  assumes "w \<in> set white_space"
  shows "w \<noteq> []" and "\<not> (33 \<le> hd w \<and> hd w \<le> 126)" and "\<not> (33 \<le> hd (rev w) \<and> hd (rev w) \<le> 126)"
  using assms by (auto simp: white_space_def)

lemma trim_graphic:
  assumes "s \<noteq> []" and "graphic (hd s)" and "graphic (List.last s)"
  shows "trim s = s"
proof -
  have "List.find (\<lambda>w. take (length w) (map of_char s) = w) white_space = None"
    unfolding find_None_iff
  proof
    assume "\<exists>w. w \<in> set white_space \<and> take (length w) (map of_char s) = w"
    then obtain w where w: "w \<in> set white_space" "take (length w) (map of_char s) = w" by blast
    then have "hd w = of_char (hd s)" using white_space_ends(1) [OF w(1)] assms(1) by (metis hd_map hd_take length_greater_0_conv)
    then show False using white_space_ends(2) [OF w(1)] assms(2) by (simp add: graphic_def)
  qed
  then have l: "leading_space s = 0" by (simp add: leading_space_def)
  have "List.find (\<lambda>w. take (length w) (map of_char (rev s)) = rev w) white_space = None"
    unfolding find_None_iff
  proof
    assume "\<exists>w. w \<in> set white_space \<and> take (length w) (map of_char (rev s)) = rev w"
    then obtain w where w: "w \<in> set white_space" "take (length w) (map of_char (rev s)) = rev w" by blast
    then have "hd (rev w) = of_char (hd (rev s))"
      using white_space_ends(1) [OF w(1)] assms(1) by (metis hd_map hd_take length_greater_0_conv rev_is_Nil_conv)
    then show False using white_space_ends(3) [OF w(1)] assms(3) by (simp add: graphic_def hd_rev)
  qed
  then have "trailing_space s = 0" by (simp add: trailing_space_def)
  then show ?thesis using l by (simp add: trim_def trim_start.simps [of s] trim_end.simps [of s])
qed

lemma digits_graphic: "list_all is_ascii_digit s \<Longrightarrow> list_all graphic s"
  by (auto simp: list_all_iff is_ascii_digit_def graphic_def)

lemma hex_digit_graphic: "unat n < 16 \<Longrightarrow> graphic (hex_digit n) \<and> hex_digit n \<noteq> CHR '',''"
proof -
  assume n: "unat n < 16"
  have "graphic (hex_digit (of_nat (unat n))) \<and> hex_digit (of_nat (unat n)) \<noteq> CHR '',''"
    by (rule all_nibbles [OF _ n]) (simp add: hex_digit_def graphic_def)
  then show ?thesis by simp
qed

lemma hex_encode_graphic: "list_all (\<lambda>c. graphic c \<and> c \<noteq> CHR '','') (hex_encode bs)"
  by (induction bs) (simp_all add: hex_encode_def hex_digit_graphic nibble_bounds)

lemma trim_part: "list_all graphic s \<Longrightarrow> s \<noteq> [] \<Longrightarrow> trim s = s"
  by (rule trim_graphic) (auto simp: list_all_iff)

lemma header_reads_back:
  assumes "ts \<le> u64_max"
  shows "parse_signature_header (build_signature_header ts (hex_encode bs)) = Ok (ts, [hex_encode bs])"
proof -
  let ?t = "''t='' @ show_nat ts" and ?v = "''v1='' @ hex_encode bs"
  have d: "list_all graphic (show_nat ts)" "CHR '','' \<notin> set (show_nat ts)"
    using show_nat_is_digits [of ts] digits_graphic by (auto simp: list_all_iff is_ascii_digit_def)
  have h: "list_all graphic (hex_encode bs)" "CHR '','' \<notin> set (hex_encode bs)"
    using hex_encode_graphic [of bs] by (auto simp: list_all_iff)
  have "build_signature_header ts (hex_encode bs) = ?t @ CHR '','' # ?v" by (simp add: build_signature_header_def)
  then have "split_on (CHR '','') (build_signature_header ts (hex_encode bs)) = [?t, ?v]"
    using d(2) h(2) by (simp only: split_on_part split_on_last set_append) (simp add: split_on_part split_on_last)
  moreover have "trim ?t = ?t" "trim ?v = ?v" using d(1) h(1) by (intro trim_part; simp add: graphic_def)+
  moreover have "split_once (CHR ''='') ?t = Some (''t'', show_nat ts)" "split_once (CHR ''='') ?v = Some (''v1'', hex_encode bs)"
    by simp_all
  ultimately have "parse_parts (split_on (CHR '','') (build_signature_header ts (hex_encode bs))) None [] = Ok (Some ts, [hex_encode bs])"
    using parse_u64_show [OF assms] by (simp only: parse_parts.simps Let_def option.case prod.case map_err.simps rbind.simps) simp
  then show ?thesis by (simp add: parse_signature_header_def)
qed

section \<open>What verification guarantees\<close>

lemma as_i64_small: "n < 2 ^ 63 \<Longrightarrow> as_i64 n = int n"
  by (simp add: as_i64_def Let_def)

lemma verify_eq:
  assumes "secret \<noteq> []" and "parse_signature_header header = Ok (ts, sigs)" and "ts < 2 ^ 63" and "now < 2 ^ 63"
  shows "verify_signature hmac secret body header now tol =
    (if \<bar>int now - int ts\<bar> > tol then Err (TimestampOutOfTolerance (int now - int ts))
     else if hex_encode (hmac secret (to_bytes \<lparr>sp_timestamp = ts, sp_body = body\<rparr>)) \<in> set sigs then Ok ()
     else Err SignatureMismatch)"
proof -
  have "in_i64 (int now - int ts)" "in_i64 \<bar>int now - int ts\<bar>" using assms(3,4) by (auto simp: in_i64_def abs_if)
  then show ?thesis using assms
    by (auto simp: verify_signature_def as_i64_small i64_val_def compute_signature_def list_ex_iff)
qed

text \<open>
  Signing and verifying fit together: the header built for a body at a time is accepted, for the same body and a non-empty secret,
  by every receiver whose clock is within the tolerance, and rejected as out of tolerance by every other.
\<close>

lemma signed_header_verifies:
  assumes "secret \<noteq> []" and "ts < 2 ^ 63" and "now < 2 ^ 63"
  shows "verify_signature hmac secret body
      (build_signature_header ts (hex_encode (hmac secret (to_bytes \<lparr>sp_timestamp = ts, sp_body = body\<rparr>)))) now tol =
    (if \<bar>int now - int ts\<bar> \<le> tol then Ok () else Err (TimestampOutOfTolerance (int now - int ts)))"
proof -
  have "ts \<le> u64_max" using assms(2) by simp
  from verify_eq [OF assms(1) header_reads_back [OF this] assms(2,3)] show ?thesis by auto
qed

lemma signed_accepted:
  assumes "secret \<noteq> []" and "ts < 2 ^ 63" and "now < 2 ^ 63" and "\<bar>int now - int ts\<bar> \<le> tol"
  shows "verify_signature hmac secret body
      (build_signature_header ts (hex_encode (hmac secret (to_bytes \<lparr>sp_timestamp = ts, sp_body = body\<rparr>)))) now tol = Ok ()"
  using signed_header_verifies [OF assms(1-3)] assms(4) by simp

lemma to_bytes_inj:
  assumes "to_bytes p = to_bytes q"
  shows "sp_timestamp p = sp_timestamp q \<and> sp_body p = sp_body q"
proof -
  have dot: "(of_char (CHR ''.'') :: byte) \<notin> set (map of_char (show_nat n))" for n
  proof
    assume "(of_char (CHR ''.'') :: byte) \<in> set (map of_char (show_nat n))"
    then obtain c where "c \<in> set (show_nat n)" "(of_char c :: byte) = of_char (CHR ''.'')" by auto
    then have "is_ascii_digit c" "(of_char c :: byte) = 46" using show_nat_is_digits [of n] by (auto simp: list_all_iff)
    moreover have "unat (of_char c :: byte) = of_char c" by (rule unat_of_char)
    ultimately show False by (simp add: is_ascii_digit_def)
  qed
  have "map of_char (show_nat (sp_timestamp p)) = (map of_char (show_nat (sp_timestamp q)) :: byte list) \<and> sp_body p = sp_body q"
    using assms append_sep_eq [OF dot dot] by (simp only: to_bytes_def append_Cons append_Nil)
  moreover have "inj (of_char :: char \<Rightarrow> byte)" by (rule injI) (metis unat_of_char of_char_eq_iff)
  ultimately show ?thesis by (metis inj_map_eq_map read_show_nat)
qed

text \<open>
  A signature is bound to its time and body: if the header computed for a time stamp and a body is accepted for some body, then that
  body is the signed one, or the two signed messages differ and collide under the HMAC.
\<close>

lemma accepted_body_is_signed:
  assumes "secret \<noteq> []" and "ts < 2 ^ 63" and "now < 2 ^ 63"
    and "compute_signature hmac secret \<lparr>sp_timestamp = ts, sp_body = body\<rparr> = Ok sig"
    and "verify_signature hmac secret body' (build_signature_header ts sig) now tol = Ok ()"
  defines "m \<equiv> to_bytes \<lparr>sp_timestamp = ts, sp_body = body\<rparr>" and "n \<equiv> to_bytes \<lparr>sp_timestamp = ts, sp_body = body'\<rparr>"
  shows "body' = body \<or> m \<noteq> n \<and> hmac secret m = hmac secret n"
proof -
  have s: "sig = hex_encode (hmac secret m)" using assms(1,4) by (simp add: compute_signature_def m_def)
  have "ts \<le> u64_max" using assms(2) by simp
  note p = header_reads_back [OF this, of "hmac secret m"]
  have "hex_encode (hmac secret n) = hex_encode (hmac secret m)"
    using assms(5) verify_eq [OF assms(1) p assms(2,3), of hmac body' tol] unfolding s n_def by (auto split: if_splits)
  then have "hmac secret m = hmac secret n" by (simp add: hex_encode_inj)
  moreover have "m = n \<Longrightarrow> body = body'" unfolding m_def n_def by (drule to_bytes_inj) simp
  ultimately show ?thesis by blast
qed

text \<open>A time stamp of \<open>2 ^ 63\<close> in the header makes the subtraction of the tolerance check overflow, whatever the secret.\<close>

lemma verify_huge_timestamp_panics:
  assumes "now < 2 ^ 63"
  shows "verify_signature hmac secret body (build_signature_header (2 ^ 63) []) now tol = Panic"
proof -
  have "parse_signature_header (build_signature_header (2 ^ 63) []) = Ok (2 ^ 63, [[]])"
    using header_reads_back [of "2 ^ 63" "[]"] by (simp add: hex_encode_def)
  moreover have "as_i64 (2 ^ 63) = - (2 ^ 63)" by (simp add: as_i64_def)
  ultimately show ?thesis using assms by (simp add: verify_signature_def as_i64_small i64_val_def in_i64_def)
qed

end
