(* ===== verification/Webhook.thy ===== *)
theory Webhook
  imports Webhook_Signing Hash_Map
begin

text \<open>
  \<^verbatim>\<open>op-webhook\<close>: endpoints (\<^verbatim>\<open>endpoint.rs\<close>), events and delivery attempts (\<^verbatim>\<open>event.rs\<close>), the in-memory store (\<^verbatim>\<open>store.rs\<close>), the
  exponential backoff policy (\<^verbatim>\<open>retry.rs\<close>) and the dispatcher (\<^verbatim>\<open>dispatcher.rs\<close>) with the producer side (\<^verbatim>\<open>emitter.rs\<close>).

  The world a dispatcher acts on is the store, the jitter generator, the log of requests handed to the transport and a counter of
  the calls to the outside: the clock, the minting of an id and the transport are functions of that counter, so two
  calls may answer differently.  The HMAC and the text of a UUID are third-party code and arguments too.
\<close>

section \<open>Endpoints, events, attempts\<close>

datatype endpoint_status = EpActive | EpDisabled | EpAutoDisabled

fun is_blocking :: "endpoint_status \<Rightarrow> bool" where
  "is_blocking EpActive = False"
| "is_blocking EpDisabled = True"
| "is_blocking EpAutoDisabled = True"

fun debug_endpoint_status :: "endpoint_status \<Rightarrow> string" where
  "debug_endpoint_status EpActive = ''Active''"
| "debug_endpoint_status EpDisabled = ''Disabled''"
| "debug_endpoint_status EpAutoDisabled = ''AutoDisabled''"

record endpoint =
  ep_id :: uuid
  ep_url :: string
  ep_secret :: "byte list"
  ep_event_filters :: "string list"
  ep_status :: endpoint_status
  ep_consecutive_failures :: nat
  ep_metadata :: "(string \<times> string) list"

definition starts_with :: "string \<Rightarrow> string \<Rightarrow> bool" where
  "starts_with p s \<longleftrightarrow> take (length p) s = p"

definition endpoint_new :: "uuid \<Rightarrow> string \<Rightarrow> byte list \<Rightarrow> string list \<Rightarrow> (endpoint, webhook_error) result" where
  "endpoint_new i url secret filters =
     (if url = [] then Err (InvalidUrl ''empty'')
      else if \<not> (starts_with ''https://'' url \<or> starts_with ''http://'' url) then Err (InvalidUrl (''not http(s): '' @ url))
      else if secret = [] then Err (InvalidInput ''endpoint secret empty'')
      else Ok \<lparr>ep_id = i, ep_url = url, ep_secret = secret, ep_event_filters = filters, ep_status = EpActive,
               ep_consecutive_failures = 0, ep_metadata = []\<rparr>)"

definition endpoint_matches :: "endpoint \<Rightarrow> string \<Rightarrow> bool" where
  "endpoint_matches e event_type \<longleftrightarrow> list_ex (\<lambda>f. f = ''*'' \<or> f = event_type) (ep_event_filters e)"

definition endpoint_with_metadata :: "string \<Rightarrow> string \<Rightarrow> endpoint \<Rightarrow> endpoint" where
  "endpoint_with_metadata k v e = e\<lparr>ep_metadata := ep_metadata e @ [(k, v)]\<rparr>"

record webhook_event =
  ev_id :: uuid
  ev_type :: string
  ev_payload :: "byte list"
  ev_created_at :: nat

definition event_new :: "uuid \<Rightarrow> string \<Rightarrow> byte list \<Rightarrow> nat \<Rightarrow> webhook_event" where
  "event_new i t p c = \<lparr>ev_id = i, ev_type = t, ev_payload = p, ev_created_at = c\<rparr>"

definition event_with_id :: "uuid \<Rightarrow> webhook_event \<Rightarrow> webhook_event" where
  "event_with_id i e = e\<lparr>ev_id := i\<rparr>"

datatype delivery_status = DsPending | DsInFlight | DsSucceeded | DsRetryScheduled | DsFailed

fun delivery_is_terminal :: "delivery_status \<Rightarrow> bool" where
  "delivery_is_terminal DsSucceeded = True"
| "delivery_is_terminal DsFailed = True"
| "delivery_is_terminal _ = False"

record delivery_attempt =
  da_id :: uuid
  da_event_id :: uuid
  da_endpoint_id :: uuid
  da_attempt_number :: nat
  da_status :: delivery_status
  da_http_status :: "nat option"
  da_response_body_excerpt :: "string option"
  da_started_at :: nat
  da_completed_at :: "nat option"
  da_next_attempt_at :: "nat option"
  da_error :: "string option"

definition RESPONSE_BODY_EXCERPT_BYTES :: nat where
  "RESPONSE_BODY_EXCERPT_BYTES = 512"

definition new_pending :: "uuid \<Rightarrow> uuid \<Rightarrow> uuid \<Rightarrow> nat \<Rightarrow> nat \<Rightarrow> delivery_attempt" where
  "new_pending i event_id endpoint_id n started =
     \<lparr>da_id = i, da_event_id = event_id, da_endpoint_id = endpoint_id, da_attempt_number = n, da_status = DsPending, da_http_status = None,
      da_response_body_excerpt = None, da_started_at = started, da_completed_at = None, da_next_attempt_at = None, da_error = None\<rparr>"

section \<open>The store\<close>

record webhook_store =
  ws_endpoints :: "(uuid, endpoint) hashmap"
  ws_events :: "(uuid, webhook_event) hashmap"
  ws_attempts :: "(uuid, delivery_attempt) hashmap"

definition store_new :: webhook_store where
  "store_new = \<lparr>ws_endpoints = [], ws_events = [], ws_attempts = []\<rparr>"

definition put_endpoint :: "endpoint \<Rightarrow> webhook_store \<Rightarrow> webhook_store" where
  "put_endpoint e s = s\<lparr>ws_endpoints := hm_insert (ep_id e) e (ws_endpoints s)\<rparr>"

definition get_endpoint :: "webhook_store \<Rightarrow> uuid \<Rightarrow> (endpoint, webhook_error) result" where
  "get_endpoint s i = ok_or (hm_get (ws_endpoints s) i) (EndpointNotFound i)"

definition list_active_endpoints_for :: "webhook_store \<Rightarrow> string \<Rightarrow> endpoint list" where
  "list_active_endpoints_for s t = filter (\<lambda>e. ep_status e = EpActive \<and> endpoint_matches e t) (hm_values (ws_endpoints s))"

definition set_endpoint_status :: "uuid \<Rightarrow> endpoint_status \<Rightarrow> webhook_store \<Rightarrow> webhook_store \<times> (unit, webhook_error) result" where
  "set_endpoint_status i st s =
     (case hm_get (ws_endpoints s) i of
        None \<Rightarrow> (s, Err (EndpointNotFound i))
      | Some e \<Rightarrow> (s\<lparr>ws_endpoints := hm_insert i (e\<lparr>ep_status := st\<rparr>) (ws_endpoints s)\<rparr>, Ok ()))"

definition set_endpoint_consecutive_failures :: "uuid \<Rightarrow> nat \<Rightarrow> webhook_store \<Rightarrow> webhook_store \<times> (unit, webhook_error) result" where
  "set_endpoint_consecutive_failures i n s =
     (case hm_get (ws_endpoints s) i of
        None \<Rightarrow> (s, Err (EndpointNotFound i))
      | Some e \<Rightarrow> (s\<lparr>ws_endpoints := hm_insert i (e\<lparr>ep_consecutive_failures := n\<rparr>) (ws_endpoints s)\<rparr>, Ok ()))"

definition put_event :: "webhook_event \<Rightarrow> webhook_store \<Rightarrow> webhook_store" where
  "put_event e s = s\<lparr>ws_events := hm_insert (ev_id e) e (ws_events s)\<rparr>"

definition get_event :: "webhook_store \<Rightarrow> uuid \<Rightarrow> (webhook_event, webhook_error) result" where
  "get_event s i = ok_or (hm_get (ws_events s) i) (EventNotFound i)"

definition put_attempt :: "delivery_attempt \<Rightarrow> webhook_store \<Rightarrow> webhook_store" where
  "put_attempt a s = s\<lparr>ws_attempts := hm_insert (da_id a) a (ws_attempts s)\<rparr>"

definition get_attempt :: "webhook_store \<Rightarrow> uuid \<Rightarrow> (delivery_attempt, webhook_error) result" where
  "get_attempt s i = ok_or (hm_get (ws_attempts s) i) (AttemptNotFound i)"

definition list_attempts :: "webhook_store \<Rightarrow> uuid \<Rightarrow> uuid \<Rightarrow> delivery_attempt list" where
  "list_attempts s event_id endpoint_id =
     sort_key da_attempt_number (filter (\<lambda>a. da_event_id a = event_id \<and> da_endpoint_id a = endpoint_id) (hm_values (ws_attempts s)))"

definition list_due_retries :: "webhook_store \<Rightarrow> nat \<Rightarrow> delivery_attempt list" where
  "list_due_retries s now =
     filter (\<lambda>a. da_status a = DsRetryScheduled \<and> (case da_next_attempt_at a of Some t \<Rightarrow> t \<le> now | None \<Rightarrow> False)) (hm_values (ws_attempts s))"

definition endpoint_count :: "webhook_store \<Rightarrow> nat" where
  "endpoint_count s = length (ws_endpoints s)"

definition event_count :: "webhook_store \<Rightarrow> nat" where
  "event_count s = length (ws_events s)"

definition attempt_count :: "webhook_store \<Rightarrow> nat" where
  "attempt_count s = length (ws_attempts s)"

section \<open>The retry policy\<close>

datatype jitter = SystemJitter "64 word" | FixedJitter nat

definition system_jitter_new :: "64 word \<Rightarrow> jitter" where
  "system_jitter_new nanos = SystemJitter (nanos OR 1)"

fun uniform :: "nat \<Rightarrow> jitter \<Rightarrow> nat \<times> jitter" where
  "uniform upper (SystemJitter st) =
     (let st' = st * 6364136223846793005 + 1442695040888963407 in (if upper = 0 then 0 else unat st' mod upper, SystemJitter st'))"
| "uniform upper (FixedJitter v) = (if upper = 0 then 0 else if v \<ge> upper then upper - 1 else v, FixedJitter v)"

record backoff_policy =
  bp_base_secs :: nat
  bp_max_delay_secs :: nat
  bp_max_age_secs :: nat
  bp_disable_after :: nat

definition backoff_new :: "nat \<Rightarrow> nat \<Rightarrow> nat \<Rightarrow> nat \<Rightarrow> backoff_policy" where
  "backoff_new base max_delay max_age disable_after =
     \<lparr>bp_base_secs = max base 1, bp_max_delay_secs = max max_delay 1, bp_max_age_secs = max_age, bp_disable_after = max disable_after 1\<rparr>"

definition stripe_like :: backoff_policy where
  "stripe_like = backoff_new 1 3600 (72 * 3600) 10"

fun should_retry :: "nat option \<Rightarrow> bool" where
  "should_retry None = True"
| "should_retry (Some s) = (500 \<le> s \<and> s < 600 \<or> s = 408 \<or> s = 425 \<or> s = 429)"

definition u64_saturating_mul :: "nat \<Rightarrow> nat \<Rightarrow> nat" where
  "u64_saturating_mul a b = min (a * b) u64_max"

definition next_delay_secs :: "backoff_policy \<Rightarrow> nat \<Rightarrow> nat \<Rightarrow> jitter \<Rightarrow> nat option \<times> jitter" where
  "next_delay_secs p attempt_number elapsed_secs rng =
     (if elapsed_secs \<ge> bp_max_age_secs p then (None, rng)
      else let expo = min attempt_number 62;
               computed = min (u64_saturating_mul (bp_base_secs p) (2 ^ expo)) (bp_max_delay_secs p);
               upper = u64_saturating_add computed 1
           in map_prod Some id (uniform upper rng))"

definition jitter_full :: "nat \<Rightarrow> nat \<Rightarrow> nat \<Rightarrow> nat \<Rightarrow> nat" where
  "jitter_full base_secs max_delay_secs attempt rng_value =
     (let computed = min (u64_saturating_mul base_secs (2 ^ min attempt 62)) max_delay_secs;
          upper = u64_saturating_add computed 1
      in if upper = 0 then 0 else rng_value mod upper)"

section \<open>The dispatcher\<close>

record http_request =
  rq_url :: string
  rq_headers :: "(string \<times> string) list"
  rq_body :: "byte list"
  rq_timeout_secs :: nat

record http_response =
  rs_status :: nat
  rs_body :: "byte list"

datatype dispatch_outcome =
    Delivered uuid nat
  | Retrying uuid nat
  | DeadLetter uuid string
  | Skipped uuid string

record dispatcher =
  d_retry :: backoff_policy
  d_timeout_secs :: nat
  d_content_type :: string
  d_now :: "nat \<Rightarrow> nat"
  d_mint :: "nat \<Rightarrow> uuid"
  d_send :: "nat \<Rightarrow> http_request \<Rightarrow> webhook_error + http_response"
  d_hmac :: "byte list \<Rightarrow> byte list \<Rightarrow> byte list"
  d_uuid_text :: "uuid \<Rightarrow> string"

record webhook_world =
  w_store :: webhook_store
  w_rng :: jitter
  w_calls :: nat
  w_sent :: "http_request list"

definition with_timeout_secs :: "nat \<Rightarrow> dispatcher \<Rightarrow> dispatcher" where
  "with_timeout_secs t d = d\<lparr>d_timeout_secs := max t 1\<rparr>"

definition with_content_type :: "string \<Rightarrow> dispatcher \<Rightarrow> dispatcher" where
  "with_content_type ct d = d\<lparr>d_content_type := ct\<rparr>"

definition on_store :: "(webhook_store \<Rightarrow> webhook_store) \<Rightarrow> webhook_world \<Rightarrow> webhook_world" where
  "on_store f w = w\<lparr>w_store := f (w_store w)\<rparr>"

definition bump_calls :: "webhook_world \<Rightarrow> webhook_world" where
  "bump_calls w = w\<lparr>w_calls := Suc (w_calls w)\<rparr>"

text \<open>\<^verbatim>\<open>Error::to_string\<close>, from the \<^verbatim>\<open>thiserror\<close> attributes.\<close>

fun error_text :: "(uuid \<Rightarrow> string) \<Rightarrow> webhook_error \<Rightarrow> string" where
  "error_text u (EndpointNotFound i) = ''endpoint not found: '' @ u i"
| "error_text u (EventNotFound i) = ''event not found: '' @ u i"
| "error_text u (AttemptNotFound i) = ''delivery attempt not found: '' @ u i"
| "error_text u (Transport m) = ''transport error: '' @ m"
| "error_text u (InvalidUrl m) = ''invalid endpoint URL: '' @ m"
| "error_text u (EndpointDisabled m) = ''endpoint '' @ m @ '' is disabled''"
| "error_text u (RetryExhausted n) = ''retry budget exhausted after '' @ show_nat n @ '' attempts''"
| "error_text u SignatureMismatch = ''signature verification failed''"
| "error_text u (MalformedSignature m) = ''malformed signature header: '' @ m"
| "error_text u (TimestampOutOfTolerance d) = ''signature timestamp outside tolerance window (delta='' @ show_int d @ ''s)''"
| "error_text u (InvalidInput m) = ''invalid input: '' @ m"
| "error_text u (WebhookCore e) = ''core error''"

text \<open>
  \<^verbatim>\<open>String::from_utf8_lossy\<close>: every maximal invalid part becomes one replacement character.  \<open>utf8_part\<close> is whether the bytes start with
  a character and how many bytes it, or the invalid part, takes.
\<close>

definition byte_at :: "nat list \<Rightarrow> nat \<Rightarrow> nat" where
  "byte_at bs i = (if i < length bs then bs ! i else 0)"

definition utf8_part :: "nat \<Rightarrow> nat list \<Rightarrow> bool \<times> nat" where
  "utf8_part b bs =
     (let c = utf8_cont 128 191 in
      if b < 128 then (True, 1)
      else if 194 \<le> b \<and> b \<le> 223 then if c (byte_at bs 0) then (True, 2) else (False, 1)
      else if 224 \<le> b \<and> b \<le> 239 then
        if \<not> utf8_cont (if b = 224 then 160 else 128) (if b = 237 then 159 else 191) (byte_at bs 0) then (False, 1)
        else if \<not> c (byte_at bs 1) then (False, 2) else (True, 3)
      else if 240 \<le> b \<and> b \<le> 244 then
        if \<not> utf8_cont (if b = 240 then 144 else 128) (if b = 244 then 143 else 191) (byte_at bs 0) then (False, 1)
        else if \<not> c (byte_at bs 1) then (False, 2) else if \<not> c (byte_at bs 2) then (False, 3) else (True, 4)
      else (False, 1))"

lemma utf8_part_pos: "0 < snd (utf8_part b bs)"
  by (simp add: utf8_part_def Let_def)

function from_utf8_lossy :: "nat list \<Rightarrow> string" where
  "from_utf8_lossy [] = []"
| "from_utf8_lossy (b # bs) =
     (let (valid, n) = utf8_part b bs in
      (if valid then map char_of (take n (b # bs)) else [CHR 0xEF, CHR 0xBF, CHR 0xBD]) @ from_utf8_lossy (drop (n - 1) bs))"
  by pat_completeness auto
termination
  by (relation "measure length") (auto simp: le_imp_less_Suc)

definition excerpt :: "byte list \<Rightarrow> string" where
  "excerpt body = from_utf8_lossy (map unat (take RESPONSE_BODY_EXCERPT_BYTES body))"

definition bump_consecutive_failures :: "dispatcher \<Rightarrow> endpoint \<Rightarrow> webhook_store \<Rightarrow> webhook_store" where
  "bump_consecutive_failures d e s =
     (let new = u32_saturating_add (ep_consecutive_failures e) 1;
          s = fst (set_endpoint_consecutive_failures (ep_id e) new s)
      in if new \<ge> bp_disable_after (d_retry d) then fst (set_endpoint_status (ep_id e) EpAutoDisabled s) else s)"

definition classify_non_success ::
    "dispatcher \<Rightarrow> endpoint \<Rightarrow> delivery_attempt \<Rightarrow> nat option \<Rightarrow> string option \<Rightarrow> nat \<Rightarrow> nat \<Rightarrow> webhook_world \<Rightarrow> webhook_world \<times> dispatch_outcome" where
  "classify_non_success d e a http_status transport_err elapsed_secs now w =
     (if \<not> should_retry http_status then
        let a = a\<lparr>da_status := DsFailed, da_completed_at := Some now\<rparr>
        in (on_store (\<lambda>s. put_attempt a (bump_consecutive_failures d e s)) w,
            DeadLetter (ep_id e)
              (case http_status of
                 Some s \<Rightarrow> ''http_'' @ show_nat s
               | None \<Rightarrow> (case transport_err of Some m \<Rightarrow> m | None \<Rightarrow> ''unknown'')))
      else
        let (next_delay, rng) = next_delay_secs (d_retry d) (da_attempt_number a) elapsed_secs (w_rng w);
            w = w\<lparr>w_rng := rng\<rparr>
        in case next_delay of
             Some delay \<Rightarrow>
               let next_at = u64_saturating_add now delay;
                   a = a\<lparr>da_status := DsRetryScheduled, da_next_attempt_at := Some next_at, da_completed_at := Some now\<rparr>
               in (on_store (\<lambda>s. put_attempt a (bump_consecutive_failures d e s)) w, Retrying (ep_id e) next_at)
           | None \<Rightarrow>
               let a = a\<lparr>da_status := DsFailed, da_completed_at := Some now\<rparr>
               in (on_store (\<lambda>s. put_attempt a (bump_consecutive_failures d e s)) w, DeadLetter (ep_id e) ''retry_budget_exhausted''))"

definition webhook_request :: "dispatcher \<Rightarrow> webhook_event \<Rightarrow> endpoint \<Rightarrow> string \<Rightarrow> http_request" where
  "webhook_request d ev e sig_header =
     \<lparr>rq_url = ep_url e,
      rq_headers = [(''Content-Type'', d_content_type d), (SIGNATURE_HEADER, sig_header),
                    (''OpenPay-Event-Id'', d_uuid_text d (ev_id ev)), (''OpenPay-Event-Type'', ev_type ev)],
      rq_body = ev_payload ev, rq_timeout_secs = d_timeout_secs d\<rparr>"

text \<open>
  One delivery.  The transport answers with an error or a response; \<open>compute_signature\<close> never panics, so its third case does not arise.
\<close>

definition dispatch_single :: "dispatcher \<Rightarrow> webhook_event \<Rightarrow> endpoint \<Rightarrow> nat \<Rightarrow> webhook_world \<Rightarrow> webhook_world \<times> dispatch_outcome" where
  "dispatch_single d ev e attempt_number w =
     (if is_blocking (ep_status e) then (w, Skipped (ep_id e) (''endpoint status '' @ debug_endpoint_status (ep_status e)))
      else
        let now = d_now d (w_calls w);
            w = bump_calls w;
            elapsed_secs = u64_saturating_sub now (ev_created_at ev);
            a = new_pending (d_mint d (w_calls w)) (ev_id ev) (ep_id e) attempt_number now;
            w = bump_calls w;
            a = a\<lparr>da_status := DsInFlight\<rparr>
        in case compute_signature (d_hmac d) (ep_secret e) \<lparr>sp_timestamp = now, sp_body = ev_payload ev\<rparr> of
             Ok sig_hex \<Rightarrow>
               (let req = webhook_request d ev e (build_signature_header now sig_hex);
                    r = d_send d (w_calls w) req;
                    w = bump_calls (w\<lparr>w_sent := w_sent w @ [req]\<rparr>)
                in case r of
                     Inr resp \<Rightarrow>
                       if 200 \<le> rs_status resp \<and> rs_status resp < 300 then
                         let a = a\<lparr>da_status := DsSucceeded, da_http_status := Some (rs_status resp),
                                   da_response_body_excerpt := Some (excerpt (rs_body resp)), da_completed_at := Some now\<rparr>
                         in (on_store (\<lambda>s. fst (set_endpoint_consecutive_failures (ep_id e) 0 (put_attempt a s))) w,
                             Delivered (ep_id e) (rs_status resp))
                       else
                         let a = a\<lparr>da_http_status := Some (rs_status resp), da_response_body_excerpt := Some (excerpt (rs_body resp))\<rparr>
                         in classify_non_success d e a (Some (rs_status resp)) None elapsed_secs now w
                   | Inl er \<Rightarrow>
                       let msg = error_text (d_uuid_text d) er;
                           a = a\<lparr>da_error := Some msg\<rparr>
                       in classify_non_success d e a None (Some msg) elapsed_secs now w)
           | Err er \<Rightarrow>
               (let msg = ''sign: '' @ error_text (d_uuid_text d) er;
                    a = a\<lparr>da_status := DsFailed, da_error := Some msg, da_completed_at := Some now\<rparr>
                in (on_store (put_attempt a) w, DeadLetter (ep_id e) msg))
           | Panic \<Rightarrow> (w, DeadLetter (ep_id e) []))"

fun dispatch_all :: "dispatcher \<Rightarrow> webhook_event \<Rightarrow> endpoint list \<Rightarrow> webhook_world \<Rightarrow> webhook_world \<times> dispatch_outcome list" where
  "dispatch_all d ev [] w = (w, [])"
| "dispatch_all d ev (e # es) w =
     (let (w, out) = dispatch_single d ev e 0 w; (w, outs) = dispatch_all d ev es w in (w, out # outs))"

definition dispatch :: "dispatcher \<Rightarrow> webhook_event \<Rightarrow> webhook_world \<Rightarrow> webhook_world \<times> (dispatch_outcome list, webhook_error) result" where
  "dispatch d ev w =
     (let w = on_store (put_event ev) w;
          (w, outs) = dispatch_all d ev (list_active_endpoints_for (w_store w) (ev_type ev)) w
      in (w, Ok outs))"

definition replay :: "dispatcher \<Rightarrow> uuid \<Rightarrow> uuid \<Rightarrow> webhook_world \<Rightarrow> webhook_world \<times> (dispatch_outcome, webhook_error) result" where
  "replay d event_id endpoint_id w =
     (let s = w_store w in
      case rbind (get_event s event_id) (\<lambda>ev. rbind (get_endpoint s endpoint_id) (\<lambda>e.
           let existing = list_attempts s event_id endpoint_id in
           rbind (if existing = [] then Ok 0 else u32_val (da_attempt_number (List.last existing) + 1)) (\<lambda>n. Ok (ev, e, n)))) of
        Ok (ev, e, n) \<Rightarrow> (let (w, out) = dispatch_single d ev e n w in (w, Ok out))
      | Err er \<Rightarrow> (w, Err er)
      | Panic \<Rightarrow> (w, Panic))"

fun retry_all :: "dispatcher \<Rightarrow> nat \<Rightarrow> delivery_attempt list \<Rightarrow> webhook_world \<Rightarrow> webhook_world \<times> (dispatch_outcome list, webhook_error) result" where
  "retry_all d now [] w = (w, Ok [])"
| "retry_all d now (a # as) w =
     (case get_event (w_store w) (da_event_id a) of
        Ok ev \<Rightarrow>
          (case get_endpoint (w_store w) (da_endpoint_id a) of
             Ok e \<Rightarrow>
               (let w = on_store (put_attempt (a\<lparr>da_status := DsFailed, da_completed_at := Some now\<rparr>)) w in
                if da_attempt_number a + 1 \<le> u32_max
                then let (w, out) = dispatch_single d ev e (da_attempt_number a + 1) w;
                         (w, r) = retry_all d now as w
                     in (w, rbind r (\<lambda>outs. Ok (out # outs)))
                else (w, Panic))
           | _ \<Rightarrow> retry_all d now as w)
      | Err er \<Rightarrow> (w, Err er)
      | Panic \<Rightarrow> (w, Panic))"

definition process_due_retries :: "dispatcher \<Rightarrow> webhook_world \<Rightarrow> webhook_world \<times> (dispatch_outcome list, webhook_error) result" where
  "process_due_retries d w =
     (let now = d_now d (w_calls w); w = bump_calls w in retry_all d now (list_due_retries (w_store w) now) w)"

text \<open>The producer side: \<^verbatim>\<open>WebhookEmitter::emit\<close> drops the outcome.\<close>

definition emit :: "dispatcher \<Rightarrow> string \<Rightarrow> byte list \<Rightarrow> nat \<Rightarrow> webhook_world \<Rightarrow> webhook_world" where
  "emit d event_type payload now w =
     (let ev = event_new (d_mint d (w_calls w)) event_type payload now in fst (dispatch d ev (bump_calls w)))"

section \<open>Delays\<close>

lemma uniform_less: "0 < upper \<Longrightarrow> fst (uniform upper rng) < upper"
  by (cases rng) (auto simp: Let_def)

text \<open>
  Backoff bounds: whatever the jitter, a retry is scheduled exactly while the event is younger than the window, and its delay is at
  most the base delay doubled once per attempt (62 times at most) and at most the configured cap.
\<close>

theorem backoff_bounds:
  assumes "next_delay_secs p n elapsed rng = (r, rng')"
  shows "(r = None) = (bp_max_age_secs p \<le> elapsed)
    \<and> (case r of None \<Rightarrow> True | Some d \<Rightarrow> d \<le> bp_max_delay_secs p \<and> d \<le> bp_base_secs p * 2 ^ n)"
proof -
  let ?c = "min (u64_saturating_mul (bp_base_secs p) (2 ^ min n 62)) (bp_max_delay_secs p)"
  have "?c \<le> bp_base_secs p * 2 ^ n"
    by (rule order_trans [OF min.cobounded1]) (simp add: u64_saturating_mul_def min.coboundedI1 mult_le_mono)
  moreover have "fst (uniform (u64_saturating_add c 1) rng) \<le> c" for c
    using uniform_less [of "u64_saturating_add c 1" rng] by (auto simp: u64_saturating_add_def)
  note this [of ?c]
  ultimately show ?thesis
    using assms by (cases "uniform (u64_saturating_add ?c 1) rng") (auto simp: next_delay_secs_def Let_def split: if_splits)
qed

theorem backoff_bounds_witness:
  "next_delay_secs (backoff_new 1 10 100 3) 20 0 (FixedJitter 50) = (Some 10, FixedJitter 50) \<and> (10 :: nat) \<le> 10 \<and> (10 :: nat) \<le> 1 * 2 ^ 20"
proof -
  have e: "next_delay_secs (backoff_new 1 10 100 3) 20 0 (FixedJitter 50) = (Some 10, FixedJitter 50)"
    by (simp add: next_delay_secs_def backoff_new_def u64_saturating_mul_def u64_saturating_add_def)
  show ?thesis using backoff_bounds [OF e] e by (simp add: backoff_new_def)
qed

section \<open>What one delivery changes\<close>

text \<open>Endpoints keep their configuration, and a delivery never activates one.\<close>

definition same_config :: "endpoint \<Rightarrow> endpoint \<Rightarrow> bool" where
  "same_config e e' \<longleftrightarrow> ep_id e' = ep_id e \<and> ep_url e' = ep_url e \<and> ep_secret e' = ep_secret e
     \<and> ep_event_filters e' = ep_event_filters e \<and> ep_metadata e' = ep_metadata e \<and> (ep_status e' = EpActive \<longrightarrow> ep_status e = EpActive)"

definition ep_frame :: "webhook_store \<Rightarrow> webhook_store \<Rightarrow> bool" where
  "ep_frame s s' \<longleftrightarrow> (\<forall>i e'. hm_get (ws_endpoints s') i = Some e' \<longrightarrow> (\<exists>e. hm_get (ws_endpoints s) i = Some e \<and> same_config e e'))"

lemma ep_frame_refl [simp]: "ep_frame s s"
  by (simp add: ep_frame_def same_config_def)

lemma same_config_trans: "same_config a b \<Longrightarrow> same_config b c \<Longrightarrow> same_config a c"
  by (simp add: same_config_def)

lemma ep_frame_trans: "ep_frame s t \<Longrightarrow> ep_frame t u \<Longrightarrow> ep_frame s u"
  unfolding ep_frame_def by (meson same_config_trans)

definition store_ok :: "webhook_store \<Rightarrow> bool" where
  "store_ok s \<longleftrightarrow> hm_wf (ws_endpoints s) \<and> hm_wf (ws_attempts s)
     \<and> (\<forall>i e. hm_get (ws_endpoints s) i = Some e \<longrightarrow> ep_id e = i) \<and> (\<forall>i a. hm_get (ws_attempts s) i = Some a \<longrightarrow> da_id a = i)"

lemma store_ok_put_attempt: "store_ok s \<Longrightarrow> store_ok (put_attempt a s)"
  by (auto simp: store_ok_def put_attempt_def hm_wf_insert split: if_splits)

lemma set_failures:
  "store_ok s \<Longrightarrow> store_ok (fst (set_endpoint_consecutive_failures i n s))"
  "ep_frame s (fst (set_endpoint_consecutive_failures i n s))"
  "ws_events (fst (set_endpoint_consecutive_failures i n s)) = ws_events s"
  "ws_attempts (fst (set_endpoint_consecutive_failures i n s)) = ws_attempts s"
  by (auto simp: set_endpoint_consecutive_failures_def store_ok_def hm_wf_insert ep_frame_def same_config_def split: option.splits if_splits)

lemma set_status:
  "store_ok s \<Longrightarrow> store_ok (fst (set_endpoint_status i st s))"
  "st \<noteq> EpActive \<Longrightarrow> ep_frame s (fst (set_endpoint_status i st s))"
  "ws_events (fst (set_endpoint_status i st s)) = ws_events s"
  "ws_attempts (fst (set_endpoint_status i st s)) = ws_attempts s"
  by (auto simp: set_endpoint_status_def store_ok_def hm_wf_insert ep_frame_def same_config_def split: option.splits if_splits)

lemma bump_failures:
  "store_ok s \<Longrightarrow> store_ok (bump_consecutive_failures d e s)"
  "ep_frame s (bump_consecutive_failures d e s)"
  "ws_events (bump_consecutive_failures d e s) = ws_events s"
  "ws_attempts (bump_consecutive_failures d e s) = ws_attempts s"
  by (auto simp: bump_consecutive_failures_def Let_def set_failures set_status intro: ep_frame_trans [OF set_failures(2) set_status(2)])

lemma other_endpoints:
  "j \<noteq> i \<Longrightarrow> hm_get (ws_endpoints (fst (set_endpoint_consecutive_failures i n s))) j = hm_get (ws_endpoints s) j"
  "j \<noteq> i \<Longrightarrow> hm_get (ws_endpoints (fst (set_endpoint_status i st s))) j = hm_get (ws_endpoints s) j"
  "j \<noteq> ep_id e \<Longrightarrow> hm_get (ws_endpoints (bump_consecutive_failures d e s)) j = hm_get (ws_endpoints s) j"
  by (auto simp: set_endpoint_consecutive_failures_def set_endpoint_status_def bump_consecutive_failures_def Let_def split: option.splits)

lemma put_attempt_parts [simp]:
  "ws_endpoints (put_attempt a s) = ws_endpoints s" "ws_events (put_attempt a s) = ws_events s"
  "ws_attempts (put_attempt a s) = hm_insert (da_id a) a (ws_attempts s)"
  by (simp_all add: put_attempt_def)

lemma ep_frame_put_attempt [simp]: "ep_frame s (put_attempt a t) \<longleftrightarrow> ep_frame s t" "ep_frame (put_attempt a s) t \<longleftrightarrow> ep_frame s t"
  by (simp_all add: ep_frame_def)

text \<open>The effect of a delivery: one more attempt under the minted id, at most one request, and nothing else of the audit trail.\<close>

definition delivery_effect :: "dispatcher \<Rightarrow> webhook_event \<Rightarrow> endpoint \<Rightarrow> nat \<Rightarrow> webhook_world \<Rightarrow> webhook_world \<Rightarrow> bool" where
  "delivery_effect d ev e n w w' \<longleftrightarrow>
     (store_ok (w_store w) \<longrightarrow> store_ok (w_store w')) \<and> ep_frame (w_store w) (w_store w')
     \<and> (\<forall>j. j \<noteq> ep_id e \<longrightarrow> hm_get (ws_endpoints (w_store w')) j = hm_get (ws_endpoints (w_store w)) j)
     \<and> ws_events (w_store w') = ws_events (w_store w) \<and> w_calls w + 2 \<le> w_calls w'
     \<and> (\<exists>a. da_id a = d_mint d (Suc (w_calls w)) \<and> da_event_id a = ev_id ev \<and> da_endpoint_id a = ep_id e \<and> da_attempt_number a = n
          \<and> da_status a \<in> {DsSucceeded, DsRetryScheduled, DsFailed}
          \<and> ws_attempts (w_store w') = hm_insert (da_id a) a (ws_attempts (w_store w)))
     \<and> w_sent w' = w_sent w @ (if ep_secret e = [] then []
          else [webhook_request d ev e (build_signature_header (d_now d (w_calls w))
                  (hex_encode (d_hmac d (ep_secret e) (to_bytes \<lparr>sp_timestamp = d_now d (w_calls w), sp_body = ev_payload ev\<rparr>))))])"

lemma world_parts [simp]:
  "w_store (on_store f w) = f (w_store w)" "w_calls (on_store f w) = w_calls w" "w_sent (on_store f w) = w_sent w"
  "w_store (bump_calls w) = w_store w" "w_calls (bump_calls w) = Suc (w_calls w)" "w_sent (bump_calls w) = w_sent w"
  by (simp_all add: on_store_def bump_calls_def)

lemma delivery_effectI:
  assumes "w_store w' = put_attempt a t" and "ws_attempts t = ws_attempts (w_store w)" and "ws_events t = ws_events (w_store w)"
    and "ep_frame (w_store w) t" and "store_ok (w_store w) \<Longrightarrow> store_ok t" and "w_calls w + 2 \<le> w_calls w'"
    and "da_id a = d_mint d (Suc (w_calls w))" and "da_event_id a = ev_id ev" and "da_endpoint_id a = ep_id e"
    and "da_attempt_number a = n" and "da_status a \<in> {DsSucceeded, DsRetryScheduled, DsFailed}"
    and "w_sent w' = w_sent w @ (if ep_secret e = [] then []
          else [webhook_request d ev e (build_signature_header (d_now d (w_calls w))
                  (hex_encode (d_hmac d (ep_secret e) (to_bytes \<lparr>sp_timestamp = d_now d (w_calls w), sp_body = ev_payload ev\<rparr>))))])"
    and "\<And>j. j \<noteq> ep_id e \<Longrightarrow> hm_get (ws_endpoints t) j = hm_get (ws_endpoints (w_store w)) j"
  shows "delivery_effect d ev e n w w'"
  unfolding delivery_effect_def
proof (intro conjI exI [of _ a])
  show "store_ok (w_store w) \<longrightarrow> store_ok (w_store w')" using assms(1,5) by (simp add: store_ok_put_attempt)
  show "ep_frame (w_store w) (w_store w')" using assms(1,4) by simp
qed (use assms in simp_all)

lemma classify_effect:
  assumes "classify_non_success d e a hs er el now w = (w', out)"
  obtains st na where "w_store w' = put_attempt (a\<lparr>da_status := st, da_next_attempt_at := na, da_completed_at := Some now\<rparr>) (bump_consecutive_failures d e (w_store w))"
    and "st \<in> {DsRetryScheduled, DsFailed}" and "w_calls w' = w_calls w" and "w_sent w' = w_sent w"
proof -
  let ?b = "bump_consecutive_failures d e (w_store w)"
  obtain r rng where nd: "next_delay_secs (d_retry d) (da_attempt_number a) el (w_rng w) = (r, rng)" by fastforce
  have k: "w_calls w' = w_calls w" "w_sent w' = w_sent w"
    using assms nd by (auto simp: classify_non_success_def Let_def split: if_splits option.splits simp del: should_retry.simps)
  show thesis
  proof (cases "should_retry hs \<and> r \<noteq> None")
    case False
    then have "w_store w' = put_attempt (a\<lparr>da_status := DsFailed, da_completed_at := Some now\<rparr>) ?b"
      using assms nd by (auto simp: classify_non_success_def Let_def split: if_splits simp del: should_retry.simps)
    then show thesis using k by (intro that [where st = DsFailed and na = "da_next_attempt_at a"]) simp_all
  next
    case True
    then obtain v where "r = Some v" by auto
    then have "w_store w' = put_attempt (a\<lparr>da_status := DsRetryScheduled, da_next_attempt_at := Some (u64_saturating_add now v),
        da_completed_at := Some now\<rparr>) ?b"
      using assms nd True by (auto simp: classify_non_success_def Let_def simp del: should_retry.simps)
    then show thesis using k by (intro that [where st = DsRetryScheduled and na = "Some (u64_saturating_add now v)"]) simp_all
  qed
qed

lemma dispatch_single_effect:
  assumes "dispatch_single d ev e n w = (w', out)" and "\<not> is_blocking (ep_status e)"
  shows "delivery_effect d ev e n w w'"
proof (cases "ep_secret e = []")
  case True
  let ?now = "d_now d (w_calls w)" and ?m = "''sign: '' @ error_text (d_uuid_text d) (InvalidInput ''signing secret is empty'')"
  show ?thesis
    by (rule delivery_effectI [where t = "w_store w" and a = "(new_pending (d_mint d (Suc (w_calls w))) (ev_id ev) (ep_id e) n ?now)
        \<lparr>da_status := DsFailed, da_error := Some ?m, da_completed_at := Some ?now\<rparr>"])
      (use assms True in \<open>auto simp: dispatch_single_def compute_signature_def Let_def new_pending_def\<close>)
next
  case False
  let ?now = "d_now d (w_calls w)"
  let ?req = "webhook_request d ev e (build_signature_header ?now (hex_encode (d_hmac d (ep_secret e) (to_bytes \<lparr>sp_timestamp = ?now, sp_body = ev_payload ev\<rparr>))))"
  let ?w = "bump_calls (bump_calls (bump_calls w)\<lparr>w_sent := w_sent w @ [?req]\<rparr>)"
  let ?a = "(new_pending (d_mint d (Suc (w_calls w))) (ev_id ev) (ep_id e) n ?now)\<lparr>da_status := DsInFlight\<rparr>"
  have shape: "delivery_effect d ev e n w w'"
    if c: "classify_non_success d e a hs er el ?now ?w = (w', out)" and a: "da_id a = d_mint d (Suc (w_calls w))" "da_event_id a = ev_id ev"
      "da_endpoint_id a = ep_id e" "da_attempt_number a = n" for a hs er el
  proof (rule classify_effect [OF c])
    fix st na
    assume "w_store w' = put_attempt (a\<lparr>da_status := st, da_next_attempt_at := na, da_completed_at := Some ?now\<rparr>) (bump_consecutive_failures d e (w_store ?w))"
      "st \<in> {DsRetryScheduled, DsFailed}" "w_calls w' = w_calls ?w" "w_sent w' = w_sent ?w"
    then show ?thesis using a False
      by (intro delivery_effectI [where t = "bump_consecutive_failures d e (w_store w)"
            and a = "a\<lparr>da_status := st, da_next_attempt_at := na, da_completed_at := Some ?now\<rparr>"]) (auto simp: bump_failures other_endpoints)
  qed
  show ?thesis
  proof (cases "d_send d (Suc (Suc (w_calls w))) ?req")
    case (Inl er)
    then show ?thesis using assms False
      by (intro shape [of "?a\<lparr>da_error := Some (error_text (d_uuid_text d) er)\<rparr>" None "Some (error_text (d_uuid_text d) er)"
            "u64_saturating_sub ?now (ev_created_at ev)"])
        (simp_all add: dispatch_single_def compute_signature_def Let_def new_pending_def)
  next
    case (Inr resp)
    show ?thesis
    proof (cases "200 \<le> rs_status resp \<and> rs_status resp < 300")
      case True
      let ?b = "?a\<lparr>da_status := DsSucceeded, da_http_status := Some (rs_status resp),
                  da_response_body_excerpt := Some (excerpt (rs_body resp)), da_completed_at := Some ?now\<rparr>"
      have "fst (set_endpoint_consecutive_failures (ep_id e) 0 (put_attempt ?b (w_store w))) =
          put_attempt ?b (fst (set_endpoint_consecutive_failures (ep_id e) 0 (w_store w)))"
        by (simp add: set_endpoint_consecutive_failures_def put_attempt_def split: option.split)
      then show ?thesis using assms False Inr True
        by (intro delivery_effectI [where t = "fst (set_endpoint_consecutive_failures (ep_id e) 0 (w_store w))" and a = ?b])
          (auto simp: dispatch_single_def compute_signature_def Let_def set_failures other_endpoints new_pending_def)
    next
      case nok: False
      then show ?thesis using assms False Inr
        by (intro shape [of "?a\<lparr>da_http_status := Some (rs_status resp), da_response_body_excerpt := Some (excerpt (rs_body resp))\<rparr>"
              "Some (rs_status resp)" None "u64_saturating_sub ?now (ev_created_at ev)"])
          (auto simp: dispatch_single_def compute_signature_def Let_def new_pending_def)
    qed
  qed
qed

section \<open>Operations\<close>

text \<open>A request that goes to an active endpoint of the store, carries a stored event's payload and is signed with the endpoint's secret.\<close>

definition request_for :: "dispatcher \<Rightarrow> webhook_store \<Rightarrow> webhook_store \<Rightarrow> http_request \<Rightarrow> bool" where
  "request_for d s s' req \<longleftrightarrow>
     (\<exists>i e k ev c. hm_get (ws_endpoints s) i = Some e \<and> ep_status e = EpActive \<and> ep_secret e \<noteq> [] \<and> hm_get (ws_events s') k = Some ev
        \<and> rq_url req = ep_url e \<and> rq_body req = ev_payload ev
        \<and> (SIGNATURE_HEADER, build_signature_header (d_now d c)
             (hex_encode (d_hmac d (ep_secret e) (to_bytes \<lparr>sp_timestamp = d_now d c, sp_body = ev_payload ev\<rparr>)))) \<in> set (rq_headers req))"

text \<open>The attempts of the store afterwards: none is lost, none changes but a scheduled one that is closed as failed.\<close>

definition attempt_kept :: "delivery_attempt \<Rightarrow> delivery_attempt \<Rightarrow> bool" where
  "attempt_kept a a' \<longleftrightarrow> a' = a \<or> da_status a = DsRetryScheduled \<and> (\<exists>t. a' = a\<lparr>da_status := DsFailed, da_completed_at := Some t\<rparr>)"

definition audit_kept :: "webhook_store \<Rightarrow> webhook_store \<Rightarrow> bool" where
  "audit_kept s s' \<longleftrightarrow> (\<forall>i a. hm_get (ws_attempts s) i = Some a \<longrightarrow> (\<exists>a'. hm_get (ws_attempts s') i = Some a' \<and> attempt_kept a a'))"

definition minted :: "dispatcher \<Rightarrow> webhook_world \<Rightarrow> bool" where
  "minted d w \<longleftrightarrow> dom (hm_get (ws_attempts (w_store w))) \<subseteq> d_mint d ` {..<w_calls w}"

text \<open>What every operation keeps and adds, from a sound world.\<close>

definition op_ok :: "dispatcher \<Rightarrow> webhook_world \<Rightarrow> webhook_world \<Rightarrow> bool" where
  "op_ok d w w' \<longleftrightarrow> store_ok (w_store w') \<and> minted d w' \<and> ep_frame (w_store w) (w_store w') \<and> audit_kept (w_store w) (w_store w')
     \<and> (\<forall>k ev. hm_get (ws_events (w_store w)) k = Some ev \<longrightarrow> hm_get (ws_events (w_store w')) k = Some ev)
     \<and> (\<exists>new. w_sent w' = w_sent w @ new \<and> list_all (request_for d (w_store w) (w_store w')) new)"

lemma minted_get: "minted d w \<Longrightarrow> hm_get (ws_attempts (w_store w)) j = Some a \<Longrightarrow> j \<in> d_mint d ` {..<w_calls w}"
  unfolding minted_def by (meson domI subsetD)

lemma attempt_kept_refl [simp]: "attempt_kept a a"
  by (simp add: attempt_kept_def)

lemma attempt_kept_trans: "attempt_kept a b \<Longrightarrow> attempt_kept b c \<Longrightarrow> attempt_kept a c"
  by (auto simp: attempt_kept_def)

lemma audit_kept_refl [simp]: "audit_kept s s"
  by (simp add: audit_kept_def)

lemma audit_kept_trans: "audit_kept s t \<Longrightarrow> audit_kept t u \<Longrightarrow> audit_kept s u"
  unfolding audit_kept_def by (meson attempt_kept_trans)

lemma request_for_mono:
  assumes "request_for d t t' r" and "ep_frame s t" and "\<And>k ev. hm_get (ws_events t') k = Some ev \<Longrightarrow> hm_get (ws_events u) k = Some ev"
  shows "request_for d s u r"
proof -
  from assms(1) obtain i e k ev c where r: "hm_get (ws_endpoints t) i = Some e" "ep_status e = EpActive" "ep_secret e \<noteq> []"
    "hm_get (ws_events t') k = Some ev" "rq_url r = ep_url e" "rq_body r = ev_payload ev"
    "(SIGNATURE_HEADER, build_signature_header (d_now d c)
       (hex_encode (d_hmac d (ep_secret e) (to_bytes \<lparr>sp_timestamp = d_now d c, sp_body = ev_payload ev\<rparr>)))) \<in> set (rq_headers r)"
    unfolding request_for_def by blast
  from assms(2) r(1) obtain e0 where e0: "hm_get (ws_endpoints s) i = Some e0" "same_config e0 e" unfolding ep_frame_def by blast
  have "ep_status e0 = EpActive" "ep_secret e0 = ep_secret e" "ep_url e0 = ep_url e" using e0(2) r(2) by (simp_all add: same_config_def)
  then show ?thesis unfolding request_for_def using e0(1) r assms(3) by metis
qed

lemma op_ok_refl: "store_ok (w_store w) \<Longrightarrow> minted d w \<Longrightarrow> op_ok d w w"
  by (simp add: op_ok_def)

lemma op_ok_trans:
  assumes "op_ok d w x" and "op_ok d x y"
  shows "op_ok d w y"
proof -
  obtain n1 n2 where n: "w_sent x = w_sent w @ n1" "list_all (request_for d (w_store w) (w_store x)) n1"
    "w_sent y = w_sent x @ n2" "list_all (request_for d (w_store x) (w_store y)) n2"
    using assms unfolding op_ok_def by blast
  have f: "ep_frame (w_store w) (w_store x)" "\<And>k ev. hm_get (ws_events (w_store x)) k = Some ev \<Longrightarrow> hm_get (ws_events (w_store y)) k = Some ev"
    using assms unfolding op_ok_def by blast+
  have "list_all (request_for d (w_store w) (w_store y)) (n1 @ n2)"
    using n request_for_mono [OF _ ep_frame_refl f(2)] request_for_mono [OF _ f(1)] by (auto simp: list_all_iff)
  then have "\<exists>new. w_sent y = w_sent w @ new \<and> list_all (request_for d (w_store w) (w_store y)) new" using n by auto
  then show ?thesis using assms unfolding op_ok_def by (meson audit_kept_trans ep_frame_trans)
qed

lemma dispatch_single_ok:
  assumes "dispatch_single d ev e n w = (w', out)" and "store_ok (w_store w)" and "minted d w" and "inj (d_mint d)"
    and "hm_get (ws_endpoints (w_store w)) i = Some e'" and "same_config e e'" and "\<not> is_blocking (ep_status e) \<Longrightarrow> ep_status e' = EpActive"
    and "hm_get (ws_events (w_store w)) k = Some ev"
  shows "op_ok d w w'"
proof (cases "is_blocking (ep_status e)")
  case True
  then show ?thesis using assms(1) op_ok_refl [OF assms(2,3)] by (simp add: dispatch_single_def)
next
  case False
  have eff: "delivery_effect d ev e n w w'" by (rule dispatch_single_effect [OF assms(1) False])
  then obtain a where a: "da_id a = d_mint d (Suc (w_calls w))" "ws_attempts (w_store w') = hm_insert (da_id a) a (ws_attempts (w_store w))"
    and ev: "ws_events (w_store w') = ws_events (w_store w)" and calls: "w_calls w + 2 \<le> w_calls w'"
    by (auto simp: delivery_effect_def)
  have fresh: "hm_get (ws_attempts (w_store w)) (da_id a) = None"
  proof (rule ccontr)
    assume "hm_get (ws_attempts (w_store w)) (da_id a) \<noteq> None"
    then have "d_mint d (Suc (w_calls w)) \<in> d_mint d ` {..<w_calls w}" using assms(3) a(1) by (auto simp: minted_def)
    then show False using assms(4) by (simp add: inj_image_mem_iff)
  qed
  have cfg: "ep_url e' = ep_url e" "ep_secret e' = ep_secret e" using assms(6) by (simp_all add: same_config_def)
  have "minted d w'" unfolding minted_def
  proof
    fix j assume "j \<in> dom (hm_get (ws_attempts (w_store w')))"
    then have "j = d_mint d (Suc (w_calls w)) \<or> j \<in> d_mint d ` {..<w_calls w}"
      using a minted_get [OF assms(3)] by (auto split: if_splits)
    then show "j \<in> d_mint d ` {..<w_calls w'}" using calls by auto
  qed
  moreover have "audit_kept (w_store w) (w_store w')" using a(2) fresh by (auto simp: audit_kept_def)
  moreover have "\<exists>new. w_sent w' = w_sent w @ new \<and> list_all (request_for d (w_store w) (w_store w')) new"
  proof (cases "ep_secret e = []")
    case True
    then show ?thesis using eff by (simp add: delivery_effect_def)
  next
    case sec: False
    let ?h = "build_signature_header (d_now d (w_calls w))
        (hex_encode (d_hmac d (ep_secret e) (to_bytes \<lparr>sp_timestamp = d_now d (w_calls w), sp_body = ev_payload ev\<rparr>)))"
    have "request_for d (w_store w) (w_store w') (webhook_request d ev e ?h)"
      unfolding request_for_def using assms(5,7,8) False sec ev cfg
      by (intro exI [of _ i] exI [of _ e'] exI [of _ k] exI [of _ ev] exI [of _ "w_calls w"]) (simp add: webhook_request_def)
    then show ?thesis using eff sec by (simp add: delivery_effect_def)
  qed
  ultimately show ?thesis using eff assms(2) ev by (simp add: op_ok_def delivery_effect_def)
qed

lemma put_event_ok:
  assumes "store_ok (w_store w)" and "minted d w" and "hm_get (ws_events (w_store w)) (ev_id ev) \<in> {None, Some ev}"
  shows "op_ok d w (on_store (put_event ev) w)"
  using assms by (auto simp: op_ok_def put_event_def store_ok_def minted_def ep_frame_def same_config_def audit_kept_def)

lemma dispatch_all_ok:
  assumes "dispatch_all d ev es w = (w', outs)" and "store_ok (w_store w)" and "minted d w" and "inj (d_mint d)"
    and "distinct (map ep_id es)" and "\<And>e. e \<in> set es \<Longrightarrow> hm_get (ws_endpoints (w_store w)) (ep_id e) = Some e \<and> ep_status e = EpActive"
    and "hm_get (ws_events (w_store w)) k = Some ev"
  shows "op_ok d w w'"
  using assms
proof (induction es arbitrary: w outs)
  case Nil
  then show ?case by (simp add: op_ok_refl)
next
  case (Cons e es)
  obtain x out outs' where x: "dispatch_single d ev e 0 w = (x, out)" "dispatch_all d ev es x = (w', outs')"
    using Cons.prems(1) by (auto simp: Let_def split: prod.splits)
  have e: "hm_get (ws_endpoints (w_store w)) (ep_id e) = Some e" "ep_status e = EpActive" using Cons.prems(6) by simp_all
  have ok: "op_ok d w x"
    by (rule dispatch_single_ok [OF x(1) Cons.prems(2-4) e(1) _ _ Cons.prems(7)]) (simp_all add: e(2) same_config_def)
  have eff: "delivery_effect d ev e 0 w x" by (rule dispatch_single_effect [OF x(1)]) (simp add: e(2))
  have rest: "hm_get (ws_endpoints (w_store x)) (ep_id f) = Some f \<and> ep_status f = EpActive" if "f \<in> set es" for f
  proof -
    have "ep_id f \<in> ep_id ` set es" using that by (rule imageI)
    then have "ep_id f \<noteq> ep_id e" using Cons.prems(5) by auto
    then show ?thesis using that Cons.prems(6) eff by (simp add: delivery_effect_def)
  qed
  have "op_ok d x w'"
    using Cons.IH [OF x(2) _ _ Cons.prems(4) _ rest] ok Cons.prems(5,7) by (simp add: op_ok_def)
  then show ?case using ok op_ok_trans by blast
qed

lemma hm_values_mem: "hm_wf m \<Longrightarrow> x \<in> set (hm_values m) \<Longrightarrow> \<exists>k. hm_get m k = Some x"
  using hm_values_ran [of m] by (auto simp: ran_def)

lemma distinct_ids:
  assumes "hm_wf m" and "\<And>i x. hm_get m i = Some x \<Longrightarrow> key x = i"
  shows "distinct (map key (hm_values m))"
proof -
  have "map key (hm_values m) = map fst m"
    using assms unfolding hm_values_def hm_wf_def hm_get_def by (auto intro!: map_of_eq_Some_iff [THEN iffD2])
  then show ?thesis using assms(1) by (simp add: hm_wf_def)
qed

lemma dispatch_ok:
  assumes "dispatch d ev w = (w', r)" and "store_ok (w_store w)" and "minted d w" and "inj (d_mint d)"
    and "hm_get (ws_events (w_store w)) (ev_id ev) \<in> {None, Some ev}"
  shows "op_ok d w w'"
proof -
  let ?x = "on_store (put_event ev) w"
  let ?es = "list_active_endpoints_for (w_store ?x) (ev_type ev)"
  obtain outs where o1: "dispatch_all d ev ?es ?x = (w', outs)" using assms(1) by (auto simp: dispatch_def Let_def split: prod.splits)
  have p: "op_ok d w ?x" using assms by (intro put_event_ok)
  then have sx: "store_ok (w_store ?x)" "minted d ?x" by (simp_all add: op_ok_def)
  have wf: "hm_wf (ws_endpoints (w_store ?x))" "\<And>i e. hm_get (ws_endpoints (w_store ?x)) i = Some e \<Longrightarrow> ep_id e = i"
    using sx(1) unfolding store_ok_def by blast+
  have "op_ok d ?x w'"
  proof (rule dispatch_all_ok [OF o1 sx assms(4)])
    show "distinct (map ep_id ?es)" using distinct_ids [OF wf] by (simp add: list_active_endpoints_for_def distinct_map_filter)
    show "hm_get (ws_endpoints (w_store ?x)) (ep_id e) = Some e \<and> ep_status e = EpActive" if "e \<in> set ?es" for e
      using that hm_values_mem [OF wf(1), of e] wf(2) by (auto simp: list_active_endpoints_for_def)
    show "hm_get (ws_events (w_store ?x)) (ev_id ev) = Some ev" by (simp add: put_event_def)
  qed
  then show ?thesis using p op_ok_trans by blast
qed

lemma replay_ok:
  assumes "replay d i j w = (w', r)" and "store_ok (w_store w)" and "minted d w" and "inj (d_mint d)"
  shows "op_ok d w w'"
proof (cases "\<exists>ev e n out. get_event (w_store w) i = Ok ev \<and> get_endpoint (w_store w) j = Ok e \<and> dispatch_single d ev e n w = (w', out)")
  case True
  then obtain ev e n out where t: "hm_get (ws_events (w_store w)) i = Some ev" "hm_get (ws_endpoints (w_store w)) j = Some e"
    "dispatch_single d ev e n w = (w', out)" by (auto simp: get_event_def get_endpoint_def)
  show ?thesis
    by (rule dispatch_single_ok [OF t(3) assms(2-4) t(2) _ _ t(1)]) (auto simp: same_config_def intro: is_blocking.elims)
next
  case False
  then have "w' = w" using assms(1) by (auto simp: replay_def Let_def split: result.splits prod.splits)
  then show ?thesis using assms op_ok_refl by blast
qed

lemma close_attempt_ok:
  assumes "store_ok (w_store w)" and "minted d w" and "hm_get (ws_attempts (w_store w)) (da_id a) = Some a" and "da_status a = DsRetryScheduled"
  shows "op_ok d w (on_store (put_attempt (a\<lparr>da_status := DsFailed, da_completed_at := Some t\<rparr>)) w)"
proof -
  let ?b = "a\<lparr>da_status := DsFailed, da_completed_at := Some t\<rparr>"
  have "attempt_kept a ?b" using assms(4) by (auto simp: attempt_kept_def)
  then have "audit_kept (w_store w) (put_attempt ?b (w_store w))" using assms(3) by (simp add: audit_kept_def)
  moreover have "minted d (on_store (put_attempt ?b) w)"
    using assms(2) domI [of "hm_get (ws_attempts (w_store w))", OF assms(3)] by (auto simp: minted_def dom_def split: if_splits)
  ultimately show ?thesis using assms(1) by (simp add: op_ok_def store_ok_put_attempt)
qed

lemma retry_all_ok:
  assumes "retry_all d now as w = (w', r)" and "store_ok (w_store w)" and "minted d w" and "inj (d_mint d)"
    and "distinct (map da_id as)" and "\<And>a. a \<in> set as \<Longrightarrow> hm_get (ws_attempts (w_store w)) (da_id a) = Some a \<and> da_status a = DsRetryScheduled"
  shows "op_ok d w w'"
  using assms
proof (induction as arbitrary: w r)
  case Nil
  then show ?case by (simp add: op_ok_refl)
next
  case (Cons a as)
  have a: "hm_get (ws_attempts (w_store w)) (da_id a) = Some a" "da_status a = DsRetryScheduled" using Cons.prems(6) by simp_all
  have neq: "da_id b \<noteq> da_id a" if "b \<in> set as" for b
    using Cons.prems(5) imageI [OF that, of da_id] by auto
  let ?x = "on_store (put_attempt (a\<lparr>da_status := DsFailed, da_completed_at := Some now\<rparr>)) w"
  have x: "op_ok d w ?x" by (rule close_attempt_ok [OF Cons.prems(2,3) a])
  then have sx: "store_ok (w_store ?x)" "minted d ?x" by (simp_all add: op_ok_def)
  show ?case
  proof (cases "get_event (w_store w) (da_event_id a)")
    case (Ok ev)
    show ?thesis
    proof (cases "get_endpoint (w_store w) (da_endpoint_id a)")
      case e: (Ok e)
      show ?thesis
      proof (cases "da_attempt_number a + 1 \<le> u32_max")
        case True
        obtain y out where y: "dispatch_single d ev e (da_attempt_number a + 1) ?x = (y, out)" by fastforce
        have g: "hm_get (ws_endpoints (w_store ?x)) (da_endpoint_id a) = Some e" "hm_get (ws_events (w_store ?x)) (da_event_id a) = Some ev"
          using e Ok by (simp_all add: get_endpoint_def get_event_def)
        have oy: "op_ok d ?x y"
          by (rule dispatch_single_ok [OF y sx Cons.prems(4) g(1) _ _ g(2)]) (auto simp: same_config_def intro: is_blocking.elims)
        obtain r' where r: "retry_all d now as y = (w', r')" using Cons.prems(1) Ok e True y by (auto simp: Let_def split: prod.splits)
        have rest: "hm_get (ws_attempts (w_store y)) (da_id b) = Some b \<and> da_status b = DsRetryScheduled" if "b \<in> set as" for b
        proof -
          have b: "hm_get (ws_attempts (w_store ?x)) (da_id b) = Some b" "da_status b = DsRetryScheduled"
            using that Cons.prems(6) neq [OF that] by simp_all
          show ?thesis
          proof (cases "is_blocking (ep_status e)")
            case True
            then show ?thesis using y b by (simp add: dispatch_single_def)
          next
            case False
            have "delivery_effect d ev e (da_attempt_number a + 1) ?x y" by (rule dispatch_single_effect [OF y False])
            then obtain c where c: "da_id c = d_mint d (Suc (w_calls ?x))" "ws_attempts (w_store y) = hm_insert (da_id c) c (ws_attempts (w_store ?x))"
              by (auto simp: delivery_effect_def)
            have "da_id b \<in> d_mint d ` {..<w_calls ?x}" using minted_get [OF sx(2) b(1)] .
            then have "da_id b \<noteq> da_id c" using c(1) Cons.prems(4) by (auto simp: inj_eq)
            then show ?thesis using c(2) b by simp
          qed
        qed
        have "op_ok d y w'" using Cons.IH [OF r _ _ Cons.prems(4) _ rest] oy Cons.prems(5) by (simp add: op_ok_def)
        then show ?thesis using x oy op_ok_trans by blast
      next
        case False
        then show ?thesis using Cons.prems(1) Ok e x by (simp add: Let_def)
      qed
    next
      case (Err er)
      then show ?thesis using Cons.prems Ok by (intro Cons.IH [where w = w and r = r]) auto
    next
      case Panic
      then show ?thesis by (simp add: get_endpoint_def)
    qed
  next
    case (Err er)
    then show ?thesis using Cons.prems op_ok_refl by simp
  next
    case Panic
    then show ?thesis by (simp add: get_event_def)
  qed
qed

lemma bump_calls_ok: "store_ok (w_store w) \<Longrightarrow> minted d w \<Longrightarrow> op_ok d w (bump_calls w)"
  by (auto simp: op_ok_def minted_def lessThan_Suc)

lemma process_due_retries_ok:
  assumes "process_due_retries d w = (w', r)" and "store_ok (w_store w)" and "minted d w" and "inj (d_mint d)"
  shows "op_ok d w w'"
proof -
  let ?now = "d_now d (w_calls w)" and ?x = "bump_calls w"
  have x: "op_ok d w ?x" using assms(2,3) by (rule bump_calls_ok)
  then have sx: "store_ok (w_store ?x)" "minted d ?x" by (simp_all add: op_ok_def)
  have wf: "hm_wf (ws_attempts (w_store w))" "\<And>i a. hm_get (ws_attempts (w_store w)) i = Some a \<Longrightarrow> da_id a = i"
    using assms(2) unfolding store_ok_def by blast+
  have "op_ok d ?x w'"
  proof (rule retry_all_ok [where now = ?now and as = "list_due_retries (w_store w) ?now" and r = r, OF _ sx assms(4)])
    show "retry_all d ?now (list_due_retries (w_store w) ?now) ?x = (w', r)" using assms(1) by (simp add: process_due_retries_def Let_def)
    show "distinct (map da_id (list_due_retries (w_store w) ?now))"
      using distinct_ids [OF wf] by (simp add: list_due_retries_def distinct_map_filter)
    show "hm_get (ws_attempts (w_store ?x)) (da_id a) = Some a \<and> da_status a = DsRetryScheduled" if "a \<in> set (list_due_retries (w_store w) ?now)" for a
      using that hm_values_mem [OF wf(1), of a] wf(2) by (auto simp: list_due_retries_def)
  qed
  then show ?thesis using x op_ok_trans by blast
qed

section \<open>Reachable worlds\<close>

inductive wh_op :: "dispatcher \<Rightarrow> webhook_world \<Rightarrow> webhook_world \<Rightarrow> bool" for d where
  op_dispatch: "dispatch d ev w = (w', r) \<Longrightarrow> hm_get (ws_events (w_store w)) (ev_id ev) \<in> {None, Some ev} \<Longrightarrow> wh_op d w w'"
| op_replay: "replay d i j w = (w', r) \<Longrightarrow> wh_op d w w'"
| op_retries: "process_due_retries d w = (w', r) \<Longrightarrow> wh_op d w w'"

text \<open>
  The worlds a deployment goes through: registering endpoints built with \<^verbatim>\<open>Endpoint::new\<close>, changing their status and the three
  operations of the dispatcher.  An event id stands for one event: it is not dispatched again with another body.
\<close>

inductive wh_reach :: "dispatcher \<Rightarrow> webhook_world \<Rightarrow> bool" for d where
  wr_new: "wh_reach d \<lparr>w_store = store_new, w_rng = g, w_calls = c, w_sent = []\<rparr>"
| wr_endpoint: "wh_reach d w \<Longrightarrow> endpoint_new i url secret fs = Ok e \<Longrightarrow> wh_reach d (on_store (put_endpoint e) w)"
| wr_status: "wh_reach d w \<Longrightarrow> wh_reach d (on_store (\<lambda>s. fst (set_endpoint_status i st s)) w)"
| wr_op: "wh_reach d w \<Longrightarrow> wh_op d w w' \<Longrightarrow> wh_reach d w'"

lemma wh_op_ok: "wh_op d w w' \<Longrightarrow> store_ok (w_store w) \<Longrightarrow> minted d w \<Longrightarrow> inj (d_mint d) \<Longrightarrow> op_ok d w w'"
  by (induction rule: wh_op.induct) (auto intro: dispatch_ok replay_ok process_due_retries_ok)

lemma wh_reach_ok: "wh_reach d w \<Longrightarrow> inj (d_mint d) \<Longrightarrow> store_ok (w_store w) \<and> minted d w"
proof (induction rule: wh_reach.induct)
  case (wr_op w w')
  then show ?case using wh_op_ok by (auto simp: op_ok_def)
next
  case (wr_endpoint w i url secret fs e)
  then show ?case by (auto simp: store_ok_def put_endpoint_def minted_def hm_wf_insert split: if_splits)
next
  case (wr_status w i st)
  then show ?case by (simp add: set_status minted_def)
qed (simp add: store_ok_def store_new_def minted_def dom_def)

text \<open>
  C24.  Signed requests only: whatever a deployment did before, every request a dispatch, a replay or a retry run hands to the transport goes to
  the URL of a registered, active endpoint, carries the payload of a stored event, and its signature header is accepted by
  a receiver that knows the endpoint's secret and whose clock is within the tolerance.
\<close>

theorem webhook_requests_signed:
  assumes "wh_reach d w" and "wh_op d w w'" and "inj (d_mint d)" and "\<And>c. d_now d c < 2 ^ 63"
  shows "\<exists>new. w_sent w' = w_sent w @ new \<and> list_all (\<lambda>req.
    \<exists>i e k ev ts h. hm_get (ws_endpoints (w_store w)) i = Some e \<and> ep_status e = EpActive \<and> rq_url req = ep_url e
      \<and> hm_get (ws_events (w_store w')) k = Some ev \<and> rq_body req = ev_payload ev \<and> (SIGNATURE_HEADER, h) \<in> set (rq_headers req)
      \<and> (\<forall>now tol. now < 2 ^ 63 \<longrightarrow> \<bar>int now - int ts\<bar> \<le> tol \<longrightarrow> verify_signature (d_hmac d) (ep_secret e) (rq_body req) h now tol = Ok ())) new"
proof -
  have "op_ok d w w'" using wh_op_ok [OF assms(2)] wh_reach_ok [OF assms(1,3)] assms(3) by blast
  then obtain new where new: "w_sent w' = w_sent w @ new" "list_all (request_for d (w_store w) (w_store w')) new"
    unfolding op_ok_def by blast
  have good: "\<exists>i e k ev ts h. hm_get (ws_endpoints (w_store w)) i = Some e \<and> ep_status e = EpActive \<and> rq_url req = ep_url e
      \<and> hm_get (ws_events (w_store w')) k = Some ev \<and> rq_body req = ev_payload ev \<and> (SIGNATURE_HEADER, h) \<in> set (rq_headers req)
      \<and> (\<forall>now tol. now < 2 ^ 63 \<longrightarrow> \<bar>int now - int ts\<bar> \<le> tol \<longrightarrow> verify_signature (d_hmac d) (ep_secret e) (rq_body req) h now tol = Ok ())"
    if "request_for d (w_store w) (w_store w') req" for req
  proof -
    from that obtain i e k ev c where r: "hm_get (ws_endpoints (w_store w)) i = Some e" "ep_status e = EpActive" "ep_secret e \<noteq> []"
      "hm_get (ws_events (w_store w')) k = Some ev" "rq_url req = ep_url e" "rq_body req = ev_payload ev"
      "(SIGNATURE_HEADER, build_signature_header (d_now d c)
         (hex_encode (d_hmac d (ep_secret e) (to_bytes \<lparr>sp_timestamp = d_now d c, sp_body = ev_payload ev\<rparr>)))) \<in> set (rq_headers req)"
      unfolding request_for_def by blast
    have "\<forall>now tol. now < 2 ^ 63 \<longrightarrow> \<bar>int now - int (d_now d c)\<bar> \<le> tol \<longrightarrow>
        verify_signature (d_hmac d) (ep_secret e) (rq_body req) (build_signature_header (d_now d c)
          (hex_encode (d_hmac d (ep_secret e) (to_bytes \<lparr>sp_timestamp = d_now d c, sp_body = ev_payload ev\<rparr>)))) now tol = Ok ()"
      unfolding r(6) using signed_accepted [OF r(3) assms(4)] by blast
    then show ?thesis using r by blast
  qed
  show ?thesis using new good by (auto simp: list_all_iff)
qed

text \<open>
  The audit trail is append-only: no dispatch, replay or retry run removes a delivery attempt or changes one, except that it closes a scheduled
  attempt as failed when it retries it; attempts that succeeded or failed stay as they are.
\<close>

theorem webhook_audit_trail:
  assumes "wh_reach d w" and "wh_op d w w'" and "inj (d_mint d)" and "hm_get (ws_attempts (w_store w)) i = Some a"
  shows "\<exists>a'. hm_get (ws_attempts (w_store w')) i = Some a'
    \<and> (a' = a \<or> da_status a = DsRetryScheduled \<and> (\<exists>t. a' = a\<lparr>da_status := DsFailed, da_completed_at := Some t\<rparr>))"
proof -
  have "op_ok d w w'" using wh_op_ok [OF assms(2)] wh_reach_ok [OF assms(1,3)] assms(3) by blast
  then show ?thesis using assms(4) unfolding op_ok_def audit_kept_def attempt_kept_def by blast
qed

text \<open>A small deployment: one endpoint subscribed to everything, a transport that answers 200, or 503, and one event.\<close>

definition sample_endpoint :: endpoint where
  "sample_endpoint = \<lparr>ep_id = 5, ep_url = ''https://m'', ep_secret = [7], ep_event_filters = [''*''], ep_status = EpActive,
     ep_consecutive_failures = 0, ep_metadata = []\<rparr>"

definition sample_dispatcher :: "nat \<Rightarrow> dispatcher" where
  "sample_dispatcher status = \<lparr>d_retry = backoff_new 2 10 100 3, d_timeout_secs = 10, d_content_type = ''application/json'', d_now = (\<lambda>c. 1000),
     d_mint = (\<lambda>n. n), d_send = (\<lambda>n r. Inr \<lparr>rs_status = status, rs_body = []\<rparr>), d_hmac = (\<lambda>k m. k), d_uuid_text = (\<lambda>i. [])\<rparr>"

definition sample_event :: webhook_event where
  "sample_event = \<lparr>ev_id = 9, ev_type = ''refund.created'', ev_payload = [1, 2], ev_created_at = 1000\<rparr>"

definition sample_world :: webhook_world where
  "sample_world = on_store (put_endpoint sample_endpoint) \<lparr>w_store = store_new, w_rng = FixedJitter 0, w_calls = 0, w_sent = []\<rparr>"

lemma sample_reach: "wh_reach (sample_dispatcher st) sample_world"
proof -
  have "endpoint_new 5 ''https://m'' [7] [''*''] = Ok sample_endpoint"
    by (simp add: endpoint_new_def starts_with_def sample_endpoint_def)
  from wr_endpoint [OF wr_new this] show ?thesis unfolding sample_world_def .
qed

lemma sample_op: "wh_op (sample_dispatcher st) sample_world (fst (dispatch (sample_dispatcher st) sample_event sample_world))"
  by (rule op_dispatch [where ev = sample_event and r = "snd (dispatch (sample_dispatcher st) sample_event sample_world)"])
    (simp_all add: sample_world_def store_new_def put_endpoint_def)

lemma sample_list: "list_active_endpoints_for (w_store (on_store (put_event sample_event) sample_world)) (ev_type sample_event) = [sample_endpoint]"
  by (simp add: list_active_endpoints_for_def sample_world_def put_event_def put_endpoint_def store_new_def hm_insert_def hm_values_def
      sample_endpoint_def endpoint_matches_def)

lemma sample_sent: "length (w_sent (fst (dispatch (sample_dispatcher st) sample_event sample_world))) = 1"
proof -
  let ?d = "sample_dispatcher st" and ?w = "on_store (put_event sample_event) sample_world"
  obtain w' out where x: "dispatch_single ?d sample_event sample_endpoint 0 ?w = (w', out)" by fastforce
  have "delivery_effect ?d sample_event sample_endpoint 0 ?w w'"
    by (rule dispatch_single_effect [OF x]) (simp add: sample_endpoint_def)
  then have "w_sent w' = w_sent ?w @ [hd (drop (length (w_sent ?w)) (w_sent w'))]" by (simp add: delivery_effect_def sample_endpoint_def)
  moreover have "w_sent ?w = []" by (simp add: sample_world_def)
  moreover have "fst (dispatch ?d sample_event sample_world) = w'" using sample_list x by (simp add: dispatch_def Let_def)
  ultimately show ?thesis by (metis append_Nil length_Cons list.size(3) One_nat_def)
qed

theorem webhook_requests_signed_witness:
  "\<exists>req. w_sent (fst (dispatch (sample_dispatcher 200) sample_event sample_world)) = [req] \<and>
    (\<exists>i e k ev ts h. hm_get (ws_endpoints (w_store sample_world)) i = Some e \<and> ep_status e = EpActive \<and> rq_url req = ep_url e
      \<and> hm_get (ws_events (w_store (fst (dispatch (sample_dispatcher 200) sample_event sample_world)))) k = Some ev
      \<and> rq_body req = ev_payload ev \<and> (SIGNATURE_HEADER, h) \<in> set (rq_headers req)
      \<and> (\<forall>now tol. now < 2 ^ 63 \<longrightarrow> \<bar>int now - int ts\<bar> \<le> tol \<longrightarrow>
            verify_signature (d_hmac (sample_dispatcher 200)) (ep_secret e) (rq_body req) h now tol = Ok ()))"
proof -
  have "inj (d_mint (sample_dispatcher 200))" "\<And>c. d_now (sample_dispatcher 200) c < 2 ^ 63" by (simp_all add: sample_dispatcher_def)
  note t = webhook_requests_signed [OF sample_reach sample_op this]
  moreover have "w_sent sample_world = []" by (simp add: sample_world_def)
  moreover obtain req where "w_sent (fst (dispatch (sample_dispatcher 200) sample_event sample_world)) = [req]"
    using sample_sent [of 200] by (auto simp: length_Suc_conv)
  ultimately show ?thesis by auto
qed

theorem webhook_audit_trail_witness:
  "\<exists>a a'. hm_get (ws_attempts (w_store (fst (dispatch (sample_dispatcher 503) sample_event sample_world)))) 1 = Some a
    \<and> hm_get (ws_attempts (w_store (fst (process_due_retries (sample_dispatcher 503)
          (fst (dispatch (sample_dispatcher 503) sample_event sample_world)))))) 1 = Some a'
    \<and> (a' = a \<or> da_status a = DsRetryScheduled \<and> (\<exists>t. a' = a\<lparr>da_status := DsFailed, da_completed_at := Some t\<rparr>))"
proof -
  let ?d = "sample_dispatcher 503" and ?w = "on_store (put_event sample_event) sample_world"
  let ?x = "fst (dispatch ?d sample_event sample_world)"
  obtain w' out where x: "dispatch_single ?d sample_event sample_endpoint 0 ?w = (w', out)" by fastforce
  have "delivery_effect ?d sample_event sample_endpoint 0 ?w w'"
    by (rule dispatch_single_effect [OF x]) (simp add: sample_endpoint_def)
  moreover have "d_mint ?d (Suc (w_calls ?w)) = 1" by (simp add: sample_dispatcher_def sample_world_def)
  ultimately obtain a where "da_id a = 1" "ws_attempts (w_store w') = hm_insert (da_id a) a (ws_attempts (w_store ?w))"
    unfolding delivery_effect_def by metis
  then have a: "hm_get (ws_attempts (w_store w')) 1 = Some a" by simp
  have w': "?x = w'" using sample_list x by (simp add: dispatch_def Let_def)
  have "wh_op ?d ?x (fst (process_due_retries ?d ?x))" by (rule op_retries) (rule prod.collapse [symmetric])
  moreover have "inj (d_mint ?d)" by (simp add: sample_dispatcher_def)
  ultimately show ?thesis
    using webhook_audit_trail [OF wr_op [OF sample_reach sample_op], of 503 _ 1 a] a unfolding w' by blast
qed

section \<open>Disabled endpoints\<close>

lemma dispatch_blocked: "is_blocking (ep_status e) \<Longrightarrow>
    dispatch_single d ev e n w = (w, Skipped (ep_id e) (''endpoint status '' @ debug_endpoint_status (ep_status e)))"
  by (simp add: dispatch_single_def)

text \<open>
  A replay to a disabled endpoint is skipped: nothing is sent and nothing recorded.
\<close>

lemma replay_skips_disabled:
  assumes "hm_get (ws_events (w_store w)) i = Some ev" and "hm_get (ws_endpoints (w_store w)) j = Some e" and "is_blocking (ep_status e)"
    and "list_all (\<lambda>a. da_attempt_number a < u32_max) (hm_values (ws_attempts (w_store w)))"
  shows "replay d i j w = (w, Ok (Skipped (ep_id e) (''endpoint status '' @ debug_endpoint_status (ep_status e))))"
proof -
  let ?l = "list_attempts (w_store w) i j"
  have "?l \<noteq> [] \<Longrightarrow> da_attempt_number (List.last ?l) < u32_max"
    using assms(4) last_in_set [of ?l] by (auto simp: list_attempts_def list_all_iff)
  then have "(if ?l = [] then Ok 0 else u32_val (da_attempt_number (List.last ?l) + 1)) =
      (Ok (if ?l = [] then 0 else da_attempt_number (List.last ?l) + 1) :: (nat, webhook_error) result)"
    by (cases "?l = []") (simp_all add: u32_val_def)
  then show ?thesis using assms(1-3) by (simp add: replay_def Let_def get_event_def get_endpoint_def dispatch_blocked)
qed

text \<open>
  A due retry of a disabled endpoint is lost: the run closes the scheduled attempt as failed, sends nothing and schedules nothing, so
  re-enabling the endpoint does not bring the delivery back.
\<close>

theorem retry_of_disabled_endpoint_lost:
  assumes "hm_get (ws_events (w_store w)) (da_event_id a) = Some ev" and "hm_get (ws_endpoints (w_store w)) (da_endpoint_id a) = Some e"
    and "is_blocking (ep_status e)" and "da_attempt_number a < u32_max" and "list_due_retries (w_store w) (d_now d (w_calls w)) = [a]"
  shows "\<exists>w' out. process_due_retries d w = (w', Ok [out]) \<and> w_sent w' = w_sent w
    \<and> ws_attempts (w_store w') = hm_insert (da_id a) (a\<lparr>da_status := DsFailed, da_completed_at := Some (d_now d (w_calls w))\<rparr>) (ws_attempts (w_store w))
    \<and> out = Skipped (ep_id e) (''endpoint status '' @ debug_endpoint_status (ep_status e))"
  using assms by (simp add: process_due_retries_def Let_def get_event_def get_endpoint_def dispatch_blocked)

theorem retry_of_disabled_endpoint_lost_witness:
  "\<exists>w' out. process_due_retries (sample_dispatcher 200) \<lparr>w_store = \<lparr>ws_endpoints = [(5, sample_endpoint\<lparr>ep_status := EpDisabled\<rparr>)],
      ws_events = [(9, sample_event)], ws_attempts = [(3, (new_pending 3 9 5 0 990)\<lparr>da_status := DsRetryScheduled, da_next_attempt_at := Some 995\<rparr>)]\<rparr>,
      w_rng = FixedJitter 0, w_calls = 4, w_sent = []\<rparr> = (w', Ok [out]) \<and> w_sent w' = []
    \<and> map (da_status \<circ> snd) (ws_attempts (w_store w')) = [DsFailed]"
  using retry_of_disabled_endpoint_lost [of "\<lparr>w_store = \<lparr>ws_endpoints = [(5, sample_endpoint\<lparr>ep_status := EpDisabled\<rparr>)],
      ws_events = [(9, sample_event)], ws_attempts = [(3, (new_pending 3 9 5 0 990)\<lparr>da_status := DsRetryScheduled, da_next_attempt_at := Some 995\<rparr>)]\<rparr>,
      w_rng = FixedJitter 0, w_calls = 4, w_sent = []\<rparr>" "(new_pending 3 9 5 0 990)\<lparr>da_status := DsRetryScheduled, da_next_attempt_at := Some 995\<rparr>"
      sample_event "sample_endpoint\<lparr>ep_status := EpDisabled\<rparr>" "sample_dispatcher 200"]
  by (auto simp: hm_get_def new_pending_def list_due_retries_def hm_values_def sample_dispatcher_def hm_insert_def)

end
