(* ===== verification/Reconciliation.thy ===== *)
theory Reconciliation
  imports Ledger Webhook
begin

text \<open>
  Bank statements against the ledger (\<^verbatim>\<open>op-reconciliation\<close>): the normalised statement line, the settlement webhooks as a source of lines, the
  two-tier matcher and the report.  Transactions are those of \<open>Ledger\<close>, webhook events those of \<open>Webhook\<close>.  The JSON decoder of a webhook
  payload, the renderings of an id and of an error are parameters.

  Shown: every line of the statement is accounted for exactly once, every pair the matcher reports is justified, every transaction of
  the window is either reported missing or referred to by a line; and two weaknesses of the matcher.
\<close>

section \<open>Lines\<close>

datatype recon_error =
    MalformedLine string
  | UnrecognizedWebhook string
  | ReconIso20022 string
  | ReconJson string
  | ReconBackend string
  | InvalidWindow nat nat

datatype line_direction = LineCredit | LineDebit

record statement_line =
  sl_source_id :: string
  sl_external_id :: "string option"
  sl_amount :: money
  sl_direction :: line_direction
  sl_posted_at :: nat
  sl_metadata :: "(string \<times> string) list"

definition line_new :: "string \<Rightarrow> money \<Rightarrow> line_direction \<Rightarrow> nat \<Rightarrow> (statement_line, recon_error) result" where
  "line_new source_id amount dir posted_at =
     rbind (i64_val \<bar>minor_units amount\<bar>) (\<lambda>m. Ok
       \<lparr>sl_source_id = source_id, sl_external_id = None, sl_amount = \<lparr>minor_units = m, currency = currency amount\<rparr>,
        sl_direction = dir, sl_posted_at = posted_at, sl_metadata = []\<rparr>)"

definition line_with_external_id :: "string \<Rightarrow> statement_line \<Rightarrow> statement_line" where
  "line_with_external_id i l = l\<lparr>sl_external_id := Some i\<rparr>"

definition line_with_metadata :: "string \<Rightarrow> string \<Rightarrow> statement_line \<Rightarrow> statement_line" where
  "line_with_metadata k v l = l\<lparr>sl_metadata := sl_metadata l @ [(k, v)]\<rparr>"

section \<open>Settlement webhooks as a source\<close>

text \<open>The renderings \<^verbatim>\<open>{:?}\<close> of a text and \<^verbatim>\<open>{}\<close> of a serde error are arguments.\<close>

definition currency_from_code :: "(string \<Rightarrow> string) \<Rightarrow> string \<Rightarrow> (currency, recon_error) result" where
  "currency_from_code debug c =
     (if c = ''USD'' then Ok USD
      else if c = ''EUR'' then Ok EUR
      else if c = ''BRL'' then Ok BRL
      else if c = ''INR'' then Ok INR
      else if c = ''GBP'' then Ok GBP
      else if c = ''JPY'' then Ok JPY
      else if c = ''CNY'' then Ok CNY
      else case c of
        [x, y, z] \<Rightarrow> map_err (\<lambda>_. MalformedLine (''invalid currency code '' @ debug c)) (try_new (x, y, z) 2)
      | _ \<Rightarrow> Err (MalformedLine (''currency code '' @ debug c @ '' not 3 chars'')))"

definition SETTLEMENT_EVENT_TYPE :: string where
  "SETTLEMENT_EVENT_TYPE = ''psp.settlement.confirmed''"

record settlement_payload =
  pl_source_id :: string
  pl_external_id :: "string option"
  pl_amount_minor :: int
  pl_currency :: string
  pl_direction :: string
  pl_posted_at :: "nat option"

text \<open>What the source calls of other crates: \<^verbatim>\<open>serde_json::from_slice\<close> with its error rendered, debug output of a text, an id.\<close>

record recon_env =
  re_decode :: "byte list \<Rightarrow> settlement_payload + string"
  re_debug :: "string \<Rightarrow> string"
  re_uuid :: "uuid \<Rightarrow> string"
  re_debug_opt :: "string option \<Rightarrow> string"

definition webhook_line :: "recon_env \<Rightarrow> webhook_event \<Rightarrow> (statement_line, recon_error) result" where
  "webhook_line env e =
     (case re_decode env (ev_payload e) of
        Inr err \<Rightarrow> Err (UnrecognizedWebhook (''event '' @ re_uuid env (ev_id e) @ '': '' @ err))
      | Inl p \<Rightarrow>
          rbind (currency_from_code (re_debug env) (pl_currency p)) (\<lambda>cur.
          rbind (i64_val \<bar>pl_amount_minor p\<bar>) (\<lambda>m.
          rbind (if pl_direction p = ''credit'' then Ok LineCredit
                 else if pl_direction p = ''debit'' then Ok LineDebit
                 else Err (UnrecognizedWebhook (''event '' @ re_uuid env (ev_id e) @ '': direction '' @ re_debug env (pl_direction p) @ '' not credit/debit''))) (\<lambda>dir.
          let posted = (case pl_posted_at p of Some t \<Rightarrow> t | None \<Rightarrow> ev_created_at e) in
          rbind (line_new (pl_source_id p) \<lparr>minor_units = m, currency = cur\<rparr> dir posted) (\<lambda>line.
          Ok (case pl_external_id p of Some eid \<Rightarrow> line_with_external_id eid line | None \<Rightarrow> line))))))"

definition webhook_iter_lines :: "recon_env \<Rightarrow> webhook_event list \<Rightarrow> (statement_line, recon_error) result list" where
  "webhook_iter_lines env events = map (webhook_line env) (filter (\<lambda>e. ev_type e = SETTLEMENT_EVENT_TYPE) events)"

section \<open>Discrepancies\<close>

datatype discrepancy =
    UnmatchedStatement statement_line
  | UnmatchedLedger uuid "string option"
  | AmountMismatch statement_line uuid money
  | StatusMismatch statement_line uuid tx_status

record task_descriptor =
  td_task_id :: string
  td_kind :: string
  td_detail :: string
  td_ledger_tx_id :: "uuid option"
  td_statement_source_id :: "string option"

fun debug_tx_status :: "tx_status \<Rightarrow> string" where
  "debug_tx_status Pending = ''Pending''"
| "debug_tx_status Posted = ''Posted''"
| "debug_tx_status Archived = ''Archived''"

fun describe :: "recon_env \<Rightarrow> discrepancy \<Rightarrow> task_descriptor" where
  "describe env (UnmatchedStatement l) =
     \<lparr>td_task_id = ''unmatched_statement:'' @ sl_source_id l, td_kind = ''unmatched_statement'',
      td_detail = ''statement line '' @ sl_source_id l @ '' ('' @ show_int (minor_units (sl_amount l)) @ '' ''
        @ code (currency (sl_amount l)) @ '') has no matching ledger tx'',
      td_ledger_tx_id = None, td_statement_source_id = Some (sl_source_id l)\<rparr>"
| "describe env (UnmatchedLedger t ext) =
     \<lparr>td_task_id = ''unmatched_ledger:'' @ re_uuid env t, td_kind = ''unmatched_ledger'',
      td_detail = ''ledger tx '' @ re_uuid env t @ '' (external_id '' @ re_debug_opt env ext @ '') has no matching statement line'',
      td_ledger_tx_id = Some t, td_statement_source_id = None\<rparr>"
| "describe env (AmountMismatch l t a) =
     \<lparr>td_task_id = ''amount_mismatch:'' @ sl_source_id l, td_kind = ''amount_mismatch'',
      td_detail = ''line '' @ sl_source_id l @ '' says '' @ show_int (minor_units (sl_amount l)) @ '' '' @ code (currency (sl_amount l))
        @ '' but ledger tx '' @ re_uuid env t @ '' settled '' @ show_int (minor_units a) @ '' '' @ code (currency a),
      td_ledger_tx_id = Some t, td_statement_source_id = Some (sl_source_id l)\<rparr>"
| "describe env (StatusMismatch l t st) =
     \<lparr>td_task_id = ''status_mismatch:'' @ sl_source_id l, td_kind = ''status_mismatch'',
      td_detail = ''line '' @ sl_source_id l @ '' settled at the bank but ledger tx '' @ re_uuid env t @ '' is '' @ debug_tx_status st,
      td_ledger_tx_id = Some t, td_statement_source_id = Some (sl_source_id l)\<rparr>"

section \<open>The matcher\<close>

record matched_pair =
  mp_source_id :: string
  mp_tx_id :: uuid
  mp_fuzzy :: bool

record match_outcome =
  mo_matched :: nat
  mo_fuzzy_matched :: nat
  mo_discrepancies :: "discrepancy list"
  mo_matched_pairs :: "matched_pair list"

text \<open>The magnitude of the debit side; a plain \<^verbatim>\<open>abs\<close> or \<^verbatim>\<open>+=\<close> that leaves \<^verbatim>\<open>i64\<close> panics.\<close>

fun settled_loop :: "entry list \<Rightarrow> money option \<Rightarrow> (money option, recon_error) result" where
  "settled_loop [] acc = Ok acc"
| "settled_loop (e # es) acc =
     (if en_direction e \<noteq> Debit then settled_loop es acc
      else case acc of
        None \<Rightarrow> rbind (i64_val \<bar>minor_units (en_amount e)\<bar>) (\<lambda>m.
          settled_loop es (Some \<lparr>minor_units = m, currency = currency (en_amount e)\<rparr>))
      | Some t \<Rightarrow>
          if currency t = currency (en_amount e) then
            rbind (i64_val \<bar>minor_units (en_amount e)\<bar>) (\<lambda>m.
            rbind (i64_val (minor_units t + m)) (\<lambda>s. settled_loop es (Some (t\<lparr>minor_units := s\<rparr>))))
          else Ok None)"

definition tx_settled_amount :: "transaction \<Rightarrow> (money option, recon_error) result" where
  "tx_settled_amount tx = settled_loop (tx_entries tx) None"

definition status_is_consistent :: "tx_status \<Rightarrow> bool" where
  "status_is_consistent s \<longleftrightarrow> s = Posted"

fun index_by_external :: "transaction list \<Rightarrow> (string, transaction) hashmap \<Rightarrow> (string, transaction) hashmap" where
  "index_by_external [] m = m"
| "index_by_external (tx # txs) m =
     index_by_external txs (case tx_external_id tx of Some ext \<Rightarrow> hm_insert ext tx m | None \<Rightarrow> m)"

record match_state =
  ms_used :: "uuid list"
  ms_discrepancies :: "discrepancy list"
  ms_matched :: nat
  ms_fuzzy :: nat
  ms_pairs :: "matched_pair list"
  ms_deferred :: "statement_line list"

text \<open>The first tier, one line: join by reference, then compare amount and status.\<close>

definition join_line :: "(string, transaction) hashmap \<Rightarrow> statement_line \<Rightarrow> match_state \<Rightarrow> (match_state, recon_error) result" where
  "join_line by_external line s =
     (case sl_external_id line of
        None \<Rightarrow> Ok (s\<lparr>ms_deferred := ms_deferred s @ [line]\<rparr>)
      | Some ext \<Rightarrow> (case hm_get by_external ext of
          None \<Rightarrow> Ok (s\<lparr>ms_deferred := ms_deferred s @ [line]\<rparr>)
        | Some tx \<Rightarrow>
            (let s = s\<lparr>ms_used := tx_id tx # ms_used s\<rparr> in
             rbind (tx_settled_amount tx) (\<lambda>amount. case amount of
               Some ledger_amount \<Rightarrow>
                 if currency ledger_amount = currency (sl_amount line) \<and> minor_units ledger_amount = minor_units (sl_amount line) then
                   (if status_is_consistent (tx_state tx) then
                      Ok (s\<lparr>ms_matched := ms_matched s + 1,
                            ms_pairs := ms_pairs s @ [\<lparr>mp_source_id = sl_source_id line, mp_tx_id = tx_id tx, mp_fuzzy = False\<rparr>]\<rparr>)
                    else Ok (s\<lparr>ms_discrepancies := ms_discrepancies s @ [StatusMismatch line (tx_id tx) (tx_state tx)]\<rparr>))
                 else Ok (s\<lparr>ms_discrepancies := ms_discrepancies s @ [AmountMismatch line (tx_id tx) ledger_amount]\<rparr>)
             | None \<Rightarrow> Ok (s\<lparr>ms_discrepancies := ms_discrepancies s @ [UnmatchedStatement line]\<rparr>)))))"

fun join_lines :: "(string, transaction) hashmap \<Rightarrow> statement_line list \<Rightarrow> match_state \<Rightarrow> (match_state, recon_error) result" where
  "join_lines by_external [] s = Ok s"
| "join_lines by_external (line # lines) s = rbind (join_line by_external line s) (join_lines by_external lines)"

definition abs_diff :: "nat \<Rightarrow> nat \<Rightarrow> nat" where
  "abs_diff a b = (if a < b then b - a else a - b)"

text \<open>The second tier: the first unused transaction of the same amount close in time.\<close>

fun find_similar :: "uuid list \<Rightarrow> nat \<Rightarrow> statement_line \<Rightarrow> transaction list \<Rightarrow> (transaction option, recon_error) result" where
  "find_similar used tol line [] = Ok None"
| "find_similar used tol line (tx # txs) =
     (if tx_id tx \<in> set used then find_similar used tol line txs
      else rbind (tx_settled_amount tx) (\<lambda>amount. case amount of
        None \<Rightarrow> find_similar used tol line txs
      | Some amt \<Rightarrow>
          if currency amt = currency (sl_amount line) \<and> minor_units amt = minor_units (sl_amount line)
             \<and> abs_diff (tx_effective_at tx) (sl_posted_at line) \<le> tol
          then Ok (Some tx) else find_similar used tol line txs))"

fun match_deferred :: "nat \<Rightarrow> transaction list \<Rightarrow> statement_line list \<Rightarrow> match_state \<Rightarrow> (match_state, recon_error) result" where
  "match_deferred tol txs [] s = Ok s"
| "match_deferred tol txs (line # lines) s =
     rbind (find_similar (ms_used s) tol line txs) (\<lambda>hit. match_deferred tol txs lines (case hit of
       Some tx \<Rightarrow> s\<lparr>ms_used := tx_id tx # ms_used s, ms_fuzzy := ms_fuzzy s + 1,
                     ms_pairs := ms_pairs s @ [\<lparr>mp_source_id = sl_source_id line, mp_tx_id = tx_id tx, mp_fuzzy = True\<rparr>]\<rparr>
     | None \<Rightarrow> s\<lparr>ms_discrepancies := ms_discrepancies s @ [UnmatchedStatement line]\<rparr>))"

fun leftover :: "uuid list \<Rightarrow> nat \<times> nat \<Rightarrow> transaction list \<Rightarrow> discrepancy list" where
  "leftover used window [] = []"
| "leftover used window (tx # txs) =
     (if tx_id tx \<in> set used then leftover used window txs
      else if tx_effective_at tx \<ge> fst window \<and> tx_effective_at tx \<le> snd window
      then UnmatchedLedger (tx_id tx) (tx_external_id tx) # leftover used window txs
      else leftover used window txs)"

definition match_lines :: "statement_line list \<Rightarrow> transaction list \<Rightarrow> nat \<times> nat \<Rightarrow> nat \<Rightarrow> (match_outcome, recon_error) result" where
  "match_lines lines txs window fuzzy_tolerance_secs =
     rbind (join_lines (index_by_external txs []) lines
              \<lparr>ms_used = [], ms_discrepancies = [], ms_matched = 0, ms_fuzzy = 0, ms_pairs = [], ms_deferred = []\<rparr>) (\<lambda>s.
     rbind (match_deferred fuzzy_tolerance_secs txs (ms_deferred s) s) (\<lambda>s.
     Ok \<lparr>mo_matched = ms_matched s, mo_fuzzy_matched = ms_fuzzy s,
         mo_discrepancies = ms_discrepancies s @ leftover (ms_used s) window txs, mo_matched_pairs = ms_pairs s\<rparr>))"

section \<open>The reconciler\<close>

definition DEFAULT_FUZZY_TOLERANCE_SECS :: nat where
  "DEFAULT_FUZZY_TOLERANCE_SECS = 86400"

record reconciler =
  rc_window :: "nat \<times> nat"
  rc_fuzzy_tolerance_secs :: nat

definition reconciler_new :: "nat \<Rightarrow> nat \<Rightarrow> (reconciler, recon_error) result" where
  "reconciler_new start stop =
     (if stop < start then Err (InvalidWindow start stop)
      else Ok \<lparr>rc_window = (start, stop), rc_fuzzy_tolerance_secs = DEFAULT_FUZZY_TOLERANCE_SECS\<rparr>)"

definition with_fuzzy_tolerance_secs :: "nat \<Rightarrow> reconciler \<Rightarrow> reconciler" where
  "with_fuzzy_tolerance_secs secs r = r\<lparr>rc_fuzzy_tolerance_secs := secs\<rparr>"

record reconciliation_report =
  rp_window :: "nat \<times> nat"
  rp_matched :: nat
  rp_fuzzy_matched :: nat
  rp_discrepancies :: "discrepancy list"
  rp_matched_pairs :: "matched_pair list"

text \<open>A line that does not parse ends the run with its error.\<close>

fun collect_lines :: "(statement_line, recon_error) result list \<Rightarrow> (statement_line list, recon_error) result" where
  "collect_lines [] = Ok []"
| "collect_lines (r # rs) = rbind r (\<lambda>l. rbind (collect_lines rs) (\<lambda>ls. Ok (l # ls)))"

definition reconcile :: "reconciler \<Rightarrow> (statement_line, recon_error) result list \<Rightarrow> transaction list \<Rightarrow> (reconciliation_report, recon_error) result" where
  "reconcile r source ledger_txs =
     rbind (collect_lines source) (\<lambda>lines.
     rbind (match_lines lines ledger_txs (rc_window r) (rc_fuzzy_tolerance_secs r)) (\<lambda>out.
     Ok \<lparr>rp_window = rc_window r, rp_matched = mo_matched out, rp_fuzzy_matched = mo_fuzzy_matched out,
         rp_discrepancies = mo_discrepancies out, rp_matched_pairs = mo_matched_pairs out\<rparr>))"

definition is_clean :: "reconciliation_report \<Rightarrow> bool" where
  "is_clean r \<longleftrightarrow> rp_discrepancies r = []"

definition reconciled :: "reconciliation_report \<Rightarrow> nat" where
  "reconciled r = rp_matched r + rp_fuzzy_matched r"

section \<open>Every line is accounted for\<close>

text \<open>The line a discrepancy is about, and what a state has accounted for so far.\<close>

fun line_ids :: "discrepancy \<Rightarrow> string list" where
  "line_ids (UnmatchedStatement l) = [sl_source_id l]"
| "line_ids (UnmatchedLedger _ _) = []"
| "line_ids (AmountMismatch l _ _) = [sl_source_id l]"
| "line_ids (StatusMismatch l _ _) = [sl_source_id l]"

definition accounted :: "matched_pair list \<Rightarrow> discrepancy list \<Rightarrow> string multiset" where
  "accounted ps ds = mset (map mp_source_id ps) + mset (concat (map line_ids ds))"

lemma accounted_append [simp]: "accounted (ps @ ps') (ds @ ds') = accounted ps ds + accounted ps' ds'"
  by (simp add: accounted_def)

lemma accounted_single [simp]:
  "accounted [p] [] = {#mp_source_id p#}" "accounted [] [d] = mset (line_ids d)" "accounted [] [] = {#}"
  by (simp_all add: accounted_def)

text \<open>What a state of the matcher guarantees about the pairs it holds and the transactions it has used.\<close>

definition pair_ok :: "statement_line list \<Rightarrow> transaction list \<Rightarrow> nat \<Rightarrow> matched_pair \<Rightarrow> bool" where
  "pair_ok lines txs tol p \<longleftrightarrow> (\<exists>l\<in>set lines. \<exists>tx\<in>set txs. sl_source_id l = mp_source_id p \<and> tx_id tx = mp_tx_id p
     \<and> (\<exists>m. tx_settled_amount tx = Ok (Some m) \<and> currency m = currency (sl_amount l) \<and> minor_units m = minor_units (sl_amount l))
     \<and> (if mp_fuzzy p then abs_diff (tx_effective_at tx) (sl_posted_at l) \<le> tol
        else tx_state tx = Posted \<and> (\<exists>ext. sl_external_id l = Some ext \<and> tx_external_id tx = Some ext)))"

definition refers :: "statement_line list \<Rightarrow> transaction list \<Rightarrow> matched_pair list \<Rightarrow> discrepancy list \<Rightarrow> uuid \<Rightarrow> bool" where
  "refers lines txs ps ds u \<longleftrightarrow> (\<exists>p\<in>set ps. mp_tx_id p = u)
     \<or> (\<exists>l\<in>set lines. (\<exists>a. AmountMismatch l u a \<in> set ds) \<or> (\<exists>st. StatusMismatch l u st \<in> set ds)
          \<or> UnmatchedStatement l \<in> set ds \<and> (\<exists>tx\<in>set txs. tx_id tx = u \<and> tx_settled_amount tx = Ok None \<and> sl_external_id l \<noteq> None \<and> tx_external_id tx = sl_external_id l))"

definition match_inv :: "statement_line list \<Rightarrow> transaction list \<Rightarrow> nat \<Rightarrow> match_state \<Rightarrow> bool" where
  "match_inv lines txs tol s \<longleftrightarrow> (\<forall>p\<in>set (ms_pairs s). pair_ok lines txs tol p \<and> mp_tx_id p \<in> set (ms_used s))
     \<and> distinct (map mp_tx_id (filter mp_fuzzy (ms_pairs s)))
     \<and> (\<forall>p\<in>set (ms_pairs s). \<forall>q\<in>set (ms_pairs s). mp_fuzzy p \<longrightarrow> \<not> mp_fuzzy q \<longrightarrow> mp_tx_id p \<noteq> mp_tx_id q)
     \<and> (\<forall>u\<in>set (ms_used s). refers lines txs (ms_pairs s) (ms_discrepancies s) u)
     \<and> ms_matched s = length (filter (\<lambda>p. \<not> mp_fuzzy p) (ms_pairs s)) \<and> ms_fuzzy s = length (filter mp_fuzzy (ms_pairs s))"

lemma refers_mono: "refers lines txs ps ds u \<Longrightarrow> refers lines txs (ps @ ps') (ds @ ds') u"
  unfolding refers_def by auto

lemma index_by_external_get:
  "hm_get (index_by_external txs m) ext = Some tx \<Longrightarrow> (tx \<in> set txs \<and> tx_external_id tx = Some ext) \<or> hm_get m ext = Some tx"
proof (induction txs arbitrary: m)
  case (Cons t txs)
  then show ?case by (auto split: option.splits if_splits dest!: Cons.IH)
qed simp

text \<open>The four ways a state grows.\<close>

lemma match_inv_defer [simp]: "match_inv lines txs tol (s\<lparr>ms_deferred := ds\<rparr>) = match_inv lines txs tol s"
  by (simp add: match_inv_def)

lemma match_inv_discrepancy:
  assumes "match_inv lines txs tol s" and "us = [] \<or> us = [u] \<and> refers lines txs (ms_pairs s) (ms_discrepancies s @ [d]) u"
  shows "match_inv lines txs tol (s\<lparr>ms_used := us @ ms_used s, ms_discrepancies := ms_discrepancies s @ [d]\<rparr>)"
  using assms refers_mono [of lines txs "ms_pairs s" "ms_discrepancies s" _ "[]" "[d]"] by (auto simp: match_inv_def)

lemma match_inv_pair:
  assumes inv: "match_inv lines txs tol s" and ok: "pair_ok lines txs tol p"
    and fresh: "if mp_fuzzy p then mp_tx_id p \<notin> set (ms_used s) else list_all (\<lambda>q. \<not> mp_fuzzy q) (ms_pairs s)"
  shows "match_inv lines txs tol (s\<lparr>ms_used := mp_tx_id p # ms_used s, ms_pairs := ms_pairs s @ [p],
    ms_matched := ms_matched s + (if mp_fuzzy p then 0 else 1), ms_fuzzy := ms_fuzzy s + (if mp_fuzzy p then 1 else 0)\<rparr>)"
proof -
  have mono: "refers lines txs (ms_pairs s @ [p]) (ms_discrepancies s) u" if "refers lines txs (ms_pairs s) (ms_discrepancies s) u" for u
    using refers_mono [OF that, of "[p]" "[]"] by simp
  have here: "refers lines txs (ms_pairs s @ [p]) (ms_discrepancies s) (mp_tx_id p)" by (auto simp: refers_def)
  have used: "\<forall>q\<in>set (ms_pairs s). mp_tx_id q \<in> set (ms_used s)" using inv by (simp add: match_inv_def)
  show ?thesis using inv ok fresh used mono here by (cases "mp_fuzzy p") (auto simp: match_inv_def list_all_iff)
qed

lemma join_line_inv:
  assumes step: "join_line (index_by_external txs []) l s = Ok s'" and l: "l \<in> set lines" and inv: "match_inv lines txs tol s"
    and exact: "list_all (\<lambda>p. \<not> mp_fuzzy p) (ms_pairs s)"
  shows "match_inv lines txs tol s' \<and> list_all (\<lambda>p. \<not> mp_fuzzy p) (ms_pairs s')
    \<and> accounted (ms_pairs s') (ms_discrepancies s') + mset (map sl_source_id (ms_deferred s'))
      = accounted (ms_pairs s) (ms_discrepancies s) + mset (map sl_source_id (ms_deferred s)) + {#sl_source_id l#}
    \<and> set (ms_deferred s') \<subseteq> insert l (set (ms_deferred s))"
proof (cases "\<exists>ext tx. sl_external_id l = Some ext \<and> hm_get (index_by_external txs []) ext = Some tx")
  case False
  then have "s' = s\<lparr>ms_deferred := ms_deferred s @ [l]\<rparr>" using step by (auto simp: join_line_def split: option.splits)
  then show ?thesis using inv exact by auto
next
  case True
  then obtain ext tx where ext: "sl_external_id l = Some ext" and get: "hm_get (index_by_external txs []) ext = Some tx" by blast
  have tx: "tx \<in> set txs" "tx_external_id tx = Some ext" using index_by_external_get [OF get] by auto
  obtain amount where am: "tx_settled_amount tx = Ok amount" using step ext get by (auto simp: join_line_def Let_def)
  have disc: ?thesis if "s' = s\<lparr>ms_used := [tx_id tx] @ ms_used s, ms_discrepancies := ms_discrepancies s @ [d]\<rparr>"
      "line_ids d = [sl_source_id l]" "refers lines txs (ms_pairs s) (ms_discrepancies s @ [d]) (tx_id tx)" for d
    using match_inv_discrepancy [OF inv, of "[tx_id tx]" "tx_id tx" d] that exact accounted_append [of "ms_pairs s" "[]" "ms_discrepancies s" "[d]"]
    by (simp add: subset_insertI)
  show ?thesis
  proof (cases amount)
    case None
    show ?thesis
    proof (rule disc [of "UnmatchedStatement l"])
      show "refers lines txs (ms_pairs s) (ms_discrepancies s @ [UnmatchedStatement l]) (tx_id tx)"
        unfolding refers_def by (intro disjI2 bexI [OF _ l]) (use tx ext am None in auto)
    qed (use step ext get am None in \<open>simp_all add: join_line_def\<close>)
  next
    case (Some a)
    consider "currency a \<noteq> currency (sl_amount l) \<or> minor_units a \<noteq> minor_units (sl_amount l)"
      | "currency a = currency (sl_amount l)" "minor_units a = minor_units (sl_amount l)" "tx_state tx \<noteq> Posted"
      | "currency a = currency (sl_amount l)" "minor_units a = minor_units (sl_amount l)" "tx_state tx = Posted"
      by blast
    then show ?thesis
    proof cases
      case 1
      show ?thesis
      proof (rule disc [of "AmountMismatch l (tx_id tx) a"])
        show "refers lines txs (ms_pairs s) (ms_discrepancies s @ [AmountMismatch l (tx_id tx) a]) (tx_id tx)"
          unfolding refers_def using l by auto
      qed (use step ext get am Some 1 in \<open>auto simp: join_line_def\<close>)
    next
      case 2
      show ?thesis
      proof (rule disc [of "StatusMismatch l (tx_id tx) (tx_state tx)"])
        show "refers lines txs (ms_pairs s) (ms_discrepancies s @ [StatusMismatch l (tx_id tx) (tx_state tx)]) (tx_id tx)"
          unfolding refers_def using l by auto
      qed (use step ext get am Some 2 in \<open>simp_all add: join_line_def status_is_consistent_def\<close>)
    next
      case 3
      let ?p = "\<lparr>mp_source_id = sl_source_id l, mp_tx_id = tx_id tx, mp_fuzzy = False\<rparr>"
      have s': "s' = s\<lparr>ms_used := tx_id tx # ms_used s, ms_pairs := ms_pairs s @ [?p], ms_matched := ms_matched s + 1\<rparr>"
        using step ext get am Some 3 by (cases s) (auto simp: join_line_def status_is_consistent_def)
      have "pair_ok lines txs tol ?p" unfolding pair_ok_def using l tx ext am Some 3 by auto
      from match_inv_pair [OF inv this] exact show ?thesis unfolding s'
        using accounted_append [of "ms_pairs s" "[?p]" "ms_discrepancies s" "[]"] by (simp add: subset_insertI)
    qed
  qed
qed

lemma join_lines_inv:
  assumes "join_lines (index_by_external txs []) ls s = Ok s'" and "set ls \<subseteq> set lines" and "match_inv lines txs tol s"
    and "list_all (\<lambda>p. \<not> mp_fuzzy p) (ms_pairs s)" and "set (ms_deferred s) \<subseteq> set lines"
  shows "match_inv lines txs tol s' \<and> set (ms_deferred s') \<subseteq> set lines
    \<and> accounted (ms_pairs s') (ms_discrepancies s') + mset (map sl_source_id (ms_deferred s'))
      = accounted (ms_pairs s) (ms_discrepancies s) + mset (map sl_source_id (ms_deferred s)) + mset (map sl_source_id ls)"
  using assms
proof (induction ls arbitrary: s)
  case (Cons l ls)
  then obtain t where t: "join_line (index_by_external txs []) l s = Ok t" "join_lines (index_by_external txs []) ls t = Ok s'" by auto
  have l: "l \<in> set lines" "set ls \<subseteq> set lines" using Cons.prems(2) by auto
  note step = join_line_inv [OF t(1) l(1) Cons.prems(3,4)]
  moreover have "set (ms_deferred t) \<subseteq> set lines" using step Cons.prems(5) l(1) by blast
  ultimately show ?case using Cons.IH [OF t(2) l(2)] by (simp add: add.assoc)
qed simp

lemma find_similar_sound:
  "find_similar used tol l txs = Ok (Some tx) \<Longrightarrow> tx \<in> set txs \<and> tx_id tx \<notin> set used
     \<and> (\<exists>m. tx_settled_amount tx = Ok (Some m) \<and> currency m = currency (sl_amount l) \<and> minor_units m = minor_units (sl_amount l))
     \<and> abs_diff (tx_effective_at tx) (sl_posted_at l) \<le> tol"
proof (induction txs)
  case (Cons t txs)
  then show ?case by (auto split: if_splits option.splits)
qed simp

lemma match_deferred_inv:
  assumes "match_deferred tol txs ls s = Ok s'" and "set ls \<subseteq> set lines" and "match_inv lines txs tol s"
  shows "match_inv lines txs tol s'
    \<and> accounted (ms_pairs s') (ms_discrepancies s') = accounted (ms_pairs s) (ms_discrepancies s) + mset (map sl_source_id ls)"
  using assms
proof (induction ls arbitrary: s)
  case (Cons l ls)
  then obtain hit where hit: "find_similar (ms_used s) tol l txs = Ok hit" by auto
  have l: "l \<in> set lines" "set ls \<subseteq> set lines" using Cons.prems(2) by auto
  show ?case
  proof (cases hit)
    case None
    let ?t = "s\<lparr>ms_discrepancies := ms_discrepancies s @ [UnmatchedStatement l]\<rparr>"
    have "match_deferred tol txs ls ?t = Ok s'" using Cons.prems(1) hit None by simp
    moreover have "match_inv lines txs tol ?t" using match_inv_discrepancy [OF Cons.prems(3), of "[]"] by simp
    ultimately show ?thesis
      using Cons.IH [OF _ l(2)] accounted_append [of "ms_pairs s" "[]" "ms_discrepancies s" "[UnmatchedStatement l]"] by simp
  next
    case (Some tx)
    let ?p = "\<lparr>mp_source_id = sl_source_id l, mp_tx_id = tx_id tx, mp_fuzzy = True\<rparr>"
    let ?t = "s\<lparr>ms_used := tx_id tx # ms_used s, ms_fuzzy := ms_fuzzy s + 1, ms_pairs := ms_pairs s @ [?p]\<rparr>"
    have tx: "tx \<in> set txs \<and> tx_id tx \<notin> set (ms_used s)
        \<and> (\<exists>m. tx_settled_amount tx = Ok (Some m) \<and> currency m = currency (sl_amount l) \<and> minor_units m = minor_units (sl_amount l))
        \<and> abs_diff (tx_effective_at tx) (sl_posted_at l) \<le> tol"
      using find_similar_sound hit Some by simp
    have "match_deferred tol txs ls ?t = Ok s'" using Cons.prems(1) hit Some by simp
    moreover have "pair_ok lines txs tol ?p" unfolding pair_ok_def using l tx by auto
    from match_inv_pair [OF Cons.prems(3) this] tx have "match_inv lines txs tol ?t" by (simp add: match_inv_def)
    ultimately show ?thesis
      using Cons.IH [OF _ l(2)] accounted_append [of "ms_pairs s" "[?p]" "ms_discrepancies s" "[]"] by simp
  qed
qed simp

lemma leftover_iff:
  "d \<in> set (leftover used w txs) \<longleftrightarrow> (\<exists>tx\<in>set txs. tx_id tx \<notin> set used \<and> fst w \<le> tx_effective_at tx \<and> tx_effective_at tx \<le> snd w
     \<and> d = UnmatchedLedger (tx_id tx) (tx_external_id tx))"
  by (induction txs) auto

lemma leftover_line_ids: "concat (map line_ids (leftover used w txs)) = []"
  by (induction txs) auto

text \<open>A run from the empty state.\<close>

lemma match_lines_run:
  assumes "match_lines lines txs w tol = Ok out"
  obtains s where "match_inv lines txs tol s" "accounted (ms_pairs s) (ms_discrepancies s) = mset (map sl_source_id lines)"
    "out = \<lparr>mo_matched = ms_matched s, mo_fuzzy_matched = ms_fuzzy s,
      mo_discrepancies = ms_discrepancies s @ leftover (ms_used s) w txs, mo_matched_pairs = ms_pairs s\<rparr>"
proof -
  let ?s0 = "\<lparr>ms_used = [], ms_discrepancies = [], ms_matched = 0, ms_fuzzy = 0, ms_pairs = [], ms_deferred = []\<rparr>"
  obtain s1 s where s1: "join_lines (index_by_external txs []) lines ?s0 = Ok s1" and s: "match_deferred tol txs (ms_deferred s1) s1 = Ok s"
    and out: "out = \<lparr>mo_matched = ms_matched s, mo_fuzzy_matched = ms_fuzzy s,
      mo_discrepancies = ms_discrepancies s @ leftover (ms_used s) w txs, mo_matched_pairs = ms_pairs s\<rparr>"
    using assms by (auto simp: match_lines_def)
  have "match_inv lines txs tol ?s0" by (simp add: match_inv_def)
  with join_lines_inv [OF s1 subset_refl this] have inv1: "match_inv lines txs tol s1" "set (ms_deferred s1) \<subseteq> set lines"
    "accounted (ms_pairs s1) (ms_discrepancies s1) + mset (map sl_source_id (ms_deferred s1)) = mset (map sl_source_id lines)"
    by simp_all
  from match_deferred_inv [OF s inv1(2,1)] inv1(3) show ?thesis by (intro that [OF _ _ out]) simp_all
qed

section \<open>The report is complete and sound\<close>

text \<open>Transactions whose debit side fits an \<^verbatim>\<open>i64\<close> are valued without a panic, so the matcher returns.\<close>

definition debit_total :: "entry list \<Rightarrow> int" where
  "debit_total es = sum_list (map (\<lambda>e. \<bar>minor_units (en_amount e)\<bar>) (filter (\<lambda>e. en_direction e = Debit) es))"

lemma debit_total_nonneg: "0 \<le> debit_total es"
  by (induction es) (auto simp: debit_total_def)

lemma settled_loop_returns:
  assumes "debit_total es + (case acc of None \<Rightarrow> 0 | Some m \<Rightarrow> minor_units m) \<le> i64_max" and "case acc of None \<Rightarrow> True | Some m \<Rightarrow> 0 \<le> minor_units m"
  shows "\<exists>r. settled_loop es acc = Ok r"
  using assms
proof (induction es arbitrary: acc)
  case (Cons e es)
  show ?case
  proof (cases "en_direction e = Debit")
    case True
    then have d: "debit_total (e # es) = \<bar>minor_units (en_amount e)\<bar> + debit_total es" by (simp add: debit_total_def)
    have r: "i64_val \<bar>minor_units (en_amount e)\<bar> = (Ok \<bar>minor_units (en_amount e)\<bar> :: (int, recon_error) result)"
      using Cons.prems d debit_total_nonneg [of es] by (auto simp: i64_val_def in_i64_def split: option.splits)
    show ?thesis
    proof (cases acc)
      case None
      then show ?thesis using Cons.IH [of "Some \<lparr>minor_units = \<bar>minor_units (en_amount e)\<bar>, currency = currency (en_amount e)\<rparr>"] Cons.prems d r True
        by auto
    next
      case (Some m)
      have "i64_val (minor_units m + \<bar>minor_units (en_amount e)\<bar>) = (Ok (minor_units m + \<bar>minor_units (en_amount e)\<bar>) :: (int, recon_error) result)"
        using Cons.prems d Some debit_total_nonneg [of es] by (auto simp: i64_val_def in_i64_def)
      then show ?thesis using Cons.IH [of "Some (m\<lparr>minor_units := minor_units m + \<bar>minor_units (en_amount e)\<bar>\<rparr>)"] Cons.prems d r True Some
        by auto
    qed
  next
    case False
    then show ?thesis using Cons by (auto simp: debit_total_def)
  qed
qed simp

lemma settled_returns: "debit_total (tx_entries tx) \<le> i64_max \<Longrightarrow> \<exists>r. tx_settled_amount tx = Ok r"
  unfolding tx_settled_amount_def by (rule settled_loop_returns) simp_all

definition fits :: "transaction list \<Rightarrow> bool" where
  "fits txs \<longleftrightarrow> list_all (\<lambda>tx. \<exists>r. tx_settled_amount tx = Ok r) txs"

lemma find_similar_returns: "fits txs \<Longrightarrow> \<exists>r. find_similar used tol l txs = Ok r"
proof (induction txs)
  case (Cons tx txs)
  then obtain r a where "find_similar used tol l txs = Ok r" "tx_settled_amount tx = Ok a"
    by (auto simp: fits_def)
  then show ?case by (auto simp del: rbind_eq_Ok split: option.splits)
qed simp

lemma match_deferred_returns: "fits txs \<Longrightarrow> \<exists>r. match_deferred tol txs ls s = Ok r"
proof (induction ls arbitrary: s)
  case (Cons l ls)
  obtain hit where "find_similar (ms_used s) tol l txs = Ok hit" using find_similar_returns [OF Cons.prems] by blast
  then show ?case using Cons by (simp del: rbind_eq_Ok)
qed simp

lemma join_lines_returns: "fits txs \<Longrightarrow> \<exists>r. join_lines (index_by_external txs []) ls s = Ok r"
proof (induction ls arbitrary: s)
  case (Cons l ls)
  have "\<exists>t. join_line (index_by_external txs []) l s = Ok t"
  proof (cases "\<exists>ext tx. sl_external_id l = Some ext \<and> hm_get (index_by_external txs []) ext = Some tx")
    case True
    then obtain ext tx where e: "sl_external_id l = Some ext" "hm_get (index_by_external txs []) ext = Some tx" by blast
    then have "tx \<in> set txs" using index_by_external_get by fastforce
    then obtain a where "tx_settled_amount tx = Ok a" using Cons.prems by (auto simp: fits_def list_all_iff)
    then show ?thesis using e by (auto simp: join_line_def Let_def simp del: rbind_eq_Ok split: option.splits)
  qed (auto simp: join_line_def split: option.splits)
  then show ?case using Cons by (auto simp del: rbind_eq_Ok)
qed simp

lemma match_lines_returns: "fits txs \<Longrightarrow> \<exists>out. match_lines lines txs w tol = Ok out"
proof -
  assume f: "fits txs"
  let ?s0 = "\<lparr>ms_used = [], ms_discrepancies = [], ms_matched = 0, ms_fuzzy = 0, ms_pairs = [], ms_deferred = []\<rparr>"
  obtain s where s: "join_lines (index_by_external txs []) lines ?s0 = Ok s" using join_lines_returns [OF f] by blast
  obtain t where "match_deferred tol txs (ms_deferred s) s = Ok t" using match_deferred_returns [OF f] by blast
  with s show ?thesis by (simp add: match_lines_def del: rbind_eq_Ok)
qed

text \<open>
  C27.  Nothing is lost: against transactions that can be valued (they have a debit side in one currency whose sum fits the amount type), the matcher
  returns a report in which every line of the statement is accounted for exactly once, as a pair or as a discrepancy, the two counters count the
  pairs, and every transaction of the window is in a pair, named by an amount or status mismatch, or reported as unmatched.
\<close>

theorem reconciliation_accounts_for_everything:
  assumes "list_all (\<lambda>tx. \<exists>a. tx_settled_amount tx = Ok (Some a)) txs"
  shows "\<exists>out. match_lines lines txs w tol = Ok out
    \<and> mset (map sl_source_id lines) = mset (map mp_source_id (mo_matched_pairs out)) + mset (concat (map line_ids (mo_discrepancies out)))
    \<and> mo_matched out = length (filter (\<lambda>p. \<not> mp_fuzzy p) (mo_matched_pairs out)) \<and> mo_fuzzy_matched out = length (filter mp_fuzzy (mo_matched_pairs out))
    \<and> (\<forall>tx\<in>set txs. fst w \<le> tx_effective_at tx \<and> tx_effective_at tx \<le> snd w \<longrightarrow>
        (\<exists>p\<in>set (mo_matched_pairs out). mp_tx_id p = tx_id tx)
        \<or> (\<exists>l a. AmountMismatch l (tx_id tx) a \<in> set (mo_discrepancies out)) \<or> (\<exists>l st. StatusMismatch l (tx_id tx) st \<in> set (mo_discrepancies out))
        \<or> UnmatchedLedger (tx_id tx) (tx_external_id tx) \<in> set (mo_discrepancies out))"
proof -
  have "fits txs" using assms by (auto simp: fits_def list_all_iff)
  then obtain out where out: "match_lines lines txs w tol = Ok out" using match_lines_returns by blast
  from match_lines_run [OF out] obtain s where s: "match_inv lines txs tol s" "accounted (ms_pairs s) (ms_discrepancies s) = mset (map sl_source_id lines)"
    and o: "out = \<lparr>mo_matched = ms_matched s, mo_fuzzy_matched = ms_fuzzy s,
      mo_discrepancies = ms_discrepancies s @ leftover (ms_used s) w txs, mo_matched_pairs = ms_pairs s\<rparr>" .
  have "(\<exists>p\<in>set (mo_matched_pairs out). mp_tx_id p = tx_id tx)
      \<or> (\<exists>l a. AmountMismatch l (tx_id tx) a \<in> set (mo_discrepancies out)) \<or> (\<exists>l st. StatusMismatch l (tx_id tx) st \<in> set (mo_discrepancies out))
      \<or> UnmatchedLedger (tx_id tx) (tx_external_id tx) \<in> set (mo_discrepancies out)"
    if "tx \<in> set txs" "fst w \<le> tx_effective_at tx" "tx_effective_at tx \<le> snd w" for tx
  proof (cases "tx_id tx \<in> set (ms_used s)")
    case True
    then have "refers lines txs (ms_pairs s) (ms_discrepancies s) (tx_id tx)" using s(1) by (simp add: match_inv_def)
    moreover have "tx_settled_amount t \<noteq> Ok None" if "t \<in> set txs" for t using assms that by (auto simp: list_all_iff)
    ultimately show ?thesis unfolding refers_def o by auto
  qed (use that o in \<open>auto simp: leftover_iff\<close>)
  then show ?thesis using out s o by (auto simp: accounted_def leftover_line_ids match_inv_def)
qed

text \<open>
  C28.  Every reported pair is justified: line and transaction agree in currency and amount; a pair by reference shares the
  reference with a posted transaction, a heuristic pair is within the tolerance; no transaction is in two heuristic pairs, nor in a
  heuristic pair and one by reference.
\<close>

theorem reconciliation_pairs_sound:
  assumes "match_lines lines txs w tol = Ok out"
  shows "list_all (\<lambda>p. \<exists>l\<in>set lines. \<exists>tx\<in>set txs. sl_source_id l = mp_source_id p \<and> tx_id tx = mp_tx_id p
      \<and> tx_settled_amount tx = Ok (Some (sl_amount l))
      \<and> (if mp_fuzzy p then abs_diff (tx_effective_at tx) (sl_posted_at l) \<le> tol
         else tx_state tx = Posted \<and> (\<exists>ext. sl_external_id l = Some ext \<and> tx_external_id tx = Some ext))) (mo_matched_pairs out)
    \<and> distinct (map mp_tx_id (filter mp_fuzzy (mo_matched_pairs out)))
    \<and> list_all (\<lambda>p. list_all (\<lambda>q. mp_fuzzy p \<longrightarrow> \<not> mp_fuzzy q \<longrightarrow> mp_tx_id p \<noteq> mp_tx_id q) (mo_matched_pairs out)) (mo_matched_pairs out)"
proof -
  from match_lines_run [OF assms] obtain s where s: "match_inv lines txs tol s"
    and o: "out = \<lparr>mo_matched = ms_matched s, mo_fuzzy_matched = ms_fuzzy s,
      mo_discrepancies = ms_discrepancies s @ leftover (ms_used s) w txs, mo_matched_pairs = ms_pairs s\<rparr>" .
  have eq: "currency m = currency a \<and> minor_units m = minor_units a \<longleftrightarrow> m = a" for m a :: money by auto
  have "\<exists>l\<in>set lines. \<exists>tx\<in>set txs. sl_source_id l = mp_source_id p \<and> tx_id tx = mp_tx_id p \<and> tx_settled_amount tx = Ok (Some (sl_amount l))
      \<and> (if mp_fuzzy p then abs_diff (tx_effective_at tx) (sl_posted_at l) \<le> tol
         else tx_state tx = Posted \<and> (\<exists>ext. sl_external_id l = Some ext \<and> tx_external_id tx = Some ext))"
    if "p \<in> set (ms_pairs s)" for p
  proof -
    have "pair_ok lines txs tol p" using s that by (simp add: match_inv_def)
    then show ?thesis unfolding pair_ok_def eq by blast
  qed
  then show ?thesis using s unfolding o list_all_iff match_inv_def by simp
qed

section \<open>What the matcher does not look at\<close>

text \<open>
  A reference counted twice: two lines of a statement that carry the same reference and amount, such as a line ingested twice, are both matched
  to the one posted transaction, and the report is clean, whatever the directions of the two lines.
\<close>

theorem repeated_reference_is_clean:
  assumes "tx_external_id tx = Some ext" and "tx_state tx = Posted" and "tx_settled_amount tx = Ok (Some a)"
    and "sl_external_id l = Some ext" and "sl_external_id l' = Some ext" and "sl_amount l = a" and "sl_amount l' = a"
  shows "\<exists>rep. reconcile r [Ok l, Ok l'] [tx] = Ok rep \<and> is_clean rep \<and> rp_matched rep = 2
    \<and> map mp_tx_id (rp_matched_pairs rep) = [tx_id tx, tx_id tx]"
  using assms by (simp add: reconcile_def match_lines_def join_line_def status_is_consistent_def is_clean_def)

definition sample_tx :: transaction where
  "sample_tx = \<lparr>tx_id = 7, tx_ledger_id = 1, tx_state = Posted, tx_external_id = Some ''ord-1'', tx_description = None, tx_effective_at = 100,
     tx_entries = [debit 1 (from_minor 500 USD), credit 2 (from_minor 500 USD)], tx_metadata = []\<rparr>"

definition sample_line :: "string \<Rightarrow> string option \<Rightarrow> line_direction \<Rightarrow> statement_line" where
  "sample_line i ext d = \<lparr>sl_source_id = i, sl_external_id = ext, sl_amount = from_minor 500 USD, sl_direction = d, sl_posted_at = 90, sl_metadata = []\<rparr>"

lemma sample_tx_settled: "tx_settled_amount sample_tx = Ok (Some (from_minor 500 USD))"
  by (simp add: sample_tx_def tx_settled_amount_def debit_def credit_def new_entry_def from_minor_def in_i64_def)

theorem repeated_reference_is_clean_witness:
  "\<exists>rep. reconcile \<lparr>rc_window = (0, 200), rc_fuzzy_tolerance_secs = 10\<rparr>
      [Ok (sample_line ''a'' (Some ''ord-1'') LineCredit), Ok (sample_line ''b'' (Some ''ord-1'') LineDebit)] [sample_tx] = Ok rep \<and> is_clean rep"
  using repeated_reference_is_clean [OF _ _ sample_tx_settled, of "''ord-1''" "sample_line ''a'' (Some ''ord-1'') LineCredit"
      "sample_line ''b'' (Some ''ord-1'') LineDebit" "\<lparr>rc_window = (0, 200), rc_fuzzy_tolerance_secs = 10\<rparr>"]
  by (auto simp: sample_tx_def sample_line_def)

theorem reconciliation_accounts_for_everything_witness:
  "\<exists>out. match_lines [sample_line ''a'' None LineCredit] [sample_tx] (0, 200) 10 = Ok out \<and> length (mo_matched_pairs out) + length (mo_discrepancies out) > 0"
proof -
  have "list_all (\<lambda>tx. \<exists>a. tx_settled_amount tx = Ok (Some a)) [sample_tx]" using sample_tx_settled by simp
  from reconciliation_accounts_for_everything [OF this, of "[sample_line ''a'' None LineCredit]" "(0, 200)" 10]
  obtain out where "match_lines [sample_line ''a'' None LineCredit] [sample_tx] (0, 200) 10 = Ok out"
    "mset [''a''] = mset (map mp_source_id (mo_matched_pairs out)) + mset (concat (map line_ids (mo_discrepancies out)))"
    by (auto simp: sample_line_def)
  then show ?thesis by (cases "mo_matched_pairs out"; cases "mo_discrepancies out") auto
qed

theorem reconciliation_pairs_sound_witness:
  "\<exists>out. match_lines [sample_line ''a'' None LineCredit] [sample_tx] (0, 200) 10 = Ok out
    \<and> map mp_tx_id (mo_matched_pairs out) = [7] \<and> distinct (map mp_tx_id (filter mp_fuzzy (mo_matched_pairs out)))"
proof -
  have e: "match_lines [sample_line ''a'' None LineCredit] [sample_tx] (0, 200) 10 = Ok
      \<lparr>mo_matched = 0, mo_fuzzy_matched = 1, mo_discrepancies = [], mo_matched_pairs = [\<lparr>mp_source_id = ''a'', mp_tx_id = 7, mp_fuzzy = True\<rparr>]\<rparr>"
    using sample_tx_settled by (simp add: match_lines_def join_line_def sample_line_def sample_tx_def abs_diff_def)
  show ?thesis using reconciliation_pairs_sound [OF e] e by simp
qed

end
