(* ===== verification/Revenue.thy ===== *)
theory Revenue
  imports Money
begin

text \<open>
  Revenue recognition (\<^verbatim>\<open>op-revrec/src/contract.rs\<close>, \<^verbatim>\<open>variable.rs\<close>, \<^verbatim>\<open>schedule.rs\<close>, \<^verbatim>\<open>modification.rs\<close>, \<^verbatim>\<open>principal_agent.rs\<close>): the contract with
  its performance obligations, the transaction price with its constrained variable part, the allocation by standalone
  selling price and the recognition schedule of an obligation.

  A \<^verbatim>\<open>chrono::NaiveDate\<close> is its day number, so that its order and \<^verbatim>\<open>num_days\<close> of a difference are those of \<open>int\<close>; the civil calendar
  (year and month of a date, date of a year, month and day, neighbours within the supported range) is the parameter \<open>chrono\<close>.
  \<^verbatim>\<open>rust_decimal::Decimal\<close> is a type parameter with its operations in \<open>decimal\<close>; an operation that panics on overflow returns \<open>None\<close>.
  A loop of \<^verbatim>\<open>straight_line\<close> that never ends is the outer \<open>None\<close>.
\<close>

section \<open>Errors and third-party types\<close>

datatype rev_error =
    UnknownObligation string
  | ZeroStandaloneSellingPrice
  | RevCurrencyMismatch
  | RevMoney core_error
  | VariableConstraintBreached int int
  | RefundExceedsRecognized int int
  | InvalidPeriod string string
  | ModificationRejected string
  | MissingFxRate string string string
  | Invariant string

type_synonym naive_date = int

record chrono =
  ch_year :: "naive_date \<Rightarrow> int"
  ch_month :: "naive_date \<Rightarrow> int"
  ch_from_ymd :: "int \<Rightarrow> int \<Rightarrow> int \<Rightarrow> naive_date option"
  ch_succ :: "naive_date \<Rightarrow> naive_date option"
  ch_pred :: "naive_date \<Rightarrow> naive_date option"
  ch_text :: "naive_date \<Rightarrow> string"

record 'd decimal =
  dec_zero :: 'd
  dec_one :: 'd
  dec_eps :: 'd
  dec_from :: "int \<Rightarrow> 'd"
  dec_add :: "'d \<Rightarrow> 'd \<Rightarrow> 'd option"
  dec_sub :: "'d \<Rightarrow> 'd \<Rightarrow> 'd option"
  dec_mul :: "'d \<Rightarrow> 'd \<Rightarrow> 'd option"
  dec_abs :: "'d \<Rightarrow> 'd"
  dec_less :: "'d \<Rightarrow> 'd \<Rightarrow> bool"
  dec_round :: "'d \<Rightarrow> 'd"
  dec_to_i64 :: "'d \<Rightarrow> int option"
  dec_text :: "'d \<Rightarrow> string"

section \<open>Contracts\<close>

record 'd outcome =
  oc_amount_minor :: int
  oc_probability :: 'd

datatype 'd estimation_method =
    ExpectedValue "'d outcome list"
  | MostLikelyAmount int

record 'd variable_consideration =
  vc_label :: string
  vc_method :: "'d estimation_method"
  vc_ceiling_minor :: int

definition expected_value :: "string \<Rightarrow> 'd outcome list \<Rightarrow> int \<Rightarrow> 'd variable_consideration" where
  "expected_value label outcomes ceiling = \<lparr>vc_label = label, vc_method = ExpectedValue outcomes, vc_ceiling_minor = ceiling\<rparr>"

definition most_likely :: "string \<Rightarrow> int \<Rightarrow> int \<Rightarrow> 'd variable_consideration" where
  "most_likely label amount ceiling = \<lparr>vc_label = label, vc_method = MostLikelyAmount amount, vc_ceiling_minor = ceiling\<rparr>"

record 'd milestone =
  mi_label :: string
  mi_date :: naive_date
  mi_fraction :: 'd

record 'd snapshot =
  sn_date :: naive_date
  sn_percent :: 'd

datatype 'd recognition_pattern =
    PointInTime naive_date
  | StraightLine naive_date naive_date
  | OutputMilestones "'d milestone list"
  | InputPercentComplete "'d snapshot list"
  | Usage int

datatype presentation = Gross | Net

record 'd obligation =
  ob_id :: string
  ob_ssp :: money
  ob_pattern :: "'d recognition_pattern"
  ob_presentation :: presentation

record 'd transaction_price =
  tp_currency :: currency
  tp_fixed_minor :: int
  tp_variable :: "'d variable_consideration list"

record 'd contract =
  ct_id :: uuid
  ct_customer_ref :: string
  ct_effective_date :: naive_date
  ct_obligations :: "'d obligation list"
  ct_price :: "'d transaction_price"

definition fixed_price :: "money \<Rightarrow> 'd transaction_price" where
  "fixed_price amount = \<lparr>tp_currency = currency amount, tp_fixed_minor = minor_units amount, tp_variable = []\<rparr>"

subsection \<open>Variable consideration\<close>

fun weighted_sum :: "'d decimal \<Rightarrow> 'd outcome list \<Rightarrow> 'd \<Rightarrow> ('d, rev_error) result" where
  "weighted_sum dc [] acc = Ok acc"
| "weighted_sum dc (oc # ocs) acc =
     rbind (expect (dec_mul dc (dec_from dc (oc_amount_minor oc)) (oc_probability oc))) (\<lambda>w.
     rbind (expect (dec_add dc acc w)) (\<lambda>acc. weighted_sum dc ocs acc))"

definition estimate_minor :: "'d decimal \<Rightarrow> 'd variable_consideration \<Rightarrow> (int, rev_error) result" where
  "estimate_minor dc v =
     (case vc_method v of
        MostLikelyAmount a \<Rightarrow> Ok a
      | ExpectedValue outcomes \<Rightarrow> rbind (weighted_sum dc outcomes (dec_zero dc)) (\<lambda>acc.
          Ok (case dec_to_i64 dc (dec_round dc acc) of Some i \<Rightarrow> i | None \<Rightarrow> i64_max)))"

text \<open>\<^verbatim>\<open>unsigned_abs() as i64\<close> maps the least value to itself; \<^verbatim>\<open>checked_abs\<close> refuses it.\<close>

definition constrained_amount_minor :: "'d decimal \<Rightarrow> 'd variable_consideration \<Rightarrow> (int, rev_error) result" where
  "constrained_amount_minor dc v =
     rbind (estimate_minor dc v) (\<lambda>est.
       let abs = (if est = i64_min then i64_max else \<bar>est\<bar>);
           ceiling = (if vc_ceiling_minor v = i64_min then i64_min else \<bar>vc_ceiling_minor v\<bar>);
           capped = min abs ceiling
       in Ok (case i64_of (sgn est * capped) of Some x \<Rightarrow> x | None \<Rightarrow> 0))"

fun sum_variable :: "'d decimal \<Rightarrow> 'd variable_consideration list \<Rightarrow> int \<Rightarrow> (int, rev_error) result" where
  "sum_variable dc [] acc = Ok acc"
| "sum_variable dc (v # vs) acc =
     rbind (constrained_amount_minor dc v) (\<lambda>a.
     rbind (ok_or (i64_checked_add acc a) (RevMoney Overflow)) (\<lambda>acc. sum_variable dc vs acc))"

definition price_total :: "'d decimal \<Rightarrow> 'd transaction_price \<Rightarrow> (money, rev_error) result" where
  "price_total dc p = rbind (sum_variable dc (tp_variable p) (tp_fixed_minor p)) (\<lambda>acc. Ok (from_minor acc (tp_currency p)))"

subsection \<open>Validation\<close>

fun validate_obligations :: "currency \<Rightarrow> 'd obligation list \<Rightarrow> (unit, rev_error) result" where
  "validate_obligations cur [] = Ok ()"
| "validate_obligations cur (ob # obs) =
     (if currency (ob_ssp ob) \<noteq> cur then Err RevCurrencyMismatch else validate_obligations cur obs)"

definition validate_currencies :: "'d contract \<Rightarrow> (unit, rev_error) result" where
  "validate_currencies c = validate_obligations (tp_currency (ct_price c)) (ct_obligations c)"

fun sum_ssp :: "'d obligation list \<Rightarrow> int \<Rightarrow> (int, rev_error) result" where
  "sum_ssp [] acc = Ok acc"
| "sum_ssp (ob # obs) acc = rbind (ok_or (i64_checked_add acc (minor_units (ob_ssp ob))) (RevMoney Overflow)) (\<lambda>acc. sum_ssp obs acc)"

definition total_ssp_minor :: "'d contract \<Rightarrow> (int, rev_error) result" where
  "total_ssp_minor c = sum_ssp (ct_obligations c) 0"

definition find_obligation :: "'d contract \<Rightarrow> string \<Rightarrow> ('d obligation, rev_error) result" where
  "find_obligation c i = ok_or (find (\<lambda>ob. ob_id ob = i) (ct_obligations c)) (UnknownObligation i)"

section \<open>Allocation\<close>

text \<open>The loop of \<^verbatim>\<open>allocate_transaction_price\<close>; the last obligation takes what is left.\<close>

fun allocate_loop :: "int \<Rightarrow> int \<Rightarrow> 'd obligation list \<Rightarrow> int \<Rightarrow> ((string \<times> int) list, rev_error) result" where
  "allocate_loop total_tp total_ssp [] assigned = Ok []"
| "allocate_loop total_tp total_ssp [ob] assigned =
     rbind (ok_or (i64_checked_sub total_tp assigned) (RevMoney Overflow)) (\<lambda>remainder. Ok [(ob_id ob, remainder)])"
| "allocate_loop total_tp total_ssp (ob # ob' # obs) assigned =
     rbind (ok_or (i64_of ((total_tp * minor_units (ob_ssp ob)) sdiv total_ssp)) (RevMoney Overflow)) (\<lambda>alloc.
     rbind (ok_or (i64_checked_add assigned alloc) (RevMoney Overflow)) (\<lambda>assigned.
     rbind (allocate_loop total_tp total_ssp (ob' # obs) assigned) (\<lambda>out. Ok ((ob_id ob, alloc) # out))))"

definition allocate_transaction_price :: "'d decimal \<Rightarrow> 'd contract \<Rightarrow> ((string \<times> int) list, rev_error) result" where
  "allocate_transaction_price dc c =
     rbind (validate_currencies c) (\<lambda>_.
     rbind (total_ssp_minor c) (\<lambda>total_ssp.
     if total_ssp = 0 then Err ZeroStandaloneSellingPrice
     else rbind (price_total dc (ct_price c)) (\<lambda>total_tp.
       allocate_loop (minor_units total_tp) total_ssp (ct_obligations c) 0)))"

section \<open>Schedules\<close>

record schedule_entry =
  se_obligation_id :: string
  se_date :: naive_date
  se_amount_minor :: int
  se_currency :: currency

record recognition_schedule =
  rs_obligation_id :: string
  rs_entries :: "schedule_entry list"

text \<open>\<^verbatim>\<open>Iterator::sum\<close> over \<^verbatim>\<open>i64\<close> panics on overflow.\<close>

fun sum_entries :: "schedule_entry list \<Rightarrow> int \<Rightarrow> (int, rev_error) result" where
  "sum_entries [] acc = Ok acc"
| "sum_entries (e # es) acc = rbind (i64_val (acc + se_amount_minor e)) (\<lambda>acc. sum_entries es acc)"

definition total_minor :: "recognition_schedule \<Rightarrow> (int, rev_error) result" where
  "total_minor s = sum_entries (rs_entries s) 0"

definition last_day_of_month :: "chrono \<Rightarrow> naive_date \<Rightarrow> naive_date" where
  "last_day_of_month ch d =
     (let y = ch_year ch d; m = ch_month ch d;
          (ny, nm) = (if m = 12 then (y + 1, 1) else (y, m + 1));
          first_of_next = (case ch_from_ymd ch ny nm 1 of Some f \<Rightarrow> f | None \<Rightarrow> d)
      in case ch_pred ch first_of_next of Some p \<Rightarrow> p | None \<Rightarrow> d)"

partial_function (option) month_loop ::
  "chrono \<Rightarrow> string \<Rightarrow> int \<Rightarrow> int \<Rightarrow> currency \<Rightarrow> naive_date \<Rightarrow> naive_date \<Rightarrow> int \<Rightarrow> schedule_entry list
     \<Rightarrow> (schedule_entry list \<times> int, rev_error) result option" where
  "month_loop ch i allocated total_days cur stop cursor assigned entries =
     (if cursor \<le> stop then
        (let month_end = last_day_of_month ch cursor;
             entry_date = (if month_end < stop then month_end else stop);
             days_this_period = entry_date - cursor + 1
         in case i64_of ((allocated * days_this_period) sdiv total_days) of
              None \<Rightarrow> Some (Err (RevMoney Overflow))
            | Some alloc \<Rightarrow>
                (let entries = entries @ [\<lparr>se_obligation_id = i, se_date = entry_date, se_amount_minor = alloc, se_currency = cur\<rparr>] in
                 case i64_checked_add assigned alloc of
                   None \<Rightarrow> Some (Err (RevMoney Overflow))
                 | Some assigned \<Rightarrow> (case ch_succ ch entry_date of
                     None \<Rightarrow> Some (Ok (entries, assigned))
                   | Some c \<Rightarrow>
                       if c > stop then Some (Ok (entries, assigned))
                       else month_loop ch i allocated total_days cur stop c assigned entries)))
      else Some (Ok (entries, assigned)))"

text \<open>The rounding remainder goes into the last entry.\<close>

definition plug_last :: "int \<Rightarrow> schedule_entry list \<times> int \<Rightarrow> (schedule_entry list, rev_error) result" where
  "plug_last allocated r =
     (case r of (entries, assigned) \<Rightarrow>
        if entries = [] then Ok []
        else rbind (ok_or (i64_checked_sub allocated assigned) (RevMoney Overflow)) (\<lambda>remainder.
          rbind (ok_or (i64_checked_add (se_amount_minor (last entries)) remainder) (RevMoney Overflow)) (\<lambda>a.
          Ok (butlast entries @ [(last entries)\<lparr>se_amount_minor := a\<rparr>]))))"

definition straight_line :: "chrono \<Rightarrow> string \<Rightarrow> naive_date \<Rightarrow> naive_date \<Rightarrow> int \<Rightarrow> currency \<Rightarrow> (schedule_entry list, rev_error) result option" where
  "straight_line ch i start stop allocated cur =
     (if stop < start then Some (Err (InvalidPeriod (ch_text ch start) (ch_text ch stop)))
      else let total_days = stop - start + 1 in
        if total_days \<le> 0 then Some (Err (InvalidPeriod (ch_text ch start) (ch_text ch stop)))
        else map_option (\<lambda>r. rbind r (plug_last allocated)) (month_loop ch i allocated total_days cur stop start 0 []))"

fun sum_fractions :: "'d decimal \<Rightarrow> 'd milestone list \<Rightarrow> 'd \<Rightarrow> ('d, rev_error) result" where
  "sum_fractions dc [] acc = Ok acc"
| "sum_fractions dc (mi # mis) acc = rbind (expect (dec_add dc acc (mi_fraction mi))) (\<lambda>acc. sum_fractions dc mis acc)"

text \<open>\<^verbatim>\<open>(Decimal::from(allocated) * fraction).round_dp(0).to_i64().unwrap_or(0)\<close>.\<close>

definition scaled :: "'d decimal \<Rightarrow> int \<Rightarrow> 'd \<Rightarrow> (int, rev_error) result" where
  "scaled dc allocated f = rbind (expect (dec_mul dc (dec_from dc allocated) f)) (\<lambda>x.
     Ok (case dec_to_i64 dc (dec_round dc x) of Some k \<Rightarrow> k | None \<Rightarrow> 0))"

fun milestone_loop :: "'d decimal \<Rightarrow> string \<Rightarrow> int \<Rightarrow> currency \<Rightarrow> 'd milestone list \<Rightarrow> int \<Rightarrow> (schedule_entry list, rev_error) result" where
  "milestone_loop dc i allocated cur [] assigned = Ok []"
| "milestone_loop dc i allocated cur [mi] assigned =
     rbind (ok_or (i64_checked_sub allocated assigned) (RevMoney Overflow)) (\<lambda>amount.
     Ok [\<lparr>se_obligation_id = i, se_date = mi_date mi, se_amount_minor = amount, se_currency = cur\<rparr>])"
| "milestone_loop dc i allocated cur (mi # mi' # mis) assigned =
     rbind (scaled dc allocated (mi_fraction mi)) (\<lambda>f_int.
     rbind (ok_or (i64_checked_add assigned f_int) (RevMoney Overflow)) (\<lambda>assigned.
     rbind (milestone_loop dc i allocated cur (mi' # mis) assigned) (\<lambda>es.
     Ok (\<lparr>se_obligation_id = i, se_date = mi_date mi, se_amount_minor = f_int, se_currency = cur\<rparr> # es))))"

definition output_milestones :: "'d decimal \<Rightarrow> string \<Rightarrow> 'd milestone list \<Rightarrow> int \<Rightarrow> currency \<Rightarrow> (schedule_entry list, rev_error) result" where
  "output_milestones dc i mis allocated cur =
     rbind (sum_fractions dc mis (dec_zero dc)) (\<lambda>total.
     rbind (expect (dec_sub dc total (dec_one dc))) (\<lambda>diff.
     if dec_less dc (dec_eps dc) (dec_abs dc diff)
     then Err (Invariant (''milestone fractions sum to '' @ dec_text dc total @ '', expected 1.0''))
     else milestone_loop dc i allocated cur mis 0))"

fun check_monotone :: "chrono \<Rightarrow> 'd decimal \<Rightarrow> 'd snapshot list \<Rightarrow> 'd \<Rightarrow> (unit, rev_error) result" where
  "check_monotone ch dc [] prev = Ok ()"
| "check_monotone ch dc (s # ss) prev =
     (if dec_less dc (sn_percent s) prev
      then Err (Invariant (''percent-complete decreased from '' @ dec_text dc prev @ '' to '' @ dec_text dc (sn_percent s) @ '' on '' @ ch_text ch (sn_date s)))
      else check_monotone ch dc ss (sn_percent s))"

fun percent_loop :: "'d decimal \<Rightarrow> string \<Rightarrow> int \<Rightarrow> currency \<Rightarrow> 'd snapshot list \<Rightarrow> 'd \<Rightarrow> int \<Rightarrow> (schedule_entry list, rev_error) result" where
  "percent_loop dc i allocated cur [] last_percent assigned = Ok []"
| "percent_loop dc i allocated cur [s] last_percent assigned =
     rbind (expect (dec_sub dc (sn_percent s) last_percent)) (\<lambda>delta.
     rbind (ok_or (i64_checked_sub allocated assigned) (RevMoney Overflow)) (\<lambda>amount.
     Ok [\<lparr>se_obligation_id = i, se_date = sn_date s, se_amount_minor = amount, se_currency = cur\<rparr>]))"
| "percent_loop dc i allocated cur (s # s' # ss) last_percent assigned =
     rbind (expect (dec_sub dc (sn_percent s) last_percent)) (\<lambda>delta.
     rbind (scaled dc allocated delta) (\<lambda>k.
     rbind (ok_or (i64_checked_add assigned k) (RevMoney Overflow)) (\<lambda>assigned.
     rbind (percent_loop dc i allocated cur (s' # ss) (sn_percent s) assigned) (\<lambda>es.
     Ok (\<lparr>se_obligation_id = i, se_date = sn_date s, se_amount_minor = k, se_currency = cur\<rparr> # es)))))"

definition input_percent_complete :: "chrono \<Rightarrow> 'd decimal \<Rightarrow> string \<Rightarrow> 'd snapshot list \<Rightarrow> int \<Rightarrow> currency \<Rightarrow> (schedule_entry list, rev_error) result" where
  "input_percent_complete ch dc i ss allocated cur =
     rbind (check_monotone ch dc ss (dec_zero dc)) (\<lambda>_. percent_loop dc i allocated cur ss (dec_zero dc) 0)"

definition generate :: "chrono \<Rightarrow> 'd decimal \<Rightarrow> 'd obligation \<Rightarrow> int \<Rightarrow> currency \<Rightarrow> (recognition_schedule, rev_error) result option" where
  "generate ch dc ob allocated cur =
     map_option (\<lambda>r. rbind r (\<lambda>es. Ok \<lparr>rs_obligation_id = ob_id ob, rs_entries = es\<rparr>))
       (case ob_pattern ob of
          PointInTime date \<Rightarrow> Some (Ok [\<lparr>se_obligation_id = ob_id ob, se_date = date, se_amount_minor = allocated, se_currency = cur\<rparr>])
        | StraightLine start stop \<Rightarrow> straight_line ch (ob_id ob) start stop allocated cur
        | OutputMilestones mis \<Rightarrow> Some (output_milestones dc (ob_id ob) mis allocated cur)
        | InputPercentComplete ss \<Rightarrow> Some (input_percent_complete ch dc (ob_id ob) ss allocated cur)
        | Usage _ \<Rightarrow> Some (Ok []))"

definition usage_recognition :: "'d obligation \<Rightarrow> nat \<Rightarrow> naive_date \<Rightarrow> currency \<Rightarrow> schedule_entry option" where
  "usage_recognition ob units date cur =
     (case ob_pattern ob of
        Usage unit_price_minor \<Rightarrow>
          (let units_i = (if int units \<le> i64_max then int units else i64_max);
               amount = (case i64_of (unit_price_minor * units_i) of Some a \<Rightarrow> a | None \<Rightarrow> i64_max)
           in Some \<lparr>se_obligation_id = ob_id ob, se_date = date, se_amount_minor = amount, se_currency = cur\<rparr>)
      | _ \<Rightarrow> None)"

definition entry_money :: "schedule_entry \<Rightarrow> money" where
  "entry_money e = from_minor (se_amount_minor e) (se_currency e)"

section \<open>Modifications, principal and agent\<close>

record 'd modification_proposal =
  mod_effective_date :: naive_date
  mod_added_obligations :: "'d obligation list"
  mod_price_change :: money
  mod_added_are_distinct :: bool
  mod_price_reflects_ssp :: bool
  mod_remaining_are_distinct :: bool

datatype 'd modification =
    SeparateContract naive_date "'d obligation list" money
  | TerminateAndNew naive_date money "'d obligation list"
  | CumulativeCatchup naive_date money

definition classify_modification :: "'d modification_proposal \<Rightarrow> 'd modification" where
  "classify_modification p =
     (if mod_added_are_distinct p \<and> mod_price_reflects_ssp p
      then SeparateContract (mod_effective_date p) (mod_added_obligations p) (mod_price_change p)
      else if mod_remaining_are_distinct p
      then TerminateAndNew (mod_effective_date p) (mod_price_change p) (mod_added_obligations p)
      else CumulativeCatchup (mod_effective_date p) (mod_price_change p))"

record indicators =
  in_primarily_responsible :: "bool option"
  in_inventory_risk :: "bool option"
  in_price_discretion :: "bool option"

definition with_primarily_responsible :: "bool \<Rightarrow> indicators \<Rightarrow> indicators" where
  "with_primarily_responsible b x = x\<lparr>in_primarily_responsible := Some b\<rparr>"

definition with_inventory_risk :: "bool \<Rightarrow> indicators \<Rightarrow> indicators" where
  "with_inventory_risk b x = x\<lparr>in_inventory_risk := Some b\<rparr>"

definition with_price_discretion :: "bool \<Rightarrow> indicators \<Rightarrow> indicators" where
  "with_price_discretion b x = x\<lparr>in_price_discretion := Some b\<rparr>"

definition classify_presentation :: "indicators \<Rightarrow> presentation" where
  "classify_presentation i =
     (let yes_count = length (filter (\<lambda>x. x = Some True) [in_primarily_responsible i, in_inventory_risk i, in_price_discretion i])
      in if yes_count \<ge> 2 then Gross else Net)"

section \<open>Allocation is exact\<close>

definition share :: "int \<Rightarrow> int \<Rightarrow> 'd obligation \<Rightarrow> int" where
  "share tp ssp ob = tp * minor_units (ob_ssp ob) div ssp"

definition ssp_sum :: "'d obligation list \<Rightarrow> int" where
  "ssp_sum obs = sum_list (map (\<lambda>ob. minor_units (ob_ssp ob)) obs)"

lemma ssp_sum_simps [simp]: "ssp_sum [] = 0" "ssp_sum (ob # obs) = minor_units (ob_ssp ob) + ssp_sum obs"
  by (simp_all add: ssp_sum_def)

lemma ssp_sum_nonneg: "list_all (\<lambda>ob. 0 \<le> minor_units (ob_ssp ob)) obs \<Longrightarrow> 0 \<le> ssp_sum obs"
  by (induction obs) auto

lemma sum_ssp_total:
  assumes "list_all (\<lambda>ob. 0 \<le> minor_units (ob_ssp ob)) obs" and "0 \<le> acc" and "acc + ssp_sum obs \<le> i64_max"
  shows "sum_ssp obs acc = Ok (acc + ssp_sum obs)"
  using assms
proof (induction obs arbitrary: acc)
  case (Cons ob obs)
  then have "i64_checked_add acc (minor_units (ob_ssp ob)) = Some (acc + minor_units (ob_ssp ob))"
    using ssp_sum_nonneg [of obs] by (simp add: i64_checked_add_def in_i64_def)
  then show ?case using Cons by (simp add: add.assoc del: rbind_eq_Ok)
qed simp

lemma validate_obligations_ok: "list_all (\<lambda>ob. currency (ob_ssp ob) = cur) obs \<Longrightarrow> validate_obligations cur obs = Ok ()"
  by (induction obs) auto

lemma nonneg_plug: "\<forall>x\<in>set q. 0 \<le> x \<Longrightarrow> q \<noteq> [] \<Longrightarrow> 0 \<le> r \<Longrightarrow> list_all (\<lambda>x. 0 \<le> x) (butlast q @ [last q + (r :: int)])"
  by (auto simp: list_all_iff dest: in_set_butlastD intro: add_nonneg_nonneg)

lemma floor_bounds: "0 < t \<Longrightarrow> 0 \<le> x \<Longrightarrow> 0 \<le> x div t \<and> x div t * t \<le> x \<and> x \<le> x div t * t + (t - 1 :: int)"
proof -
  assume t: "0 < t" and x: "0 \<le> x"
  have "x div t * t + x mod t = x" by simp
  moreover have "0 \<le> x mod t" "x mod t \<le> t - 1" using t by (simp_all add: zle_diff1_eq)
  ultimately show ?thesis using t x by (smt (verit) pos_imp_zdiv_nonneg_iff)
qed

text \<open>Rounding down loses less than one unit per obligation.\<close>

lemma shares_bound:
  assumes "0 < ssp"
  shows "sum_list (map (share tp ssp) obs) * ssp \<le> tp * ssp_sum obs
    \<and> tp * ssp_sum obs \<le> sum_list (map (share tp ssp) obs) * ssp + int (length obs) * (ssp - 1)"
proof (induction obs)
  case (Cons ob obs)
  let ?x = "tp * minor_units (ob_ssp ob)"
  have "share tp ssp ob * ssp + ?x mod ssp = ?x" by (simp add: share_def)
  moreover have "0 \<le> ?x mod ssp" "?x mod ssp \<le> ssp - 1" using assms by (simp_all add: zle_diff1_eq)
  ultimately have "share tp ssp ob * ssp \<le> ?x" "?x \<le> share tp ssp ob * ssp + (ssp - 1)" by linarith+
  then show ?case using Cons by (simp add: algebra_simps)
qed simp

lemma allocate_loop_exact:
  assumes "0 < ssp" and "0 \<le> tp" and "tp \<le> i64_max" and "list_all (\<lambda>ob. 0 \<le> minor_units (ob_ssp ob)) obs"
    and "0 \<le> a" and "a + sum_list (map (share tp ssp) obs) \<le> tp"
  shows "obs \<noteq> [] \<Longrightarrow> allocate_loop tp ssp obs a
    = Ok (map (\<lambda>ob. (ob_id ob, share tp ssp ob)) (butlast obs) @ [(ob_id (last obs), tp - a - sum_list (map (share tp ssp) (butlast obs)))])"
  using assms
proof (induction tp ssp obs a rule: allocate_loop.induct)
  case (2 tp ssp ob a)
  have "0 \<le> share tp ssp ob" using 2 by (simp add: share_def pos_imp_zdiv_nonneg_iff)
  then have "i64_checked_sub tp a = Some (tp - a)" using 2 by (simp add: i64_checked_sub_def in_i64_def)
  then show ?case by simp
next
  case (3 tp ssp ob ob' obs a)
  let ?q = "share tp ssp ob"
  have nn: "0 \<le> share tp ssp x" if "x \<in> set (ob # ob' # obs)" for x
    using 3 that by (auto simp: share_def pos_imp_zdiv_nonneg_iff list_all_iff)
  then have rest: "0 \<le> sum_list (map (share tp ssp) (ob' # obs))" by (intro sum_list_nonneg) auto
  have q: "(tp * minor_units (ob_ssp ob)) sdiv ssp = ?q"
    using 3 by (simp add: share_def sdiv_nonneg_eq_div)
  have le: "?q + a \<le> tp" "0 \<le> ?q" using 3 rest nn by simp_all
  then have "i64_of ?q = Some ?q" "i64_checked_add a ?q = Some (a + ?q)" using 3 by (simp_all add: i64_checked_add_def in_i64_def)
  moreover have "allocate_loop tp ssp (ob' # obs) (a + ?q)
    = Ok (map (\<lambda>ob. (ob_id ob, share tp ssp ob)) (butlast (ob' # obs)) @ [(ob_id (last (ob' # obs)), tp - (a + ?q) - sum_list (map (share tp ssp) (butlast (ob' # obs))))])"
    by (rule 3(1) [of "a + ?q"]) (use 3 le q in \<open>simp_all add: i64_checked_add_def in_i64_def algebra_simps\<close>)
  ultimately show ?case using q by (auto simp: algebra_simps)
qed simp

text \<open>Whenever an allocation is produced, it is complete.\<close>

lemma allocate_loop_sum:
  "allocate_loop tp ssp obs a = Ok out \<Longrightarrow> obs \<noteq> [] \<Longrightarrow> map fst out = map ob_id obs \<and> a + sum_list (map snd out) = tp"
proof (induction tp ssp obs a arbitrary: out rule: allocate_loop.induct)
  case (3 tp ssp ob ob' obs a)
  then show ?case by (fastforce simp: i64_checked_add_def)
qed (auto simp: i64_checked_sub_def)

lemma allocate_sum:
  assumes "allocate_transaction_price dc c = Ok out" and "price_total dc (ct_price c) = Ok p"
  shows "map fst out = map ob_id (ct_obligations c) \<and> sum_list (map snd out) = minor_units p"
proof -
  obtain ssp where "total_ssp_minor c = Ok ssp" "ssp \<noteq> 0" "allocate_loop (minor_units p) ssp (ct_obligations c) 0 = Ok out"
    using assms by (auto simp: allocate_transaction_price_def split: if_splits)
  moreover from this(1,2) have "ct_obligations c \<noteq> []" by (auto simp: total_ssp_minor_def)
  ultimately show ?thesis using allocate_loop_sum by fastforce
qed

text \<open>
  C33.  Allocation is exact: with prices of one currency that are not negative and do not add up to zero or beyond the amount type, the transaction price is
  split over the obligations in order; the parts add up to it exactly, none is negative, each but the last is the
  proportional share rounded down, and the last exceeds its share by less than one unit per obligation.
\<close>

theorem allocation_exact:
  assumes "list_all (\<lambda>ob. currency (ob_ssp ob) = tp_currency (ct_price c) \<and> 0 \<le> minor_units (ob_ssp ob)) (ct_obligations c)"
    and "price_total dc (ct_price c) = Ok p" and "0 \<le> minor_units p" and "minor_units p \<le> i64_max"
    and "0 < ssp_sum (ct_obligations c)" and "ssp_sum (ct_obligations c) \<le> i64_max"
  shows "\<exists>out r. allocate_transaction_price dc c = Ok out \<and> map fst out = map ob_id (ct_obligations c)
    \<and> sum_list (map snd out) = minor_units p \<and> list_all (\<lambda>x. 0 \<le> snd x) out
    \<and> map snd out = (let q = map (share (minor_units p) (ssp_sum (ct_obligations c))) (ct_obligations c) in butlast q @ [last q + r])
    \<and> 0 \<le> r \<and> r < int (length (ct_obligations c))"
proof -
  let ?obs = "ct_obligations c" and ?tp = "minor_units p" and ?S = "ssp_sum (ct_obligations c)"
  let ?q = "map (share ?tp ?S) ?obs"
  have nn: "list_all (\<lambda>ob. 0 \<le> minor_units (ob_ssp ob)) ?obs" and cur: "list_all (\<lambda>ob. currency (ob_ssp ob) = tp_currency (ct_price c)) ?obs"
    using assms(1) by (simp_all add: list_all_iff)
  have ne: "?obs \<noteq> []" using assms(5) by auto
  have b: "sum_list ?q * ?S \<le> ?tp * ?S" "?tp * ?S \<le> sum_list ?q * ?S + int (length ?obs) * (?S - 1)"
    using shares_bound [OF assms(5), of ?tp ?obs] by simp_all
  have le: "sum_list ?q \<le> ?tp" using b(1) assms(5) by simp
  have "?tp * ?S < (sum_list ?q + int (length ?obs)) * ?S"
    using b(2) ne by (simp add: algebra_simps) (smt (verit) length_greater_0_conv of_nat_0_less_iff)
  then have gt: "?tp < sum_list ?q + int (length ?obs)" using assms(5) by simp
  define r where "r = ?tp - sum_list ?q"
  define out where "out = map (\<lambda>ob. (ob_id ob, share ?tp ?S ob)) (butlast ?obs) @ [(ob_id (last ?obs), ?tp - sum_list (map (share ?tp ?S) (butlast ?obs)))]"
  have split: "?obs = butlast ?obs @ [last ?obs]" using ne by simp
  have sumq: "sum_list ?q = sum_list (map (share ?tp ?S) (butlast ?obs)) + share ?tp ?S (last ?obs)"
    by (subst split) simp
  have "allocate_loop ?tp ?S ?obs 0 = Ok out"
    unfolding out_def using allocate_loop_exact [OF assms(5,3,4) nn, of 0] le ne by simp
  moreover have "total_ssp_minor c = Ok ?S" using sum_ssp_total [OF nn, of 0] assms(6) by (simp add: total_ssp_minor_def)
  ultimately have "allocate_transaction_price dc c = Ok out"
    using assms(2,5) validate_obligations_ok [OF cur] by (simp add: allocate_transaction_price_def validate_currencies_def del: rbind_eq_Ok)
  moreover have snd_out: "map snd out = butlast ?q @ [last ?q + r]"
    using ne sumq by (simp add: out_def r_def last_map map_butlast [symmetric] comp_def)
  moreover have "map fst out = map ob_id ?obs"
    unfolding out_def by (subst (4) split) (simp add: comp_def)
  moreover have "sum_list (map snd out) = ?tp" by (simp add: out_def comp_def)
  moreover have "0 \<le> r" "r < int (length ?obs)" using le gt by (simp_all add: r_def)
  moreover have "list_all (\<lambda>x. 0 \<le> snd x) out"
  proof -
    have "\<forall>x\<in>set ?q. 0 \<le> x" using assms(3,5) nn by (auto simp: share_def pos_imp_zdiv_nonneg_iff list_all_iff)
    then have "list_all (\<lambda>x. 0 \<le> x) (map snd out)"
      unfolding snd_out using \<open>0 \<le> r\<close> ne by (intro nonneg_plug) simp_all
    then show ?thesis by (simp add: list_all_iff)
  qed
  ultimately show ?thesis by (auto simp: Let_def)
qed

section \<open>Straight-line schedules\<close>

definition next_month :: "chrono \<Rightarrow> naive_date \<Rightarrow> int \<times> int" where
  "next_month ch d = (if ch_month ch d = 12 then (ch_year ch d + 1, 1) else (ch_year ch d, ch_month ch d + 1))"

definition month_of :: "chrono \<Rightarrow> naive_date \<Rightarrow> int \<times> int" where
  "month_of ch d = (ch_year ch d, ch_month ch d)"

text \<open>
  What the calendar promises for the days of a period: the first of the following month exists, lies ahead and has a
  predecessor; the later days of the period before it are in the same month, those from it on are not; and days succeed
  each other, except that the period may end with the last supported day.
\<close>

definition chrono_ok :: "chrono \<Rightarrow> naive_date \<Rightarrow> naive_date \<Rightarrow> bool" where
  "chrono_ok ch start stop \<longleftrightarrow> (\<forall>d. start \<le> d \<and> d \<le> stop \<longrightarrow>
     (\<exists>f. ch_from_ymd ch (fst (next_month ch d)) (snd (next_month ch d)) 1 = Some f \<and> d < f \<and> ch_pred ch f = Some (f - 1)
        \<and> (\<forall>e. d \<le> e \<and> e \<le> stop \<longrightarrow> (e < f \<longleftrightarrow> month_of ch e = month_of ch d)))
     \<and> (ch_succ ch d = Some (d + 1) \<or> d = stop \<and> ch_succ ch d = None))"

lemma last_day_month:
  assumes "chrono_ok ch start stop" and "start \<le> d" and "d \<le> stop"
  shows "d \<le> last_day_of_month ch d"
    "d \<le> e \<Longrightarrow> e \<le> stop \<Longrightarrow> e \<le> last_day_of_month ch d \<longleftrightarrow> month_of ch e = month_of ch d"
proof -
  obtain f where f: "ch_from_ymd ch (fst (next_month ch d)) (snd (next_month ch d)) 1 = Some f" "d < f" "ch_pred ch f = Some (f - 1)"
      "\<forall>e. d \<le> e \<and> e \<le> stop \<longrightarrow> (e < f \<longleftrightarrow> month_of ch e = month_of ch d)"
    using assms(1) [unfolded chrono_ok_def, THEN spec, THEN mp, OF conjI [OF assms(2,3)], THEN conjunct1] by (elim exE conjE)
  have "last_day_of_month ch d = f - 1" using f(1,3) by (auto simp: last_day_of_month_def next_month_def Let_def split: if_splits)
  with f(2,4) show "d \<le> last_day_of_month ch d" "d \<le> e \<Longrightarrow> e \<le> stop \<Longrightarrow> e \<le> last_day_of_month ch d \<longleftrightarrow> month_of ch e = month_of ch d"
    by auto
qed

lemmas last_day_ge = last_day_month(1)

text \<open>The days of a period on which revenue is booked: the last days of its months, and its last day.\<close>

definition booking_days :: "chrono \<Rightarrow> naive_date \<Rightarrow> naive_date \<Rightarrow> naive_date list" where
  "booking_days ch start stop = filter (\<lambda>d. d = stop \<or> month_of ch (d + 1) \<noteq> month_of ch d) [start..stop]"

lemma booking_days_step:
  assumes "chrono_ok ch start stop" and "start \<le> cursor" and "cursor \<le> stop"
    and "date = (if last_day_of_month ch cursor < stop then last_day_of_month ch cursor else stop)"
  shows "booking_days ch cursor stop = date # booking_days ch (date + 1) stop"
proof -
  note same = last_day_month(2) [OF assms(1-3)]
  have d: "cursor \<le> date" "date \<le> stop" "date \<le> last_day_of_month ch cursor" using last_day_ge [OF assms(1-3)] assms(3,4) by auto
  have split: "[cursor..stop] = [cursor..date - 1] @ date # [date + 1..stop]"
    using d upto_split1 [of cursor date stop] upto_rec1 [of date stop] by simp
  have "month_of ch (x + 1) = month_of ch x" "x \<noteq> stop" if "x \<in> set [cursor..date - 1]" for x
    using that d same [of x] same [of "x + 1"] by auto
  moreover have "month_of ch (date + 1) \<noteq> month_of ch date" if "date \<noteq> stop"
  proof -
    have "date + 1 \<le> stop" "\<not> date + 1 \<le> last_day_of_month ch cursor" using that d assms(4) by (auto split: if_splits)
    then show ?thesis using same [of date] same [of "date + 1"] d by auto
  qed
  ultimately show ?thesis unfolding booking_days_def split by (auto simp: filter_empty_conv)
qed

lemma chrono_succ:
  "chrono_ok ch start stop \<Longrightarrow> start \<le> d \<Longrightarrow> d \<le> stop \<Longrightarrow> ch_succ ch d = Some (d + 1) \<or> d = stop \<and> ch_succ ch d = None"
  unfolding chrono_ok_def by blast

text \<open>Entries sized by the days since the previous one.\<close>

fun pro_rata :: "int \<Rightarrow> int \<Rightarrow> naive_date \<Rightarrow> schedule_entry list \<Rightarrow> bool" where
  "pro_rata allocated total_days prev [] = True"
| "pro_rata allocated total_days prev (e # es) \<longleftrightarrow>
     prev < se_date e \<and> se_amount_minor e = (allocated * (se_date e - prev)) sdiv total_days \<and> pro_rata allocated total_days (se_date e) es"

definition entry_sum :: "schedule_entry list \<Rightarrow> int" where
  "entry_sum es = sum_list (map se_amount_minor es)"

lemma entry_sum_simps [simp]: "entry_sum [] = 0" "entry_sum (e # es) = se_amount_minor e + entry_sum es"
  "entry_sum (es @ es') = entry_sum es + entry_sum es'"
  by (simp_all add: entry_sum_def)

lemma sdiv_sgn: "0 \<le> d \<Longrightarrow> 0 < t \<Longrightarrow> (a * d) sdiv t = sgn a * (\<bar>a\<bar> * d div (t :: int))"
proof (cases "0 \<le> a")
  case False
  assume "0 \<le> d" "0 < t"
  then have "(- (\<bar>a\<bar> * d)) sdiv t = - (\<bar>a\<bar> * d div t)" by (simp add: sdiv_neg sdiv_nonneg_eq_div)
  then show ?thesis using False by simp
qed (auto simp: sdiv_nonneg_eq_div sgn_if)

lemma signed_fits: "in_i64 a \<Longrightarrow> 0 \<le> m \<Longrightarrow> m \<le> \<bar>a\<bar> \<Longrightarrow> in_i64 (sgn a * m)"
  by (cases "a = 0"; cases "0 < a") (auto simp: in_i64_def sgn_if)

text \<open>The loop over the months of a period: it ends, and has given out the allocation up to less than a unit per entry.\<close>

lemma month_loop_exact:
  assumes "chrono_ok ch start stop" and "start \<le> cursor" and "cursor \<le> stop" and "t = stop - start + 1" and "in_i64 allocated"
    and "assigned = sgn allocated * k" and "0 \<le> k" and "k * t \<le> \<bar>allocated\<bar> * (cursor - start)"
  shows "\<exists>es. month_loop ch i allocated t cur stop cursor assigned entries = Some (Ok (entries @ es, assigned + entry_sum es))
    \<and> es \<noteq> [] \<and> map se_date es = booking_days ch cursor stop \<and> list_all (\<lambda>e. se_obligation_id e = i \<and> se_currency e = cur) es \<and> pro_rata allocated t (cursor - 1) es
    \<and> (\<exists>m. assigned + entry_sum es = sgn allocated * m \<and> 0 \<le> m \<and> m \<le> \<bar>allocated\<bar>
        \<and> \<bar>allocated\<bar> * (stop - cursor + 1) \<le> (m - k) * t + int (length es) * (t - 1))"
  using assms(2,3,6-8)
proof (induction "nat (stop - cursor)" arbitrary: cursor assigned k entries rule: less_induct)
  case less
  define date where "date = (if last_day_of_month ch cursor < stop then last_day_of_month ch cursor else stop)"
  define q where "q = \<bar>allocated\<bar> * (date - cursor + 1) div t"
  let ?A = "\<bar>allocated\<bar>" and ?e = "\<lparr>se_obligation_id = i, se_date = date, se_amount_minor = sgn allocated * q, se_currency = cur\<rparr>"
  have t: "0 < t" using less assms(4) by simp
  have days: "booking_days ch cursor stop = date # booking_days ch (date + 1) stop"
    by (rule booking_days_step [OF assms(1) less(2,3) date_def])
  have date: "cursor \<le> date" "date \<le> stop" using last_day_ge [OF assms(1) less(2,3)] less(3) by (auto simp: date_def)
  have alloc: "(allocated * (date - cursor + 1)) sdiv t = sgn allocated * q" unfolding q_def using date t by (intro sdiv_sgn) auto
  have q: "0 \<le> q" "q * t \<le> ?A * (date - cursor + 1)" "?A * (date - cursor + 1) \<le> q * t + (t - 1)"
    unfolding q_def using floor_bounds [of t "?A * (date - cursor + 1)"] date t by auto
  have inv: "(k + q) * t \<le> ?A * ((date + 1) - start)" using less(6) q(2) by (simp add: algebra_simps)
  also have "\<dots> \<le> ?A * t" using date assms(4) by (intro mult_left_mono) auto
  finally have kq: "0 \<le> k + q" "k + q \<le> ?A" using t q(1) less(5) by simp_all
  have step: "month_loop ch i allocated t cur stop cursor assigned entries = (case ch_succ ch date of
      None \<Rightarrow> Some (Ok (entries @ [?e], sgn allocated * (k + q)))
    | Some c \<Rightarrow> if c > stop then Some (Ok (entries @ [?e], sgn allocated * (k + q)))
        else month_loop ch i allocated t cur stop c (sgn allocated * (k + q)) (entries @ [?e]))"
  proof -
    have "i64_of (sgn allocated * q) = Some (sgn allocated * q)" "i64_checked_add assigned (sgn allocated * q) = Some (sgn allocated * (k + q))"
      using signed_fits [OF assms(5), of q] signed_fits [OF assms(5), of "k + q"] q(1) kq less(4,5) by (simp_all add: i64_checked_add_def distrib_left)
    then show ?thesis
      using less(3) by (subst month_loop.simps) (simp only: Let_def date_def [symmetric] alloc if_True option.case)
  qed
  show ?case
  proof (cases "date = stop")
    case True
    have "month_loop ch i allocated t cur stop cursor assigned entries = Some (Ok (entries @ [?e], assigned + entry_sum [?e]))"
      using step chrono_succ [OF assms(1), of stop] less(2-4) True by (auto simp: distrib_left)
    moreover have "assigned + entry_sum [?e] = sgn allocated * (k + q)" using less(4) by (simp add: distrib_left)
    moreover have "booking_days ch cursor stop = [stop]" using days True by (simp add: booking_days_def)
    ultimately show ?thesis using alloc q(3) kq True date
      by (intro exI [of _ "[?e]"] conjI exI [of _ "k + q"]) (simp_all add: algebra_simps)
  next
    case False
    then have lt: "date < stop" using date by simp
    then have succ: "ch_succ ch date = Some (date + 1)" using chrono_succ [OF assms(1), of date] less(2) date by auto
    have pre: "nat (stop - (date + 1)) < nat (stop - cursor)" "start \<le> date + 1" "date + 1 \<le> stop"
      using lt date less(2) by simp_all
    from less(1) [OF pre refl kq(1) inv, of "entries @ [?e]"] obtain es m where ih:
        "month_loop ch i allocated t cur stop (date + 1) (sgn allocated * (k + q)) (entries @ [?e])
          = Some (Ok ((entries @ [?e]) @ es, sgn allocated * (k + q) + entry_sum es))"
        "es \<noteq> []" "map se_date es = booking_days ch (date + 1) stop" "list_all (\<lambda>e. se_obligation_id e = i \<and> se_currency e = cur) es" "pro_rata allocated t date es"
        "sgn allocated * (k + q) + entry_sum es = sgn allocated * m" "0 \<le> m" "m \<le> ?A"
        "?A * (stop - (date + 1) + 1) \<le> (m - (k + q)) * t + int (length es) * (t - 1)"
      unfolding add_diff_cancel_right' by blast
    have sum: "assigned + entry_sum (?e # es) = sgn allocated * (k + q) + entry_sum es" using less(4) by (simp add: distrib_left)
    have "month_loop ch i allocated t cur stop cursor assigned entries = Some (Ok (entries @ ?e # es, assigned + entry_sum (?e # es)))"
      unfolding sum using step succ lt ih(1) by simp
    moreover have "?A * (stop - cursor + 1) \<le> (m - k) * t + int (length (?e # es)) * (t - 1)"
      using ih(9) q(3) by (simp add: algebra_simps)
    moreover have "pro_rata allocated t (cursor - 1) (?e # es)" using ih(5) alloc date by (simp add: algebra_simps)
    moreover have "assigned + entry_sum (?e # es) = sgn allocated * m" using sum ih(6) by simp
    ultimately show ?thesis using ih(2-4,7,8) days
      by (intro exI [of _ "?e # es"] conjI exI [of _ m]) simp_all
  qed
qed

text \<open>All entries have the sign of the allocation.\<close>

lemma pro_rata_signs:
  "0 < t \<Longrightarrow> pro_rata a t prev es \<Longrightarrow> \<exists>qs. map se_amount_minor es = map ((*) (sgn a)) qs \<and> (\<forall>q\<in>set qs. 0 \<le> q)"
proof (induction es arbitrary: prev)
  case (Cons e es)
  then obtain qs where qs: "map se_amount_minor es = map ((*) (sgn a)) qs" "\<forall>q\<in>set qs. 0 \<le> q" by auto
  let ?q = "\<bar>a\<bar> * (se_date e - prev) div t"
  have "se_amount_minor e = sgn a * ?q" "0 \<le> ?q" using Cons.prems sdiv_sgn [of "se_date e - prev" t a] by (auto simp: pos_imp_zdiv_nonneg_iff)
  then show ?case using qs by (intro exI [of _ "?q # qs"]) auto
qed simp

lemma sum_list_times: "sum_list (map ((*) c) xs) = c * (sum_list xs :: int)"
  by (induction xs) (simp_all add: distrib_left)

lemma last_entry_fits:
  assumes "0 < t" and "pro_rata a t prev es" and "es \<noteq> []" and "entry_sum es = sgn a * m" and "m \<le> \<bar>a\<bar>" and "in_i64 a"
  shows "in_i64 (a - entry_sum (butlast es))"
proof -
  obtain qs where qs: "map se_amount_minor es = map ((*) (sgn a)) qs" "\<forall>q\<in>set qs. 0 \<le> q" using pro_rata_signs [OF assms(1,2)] by blast
  then have ne: "qs \<noteq> []" using assms(3) by auto
  have "map se_amount_minor (butlast es) = map ((*) (sgn a)) (butlast qs)" unfolding map_butlast qs(1) ..
  then have b: "entry_sum (butlast es) = sgn a * sum_list (butlast qs)" by (simp add: entry_sum_def sum_list_times)
  show ?thesis
  proof (cases "a = 0")
    case False
    have "sgn a * m = sgn a * sum_list qs" using assms(4) qs(1) by (auto simp: entry_sum_def sum_list_times)
    then have "sum_list qs = m" using False by (simp add: sgn_if split: if_splits)
    moreover have "sum_list qs = sum_list (butlast qs) + last qs"
      using ne sum_list.append [of "butlast qs" "[last qs]"] by simp
    moreover have "0 \<le> last qs" "0 \<le> sum_list (butlast qs)" using qs(2) ne by (auto intro: sum_list_nonneg dest: in_set_butlastD)
    ultimately have "0 \<le> \<bar>a\<bar> - sum_list (butlast qs)" "\<bar>a\<bar> - sum_list (butlast qs) \<le> \<bar>a\<bar>" using assms(5) by simp_all
    from signed_fits [OF assms(6) this] show ?thesis unfolding b by (simp add: right_diff_distrib sgn_mult_abs)
  qed (use b in \<open>simp add: in_i64_def\<close>)
qed

text \<open>
  C32.  Straight-line recognition: over a period the calendar supports, the schedule is produced and books the allocation exactly.  There is one
  entry for the last day of each month that ends within the period and one for the last day of the period, in order; each entry carries the
  obligation and the currency and is the allocation prorated by the days since the one
  before and rounded toward zero, except that the last one also carries the rounding remainder, which has the sign of the allocation and
  is smaller than the number of entries.
\<close>

theorem straight_line_exact:
  assumes "chrono_ok ch start stop" and "start \<le> stop" and "in_i64 allocated"
  shows "\<exists>es r. straight_line ch i start stop allocated cur
      = Some (Ok (butlast es @ [(last es)\<lparr>se_amount_minor := se_amount_minor (last es) + r\<rparr>]))
    \<and> entry_sum es + r = allocated \<and> es \<noteq> []
    \<and> map se_date es = filter (\<lambda>d. d = stop \<or> month_of ch (d + 1) \<noteq> month_of ch d) [start..stop]
    \<and> list_all (\<lambda>e. se_obligation_id e = i \<and> se_currency e = cur) es \<and> pro_rata allocated (stop - start + 1) (start - 1) es
    \<and> 0 \<le> r * sgn allocated \<and> \<bar>r\<bar> < int (length es)"
proof -
  let ?t = "stop - start + 1" and ?A = "\<bar>allocated\<bar>"
  have "\<exists>es. month_loop ch i allocated ?t cur stop start 0 [] = Some (Ok ([] @ es, 0 + entry_sum es))
    \<and> es \<noteq> [] \<and> map se_date es = booking_days ch start stop \<and> list_all (\<lambda>e. se_obligation_id e = i \<and> se_currency e = cur) es \<and> pro_rata allocated ?t (start - 1) es
    \<and> (\<exists>m. 0 + entry_sum es = sgn allocated * m \<and> 0 \<le> m \<and> m \<le> ?A \<and> ?A * ?t \<le> (m - 0) * ?t + int (length es) * (?t - 1))"
    by (rule month_loop_exact [OF assms(1) order_refl assms(2) refl assms(3)]) simp_all
  then obtain es m where es: "month_loop ch i allocated ?t cur stop start 0 [] = Some (Ok (es, entry_sum es))"
      "es \<noteq> []" "map se_date es = booking_days ch start stop" "pro_rata allocated ?t (start - 1) es"
      "entry_sum es = sgn allocated * m" "0 \<le> m" "m \<le> ?A" "?A * ?t \<le> m * ?t + int (length es) * (?t - 1)"
      "list_all (\<lambda>e. se_obligation_id e = i \<and> se_currency e = cur) es"
    unfolding append_Nil add_0 diff_0_right by blast
  define r where "r = allocated - entry_sum es"
  have r: "r = sgn allocated * (?A - m)" unfolding r_def es(5) by (simp add: right_diff_distrib sgn_mult_abs)
  have n: "0 < int (length es)" using es(2) by simp
  have "?A * ?t < (m + int (length es)) * ?t" using es(8) n by (simp add: algebra_simps del: of_nat_0_less_iff)
  then have lt: "?A - m < int (length es)" using assms(2) by simp
  have "in_i64 r" unfolding r using signed_fits [OF assms(3), of "?A - m"] es(6,7) by simp
  moreover have "entry_sum es = entry_sum (butlast es) + se_amount_minor (last es)"
    using es(2) entry_sum_simps(3) [of "butlast es" "[last es]"] by simp
  with last_entry_fits [OF _ es(4,2,5,7) assms(3)] have "in_i64 (se_amount_minor (last es) + r)"
    using assms(2) by (simp add: r_def algebra_simps)
  ultimately have i: "in_i64 r" "in_i64 (se_amount_minor (last es) + r)" by simp_all
  have "straight_line ch i start stop allocated cur
      = Some (Ok (butlast es @ [(last es)\<lparr>se_amount_minor := se_amount_minor (last es) + r\<rparr>]))"
    using assms(2) es(1,2) i by (simp add: straight_line_def Let_def plug_last_def i64_checked_sub_def i64_checked_add_def r_def [symmetric])
  moreover have "0 \<le> r * sgn allocated" "\<bar>r\<bar> < int (length es)"
    unfolding r using es(7) lt n by (auto simp: sgn_if abs_mult)
  ultimately show ?thesis using es(2-4,9) by (intro exI [of _ es] exI [of _ r] conjI) (simp_all add: r_def booking_days_def)
qed

text \<open>A calendar of twelve months of thirty days keeps what is asked of a calendar.\<close>

definition sample_chrono :: chrono where
  "sample_chrono = \<lparr>ch_year = (\<lambda>d. d div 360), ch_month = (\<lambda>d. d mod 360 div 30 + 1), ch_from_ymd = (\<lambda>y m d. Some (y * 360 + (m - 1) * 30 + d - 1)),
     ch_succ = (\<lambda>d. Some (d + 1)), ch_pred = (\<lambda>d. Some (d - 1)), ch_text = (\<lambda>d. show_int d)\<rparr>"

lemma thirty_days:
  fixes d :: int
  shows "d div 360 = d div 30 div 12" "d mod 360 div 30 = d div 30 mod 12"
  by (simp add: zdiv_zmult2_eq [of 12 d 30, simplified]) (simp add: zmod_zmult2_eq [of 12 d 30, simplified])

lemma sample_chrono_ok: "chrono_ok sample_chrono start stop"
proof -
  have m: "month_of sample_chrono e = month_of sample_chrono d \<longleftrightarrow> e div 30 = d div 30" for d e :: int
    unfolding month_of_def sample_chrono_def thirty_days by (simp, metis div_mult_mod_eq)
  have f: "ch_from_ymd sample_chrono (fst (next_month sample_chrono d)) (snd (next_month sample_chrono d)) 1 = Some ((d div 30 + 1) * 30)" for d
    unfolding next_month_def sample_chrono_def thirty_days by simp presburger
  have "d < (d div 30 + 1) * 30" "d \<le> e \<Longrightarrow> e < (d div 30 + 1) * 30 \<longleftrightarrow> e div 30 = d div 30" for d e :: int by presburger+
  then show ?thesis unfolding chrono_ok_def f m by (auto simp: sample_chrono_def)
qed

theorem straight_line_exact_witness:
  "\<exists>es r. straight_line sample_chrono ''saas'' 10 70 1000 USD
      = Some (Ok (butlast es @ [(last es)\<lparr>se_amount_minor := se_amount_minor (last es) + r\<rparr>])) \<and> entry_sum es + r = 1000 \<and> map se_date es = [29, 59, 70]"
proof -
  have "in_i64 1000" by (simp add: in_i64_def)
  note line = straight_line_exact [OF sample_chrono_ok _ this, of 10 70 "''saas''" USD]
  have days: "filter (\<lambda>d. d = 70 \<or> month_of sample_chrono (d + 1) \<noteq> month_of sample_chrono d) [10..70] = [29, 59, 70]" by code_simp
  show ?thesis using line unfolding days by (simp del: map_eq_Cons_conv) (elim exE conjE, intro exI conjI, assumption+)
qed

definition sample_decimal :: "int decimal" where
  "sample_decimal = \<lparr>dec_zero = 0, dec_one = 10000, dec_eps = 1, dec_from = (\<lambda>x. x * 10000), dec_add = (\<lambda>a b. Some (a + b)), dec_sub = (\<lambda>a b. Some (a - b)),
     dec_mul = (\<lambda>a b. Some (a * b div 10000)), dec_abs = abs, dec_less = (<), dec_round = (\<lambda>a. a), dec_to_i64 = (\<lambda>a. i64_of (a div 10000)), dec_text = show_int\<rparr>"

definition sample_obligation :: "string \<Rightarrow> int \<Rightarrow> int recognition_pattern \<Rightarrow> int obligation" where
  "sample_obligation i ssp pat = \<lparr>ob_id = i, ob_ssp = from_minor ssp USD, ob_pattern = pat, ob_presentation = Gross\<rparr>"

definition sample_contract :: "int contract" where
  "sample_contract = \<lparr>ct_id = 1, ct_customer_ref = ''acme'', ct_effective_date = 10,
     ct_obligations = [sample_obligation ''setup'' 100 (PointInTime 10), sample_obligation ''saas'' 200 (StraightLine 10 70)],
     ct_price = fixed_price (from_minor 250 USD)\<rparr>"

theorem allocation_exact_witness:
  "\<exists>out. allocate_transaction_price sample_decimal sample_contract = Ok out \<and> map snd out = [83, 167] \<and> sum_list (map snd out) = 250"
proof -
  have p: "price_total sample_decimal (ct_price sample_contract) = Ok (from_minor 250 USD)"
    by (simp add: sample_contract_def fixed_price_def price_total_def from_minor_def)
  have obs: "list_all (\<lambda>ob. currency (ob_ssp ob) = tp_currency (ct_price sample_contract) \<and> 0 \<le> minor_units (ob_ssp ob)) (ct_obligations sample_contract)"
    by (simp add: sample_contract_def sample_obligation_def fixed_price_def from_minor_def)
  have S: "ssp_sum (ct_obligations sample_contract) = 300" by (simp add: sample_contract_def sample_obligation_def from_minor_def)
  have m: "minor_units (from_minor 250 USD) = 250" by (simp add: from_minor_def)
  obtain out r where "allocate_transaction_price sample_decimal sample_contract = Ok out" "sum_list (map snd out) = 250"
      "map snd out = (let q = map (share 250 300) (ct_obligations sample_contract) in butlast q @ [last q + r])"
    using allocation_exact [OF obs p] unfolding S m by auto
  then show ?thesis by (simp add: Let_def sample_contract_def sample_obligation_def share_def from_minor_def)
qed

section \<open>Every schedule books the allocation\<close>

text \<open>An obligation that is recognised on usage has no schedule, and one without milestones or snapshots has nothing to book on.\<close>

fun has_dates :: "'d recognition_pattern \<Rightarrow> bool" where
  "has_dates (OutputMilestones mis) = (mis \<noteq> [])"
| "has_dates (InputPercentComplete ss) = (ss \<noteq> [])"
| "has_dates (Usage _) = False"
| "has_dates _ = True"

lemma milestone_loop_sum:
  "milestone_loop dc i a cur mis assigned = Ok es \<Longrightarrow> mis \<noteq> [] \<Longrightarrow> assigned + entry_sum es = a
     \<and> list_all (\<lambda>e. se_obligation_id e = i \<and> se_currency e = cur) es"
proof (induction dc i a cur mis assigned arbitrary: es rule: milestone_loop.induct)
  case (3 dc i a cur mi mi' mis assigned)
  then show ?case by (fastforce simp: i64_checked_add_def)
qed (auto simp: i64_checked_sub_def)

lemma percent_loop_sum:
  "percent_loop dc i a cur ss prev assigned = Ok es \<Longrightarrow> ss \<noteq> [] \<Longrightarrow> assigned + entry_sum es = a
     \<and> list_all (\<lambda>e. se_obligation_id e = i \<and> se_currency e = cur) es"
proof (induction dc i a cur ss prev assigned arbitrary: es rule: percent_loop.induct)
  case (3 dc i a cur s s' ss prev assigned)
  then show ?case by (fastforce simp: i64_checked_add_def)
qed (auto simp: i64_checked_sub_def)

text \<open>Induction over a run of the month loop that returns.\<close>

definition month_date :: "chrono \<Rightarrow> naive_date \<Rightarrow> naive_date \<Rightarrow> naive_date" where
  "month_date ch stop cursor = (if last_day_of_month ch cursor < stop then last_day_of_month ch cursor else stop)"

definition month_amount :: "chrono \<Rightarrow> int \<Rightarrow> int \<Rightarrow> naive_date \<Rightarrow> naive_date \<Rightarrow> int" where
  "month_amount ch a t stop cursor = a * (month_date ch stop cursor - cursor + 1) sdiv t"

definition month_entry :: "chrono \<Rightarrow> string \<Rightarrow> int \<Rightarrow> int \<Rightarrow> currency \<Rightarrow> naive_date \<Rightarrow> naive_date \<Rightarrow> schedule_entry" where
  "month_entry ch i a t cur stop cursor =
     \<lparr>se_obligation_id = i, se_date = month_date ch stop cursor, se_amount_minor = month_amount ch a t stop cursor, se_currency = cur\<rparr>"

lemma month_loop_induct:
  assumes run: "month_loop ch i a t cur stop cursor assigned entries = Some r"
    and empty: "\<And>c as es. \<not> c \<le> stop \<Longrightarrow> P c as es (Ok (es, as))"
    and fail: "\<And>c as es e. c \<le> stop \<Longrightarrow> \<not> in_i64 (month_amount ch a t stop c) \<or> \<not> in_i64 (as + month_amount ch a t stop c) \<Longrightarrow> P c as es (Err e)"
    and final: "\<And>c as es. c \<le> stop \<Longrightarrow> (\<forall>c'. ch_succ ch (month_date ch stop c) = Some c' \<longrightarrow> stop < c') \<Longrightarrow> P c as es (Ok (es @ [month_entry ch i a t cur stop c], as + month_amount ch a t stop c))"
    and step: "\<And>c as es c' r. c \<le> stop \<Longrightarrow> ch_succ ch (month_date ch stop c) = Some c' \<Longrightarrow> c' \<le> stop
      \<Longrightarrow> P c' (as + month_amount ch a t stop c) (es @ [month_entry ch i a t cur stop c]) r \<Longrightarrow> P c as es r"
  shows "P cursor assigned entries r"
proof -
  have "ch = ch \<and> i = i \<and> a = a \<and> t = t \<and> cur = cur \<and> stop = stop \<longrightarrow> P cursor assigned entries r"
    by (rule month_loop.raw_induct [where P = "\<lambda>ch' i' a' t' cur' stop' c as es r.
          ch' = ch \<and> i' = i \<and> a' = a \<and> t' = t \<and> cur' = cur \<and> stop' = stop \<longrightarrow> P c as es r", OF _ run])
      (intro impI, elim conjE, hypsubst_thin, simp only: Let_def month_date_def [symmetric] month_amount_def [symmetric] month_entry_def [symmetric],
       auto simp: i64_checked_add_def month_entry_def [symmetric] split: if_splits option.splits intro: empty fail final step)
  then show ?thesis by simp
qed

lemma month_loop_sum:
  assumes "month_loop ch i a t cur stop cursor assigned entries = Some r"
  shows "case r of Ok (es, b) \<Rightarrow> b - entry_sum es = assigned - entry_sum entries \<and> (entries \<noteq> [] \<or> cursor \<le> stop \<longrightarrow> es \<noteq> [])
       \<and> (list_all (\<lambda>e. se_obligation_id e = i \<and> se_currency e = cur) entries \<longrightarrow> list_all (\<lambda>e. se_obligation_id e = i \<and> se_currency e = cur) es)
     | _ \<Rightarrow> True" (is "?P cursor assigned entries r")
  by (rule month_loop_induct [OF assms, where P = ?P]) (auto simp: month_entry_def split: result.splits)

lemma straight_line_sum:
  assumes "straight_line ch i start stop a cur = Some (Ok es)"
  shows "entry_sum es = a \<and> list_all (\<lambda>e. se_obligation_id e = i \<and> se_currency e = cur) es"
proof -
  obtain l b where l: "month_loop ch i a (stop - start + 1) cur stop start 0 [] = Some (Ok (l, b))" "plug_last a (l, b) = Ok es" "start \<le> stop"
    using assms by (auto simp: straight_line_def Let_def split: if_splits)
  from month_loop_sum [OF l(1)] l(3) have "b = entry_sum l" "l \<noteq> []" and ids: "list_all (\<lambda>e. se_obligation_id e = i \<and> se_currency e = cur) l" by auto
  then obtain xs x where xs: "l = xs @ [x]" by (cases l rule: rev_cases) auto
  show ?thesis using l(2) \<open>b = entry_sum l\<close> ids unfolding xs by (auto simp: plug_last_def i64_checked_add_def i64_checked_sub_def)
qed

lemma schedule_sum:
  assumes "generate ch dc ob allocated cur = Some (Ok sched)" and "has_dates (ob_pattern ob)"
  shows "sum_list (map se_amount_minor (rs_entries sched)) = allocated \<and> rs_obligation_id sched = ob_id ob
    \<and> list_all (\<lambda>e. se_obligation_id e = ob_id ob \<and> se_currency e = cur) (rs_entries sched)"
proof (cases "ob_pattern ob")
  case (OutputMilestones mis)
  then show ?thesis using assms milestone_loop_sum [of dc "ob_id ob" allocated cur mis 0]
    by (auto simp: generate_def output_milestones_def entry_sum_def split: if_splits)
next
  case (InputPercentComplete ss)
  then show ?thesis using assms percent_loop_sum [of dc "ob_id ob" allocated cur ss "dec_zero dc" 0]
    by (auto simp: generate_def input_percent_complete_def entry_sum_def)
next
  case (StraightLine start stop)
  then show ?thesis using assms straight_line_sum [of ch "ob_id ob" start stop allocated cur]
    by (auto simp: generate_def entry_sum_def)
qed (use assms in \<open>auto simp: generate_def\<close>)

text \<open>
  Nothing is left unbooked: whatever the calendar and the decimal arithmetic do, a schedule that is produced for an obligation with dates books
  exactly the allocated amount, every entry under the obligation and in the given currency.
\<close>

theorem schedule_books_allocation:
  assumes "generate ch dc ob allocated cur = Some (Ok sched)" and "has_dates (ob_pattern ob)"
  shows "sum_list (map se_amount_minor (rs_entries sched)) = allocated \<and> rs_obligation_id sched = ob_id ob
    \<and> list_all (\<lambda>e. se_obligation_id e = ob_id ob \<and> se_currency e = cur) (rs_entries sched)"
  using assms by (rule schedule_sum)

theorem schedule_books_allocation_witness:
  "\<exists>sched. generate sample_chrono sample_decimal (sample_obligation ''i'' 100 (InputPercentComplete [\<lparr>sn_date = 5, sn_percent = 2500\<rparr>, \<lparr>sn_date = 9, sn_percent = 6000\<rparr>])) 801 USD
     = Some (Ok sched) \<and> map se_amount_minor (rs_entries sched) = [200, 601] \<and> sum_list (map se_amount_minor (rs_entries sched)) = 801"
proof -
  let ?ob = "sample_obligation ''i'' 100 (InputPercentComplete [\<lparr>sn_date = 5, sn_percent = 2500\<rparr>, \<lparr>sn_date = 9, sn_percent = 6000\<rparr>])"
  obtain sched where e: "generate sample_chrono sample_decimal ?ob 801 USD = Some (Ok sched)" "map se_amount_minor (rs_entries sched) = [200, 601]"
    by (simp add: generate_def sample_obligation_def input_percent_complete_def sample_decimal_def scaled_def in_i64_def i64_checked_add_def i64_checked_sub_def i64_of_def)
  from schedule_books_allocation [OF e(1)] e show ?thesis by (auto simp: sample_obligation_def)
qed

text \<open>
  The last snapshot books everything: an input-method obligation with one progress snapshot is recognised in full on its date, whatever percentage the
  snapshot reports.
\<close>

theorem one_snapshot_books_all:
  assumes "ob_pattern ob = InputPercentComplete [s]" and "\<not> dec_less dc (sn_percent s) (dec_zero dc)" and "dec_sub dc (sn_percent s) (dec_zero dc) = Some d"
    and "in_i64 allocated"
  shows "generate ch dc ob allocated cur = Some (Ok \<lparr>rs_obligation_id = ob_id ob,
    rs_entries = [\<lparr>se_obligation_id = ob_id ob, se_date = sn_date s, se_amount_minor = allocated, se_currency = cur\<rparr>]\<rparr>)"
  using assms by (simp add: generate_def input_percent_complete_def i64_checked_sub_def)

theorem one_snapshot_books_all_witness:
  "\<exists>sched. generate sample_chrono sample_decimal (sample_obligation ''i'' 100 (InputPercentComplete [\<lparr>sn_date = 5, sn_percent = 1000\<rparr>])) 800 USD = Some (Ok sched)
     \<and> map se_amount_minor (rs_entries sched) = [800]"
  using one_snapshot_books_all [of "sample_obligation ''i'' 100 (InputPercentComplete [\<lparr>sn_date = 5, sn_percent = 1000\<rparr>])" "\<lparr>sn_date = 5, sn_percent = 1000\<rparr>"
      sample_decimal 1000 800 sample_chrono USD]
  by (simp add: sample_obligation_def sample_decimal_def in_i64_def)

text \<open>
  In the last month the calendar supports there is no first day of the next month; the fallback then puts the month end before the
  cursor, and the loop never ends.
\<close>

lemma month_loop_stuck:
  assumes "month_loop ch i a t cur stop cursor assigned entries = Some r" and "cursor = start"
    and "start \<le> stop" and "0 < t" and "in_i64 assigned" and "ch_from_ymd ch (fst (next_month ch start)) (snd (next_month ch start)) 1 = None"
    and "ch_pred ch start = Some (start - 1)" and "ch_succ ch (start - 1) = Some start"
  shows False
proof -
  have "last_day_of_month ch start = start - 1"
    using assms(6,7) by (auto simp: last_day_of_month_def next_month_def split: if_splits)
  then have e: "month_date ch stop start = start - 1" "month_amount ch a t stop start = 0"
    using assms(3,4) by (simp_all add: month_date_def month_amount_def sdiv_nonneg_eq_div)
  have "cursor = start \<longrightarrow> in_i64 assigned \<longrightarrow> False"
    by (rule month_loop_induct [OF assms(1), where P = "\<lambda>c as es r. c = start \<longrightarrow> in_i64 as \<longrightarrow> False"])
      (use assms(3,8) e in \<open>auto simp: in_i64_def\<close>)
  then show False using assms(2,5) by blast
qed

end
