(* ===== verification/Revenue_Ledger.thy ===== *)
theory Revenue_Ledger
  imports Revenue Hash_Map "HOL-Library.Multiset"
begin

text \<open>
  The deferred-revenue ledger (\<^verbatim>\<open>op-revrec/src/ledger.rs\<close>): an append-only list of postings per contract, the balances computed from
  it, and the three ways to post.  Minted ids and the current time are arguments; a poisoned lock is left out.
  Shown: what was opened is always deferred, recognised or refunded, refunds never exceed what was opened, and posting
  the schedules of a contract moves its whole price from deferred to recognised.
\<close>

section \<open>Model\<close>

datatype posting_kind = DeferralOpen | Recognize | Refund

record posting =
  po_id :: uuid
  po_contract_id :: uuid
  po_payment_id :: "uuid option"
  po_kind :: posting_kind
  po_amount_minor :: int
  po_currency :: currency
  po_date :: naive_date
  po_created_at :: nat
  po_memo :: string

record balances =
  ba_deferred_minor :: int
  ba_recognized_minor :: int

type_synonym rev_ledger = "(uuid, posting list) hashmap"

definition i64_saturating :: "int \<Rightarrow> int" where
  "i64_saturating x = max i64_min (min i64_max x)"

fun balance_loop :: "posting list \<Rightarrow> int \<Rightarrow> int \<Rightarrow> (balances, rev_error) result" where
  "balance_loop [] deferred recognized = Ok \<lparr>ba_deferred_minor = deferred, ba_recognized_minor = recognized\<rparr>"
| "balance_loop (p # ps) deferred recognized =
     (case po_kind p of
        DeferralOpen \<Rightarrow> balance_loop ps (i64_saturating (deferred + po_amount_minor p)) recognized
      | Recognize \<Rightarrow> balance_loop ps (i64_saturating (deferred - po_amount_minor p)) (i64_saturating (recognized + po_amount_minor p))
      | Refund \<Rightarrow>
          (let from_recognized = min recognized (po_amount_minor p) in
           rbind (i64_val (po_amount_minor p - from_recognized)) (\<lambda>from_deferred.
           balance_loop ps (i64_saturating (deferred - from_deferred)) (i64_saturating (recognized - from_recognized)))))"

definition compute_balances :: "posting list \<Rightarrow> (balances, rev_error) result" where
  "compute_balances ps = balance_loop ps 0 0"

definition ledger_new :: rev_ledger where
  "ledger_new = []"

definition postings :: "rev_ledger \<Rightarrow> uuid \<Rightarrow> posting list" where
  "postings l c = (case hm_get l c of Some ps \<Rightarrow> ps | None \<Rightarrow> [])"

definition ledger_balances :: "rev_ledger \<Rightarrow> uuid \<Rightarrow> (balances, rev_error) result" where
  "ledger_balances l c = compute_balances (postings l c)"

definition push_posting :: "posting \<Rightarrow> rev_ledger \<Rightarrow> rev_ledger" where
  "push_posting p l = hm_insert (po_contract_id p) (postings l (po_contract_id p) @ [p]) l"

definition open_deferral :: "uuid \<Rightarrow> nat \<Rightarrow> uuid \<Rightarrow> uuid option \<Rightarrow> money \<Rightarrow> naive_date \<Rightarrow> string \<Rightarrow> rev_ledger \<Rightarrow> rev_ledger \<times> posting" where
  "open_deferral i now c payment amount date memo l =
     (let p = \<lparr>po_id = i, po_contract_id = c, po_payment_id = payment, po_kind = DeferralOpen, po_amount_minor = minor_units amount,
               po_currency = currency amount, po_date = date, po_created_at = now, po_memo = memo\<rparr>
      in (push_posting p l, p))"

definition post_recognition :: "uuid \<Rightarrow> nat \<Rightarrow> uuid \<Rightarrow> schedule_entry \<Rightarrow> string \<Rightarrow> rev_ledger \<Rightarrow> rev_ledger \<times> posting" where
  "post_recognition i now c e memo l =
     (let p = \<lparr>po_id = i, po_contract_id = c, po_payment_id = None, po_kind = Recognize, po_amount_minor = se_amount_minor e,
               po_currency = se_currency e, po_date = se_date e, po_created_at = now, po_memo = memo\<rparr>
      in (push_posting p l, p))"

text \<open>\<^verbatim>\<open>entry(..).or_default()\<close> leaves an empty list behind also when the refund is refused.\<close>

definition post_refund :: "uuid \<Rightarrow> nat \<Rightarrow> uuid \<Rightarrow> uuid option \<Rightarrow> money \<Rightarrow> naive_date \<Rightarrow> string \<Rightarrow> rev_ledger \<Rightarrow> rev_ledger \<times> (posting, rev_error) result" where
  "post_refund i now c payment amount date memo l =
     (let l' = hm_insert c (postings l c) l in
      case compute_balances (postings l c) of
        Ok bal \<Rightarrow>
          (let total_available = (case i64_checked_add (ba_recognized_minor bal) (ba_deferred_minor bal) of Some x \<Rightarrow> x | None \<Rightarrow> i64_max) in
           if minor_units amount > total_available then (l', Err (RefundExceedsRecognized (minor_units amount) (ba_recognized_minor bal)))
           else let p = \<lparr>po_id = i, po_contract_id = c, po_payment_id = payment, po_kind = Refund, po_amount_minor = minor_units amount,
                         po_currency = currency amount, po_date = date, po_created_at = now, po_memo = memo\<rparr>
                in (push_posting p l', Ok p))
      | Err e \<Rightarrow> (l', Err e)
      | Panic \<Rightarrow> (l', Panic))"

definition translate :: "'d decimal \<Rightarrow> schedule_entry \<Rightarrow> currency \<Rightarrow> 'd \<Rightarrow> (schedule_entry, rev_error) result" where
  "translate dc e to_currency rate =
     rbind (expect (dec_mul dc (dec_from dc (se_amount_minor e)) rate)) (\<lambda>x.
     rbind (ok_or (dec_to_i64 dc (dec_round dc x)) (RevMoney Overflow)) (\<lambda>k.
     Ok \<lparr>se_obligation_id = se_obligation_id e, se_date = se_date e, se_amount_minor = k, se_currency = to_currency\<rparr>))"

section \<open>Conservation\<close>

definition kind_sum :: "posting_kind \<Rightarrow> posting list \<Rightarrow> int" where
  "kind_sum k ps = sum_list (map po_amount_minor (filter (\<lambda>p. po_kind p = k) ps))"

lemma kind_sum_simps [simp]: "kind_sum k [] = 0" "kind_sum k (ps @ [p]) = kind_sum k ps + (if po_kind p = k then po_amount_minor p else 0)"
  by (simp_all add: kind_sum_def)

lemma postings_push [simp]: "postings (push_posting p l) c = (if c = po_contract_id p then postings l c @ [p] else postings l c)"
  by (simp add: postings_def push_posting_def)

lemma postings_touch [simp]: "postings (hm_insert c (postings l c) l) c' = postings l c'"
  by (simp add: postings_def)

lemma postings_new [simp]: "postings ledger_new c = []"
  by (simp add: postings_def ledger_new_def)

lemma balance_loop_append:
  "balance_loop (ps @ qs) d r = rbind (balance_loop ps d r) (\<lambda>b. balance_loop qs (ba_deferred_minor b) (ba_recognized_minor b))"
proof (induction ps arbitrary: d r)
  case (Cons p ps)
  then show ?case by (cases "po_kind p") (simp_all add: Let_def rbind_assoc)
qed simp

text \<open>What the balances of a list of postings are worth.\<close>

definition balanced :: "posting list \<Rightarrow> bool" where
  "balanced ps \<longleftrightarrow> (kind_sum DeferralOpen ps \<le> i64_max \<and> kind_sum Recognize ps \<le> i64_max \<longrightarrow>
     (\<exists>d r. compute_balances ps = Ok \<lparr>ba_deferred_minor = d, ba_recognized_minor = r\<rparr> \<and> d + r = kind_sum DeferralOpen ps - kind_sum Refund ps
       \<and> 0 \<le> d + r \<and> 0 \<le> r \<and> r \<le> kind_sum Recognize ps))
     \<and> 0 \<le> kind_sum Recognize ps \<and> 0 \<le> kind_sum Refund ps"

lemma saturating_id: "in_i64 x \<Longrightarrow> i64_saturating x = x"
  by (simp add: i64_saturating_def in_i64_def)

lemma balanced_push:
  assumes "balanced ps" and "0 \<le> po_amount_minor p"
    and "po_kind p = Refund \<Longrightarrow> kind_sum DeferralOpen ps \<le> i64_max \<Longrightarrow> kind_sum Recognize ps \<le> i64_max \<Longrightarrow> \<exists>b. compute_balances ps = Ok b \<and> po_amount_minor p \<le> ba_deferred_minor b + ba_recognized_minor b"
  shows "balanced (ps @ [p])"
proof -
  have "\<exists>d r. compute_balances (ps @ [p]) = Ok \<lparr>ba_deferred_minor = d, ba_recognized_minor = r\<rparr>
      \<and> d + r = kind_sum DeferralOpen (ps @ [p]) - kind_sum Refund (ps @ [p]) \<and> 0 \<le> d + r \<and> 0 \<le> r \<and> r \<le> kind_sum Recognize (ps @ [p])"
    if le: "kind_sum DeferralOpen (ps @ [p]) \<le> i64_max" "kind_sum Recognize (ps @ [p]) \<le> i64_max"
  proof -
    have small: "kind_sum DeferralOpen ps \<le> i64_max" "kind_sum Recognize ps \<le> i64_max" using le assms(2) by (auto split: if_splits)
    then obtain d r where b: "compute_balances ps = Ok \<lparr>ba_deferred_minor = d, ba_recognized_minor = r\<rparr>"
        "d + r = kind_sum DeferralOpen ps - kind_sum Refund ps" "0 \<le> d + r" "0 \<le> r" "r \<le> kind_sum Recognize ps" and nn: "0 \<le> kind_sum Refund ps"
      using assms(1) unfolding balanced_def by blast
    have run: "compute_balances (ps @ [p]) = balance_loop [p] d r"
      using b(1) by (simp add: compute_balances_def balance_loop_append del: balance_loop.simps)
    show ?thesis
    proof (cases "po_kind p")
      case DeferralOpen
      then show ?thesis unfolding run using b nn le assms(2) by (auto simp: saturating_id in_i64_def)
    next
      case Recognize
      then show ?thesis unfolding run using b nn le assms(2) by (auto simp: saturating_id in_i64_def)
    next
      case Refund
      then have "po_amount_minor p \<le> d + r" using assms(3) small b(1) by simp
      then show ?thesis unfolding run using Refund b nn le assms(2)
        by (auto simp: Let_def i64_val_def saturating_id in_i64_def min_def)
    qed
  qed
  then show ?thesis using assms(1,2) by (auto simp: balanced_def)
qed

text \<open>The ledgers reached by posting amounts that are not negative; each posting brings its own id, time, date and memo.\<close>

inductive reach :: "rev_ledger \<Rightarrow> bool" where
  reach_new: "reach ledger_new"
| reach_open: "reach l \<Longrightarrow> 0 \<le> minor_units amount \<Longrightarrow> reach (fst (open_deferral i now c payment amount date memo l))"
| reach_recognize: "reach l \<Longrightarrow> 0 \<le> se_amount_minor e \<Longrightarrow> reach (fst (post_recognition i now c e memo l))"
| reach_refund: "reach l \<Longrightarrow> 0 \<le> minor_units amount \<Longrightarrow> reach (fst (post_refund i now c payment amount date memo l))"

lemma balanced_nil: "balanced []"
  by (simp add: balanced_def compute_balances_def)

lemma refund_decision:
  assumes "balanced (postings l c)" and "kind_sum DeferralOpen (postings l c) \<le> i64_max" "kind_sum Recognize (postings l c) \<le> i64_max"
  obtains b where "compute_balances (postings l c) = Ok b"
    and "ba_deferred_minor b + ba_recognized_minor b = kind_sum DeferralOpen (postings l c) - kind_sum Refund (postings l c)"
    and "(snd (post_refund i now c payment amount date memo l) = Err (RefundExceedsRecognized (minor_units amount) (ba_recognized_minor b)))
      = (ba_deferred_minor b + ba_recognized_minor b < minor_units amount)"
proof -
  obtain d r where b: "compute_balances (postings l c) = Ok \<lparr>ba_deferred_minor = d, ba_recognized_minor = r\<rparr>"
      "d + r = kind_sum DeferralOpen (postings l c) - kind_sum Refund (postings l c)" "0 \<le> d + r" and nn: "0 \<le> kind_sum Refund (postings l c)"
    using assms unfolding balanced_def by blast
  then have "i64_checked_add r d = Some (r + d)" using assms(2) by (simp add: i64_checked_add_def i64_of_def in_i64_def)
  then show ?thesis using b by (intro that [OF b(1)]) (simp_all add: post_refund_def Let_def add.commute)
qed

lemma reach_balanced: "reach l \<Longrightarrow> balanced (postings l c)"
proof (induction l rule: reach.induct)
  case reach_new
  then show ?case by (simp add: balanced_nil)
next
  case (reach_open l amount i now c' payment date memo)
  then show ?case by (auto simp: open_deferral_def Let_def intro: balanced_push)
next
  case (reach_recognize l e i now c' memo)
  then show ?case by (auto simp: post_recognition_def Let_def intro: balanced_push)
next
  case (reach_refund l amount i now c' payment date memo)
  show ?case
  proof (cases "c' = c \<and> (\<exists>p. snd (post_refund i now c' payment amount date memo l) = Ok p)")
    case True
    then have "postings (fst (post_refund i now c' payment amount date memo l)) c = postings l c @ [\<lparr>po_id = i, po_contract_id = c, po_payment_id = payment,
        po_kind = Refund, po_amount_minor = minor_units amount, po_currency = currency amount, po_date = date, po_created_at = now, po_memo = memo\<rparr>]"
      by (auto simp: post_refund_def Let_def split: result.splits if_splits)
    moreover have "\<exists>b. compute_balances (postings l c) = Ok b \<and> minor_units amount \<le> ba_deferred_minor b + ba_recognized_minor b"
      if "kind_sum DeferralOpen (postings l c) \<le> i64_max" "kind_sum Recognize (postings l c) \<le> i64_max"
      using refund_decision [OF reach_refund.IH that, of i now payment amount date memo] True by (metis result.distinct(1) not_le)
    ultimately show ?thesis using reach_refund by (simp add: balanced_push)
  next
    case False
    then have "postings (fst (post_refund i now c' payment amount date memo l)) c = postings l c"
      by (auto simp: post_refund_def Let_def split: result.splits if_splits)
    then show ?thesis using reach_refund by simp
  qed
qed

text \<open>
  C30.  Nothing of a contract's money is lost: after any sequence of deferrals, recognitions and refunds of amounts that
  are not negative, as long as the sums of the deferrals and of the recognitions fit the amount type, the balances of a
  contract can be computed, deferred plus recognised is what was opened less what was refunded, that is never negative,
  the recognised balance is not negative, and a refund is refused exactly when it asks for more than what is left.
\<close>

theorem revenue_conserved:
  assumes "reach l" and "kind_sum DeferralOpen (postings l c) \<le> i64_max" and "kind_sum Recognize (postings l c) \<le> i64_max"
  shows "\<exists>b. ledger_balances l c = Ok b \<and> 0 \<le> ba_recognized_minor b
    \<and> ba_deferred_minor b + ba_recognized_minor b = kind_sum DeferralOpen (postings l c) - kind_sum Refund (postings l c)
    \<and> kind_sum Refund (postings l c) \<le> kind_sum DeferralOpen (postings l c)
    \<and> (snd (post_refund i now c payment amount date memo l) = Err (RefundExceedsRecognized (minor_units amount) (ba_recognized_minor b)))
        = (kind_sum DeferralOpen (postings l c) - kind_sum Refund (postings l c) < minor_units amount)"
proof -
  have bal: "balanced (postings l c)" using assms(1) by (rule reach_balanced)
  obtain b where "compute_balances (postings l c) = Ok b"
      "ba_deferred_minor b + ba_recognized_minor b = kind_sum DeferralOpen (postings l c) - kind_sum Refund (postings l c)"
      "(snd (post_refund i now c payment amount date memo l) = Err (RefundExceedsRecognized (minor_units amount) (ba_recognized_minor b)))
        = (ba_deferred_minor b + ba_recognized_minor b < minor_units amount)"
    using refund_decision [OF bal assms(2,3), of i now payment amount date memo] .
  then show ?thesis using bal assms(2,3) by (auto simp: balanced_def ledger_balances_def)
qed

section \<open>A contract from inception to full recognition\<close>

definition sample_entry :: "int \<Rightarrow> schedule_entry" where
  "sample_entry a = \<lparr>se_obligation_id = ''o'', se_date = 0, se_amount_minor = a, se_currency = USD\<rparr>"

definition sample_rev_ledger :: rev_ledger where
  "sample_rev_ledger = fst (post_refund 3 3 7 None (from_minor 150 USD) 3 ''''
     (fst (post_recognition 2 2 7 (sample_entry 100) '''' (fst (open_deferral 1 1 7 None (from_minor 400 USD) 1 '''' ledger_new)))))"

theorem revenue_conserved_witness:
  "\<exists>b. ledger_balances sample_rev_ledger 7 = Ok b \<and> ba_deferred_minor b + ba_recognized_minor b = 250
     \<and> (snd (post_refund 4 4 7 None (from_minor 251 USD) 4 '''' sample_rev_ledger) = Err (RefundExceedsRecognized 251 (ba_recognized_minor b)))"
proof -
  have r: "reach sample_rev_ledger" unfolding sample_rev_ledger_def
    by (intro reach.intros) (simp_all add: sample_entry_def from_minor_def)
  have p: "kind_sum DeferralOpen (postings sample_rev_ledger 7) = 400" "kind_sum Recognize (postings sample_rev_ledger 7) = 100"
      "kind_sum Refund (postings sample_rev_ledger 7) = 150" by code_simp+
  have "kind_sum DeferralOpen (postings sample_rev_ledger 7) \<le> i64_max" "kind_sum Recognize (postings sample_rev_ledger 7) \<le> i64_max"
    unfolding p by simp_all
  from revenue_conserved [OF r this, of 4 4 None "from_minor 251 USD" 4 "''''"] show ?thesis by (auto simp: p from_minor_def)
qed

lemma recognition_run:
  assumes "list_all (\<lambda>e. 0 \<le> se_amount_minor e) es" and "compute_balances (postings l c) = Ok \<lparr>ba_deferred_minor = d, ba_recognized_minor = r\<rparr>"
    and "0 \<le> r" "r + sum_list (map se_amount_minor es) \<le> i64_max" "sum_list (map se_amount_minor es) \<le> d" "d \<le> i64_max"
  shows "compute_balances (postings (fold (\<lambda>e l. fst (post_recognition i now c e memo l)) es l) c)
    = Ok \<lparr>ba_deferred_minor = d - sum_list (map se_amount_minor es), ba_recognized_minor = r + sum_list (map se_amount_minor es)\<rparr>"
  using assms
proof (induction es arbitrary: l d r)
  case (Cons e es)
  let ?a = "se_amount_minor e"
  have nn: "0 \<le> sum_list (map se_amount_minor es)" using Cons.prems(1) by (auto intro!: sum_list_nonneg simp: list_all_iff)
  have "compute_balances (postings (fst (post_recognition i now c e memo l)) c) = Ok \<lparr>ba_deferred_minor = d - ?a, ba_recognized_minor = r + ?a\<rparr>"
    using Cons.prems nn by (simp add: post_recognition_def Let_def compute_balances_def balance_loop_append saturating_id in_i64_def)
  with Cons.IH [of "fst (post_recognition i now c e memo l)" "d - ?a" "r + ?a"] Cons.prems nn show ?case by simp
qed simp

text \<open>The schedules generated for the obligations of a contract from its allocation.\<close>

definition schedules_of :: "chrono \<Rightarrow> 'd decimal \<Rightarrow> currency \<Rightarrow> 'd obligation list \<Rightarrow> (string \<times> int) list \<Rightarrow> recognition_schedule list \<Rightarrow> bool" where
  "schedules_of ch dc cur obs alloc scheds \<longleftrightarrow>
     list_all2 (\<lambda>(ob, a) sched. generate ch dc ob (snd a) cur = Some (Ok sched)) (zip obs alloc) scheds"

lemma schedules_sum:
  assumes "schedules_of ch dc cur obs alloc scheds" and "length alloc = length obs" and "list_all (\<lambda>ob. has_dates (ob_pattern ob)) obs"
  shows "sum_list (map se_amount_minor (concat (map rs_entries scheds))) = sum_list (map snd alloc)"
  using assms
proof (induction obs arbitrary: alloc scheds)
  case (Cons ob obs)
  then obtain a alloc' sched scheds' where eq: "alloc = a # alloc'" "scheds = sched # scheds'" "schedules_of ch dc cur obs alloc' scheds'"
      "generate ch dc ob (snd a) cur = Some (Ok sched)" "length alloc' = length obs"
    by (auto simp: schedules_of_def length_Suc_conv list_all2_Cons1)
  with Cons schedule_sum [OF eq(4)] show ?case by simp
qed (simp add: schedules_of_def)

text \<open>
  Patterns that recognise the whole allocation as documented: milestones are given, and progress snapshots reach 100 percent.  (The last snapshot books
  what is left whatever its percentage, and usage is recognised outside the schedule.)
\<close>

fun recognises_all :: "'d decimal \<Rightarrow> 'd recognition_pattern \<Rightarrow> bool" where
  "recognises_all dc (OutputMilestones mis) = (mis \<noteq> [])"
| "recognises_all dc (InputPercentComplete ss) = (ss \<noteq> [] \<and> sn_percent (last ss) = dec_one dc)"
| "recognises_all dc (Usage _) = False"
| "recognises_all dc _ = True"

lemma recognises_all_has_dates: "recognises_all dc pat \<Longrightarrow> has_dates pat"
  by (cases pat) auto

text \<open>
  C29.  A contract's whole price becomes revenue.  Take a contract none of whose obligations is recognised on usage, whose milestone lists are not empty and whose
  progress snapshots end at 100 percent.  When the deferral of the transaction price is opened and the entries of the schedules generated from its
  allocation are posted, in any order and none of them negative, then after each posting deferred plus recognised is the price and neither is negative, and after the
  last one nothing is deferred.
\<close>

theorem price_fully_recognized:
  assumes "price_total dc (ct_price c) = Ok p" and "allocate_transaction_price dc c = Ok alloc" and "in_i64 (minor_units p)"
    and "schedules_of ch dc (currency p) (ct_obligations c) alloc scheds" and "list_all (\<lambda>ob. recognises_all dc (ob_pattern ob)) (ct_obligations c)"
    and "mset es = mset (concat (map rs_entries scheds))" and "list_all (\<lambda>e. 0 \<le> se_amount_minor e) es"
  shows "\<exists>d r. ledger_balances (fold (\<lambda>e l. fst (post_recognition i now cid e memo l)) (take n es) (fst (open_deferral i now cid pay p date memo ledger_new))) cid
        = Ok \<lparr>ba_deferred_minor = d, ba_recognized_minor = r\<rparr>
      \<and> d + r = minor_units p \<and> 0 \<le> d \<and> 0 \<le> r \<and> (length es \<le> n \<longrightarrow> d = 0 \<and> r = minor_units p)"
proof -
  let ?l = "fst (open_deferral i now cid pay p date memo ledger_new)" and ?s = "\<lambda>es. sum_list (map se_amount_minor es)"
  have alloc: "map fst alloc = map ob_id (ct_obligations c)" "sum_list (map snd alloc) = minor_units p"
    using allocate_sum [OF assms(2,1)] by simp_all
  then have len: "length alloc = length (ct_obligations c)" by (metis length_map)
  have "?s es = ?s (concat (map rs_entries scheds))" using assms(6) by (metis mset_map sum_mset_sum_list)
  also have "\<dots> = minor_units p" using schedules_sum [OF assms(4) len] assms(5) recognises_all_has_dates alloc by (auto simp: list_all_iff)
  finally have tot: "?s (take n es) + ?s (drop n es) = minor_units p" by (metis append_take_drop_id map_append sum_list_append)
  have pos: "list_all (\<lambda>e. 0 \<le> se_amount_minor e) (take n es)" "list_all (\<lambda>e. 0 \<le> se_amount_minor e) (drop n es)"
    using assms(7) by (auto simp: list_all_iff dest: in_set_takeD in_set_dropD)
  then have nn: "0 \<le> ?s (take n es)" "0 \<le> ?s (drop n es)" by (auto intro!: sum_list_nonneg simp: list_all_iff)
  have "compute_balances (postings ?l cid) = Ok \<lparr>ba_deferred_minor = minor_units p, ba_recognized_minor = 0\<rparr>"
    using assms(3) by (simp add: open_deferral_def Let_def compute_balances_def saturating_id)
  from recognition_run [OF pos(1) this, of i now memo] tot nn assms(3) show ?thesis
    by (auto simp: ledger_balances_def in_i64_def)
qed

definition sample_plan :: "int contract" where
  "sample_plan = sample_contract\<lparr>ct_obligations := [sample_obligation ''setup'' 100 (PointInTime 10),
     sample_obligation ''saas'' 200 (InputPercentComplete [\<lparr>sn_date = 12, sn_percent = 2500\<rparr>, \<lparr>sn_date = 19, sn_percent = 10000\<rparr>])]\<rparr>"

definition plan_entry :: "string \<Rightarrow> naive_date \<Rightarrow> int \<Rightarrow> schedule_entry" where
  "plan_entry i d a = \<lparr>se_obligation_id = i, se_date = d, se_amount_minor = a, se_currency = USD\<rparr>"

lemma sample_plan_price: "price_total sample_decimal (ct_price sample_plan) = Ok (from_minor 250 USD)"
  by (simp add: sample_plan_def sample_contract_def fixed_price_def price_total_def from_minor_def)

lemma sample_plan_allocation: "allocate_transaction_price sample_decimal sample_plan = Ok [(''setup'', 83), (''saas'', 167)]"
proof -
  have "validate_currencies sample_plan = Ok ()" "total_ssp_minor sample_plan = Ok 300"
      "allocate_loop 250 300 (ct_obligations sample_plan) 0 = Ok [(''setup'', 83), (''saas'', 167)]"
    by (simp_all add: validate_currencies_def total_ssp_minor_def sample_plan_def sample_contract_def sample_obligation_def fixed_price_def from_minor_def
        i64_checked_add_def i64_checked_sub_def i64_of_def in_i64_def signed_divide_int_def)
  then show ?thesis by (simp add: allocate_transaction_price_def sample_plan_price from_minor_def del: rbind_eq_Ok)
qed

theorem price_fully_recognized_witness:
  "ledger_balances (fold (\<lambda>e l. fst (post_recognition 1 0 9 e '''' l)) [plan_entry ''saas'' 12 41, plan_entry ''setup'' 10 83, plan_entry ''saas'' 19 126]
     (fst (open_deferral 1 0 9 None (from_minor 250 USD) 10 '''' ledger_new))) 9 = Ok \<lparr>ba_deferred_minor = 0, ba_recognized_minor = 250\<rparr>"
proof -
  let ?scheds = "[\<lparr>rs_obligation_id = ''setup'', rs_entries = [plan_entry ''setup'' 10 83]\<rparr>, \<lparr>rs_obligation_id = ''saas'', rs_entries = [plan_entry ''saas'' 12 41, plan_entry ''saas'' 19 126]\<rparr>]"
  have "schedules_of sample_chrono sample_decimal (currency (from_minor 250 USD)) (ct_obligations sample_plan) [(''setup'', 83), (''saas'', 167)] ?scheds"
    by (simp add: schedules_of_def sample_plan_def sample_obligation_def plan_entry_def from_minor_def generate_def input_percent_complete_def
        sample_decimal_def scaled_def in_i64_def i64_checked_add_def i64_checked_sub_def i64_of_def)
  from price_fully_recognized [OF sample_plan_price sample_plan_allocation _ this, of "[plan_entry ''saas'' 12 41, plan_entry ''setup'' 10 83, plan_entry ''saas'' 19 126]" 1 0 9 "''''" 3 None 10]
  show ?thesis by (simp add: from_minor_def in_i64_def sample_plan_def sample_obligation_def plan_entry_def add_mset_commute sample_decimal_def)
qed

end
