(* ===== verification/Connect.thy ===== *)
theory Connect
  imports Money Btree_Map "HOL-Library.List_Lexorder" "HOL-Library.Char_ord"
begin

text \<open>
  Marketplace accounting of \<^verbatim>\<open>op-connect\<close>: payment splits (\<^verbatim>\<open>split.rs\<close>), who is liable on which rail (\<^verbatim>\<open>liability.rs\<close>), transfers
  between connected accounts (\<^verbatim>\<open>transfer.rs\<close>) and the record of accepted terms of service (\<^verbatim>\<open>tos.rs\<close>).
  Account ids are strings; minted transfer ids and the current time are arguments; the calendar library appears as the function that
  turns an acceptance time into microseconds.
  Shown: a split is accepted exactly when its legs partition the payment, transfers move money without making any, a
  validated liability model names one responsible party per rail, and acceptances are recorded once.
\<close>

section \<open>Errors\<close>

datatype connect_error =
    AccountNotFound string
  | AccountStateInvalid string
  | OnboardingStepInvalid string
  | RequirementMissing string
  | BeneficialOwnerIncomplete string
  | InvalidSplit string
  | ConnectCurrencyMismatch string
  | ConnectOverflow
  | ScreeningBlocked string
  | Provider string
  | InvalidPayoutSchedule string
  | InvalidLiabilityModel string
  | TaxReporting string
  | TosInvalid string
  | Core core_error

type_synonym account_id = string

section \<open>Splits\<close>

record split_leg =
  lg_destination :: account_id
  lg_amount :: money
  lg_currency :: currency
  lg_description :: string
  lg_is_fee :: bool
  lg_transfer_group :: "string option"

definition leg_try_new :: "account_id \<Rightarrow> money \<Rightarrow> string \<Rightarrow> bool \<Rightarrow> string option \<Rightarrow> (split_leg, connect_error) result" where
  "leg_try_new destination amount description is_fee transfer_group =
     Ok \<lparr>lg_destination = destination, lg_amount = amount, lg_currency = currency amount, lg_description = description,
         lg_is_fee = is_fee, lg_transfer_group = transfer_group\<rparr>"

record payment_split =
  sp_source_payment_id :: string
  sp_splits :: "split_leg list"

fun check_legs :: "money \<Rightarrow> nat \<Rightarrow> split_leg list \<Rightarrow> (unit, connect_error) result" where
  "check_legs source_amount i [] = Ok ()"
| "check_legs source_amount i (leg # legs) =
     (if minor_units (lg_amount leg) < 0
      then Err (InvalidSplit (''leg '' @ show_nat i @ '' has negative amount '' @ show_int (minor_units (lg_amount leg))))
      else if lg_currency leg \<noteq> currency source_amount
      then Err (ConnectCurrencyMismatch (''leg '' @ show_nat i @ '' currency '' @ code (lg_currency leg) @ '' != source currency '' @ code (currency source_amount)))
      else if currency (lg_amount leg) \<noteq> lg_currency leg
      then Err (ConnectCurrencyMismatch (''leg '' @ show_nat i @ '' self-inconsistent: amount.currency='' @ code (currency (lg_amount leg))
                 @ '' but leg.currency='' @ code (lg_currency leg)))
      else check_legs source_amount (Suc i) legs)"

fun check_destinations :: "string list \<Rightarrow> split_leg list \<Rightarrow> (unit, connect_error) result" where
  "check_destinations seen [] = Ok ()"
| "check_destinations seen (leg # legs) =
     (if lg_destination leg \<in> set seen then Err (InvalidSplit (''duplicate destination '' @ lg_destination leg @ '' in split''))
      else check_destinations (lg_destination leg # seen) legs)"

fun sum_legs :: "split_leg list \<Rightarrow> money \<Rightarrow> (money, connect_error) result" where
  "sum_legs [] acc = Ok acc"
| "sum_legs (leg # legs) acc = rbind (map_err (\<lambda>_. ConnectOverflow) (checked_add acc (lg_amount leg))) (\<lambda>acc. sum_legs legs acc)"

definition split_validate :: "payment_split \<Rightarrow> money \<Rightarrow> (unit, connect_error) result" where
  "split_validate s source_amount =
     (if sp_splits s = [] then Err (InvalidSplit ''no legs'')
      else rbind (check_legs source_amount 0 (sp_splits s)) (\<lambda>_.
           rbind (check_destinations [] (sp_splits s)) (\<lambda>_.
           rbind (sum_legs (sp_splits s) (zero (currency source_amount))) (\<lambda>sum_of.
           if sum_of \<noteq> source_amount
           then rbind (map_err Core (display sum_of)) (\<lambda>shown.
                rbind (map_err Core (display source_amount)) (\<lambda>wanted.
                Err (InvalidSplit (''split legs sum to '' @ shown @ '' but source is '' @ wanted))))
           else Ok ()))))"

fun sum_fees :: "currency \<Rightarrow> split_leg list \<Rightarrow> money \<Rightarrow> (money, connect_error) result" where
  "sum_fees c [] acc = Ok acc"
| "sum_fees c (leg # legs) acc =
     (if lg_is_fee leg \<and> lg_currency leg = c
      then rbind (map_err (\<lambda>_. ConnectOverflow) (checked_add acc (lg_amount leg))) (\<lambda>acc. sum_fees c legs acc)
      else sum_fees c legs acc)"

definition fee_total :: "payment_split \<Rightarrow> currency \<Rightarrow> (money, connect_error) result" where
  "fee_total s c = sum_fees c (sp_splits s) (zero c)"

section \<open>Liability\<close>

datatype liability_model =
    PlatformOfRecord
  | SubMerchantOfRecord
  | Hybrid liability_model liability_model liability_model

datatype rail_kind = Card | A2a | Crypto

datatype dispute_responder = Platform | SubMerchant

fun is_hybrid :: "liability_model \<Rightarrow> bool" where
  "is_hybrid (Hybrid _ _ _) = True"
| "is_hybrid _ = False"

fun check_branches :: "(string \<times> liability_model) list \<Rightarrow> (unit, connect_error) result" where
  "check_branches [] = Ok ()"
| "check_branches ((name, branch) # bs) =
     (if is_hybrid branch then Err (InvalidLiabilityModel (''Hybrid nested inside Hybrid on branch `'' @ name @ ''`'')) else check_branches bs)"

fun liability_validate :: "liability_model \<Rightarrow> (unit, connect_error) result" where
  "liability_validate (Hybrid on_card on_a2a on_crypto) = check_branches [(''card'', on_card), (''a2a'', on_a2a), (''crypto'', on_crypto)]"
| "liability_validate _ = Ok ()"

fun for_rail :: "liability_model \<Rightarrow> rail_kind \<Rightarrow> liability_model" where
  "for_rail PlatformOfRecord _ = PlatformOfRecord"
| "for_rail SubMerchantOfRecord _ = SubMerchantOfRecord"
| "for_rail (Hybrid on_card on_a2a on_crypto) rail = (case rail of Card \<Rightarrow> on_card | A2a \<Rightarrow> on_a2a | Crypto \<Rightarrow> on_crypto)"

definition platform_files_1099k_for :: "liability_model \<Rightarrow> rail_kind \<Rightarrow> bool" where
  "platform_files_1099k_for m rail \<longleftrightarrow> for_rail m rail = PlatformOfRecord"

definition platform_pci_inherits :: "liability_model \<Rightarrow> bool" where
  "platform_pci_inherits m \<longleftrightarrow> for_rail m Card = PlatformOfRecord"

definition responder :: "liability_model \<Rightarrow> rail_kind \<Rightarrow> dispute_responder" where
  "responder m rail = (case for_rail m rail of PlatformOfRecord \<Rightarrow> Platform | SubMerchantOfRecord \<Rightarrow> SubMerchant | Hybrid _ _ _ \<Rightarrow> Platform)"

section \<open>Transfers\<close>

record ledger_entry =
  le_id :: string
  le_from :: account_id
  le_to :: account_id
  le_amount :: money
  le_posted_at :: nat

record connect_ledger =
  cl_balances :: "(account_id, money) btreemap"
  cl_entries :: "ledger_entry list"

definition connect_ledger_new :: connect_ledger where
  "connect_ledger_new = \<lparr>cl_balances = [], cl_entries = []\<rparr>"

definition credit_opening :: "account_id \<Rightarrow> money \<Rightarrow> connect_ledger \<Rightarrow> connect_ledger" where
  "credit_opening acct amount l =
     (case bt_get (cl_balances l) acct of
        Some m \<Rightarrow> (case checked_add m amount of Ok s \<Rightarrow> l\<lparr>cl_balances := bt_insert acct s (cl_balances l)\<rparr> | _ \<Rightarrow> l)
      | None \<Rightarrow> l\<lparr>cl_balances := bt_insert acct amount (cl_balances l)\<rparr>)"

definition balance :: "connect_ledger \<Rightarrow> account_id \<Rightarrow> currency \<Rightarrow> money" where
  "balance l acct c = (case bt_get (cl_balances l) acct of Some m \<Rightarrow> if currency m = c then m else zero c | None \<Rightarrow> zero c)"

definition entries_len :: "connect_ledger \<Rightarrow> nat" where
  "entries_len l = length (cl_entries l)"

definition transfer_checked :: "account_id \<Rightarrow> account_id \<Rightarrow> money \<Rightarrow> connect_ledger \<Rightarrow> (money \<times> money, connect_error) result" where
  "transfer_checked from to amount l =
     (if minor_units amount < 0 then Err (InvalidSplit ''transfer amount must be non-negative'')
      else rbind (ok_or (bt_get (cl_balances l) from) (AccountNotFound from)) (\<lambda>from_balance.
           if currency from_balance \<noteq> currency amount
           then Err (ConnectCurrencyMismatch (''source account currency '' @ code (currency from_balance) @ '' != transfer currency '' @ code (currency amount)))
           else rbind (map_err (\<lambda>_. ConnectOverflow) (checked_sub from_balance amount)) (\<lambda>new_from.
           if minor_units new_from < 0 then Err (InvalidSplit (''insufficient balance in '' @ from))
           else let to_balance = (case bt_get (cl_balances l) to of Some m \<Rightarrow> m | None \<Rightarrow> zero (currency amount)) in
           if currency to_balance \<noteq> currency amount
           then Err (ConnectCurrencyMismatch (''destination account currency '' @ code (currency to_balance) @ '' != transfer currency '' @ code (currency amount)))
           else rbind (map_err (\<lambda>_. ConnectOverflow) (checked_add to_balance amount)) (\<lambda>new_to. Ok (new_from, new_to)))))"

definition transfer :: "string \<Rightarrow> nat \<Rightarrow> account_id \<Rightarrow> account_id \<Rightarrow> money \<Rightarrow> connect_ledger \<Rightarrow> connect_ledger \<times> (string, connect_error) result" where
  "transfer i now from to amount l =
     (case transfer_checked from to amount l of
        Ok (new_from, new_to) \<Rightarrow>
          (l\<lparr>cl_balances := bt_insert to new_to (bt_insert from new_from (cl_balances l)),
             cl_entries := cl_entries l @ [\<lparr>le_id = i, le_from = from, le_to = to, le_amount = amount, le_posted_at = now\<rparr>]\<rparr>, Ok i)
      | Err e \<Rightarrow> (l, Err e)
      | Panic \<Rightarrow> (l, Panic))"

section \<open>Terms of service\<close>

record 't tos_acceptance =
  ta_ip :: string
  ta_user_agent :: string
  ta_accepted_at :: 't
  ta_version_hash :: string

definition tos_validate :: "'t tos_acceptance \<Rightarrow> (unit, connect_error) result" where
  "tos_validate t =
     (if ta_version_hash t = [] then Err (TosInvalid ''empty version_hash'')
      else if ta_ip t = [] then Err (TosInvalid ''empty ip'')
      else if ta_user_agent t = [] then Err (TosInvalid ''empty user_agent'')
      else Ok ())"

datatype record_outcome = Inserted | Duplicate

record 't acceptance_store =
  as_by_account :: "(account_id, 't tos_acceptance list) btreemap"
  as_seen :: "string list"

definition acceptance_store_new :: "'t acceptance_store" where
  "acceptance_store_new = \<lparr>as_by_account = [], as_seen = []\<rparr>"

definition tos_key :: "('t \<Rightarrow> int) \<Rightarrow> account_id \<Rightarrow> 't tos_acceptance \<Rightarrow> string" where
  "tos_key micros acct t =
     acct @ ''|'' @ ta_version_hash t @ ''|'' @ ta_ip t @ ''|'' @ ta_user_agent t @ ''|'' @ show_int (micros (ta_accepted_at t))"

definition tos_history :: "'t acceptance_store \<Rightarrow> account_id \<Rightarrow> 't tos_acceptance list" where
  "tos_history s acct = (case bt_get (as_by_account s) acct of Some v \<Rightarrow> v | None \<Rightarrow> [])"

definition tos_record :: "('t \<Rightarrow> int) \<Rightarrow> account_id \<Rightarrow> 't tos_acceptance \<Rightarrow> 't acceptance_store \<Rightarrow> 't acceptance_store \<times> (record_outcome, connect_error) result" where
  "tos_record micros acct t s =
     (case tos_validate t of
        Ok _ \<Rightarrow>
          (let key = tos_key micros acct t in
           if key \<in> set (as_seen s) then (s, Ok Duplicate)
           else (s\<lparr>as_seen := key # as_seen s, as_by_account := bt_insert acct (tos_history s acct @ [t]) (as_by_account s)\<rparr>, Ok Inserted))
      | Err e \<Rightarrow> (s, Err e)
      | Panic \<Rightarrow> (s, Panic))"

definition tos_latest :: "'t acceptance_store \<Rightarrow> account_id \<Rightarrow> 't tos_acceptance option" where
  "tos_latest s acct = (case bt_get (as_by_account s) acct of Some v \<Rightarrow> if v = [] then None else Some (last v) | None \<Rightarrow> None)"

section \<open>Splits partition the payment\<close>

lemma check_legs_Ok:
  "check_legs src i legs = Ok () \<longleftrightarrow>
     list_all (\<lambda>leg. 0 \<le> minor_units (lg_amount leg) \<and> lg_currency leg = currency src \<and> currency (lg_amount leg) = currency src) legs"
  by (induction src i legs rule: check_legs.induct) auto

lemma check_destinations_Ok:
  "check_destinations seen legs = Ok () \<longleftrightarrow> distinct (map lg_destination legs) \<and> set seen \<inter> lg_destination ` set legs = {}"
  by (induction seen legs rule: check_destinations.induct) auto

definition leg_sum :: "split_leg list \<Rightarrow> int" where
  "leg_sum legs = sum_list (map (\<lambda>leg. minor_units (lg_amount leg)) legs)"

lemma leg_sum_simps [simp]: "leg_sum [] = 0" "leg_sum (leg # legs) = minor_units (lg_amount leg) + leg_sum legs"
  by (simp_all add: leg_sum_def)

lemma leg_sum_nonneg: "list_all (\<lambda>leg. 0 \<le> minor_units (lg_amount leg)) legs \<Longrightarrow> 0 \<le> leg_sum legs"
  by (induction legs) auto

lemma sum_legs_Ok:
  assumes "list_all (\<lambda>leg. 0 \<le> minor_units (lg_amount leg) \<and> currency (lg_amount leg) = currency acc) legs" and "0 \<le> minor_units acc" "in_i64 (minor_units acc)"
  shows "sum_legs legs acc = (if minor_units acc + leg_sum legs \<le> i64_max then Ok \<lparr>minor_units = minor_units acc + leg_sum legs, currency = currency acc\<rparr> else Err ConnectOverflow)"
  using assms
proof (induction legs arbitrary: acc)
  case (Cons leg legs)
  have nn: "0 \<le> leg_sum legs" using Cons.prems by (intro leg_sum_nonneg) (auto simp: list_all_iff)
  show ?case
  proof (cases "in_i64 (minor_units acc + minor_units (lg_amount leg))")
    case True
    let ?acc = "\<lparr>minor_units = minor_units acc + minor_units (lg_amount leg), currency = currency acc\<rparr>"
    have "checked_add acc (lg_amount leg) = Ok ?acc" using Cons.prems True by simp
    then have "sum_legs (leg # legs) acc = sum_legs legs ?acc" by (simp del: checked_add_eq_Ok)
    then show ?thesis using Cons.IH [of ?acc] Cons.prems True by (simp add: add.assoc)
  next
    case False
    then have "checked_add acc (lg_amount leg) = Err Overflow" using Cons.prems by (simp add: checked_add_eq_Err)
    then show ?thesis using Cons.prems False nn by (auto simp: in_i64_def)
  qed
qed (simp add: in_i64_def)

lemma split_validate_Ok:
  assumes "money_wf src"
  shows "split_validate s src = Ok () \<longleftrightarrow> sp_splits s \<noteq> []
    \<and> list_all (\<lambda>leg. 0 \<le> minor_units (lg_amount leg) \<and> lg_currency leg = currency src \<and> currency (lg_amount leg) = currency src) (sp_splits s)
    \<and> distinct (map lg_destination (sp_splits s)) \<and> leg_sum (sp_splits s) = minor_units src"
proof (cases "sp_splits s \<noteq> [] \<and> check_legs src 0 (sp_splits s) = Ok ()")
  case True
  then have "list_all (\<lambda>leg. 0 \<le> minor_units (lg_amount leg) \<and> currency (lg_amount leg) = currency (zero (currency src))) (sp_splits s)"
    unfolding check_legs_Ok by (auto simp: list_all_iff zero_def)
  from sum_legs_Ok [OF this] have "sum_legs (sp_splits s) (zero (currency src))
      = (if leg_sum (sp_splits s) \<le> i64_max then Ok \<lparr>minor_units = leg_sum (sp_splits s), currency = currency src\<rparr> else Err ConnectOverflow)"
    by (simp add: zero_def in_i64_def)
  then show ?thesis using True assms
    by (cases src) (auto simp: split_validate_def check_legs_Ok check_destinations_Ok money_wf_def in_i64_def split: if_splits)
next
  case False
  then show ?thesis by (auto simp: split_validate_def check_legs_Ok)
qed

lemma sum_fees_Ok:
  assumes "list_all (\<lambda>leg. 0 \<le> minor_units (lg_amount leg) \<and> lg_currency leg = c \<and> currency (lg_amount leg) = c) legs" and "currency acc = c"
    and "0 \<le> minor_units acc" "minor_units acc + leg_sum legs \<le> i64_max"
  shows "sum_fees c legs acc = Ok \<lparr>minor_units = minor_units acc + leg_sum (filter lg_is_fee legs), currency = c\<rparr>"
  using assms
proof (induction legs arbitrary: acc)
  case (Cons leg legs)
  have nn: "0 \<le> leg_sum legs" using Cons.prems by (intro leg_sum_nonneg) (auto simp: list_all_iff)
  let ?acc = "\<lparr>minor_units = minor_units acc + minor_units (lg_amount leg), currency = c\<rparr>"
  have "checked_add acc (lg_amount leg) = Ok ?acc" using Cons.prems nn by (simp add: in_i64_def)
  then show ?case using Cons.IH [of ?acc] Cons.IH [of acc] Cons.prems by (simp add: add.assoc del: checked_add_eq_Ok)
qed simp

lemma fee_sum_le: "list_all (\<lambda>leg. 0 \<le> minor_units (lg_amount leg)) legs \<Longrightarrow> leg_sum (filter lg_is_fee legs) \<le> leg_sum legs"
  by (induction legs) auto

text \<open>
  C22.  A split is accepted exactly when it partitions the payment: it has legs, none negative and all in the currency of
  the payment, to destinations that differ, and they add up to the payment; then the fee legs can be added up and their
  sum lies between zero and the payment.
\<close>

theorem split_partitions_payment:
  assumes "money_wf src"
  shows "(split_validate s src = Ok () \<longleftrightarrow> sp_splits s \<noteq> []
      \<and> list_all (\<lambda>leg. 0 \<le> minor_units (lg_amount leg) \<and> lg_currency leg = currency src \<and> currency (lg_amount leg) = currency src) (sp_splits s)
      \<and> distinct (map lg_destination (sp_splits s)) \<and> leg_sum (sp_splits s) = minor_units src)
    \<and> (split_validate s src = Ok () \<longrightarrow> (\<exists>fee. fee_total s (currency src) = Ok fee
      \<and> minor_units fee = leg_sum (filter lg_is_fee (sp_splits s)) \<and> 0 \<le> minor_units fee \<and> minor_units fee \<le> minor_units src))"
proof (intro conjI impI)
  assume "split_validate s src = Ok ()"
  then have ok: "list_all (\<lambda>leg. 0 \<le> minor_units (lg_amount leg) \<and> lg_currency leg = currency src \<and> currency (lg_amount leg) = currency src) (sp_splits s)"
      "leg_sum (sp_splits s) = minor_units src" using split_validate_Ok [OF assms] by simp_all
  then have nn: "list_all (\<lambda>leg. 0 \<le> minor_units (lg_amount leg)) (sp_splits s)" by (auto simp: list_all_iff)
  then have "list_all (\<lambda>leg. 0 \<le> minor_units (lg_amount leg)) (filter lg_is_fee (sp_splits s))" by (auto simp: list_all_iff)
  then have "0 \<le> leg_sum (filter lg_is_fee (sp_splits s))" by (rule leg_sum_nonneg)
  moreover have "fee_total s (currency src) = Ok \<lparr>minor_units = leg_sum (filter lg_is_fee (sp_splits s)), currency = currency src\<rparr>"
    using sum_fees_Ok [OF ok(1), of "zero (currency src)"] ok(2) assms by (simp add: fee_total_def zero_def money_wf_def in_i64_def)
  ultimately show "\<exists>fee. fee_total s (currency src) = Ok fee \<and> minor_units fee = leg_sum (filter lg_is_fee (sp_splits s))
      \<and> 0 \<le> minor_units fee \<and> minor_units fee \<le> minor_units src" using fee_sum_le [OF nn] ok(2) by simp
qed (rule split_validate_Ok [OF assms])

definition sample_split :: "int \<Rightarrow> int \<Rightarrow> payment_split" where
  "sample_split a b = \<lparr>sp_source_payment_id = ''pay'', sp_splits =
     [\<lparr>lg_destination = ''seller'', lg_amount = from_minor a USD, lg_currency = USD, lg_description = [], lg_is_fee = False, lg_transfer_group = None\<rparr>,
      \<lparr>lg_destination = ''platform'', lg_amount = from_minor b USD, lg_currency = USD, lg_description = [], lg_is_fee = True, lg_transfer_group = None\<rparr>]\<rparr>"

theorem split_partitions_payment_witness:
  "split_validate (sample_split 9500 500) (from_minor 10000 USD) = Ok () \<and> (\<exists>fee. fee_total (sample_split 9500 500) USD = Ok fee \<and> minor_units fee = 500)
     \<and> split_validate (sample_split 9500 400) (from_minor 10000 USD) \<noteq> Ok ()"
proof -
  have wf: "money_wf (from_minor 10000 USD)" by (simp add: money_wf_def from_minor_def in_i64_def)
  have "split_validate (sample_split 9500 500) (from_minor 10000 USD) = Ok ()"
    using split_partitions_payment [OF wf, of "sample_split 9500 500"] by (simp add: sample_split_def from_minor_def)
  moreover from this have "\<exists>fee. fee_total (sample_split 9500 500) USD = Ok fee \<and> minor_units fee = 500"
    using split_partitions_payment [OF wf, of "sample_split 9500 500"] by (auto simp: sample_split_def from_minor_def)
  moreover have "split_validate (sample_split 9500 400) (from_minor 10000 USD) \<noteq> Ok ()"
    using split_partitions_payment [OF wf, of "sample_split 9500 400"] by (simp add: sample_split_def from_minor_def)
  ultimately show ?thesis by blast
qed

section \<open>One responsible party per rail\<close>

lemma for_rail_validated: "liability_validate m = Ok () \<Longrightarrow> \<not> is_hybrid (for_rail m rail)"
  by (cases m; cases rail) (auto split: if_splits)

text \<open>A validated model names one party per rail, and it is the one that files and answers disputes; an unvalidated nested
  model answers disputes as the platform although the platform does not file.\<close>

lemma liability_one_party:
  "liability_validate m = Ok () \<Longrightarrow> platform_files_1099k_for m rail \<longleftrightarrow> responder m rail = Platform"
  using for_rail_validated [of m rail] by (cases "for_rail m rail") (auto simp: platform_files_1099k_for_def responder_def)

lemma nested_liability_disagrees:
  "is_hybrid (for_rail m rail) \<Longrightarrow> responder m rail = Platform \<and> \<not> platform_files_1099k_for m rail"
  by (cases "for_rail m rail") (auto simp: platform_files_1099k_for_def responder_def)

section \<open>Transfers move money\<close>

text \<open>The movement of an account in one currency that a log of entries describes.\<close>

definition moved :: "currency \<Rightarrow> account_id \<Rightarrow> ledger_entry list \<Rightarrow> int" where
  "moved c a es = sum_list (map (\<lambda>e. if currency (le_amount e) = c
     then (if le_to e = a then minor_units (le_amount e) else 0) - (if le_from e = a then minor_units (le_amount e) else 0) else 0) es)"

lemma moved_append [simp]: "moved c a [] = 0" "moved c a (es @ es') = moved c a es + moved c a es'"
  by (simp_all add: moved_def)

definition minor_in :: "currency \<Rightarrow> money \<Rightarrow> int" where
  "minor_in c m = (if currency m = c then minor_units m else 0)"

definition funds :: "currency \<Rightarrow> connect_ledger \<Rightarrow> int" where
  "funds c l = (\<Sum>m\<leftarrow>bt_values (cl_balances l). minor_in c m)"

definition solvent :: "connect_ledger \<Rightarrow> bool" where
  "solvent l \<longleftrightarrow> bt_wf (cl_balances l) \<and> list_all (\<lambda>m. 0 \<le> minor_units m) (bt_values (cl_balances l))"

lemma minor_balance: "minor_units (balance l a c) = (case bt_get (cl_balances l) a of Some m \<Rightarrow> minor_in c m | None \<Rightarrow> 0)"
  by (simp add: balance_def minor_in_def zero_def split: option.split)

lemma transfer_checked_Ok:
  assumes "transfer_checked from to amount l = Ok (new_from, new_to)"
  obtains fb where "bt_get (cl_balances l) from = Some fb" "currency fb = currency amount" "0 \<le> minor_units amount"
    "new_from = \<lparr>minor_units = minor_units fb - minor_units amount, currency = currency amount\<rparr>" "minor_units amount \<le> minor_units fb"
    "new_to = \<lparr>minor_units = (case bt_get (cl_balances l) to of Some tb \<Rightarrow> minor_units tb | None \<Rightarrow> 0) + minor_units amount, currency = currency amount\<rparr>"
    "\<And>tb. bt_get (cl_balances l) to = Some tb \<Longrightarrow> currency tb = currency amount"
proof -
  let ?tb = "case bt_get (cl_balances l) to of Some m \<Rightarrow> m | None \<Rightarrow> zero (currency amount)"
  obtain fb where fb: "bt_get (cl_balances l) from = Some fb" using assms by (auto simp: transfer_checked_def split: if_splits)
  then have ok: "0 \<le> minor_units amount" "currency fb = currency amount" "minor_units amount \<le> minor_units fb" "currency ?tb = currency amount"
      "new_from = \<lparr>minor_units = minor_units fb - minor_units amount, currency = currency amount\<rparr>"
      "new_to = \<lparr>minor_units = minor_units ?tb + minor_units amount, currency = currency amount\<rparr>"
    using assms by (simp_all add: transfer_checked_def Let_def split: if_split_asm)
  show ?thesis
  proof (rule that [OF fb ok(2,1,5,3)])
    show "new_to = \<lparr>minor_units = (case bt_get (cl_balances l) to of Some tb \<Rightarrow> minor_units tb | None \<Rightarrow> 0) + minor_units amount, currency = currency amount\<rparr>"
      using ok(6) by (simp add: zero_def split: option.splits)
    show "currency tb = currency amount" if "bt_get (cl_balances l) to = Some tb" for tb using ok(4) that by simp
  qed
qed

lemma solvent_get: "solvent l \<Longrightarrow> bt_get (cl_balances l) a = Some m \<Longrightarrow> 0 \<le> minor_units m"
  using bt.vals_member [of "cl_balances l" a m] by (auto simp: solvent_def list_all_iff)

lemma solvent_insert:
  "solvent l \<Longrightarrow> 0 \<le> minor_units m \<Longrightarrow> solvent (l\<lparr>cl_balances := bt_insert a m (cl_balances l)\<rparr>)"
  using bt.vals_insertE [of "cl_balances l" _ a m] by (auto simp: solvent_def list_all_iff)

lemma funds_insert:
  "bt_wf (cl_balances l) \<Longrightarrow> funds c (l\<lparr>cl_balances := bt_insert a m (cl_balances l)\<rparr>) = funds c l + minor_in c m - minor_units (balance l a c)"
  using bt.tally_fresh [of "cl_balances l" a "minor_in c" m] bt.tally_replace [of "cl_balances l" a _ "minor_in c" m]
  by (cases "bt_get (cl_balances l) a") (auto simp: funds_def minor_balance)

lemma transfer_step:
  assumes "solvent l" and "from \<noteq> to" and "transfer i now from to amount l = (l', Ok j)"
  shows "solvent l'" and "cl_entries l' = cl_entries l @ [\<lparr>le_id = i, le_from = from, le_to = to, le_amount = amount, le_posted_at = now\<rparr>]"
    and "minor_units (balance l' a c) = minor_units (balance l a c) + moved c a [\<lparr>le_id = i, le_from = from, le_to = to, le_amount = amount, le_posted_at = now\<rparr>]"
    and "funds c l' = funds c l"
proof -
  obtain new_from new_to where ok: "transfer_checked from to amount l = Ok (new_from, new_to)"
      and l': "l' = l\<lparr>cl_balances := bt_insert to new_to (bt_insert from new_from (cl_balances l)),
        cl_entries := cl_entries l @ [\<lparr>le_id = i, le_from = from, le_to = to, le_amount = amount, le_posted_at = now\<rparr>]\<rparr>"
    using assms(3) by (auto simp: transfer_def split: result.splits)
  let ?l1 = "l\<lparr>cl_balances := bt_insert from new_from (cl_balances l)\<rparr>"
  let ?l2 = "?l1\<lparr>cl_balances := bt_insert to new_to (cl_balances ?l1)\<rparr>"
  obtain fb where fb: "bt_get (cl_balances l) from = Some fb" "currency fb = currency amount" "0 \<le> minor_units amount"
      "new_from = \<lparr>minor_units = minor_units fb - minor_units amount, currency = currency amount\<rparr>" "minor_units amount \<le> minor_units fb"
      "new_to = \<lparr>minor_units = (case bt_get (cl_balances l) to of Some tb \<Rightarrow> minor_units tb | None \<Rightarrow> 0) + minor_units amount, currency = currency amount\<rparr>"
      "\<And>tb. bt_get (cl_balances l) to = Some tb \<Longrightarrow> currency tb = currency amount"
    using transfer_checked_Ok [OF ok] by blast
  have nn: "0 \<le> minor_units new_from" "0 \<le> minor_units new_to"
    using fb(3-6) solvent_get [OF assms(1), of to] by (auto split: option.splits)
  have s1: "solvent ?l1" using solvent_insert [OF assms(1) nn(1)] .
  then have s2: "solvent ?l2" using nn(2) by (rule solvent_insert)
  then show "solvent l'" by (simp add: l' solvent_def)
  show "cl_entries l' = cl_entries l @ [\<lparr>le_id = i, le_from = from, le_to = to, le_amount = amount, le_posted_at = now\<rparr>]" by (simp add: l')
  show "minor_units (balance l' a c) = minor_units (balance l a c) + moved c a [\<lparr>le_id = i, le_from = from, le_to = to, le_amount = amount, le_posted_at = now\<rparr>]"
    using fb assms(2) by (auto simp: l' minor_balance minor_in_def moved_def split: option.splits)
  have "funds c ?l2 = funds c ?l1 + minor_in c new_to - minor_units (balance ?l1 to c)"
    using s1 by (intro funds_insert) (simp add: solvent_def)
  also have "funds c ?l1 = funds c l + minor_in c new_from - minor_units (balance l from c)"
    using assms(1) by (intro funds_insert) (simp add: solvent_def)
  finally show "funds c l' = funds c l"
    using fb assms(2) by (auto simp: l' minor_balance minor_in_def funds_def split: option.splits)
qed

text \<open>What transfers between different accounts can do to a ledger.\<close>

inductive transfers :: "connect_ledger \<Rightarrow> connect_ledger \<Rightarrow> bool" for l0 where
  transfers_start: "transfers l0 l0"
| transfers_step: "transfers l0 l \<Longrightarrow> from \<noteq> to \<Longrightarrow> transfers l0 (fst (transfer i now from to amount l))"

lemma solvent_balance: "solvent l \<Longrightarrow> 0 \<le> minor_units (balance l a c)"
  using solvent_get [of l a] by (auto simp: minor_balance minor_in_def split: option.split)

lemma transfers_history:
  assumes "transfers l0 l" and "solvent l0"
  shows "solvent l \<and> (\<exists>es. cl_entries l = cl_entries l0 @ es
    \<and> (\<forall>a c. minor_units (balance l a c) = minor_units (balance l0 a c) + moved c a es) \<and> (\<forall>c. funds c l = funds c l0))"
  using assms
proof (induction rule: transfers.induct)
  case (transfers_step l src dst i now amount)
  then obtain es where es: "solvent l" "cl_entries l = cl_entries l0 @ es" "\<And>a c. minor_units (balance l a c) = minor_units (balance l0 a c) + moved c a es" "\<And>c. funds c l = funds c l0"
    by blast
  show ?case
  proof (cases "snd (transfer i now src dst amount l)")
    case (Ok j)
    then have "transfer i now src dst amount l = (fst (transfer i now src dst amount l), Ok j)" by (metis prod.collapse)
    note step = transfer_step [OF es(1) transfers_step.hyps(2) this]
    let ?e = "\<lparr>le_id = i, le_from = src, le_to = dst, le_amount = amount, le_posted_at = now\<rparr>"
    show ?thesis using step es by (intro conjI exI [of _ "es @ [?e]"]) simp_all
  qed (use es in \<open>auto simp: transfer_def split: result.splits intro!: exI [of _ es]\<close>)
qed (auto intro!: exI [of _ "[]"])

text \<open>
  C31.  Transfers move money and make none: after any sequence of transfers between different accounts on a ledger without
  negative balances, the balance of every account in every currency is its opening balance plus what the entries posted
  since say, it is not negative, and the funds of all accounts together are unchanged.
\<close>

theorem transfers_conserve_funds:
  assumes "transfers l0 l" and "solvent l0"
  shows "\<exists>es. cl_entries l = cl_entries l0 @ es \<and> minor_units (balance l a c) = minor_units (balance l0 a c) + moved c a es
    \<and> 0 \<le> minor_units (balance l a c) \<and> funds c l = funds c l0"
proof -
  obtain es where es: "solvent l" "cl_entries l = cl_entries l0 @ es" "\<And>a c. minor_units (balance l a c) = minor_units (balance l0 a c) + moved c a es" "\<And>c. funds c l = funds c l0"
    using transfers_history [OF assms] by blast
  then show ?thesis using solvent_balance [of l a c] by blast
qed

definition sample_book :: connect_ledger where
  "sample_book = credit_opening ''bob'' (from_minor 50 USD) (credit_opening ''ann'' (from_minor 100 USD) connect_ledger_new)"

theorem transfers_conserve_funds_witness:
  "\<exists>es. cl_entries (fst (transfer ''t'' 0 ''ann'' ''bob'' (from_minor 30 USD) sample_book)) = es
     \<and> minor_units (balance (fst (transfer ''t'' 0 ''ann'' ''bob'' (from_minor 30 USD) sample_book)) ''bob'' USD) = 50 + moved USD ''bob'' es"
proof -
  have s: "solvent sample_book" by code_simp
  have t: "transfers sample_book (fst (transfer ''t'' 0 ''ann'' ''bob'' (from_minor 30 USD) sample_book))"
    by (rule transfers_step [OF transfers_start]) simp
  have b: "minor_units (balance sample_book ''bob'' USD) = 50" "cl_entries sample_book = []" by code_simp+
  from transfers_conserve_funds [OF t s, of "''bob''" USD] show ?thesis by (auto simp: b)
qed

text \<open>A transfer of an account to itself is accepted and makes money: the second insert overwrites the debit.\<close>

theorem self_transfer_makes_money:
  assumes "bt_get (cl_balances l) a = Some m" and "0 \<le> k" "k \<le> minor_units m" "in_i64 (minor_units m + k)"
  shows "\<exists>l'. transfer i now a a (from_minor k (currency m)) l = (l', Ok i) \<and> bt_get (cl_balances l') a = Some (from_minor (minor_units m + k) (currency m))"
proof -
  have sub: "checked_sub m (from_minor k (currency m)) = Ok (from_minor (minor_units m - k) (currency m))"
    and add: "checked_add m (from_minor k (currency m)) = Ok (from_minor (minor_units m + k) (currency m))"
    using assms by (auto simp: from_minor_def in_i64_def)
  have "transfer_checked a a (from_minor k (currency m)) l = Ok (from_minor (minor_units m - k) (currency m), from_minor (minor_units m + k) (currency m))"
    using assms sub add by (simp add: transfer_checked_def Let_def del: checked_add_eq_Ok checked_sub_eq_Ok) (simp add: from_minor_def)
  then show ?thesis by (simp add: transfer_def)
qed

section \<open>Acceptances are recorded once\<close>

definition no_bar :: "string \<Rightarrow> bool" where
  "no_bar s \<longleftrightarrow> CHR ''|'' \<notin> set s"

definition plain_fields :: "account_id \<Rightarrow> 't tos_acceptance \<Rightarrow> bool" where
  "plain_fields acct t \<longleftrightarrow> no_bar acct \<and> no_bar (ta_version_hash t) \<and> no_bar (ta_ip t) \<and> no_bar (ta_user_agent t)"

definition same_acceptance :: "('t \<Rightarrow> int) \<Rightarrow> 't tos_acceptance \<Rightarrow> 't tos_acceptance \<Rightarrow> bool" where
  "same_acceptance micros t t' \<longleftrightarrow> ta_version_hash t = ta_version_hash t' \<and> ta_ip t = ta_ip t' \<and> ta_user_agent t = ta_user_agent t'
     \<and> micros (ta_accepted_at t) = micros (ta_accepted_at t')"

lemma tos_key_inj:
  "plain_fields acct t \<Longrightarrow> plain_fields acct' t' \<Longrightarrow> tos_key micros acct t = tos_key micros acct' t' \<longleftrightarrow> acct = acct' \<and> same_acceptance micros t t'"
  by (simp add: tos_key_def plain_fields_def no_bar_def same_acceptance_def append_sep_eq show_int_inj)

text \<open>The stores reached by recording, and what their keys remember.\<close>

inductive recorded :: "('t \<Rightarrow> int) \<Rightarrow> 't acceptance_store \<Rightarrow> bool" for micros where
  recorded_new: "recorded micros acceptance_store_new"
| recorded_step: "recorded micros s \<Longrightarrow> plain_fields acct t \<Longrightarrow> recorded micros (fst (tos_record micros acct t s))"

lemma tos_history_record:
  "tos_history (fst (tos_record micros acct t s)) a =
     (if a = acct \<and> snd (tos_record micros acct t s) = Ok Inserted then tos_history s a @ [t] else tos_history s a)"
  by (auto simp: tos_record_def tos_history_def Let_def split: result.splits if_splits)

lemma tos_history_member:
  "t' \<in> set (tos_history (fst (tos_record micros acct t s)) a) \<longleftrightarrow>
     t' \<in> set (tos_history s a) \<or> a = acct \<and> t' = t \<and> snd (tos_record micros acct t s) = Ok Inserted"
  by (auto simp: tos_history_record)

lemma recorded_plain: "recorded micros s \<Longrightarrow> t \<in> set (tos_history s a) \<Longrightarrow> plain_fields a t"
  by (induction arbitrary: t a rule: recorded.induct)
     (auto simp: acceptance_store_new_def tos_history_def [of "\<lparr>as_by_account = [], as_seen = []\<rparr>"] bt_get_def tos_history_record split: if_splits)

lemma recorded_seen:
  "recorded micros s \<Longrightarrow> k \<in> set (as_seen s) \<longleftrightarrow> (\<exists>a. \<exists>t \<in> set (tos_history s a). k = tos_key micros a t)"
proof (induction arbitrary: k rule: recorded.induct)
  case (recorded_step s acct t)
  let ?s = "fst (tos_record micros acct t s)"
  have "as_seen ?s = (if snd (tos_record micros acct t s) = Ok Inserted then tos_key micros acct t # as_seen s else as_seen s)"
    by (auto simp: tos_record_def Let_def split: result.splits if_splits)
  then have "k \<in> set (as_seen ?s) \<longleftrightarrow> snd (tos_record micros acct t s) = Ok Inserted \<and> k = tos_key micros acct t \<or> (\<exists>a. \<exists>t \<in> set (tos_history s a). k = tos_key micros a t)"
    using recorded_step.IH [of k] by auto
  also have "\<dots> \<longleftrightarrow> (\<exists>a. \<exists>t \<in> set (tos_history ?s a). k = tos_key micros a t)"
    unfolding Bex_def tos_history_member by blast
  finally show ?case .
qed (simp add: acceptance_store_new_def tos_history_def bt_get_def)

text \<open>
  As long as no field contains a bar, an acceptance with all fields filled is recorded exactly once: it is a
  duplicate just when the history of its account already holds the same version, address, agent and time, otherwise it
  is appended to the history of that account; no other history changes.
\<close>

theorem tos_recorded_once:
  assumes "recorded micros s" and "plain_fields acct t" and "tos_validate t = Ok ()"
  shows "snd (tos_record micros acct t s) = Ok (if \<exists>t' \<in> set (tos_history s acct). same_acceptance micros t t' then Duplicate else Inserted)
    \<and> tos_history (fst (tos_record micros acct t s)) a
        = (if a = acct \<and> \<not> (\<exists>t' \<in> set (tos_history s acct). same_acceptance micros t t') then tos_history s a @ [t] else tos_history s a)"
proof -
  have "tos_key micros acct t \<in> set (as_seen s) \<longleftrightarrow> (\<exists>a. \<exists>t' \<in> set (tos_history s a). tos_key micros acct t = tos_key micros a t')"
    by (rule recorded_seen [OF assms(1)])
  also have "\<dots> \<longleftrightarrow> (\<exists>t' \<in> set (tos_history s acct). same_acceptance micros t t')"
    using recorded_plain [OF assms(1)] tos_key_inj [OF assms(2)] by metis
  finally show ?thesis using assms(3) tos_history_record [of micros acct t s a] by (simp add: tos_record_def Let_def)
qed

definition sample_tos :: "string \<Rightarrow> string \<Rightarrow> int tos_acceptance" where
  "sample_tos ip ua = \<lparr>ta_ip = ip, ta_user_agent = ua, ta_accepted_at = 7, ta_version_hash = ''v1''\<rparr>"

theorem tos_recorded_once_witness:
  "snd (tos_record id ''a'' (sample_tos ''1'' ''ff'') (fst (tos_record id ''a'' (sample_tos ''1'' ''ff'') acceptance_store_new))) = Ok Duplicate"
proof -
  let ?s = "fst (tos_record id ''a'' (sample_tos ''1'' ''ff'') acceptance_store_new)"
  have p: "plain_fields ''a'' (sample_tos ''1'' ''ff'')" by code_simp
  have r: "recorded id ?s" by (rule recorded_step [OF recorded_new p])
  have v: "tos_validate (sample_tos ''1'' ''ff'') = Ok ()" by code_simp
  have h: "tos_history ?s ''a'' = [sample_tos ''1'' ''ff'']" by code_simp
  from tos_recorded_once [OF r p v, of "''a''"] show ?thesis unfolding h by (simp add: same_acceptance_def)
qed

text \<open>With bars in the fields two different acceptances share a key: the second one is reported as a replay and lost.\<close>

lemma tos_bar_collision:
  "snd (tos_record id ''a'' (sample_tos ''1'' ''x|y'') (fst (tos_record id ''a'' (sample_tos ''1|x'' ''y'') acceptance_store_new))) = Ok Duplicate"
  by code_simp

theorem self_transfer_makes_money_witness:
  "\<exists>l'. transfer ''t'' 0 ''ann'' ''ann'' (from_minor 100 USD) sample_book = (l', Ok ''t'') \<and> bt_get (cl_balances l') ''ann'' = Some (from_minor 200 USD)"
proof -
  have m: "bt_get (cl_balances sample_book) ''ann'' = Some (from_minor 100 USD)" by code_simp
  from self_transfer_makes_money [OF m, of 100 "''t''" 0] show ?thesis by (simp add: from_minor_def in_i64_def)
qed

end
