(* ===== verification/Connect_Onboarding.thy ===== *)
theory Connect_Onboarding
  imports Connect
begin

text \<open>
  Onboarding of connected accounts (\<^verbatim>\<open>op-connect/src/{kyb,account,onboarding}.rs\<close>): the business profile and its
  owners, the requirement lists and the native provider that accepts the onboarding steps.  Minted account ids and the
  current time are arguments, a poisoned lock is left out.  Single-precision arithmetic on ownership percentages is a
  parameter record, dates of birth and acceptance times are values of a type the code only stores.
  Shown: an account becomes active only with everything on file, the canonical sequence makes it active, and the flow
  never goes back.
\<close>

section \<open>Know your business\<close>

type_synonym country_code = string

definition is_valid_shape :: "country_code \<Rightarrow> bool" where
  "is_valid_shape s \<longleftrightarrow> length s = 2 \<and> list_all (\<lambda>c. CHR ''A'' \<le> c \<and> c \<le> CHR ''Z'') s"

record address =
  ad_line1 :: string
  ad_line2 :: "string option"
  ad_city :: string
  ad_region :: string
  ad_postal_code :: string
  ad_country :: country_code

datatype tax_id = Ein string | EuVat string | UkUtr string | OtherTaxId country_code string

datatype business_structure =
    SoleProprietor | SingleMemberLlc | MultiMemberLlc | PrivateCorporation | PublicCorporation | Partnership | Nonprofit | GovernmentEntity

definition requires_beneficial_owners :: "business_structure \<Rightarrow> bool" where
  "requires_beneficial_owners s \<longleftrightarrow> \<not> (s = PublicCorporation \<or> s = GovernmentEntity)"

record business_profile =
  bp_legal_name :: string
  bp_trade_name :: "string option"
  bp_structure :: business_structure
  bp_tax_id :: "tax_id option"
  bp_mcc :: nat
  bp_country :: country_code
  bp_registered_address :: address
  bp_support_email :: "string option"
  bp_support_phone :: "string option"
  bp_website :: "string option"

record encrypted_field =
  ef_vault_ref :: string
  ef_digest :: string

datatype government_id =
    UsPassport string
  | UsDriversLicence string string
  | ForeignPassport string country_code
  | NationalId string country_code

record 'd person =
  pe_legal_name :: string
  pe_dob :: 'd
  pe_address :: address
  pe_ssn_last_4 :: "string option"
  pe_ssn_or_itin_full :: "encrypted_field option"
  pe_government_id :: "government_id option"

text \<open>What the code uses of \<^verbatim>\<open>f32\<close>: zero, the constant 25.0, addition, two comparisons and \<^verbatim>\<open>Display\<close>.\<close>

record 'f f32_ops =
  f32_zero :: 'f
  f32_25 :: 'f
  f32_add :: "'f \<Rightarrow> 'f \<Rightarrow> 'f"
  f32_ge :: "'f \<Rightarrow> 'f \<Rightarrow> bool"
  f32_lt :: "'f \<Rightarrow> 'f \<Rightarrow> bool"
  f32_show :: "'f \<Rightarrow> string"

record ('d, 'f) beneficial_owner =
  bo_person :: "'d person"
  bo_ownership_pct :: 'f
  bo_control :: bool
  bo_is_pep :: bool

definition meets_ownership_threshold :: "'f f32_ops \<Rightarrow> ('d, 'f) beneficial_owner \<Rightarrow> bool" where
  "meets_ownership_threshold fo ow = f32_ge fo (bo_ownership_pct ow) (f32_25 fo)"

text \<open>The messages are bytes: the paragraph sign and the at-least sign of the source are their UTF-8 sequences.\<close>

definition cfr_1010_230 :: string where
  "cfr_1010_230 = ''31 CFR '' @ [CHR 0xC2, CHR 0xA7] @ '' 1010.230''"

definition validate_cdd :: "'f f32_ops \<Rightarrow> ('d, 'f) beneficial_owner list \<Rightarrow> (unit, connect_error) result" where
  "validate_cdd fo owners =
     (if owners = [] then Err (BeneficialOwnerIncomplete
         (''no beneficial owners declared; FinCEN CDD requires at least one control-prong individual ('' @ cfr_1010_230 @ ''(d)(2))''))
      else let total_ownership = foldl (f32_add fo) (f32_zero fo) (map bo_ownership_pct (filter (meets_ownership_threshold fo) owners));
               has_control_prong = list_ex bo_control owners
           in if \<not> has_control_prong then Err (BeneficialOwnerIncomplete (''missing control prong individual ('' @ cfr_1010_230 @ ''(d)(2))''))
              else let any_qualifying = list_ex (meets_ownership_threshold fo) owners
                   in if any_qualifying \<and> f32_lt fo total_ownership (f32_25 fo)
                      then Err (BeneficialOwnerIncomplete (''owners marked '' @ [CHR 0xE2, CHR 0x89, CHR 0xA5] @ ''25% sum to '' @ f32_show fo total_ownership
                        @ ''%; roster inconsistent under '' @ cfr_1010_230 @ ''(d)(1)''))
                      else Ok ())"

record requirements =
  rq_currently_due :: "string list"
  rq_eventually_due :: "string list"
  rq_past_due :: "string list"
  rq_disabled_reason :: "string option"
  rq_pending_verification :: "string list"

definition requirements_default :: requirements where
  "requirements_default = \<lparr>rq_currently_due = [], rq_eventually_due = [], rq_past_due = [], rq_disabled_reason = None, rq_pending_verification = []\<rparr>"

section \<open>Accounts\<close>

datatype account_type = Standard | Express | Custom

datatype capability = CardPayments | AchPayments | A2aPayments | CryptoPayments | Payouts | TaxReporting1099K | TaxReporting1042S

record account_settings =
  st_statement_descriptor :: "string option"
  st_statement_descriptor_short :: "string option"
  st_instant_payouts_enabled :: bool
  st_debit_negative_balances :: bool

definition settings_default :: account_settings where
  "settings_default = \<lparr>st_statement_descriptor = None, st_statement_descriptor_short = None, st_instant_payouts_enabled = False, st_debit_negative_balances = False\<rparr>"

record ('d, 'f) connected_account =
  ca_id :: account_id
  ca_type :: account_type
  ca_capabilities :: "capability list"
  ca_business :: business_profile
  ca_beneficial_owners :: "('d, 'f) beneficial_owner list"
  ca_requirements :: requirements
  ca_settings :: account_settings
  ca_created :: nat
  ca_last_updated :: nat

definition account_new :: "account_id \<Rightarrow> nat \<Rightarrow> account_type \<Rightarrow> business_profile \<Rightarrow> ('d, 'f) connected_account" where
  "account_new i now ty business = \<lparr>ca_id = i, ca_type = ty, ca_capabilities = [], ca_business = business, ca_beneficial_owners = [],
     ca_requirements = requirements_default, ca_settings = settings_default, ca_created = now, ca_last_updated = now\<rparr>"

definition is_active :: "('d, 'f) connected_account \<Rightarrow> bool" where
  "is_active a \<longleftrightarrow> rq_currently_due (ca_requirements a) = [] \<and> rq_past_due (ca_requirements a) = [] \<and> rq_disabled_reason (ca_requirements a) = None"

section \<open>Steps\<close>

datatype onboarding_step =
    BusinessInfo | RepresentativeInfo | BeneficialOwners | BankAccount | TosAcceptance | ExternalAccountVerification | IdentityVerification

definition ordered_steps :: "onboarding_step list" where
  "ordered_steps = [BusinessInfo, RepresentativeInfo, BeneficialOwners, BankAccount, TosAcceptance, ExternalAccountVerification, IdentityVerification]"

fun debug_step :: "onboarding_step \<Rightarrow> string" where
  "debug_step BusinessInfo = ''BusinessInfo''"
| "debug_step RepresentativeInfo = ''RepresentativeInfo''"
| "debug_step BeneficialOwners = ''BeneficialOwners''"
| "debug_step BankAccount = ''BankAccount''"
| "debug_step TosAcceptance = ''TosAcceptance''"
| "debug_step ExternalAccountVerification = ''ExternalAccountVerification''"
| "debug_step IdentityVerification = ''IdentityVerification''"

record external_account =
  ea_country :: string
  ea_currency :: string
  ea_routing :: string
  ea_account_number :: string
  ea_account_holder_name :: string

datatype ('d, 'f, 't) step_payload =
    BusinessInfoPayload business_profile
  | RepresentativePayload "('d, 'f) beneficial_owner"
  | OwnersPayload "('d, 'f) beneficial_owner list"
  | BankAccountPayload external_account
  | TosPayload "'t tos_acceptance"
  | VerificationPayload "int \<times> int"
  | IdentityPayload "(string \<times> string) list"

fun payload_step :: "('d, 'f, 't) step_payload \<Rightarrow> onboarding_step" where
  "payload_step (BusinessInfoPayload _) = BusinessInfo"
| "payload_step (RepresentativePayload _) = RepresentativeInfo"
| "payload_step (OwnersPayload _) = BeneficialOwners"
| "payload_step (BankAccountPayload _) = BankAccount"
| "payload_step (TosPayload _) = TosAcceptance"
| "payload_step (VerificationPayload _) = ExternalAccountVerification"
| "payload_step (IdentityPayload _) = IdentityVerification"

record step_result =
  sr_step :: onboarding_step
  sr_requirements :: requirements
  sr_accepted :: bool
  sr_message :: "string option"

datatype onboarding_status = Created | InProgress | PendingVerification | Active | Disabled

record onboarding_flow =
  of_acct_id :: account_id
  of_steps :: "onboarding_step list"
  of_current_step :: nat
  of_status :: onboarding_status

definition flow_new :: "account_id \<Rightarrow> onboarding_flow" where
  "flow_new i = \<lparr>of_acct_id = i, of_steps = ordered_steps, of_current_step = 0, of_status = Created\<rparr>"

section \<open>The native provider\<close>

record ('d, 'f, 't) native_provider =
  np_accounts :: "(account_id, ('d, 'f) connected_account) btreemap"
  np_flows :: "(account_id, onboarding_flow) btreemap"
  np_bank_accounts :: "(account_id, external_account) btreemap"
  np_tos :: "(account_id, 't tos_acceptance) btreemap"
  np_micro_deposits :: "(account_id, int \<times> int) btreemap"
  np_account_type :: account_type

definition provider_new :: "account_type \<Rightarrow> ('d, 'f, 't) native_provider" where
  "provider_new ty = \<lparr>np_accounts = [], np_flows = [], np_bank_accounts = [], np_tos = [], np_micro_deposits = [], np_account_type = ty\<rparr>"

definition provider_snapshot :: "('d, 'f, 't) native_provider \<Rightarrow> account_id \<Rightarrow> (('d, 'f) connected_account, connect_error) result" where
  "provider_snapshot p acct = ok_or (bt_get (np_accounts p) acct) (AccountNotFound acct)"

definition provider_flow :: "('d, 'f, 't) native_provider \<Rightarrow> account_id \<Rightarrow> (onboarding_flow, connect_error) result" where
  "provider_flow p acct = ok_or (bt_get (np_flows p) acct) (AccountNotFound acct)"

definition arm_micro_deposits :: "account_id \<Rightarrow> int \<times> int \<Rightarrow> ('d, 'f, 't) native_provider \<Rightarrow> ('d, 'f, 't) native_provider" where
  "arm_micro_deposits acct amounts p = p\<lparr>np_micro_deposits := bt_insert acct amounts (np_micro_deposits p)\<rparr>"

definition requirements_for :: "business_structure \<Rightarrow> requirements" where
  "requirements_for structure =
     requirements_default\<lparr>rq_currently_due :=
         [''business.legal_name'', ''business.tax_id'', ''representative.identity'', ''external_account'', ''tos_acceptance'']
         @ (if requires_beneficial_owners structure then [''beneficial_owners''] else []),
       rq_eventually_due := [''identity.document.verification'']\<rparr>"

definition create_account :: "account_id \<Rightarrow> nat \<Rightarrow> business_profile \<Rightarrow> ('d, 'f, 't) native_provider \<Rightarrow> ('d, 'f, 't) native_provider \<times> (account_id, connect_error) result" where
  "create_account i now profile p =
     (let account = (account_new i now (np_account_type p) profile)\<lparr>ca_requirements := requirements_for (bp_structure profile)\<rparr>
      in (p\<lparr>np_accounts := bt_insert i account (np_accounts p), np_flows := bt_insert i (flow_new i) (np_flows p)\<rparr>, Ok i))"

definition retain_due :: "(string \<Rightarrow> bool) \<Rightarrow> ('d, 'f) connected_account \<Rightarrow> ('d, 'f) connected_account" where
  "retain_due keep a = a\<lparr>ca_requirements := (ca_requirements a)\<lparr>rq_currently_due := filter keep (rq_currently_due (ca_requirements a))\<rparr>\<rparr>"

definition same_name :: "('d, 'f) beneficial_owner \<Rightarrow> ('d, 'f) beneficial_owner \<Rightarrow> bool" where
  "same_name x y \<longleftrightarrow> pe_legal_name (bo_person x) = pe_legal_name (bo_person y)"

fun put_representative :: "('d, 'f) beneficial_owner \<Rightarrow> ('d, 'f) beneficial_owner list \<Rightarrow> ('d, 'f) beneficial_owner list" where
  "put_representative rep [] = [rep]"
| "put_representative rep (ow # ows) = (if same_name ow rep then rep # ows else ow # put_representative rep ows)"

fun merge_owners :: "('d, 'f) beneficial_owner list \<Rightarrow> ('d, 'f) beneficial_owner list \<Rightarrow> ('d, 'f) beneficial_owner list" where
  "merge_owners merged [] = merged"
| "merge_owners merged (ex # exs) = (if \<not> list_ex (\<lambda>ow. same_name ow ex) merged then merge_owners (merged @ [ex]) exs else merge_owners merged exs)"

text \<open>The body of the \<^verbatim>\<open>match payload\<close>: the provider's other tables, the account, and whether the step was accepted.\<close>

fun apply_payload :: "'f f32_ops \<Rightarrow> account_id \<Rightarrow> ('d, 'f, 't) step_payload \<Rightarrow> ('d, 'f) connected_account \<Rightarrow> ('d, 'f, 't) native_provider
     \<Rightarrow> (('d, 'f, 't) native_provider \<times> ('d, 'f) connected_account \<times> bool \<times> string option, connect_error) result" where
  "apply_payload fo acct (BusinessInfoPayload profile) a p =
     Ok (p, retain_due (\<lambda>r. r \<noteq> ''business.legal_name'' \<and> r \<noteq> ''business.tax_id'') (a\<lparr>ca_business := profile\<rparr>), True, None)"
| "apply_payload fo acct (RepresentativePayload ow) a p =
     (let rep = ow\<lparr>bo_control := True\<rparr>
      in Ok (p, retain_due (\<lambda>r. r \<noteq> ''representative.identity'') (a\<lparr>ca_beneficial_owners := put_representative rep (ca_beneficial_owners a)\<rparr>), True, None))"
| "apply_payload fo acct (OwnersPayload owners) a p =
     rbind (if requires_beneficial_owners (bp_structure (ca_business a)) then validate_cdd fo owners else Ok ()) (\<lambda>_.
     Ok (p, retain_due (\<lambda>r. r \<noteq> ''beneficial_owners'') (a\<lparr>ca_beneficial_owners := merge_owners owners (ca_beneficial_owners a)\<rparr>), True, None))"
| "apply_payload fo acct (BankAccountPayload ext) a p =
     (let a = retain_due (\<lambda>r. r \<noteq> ''external_account'') a;
          due = rq_currently_due (ca_requirements a);
          a = (if ''external_account.verification'' \<notin> set due
               then a\<lparr>ca_requirements := (ca_requirements a)\<lparr>rq_currently_due := due @ [''external_account.verification'']\<rparr>\<rparr> else a)
      in Ok (p\<lparr>np_bank_accounts := bt_insert acct ext (np_bank_accounts p)\<rparr>, a, True, None))"
| "apply_payload fo acct (TosPayload tos) a p =
     Ok (p\<lparr>np_tos := bt_insert acct tos (np_tos p)\<rparr>, retain_due (\<lambda>r. r \<noteq> ''tos_acceptance'') a, True, None)"
| "apply_payload fo acct (VerificationPayload amounts) a p =
     (case bt_get (np_micro_deposits p) acct of
        Some arr \<Rightarrow>
          if arr = amounts then Ok (p, retain_due (\<lambda>r. r \<noteq> ''external_account.verification'') a, True, None)
          else Ok (p, a, False, Some ''micro-deposit amounts did not match the values sent'')
      | None \<Rightarrow> Ok (p, a, False, Some ''no pending micro-deposits for this account; submit BankAccount first''))"
| "apply_payload fo acct (IdentityPayload documents) a p =
     Ok (p, a\<lparr>ca_requirements := (ca_requirements a)\<lparr>rq_eventually_due :=
              filter (\<lambda>r. r \<noteq> ''identity.document.verification'') (rq_eventually_due (ca_requirements a))\<rparr>\<rparr>, True, None)"

fun position :: "onboarding_step \<Rightarrow> onboarding_step list \<Rightarrow> nat option" where
  "position s [] = None"
| "position s (x # xs) = (if x = s then Some 0 else map_option Suc (position s xs))"

definition status_of :: "requirements \<Rightarrow> onboarding_status" where
  "status_of r =
     (if rq_past_due r \<noteq> [] \<or> rq_disabled_reason r \<noteq> None then Disabled
      else if rq_currently_due r = [] \<and> rq_pending_verification r = [] then Active
      else if rq_pending_verification r \<noteq> [] then PendingVerification
      else InProgress)"

definition advance_flow :: "onboarding_step \<Rightarrow> bool \<Rightarrow> requirements \<Rightarrow> onboarding_flow \<Rightarrow> onboarding_flow" where
  "advance_flow step accepted r fl =
     (let fl = (if accepted
                then case position step (of_steps fl) of
                       Some pos \<Rightarrow> if pos \<ge> of_current_step fl then fl\<lparr>of_current_step := pos + 1\<rparr> else fl
                     | None \<Rightarrow> fl
                else fl)
      in fl\<lparr>of_status := status_of r\<rparr>)"

definition submit_step :: "'f f32_ops \<Rightarrow> nat \<Rightarrow> account_id \<Rightarrow> onboarding_step \<Rightarrow> ('d, 'f, 't) step_payload \<Rightarrow> ('d, 'f, 't) native_provider
     \<Rightarrow> ('d, 'f, 't) native_provider \<times> (step_result, connect_error) result" where
  "submit_step fo now acct step payload p =
     (if payload_step payload \<noteq> step
      then (p, Err (OnboardingStepInvalid (''payload variant ('' @ debug_step (payload_step payload) @ '') does not match step ('' @ debug_step step @ '')'')))
      else case bt_get (np_accounts p) acct of
        None \<Rightarrow> (p, Err (AccountNotFound acct))
      | Some account \<Rightarrow> (case apply_payload fo acct payload account p of
          Ok (p, account, accepted, message) \<Rightarrow>
            (let account = account\<lparr>ca_last_updated := now\<rparr>;
                 flows = (case bt_get (np_flows p) acct of
                            Some fl \<Rightarrow> bt_insert acct (advance_flow step accepted (ca_requirements account) fl) (np_flows p)
                          | None \<Rightarrow> np_flows p)
             in (p\<lparr>np_accounts := bt_insert acct account (np_accounts p), np_flows := flows\<rparr>,
                 Ok \<lparr>sr_step = step, sr_requirements = ca_requirements account, sr_accepted = accepted, sr_message = message\<rparr>))
        | Err e \<Rightarrow> (p, Err e)
        | Panic \<Rightarrow> (p, Panic)))"

definition provider_status :: "('d, 'f, 't) native_provider \<Rightarrow> account_id \<Rightarrow> (onboarding_status, connect_error) result" where
  "provider_status p acct = rbind (ok_or (bt_get (np_flows p) acct) (AccountNotFound acct)) (\<lambda>fl. Ok (of_status fl))"

section \<open>An active account is complete\<close>

text \<open>Histories of the provider: accounts are created, micro-deposits sent and steps submitted, in any order.\<close>

inductive provider_reach :: "'f f32_ops \<Rightarrow> ('d, 'f, 't) native_provider \<Rightarrow> bool" for fo where
  reach_new: "provider_reach fo (provider_new ty)"
| reach_create: "provider_reach fo p \<Longrightarrow> provider_reach fo (fst (create_account i now profile p))"
| reach_arm: "provider_reach fo p \<Longrightarrow> provider_reach fo (arm_micro_deposits acct amounts p)"
| reach_submit: "provider_reach fo p \<Longrightarrow> provider_reach fo (fst (submit_step fo now acct step payload p))"

text \<open>What the requirement list of an account says about the tables of the provider.\<close>

definition on_file :: "external_account option \<Rightarrow> 't tos_acceptance option \<Rightarrow> (int \<times> int) option \<Rightarrow> ('d, 'f) connected_account \<Rightarrow> bool" where
  "on_file bank tos micro acc \<longleftrightarrow>
     (let r = ca_requirements acc; due = set (rq_currently_due r) in
       (''external_account'' \<notin> due \<longrightarrow> bank \<noteq> None)
     \<and> (''tos_acceptance'' \<notin> due \<longrightarrow> tos \<noteq> None)
     \<and> (''representative.identity'' \<notin> due \<longrightarrow> ca_beneficial_owners acc \<noteq> [])
     \<and> (''external_account'' \<notin> due \<and> ''external_account.verification'' \<notin> due \<longrightarrow> micro \<noteq> None)
     \<and> rq_past_due r = [] \<and> rq_disabled_reason r = None \<and> rq_pending_verification r = [])"

definition flow_ok :: "requirements \<Rightarrow> onboarding_flow \<Rightarrow> bool" where
  "flow_ok r fl \<longleftrightarrow> of_steps fl = ordered_steps \<and> of_current_step fl \<le> length ordered_steps \<and> (of_status fl = Created \<or> of_status fl = status_of r)"

definition onboarded :: "('d, 'f, 't) native_provider \<Rightarrow> account_id \<Rightarrow> bool" where
  "onboarded p a \<longleftrightarrow> (case bt_get (np_accounts p) a of
       None \<Rightarrow> bt_get (np_flows p) a = None
     | Some acc \<Rightarrow> on_file (bt_get (np_bank_accounts p) a) (bt_get (np_tos p) a) (bt_get (np_micro_deposits p) a) acc
         \<and> (\<exists>fl. bt_get (np_flows p) a = Some fl \<and> flow_ok (ca_requirements acc) fl))"

lemma put_representative_nonempty [simp]: "put_representative rep ows \<noteq> []"
  by (cases ows) simp_all

lemma merge_owners_nonempty: "ows \<noteq> [] \<Longrightarrow> merge_owners merged ows \<noteq> []"
proof -
  have keep: "merged \<noteq> [] \<Longrightarrow> merge_owners merged ows \<noteq> []" for merged ows :: "('a, 'b) beneficial_owner list"
    by (induction ows arbitrary: merged) auto
  show "ows \<noteq> [] \<Longrightarrow> merge_owners merged ows \<noteq> []" by (cases ows; cases merged) (auto simp: keep)
qed

lemma position_less: "position s xs = Some n \<Longrightarrow> n < length xs"
  by (induction xs arbitrary: n) (auto split: if_splits)

lemma advance_flow_ok: "flow_ok r fl \<Longrightarrow> flow_ok r' (advance_flow step accepted r' fl)"
  using position_less [of step "of_steps fl"] by (auto simp: flow_ok_def advance_flow_def Let_def split: option.split)

lemma on_file_retain:
  assumes "on_file bank tos micro a" and "keep ''external_account'' \<or> bank' \<noteq> None" "keep ''tos_acceptance'' \<or> tos' \<noteq> None"
    and "keep ''representative.identity'' \<or> ca_beneficial_owners a' \<noteq> []" "keep ''external_account.verification'' \<and> keep ''external_account'' \<or> micro \<noteq> None"
    and "bank \<noteq> None \<Longrightarrow> bank' \<noteq> None" "tos \<noteq> None \<Longrightarrow> tos' \<noteq> None" "ca_beneficial_owners a \<noteq> [] \<Longrightarrow> ca_beneficial_owners a' \<noteq> []"
    and "ca_requirements a' = ca_requirements a"
  shows "on_file bank' tos' micro (retain_due keep a')"
  using assms unfolding on_file_def retain_due_def Let_def by (simp del: not_None_eq) blast

lemma on_file_bank:
  assumes "on_file bank tos micro a" and "''external_account.verification'' \<in> set (rq_currently_due (ca_requirements a'))"
    and "''tos_acceptance'' \<in> set (rq_currently_due (ca_requirements a)) \<Longrightarrow> ''tos_acceptance'' \<in> set (rq_currently_due (ca_requirements a'))"
    and "''representative.identity'' \<in> set (rq_currently_due (ca_requirements a)) \<Longrightarrow> ''representative.identity'' \<in> set (rq_currently_due (ca_requirements a'))"
    and "ca_beneficial_owners a' = ca_beneficial_owners a" "rq_past_due (ca_requirements a') = rq_past_due (ca_requirements a)"
    and "rq_disabled_reason (ca_requirements a') = rq_disabled_reason (ca_requirements a)" "rq_pending_verification (ca_requirements a') = rq_pending_verification (ca_requirements a)"
  shows "on_file (Some ext) tos micro a'"
  using assms unfolding on_file_def Let_def by (metis option.distinct(1))

lemma on_file_updated [simp]: "on_file bank tos micro (a\<lparr>ca_last_updated := now\<rparr>) = on_file bank tos micro a"
  by (simp add: on_file_def)

lemma apply_payload_on_file:
  assumes "on_file (bt_get (np_bank_accounts p) acct) (bt_get (np_tos p) acct) (bt_get (np_micro_deposits p) acct) a"
    and "apply_payload fo acct payload a p = Ok (p', a', accepted, message)"
  shows "on_file (bt_get (np_bank_accounts p') acct) (bt_get (np_tos p') acct) (bt_get (np_micro_deposits p') acct) (a'\<lparr>ca_last_updated := now\<rparr>)"
proof (cases payload)
  case (BusinessInfoPayload profile)
  then have eq: "p' = p" "a' = retain_due (\<lambda>r. r \<noteq> ''business.legal_name'' \<and> r \<noteq> ''business.tax_id'') (a\<lparr>ca_business := profile\<rparr>)" using assms(2) by simp_all
  show ?thesis unfolding eq on_file_updated by (rule on_file_retain [OF assms(1)]) simp_all
next
  case (RepresentativePayload ow)
  then obtain rep where eq: "p' = p" "a' = retain_due (\<lambda>r. r \<noteq> ''representative.identity'') (a\<lparr>ca_beneficial_owners := put_representative rep (ca_beneficial_owners a)\<rparr>)"
    using assms(2) by (auto simp: Let_def)
  show ?thesis unfolding eq on_file_updated by (rule on_file_retain [OF assms(1)]) simp_all
next
  case (OwnersPayload ows)
  then have eq: "p' = p" "a' = retain_due (\<lambda>r. r \<noteq> ''beneficial_owners'') (a\<lparr>ca_beneficial_owners := merge_owners ows (ca_beneficial_owners a)\<rparr>)"
    using assms(2) by simp_all
  show ?thesis unfolding eq on_file_updated by (rule on_file_retain [OF assms(1)]) (simp_all add: merge_owners_nonempty)
next
  case (TosPayload tos)
  then have eq: "p' = p\<lparr>np_tos := bt_insert acct tos (np_tos p)\<rparr>" "a' = retain_due (\<lambda>r. r \<noteq> ''tos_acceptance'') a" using assms(2) by simp_all
  have "on_file (bt_get (np_bank_accounts p) acct) (Some tos) (bt_get (np_micro_deposits p) acct) (retain_due (\<lambda>r. r \<noteq> ''tos_acceptance'') a)"
    by (rule on_file_retain [OF assms(1)]) simp_all
  then show ?thesis by (simp add: eq)
next
  case (VerificationPayload amounts)
  then consider "p' = p" "a' = a" | "p' = p" "a' = retain_due (\<lambda>r. r \<noteq> ''external_account.verification'') a" "bt_get (np_micro_deposits p) acct \<noteq> None"
    using assms(2) by (auto split: option.splits if_splits)
  then show ?thesis
  proof cases
    case 1
    then show ?thesis using assms(1) by simp
  next
    case 2
    show ?thesis unfolding 2(1,2) on_file_updated using 2(3) by (intro on_file_retain [OF assms(1)]) simp_all
  qed
next
  case (BankAccountPayload ext)
  let ?b = "retain_due (\<lambda>r. r \<noteq> ''external_account'') a"
  let ?due = "rq_currently_due (ca_requirements ?b)"
  let ?c = "if ''external_account.verification'' \<notin> set ?due
    then ?b\<lparr>ca_requirements := (ca_requirements ?b)\<lparr>rq_currently_due := ?due @ [''external_account.verification'']\<rparr>\<rparr> else ?b"
  have eq: "p' = p\<lparr>np_bank_accounts := bt_insert acct ext (np_bank_accounts p)\<rparr>" "a' = ?c" using BankAccountPayload assms(2) by (simp_all add: Let_def)
  have "on_file (Some ext) (bt_get (np_tos p) acct) (bt_get (np_micro_deposits p) acct) ?c"
    by (rule on_file_bank [OF assms(1)]) (simp_all add: retain_due_def)
  then show ?thesis unfolding eq on_file_updated by simp
next
  case (IdentityPayload documents)
  then have eq: "p' = p" "a' = a\<lparr>ca_requirements := (ca_requirements a)\<lparr>rq_eventually_due :=
      filter (\<lambda>r. r \<noteq> ''identity.document.verification'') (rq_eventually_due (ca_requirements a))\<rparr>\<rparr>" using assms(2) by simp_all
  show ?thesis using assms(1) unfolding eq by (simp add: on_file_def Let_def)
qed

lemma apply_payload_tables:
  assumes "apply_payload fo acct payload a p = Ok (p', a', accepted, message)"
  shows "np_accounts p' = np_accounts p" "np_flows p' = np_flows p" "np_micro_deposits p' = np_micro_deposits p"
    and "b \<noteq> acct \<Longrightarrow> bt_get (np_bank_accounts p') b = bt_get (np_bank_accounts p) b"
    and "b \<noteq> acct \<Longrightarrow> bt_get (np_tos p') b = bt_get (np_tos p) b"
  using assms by (cases payload; auto simp: Let_def split: option.splits if_splits)+

lemma onboarded_submit:
  assumes "onboarded p b" and "onboarded p acct"
  shows "onboarded (fst (submit_step fo now acct step payload p)) b"
proof (cases "payload_step payload = step \<and> (\<exists>a x. bt_get (np_accounts p) acct = Some a \<and> apply_payload fo acct payload a p = Ok x)")
  case True
  then obtain a p' a' accepted message where a: "bt_get (np_accounts p) acct = Some a" "payload_step payload = step"
      and ok: "apply_payload fo acct payload a p = Ok (p', a', accepted, message)" by (metis prod_cases4)
  note tabs = apply_payload_tables [OF ok]
  obtain fl where fl: "bt_get (np_flows p) acct = Some fl" "flow_ok (ca_requirements a) fl"
      and kept: "on_file (bt_get (np_bank_accounts p) acct) (bt_get (np_tos p) acct) (bt_get (np_micro_deposits p) acct) a"
    using assms(2) a by (auto simp: onboarded_def)
  have "onboarded (fst (submit_step fo now acct step payload p)) acct"
    using a ok fl tabs apply_payload_on_file [OF kept ok, of now] advance_flow_ok [OF fl(2), of "ca_requirements a'" step accepted]
    by (simp add: onboarded_def submit_step_def Let_def)
  moreover have "onboarded (fst (submit_step fo now acct step payload p)) b" if "b \<noteq> acct"
    using assms(1) a ok fl tabs that by (simp add: onboarded_def submit_step_def Let_def split: option.splits)
  ultimately show ?thesis by (cases "b = acct") auto
next
  case False
  then have "fst (submit_step fo now acct step payload p) = p"
    by (auto simp: submit_step_def split: option.split result.split)
  then show ?thesis using assms(1) by simp
qed

lemma reach_onboarded: "provider_reach fo p \<Longrightarrow> onboarded p a"
proof (induction arbitrary: a rule: provider_reach.induct)
  case (reach_submit p now acct step payload)
  then show ?case by (intro onboarded_submit)
next
  case (reach_create p i now profile a)
  show ?case
  proof (cases "a = i")
    case True
    then show ?thesis
      by (simp add: onboarded_def create_account_def Let_def on_file_def requirements_for_def requirements_default_def flow_ok_def flow_new_def)
  next
    case False
    then show ?thesis using reach_create.IH [of a] by (auto simp: onboarded_def create_account_def Let_def split: option.splits)
  qed
next
  case (reach_arm p acct amounts a)
  show ?case using reach_arm.IH [of a] by (auto simp: onboarded_def arm_micro_deposits_def on_file_def Let_def split: option.splits)
qed (simp add: onboarded_def provider_new_def bt_get_def)

text \<open>
  The tables agree with the status: in every history, an account whose status is active exists, has nothing
  due, and has a bank account, an accepted terms of service and a named person on file, and micro-deposits were sent to
  its bank account; an account never becomes disabled or pending, and one that is not active has something due.
\<close>

lemma active_means_complete:
  assumes "provider_reach fo p" and "provider_status p a = Ok st"
  shows "\<exists>acc. provider_snapshot p a = Ok acc \<and> st \<in> {Created, InProgress, Active} \<and> (st = InProgress \<longrightarrow> \<not> is_active acc)
    \<and> (st = Active \<longrightarrow> is_active acc \<and> ca_beneficial_owners acc \<noteq> [] \<and> bt_get (np_bank_accounts p) a \<noteq> None
         \<and> bt_get (np_tos p) a \<noteq> None \<and> bt_get (np_micro_deposits p) a \<noteq> None)"
proof -
  obtain fl where fl: "bt_get (np_flows p) a = Some fl" "of_status fl = st" using assms(2) by (auto simp: provider_status_def)
  then obtain acc where acc: "bt_get (np_accounts p) a = Some acc" "on_file (bt_get (np_bank_accounts p) a) (bt_get (np_tos p) a) (bt_get (np_micro_deposits p) a) acc"
      "flow_ok (ca_requirements acc) fl"
    using reach_onboarded [OF assms(1), of a] by (auto simp: onboarded_def split: option.splits)
  then have "st = Created \<or> st = status_of (ca_requirements acc)" using fl(2) by (auto simp: flow_ok_def)
  then show ?thesis using acc(1,2)
    by (auto simp: provider_snapshot_def status_of_def on_file_def is_active_def Let_def split: if_splits)
qed

section \<open>The canonical sequence\<close>

fun submit_all :: "'f f32_ops \<Rightarrow> nat \<Rightarrow> account_id \<Rightarrow> ('d, 'f, 't) step_payload list \<Rightarrow> ('d, 'f, 't) native_provider \<Rightarrow> ('d, 'f, 't) native_provider" where
  "submit_all fo now acct [] p = p"
| "submit_all fo now acct (x # xs) p = submit_all fo now acct xs (fst (submit_step fo now acct (payload_step x) x p))"

fun cleared :: "('d, 'f, 't) step_payload \<Rightarrow> string set" where
  "cleared (BusinessInfoPayload _) = {''business.legal_name'', ''business.tax_id''}"
| "cleared (RepresentativePayload _) = {''representative.identity''}"
| "cleared (OwnersPayload _) = {''beneficial_owners''}"
| "cleared (BankAccountPayload _) = {''external_account''}"
| "cleared (TosPayload _) = {''tos_acceptance''}"
| "cleared (VerificationPayload _) = {''external_account.verification''}"
| "cleared (IdentityPayload _) = {}"

fun is_bank :: "('d, 'f, 't) step_payload \<Rightarrow> bool" where
  "is_bank (BankAccountPayload _) = True"
| "is_bank _ = False"

fun is_verification :: "('d, 'f, 't) step_payload \<Rightarrow> bool" where
  "is_verification (VerificationPayload _) = True"
| "is_verification _ = False"

text \<open>Payloads the provider accepts: owner rosters pass the due-diligence check and the amounts are those sent.\<close>

fun acceptable :: "'f f32_ops \<Rightarrow> int \<times> int \<Rightarrow> ('d, 'f, 't) step_payload \<Rightarrow> bool" where
  "acceptable fo sent (OwnersPayload ows) = (validate_cdd fo ows = Ok ())"
| "acceptable fo sent (VerificationPayload amounts) = (amounts = sent)"
| "acceptable fo sent _ = True"

text \<open>The requirements an account has left, and the flow that goes with them.\<close>

definition standing :: "('d, 'f, 't) native_provider \<Rightarrow> account_id \<Rightarrow> int \<times> int \<Rightarrow> string set \<Rightarrow> bool" where
  "standing p a sent due \<longleftrightarrow> bt_get (np_micro_deposits p) a = Some sent
     \<and> (\<exists>acc fl. bt_get (np_accounts p) a = Some acc \<and> bt_get (np_flows p) a = Some fl \<and> set (rq_currently_due (ca_requirements acc)) \<subseteq> due
       \<and> rq_past_due (ca_requirements acc) = [] \<and> rq_disabled_reason (ca_requirements acc) = None \<and> rq_pending_verification (ca_requirements acc) = []
       \<and> of_status fl \<in> {Created, status_of (ca_requirements acc)})"

definition still_due :: "('d, 'f, 't) step_payload \<Rightarrow> string set \<Rightarrow> string set" where
  "still_due x due = (due - cleared x) \<union> (if is_bank x then {''external_account.verification''} else {})"

lemma apply_payload_due:
  assumes "acceptable fo sent x" and "bt_get (np_micro_deposits p) a = Some sent"
  shows "\<exists>p' acc' message. apply_payload fo a x acc p = Ok (p', acc', True, message)
    \<and> set (rq_currently_due (ca_requirements acc')) \<subseteq> still_due x (set (rq_currently_due (ca_requirements acc)))
    \<and> rq_past_due (ca_requirements acc') = rq_past_due (ca_requirements acc) \<and> rq_disabled_reason (ca_requirements acc') = rq_disabled_reason (ca_requirements acc)
    \<and> rq_pending_verification (ca_requirements acc') = rq_pending_verification (ca_requirements acc)"
  using assms by (cases x) (auto simp: retain_due_def still_due_def Let_def)

lemma advance_flow_status [simp]: "of_status (advance_flow step accepted r fl) = status_of r"
  by (simp add: advance_flow_def Let_def)

lemma standing_submit:
  assumes "standing p a sent due" and "acceptable fo sent x"
  shows "standing (fst (submit_step fo now a (payload_step x) x p)) a sent (still_due x due)
    \<and> (\<exists>fl acc. bt_get (np_flows (fst (submit_step fo now a (payload_step x) x p))) a = Some fl
         \<and> bt_get (np_accounts (fst (submit_step fo now a (payload_step x) x p))) a = Some acc \<and> of_status fl = status_of (ca_requirements acc))"
proof -
  obtain acc fl where s: "bt_get (np_micro_deposits p) a = Some sent" "bt_get (np_accounts p) a = Some acc" "bt_get (np_flows p) a = Some fl"
      "set (rq_currently_due (ca_requirements acc)) \<subseteq> due" "rq_past_due (ca_requirements acc) = []" "rq_disabled_reason (ca_requirements acc) = None"
      "rq_pending_verification (ca_requirements acc) = []"
    using assms(1) by (auto simp: standing_def)
  obtain p' acc' message where ok: "apply_payload fo a x acc p = Ok (p', acc', True, message)"
      and r: "set (rq_currently_due (ca_requirements acc')) \<subseteq> still_due x (set (rq_currently_due (ca_requirements acc)))"
        "rq_past_due (ca_requirements acc') = []" "rq_disabled_reason (ca_requirements acc') = None" "rq_pending_verification (ca_requirements acc') = []"
    using apply_payload_due [OF assms(2) s(1), of acc] s by auto
  have "set (rq_currently_due (ca_requirements acc')) \<subseteq> still_due x due" using r(1) s(4) by (auto simp: still_due_def split: if_splits)
  then show ?thesis using s ok r apply_payload_tables [OF ok] by (simp add: standing_def submit_step_def Let_def)
qed

lemma submit_all_snoc: "submit_all fo now a (xs @ [x]) p = fst (submit_step fo now a (payload_step x) x (submit_all fo now a xs p))"
  by (induction xs arbitrary: p) simp_all

lemma standing_submit_all:
  "standing p a sent due \<Longrightarrow> list_all (acceptable fo sent) xs \<Longrightarrow> standing (submit_all fo now a xs p) a sent (fold still_due xs due)"
proof (induction xs arbitrary: p due)
  case (Cons x xs)
  then show ?case using standing_submit [of p a sent due fo x now] by simp
qed simp

lemma still_due_fold:
  "r \<in> fold still_due xs due \<Longrightarrow> r \<noteq> ''external_account.verification'' \<Longrightarrow> r \<in> due \<and> (\<forall>x \<in> set xs. r \<notin> cleared x)"
  by (induction xs arbitrary: due) (auto simp: still_due_def split: if_splits)

lemma verification_due_fold:
  "\<not> list_ex is_bank xs \<Longrightarrow> ''external_account.verification'' \<in> fold still_due xs due \<Longrightarrow> ''external_account.verification'' \<in> due"
  by (induction xs arbitrary: due) (auto simp: still_due_def)

text \<open>The requirements every account starts with, whatever its structure.\<close>

lemma create_standing:
  "standing (arm_micro_deposits a sent (fst (create_account a now profile p))) a sent
     {''business.legal_name'', ''business.tax_id'', ''representative.identity'', ''external_account'', ''tos_acceptance'', ''beneficial_owners''}"
  by (auto simp: standing_def arm_micro_deposits_def create_account_def Let_def requirements_for_def requirements_default_def flow_new_def split: if_splits)

text \<open>
  Onboarding can be completed in any order: once micro-deposits were sent, an account to which the five kinds of
  data are submitted in any order, with rosters that pass the due-diligence check, and whose last bank account is followed by
  a verification that names the amounts sent, is active; the identity step is not needed.
\<close>

theorem onboarding_completes:
  assumes "list_all (acceptable fo sent) (xs @ v # ys)" and "is_verification v" and "\<not> list_ex is_bank ys"
    and "{''business.legal_name'', ''business.tax_id'', ''representative.identity'', ''external_account'', ''tos_acceptance'', ''beneficial_owners''}
      \<subseteq> (\<Union>x \<in> set (xs @ ys). cleared x)"
  shows "provider_status (submit_all fo now a (xs @ v # ys) (arm_micro_deposits a sent (fst (create_account a opened profile p)))) a = Ok Active"
proof -
  let ?due = "{''business.legal_name'', ''business.tax_id'', ''representative.identity'', ''external_account'', ''tos_acceptance'', ''beneficial_owners''}"
  let ?all = "xs @ v # ys" and ?p = "arm_micro_deposits a sent (fst (create_account a opened profile p))"
  obtain due where due: "due = ?due" by blast
  have v: "cleared v = {''external_account.verification''}" "\<not> is_bank v" using assms(2) by (cases v; simp)+
  have none: "fold still_due ?all due = {}"
  proof (rule equals0I)
    fix r assume r: "r \<in> fold still_due ?all due"
    show False
    proof (cases "r = ''external_account.verification''")
      case True
      then show False using verification_due_fold [OF assms(3), of "still_due v (fold still_due xs due)"] r v by (simp add: still_due_def)
    next
      case False
      from still_due_fold [OF r False] have "r \<in> due" "r \<notin> (\<Union>x \<in> set (xs @ ys). cleared x)" by auto
      then show False using subsetD [OF assms(4) [folded due], of r] by metis
    qed
  qed
  obtain z zs where z: "?all = zs @ [z]" by (metis append_is_Nil_conv list.distinct(1) rev_exhaust)
  have "standing (submit_all fo now a zs ?p) a sent (fold still_due zs due)"
    using create_standing [of a sent opened profile p] assms(1) unfolding z due by (intro standing_submit_all) (simp_all add: z)
  moreover have "acceptable fo sent z" using assms(1) unfolding z by simp
  moreover have "submit_all fo now a ?all ?p = fst (submit_step fo now a (payload_step z) z (submit_all fo now a zs ?p))"
    unfolding z by (rule submit_all_snoc)
  moreover have "still_due z (fold still_due zs due) = {}" using none unfolding z by simp
  ultimately show ?thesis using standing_submit [of "submit_all fo now a zs ?p" a sent "fold still_due zs due" fo z now]
    by (auto simp: provider_status_def standing_def status_of_def)
qed

section \<open>What was submitted for an active account\<close>

text \<open>Histories as sequences of calls, for any number of accounts.\<close>

datatype ('d, 'f, 't) provider_event =
    CreateEvent account_id nat business_profile
  | ArmEvent account_id "int \<times> int"
  | SubmitEvent account_id nat onboarding_step "('d, 'f, 't) step_payload"

fun run_event :: "'f f32_ops \<Rightarrow> ('d, 'f, 't) provider_event \<Rightarrow> ('d, 'f, 't) native_provider \<Rightarrow> ('d, 'f, 't) native_provider" where
  "run_event fo (CreateEvent i now profile) p = fst (create_account i now profile p)"
| "run_event fo (ArmEvent i amounts) p = arm_micro_deposits i amounts p"
| "run_event fo (SubmitEvent i now step payload) p = fst (submit_step fo now i step payload p)"

fun creates :: "account_id \<Rightarrow> ('d, 'f, 't) provider_event \<Rightarrow> bool" where
  "creates a (CreateEvent i _ _) = (i = a)"
| "creates a _ = False"

text \<open>A payload was submitted for an account, under its own step; and the amounts last sent to it.\<close>

definition submitted :: "account_id \<Rightarrow> ('d, 'f, 't) provider_event list \<Rightarrow> ('d, 'f, 't) step_payload \<Rightarrow> bool" where
  "submitted a evs x \<longleftrightarrow> (\<exists>now. SubmitEvent a now (payload_step x) x \<in> set evs)"

fun sent_event :: "account_id \<Rightarrow> ('d, 'f, 't) provider_event \<Rightarrow> (int \<times> int) option \<Rightarrow> (int \<times> int) option" where
  "sent_event a (ArmEvent i amounts) m = (if i = a then Some amounts else m)"
| "sent_event a _ m = m"

text \<open>
  A bank account was submitted, and after the last one submitted the amounts then sent were named.
\<close>

definition bank_verified :: "account_id \<Rightarrow> (int \<times> int) option \<Rightarrow> ('d, 'f, 't) provider_event list \<Rightarrow> bool" where
  "bank_verified a m evs \<longleftrightarrow> (\<exists>before now amounts after.
     evs = before @ SubmitEvent a now ExternalAccountVerification (VerificationPayload amounts) # after
     \<and> (\<exists>ext. submitted a before (BankAccountPayload ext)) \<and> (\<forall>ext. \<not> submitted a after (BankAccountPayload ext))
     \<and> fold (sent_event a) before m = Some amounts)"

text \<open>A roster counts when it passes due diligence, or when the account was declared exempt meanwhile.\<close>

fun counts :: "'f f32_ops \<Rightarrow> account_id \<Rightarrow> ('d, 'f, 't) provider_event list \<Rightarrow> ('d, 'f, 't) step_payload \<Rightarrow> bool" where
  "counts fo a evs (OwnersPayload ows) =
     (validate_cdd fo ows = Ok () \<or> (\<exists>prof. submitted a evs (BusinessInfoPayload prof) \<and> \<not> requires_beneficial_owners (bp_structure prof)))"
| "counts fo a evs _ = True"

lemma submitted_snoc: "submitted a (evs @ [e]) x \<longleftrightarrow> submitted a evs x \<or> (\<exists>now. e = SubmitEvent a now (payload_step x) x)"
  by (auto simp: submitted_def)

lemma counts_mono: "counts fo a evs x \<Longrightarrow> counts fo a (evs @ [e]) x"
  by (cases x) (auto simp: submitted_snoc)

lemma bank_verified_keep:
  assumes "bank_verified a m evs" and "\<And>now ext. e \<noteq> SubmitEvent a now BankAccount (BankAccountPayload ext)"
  shows "bank_verified a m (evs @ [e])"
proof -
  obtain before now amounts after where evs: "evs = before @ SubmitEvent a now ExternalAccountVerification (VerificationPayload amounts) # after"
    and b: "\<exists>ext. submitted a before (BankAccountPayload ext)" "\<forall>ext. \<not> submitted a after (BankAccountPayload ext)" "fold (sent_event a) before m = Some amounts"
    using assms(1) unfolding bank_verified_def by blast
  have "\<forall>ext. \<not> submitted a (after @ [e]) (BankAccountPayload ext)" using b(2) assms(2) by (simp add: submitted_snoc)
  moreover have "evs @ [e] = before @ SubmitEvent a now ExternalAccountVerification (VerificationPayload amounts) # (after @ [e])" by (simp add: evs)
  ultimately show ?thesis using b(1,3) unfolding bank_verified_def by blast
qed

lemma bank_verified_now:
  assumes "submitted a evs (BankAccountPayload ext)" and "fold (sent_event a) evs m = Some amounts"
  shows "bank_verified a m (evs @ [SubmitEvent a now ExternalAccountVerification (VerificationPayload amounts)])"
  unfolding bank_verified_def using assms by (intro exI [of _ evs] exI [of _ now] exI [of _ amounts] exI [of _ "[]"]) (auto simp: submitted_def)

text \<open>What a step does to the list of requirements, exactly.\<close>

lemma apply_payload_exact:
  assumes "apply_payload fo a x acc p = Ok (p', acc', accepted, message)"
  shows "set (rq_currently_due (ca_requirements acc')) = (if accepted then still_due x (set (rq_currently_due (ca_requirements acc))) else set (rq_currently_due (ca_requirements acc)))"
    and "ca_business acc' = (case x of BusinessInfoPayload prof \<Rightarrow> prof | _ \<Rightarrow> ca_business acc)"
    and "x = VerificationPayload amounts \<Longrightarrow> accepted \<Longrightarrow> bt_get (np_micro_deposits p) a = Some amounts"
    and "x = OwnersPayload ows \<Longrightarrow> requires_beneficial_owners (bp_structure (ca_business acc)) \<Longrightarrow> validate_cdd fo ows = Ok ()"
    and "is_bank x \<Longrightarrow> accepted"
  using assms by (cases x; auto simp: retain_due_def still_due_def Let_def split: option.splits if_splits)+

lemma apply_payload_fails: "(\<exists>z. apply_payload fo a x acc p = Ok z) \<or> (\<exists>ows. x = OwnersPayload ows)"
  by (cases x) (simp_all add: Let_def del: split_paired_Ex split: option.split)

definition tracked :: "'f f32_ops \<Rightarrow> business_profile \<Rightarrow> account_id \<Rightarrow> (int \<times> int) option \<Rightarrow> ('d, 'f, 't) provider_event list \<Rightarrow> ('d, 'f, 't) native_provider \<Rightarrow> bool" where
  "tracked fo profile a m evs p \<longleftrightarrow> bt_get (np_micro_deposits p) a = fold (sent_event a) evs m \<and> (\<exists>acc. bt_get (np_accounts p) a = Some acc
     \<and> (ca_business acc = profile \<or> submitted a evs (BusinessInfoPayload (ca_business acc)))
     \<and> (\<forall>r \<in> set (rq_currently_due (requirements_for (bp_structure profile))). r \<notin> set (rq_currently_due (ca_requirements acc)) \<longrightarrow>
          (\<exists>x. submitted a evs x \<and> counts fo a evs x \<and> r \<in> cleared x))
     \<and> ((\<exists>ext. submitted a evs (BankAccountPayload ext)) \<and> ''external_account.verification'' \<notin> set (rq_currently_due (ca_requirements acc)) \<longrightarrow> bank_verified a m evs))"

lemma tracked_skip:
  assumes "tracked fo profile a m evs p" and "bt_get (np_micro_deposits p') a = sent_event a e (bt_get (np_micro_deposits p) a)"
    and "bt_get (np_accounts p') a = bt_get (np_accounts p) a" and "\<And>now x. e = SubmitEvent a now (payload_step x) x \<Longrightarrow> \<exists>ows. x = OwnersPayload ows"
  shows "tracked fo profile a m (evs @ [e]) p'"
proof -
  obtain acc where acc: "bt_get (np_accounts p) a = Some acc" "ca_business acc = profile \<or> submitted a evs (BusinessInfoPayload (ca_business acc))"
    and due: "\<forall>r \<in> set (rq_currently_due (requirements_for (bp_structure profile))). r \<notin> set (rq_currently_due (ca_requirements acc)) \<longrightarrow>
          (\<exists>x. submitted a evs x \<and> counts fo a evs x \<and> r \<in> cleared x)"
    and bank: "(\<exists>ext. submitted a evs (BankAccountPayload ext)) \<and> ''external_account.verification'' \<notin> set (rq_currently_due (ca_requirements acc)) \<longrightarrow> bank_verified a m evs"
    and m: "bt_get (np_micro_deposits p) a = fold (sent_event a) evs m"
    using assms(1) unfolding tracked_def by blast
  have nb: "e \<noteq> SubmitEvent a now BankAccount (BankAccountPayload ext)" for now ext using assms(4) [of now "BankAccountPayload ext"] by auto
  have b1: "submitted a (evs @ [e]) (BankAccountPayload ext) \<longleftrightarrow> submitted a evs (BankAccountPayload ext)" for ext
    using nb by (auto simp: submitted_snoc)
  show ?thesis unfolding tracked_def b1
  proof (intro conjI exI [of _ acc])
    show "bt_get (np_micro_deposits p') a = fold (sent_event a) (evs @ [e]) m" using assms(2) m by simp
    show "bt_get (np_accounts p') a = Some acc" using assms(3) acc(1) by simp
    show "ca_business acc = profile \<or> submitted a (evs @ [e]) (BusinessInfoPayload (ca_business acc))" using acc(2) by (auto simp: submitted_snoc)
    show "\<forall>r \<in> set (rq_currently_due (requirements_for (bp_structure profile))). r \<notin> set (rq_currently_due (ca_requirements acc)) \<longrightarrow>
          (\<exists>x. submitted a (evs @ [e]) x \<and> counts fo a (evs @ [e]) x \<and> r \<in> cleared x)"
      using due counts_mono submitted_snoc by blast
    show "(\<exists>ext. submitted a evs (BankAccountPayload ext)) \<and> ''external_account.verification'' \<notin> set (rq_currently_due (ca_requirements acc)) \<longrightarrow> bank_verified a m (evs @ [e])"
      using bank bank_verified_keep [OF _ nb] by blast
  qed
qed

lemma cleared_verification: "''external_account.verification'' \<in> cleared x \<Longrightarrow> \<exists>amounts. x = VerificationPayload amounts"
  by (cases x) auto

lemma due_owners: "''beneficial_owners'' \<in> set (rq_currently_due (requirements_for st)) \<longleftrightarrow> requires_beneficial_owners st"
  by (simp add: requirements_for_def)

lemma tracked_submit:
  assumes "tracked fo profile a m evs p" and "bt_get (np_accounts p) a = Some acc" and "apply_payload fo a x acc p = Ok (p', acc', accepted, message)"
  shows "tracked fo profile a m (evs @ [SubmitEvent a now (payload_step x) x]) (fst (submit_step fo now a (payload_step x) x p))"
proof -
  let ?e = "SubmitEvent a now (payload_step x) x" and ?q = "fst (submit_step fo now a (payload_step x) x p)"
  let ?due = "set (rq_currently_due (ca_requirements acc))" and ?due' = "set (rq_currently_due (ca_requirements acc'))"
  have acc: "ca_business acc = profile \<or> submitted a evs (BusinessInfoPayload (ca_business acc))"
    and due: "\<And>r. r \<in> set (rq_currently_due (requirements_for (bp_structure profile))) \<Longrightarrow> r \<notin> ?due \<Longrightarrow>
          \<exists>x. submitted a evs x \<and> counts fo a evs x \<and> r \<in> cleared x"
    and bank: "(\<exists>ext. submitted a evs (BankAccountPayload ext)) \<Longrightarrow> ''external_account.verification'' \<notin> ?due \<Longrightarrow> bank_verified a m evs"
    and m: "bt_get (np_micro_deposits p) a = fold (sent_event a) evs m"
    using assms(1,2) unfolding tracked_def by auto
  note ex = apply_payload_exact [OF assms(3)]
  have q: "bt_get (np_accounts ?q) a = Some (acc'\<lparr>ca_last_updated := now\<rparr>)" "np_micro_deposits ?q = np_micro_deposits p"
    using assms(2,3) apply_payload_tables [OF assms(3)] by (simp_all add: submit_step_def Let_def)
  have sub: "submitted a (evs @ [?e]) x" by (simp add: submitted_snoc)
  have cnt: "counts fo a (evs @ [?e]) x" if "''beneficial_owners'' \<in> set (rq_currently_due (requirements_for (bp_structure profile))) \<or> ''beneficial_owners'' \<notin> cleared x"
  proof (cases x)
    case (OwnersPayload ows)
    then have "requires_beneficial_owners (bp_structure profile)" using that due_owners by auto
    then show ?thesis using ex(4) [OF OwnersPayload] acc OwnersPayload by (auto simp: submitted_snoc)
  qed simp_all
  show ?thesis unfolding tracked_def
  proof (intro conjI exI [of _ "acc'\<lparr>ca_last_updated := now\<rparr>"] ballI impI)
    show "bt_get (np_micro_deposits ?q) a = fold (sent_event a) (evs @ [?e]) m" using q(2) m by simp
    show "bt_get (np_accounts ?q) a = Some (acc'\<lparr>ca_last_updated := now\<rparr>)" by (rule q(1))
    show "ca_business (acc'\<lparr>ca_last_updated := now\<rparr>) = profile \<or> submitted a (evs @ [?e]) (BusinessInfoPayload (ca_business (acc'\<lparr>ca_last_updated := now\<rparr>)))"
      using acc ex(2) by (cases x) (auto simp: submitted_snoc)
  next
    fix r assume r: "r \<in> set (rq_currently_due (requirements_for (bp_structure profile)))" "r \<notin> set (rq_currently_due (ca_requirements (acc'\<lparr>ca_last_updated := now\<rparr>)))"
    show "\<exists>x'. submitted a (evs @ [?e]) x' \<and> counts fo a (evs @ [?e]) x' \<and> r \<in> cleared x'"
    proof (cases "r \<in> ?due")
      case True
      then have c: "r \<in> cleared x" using r(2) ex(1) by (auto simp: still_due_def split: if_splits)
      have "counts fo a (evs @ [?e]) x"
      proof (rule cnt, rule disjCI)
        assume "\<not> ''beneficial_owners'' \<notin> cleared x"
        then have "r = ''beneficial_owners''" using c by (cases x) auto
        then show "''beneficial_owners'' \<in> set (rq_currently_due (requirements_for (bp_structure profile)))" using r(1) by simp
      qed
      then show ?thesis using sub c by blast
    next
      case False
      then show ?thesis using due [OF r(1)] counts_mono submitted_snoc by blast
    qed
  next
    assume b: "(\<exists>ext. submitted a (evs @ [?e]) (BankAccountPayload ext)) \<and> ''external_account.verification'' \<notin> set (rq_currently_due (ca_requirements (acc'\<lparr>ca_last_updated := now\<rparr>)))"
    show "bank_verified a m (evs @ [?e])"
    proof (cases "\<exists>amounts. x = VerificationPayload amounts \<and> accepted")
      case True
      then obtain amounts where x: "x = VerificationPayload amounts" accepted by blast
      then obtain ext where "submitted a evs (BankAccountPayload ext)" using b by (auto simp: submitted_snoc)
      moreover have "fold (sent_event a) evs m = Some amounts" using ex(3) [OF x] m by simp
      ultimately show ?thesis unfolding x payload_step.simps by (rule bank_verified_now)
    next
      case False
      have nb: "\<not> is_bank x" using b ex(1,5) by (auto simp: still_due_def)
      then have "\<exists>ext. submitted a evs (BankAccountPayload ext)" using b by (auto simp: submitted_snoc)
      moreover have "''external_account.verification'' \<notin> ?due" using b ex(1) False cleared_verification [of x] by (auto simp: still_due_def split: if_splits)
      ultimately have "bank_verified a m evs" by (rule bank)
      then show ?thesis using nb by (auto intro: bank_verified_keep)
    qed
  qed
qed

lemma tracked_event:
  assumes "tracked fo profile a m evs p" and "\<not> creates a e"
  shows "tracked fo profile a m (evs @ [e]) (run_event fo e p)"
proof (cases e)
  case (CreateEvent i now prof)
  with assms show ?thesis by (intro tracked_skip [OF assms(1)]) (auto simp: create_account_def Let_def)
next
  case (ArmEvent i amounts)
  with assms show ?thesis by (intro tracked_skip [OF assms(1)]) (auto simp: arm_micro_deposits_def)
next
  case (SubmitEvent i now step x)
  obtain acc where acc: "bt_get (np_accounts p) a = Some acc" using assms(1) by (auto simp: tracked_def)
  show ?thesis
  proof (cases "i = a \<and> step = payload_step x \<and> (\<exists>z. apply_payload fo a x acc p = Ok z)")
    case True
    then obtain p' acc' accepted message where "apply_payload fo a x acc p = Ok (p', acc', accepted, message)" by (metis prod_cases4)
    from tracked_submit [OF assms(1) acc this, of now] True show ?thesis by (simp add: SubmitEvent)
  next
    case False
    have "bt_get (np_accounts (run_event fo e p)) a = bt_get (np_accounts p) a" "bt_get (np_micro_deposits (run_event fo e p)) a = bt_get (np_micro_deposits p) a"
      using False acc apply_payload_tables [of fo i x _ p]
      by (auto simp: SubmitEvent submit_step_def Let_def split: option.split result.split)
    moreover have "\<exists>ows. y = OwnersPayload ows" if "e = SubmitEvent a now' (payload_step y) y" for now' y
      using that False apply_payload_fails [of fo a x acc p] by (auto simp: SubmitEvent)
    ultimately show ?thesis by (intro tracked_skip [OF assms(1)]) (simp_all add: SubmitEvent)
  qed
qed

lemma tracked_run:
  "list_all (\<lambda>e. \<not> creates a e) evs \<Longrightarrow>
   tracked fo profile a (bt_get (np_micro_deposits p) a) evs (fold (run_event fo) evs (fst (create_account a now profile p)))"
proof (induction evs rule: rev_induct)
  case Nil
  show ?case by (simp add: tracked_def create_account_def Let_def submitted_def account_new_def)
next
  case (snoc e evs)
  then show ?case using tracked_event [of fo profile a _ evs _ e] by simp
qed

lemma run_events_reach: "provider_reach fo p \<Longrightarrow> provider_reach fo (fold (run_event fo) evs p)"
proof (induction evs arbitrary: p)
  case (Cons e evs)
  then show ?case by (cases e) (auto intro: provider_reach.intros)
qed simp

text \<open>
  C21.  No account is active before its data came in.  After an account was created, whatever calls follow for it and other accounts: when its
  status is active, a business profile, a representative and accepted terms were submitted for it, a bank account was submitted and after the
  last one the micro-deposit amounts then sent were named, and if the structure it was created with requires beneficial owners, a roster was
  submitted that passes the due-diligence check (unless a profile with an exempt structure was submitted as well, which switches the check off).
\<close>

theorem active_only_when_submitted:
  assumes "provider_reach fo p" and "list_all (\<lambda>e. \<not> creates a e) evs"
    and "provider_status (fold (run_event fo) evs (fst (create_account a now profile p))) a = Ok Active"
  shows "(\<exists>prof. submitted a evs (BusinessInfoPayload prof)) \<and> (\<exists>ow. submitted a evs (RepresentativePayload ow)) \<and> (\<exists>tos. submitted a evs (TosPayload tos))
    \<and> bank_verified a (bt_get (np_micro_deposits p) a) evs
    \<and> (requires_beneficial_owners (bp_structure profile) \<longrightarrow> (\<exists>ows. submitted a evs (OwnersPayload ows)
        \<and> (validate_cdd fo ows = Ok () \<or> (\<exists>prof. submitted a evs (BusinessInfoPayload prof) \<and> \<not> requires_beneficial_owners (bp_structure prof)))))"
proof -
  let ?q = "fold (run_event fo) evs (fst (create_account a now profile p))"
  obtain acc where acc: "bt_get (np_accounts ?q) a = Some acc"
    and due: "\<And>r. r \<in> set (rq_currently_due (requirements_for (bp_structure profile))) \<Longrightarrow> r \<notin> set (rq_currently_due (ca_requirements acc)) \<Longrightarrow>
          \<exists>x. submitted a evs x \<and> counts fo a evs x \<and> r \<in> cleared x"
    and bank: "(\<exists>ext. submitted a evs (BankAccountPayload ext)) \<Longrightarrow> ''external_account.verification'' \<notin> set (rq_currently_due (ca_requirements acc)) \<Longrightarrow>
          bank_verified a (bt_get (np_micro_deposits p) a) evs"
    using tracked_run [OF assms(2), of fo profile p now] unfolding tracked_def by blast
  have "provider_reach fo ?q" by (intro run_events_reach reach_create assms(1))
  from active_means_complete [OF this assms(3)] acc have "rq_currently_due (ca_requirements acc) = []"
    by (auto simp: provider_snapshot_def is_active_def)
  then have none: "r \<notin> set (rq_currently_due (ca_requirements acc))" for r by simp
  note item = due [OF _ none]
  have "\<exists>prof. submitted a evs (BusinessInfoPayload prof)"
  proof -
    obtain x where "submitted a evs x" "''business.legal_name'' \<in> cleared x" using item [of "''business.legal_name''"] by (auto simp: requirements_for_def)
    then show ?thesis by (cases x) auto
  qed
  moreover have "\<exists>ow. submitted a evs (RepresentativePayload ow)"
  proof -
    obtain x where "submitted a evs x" "''representative.identity'' \<in> cleared x" using item [of "''representative.identity''"] by (auto simp: requirements_for_def)
    then show ?thesis by (cases x) auto
  qed
  moreover have "\<exists>tos. submitted a evs (TosPayload tos)"
  proof -
    obtain x where "submitted a evs x" "''tos_acceptance'' \<in> cleared x" using item [of "''tos_acceptance''"] by (auto simp: requirements_for_def)
    then show ?thesis by (cases x) auto
  qed
  moreover have "\<exists>ext. submitted a evs (BankAccountPayload ext)"
  proof -
    obtain x where "submitted a evs x" "''external_account'' \<in> cleared x" using item [of "''external_account''"] by (auto simp: requirements_for_def)
    then show ?thesis by (cases x) auto
  qed
  then have "bank_verified a (bt_get (np_micro_deposits p) a) evs" using bank none by blast
  moreover have "\<exists>ows. submitted a evs (OwnersPayload ows) \<and> counts fo a evs (OwnersPayload ows)" if req: "requires_beneficial_owners (bp_structure profile)"
  proof -
    obtain x where "submitted a evs x" "counts fo a evs x" "''beneficial_owners'' \<in> cleared x"
      using item [OF iffD2 [OF due_owners req]] by (elim exE conjE)
    then show ?thesis by (cases x) auto
  qed
  ultimately show ?thesis by simp
qed

section \<open>Instances\<close>

definition sample_f32 :: "int f32_ops" where
  "sample_f32 = \<lparr>f32_zero = 0, f32_25 = 25, f32_add = (+), f32_ge = (\<ge>), f32_lt = (<), f32_show = show_int\<rparr>"

definition sample_address :: address where
  "sample_address = \<lparr>ad_line1 = ''1 Main'', ad_line2 = None, ad_city = ''X'', ad_region = ''Y'', ad_postal_code = ''1'', ad_country = ''US''\<rparr>"

definition sample_profile :: "business_structure \<Rightarrow> business_profile" where
  "sample_profile st = \<lparr>bp_legal_name = ''Acme'', bp_trade_name = None, bp_structure = st, bp_tax_id = None, bp_mcc = 5812, bp_country = ''US'',
     bp_registered_address = sample_address, bp_support_email = None, bp_support_phone = None, bp_website = None\<rparr>"

definition sample_owner :: "string \<Rightarrow> int \<Rightarrow> (unit, int) beneficial_owner" where
  "sample_owner n pct = \<lparr>bo_person = \<lparr>pe_legal_name = n, pe_dob = (), pe_address = sample_address, pe_ssn_last_4 = None, pe_ssn_or_itin_full = None, pe_government_id = None\<rparr>,
     bo_ownership_pct = pct, bo_control = True, bo_is_pep = False\<rparr>"

definition sample_bank :: external_account where
  "sample_bank = \<lparr>ea_country = ''US'', ea_currency = ''USD'', ea_routing = ''0'', ea_account_number = ''1'', ea_account_holder_name = ''Acme''\<rparr>"

definition sample_payloads :: "business_structure \<Rightarrow> (unit, int, int) step_payload list" where
  "sample_payloads st = [BankAccountPayload sample_bank, TosPayload (sample_tos ''1'' ''ff''), RepresentativePayload (sample_owner ''Ann'' 10), BusinessInfoPayload (sample_profile st)]"

abbreviation sample_provider :: "business_structure \<Rightarrow> (unit, int, int) native_provider" where
  "sample_provider st \<equiv> arm_micro_deposits ''acct'' (3, 7) (fst (create_account ''acct'' 0 (sample_profile st) (provider_new Custom)))"

theorem onboarding_completes_witness:
  "provider_status (submit_all sample_f32 1 ''acct'' (sample_payloads Partnership @ VerificationPayload (3, 7) # [OwnersPayload [sample_owner ''Bob'' 60]])
     (sample_provider Partnership)) ''acct'' = Ok Active"
proof (rule onboarding_completes)
  show "list_all (acceptable sample_f32 (3, 7)) (sample_payloads Partnership @ VerificationPayload (3, 7) # [OwnersPayload [sample_owner ''Bob'' 60]])" by code_simp
  show "{''business.legal_name'', ''business.tax_id'', ''representative.identity'', ''external_account'', ''tos_acceptance'', ''beneficial_owners''}
      \<subseteq> (\<Union>x \<in> set (sample_payloads Partnership @ [OwnersPayload [sample_owner ''Bob'' 60]]). cleared x)" by (simp add: sample_payloads_def)
qed simp_all

lemma submit_all_reach: "provider_reach fo p \<Longrightarrow> provider_reach fo (submit_all fo now a xs p)"
  by (induction xs arbitrary: p) (simp_all add: reach_submit)

text \<open>
  The requirement list is fixed when the account is created: an account opened as a public corporation, which is exempt
  from naming its owners, and then declared a private corporation by its business step becomes active without the
  beneficial-owner step.
\<close>

lemma structure_switch_skips_owners:
  "provider_status (submit_all sample_f32 1 ''acct'' (sample_payloads PrivateCorporation @ [VerificationPayload (3, 7)]) (sample_provider PublicCorporation)) ''acct'' = Ok Active"
  by code_simp

definition sample_events :: "(unit, int, int) provider_event list" where
  "sample_events = ArmEvent ''acct'' (3, 7) # map (\<lambda>x. SubmitEvent ''acct'' 1 (payload_step x) x)
     (sample_payloads Partnership @ [OwnersPayload [sample_owner ''Bob'' 60], VerificationPayload (3, 7)])"

theorem active_only_when_submitted_witness:
  "\<exists>ows. submitted ''acct'' sample_events (OwnersPayload ows) \<and> validate_cdd sample_f32 ows = Ok ()"
proof -
  let ?p = "provider_new Custom :: (unit, int, int) native_provider"
  have 1: "list_all (\<lambda>e. \<not> creates ''acct'' e) sample_events" by code_simp
  have 2: "provider_status (fold (run_event sample_f32) sample_events (fst (create_account ''acct'' 0 (sample_profile Partnership) ?p))) ''acct'' = Ok Active" by code_simp
  have 3: "requires_beneficial_owners (bp_structure (sample_profile Partnership))" by (simp add: sample_profile_def requires_beneficial_owners_def)
  have 4: "prof = sample_profile Partnership" if "submitted ''acct'' sample_events (BusinessInfoPayload prof)" for prof
    using that by (auto simp: submitted_def sample_events_def sample_payloads_def)
  from active_only_when_submitted [OF reach_new 1 2] 3 4 show ?thesis by auto
qed

text \<open>Steps are accepted in any order, and the cursor jumps over the steps that are still missing.\<close>

lemma cursor_skips_missing_steps:
  "map_option of_current_step (bt_get (np_flows (fst (submit_step sample_f32 1 ''acct'' TosAcceptance (TosPayload (sample_tos ''1'' ''ff'')) (sample_provider Partnership)))) ''acct'') = Some 5"
  by code_simp

text \<open>The cursor of a flow never goes back.\<close>

lemma advance_flow_forward: "of_current_step fl \<le> of_current_step (advance_flow step accepted r fl)"
  by (auto simp: advance_flow_def Let_def split: option.split)

end
