(* ===== verification/Connect_Payout.thy ===== *)
theory Connect_Payout
  imports Connect_Onboarding
begin

text \<open>
  Payout schedules and tax forms of \<^verbatim>\<open>op-connect\<close> (\<^verbatim>\<open>payout.rs\<close>, \<^verbatim>\<open>tax_reporting.rs\<close>).  Dates are numbers of days; what the
  code asks of the calendar library is a parameter record.  The two floating-point computations, the range test of a rate and the
  product of an amount and a rate rounded down, are parameters too.
  Shown: a payout splits the gross amount exactly and falls on the first admissible date; the boxes of a form add up.
\<close>

section \<open>Payouts\<close>

datatype weekday = Mon | Tue | Wed | Thu | Fri | Sat | Sun

datatype payout_mode = Instant | Daily | Weekly | Monthly | OnDemand

record 'f payout_schedule =
  ps_mode :: payout_mode
  ps_day_of_week :: "weekday option"
  ps_day_of_month :: "nat option"
  ps_delay_days :: nat
  ps_instant_eligible :: bool
  ps_reserve_pct :: 'f

text \<open>\<open>rate_ok\<close> is \<^verbatim>\<open>(0.0..=1.0).contains(&x)\<close>, \<open>rate_floor\<close> is \<^verbatim>\<open>((minor as f64) * f64::from(x)).floor() as i64\<close>, \<open>rate_show\<close> is \<^verbatim>\<open>Display\<close>.\<close>

record 'f rate_ops =
  rate_ok :: "'f \<Rightarrow> bool"
  rate_floor :: "int \<Rightarrow> 'f \<Rightarrow> int"
  rate_show :: "'f \<Rightarrow> string"

definition schedule_try_new ::
  "'f rate_ops \<Rightarrow> payout_mode \<Rightarrow> weekday option \<Rightarrow> nat option \<Rightarrow> nat \<Rightarrow> bool \<Rightarrow> 'f \<Rightarrow> ('f payout_schedule, connect_error) result" where
  "schedule_try_new ro mode dow month_day delay instant_eligible reserve =
     (if \<not> rate_ok ro reserve then Err (InvalidPayoutSchedule (''reserve_pct '' @ rate_show ro reserve @ '' not in [0.0, 1.0]''))
      else if delay > 30 then Err (InvalidPayoutSchedule (''delay_days '' @ show_nat delay @ '' > 30 (no real schedule needs this)''))
      else if mode = Weekly \<and> dow = None then Err (InvalidPayoutSchedule ''weekly schedule requires day_of_week'')
      else rbind (if mode = Monthly
                  then (case month_day of
                          Some d \<Rightarrow> if 1 \<le> d \<and> d \<le> 28 then Ok () else Err (InvalidPayoutSchedule (''day_of_month '' @ show_nat d @ '' not in 1..=28''))
                        | None \<Rightarrow> Err (InvalidPayoutSchedule ''monthly schedule requires day_of_month''))
                  else Ok ()) (\<lambda>_.
           Ok \<lparr>ps_mode = mode, ps_day_of_week = dow, ps_day_of_month = month_day, ps_delay_days = delay,
               ps_instant_eligible = instant_eligible, ps_reserve_pct = reserve\<rparr>))"

record calendar =
  cal_add_days :: "int \<Rightarrow> nat \<Rightarrow> int option"
  cal_weekday :: "int \<Rightarrow> weekday"
  cal_day :: "int \<Rightarrow> nat"
  cal_month :: "int \<Rightarrow> nat"
  cal_year :: "int \<Rightarrow> int"
  cal_with_day :: "int \<Rightarrow> nat \<Rightarrow> int option"
  cal_from_ymd :: "int \<Rightarrow> nat \<Rightarrow> nat \<Rightarrow> int option"

fun walk_to_weekday :: "calendar \<Rightarrow> weekday \<Rightarrow> nat \<Rightarrow> int \<Rightarrow> int" where
  "walk_to_weekday cal target 0 d = d"
| "walk_to_weekday cal target (Suc n) d =
     (if cal_weekday cal d = target then d
      else walk_to_weekday cal target n (case cal_add_days cal d 1 of Some d' \<Rightarrow> d' | None \<Rightarrow> d))"

definition next_payout_date :: "calendar \<Rightarrow> 'f payout_schedule \<Rightarrow> int \<Rightarrow> int" where
  "next_payout_date cal s available_on =
     (let base = (case cal_add_days cal available_on (ps_delay_days s) of Some d \<Rightarrow> d | None \<Rightarrow> available_on) in
      case ps_mode s of
        Weekly \<Rightarrow> walk_to_weekday cal (case ps_day_of_week s of Some w \<Rightarrow> w | None \<Rightarrow> Mon) 7 base
      | Monthly \<Rightarrow>
          (let month_day = (case ps_day_of_month s of Some d \<Rightarrow> d | None \<Rightarrow> 1) in
           if cal_day cal base \<le> month_day then (case cal_with_day cal base month_day of Some d \<Rightarrow> d | None \<Rightarrow> base)
           else let (year, month) = (if cal_month cal base = 12 then (cal_year cal base + 1, 1) else (cal_year cal base, cal_month cal base + 1))
                in (case cal_from_ymd cal year month month_day of Some d \<Rightarrow> d | None \<Rightarrow> base))
      | _ \<Rightarrow> base)"

definition apply_reserve :: "'f rate_ops \<Rightarrow> 'f payout_schedule \<Rightarrow> money \<Rightarrow> (money \<times> money, connect_error) result" where
  "apply_reserve ro s gross =
     (let reserve = from_minor (rate_floor ro (minor_units gross) (ps_reserve_pct s)) (currency gross) in
      rbind (map_err (\<lambda>_. ConnectOverflow) (checked_sub gross reserve)) (\<lambda>payout. Ok (payout, reserve)))"

record payout_instruction =
  pi_destination :: account_id
  pi_net_amount :: money
  pi_reserve_amount :: money
  pi_scheduled_for :: int
  pi_created_at :: nat

definition instruction_build :: "calendar \<Rightarrow> 'f rate_ops \<Rightarrow> nat \<Rightarrow> account_id \<Rightarrow> money \<Rightarrow> int \<Rightarrow> 'f payout_schedule \<Rightarrow> (payout_instruction, connect_error) result" where
  "instruction_build cal ro now destination gross available_on s =
     rbind (apply_reserve ro s gross) (\<lambda>(net, reserve).
     Ok \<lparr>pi_destination = destination, pi_net_amount = net, pi_reserve_amount = reserve,
         pi_scheduled_for = next_payout_date cal s available_on, pi_created_at = now\<rparr>)"

section \<open>Tax forms\<close>

record form_1099k_thresholds =
  th_gross_threshold_minor :: int
  th_transaction_count_threshold :: nat

definition thresholds_for_year :: "nat \<Rightarrow> form_1099k_thresholds" where
  "thresholds_for_year year =
     (if year \<le> 2023 then \<lparr>th_gross_threshold_minor = 2000000, th_transaction_count_threshold = 200\<rparr>
      else if year = 2024 then \<lparr>th_gross_threshold_minor = 500000, th_transaction_count_threshold = 0\<rparr>
      else if year = 2025 then \<lparr>th_gross_threshold_minor = 250000, th_transaction_count_threshold = 0\<rparr>
      else \<lparr>th_gross_threshold_minor = 60000, th_transaction_count_threshold = 0\<rparr>)"

record form_1099k =
  fk_tax_year :: nat
  fk_payee :: business_profile
  fk_payer_tin :: string
  fk_total_amount :: money
  fk_num_transactions :: nat
  fk_monthly_breakdown :: "money list"
  fk_state_breakdown :: "(string, money) btreemap"

record 'f form_1042s =
  fs_tax_year :: nat
  fs_payee :: business_profile
  fs_payee_country :: country_code
  fs_gross_income :: money
  fs_withholding_rate :: 'f
  fs_federal_tax_withheld :: money

record annual_transaction =
  at_month :: nat
  at_gross :: money
  at_state :: string

record tax_totals =
  tt_total :: money
  tt_monthly :: "money list"
  tt_states :: "(string, money) btreemap"
  tt_count :: nat

definition add_to_state :: "annual_transaction \<Rightarrow> (string, money) btreemap \<Rightarrow> (string, money) btreemap" where
  "add_to_state tx st =
     (case bt_get st (at_state tx) of
        Some m \<Rightarrow> (case checked_add m (at_gross tx) of Ok s \<Rightarrow> bt_insert (at_state tx) s st | _ \<Rightarrow> st)
      | None \<Rightarrow> bt_insert (at_state tx) (at_gross tx) st)"

definition tally_transaction :: "currency \<Rightarrow> annual_transaction \<Rightarrow> tax_totals \<Rightarrow> (tax_totals, connect_error) result" where
  "tally_transaction c tx t =
     (if currency (at_gross tx) \<noteq> c
      then Err (TaxReporting (''transaction in '' @ code (currency (at_gross tx)) @ '' but report currency is '' @ code c))
      else if \<not> (1 \<le> at_month tx \<and> at_month tx \<le> 12) then Err (TaxReporting (''invalid month '' @ show_nat (at_month tx)))
      else let idx = at_month tx - 1 in
           rbind (map_err (\<lambda>_. ConnectOverflow) (checked_add (tt_monthly t ! idx) (at_gross tx))) (\<lambda>m.
           rbind (map_err (\<lambda>_. ConnectOverflow) (checked_add (tt_total t) (at_gross tx))) (\<lambda>total_amount.
           Ok (t\<lparr>tt_monthly := (tt_monthly t)[idx := m], tt_total := total_amount, tt_states := add_to_state tx (tt_states t),
                 tt_count := u32_saturating_add (tt_count t) 1\<rparr>))))"

fun tally_transactions :: "currency \<Rightarrow> annual_transaction list \<Rightarrow> tax_totals \<Rightarrow> (tax_totals, connect_error) result" where
  "tally_transactions c [] t = Ok t"
| "tally_transactions c (tx # txs) t = rbind (tally_transaction c tx t) (\<lambda>t. tally_transactions c txs t)"

definition tax_totals_zero :: "currency \<Rightarrow> tax_totals" where
  "tax_totals_zero c = \<lparr>tt_total = zero c, tt_monthly = replicate 12 (zero c), tt_states = [], tt_count = 0\<rparr>"

definition build_1099k :: "nat \<Rightarrow> business_profile \<Rightarrow> string \<Rightarrow> annual_transaction list \<Rightarrow> currency \<Rightarrow> (form_1099k option, connect_error) result" where
  "build_1099k tax_year payee payer_tin txs c =
     (if txs = [] then Ok None
      else rbind (tally_transactions c txs (tax_totals_zero c)) (\<lambda>t.
           let th = thresholds_for_year tax_year;
               meets_amount = (minor_units (tt_total t) \<ge> th_gross_threshold_minor th);
               meets_count = (th_transaction_count_threshold th = 0 \<or> tt_count t \<ge> th_transaction_count_threshold th);
               meets = (if th_transaction_count_threshold th = 0 then meets_amount else meets_amount \<and> meets_count)
           in if \<not> meets then Ok None
              else Ok (Some \<lparr>fk_tax_year = tax_year, fk_payee = payee, fk_payer_tin = payer_tin, fk_total_amount = tt_total t,
                             fk_num_transactions = tt_count t, fk_monthly_breakdown = tt_monthly t, fk_state_breakdown = tt_states t\<rparr>)))"

definition build_1042s :: "'f rate_ops \<Rightarrow> nat \<Rightarrow> business_profile \<Rightarrow> country_code \<Rightarrow> money \<Rightarrow> 'f \<Rightarrow> ('f form_1042s, connect_error) result" where
  "build_1042s ro tax_year payee payee_country gross_income rate =
     (if payee_country = ''US'' then Err (TaxReporting ''Form 1042-S is for non-US payees; use 1099-K'')
      else if \<not> rate_ok ro rate then Err (TaxReporting (''withholding_rate '' @ rate_show ro rate @ '' not in [0.0, 1.0]''))
      else Ok \<lparr>fs_tax_year = tax_year, fs_payee = payee, fs_payee_country = payee_country, fs_gross_income = gross_income,
               fs_withholding_rate = rate, fs_federal_tax_withheld = from_minor (rate_floor ro (minor_units gross_income) rate) (currency gross_income)\<rparr>)"

section \<open>Payouts are exact and timely\<close>

lemma apply_reserve_exact:
  "apply_reserve ro s gross = Ok (net, reserve) \<Longrightarrow> minor_units net + minor_units reserve = minor_units gross \<and> currency net = currency gross \<and> currency reserve = currency gross"
  by (auto simp: apply_reserve_def from_minor_def Let_def)

text \<open>
  What the calendar library documents of the dates around \<open>base\<close>: days follow each other, all weekdays occur within a
  week, and a month of 28 to 31 days numbers its dates from 1.
\<close>

definition next_month_of :: "calendar \<Rightarrow> int \<Rightarrow> int \<times> nat" where
  "next_month_of cal base = (if cal_month cal base = 12 then (cal_year cal base + 1, 1) else (cal_year cal base, cal_month cal base + 1))"

definition calendar_ok :: "calendar \<Rightarrow> int \<Rightarrow> bool" where
  "calendar_ok cal base \<longleftrightarrow>
     (\<forall>k \<le> 7. cal_add_days cal (base + int k) 1 = Some (base + int k + 1))
   \<and> (\<forall>w. \<exists>k < 7. cal_weekday cal (base + int k) = w)
   \<and> (\<exists>len. 28 \<le> len \<and> len \<le> 31 \<and> 1 \<le> cal_day cal base \<and> cal_day cal base \<le> len
       \<and> (\<forall>k \<le> 31. cal_day cal (base + int k) = (if cal_day cal base + k \<le> len then cal_day cal base + k else cal_day cal base + k - len))
       \<and> (\<forall>m. 1 \<le> m \<and> m \<le> 28 \<longrightarrow> cal_with_day cal base m = Some (base + int m - int (cal_day cal base))
            \<and> cal_from_ymd cal (fst (next_month_of cal base)) (snd (next_month_of cal base)) m = Some (base + int len - int (cal_day cal base) + int m)))"

text \<open>The dates a schedule admits.\<close>

definition admits :: "calendar \<Rightarrow> 'f payout_schedule \<Rightarrow> int \<Rightarrow> bool" where
  "admits cal s d \<longleftrightarrow> (case ps_mode s of
       Weekly \<Rightarrow> ps_day_of_week s = Some (cal_weekday cal d)
     | Monthly \<Rightarrow> ps_day_of_month s = Some (cal_day cal d)
     | _ \<Rightarrow> True)"

lemma walk_to_weekday_exact:
  assumes "\<And>k. k \<le> n \<Longrightarrow> cal_add_days cal (d + int k) 1 = Some (d + int k + 1)" and "m < n" "cal_weekday cal (d + int m) = target"
    and "\<And>k. k < m \<Longrightarrow> cal_weekday cal (d + int k) \<noteq> target"
  shows "walk_to_weekday cal target n d = d + int m"
  using assms
proof (induction n arbitrary: d m)
  case (Suc n)
  show ?case
  proof (cases m)
    case 0
    then show ?thesis using Suc.prems by simp
  next
    case (Suc m')
    have step: "cal_add_days cal d 1 = Some (d + 1)" using Suc.prems(1) [of 0] by simp
    have ne: "cal_weekday cal d \<noteq> target" using Suc.prems(4) [of 0] Suc by simp
    have "walk_to_weekday cal target n (d + 1) = d + 1 + int m'"
    proof (rule Suc.IH)
      show "cal_add_days cal (d + 1 + int k) 1 = Some (d + 1 + int k + 1)" if "k \<le> n" for k
        using Suc.prems(1) [of "Suc k"] that by (simp add: algebra_simps)
      show "m' < n" using Suc Suc.prems(2) by simp
      show "cal_weekday cal (d + 1 + int m') = target" using Suc.prems(3) Suc by (simp add: algebra_simps)
      show "cal_weekday cal (d + 1 + int k) \<noteq> target" if "k < m'" for k
        using Suc.prems(4) [of "Suc k"] that Suc by (simp add: algebra_simps)
    qed
    then show ?thesis using step ne Suc by (simp add: algebra_simps)
  qed
qed simp

lemma weekly_first:
  assumes "calendar_ok cal base"
  shows "\<exists>k < 7. walk_to_weekday cal w 7 base = base + int k \<and> cal_weekday cal (base + int k) = w \<and> (\<forall>j < k. cal_weekday cal (base + int j) \<noteq> w)"
proof -
  let ?P = "\<lambda>k. cal_weekday cal (base + int k) = w"
  obtain k where k: "k < 7" "?P k" using assms unfolding calendar_ok_def by blast
  have P: "?P (LEAST k. ?P k)" using k(2) by (rule LeastI)
  have min: "\<not> ?P j" if "j < (LEAST k. ?P k)" for j using that not_less_Least by blast
  have "(LEAST k. ?P k) < 7" using Least_le [of ?P, OF k(2)] k(1) by (rule le_less_trans)
  moreover from this have "walk_to_weekday cal w 7 base = base + int (LEAST k. ?P k)"
    using assms P min by (intro walk_to_weekday_exact) (simp_all add: calendar_ok_def)
  ultimately show ?thesis using P min by blast
qed

lemma monthly_first:
  assumes "calendar_ok cal base" and "1 \<le> m" "m \<le> 28" and "ps_mode s = Monthly" "ps_day_of_month s = Some m"
    and "cal_add_days cal avail (ps_delay_days s) = Some base"
  shows "\<exists>k \<le> 31. next_payout_date cal s avail = base + int k \<and> cal_day cal (base + int k) = m \<and> (\<forall>j < k. cal_day cal (base + int j) \<noteq> m)"
proof -
  obtain len where len: "28 \<le> len" "len \<le> 31" "1 \<le> cal_day cal base" "cal_day cal base \<le> len"
      "\<And>k. k \<le> 31 \<Longrightarrow> cal_day cal (base + int k) = (if cal_day cal base + k \<le> len then cal_day cal base + k else cal_day cal base + k - len)"
      "cal_with_day cal base m = Some (base + int m - int (cal_day cal base))"
      "cal_from_ymd cal (fst (next_month_of cal base)) (snd (next_month_of cal base)) m = Some (base + int len - int (cal_day cal base) + int m)"
    using assms(1-3) unfolding calendar_ok_def by blast
  show ?thesis
  proof (cases "cal_day cal base \<le> m")
    case True
    let ?k = "m - cal_day cal base"
    have "next_payout_date cal s avail = base + int ?k" using assms(4-6) len(6) True by (simp add: next_payout_date_def Let_def)
    moreover have "cal_day cal (base + int ?k) = m" using len(5) [of ?k] True len(1-3) assms(3) by (simp del: of_nat_diff)
    moreover have "cal_day cal (base + int j) \<noteq> m" if "j < ?k" for j using len(5) [of j] True len(1-3) assms(3) that by auto
    ultimately show ?thesis using assms(3) by (intro exI [of _ ?k]) (simp del: of_nat_diff)
  next
    case False
    let ?k = "len - cal_day cal base + m"
    have "next_payout_date cal s avail = base + int ?k"
      using assms(4-6) len(4,7) False by (simp add: next_payout_date_def Let_def next_month_of_def split: if_splits)
    moreover have "cal_day cal (base + int ?k) = m" using len(5) [of ?k] len(1-4) False assms(2,3) by (simp del: of_nat_diff of_nat_add)
    moreover have "cal_day cal (base + int j) \<noteq> m" if "j < ?k" for j using len(5) [of j] len(1-4) False assms(2,3) that by (auto split: if_splits)
    ultimately show ?thesis using len(2,4) False by (intro exI [of _ ?k]) (simp del: of_nat_diff of_nat_add)
  qed
qed

text \<open>
  A payout is exact and falls on the first admissible date: for a schedule that was accepted and a calendar that
  behaves as documented around the day the funds are due, the instruction pays out and withholds exactly the gross amount, is scheduled
  on or after that day and within the next 31, on a date the schedule admits, and no earlier date is admitted.
\<close>

theorem payout_exact_and_first:
  assumes "schedule_try_new ro mode dow month_day delay inst reserve = Ok s" and "cal_add_days cal avail delay = Some base" and "calendar_ok cal base"
    and "instruction_build cal ro now dest gross avail s = Ok pi"
  shows "minor_units (pi_net_amount pi) + minor_units (pi_reserve_amount pi) = minor_units gross
    \<and> base \<le> pi_scheduled_for pi \<and> pi_scheduled_for pi \<le> base + 31 \<and> admits cal s (pi_scheduled_for pi)
    \<and> (\<forall>d. base \<le> d \<and> d < pi_scheduled_for pi \<longrightarrow> \<not> admits cal s d)"
proof -
  have s: "ps_mode s = mode" "ps_day_of_week s = dow" "ps_day_of_month s = month_day" "ps_delay_days s = delay"
      "mode = Weekly \<Longrightarrow> dow \<noteq> None" "mode = Monthly \<Longrightarrow> \<exists>m. month_day = Some m \<and> 1 \<le> m \<and> m \<le> 28"
    using assms(1) by (auto simp: schedule_try_new_def split: if_splits option.splits)
  have pi: "pi_scheduled_for pi = next_payout_date cal s avail" and exact: "minor_units (pi_net_amount pi) + minor_units (pi_reserve_amount pi) = minor_units gross"
    using assms(4) apply_reserve_exact [of ro s gross] by (auto simp: instruction_build_def)
  have "\<exists>k \<le> 31. next_payout_date cal s avail = base + int k \<and> admits cal s (base + int k) \<and> (\<forall>j < k. \<not> admits cal s (base + int j))"
  proof (cases mode)
    case Weekly
    then obtain w where w: "dow = Some w" using s(5) by auto
    have "next_payout_date cal s avail = walk_to_weekday cal w 7 base" using s Weekly w assms(2) by (simp add: next_payout_date_def Let_def)
    moreover have "admits cal s d \<longleftrightarrow> cal_weekday cal d = w" for d using s Weekly w by (auto simp: admits_def)
    moreover obtain k where "k < 7" "walk_to_weekday cal w 7 base = base + int k" "cal_weekday cal (base + int k) = w" "\<And>j. j < k \<Longrightarrow> cal_weekday cal (base + int j) \<noteq> w"
      using weekly_first [OF assms(3), of w] by blast
    ultimately show ?thesis by (intro exI [of _ k]) simp
  next
    case Monthly
    then obtain m where m: "month_day = Some m" "1 \<le> m" "m \<le> 28" using s(6) by auto
    have "admits cal s d \<longleftrightarrow> cal_day cal d = m" for d using s Monthly m by (auto simp: admits_def)
    then show ?thesis using monthly_first [OF assms(3) m(2,3), of s avail] s Monthly m assms(2) by auto
  qed (use s assms(2) in \<open>auto simp: next_payout_date_def Let_def admits_def intro!: exI [of _ 0]\<close>)
  then obtain k where k: "k \<le> 31" "pi_scheduled_for pi = base + int k" "admits cal s (base + int k)" "\<And>j. j < k \<Longrightarrow> \<not> admits cal s (base + int j)"
    using pi by auto
  moreover have "\<not> admits cal s d" if "base \<le> d" "d < base + int k" for d using k(4) [of "nat (d - base)"] that by simp
  ultimately show ?thesis using exact by auto
qed

definition sample_calendar :: calendar where
  "sample_calendar = \<lparr>cal_add_days = (\<lambda>d n. Some (d + int n)),
     cal_weekday = (\<lambda>d. [Mon, Tue, Wed, Thu, Fri, Sat, Sun] ! nat (d mod 7)),
     cal_day = (\<lambda>d. nat (d mod 30) + 1), cal_month = (\<lambda>d. nat (d div 30 mod 12) + 1), cal_year = (\<lambda>d. d div 360),
     cal_with_day = (\<lambda>d m. Some (d - d mod 30 + int m - 1)), cal_from_ymd = (\<lambda>y mo m. Some (y * 360 + (int mo - 1) * 30 + int m - 1))\<rparr>"

definition sample_rates :: "int rate_ops" where
  "sample_rates = \<lparr>rate_ok = (\<lambda>r. 0 \<le> r \<and> r \<le> 100), rate_floor = (\<lambda>m r. m * r div 100), rate_show = show_int\<rparr>"

lemma sample_calendar_ok: "calendar_ok sample_calendar 15"
proof -
  have "\<exists>k < 7. cal_weekday sample_calendar (15 + int k) = w" for w
  proof -
    have "list_all (\<lambda>w. list_ex (\<lambda>k. cal_weekday sample_calendar (15 + int k) = w) [0..<7]) [Mon, Tue, Wed, Thu, Fri, Sat, Sun]" by code_simp
    then have "list_ex (\<lambda>k. cal_weekday sample_calendar (15 + int k) = w) [0..<7]" by (cases w) (simp_all del: upt_rec_numeral)
    then show ?thesis by (auto simp: list_ex_iff simp del: upt_rec_numeral)
  qed
  moreover have "cal_day sample_calendar (15 + int k) = (if cal_day sample_calendar 15 + k \<le> 30 then cal_day sample_calendar 15 + k else cal_day sample_calendar 15 + k - 30)"
    if "k \<le> 31" for k
  proof -
    have "list_all (\<lambda>k. cal_day sample_calendar (15 + int k) = (if cal_day sample_calendar 15 + k \<le> 30 then cal_day sample_calendar 15 + k else cal_day sample_calendar 15 + k - 30)) [0..<32]"
      by code_simp
    then show ?thesis using that by (simp add: list_all_iff del: upt_rec_numeral)
  qed
  ultimately show ?thesis unfolding calendar_ok_def
    by (intro conjI exI [of _ 30]) (simp_all add: sample_calendar_def next_month_of_def)
qed

theorem payout_exact_and_first_witness:
  "\<exists>pi. instruction_build sample_calendar sample_rates 0 ''acct'' (from_minor 1001 USD) 13
      \<lparr>ps_mode = Monthly, ps_day_of_week = None, ps_day_of_month = Some 5, ps_delay_days = 2, ps_instant_eligible = False, ps_reserve_pct = 10\<rparr> = Ok pi
    \<and> pi_scheduled_for pi = 34 \<and> minor_units (pi_net_amount pi) + minor_units (pi_reserve_amount pi) = 1001"
proof -
  let ?s = "\<lparr>ps_mode = Monthly, ps_day_of_week = None, ps_day_of_month = Some 5, ps_delay_days = 2, ps_instant_eligible = False, ps_reserve_pct = 10\<rparr> :: int payout_schedule"
  have s: "schedule_try_new sample_rates Monthly None (Some 5) 2 False 10 = Ok ?s" by (simp add: schedule_try_new_def sample_rates_def)
  have b: "cal_add_days sample_calendar 13 2 = Some 15" by (simp add: sample_calendar_def)
  have "apply_reserve sample_rates ?s (from_minor 1001 USD) = Ok (from_minor 901 USD, from_minor 100 USD)"
    by (simp add: apply_reserve_def sample_rates_def from_minor_def in_i64_def Let_def)
  moreover have "next_payout_date sample_calendar ?s 13 = 34" by (simp add: next_payout_date_def sample_calendar_def)
  ultimately obtain pi where pi: "instruction_build sample_calendar sample_rates 0 ''acct'' (from_minor 1001 USD) 13 ?s = Ok pi" "pi_scheduled_for pi = 34"
    by (simp add: instruction_build_def del: rbind_eq_Ok)
  from payout_exact_and_first [OF s b sample_calendar_ok pi(1)] pi show ?thesis by (auto simp: from_minor_def)
qed

section \<open>The boxes of a form add up\<close>

definition gross_where :: "(annual_transaction \<Rightarrow> bool) \<Rightarrow> annual_transaction list \<Rightarrow> int" where
  "gross_where P txs = (\<Sum>tx\<leftarrow>filter P txs. minor_units (at_gross tx))"

lemma gross_where_snoc [simp]: "gross_where P [] = 0" "gross_where P (txs @ [tx]) = gross_where P txs + (if P tx then minor_units (at_gross tx) else 0)"
  by (simp_all add: gross_where_def)

lemma gross_where_le: "list_all (\<lambda>tx. 0 \<le> minor_units (at_gross tx)) txs \<Longrightarrow> 0 \<le> gross_where P txs \<and> gross_where P txs \<le> gross_where (\<lambda>_. True) txs"
  by (induction txs rule: rev_induct) auto

lemma tally_snoc: "tally_transactions c (txs @ [tx]) t = rbind (tally_transactions c txs t) (tally_transaction c tx)"
proof (induction txs arbitrary: t)
  case Nil
  then show ?case by (cases "tally_transaction c tx t") simp_all
next
  case (Cons x txs)
  then show ?case by (cases "tally_transaction c x t") simp_all
qed

definition tallied :: "currency \<Rightarrow> annual_transaction list \<Rightarrow> tax_totals \<Rightarrow> bool" where
  "tallied c txs t \<longleftrightarrow> tt_total t = from_minor (gross_where (\<lambda>_. True) txs) c \<and> in_i64 (gross_where (\<lambda>_. True) txs)
     \<and> tt_monthly t = map (\<lambda>m. from_minor (gross_where (\<lambda>tx. at_month tx = m) txs) c) [1..<13] \<and> list_all (\<lambda>tx. at_month tx \<in> {1..12}) txs
     \<and> (\<forall>st. bt_get (tt_states t) st = (if st \<in> at_state ` set txs then Some (from_minor (gross_where (\<lambda>tx. at_state tx = st) txs) c) else None))
     \<and> tt_count t = min (length txs) u32_max"

lemma add_to_state_exact:
  assumes "tallied c txs t" and "currency (at_gross tx) = c" "list_all (\<lambda>x. 0 \<le> minor_units (at_gross x)) (txs @ [tx])"
    and "in_i64 (gross_where (\<lambda>_. True) (txs @ [tx]))"
  shows "bt_get (add_to_state tx (tt_states t)) st
    = (if st \<in> at_state ` set (txs @ [tx]) then Some (from_minor (gross_where (\<lambda>x. at_state x = st) (txs @ [tx])) c) else None)"
proof (cases "at_state tx \<in> at_state ` set txs")
  case True
  let ?s = "gross_where (\<lambda>x. at_state x = at_state tx) txs"
  have "0 \<le> ?s \<and> ?s \<le> gross_where (\<lambda>_. True) txs" using assms(3) by (intro gross_where_le) simp
  then have "checked_add (from_minor ?s c) (at_gross tx) = Ok (from_minor (?s + minor_units (at_gross tx)) c)"
    using assms(2-4) by (simp add: from_minor_def in_i64_def)
  then show ?thesis using assms(1) True by (auto simp: tallied_def add_to_state_def simp del: checked_add_eq_Ok)
next
  case False
  then have "filter (\<lambda>x. at_state x = at_state tx) txs = []" by (intro filter_False ballI notI) (metis imageI)
  then have "gross_where (\<lambda>x. at_state x = at_state tx) txs = 0" by (simp add: gross_where_def)
  then show ?thesis using assms(1,2) False by (cases "at_gross tx") (auto simp: tallied_def add_to_state_def from_minor_def)
qed

lemma tally_transactions_exact:
  assumes "tally_transactions c txs (tax_totals_zero c) = Ok t" and "list_all (\<lambda>tx. 0 \<le> minor_units (at_gross tx)) txs"
  shows "tallied c txs t"
  using assms
proof (induction txs arbitrary: t rule: rev_induct)
  case Nil
  then show ?case by (auto simp: tallied_def tax_totals_zero_def zero_def from_minor_def in_i64_def bt_get_def map_replicate_const simp del: upt_rec_numeral)
next
  case (snoc tx txs)
  obtain t0 where t0: "tally_transactions c txs (tax_totals_zero c) = Ok t0" "tally_transaction c tx t0 = Ok t"
    using snoc.prems(1) by (auto simp: tally_snoc)
  have T: "tallied c txs t0" using snoc t0 by simp
  let ?g = "minor_units (at_gross tx)" and ?i = "at_month tx - 1"
  have tx: "currency (at_gross tx) = c" "1 \<le> at_month tx" "at_month tx \<le> 12" and g: "0 \<le> ?g"
    using t0(2) snoc.prems(2) by (auto simp: tally_transaction_def split: if_splits)
  obtain m where t: "t = t0\<lparr>tt_monthly := (tt_monthly t0)[?i := m], tt_total := from_minor (gross_where (\<lambda>_. True) (txs @ [tx])) c,
      tt_states := add_to_state tx (tt_states t0), tt_count := u32_saturating_add (tt_count t0) 1\<rparr>"
      and fits: "in_i64 (gross_where (\<lambda>_. True) (txs @ [tx]))" and m: "checked_add (tt_monthly t0 ! ?i) (at_gross tx) = Ok m"
    using t0(2) tx T by (auto simp: tally_transaction_def tallied_def from_minor_def Let_def simp del: checked_add_eq_Ok upt_rec_numeral)
      (auto simp: from_minor_def)
  have "tt_monthly t0 ! ?i = from_minor (gross_where (\<lambda>x. at_month x = at_month tx) txs) c"
    using T tx(2,3) by (simp add: tallied_def nth_map [where xs = "[1..<13]"] del: upt_rec_numeral)
  with m have m: "m = from_minor (gross_where (\<lambda>x. at_month x = at_month tx) (txs @ [tx])) c" using tx(1) by (auto simp: from_minor_def)
  have "(tt_monthly t0)[?i := m] = map (\<lambda>k. from_minor (gross_where (\<lambda>x. at_month x = k) (txs @ [tx])) c) [1..<13]"
    using T tx(2,3) unfolding m tallied_def by (intro nth_equalityI) (auto simp: nth_list_update simp del: upt_rec_numeral)
  moreover have "bt_get (add_to_state tx (tt_states t0)) st
      = (if st \<in> at_state ` set (txs @ [tx]) then Some (from_minor (gross_where (\<lambda>x. at_state x = st) (txs @ [tx])) c) else None)" for st
    using add_to_state_exact [of c txs t0 tx st] T tx(1) g fits snoc.prems(2) by simp
  ultimately show ?case using T fits tx(2,3) by (auto simp: tallied_def t u32_saturating_add_def simp del: upt_rec_numeral gross_where_snoc)
qed

text \<open>
  The boxes of a 1099-K add up: from transactions that are not negative, when the totals can be computed, a form is
  produced exactly when they reach the year's amount and number; it reports their sum and number, each month's box and each
  state's box is the sum of the transactions of that month or state, and there is a box for just the states that occur.
\<close>

theorem form_1099k_boxes:
  assumes "build_1099k year payee tin txs c = Ok form" and "list_all (\<lambda>tx. 0 \<le> minor_units (at_gross tx)) txs" and "txs \<noteq> []"
  shows "(form \<noteq> None \<longleftrightarrow> th_gross_threshold_minor (thresholds_for_year year) \<le> gross_where (\<lambda>_. True) txs
      \<and> th_transaction_count_threshold (thresholds_for_year year) \<le> length txs)
    \<and> (\<forall>f. form = Some f \<longrightarrow> fk_total_amount f = from_minor (gross_where (\<lambda>_. True) txs) c \<and> fk_num_transactions f = min (length txs) u32_max
      \<and> fk_monthly_breakdown f = map (\<lambda>m. from_minor (gross_where (\<lambda>tx. at_month tx = m) txs) c) [1..<13]
      \<and> (\<forall>st. bt_get (fk_state_breakdown f) st
           = (if st \<in> at_state ` set txs then Some (from_minor (gross_where (\<lambda>tx. at_state tx = st) txs) c) else None)))"
proof -
  obtain t where t: "tally_transactions c txs (tax_totals_zero c) = Ok t" using assms(1,3) by (auto simp: build_1099k_def)
  have T: "tallied c txs t" by (rule tally_transactions_exact [OF t assms(2)])
  have th: "th_transaction_count_threshold (thresholds_for_year year) \<le> u32_max" by (simp add: thresholds_for_year_def)
  have "form = (if th_gross_threshold_minor (thresholds_for_year year) \<le> minor_units (tt_total t) \<and> th_transaction_count_threshold (thresholds_for_year year) \<le> tt_count t
      then Some \<lparr>fk_tax_year = year, fk_payee = payee, fk_payer_tin = tin, fk_total_amount = tt_total t, fk_num_transactions = tt_count t,
                 fk_monthly_breakdown = tt_monthly t, fk_state_breakdown = tt_states t\<rparr> else None)"
    using assms(1,3) t by (auto simp: build_1099k_def Let_def split: if_splits)
  then show ?thesis using T th by (simp add: tallied_def from_minor_def del: upt_rec_numeral)
qed

definition sample_tx :: "nat \<Rightarrow> int \<Rightarrow> string \<Rightarrow> annual_transaction" where
  "sample_tx m a st = \<lparr>at_month = m, at_gross = from_minor a USD, at_state = st\<rparr>"

theorem form_1099k_boxes_witness:
  "\<exists>f. build_1099k 2024 (sample_profile Partnership) ''tin'' [sample_tx 3 400000 ''CA'', sample_tx 12 200000 ''TX''] USD = Ok (Some f)
     \<and> minor_units (fk_total_amount f) = 600000 \<and> map minor_units (fk_monthly_breakdown f) ! 11 = 200000"
proof -
  let ?txs = "[sample_tx 3 400000 ''CA'', sample_tx 12 200000 ''TX'']"
  obtain t where "tally_transactions USD ?txs (tax_totals_zero USD) = Ok t"
    by (simp add: tally_transaction_def tax_totals_zero_def sample_tx_def from_minor_def zero_def in_i64_def Let_def nth_list_update)
  then have "\<exists>form. build_1099k 2024 (sample_profile Partnership) ''tin'' ?txs USD = Ok form"
    by (simp add: build_1099k_def Let_def del: tally_transactions.simps)
  then obtain form where b: "build_1099k 2024 (sample_profile Partnership) ''tin'' ?txs USD = Ok form" by blast
  have nn: "list_all (\<lambda>tx. 0 \<le> minor_units (at_gross tx)) ?txs" by (simp add: sample_tx_def from_minor_def)
  have g: "gross_where P ?txs = (if P (sample_tx 3 400000 ''CA'') then 400000 else 0) + (if P (sample_tx 12 200000 ''TX'') then 200000 else 0)" for P
    by (simp add: gross_where_def sample_tx_def from_minor_def)
  from form_1099k_boxes [OF b nn] obtain f where "form = Some f" unfolding g by (auto simp: thresholds_for_year_def)
  with form_1099k_boxes [OF b nn] b show ?thesis unfolding g by (auto simp: from_minor_def sample_tx_def nth_map [where xs = "[1..<13]"] simp del: upt_rec_numeral)
qed

end
