(* ===== verification/Screening_Match.thy ===== *)
theory Screening_Match
  imports OpenPay_Prelude
begin

text \<open>
  The name-matching primitives of \<^verbatim>\<open>op-screening/src/matching.rs\<close>: edit distance with two rolling rows, the counting part of the
  Jaro measure, and the Soundex and Metaphone codes.  A \<^verbatim>\<open>&str\<close> is the list of its characters; for the phonetic codes these are
  Unicode scalar values.  The operations on single-precision numbers are a parameter.
  Shown: the rolling rows compute the least number of single-character edits, the Jaro loops stay within their arrays,
  and a Soundex code has its documented shape.
\<close>

section \<open>Edit distance\<close>

fun lev_cols :: "'c \<Rightarrow> 'c list \<Rightarrow> nat list \<Rightarrow> nat list \<Rightarrow> nat list \<Rightarrow> nat list" where
  "lev_cols ai b prev cur [] = cur"
| "lev_cols ai b prev cur (j # js) =
     (let cost = (if ai \<noteq> b ! (j - 1) then 1 else 0)
      in lev_cols ai b prev (cur[j := min (min (prev ! j + 1) (cur ! (j - 1) + 1)) (prev ! (j - 1) + cost)]) js)"

fun lev_rows :: "'c list \<Rightarrow> 'c list \<Rightarrow> nat list \<Rightarrow> nat list \<Rightarrow> nat list \<Rightarrow> nat list" where
  "lev_rows a b prev cur [] = prev"
| "lev_rows a b prev cur (i # is) = lev_rows a b (lev_cols (a ! (i - 1)) b prev (cur[0 := i]) [1..<length b + 1]) prev is"

definition levenshtein :: "'c list \<Rightarrow> 'c list \<Rightarrow> nat" where
  "levenshtein a b =
     (if length a = 0 then length b
      else if length b = 0 then length a
      else lev_rows a b [0..<length b + 1] (replicate (length b + 1) 0) [1..<length a + 1] ! length b)"

subsection \<open>Specification: the least number of edits\<close>

text \<open>One edit deletes, inserts or replaces a character.\<close>

inductive edit :: "'c list \<Rightarrow> 'c list \<Rightarrow> bool" where
  edit_delete: "edit (xs @ x # ys) (xs @ ys)"
| edit_insert: "edit (xs @ ys) (xs @ x # ys)"
| edit_replace: "edit (xs @ x # ys) (xs @ y # ys)"

definition edit_distance :: "'c list \<Rightarrow> 'c list \<Rightarrow> nat" where
  "edit_distance a b = (LEAST n. (edit ^^ n) a b)"

text \<open>Alignments of two words from the left, with their cost; the cost of the best one is computed by recursion on the last characters.\<close>

inductive align :: "'c list \<Rightarrow> 'c list \<Rightarrow> nat \<Rightarrow> bool" where
  align_nil: "align [] [] 0"
| align_delete: "align xs ys n \<Longrightarrow> align (xs @ [x]) ys (n + 1)"
| align_insert: "align xs ys n \<Longrightarrow> align xs (ys @ [y]) (n + 1)"
| align_match: "align xs ys n \<Longrightarrow> align (xs @ [x]) (ys @ [y]) (n + (if x \<noteq> y then 1 else 0))"

lemma align_Nil_left: "align [] ys n \<Longrightarrow> n = length ys"
  by (induction "[] :: 'a list" ys n rule: align.induct) auto

lemma align_Nil_right: "align xs [] n \<Longrightarrow> n = length xs"
  by (induction xs "[] :: 'a list" n rule: align.induct) auto

lemma align_left_all: "align xs [] (length xs)"
  by (induction xs rule: rev_induct) (auto intro: align.intros simp: align_delete [of _ "[]", simplified])

lemma align_right_all: "align [] ys (length ys)"
  by (induction ys rule: rev_induct) (auto intro: align.intros simp: align_insert [of "[]", simplified])

inductive_cases align_snocE: "align us vs n"

lemma align_snoc_cases:
  assumes "align (xs @ [x]) (ys @ [y]) n"
  obtains m where "align xs (ys @ [y]) m" "n = m + 1"
  | m where "align (xs @ [x]) ys m" "n = m + 1"
  | m where "align xs ys m" "n = m + (if x \<noteq> y then 1 else 0)"
  using assms by (cases rule: align.cases) auto

text \<open>The cost of the best alignment of two prefixes, the value the code keeps in row \<open>i\<close> and column \<open>j\<close>.\<close>

fun prefix_cost :: "'c list \<Rightarrow> 'c list \<Rightarrow> nat \<Rightarrow> nat \<Rightarrow> nat" where
  "prefix_cost a b 0 j = j"
| "prefix_cost a b (Suc i) 0 = Suc i"
| "prefix_cost a b (Suc i) (Suc j) =
     min (min (prefix_cost a b i (Suc j) + 1) (prefix_cost a b (Suc i) j + 1)) (prefix_cost a b i j + (if a ! i \<noteq> b ! j then 1 else 0))"

lemma prefix_cost_0: "prefix_cost a b i 0 = i"
  by (cases i) auto

lemma prefix_cost_align:
  "i \<le> length a \<Longrightarrow> j \<le> length b \<Longrightarrow> align (take i a) (take j b) (prefix_cost a b i j)"
proof (induction a b i j rule: prefix_cost.induct)
  case (1 a b j)
  then show ?case using align_right_all [of "take j b"] by simp
next
  case (2 a b i)
  then show ?case using align_left_all [of "take (Suc i) a"] by simp
next
  case (3 a b i j)
  have t: "take (Suc i) a = take i a @ [a ! i]" "take (Suc j) b = take j b @ [b ! j]" using "3.prems" by (simp_all add: take_Suc_conv_app_nth)
  have "align (take (Suc i) a) (take (Suc j) b) (prefix_cost a b i (Suc j) + 1)"
    using "3.IH"(1) "3.prems" align_delete unfolding t(1) by fastforce
  moreover have "align (take (Suc i) a) (take (Suc j) b) (prefix_cost a b (Suc i) j + 1)"
    using "3.IH"(2) "3.prems" align_insert unfolding t(2) by fastforce
  moreover have "align (take (Suc i) a) (take (Suc j) b) (prefix_cost a b i j + (if a ! i \<noteq> b ! j then 1 else 0))"
    using "3.IH"(3) "3.prems" align_match unfolding t by fastforce
  ultimately show ?case by (simp only: prefix_cost.simps min_def split: if_split) simp
qed

lemma prefix_cost_least:
  "i \<le> length a \<Longrightarrow> j \<le> length b \<Longrightarrow> align (take i a) (take j b) n \<Longrightarrow> prefix_cost a b i j \<le> n"
proof (induction a b i j arbitrary: n rule: prefix_cost.induct)
  case (1 a b j)
  then show ?case using align_Nil_left [of "take j b" n] by simp
next
  case (2 a b i)
  then show ?case using align_Nil_right [of "take (Suc i) a" n] by simp
next
  case (3 a b i j)
  have t: "take (Suc i) a = take i a @ [a ! i]" "take (Suc j) b = take j b @ [b ! j]" using "3.prems" by (simp_all add: take_Suc_conv_app_nth)
  from "3.prems"(3) have "align (take i a @ [a ! i]) (take j b @ [b ! j]) n" unfolding t .
  then show ?case
  proof (cases rule: align_snoc_cases)
    case (1 m)
    then show ?thesis using "3.IH"(1) [of m] "3.prems" t(2) by simp
  next
    case (2 m)
    then show ?thesis using "3.IH"(2) [of m] "3.prems" t(1) by simp
  next
    case (3 m)
    then show ?thesis using "3.IH"(3) [of m] "3.prems" by (simp add: min_def)
  qed
qed

subsection \<open>Alignments and edits\<close>

lemma edit_context: "edit u v \<Longrightarrow> edit (u @ w) (v @ w)"
proof (induction rule: edit.induct)
  case (edit_delete xs x ys)
  then show ?case using edit.edit_delete [of xs x "ys @ w"] by simp
next
  case (edit_insert xs ys x)
  then show ?case using edit.edit_insert [of xs "ys @ w" x] by simp
next
  case (edit_replace xs x ys y)
  then show ?case using edit.edit_replace [of xs x "ys @ w" y] by simp
qed

lemma edits_context: "(edit ^^ n) u v \<Longrightarrow> (edit ^^ n) (u @ w) (v @ w)"
  by (induction n arbitrary: v) (auto intro: edit_context relcomppI)

lemma align_edits: "align xs ys n \<Longrightarrow> (edit ^^ n) xs ys"
proof (induction rule: align.induct)
  case (align_delete xs ys n x)
  then have "(edit ^^ n) (xs @ [x]) (ys @ [x])" by (intro edits_context)
  moreover have "edit (ys @ [x]) ys" using edit_delete [of ys x "[]"] by simp
  ultimately show ?case by auto
next
  case (align_insert xs ys n y)
  moreover have "edit ys (ys @ [y])" using edit_insert [of ys "[]" y] by simp
  ultimately show ?case by auto
next
  case (align_match xs ys n x y)
  then have "(edit ^^ n) (xs @ [x]) (ys @ [x])" by (intro edits_context)
  moreover have "edit (ys @ [x]) (ys @ [y])" using edit_replace [of ys x "[]" y] by simp
  ultimately show ?case by auto
qed simp

text \<open>Editing one side of an alignment costs at most one more.\<close>

lemma align_after_delete: "align xs (us @ y # zs) n \<Longrightarrow> \<exists>k \<le> n + 1. align xs (us @ zs) k"
proof (induction xs "us @ y # zs" n arbitrary: us zs rule: align.induct)
  case (align_delete xs n x)
  then show ?case using align.align_delete by (metis add_le_mono1)
next
  case (align_insert xs ys n y')
  show ?case
  proof (cases zs rule: rev_cases)
    case Nil
    then show ?thesis using align_insert by (intro exI [of _ n]) auto
  next
    case (snoc zs' z)
    then obtain k where "k \<le> n + 1" "align xs (us @ zs') k" using align_insert by auto
    then show ?thesis using snoc align_insert.hyps(3) align.align_insert [of xs "us @ zs'" k z] by (intro exI [of _ "k + 1"]) auto
  qed
next
  case (align_match xs ys n x y')
  show ?case
  proof (cases zs rule: rev_cases)
    case Nil
    then show ?thesis using align_match align.align_delete [of xs ys n x] by (intro exI [of _ "n + 1"]) auto
  next
    case (snoc zs' z)
    then obtain k where "k \<le> n + 1" "align xs (us @ zs') k" using align_match by auto
    then show ?thesis using snoc align_match.hyps(3) align.align_match [of xs "us @ zs'" k x z]
      by (intro exI [of _ "k + (if x \<noteq> z then 1 else 0)"]) auto
  qed
qed simp

lemma align_after_insert: "align xs (us @ zs) n \<Longrightarrow> \<exists>k \<le> n + 1. align xs (us @ y # zs) k"
proof (cases zs rule: rev_cases)
  case Nil
  assume "align xs (us @ zs) n"
  then show ?thesis using Nil align_insert [of xs us n y] by auto
next
  case (snoc zs' z)
  assume "align xs (us @ zs) n"
  then show ?thesis using snoc
  proof (induction xs "us @ zs" n arbitrary: zs zs' z rule: align.induct)
    case (align_delete xs n x)
    then show ?case using align.align_delete by (metis add_le_mono1)
  next
    case (align_insert xs ys n y')
    have "\<exists>k \<le> n + 1. align xs (us @ y # zs') k"
    proof (cases zs' rule: rev_cases)
      case Nil
      then show ?thesis using align_insert align.align_insert [of xs us n y] by auto
    next
      case snoc
      then show ?thesis using align_insert by auto
    qed
    then obtain k where "k \<le> n + 1" "align xs (us @ y # zs') k" by blast
    then show ?case using align_insert.prems align_insert.hyps(3) align.align_insert [of xs "us @ y # zs'" k z] by (intro exI [of _ "k + 1"]) auto
  next
    case (align_match xs ys n x y')
    have "\<exists>k \<le> n + 1. align xs (us @ y # zs') k"
    proof (cases zs' rule: rev_cases)
      case Nil
      then show ?thesis using align_match align.align_insert [of xs us n y] by auto
    next
      case snoc
      then show ?thesis using align_match by auto
    qed
    then obtain k where "k \<le> n + 1" "align xs (us @ y # zs') k" by blast
    then show ?case using align_match.prems align_match.hyps(3) align.align_match [of xs "us @ y # zs'" k x z]
      by (intro exI [of _ "k + (if x \<noteq> z then 1 else 0)"]) auto
  qed simp
qed

lemma align_after_replace: "align xs (us @ y # zs) n \<Longrightarrow> \<exists>k \<le> n + 1. align xs (us @ y' # zs) k"
proof (induction xs "us @ y # zs" n arbitrary: us zs rule: align.induct)
  case (align_delete xs n x)
  then show ?case using align.align_delete by (metis add_le_mono1)
next
  case (align_insert xs ys n z)
  show ?case
  proof (cases zs rule: rev_cases)
    case Nil
    then show ?thesis using align_insert align.align_insert [of xs us n y'] by (intro exI [of _ "n + 1"]) auto
  next
    case (snoc zs' z')
    then obtain k where "k \<le> n + 1" "align xs (us @ y' # zs') k" using align_insert by auto
    then show ?thesis using snoc align_insert.hyps(3) align.align_insert [of xs "us @ y' # zs'" k z'] by (intro exI [of _ "k + 1"]) auto
  qed
next
  case (align_match xs ys n x z)
  show ?case
  proof (cases zs rule: rev_cases)
    case Nil
    then show ?thesis using align_match align.align_match [of xs us n x y'] by (intro exI [of _ "n + (if x \<noteq> y' then 1 else 0)"]) auto
  next
    case (snoc zs' z')
    then obtain k where "k \<le> n + 1" "align xs (us @ y' # zs') k" using align_match by auto
    then show ?thesis using snoc align_match.hyps(3) align.align_match [of xs "us @ y' # zs'" k x z']
      by (intro exI [of _ "k + (if x \<noteq> z' then 1 else 0)"]) auto
  qed
qed simp

lemma align_refl: "align xs xs 0"
proof (induction xs rule: rev_induct)
  case (snoc x xs)
  then show ?case using align_match [of xs xs 0 x x] by simp
qed (rule align_nil)

lemma edits_align: "(edit ^^ n) xs ys \<Longrightarrow> \<exists>k \<le> n. align xs ys k"
proof (induction n arbitrary: ys)
  case (Suc n)
  then obtain vs where "edit vs ys" "(edit ^^ n) xs vs" by auto
  with Suc.IH obtain k where vs: "edit vs ys" "k \<le> n" "align xs vs k" by blast
  from vs(1) have "\<exists>k' \<le> k + 1. align xs ys k'"
  proof cases
    case edit_delete
    then show ?thesis using align_after_delete vs(3) by auto
  next
    case edit_insert
    then show ?thesis using align_after_insert vs(3) by auto
  next
    case edit_replace
    then show ?thesis using align_after_replace vs(3) by auto
  qed
  then obtain k' where "k' \<le> k + 1" "align xs ys k'" by blast
  then show ?case using vs(2) by (intro exI [of _ k']) simp
qed (use align_refl in auto)

lemma edit_distance_cost: "edit_distance a b = prefix_cost a b (length a) (length b)"
proof -
  have "(edit ^^ prefix_cost a b (length a) (length b)) a b"
    using align_edits [OF prefix_cost_align [of "length a" a "length b" b]] by simp
  moreover have "prefix_cost a b (length a) (length b) \<le> n" if "(edit ^^ n) a b" for n
    using edits_align [OF that] prefix_cost_least [of "length a" a "length b" b] by (auto intro: order_trans)
  ultimately show ?thesis unfolding edit_distance_def by (rule Least_equality)
qed

subsection \<open>The rolling rows\<close>

definition is_row :: "'c list \<Rightarrow> 'c list \<Rightarrow> nat \<Rightarrow> nat \<Rightarrow> nat list \<Rightarrow> bool" where
  "is_row a b i j row \<longleftrightarrow> length row = length b + 1 \<and> (\<forall>k < j. row ! k = prefix_cost a b i k)"

lemma lev_cols_row:
  assumes "is_row a b i (length b + 1) prev" and "is_row a b (Suc i) j cur" "1 \<le> j" "j \<le> length b + 1"
  shows "is_row a b (Suc i) (length b + 1) (lev_cols (a ! i) b prev cur [j..<length b + 1])"
  using assms(2-4)
proof (induction "length b + 1 - j" arbitrary: j cur)
  case 0
  then show ?case by simp
next
  case (Suc d)
  obtain k where k: "j = Suc k" using Suc.prems(2) by (cases j) auto
  let ?v = "min (min (prev ! j + 1) (cur ! (j - 1) + 1)) (prev ! (j - 1) + (if a ! i \<noteq> b ! (j - 1) then 1 else 0))"
  have j: "j < length b + 1" using Suc.hyps(2) by simp
  have "?v = prefix_cost a b (Suc i) j" using assms(1) Suc.prems(1) j by (simp add: is_row_def k)
  then have "is_row a b (Suc i) (Suc j) (cur[j := ?v])" using Suc.prems(1) j by (auto simp: is_row_def nth_list_update less_Suc_eq)
  then have "is_row a b (Suc i) (length b + 1) (lev_cols (a ! i) b prev (cur[j := ?v]) [Suc j..<length b + 1])"
    using Suc.hyps(1) [of "Suc j"] Suc.hyps(2) j by simp
  moreover have "[j..<length b + 1] = j # [Suc j..<length b + 1]" using j by (rule upt_conv_Cons)
  ultimately show ?case by (simp add: Let_def)
qed

lemma lev_rows_row:
  assumes "is_row a b i (length b + 1) prev" and "length cur = length b + 1" "i \<le> length a"
  shows "is_row a b (length a) (length b + 1) (lev_rows a b prev cur [Suc i..<length a + 1])"
  using assms
proof (induction "length a - i" arbitrary: i prev cur)
  case 0
  then show ?case by simp
next
  case (Suc d)
  have "is_row a b (Suc i) 1 (cur[0 := Suc i])" using Suc.prems(2) by (simp add: is_row_def prefix_cost_0)
  from lev_cols_row [OF Suc.prems(1) this] have "is_row a b (Suc i) (length b + 1) (lev_cols (a ! i) b prev (cur[0 := Suc i]) [1..<length b + 1])" by simp
  from Suc.hyps(1) [OF _ this, of prev] Suc.hyps(2) Suc.prems
  have "is_row a b (length a) (length b + 1) (lev_rows a b (lev_cols (a ! i) b prev (cur[0 := Suc i]) [1..<length b + 1]) prev [Suc (Suc i)..<length a + 1])"
    by (simp add: is_row_def)
  moreover have "[Suc i..<length a + 1] = Suc i # [Suc (Suc i)..<length a + 1]" using Suc.hyps(2) by (intro upt_conv_Cons) simp
  ultimately show ?case by simp
qed

lemma levenshtein_eq_cost: "levenshtein a b = prefix_cost a b (length a) (length b)"
proof (cases "length a = 0 \<or> length b = 0")
  case True
  then show ?thesis by (auto simp: levenshtein_def prefix_cost_0)
next
  case False
  have "is_row a b 0 (length b + 1) [0..<length b + 1]" by (simp add: is_row_def del: upt_Suc)
  from lev_rows_row [OF this, of "replicate (length b + 1) 0"]
  have "is_row a b (length a) (length b + 1) (lev_rows a b [0..<length b + 1] (replicate (length b + 1) 0) [1..<length a + 1])" by simp
  then show ?thesis using False by (simp add: levenshtein_def is_row_def del: upt_Suc)
qed

text \<open>
  C37.  The two rolling rows compute the edit distance: for all words, the result is the least number of deletions,
  insertions and replacements of single characters that turn the first word into the second.
\<close>

theorem levenshtein_is_edit_distance: "levenshtein a b = edit_distance a b"
  unfolding edit_distance_cost by (rule levenshtein_eq_cost)

lemma levenshtein_zero: "levenshtein a b = 0 \<longleftrightarrow> a = b"
proof
  assume "levenshtein a b = 0"
  then have "align a b 0" using prefix_cost_align [of "length a" a "length b" b] unfolding levenshtein_eq_cost by simp
  then show "a = b" using align_edits by fastforce
next
  assume "a = b"
  then show "levenshtein a b = 0" using prefix_cost_least [of "length a" a "length b" b 0] align_refl [of b] by (simp add: levenshtein_eq_cost)
qed

section \<open>Jaro\<close>

fun find_match :: "'c \<Rightarrow> 'c list \<Rightarrow> bool list \<Rightarrow> nat list \<Rightarrow> nat option" where
  "find_match ai b b_matches [] = None"
| "find_match ai b b_matches (j # js) =
     (if b_matches ! j then find_match ai b b_matches js
      else if ai \<noteq> b ! j then find_match ai b b_matches js
      else Some j)"

fun match_loop :: "'c list \<Rightarrow> 'c list \<Rightarrow> nat \<Rightarrow> nat list \<Rightarrow> bool list \<times> bool list \<times> nat \<Rightarrow> bool list \<times> bool list \<times> nat" where
  "match_loop a b match_distance [] s = s"
| "match_loop a b match_distance (i # is) (a_matches, b_matches, matches) =
     match_loop a b match_distance is
       (case find_match (a ! i) b b_matches [i - match_distance..<min (i + match_distance + 1) (length b)] of
          Some j \<Rightarrow> (a_matches[i := True], b_matches[j := True], matches + 1)
        | None \<Rightarrow> (a_matches, b_matches, matches))"

text \<open>\<^verbatim>\<open>while !b_matches[k] { k += 1 }\<close>; \<open>None\<close> is the index out of bounds.\<close>

function skip_unmatched :: "bool list \<Rightarrow> nat \<Rightarrow> nat option" where
  "skip_unmatched b_matches k =
     (if k < length b_matches then (if b_matches ! k then Some k else skip_unmatched b_matches (Suc k)) else None)"
  by pat_completeness auto
termination by (relation "measure (\<lambda>(bs, k). length bs - k)") auto

declare skip_unmatched.simps [simp del]

fun transposition_loop :: "'c list \<Rightarrow> 'c list \<Rightarrow> bool list \<Rightarrow> bool list \<Rightarrow> nat list \<Rightarrow> nat \<Rightarrow> nat \<Rightarrow> (nat, unit) result" where
  "transposition_loop a b a_matches b_matches [] k transpositions = Ok transpositions"
| "transposition_loop a b a_matches b_matches (i # is) k transpositions =
     (if \<not> a_matches ! i then transposition_loop a b a_matches b_matches is k transpositions
      else case skip_unmatched b_matches k of
        None \<Rightarrow> Panic
      | Some k \<Rightarrow> transposition_loop a b a_matches b_matches is (k + 1) (if a ! i \<noteq> b ! k then transpositions + 1 else transpositions))"

text \<open>The operations of \<^verbatim>\<open>f32\<close> the code uses: literals \<open>n / 10 ^ k\<close>, conversion from integers, arithmetic and comparisons.\<close>

record 'f float_ops =
  fl_lit :: "nat \<Rightarrow> nat \<Rightarrow> 'f"
  fl_of :: "nat \<Rightarrow> 'f"
  fl_add :: "'f \<Rightarrow> 'f \<Rightarrow> 'f"
  fl_sub :: "'f \<Rightarrow> 'f \<Rightarrow> 'f"
  fl_mul :: "'f \<Rightarrow> 'f \<Rightarrow> 'f"
  fl_div :: "'f \<Rightarrow> 'f \<Rightarrow> 'f"
  fl_gt :: "'f \<Rightarrow> 'f \<Rightarrow> bool"
  fl_ge :: "'f \<Rightarrow> 'f \<Rightarrow> bool"

definition jaro_formula :: "'f float_ops \<Rightarrow> nat \<Rightarrow> nat \<Rightarrow> nat \<Rightarrow> nat \<Rightarrow> 'f" where
  "jaro_formula fo matches m n transpositions =
     (let k = fl_of fo matches
      in fl_div fo
           (fl_add fo (fl_add fo (fl_div fo k (fl_of fo m)) (fl_div fo k (fl_of fo n)))
              (fl_div fo (fl_sub fo k (fl_div fo (fl_of fo transpositions) (fl_lit fo 20 1))) k))
           (fl_lit fo 30 1))"

definition jaro :: "'f float_ops \<Rightarrow> 'c list \<Rightarrow> 'c list \<Rightarrow> ('f, unit) result" where
  "jaro fo a b =
     (let m = length a; n = length b in
      if m = 0 \<and> n = 0 then Ok (fl_lit fo 10 1)
      else if m = 0 \<or> n = 0 then Ok (fl_lit fo 0 1)
      else let match_distance = max m n div 2 - 1;
               (a_matches, b_matches, matches) = match_loop a b match_distance [0..<m] (replicate m False, replicate n False, 0)
           in if matches = 0 then Ok (fl_lit fo 0 1)
              else rbind (transposition_loop a b a_matches b_matches [0..<m] 0 0) (\<lambda>transpositions. Ok (jaro_formula fo matches m n transpositions)))"

subsection \<open>The loops stay in range\<close>

definition trues :: "bool list \<Rightarrow> nat" where
  "trues bs = length (filter id bs)"

lemma trues_le: "trues bs \<le> length bs"
  by (simp add: trues_def)

lemma trues_update: "i < length bs \<Longrightarrow> \<not> bs ! i \<Longrightarrow> trues (bs[i := True]) = trues bs + 1"
  by (induction bs arbitrary: i) (auto simp: trues_def nth_Cons' split: if_splits nat.splits)

lemma find_match_Some:
  "find_match ai b bs js = Some j \<Longrightarrow> j \<in> set js \<and> \<not> bs ! j \<and> ai = b ! j"
  by (induction ai b bs js rule: find_match.induct) (auto split: if_splits)

definition matched_inv :: "'c list \<Rightarrow> 'c list \<Rightarrow> nat \<Rightarrow> bool list \<times> bool list \<times> nat \<Rightarrow> bool" where
  "matched_inv a b i s = (case s of (am, bm, k) \<Rightarrow>
     length am = length a \<and> length bm = length b \<and> trues am = k \<and> trues bm = k \<and> (\<forall>j. i \<le> j \<and> j < length a \<longrightarrow> \<not> am ! j))"

lemma match_loop_inv:
  assumes "matched_inv a b i s" and "i \<le> length a"
  shows "matched_inv a b (length a) (match_loop a b d [i..<length a] s)"
  using assms
proof (induction "length a - i" arbitrary: i s)
  case 0
  then show ?case by simp
next
  case (Suc x)
  obtain am bm k where s: "s = (am, bm, k)" by (cases s)
  let ?s = "case find_match (a ! i) b bm [i - d..<min (i + d + 1) (length b)] of
      Some j \<Rightarrow> (am[i := True], bm[j := True], k + 1) | None \<Rightarrow> (am, bm, k)"
  have i: "i < length a" using Suc.hyps(2) by simp
  have "matched_inv a b (Suc i) ?s"
    using Suc.prems(1) i by (auto simp: matched_inv_def s trues_update dest!: find_match_Some split: option.splits)
  then have "matched_inv a b (length a) (match_loop a b d [Suc i..<length a] ?s)" using Suc.hyps(1) [of "Suc i" ?s] Suc.hyps(2) i by simp
  moreover have "[i..<length a] = i # [Suc i..<length a]" using i by (rule upt_conv_Cons)
  ultimately show ?case by (simp add: s)
qed

definition trues_from :: "nat \<Rightarrow> bool list \<Rightarrow> nat" where
  "trues_from k bs = trues (drop k bs)"

lemma trues_from_step: "k < length bs \<Longrightarrow> trues_from k bs = (if bs ! k then 1 else 0) + trues_from (Suc k) bs"
  unfolding trues_from_def trues_def by (subst Cons_nth_drop_Suc [symmetric]) simp_all

lemma skip_unmatched_finds:
  "0 < trues_from k bs \<Longrightarrow> \<exists>j. skip_unmatched bs k = Some j \<and> bs ! j \<and> j < length bs \<and> trues_from (Suc j) bs + 1 = trues_from k bs"
proof (induction bs k rule: skip_unmatched.induct)
  case (1 bs k)
  then have "k < length bs" by (cases "k < length bs") (simp_all add: trues_from_def trues_def)
  then show ?case using 1 trues_from_step [of k bs] by (subst skip_unmatched.simps) auto
qed

lemma transposition_loop_Ok:
  assumes "trues_from i am \<le> trues_from k bm" and "length am = length a" "i \<le> length a"
  shows "\<exists>t'. transposition_loop a b am bm [i..<length a] k t = Ok t' \<and> t \<le> t' \<and> t' \<le> t + trues_from i am"
  using assms
proof (induction "length a - i" arbitrary: i k t)
  case 0
  then show ?case by simp
next
  case (Suc x)
  have i: "i < length a" "[i..<length a] = i # [Suc i..<length a]" using Suc.hyps(2) by (simp_all add: upt_conv_Cons)
  have x: "x = length a - Suc i" using Suc.hyps(2) by simp
  show ?case
  proof (cases "am ! i")
    case False
    then have "trues_from i am = trues_from (Suc i) am" using trues_from_step [of i am] i Suc.prems(2) by simp
    then show ?thesis using Suc.hyps(1) [of "Suc i" k t] Suc.hyps(2) Suc.prems i False by simp
  next
    case True
    then have ti: "trues_from i am = 1 + trues_from (Suc i) am" using trues_from_step [of i am] i Suc.prems(2) by simp
    then obtain j where j: "skip_unmatched bm k = Some j" "trues_from (Suc j) bm + 1 = trues_from k bm"
      using skip_unmatched_finds [of k bm] Suc.prems(1) by auto
    let ?t = "if a ! i \<noteq> b ! j then t + 1 else t"
    obtain t' where "transposition_loop a b am bm [Suc i..<length a] (j + 1) ?t = Ok t'" "?t \<le> t'" "t' \<le> ?t + trues_from (Suc i) am"
      using Suc.hyps(1) [OF x, of "j + 1" ?t] Suc.prems i ti j(2) by auto
    then show ?thesis using True j i ti by (auto split: if_splits)
  qed
qed

text \<open>The Jaro loops never leave their arrays: the measure returns for all words, and when it uses its formula the
  number of matches is between 1 and both lengths and there are no more transpositions than matches.\<close>

lemma jaro_total:
  "jaro fo a b = Ok (fl_lit fo 10 1) \<or> jaro fo a b = Ok (fl_lit fo 0 1)
   \<or> (\<exists>k t. jaro fo a b = Ok (jaro_formula fo k (length a) (length b) t) \<and> 1 \<le> k \<and> k \<le> length a \<and> k \<le> length b \<and> t \<le> k)"
proof (cases "length a = 0 \<or> length b = 0")
  case True
  then show ?thesis by (auto simp: jaro_def Let_def)
next
  case False
  let ?d = "max (length a) (length b) div 2 - 1"
  obtain am bm k where s: "match_loop a b ?d [0..<length a] (replicate (length a) False, replicate (length b) False, 0) = (am, bm, k)"
    by (cases "match_loop a b ?d [0..<length a] (replicate (length a) False, replicate (length b) False, 0)")
  have "matched_inv a b 0 (replicate (length a) False, replicate (length b) False, 0)" by (simp add: matched_inv_def trues_def)
  from match_loop_inv [OF this, of ?d] have inv: "length am = length a" "length bm = length b" "trues am = k" "trues bm = k"
    unfolding s by (simp_all add: matched_inv_def)
  obtain t where t: "transposition_loop a b am bm [0..<length a] 0 0 = Ok t" "t \<le> k"
    using transposition_loop_Ok [of 0 am 0 bm a b 0] inv by (auto simp: trues_from_def)
  show ?thesis
  proof (cases "k = 0")
    case True
    then show ?thesis using False s by (simp add: jaro_def Let_def)
  next
    case k: False
    then have "jaro fo a b = Ok (jaro_formula fo k (length a) (length b) t)" using False s t by (simp add: jaro_def Let_def)
    moreover have "k \<le> length a" "k \<le> length b" using inv trues_le [of am] trues_le [of bm] by simp_all
    ultimately show ?thesis using k t(2) by auto
  qed
qed

section \<open>Phonetic codes\<close>

text \<open>The scalar values of a string literal.\<close>

definition scalars :: "string \<Rightarrow> nat list" where
  "scalars s = map of_char s"

definition is_ascii_alphabetic :: "nat \<Rightarrow> bool" where
  "is_ascii_alphabetic c \<longleftrightarrow> (65 \<le> c \<and> c \<le> 90) \<or> (97 \<le> c \<and> c \<le> 122)"

definition to_ascii_uppercase :: "nat \<Rightarrow> nat" where
  "to_ascii_uppercase c = (if 97 \<le> c \<and> c \<le> 122 then c - 32 else c)"

definition one_of :: "nat \<Rightarrow> string \<Rightarrow> bool" where
  "one_of c s \<longleftrightarrow> c \<in> set (scalars s)"

definition soundex_digit :: "nat \<Rightarrow> nat" where
  "soundex_digit c =
     (if one_of c ''BFPV'' then of_char (CHR ''1'')
      else if one_of c ''CGJKQSXZ'' then of_char (CHR ''2'')
      else if one_of c ''DT'' then of_char (CHR ''3'')
      else if one_of c ''L'' then of_char (CHR ''4'')
      else if one_of c ''MN'' then of_char (CHR ''5'')
      else if one_of c ''R'' then of_char (CHR ''6'')
      else of_char (CHR ''0''))"

fun soundex_loop :: "nat list \<Rightarrow> nat list \<Rightarrow> nat \<Rightarrow> nat list" where
  "soundex_loop [] out prev_digit = out"
| "soundex_loop (c # cs) out prev_digit =
     (let d = soundex_digit c in
      if d = of_char (CHR ''0'')
      then (if one_of c ''HW'' then soundex_loop cs out prev_digit else soundex_loop cs out (of_char (CHR ''0'')))
      else if d \<noteq> prev_digit
      then (let out = out @ [d] in if length out = 4 then out else soundex_loop cs out d)
      else soundex_loop cs out d)"

definition soundex :: "nat list \<Rightarrow> nat list" where
  "soundex input =
     (let upper = map to_ascii_uppercase (filter is_ascii_alphabetic input) in
      case upper of
        [] \<Rightarrow> scalars ''0000''
      | first # rest \<Rightarrow>
          (let out = soundex_loop rest [first] (soundex_digit first)
           in out @ replicate (4 - length out) (of_char (CHR ''0''))))"

text \<open>The loop of \<^verbatim>\<open>metaphone\<close> at position \<open>i\<close>; a digraph consumes two characters, the next of the last one is a blank.\<close>

fun metaphone_loop :: "nat \<Rightarrow> nat list \<Rightarrow> nat list" where
  "metaphone_loop i [] = []"
| "metaphone_loop i (c # cs) =
     (let follow = (case cs of [] \<Rightarrow> of_char (CHR '' '') | x # _ \<Rightarrow> x);
          go = (\<lambda>s. scalars s @ metaphone_loop (i + 1) cs);
          digraph = (\<lambda>s. scalars s @ metaphone_loop (i + 2) (tl cs))
      in if one_of c ''AEIOU'' then (if i = 0 then c # metaphone_loop (i + 1) cs else metaphone_loop (i + 1) cs)
         else if one_of c ''C'' then (if one_of follow ''H'' then digraph ''X'' else if one_of follow ''IEY'' then go ''S'' else go ''K'')
         else if one_of c ''P'' then (if one_of follow ''H'' then digraph ''F'' else go ''P'')
         else if one_of c ''S'' then (if one_of follow ''H'' then digraph ''X'' else go ''S'')
         else if one_of c ''T'' then (if one_of follow ''H'' then digraph ''0'' else go ''T'')
         else if one_of c ''H'' then (if i = 0 then go ''H'' else go '''')
         else if one_of c ''WY'' then (if one_of follow ''AEIOU'' then c # metaphone_loop (i + 1) cs else metaphone_loop (i + 1) cs)
         else if one_of c ''D'' then go ''T''
         else if one_of c ''GKQ'' then go ''K''
         else if one_of c ''FV'' then go ''F''
         else if one_of c ''Z'' then go ''S''
         else if one_of c ''X'' then go ''KS''
         else if one_of c ''BJLMNR'' then c # metaphone_loop (i + 1) cs
         else metaphone_loop (i + 1) cs)"

fun collapse :: "nat option \<Rightarrow> nat list \<Rightarrow> nat list" where
  "collapse prev [] = []"
| "collapse prev (c # cs) = (if Some c \<noteq> prev then c # collapse (Some c) cs else collapse (Some c) cs)"

definition metaphone :: "nat list \<Rightarrow> nat list" where
  "metaphone input = collapse None (metaphone_loop 0 (map to_ascii_uppercase (filter is_ascii_alphabetic input)))"

lemma soundex_digit_range: "soundex_digit c \<in> {48..54}"
  by (simp add: soundex_digit_def)

definition code_extends :: "nat list \<Rightarrow> nat list \<Rightarrow> bool" where
  "code_extends out res \<longleftrightarrow> hd res = hd out \<and> length out \<le> length res \<and> length res \<le> 4 \<and> list_all (\<lambda>d. 49 \<le> d \<and> d \<le> 54) (tl res)"

lemma soundex_loop_shape:
  "1 \<le> length out \<Longrightarrow> length out < 4 \<Longrightarrow> list_all (\<lambda>d. 49 \<le> d \<and> d \<le> 54) (tl out) \<Longrightarrow> code_extends out (soundex_loop cs out p)"
proof (induction cs arbitrary: out p)
  case Nil
  then show ?case by (simp add: code_extends_def)
next
  case (Cons c cs)
  let ?d = "soundex_digit c"
  show ?case
  proof (cases "?d = 48 \<or> ?d = p")
    case True
    then show ?thesis using Cons by (auto simp: Let_def)
  next
    case False
    then have "49 \<le> ?d \<and> ?d \<le> 54" using soundex_digit_range [of c] by auto
    moreover have "out \<noteq> []" using Cons.prems(1) by auto
    ultimately have ok: "list_all (\<lambda>d. 49 \<le> d \<and> d \<le> 54) (tl (out @ [?d]))" "hd (out @ [?d]) = hd out" using Cons.prems(3) by simp_all
    show ?thesis
    proof (cases "length out = 3")
      case True
      then show ?thesis using False ok by (simp add: Let_def code_extends_def)
    next
      case small: False
      then have "code_extends (out @ [?d]) (soundex_loop cs (out @ [?d]) ?d)" using Cons.IH [of "out @ [?d]" ?d] Cons.prems ok by simp
      then show ?thesis using False small ok by (simp add: Let_def code_extends_def)
    qed
  qed
qed

text \<open>
  A Soundex code has four characters: the first letter of the name in upper case followed by three digits from 0 to 6,
  or 0000 when the name has no ASCII letter; it does not depend on case or on other characters.
\<close>

theorem soundex_shape:
  "length (soundex s) = 4
   \<and> (case filter is_ascii_alphabetic s of
        [] \<Rightarrow> soundex s = [48, 48, 48, 48]
      | c # _ \<Rightarrow> hd (soundex s) = to_ascii_uppercase c \<and> set (tl (soundex s)) \<subseteq> {48..54})
   \<and> soundex (map to_ascii_uppercase (filter is_ascii_alphabetic s)) = soundex s"
proof -
  let ?u = "map to_ascii_uppercase (filter is_ascii_alphabetic s)"
  have up: "is_ascii_alphabetic (to_ascii_uppercase c)" "to_ascii_uppercase (to_ascii_uppercase c) = to_ascii_uppercase c" if "is_ascii_alphabetic c" for c
    using that by (auto simp: is_ascii_alphabetic_def to_ascii_uppercase_def)
  have "map to_ascii_uppercase (filter is_ascii_alphabetic ?u) = ?u" by (induction s) (auto simp: up)
  then have same: "soundex ?u = soundex s" by (simp add: soundex_def Let_def)
  show ?thesis
  proof (cases "filter is_ascii_alphabetic s")
    case Nil
    then have "soundex s = [48, 48, 48, 48]" by (simp add: soundex_def scalars_def)
    then show ?thesis using Nil same by simp
  next
    case (Cons c cs)
    let ?out = "soundex_loop (map to_ascii_uppercase cs) [to_ascii_uppercase c] (soundex_digit (to_ascii_uppercase c))"
    have out: "hd ?out = to_ascii_uppercase c" "1 \<le> length ?out" "length ?out \<le> 4" "\<forall>d \<in> set (tl ?out). 49 \<le> d \<and> d \<le> 54"
      using soundex_loop_shape [of "[to_ascii_uppercase c]" "map to_ascii_uppercase cs" "soundex_digit (to_ascii_uppercase c)"]
      by (simp_all add: code_extends_def list_all_iff)
    have "soundex s = ?out @ replicate (4 - length ?out) 48" using Cons by (simp add: soundex_def Let_def)
    moreover have "?out \<noteq> []" using out(2) by auto
    ultimately have "length (soundex s) = 4" "hd (soundex s) = to_ascii_uppercase c" "set (tl (soundex s)) \<subseteq> {48..54}"
      using out by (auto simp: subset_iff le_Suc_eq)
    then show ?thesis using Cons same by simp
  qed
qed

text \<open>Two names without ASCII letters always sound alike.\<close>

lemma soundex_of_no_letters:
  "filter is_ascii_alphabetic s = [] \<Longrightarrow> filter is_ascii_alphabetic t = [] \<Longrightarrow> soundex s = soundex t \<and> metaphone s = metaphone t"
  by (simp add: soundex_def metaphone_def)

lemma collapse_no_runs: "distinct_adj (collapse p xs) \<and> (collapse p xs \<noteq> [] \<longrightarrow> Some (hd (collapse p xs)) \<noteq> p)"
  by (induction p xs rule: collapse.induct) (auto simp: distinct_adj_Cons)

end
