(* ===== verification/Screening_Score.thy ===== *)
theory Screening_Score
  imports Screening_Match Complex_Main
begin

text \<open>
  The similarity scores of \<^verbatim>\<open>op-screening/src/matching.rs\<close>: Jaro-Winkler, token overlap and the weighted blend of all
  measures, over any operations on single-precision numbers.
  Shown: the blend never panics, and in exact arithmetic it lies between 0 and 1 and reaches 1 only on equal names.
\<close>

type_synonym str = "nat list"

section \<open>Tokens\<close>

definition is_whitespace :: "nat \<Rightarrow> bool" where
  "is_whitespace c \<longleftrightarrow> (9 \<le> c \<and> c \<le> 13) \<or> (8192 \<le> c \<and> c \<le> 8202) \<or> c \<in> {32, 133, 160, 5760, 8232, 8233, 8239, 8287, 12288}"

text \<open>\<^verbatim>\<open>str::split_whitespace\<close>: the maximal runs of other characters.\<close>

fun split_whitespace_from :: "str \<Rightarrow> str \<Rightarrow> str list" where
  "split_whitespace_from tok [] = (if tok = [] then [] else [tok])"
| "split_whitespace_from tok (c # cs) =
     (if is_whitespace c then (if tok = [] then split_whitespace_from [] cs else tok # split_whitespace_from [] cs)
      else split_whitespace_from (tok @ [c]) cs)"

definition split_whitespace :: "str \<Rightarrow> str list" where
  "split_whitespace s = split_whitespace_from [] s"

section \<open>Scores\<close>

definition shared_prefix :: "str \<Rightarrow> str \<Rightarrow> nat" where
  "shared_prefix a b = length (takeWhile (\<lambda>(x, y). x = y) (take 4 (zip a b)))"

definition jaro_winkler :: "'f float_ops \<Rightarrow> str \<Rightarrow> str \<Rightarrow> ('f, unit) result" where
  "jaro_winkler fo a b =
     rbind (jaro fo a b) (\<lambda>base.
       Ok (fl_add fo base (fl_mul fo (fl_mul fo (fl_of fo (shared_prefix a b)) (fl_lit fo 1 1)) (fl_sub fo (fl_lit fo 10 1) base))))"

text \<open>The two \<^verbatim>\<open>HashSet\<close>s are the sets of tokens; the union of two sets that are not both empty is never empty.\<close>

definition token_jaccard :: "'f float_ops \<Rightarrow> str \<Rightarrow> str \<Rightarrow> 'f" where
  "token_jaccard fo a b =
     (let a_set = set (split_whitespace a); b_set = set (split_whitespace b)
      in if a_set = {} \<and> b_set = {} then fl_lit fo 10 1
         else fl_div fo (fl_of fo (card (a_set \<inter> b_set))) (fl_of fo (card (a_set \<union> b_set))))"

definition combined_score :: "'f float_ops \<Rightarrow> str \<Rightarrow> str \<Rightarrow> ('f, unit) result" where
  "combined_score fo query candidate =
     (let lev = levenshtein query candidate;
          max_len = max (max (length query) (length candidate)) 1;
          lev_norm = fl_sub fo (fl_lit fo 10 1) (fl_div fo (fl_of fo lev) (fl_of fo max_len))
      in rbind (jaro_winkler fo query candidate) (\<lambda>jw.
           let jac = token_jaccard fo query candidate;
               phon = (if soundex query = soundex candidate \<or> metaphone query = metaphone candidate then fl_lit fo 10 1 else fl_lit fo 0 1)
           in Ok (fl_add fo
                (fl_add fo (fl_add fo (fl_mul fo (fl_lit fo 20 2) lev_norm) (fl_mul fo (fl_lit fo 45 2) jw)) (fl_mul fo (fl_lit fo 25 2) jac))
                (fl_mul fo (fl_lit fo 10 2) phon))))"

section \<open>Range of the blend\<close>

lemma combined_score_Ok: "\<exists>s. combined_score fo a b = Ok s"
  using jaro_total [of fo a b] by (auto simp: combined_score_def jaro_winkler_def Let_def)

text \<open>Exact arithmetic: what the formulas mean when nothing is rounded.\<close>

definition exact :: "rat float_ops" where
  "exact = \<lparr>fl_lit = (\<lambda>n k. of_nat n / 10 ^ k), fl_of = of_nat, fl_add = (+), fl_sub = (-), fl_mul = (*), fl_div = (/), fl_gt = (\<lambda>a b. b < a), fl_ge = (\<lambda>a b. b \<le> a)\<rparr>"

lemmas exact_simps = exact_def Let_def

lemma ratio_range: "k \<le> n \<Longrightarrow> 0 \<le> (of_nat k :: rat) / of_nat n \<and> (of_nat k :: rat) / of_nat n \<le> 1"
  by (cases "n = 0") simp_all

lemma jaro_formula_range:
  assumes "1 \<le> k" "k \<le> m" "k \<le> n" "t \<le> k"
  shows "0 \<le> jaro_formula exact k m n t \<and> jaro_formula exact k m n t \<le> 1"
proof -
  have "0 \<le> (of_nat k - of_nat t / 2 :: rat) / of_nat k" "(of_nat k - of_nat t / 2 :: rat) / of_nat k \<le> 1"
    using assms(1,4) by (simp_all add: divide_le_eq)
  then show ?thesis using ratio_range [OF assms(2)] ratio_range [OF assms(3)] by (simp add: jaro_formula_def exact_simps)
qed

lemma jaro_range: "\<exists>s. jaro exact a b = Ok s \<and> 0 \<le> s \<and> s \<le> 1"
  using jaro_total [of exact a b] by (auto simp: jaro_formula_range) (auto simp: exact_def)

lemma shared_prefix_le: "shared_prefix a b \<le> 4"
proof -
  have "shared_prefix a b \<le> length (take 4 (zip a b))" unfolding shared_prefix_def by (rule length_takeWhile_le)
  then show ?thesis by simp
qed

lemma boost_range:
  assumes "0 \<le> s" "s \<le> (1 :: rat)" "p \<le> 4"
  shows "0 \<le> s + of_nat p * (1 / 10) * (1 - s) \<and> s + of_nat p * (1 / 10) * (1 - s) \<le> 1"
proof -
  have "of_nat p * (1 / 10) \<le> (1 :: rat)" using assms(3) by simp
  then have "of_nat p * (1 / 10) * (1 - s) \<le> 1 * (1 - s)" using assms(2) by (intro mult_right_mono) simp_all
  moreover have "0 \<le> of_nat p * (1 / 10) * (1 - s)" using assms(2) by simp
  moreover have "0 \<le> s + x \<and> s + x \<le> 1" if "x \<le> 1 * (1 - s)" "0 \<le> x" for x using that assms(1) by simp
  ultimately show ?thesis by blast
qed

lemma jaro_winkler_range: "\<exists>s. jaro_winkler exact a b = Ok s \<and> 0 \<le> s \<and> s \<le> 1"
proof -
  obtain s where "jaro exact a b = Ok s" "0 \<le> s" "s \<le> 1" using jaro_range by blast
  then show ?thesis using boost_range [of s "shared_prefix a b"] shared_prefix_le [of a b] by (simp add: jaro_winkler_def exact_simps)
qed

lemma token_jaccard_range: "0 \<le> token_jaccard exact a b \<and> token_jaccard exact a b \<le> 1"
proof -
  have "card (set (split_whitespace a) \<inter> set (split_whitespace b)) \<le> card (set (split_whitespace a) \<union> set (split_whitespace b))"
    by (rule card_mono) auto
  then show ?thesis using ratio_range by (simp add: token_jaccard_def exact_simps)
qed

lemma prefix_cost_le: "prefix_cost a b i j \<le> max i j"
  by (induction a b i j rule: prefix_cost.induct) (auto simp: min_def max_def split: if_splits)

lemma levenshtein_le: "levenshtein a b \<le> max (length a) (length b)"
  unfolding levenshtein_eq_cost by (rule prefix_cost_le)

lemma blend_range:
  assumes "0 \<le> l" "l \<le> 1" "0 \<le> jw" "jw \<le> 1" "0 \<le> jac" "jac \<le> 1" "0 \<le> phon" "phon \<le> (1 :: rat)"
  shows "0 \<le> 20 / 100 * (1 - l) + 45 / 100 * jw + 25 / 100 * jac + 10 / 100 * phon"
    and "20 / 100 * (1 - l) + 45 / 100 * jw + 25 / 100 * jac + 10 / 100 * phon \<le> 1"
    and "0 < l \<Longrightarrow> 20 / 100 * (1 - l) + 45 / 100 * jw + 25 / 100 * jac + 10 / 100 * phon < 1"
  using assms by (simp_all add: field_simps)

text \<open>
  The blended score never panics, and in exact arithmetic it is what its documentation says: it lies between 0 and 1,
  and only equal names reach 1.
\<close>

theorem combined_score_range: "\<exists>s. combined_score exact a b = Ok s \<and> 0 \<le> s \<and> s \<le> 1 \<and> (s < 1 \<or> a = b)"
proof -
  obtain jw where jw: "jaro_winkler exact a b = Ok jw" "0 \<le> jw" "jw \<le> 1" using jaro_winkler_range by blast
  let ?n = "max (max (length a) (length b)) 1"
  let ?lev = "(of_nat (levenshtein a b) :: rat) / of_nat ?n"
  have lev: "0 \<le> ?lev" "?lev \<le> 1" using ratio_range [of "levenshtein a b" ?n] levenshtein_le [of a b] by simp_all
  have eq: "0 < ?lev \<or> a = b" using levenshtein_zero [of a b] by (auto simp: zero_less_divide_iff)
  let ?phon = "if soundex a = soundex b \<or> metaphone a = metaphone b then 1 else 0 :: rat"
  let ?s = "20 / 100 * (1 - ?lev) + 45 / 100 * jw + 25 / 100 * token_jaccard exact a b + 10 / 100 * ?phon"
  have "combined_score exact a b = Ok ?s" using jw(1) by (simp add: combined_score_def exact_simps del: of_nat_max)
  moreover have "0 \<le> ?phon" "?phon \<le> 1" by simp_all
  note range = blend_range [OF lev jw(2,3) conjunct1 [OF token_jaccard_range] conjunct2 [OF token_jaccard_range] this]
  have "0 \<le> ?s" "?s \<le> 1" "?s < 1 \<or> a = b" using range(1,2) range(3) eq by blast+
  ultimately show ?thesis by blast
qed

end
