(* ===== verification/Screening_Index.thy ===== *)
theory Screening_Index
  imports Screening_Score Bytes Hash_Map
begin

text \<open>
  The sanctions index of \<^verbatim>\<open>op-screening\<close>: list entries (\<^verbatim>\<open>lists.rs\<close>), name normalisation (\<^verbatim>\<open>normalize.rs\<close>), the Bloom filter
  and the inverted index (\<^verbatim>\<open>storage.rs\<close>), and the screening of a query against it (\<^verbatim>\<open>matching.rs\<close>).  A \<^verbatim>\<open>&str\<close> is a list of scalar values.
  The Unicode tables, the keyed hash and the single-precision operations are parameters; snapshots on disk are left out.
  Shown: the index with its Bloom filter finds exactly the entries that share a token with the query, as a scan of the
  list would.
\<close>

section \<open>List entries\<close>

datatype sanctions_list = OfacSdn | OfacConsolidated | EuConsolidated | UnConsolidated | HmtUk | AustraliaDfat | CanadaSema | JapanMof

fun list_label :: "sanctions_list \<Rightarrow> string" where
  "list_label OfacSdn = ''OFAC SDN''"
| "list_label OfacConsolidated = ''OFAC Consolidated''"
| "list_label EuConsolidated = ''EU Consolidated''"
| "list_label UnConsolidated = ''UN Consolidated''"
| "list_label HmtUk = ''HMT UK''"
| "list_label AustraliaDfat = ''Australia DFAT''"
| "list_label CanadaSema = ''Canada SEMA''"
| "list_label JapanMof = ''Japan MOF''"

datatype entity_type = Individual | Entity | Vessel | Aircraft

record list_address =
  la_street :: "str option"
  la_city :: "str option"
  la_region :: "str option"
  la_postal_code :: "str option"
  la_country :: "str option"

datatype identification_kind = NationalIdKind | Passport | DriversLicence | TaxIdKind | Imo | AircraftTail | OtherKind

record identification =
  id_kind :: identification_kind
  id_label :: "str option"
  id_value :: str
  id_country :: "str option"

record sanctioned_entity =
  se_id :: str
  se_name :: str
  se_name_aliases :: "str list"
  se_entity_type :: entity_type
  se_dob :: "int option"
  se_place_of_birth :: "str option"
  se_addresses :: "list_address list"
  se_nationalities :: "str list"
  se_identifications :: "identification list"
  se_programs :: "str list"
  se_last_updated :: nat
  se_source_list :: sanctions_list

section \<open>Normalisation\<close>

text \<open>The tables of the Unicode standard the code consults: \<^verbatim>\<open>nfkd\<close>, the first character of \<^verbatim>\<open>to_lowercase\<close>, \<^verbatim>\<open>is_alphanumeric\<close>,
  and \<^verbatim>\<open>str::to_lowercase\<close>.\<close>

record unicode =
  uc_nfkd :: "str \<Rightarrow> str"
  uc_lower :: "nat \<Rightarrow> nat"
  uc_alphanumeric :: "nat \<Rightarrow> bool"
  uc_lower_str :: "str \<Rightarrow> str"

definition is_combining_mark :: "nat \<Rightarrow> bool" where
  "is_combining_mark c \<longleftrightarrow> (0x0300 \<le> c \<and> c \<le> 0x036F) \<or> (0x1AB0 \<le> c \<and> c \<le> 0x1AFF) \<or> (0x1DC0 \<le> c \<and> c \<le> 0x1DFF)
     \<or> (0x20D0 \<le> c \<and> c \<le> 0x20FF) \<or> (0xFE20 \<le> c \<and> c \<le> 0xFE2F)"

definition transliteration :: "(nat \<times> nat) list" where
  "transliteration =
     [(1072, 97), (1073, 98), (1074, 118), (1075, 103), (1076, 100), (1077, 101), (1105, 101), (1079, 122), (1080, 105), (1081, 105),
      (1082, 107), (1083, 108), (1084, 109), (1085, 110), (1086, 111), (1087, 112), (1088, 114), (1089, 115), (1090, 116), (1091, 117),
      (1092, 102), (1093, 104), (1099, 121), (1101, 101), (1575, 97), (1576, 98), (1578, 116), (1583, 100), (1585, 114), (1586, 122),
      (1587, 115), (1601, 102), (1603, 107), (1604, 108), (1605, 109), (1606, 110), (1607, 104), (1610, 121)]"

definition transliterate :: "nat \<Rightarrow> nat" where
  "transliterate c = (case map_of transliteration c of Some d \<Rightarrow> d | None \<Rightarrow> c)"

definition abbreviations :: "(string \<times> string) list" where
  "abbreviations =
     [(''co'', ''company''), (''corp'', ''corporation''), (''inc'', ''incorporated''), (''incorp'', ''incorporated''), (''ltd'', ''limited''),
      (''llc'', ''limited liability company''), (''llp'', ''limited liability partnership''), (''lp'', ''limited partnership''),
      (''plc'', ''public limited company''), (''gmbh'', ''gesellschaft''), (''ag'', ''aktiengesellschaft''), (''sa'', ''societe anonyme''),
      (''srl'', ''societa a responsabilita limitata''), (''bv'', ''besloten vennootschap''), (''ab'', ''aktiebolag''),
      (''as'', ''aksjeselskap''), (''oy'', ''osakeyhtio'')]"

definition expand_abbreviation :: "str \<Rightarrow> str" where
  "expand_abbreviation tok = (case find (\<lambda>(k, v). scalars k = tok) abbreviations of Some (k, v) \<Rightarrow> scalars v | None \<Rightarrow> tok)"

fun squash :: "unicode \<Rightarrow> bool \<Rightarrow> str \<Rightarrow> str" where
  "squash uc last_was_space [] = []"
| "squash uc last_was_space (c # cs) =
     (let lower = uc_lower uc c in
      if uc_alphanumeric uc lower then transliterate lower # squash uc False cs
      else if \<not> last_was_space then 32 # squash uc True cs
      else squash uc last_was_space cs)"

fun join_with_space :: "str list \<Rightarrow> str" where
  "join_with_space [] = []"
| "join_with_space [t] = t"
| "join_with_space (t # ts) = t @ 32 # join_with_space ts"

text \<open>\<^verbatim>\<open>trim\<close> before \<^verbatim>\<open>split_whitespace\<close> changes nothing.\<close>

definition normalize :: "unicode \<Rightarrow> str \<Rightarrow> str" where
  "normalize uc input =
     (let decomposed = filter (\<lambda>c. \<not> is_combining_mark c) (uc_nfkd uc input);
          squashed = squash uc True decomposed
      in join_with_space (map expand_abbreviation (split_whitespace squashed)))"

section \<open>Bloom filter\<close>

type_synonym bloom = "64 word list"

definition BLOOM_BITS :: nat where "BLOOM_BITS = 4096"
definition BLOOM_WORDS :: nat where "BLOOM_WORDS = BLOOM_BITS div 64"

definition bloom_new :: bloom where
  "bloom_new = replicate BLOOM_WORDS 0"

text \<open>\<^verbatim>\<open>u64::from_le_bytes\<close> of the first eight bytes of a digest.\<close>

definition le_u64 :: "byte list \<Rightarrow> nat" where
  "le_u64 bs = foldr (\<lambda>b acc. acc * 256 + unat b) (take 8 bs) 0"

definition bloom_hashes :: "(byte \<Rightarrow> str \<Rightarrow> byte list) \<Rightarrow> str \<Rightarrow> nat \<times> nat" where
  "bloom_hashes keyed_hash token = (le_u64 (keyed_hash 1 token) mod BLOOM_BITS, le_u64 (keyed_hash 2 token) mod BLOOM_BITS)"

definition set_bit_at :: "nat \<Rightarrow> bloom \<Rightarrow> bloom" where
  "set_bit_at h bits = bits[h div 64 := bits ! (h div 64) OR push_bit (h mod 64) 1]"

definition bloom_insert :: "(byte \<Rightarrow> str \<Rightarrow> byte list) \<Rightarrow> str \<Rightarrow> bloom \<Rightarrow> bloom" where
  "bloom_insert kh token bits = (let (h1, h2) = bloom_hashes kh token in set_bit_at h2 (set_bit_at h1 bits))"

definition might_contain :: "(byte \<Rightarrow> str \<Rightarrow> byte list) \<Rightarrow> bloom \<Rightarrow> str \<Rightarrow> bool" where
  "might_contain kh bits token =
     (let (h1, h2) = bloom_hashes kh token
      in bits ! (h1 div 64) AND push_bit (h1 mod 64) 1 \<noteq> 0 \<and> bits ! (h2 div 64) AND push_bit (h2 mod 64) 1 \<noteq> 0)"

section \<open>Index\<close>

record sanctions_index =
  ix_bloom :: bloom
  ix_by_name :: "(str, str list) hashmap"
  ix_by_id :: "(str, sanctioned_entity) hashmap"

definition index_default :: sanctions_index where
  "index_default = \<lparr>ix_bloom = bloom_new, ix_by_name = [], ix_by_id = []\<rparr>"

definition index_token :: "(byte \<Rightarrow> str \<Rightarrow> byte list) \<Rightarrow> str \<Rightarrow> str \<Rightarrow> sanctions_index \<Rightarrow> sanctions_index" where
  "index_token kh i token ix =
     ix\<lparr>ix_bloom := bloom_insert kh token (ix_bloom ix),
        ix_by_name := hm_insert token ((case hm_get (ix_by_name ix) token of Some v \<Rightarrow> v | None \<Rightarrow> []) @ [i]) (ix_by_name ix)\<rparr>"

definition entity_tokens :: "unicode \<Rightarrow> sanctioned_entity \<Rightarrow> str list" where
  "entity_tokens uc e = concat (map (\<lambda>name. split_whitespace (normalize uc name)) (se_name e # se_name_aliases e))"

definition index_insert :: "unicode \<Rightarrow> (byte \<Rightarrow> str \<Rightarrow> byte list) \<Rightarrow> sanctioned_entity \<Rightarrow> sanctions_index \<Rightarrow> sanctions_index" where
  "index_insert uc kh e ix =
     (let ix = fold (index_token kh (se_id e)) (entity_tokens uc e) ix
      in ix\<lparr>ix_by_id := hm_insert (se_id e) e (ix_by_id ix)\<rparr>)"

definition index_build :: "unicode \<Rightarrow> (byte \<Rightarrow> str \<Rightarrow> byte list) \<Rightarrow> sanctioned_entity list \<Rightarrow> sanctions_index" where
  "index_build uc kh es = fold (index_insert uc kh) es index_default"

definition index_len :: "sanctions_index \<Rightarrow> nat" where
  "index_len ix = length (ix_by_id ix)"

text \<open>A \<^verbatim>\<open>HashSet\<close> is a list without repetitions; nothing may depend on its order.\<close>

definition add_token_candidates :: "(byte \<Rightarrow> str \<Rightarrow> byte list) \<Rightarrow> sanctions_index \<Rightarrow> str \<Rightarrow> str list \<Rightarrow> str list" where
  "add_token_candidates kh ix token out =
     (if \<not> might_contain kh (ix_bloom ix) token then out
      else case hm_get (ix_by_name ix) token of Some refs \<Rightarrow> fold List.insert refs out | None \<Rightarrow> out)"

definition candidate_ids :: "(byte \<Rightarrow> str \<Rightarrow> byte list) \<Rightarrow> sanctions_index \<Rightarrow> str \<Rightarrow> str list" where
  "candidate_ids kh ix query = fold (add_token_candidates kh ix) (split_whitespace query) []"

section \<open>Screening\<close>

datatype match_method = Exact | Levenshtein | JaroWinkler | Phonetic | TokenJaccard | Combined

datatype matched_field = PrimaryName | Alias | IdentificationField

record 'f match_score =
  ms_entity :: sanctioned_entity
  ms_score :: 'f
  ms_method :: match_method
  ms_field :: matched_field

fun score_aliases :: "unicode \<Rightarrow> 'f float_ops \<Rightarrow> str \<Rightarrow> str list \<Rightarrow> 'f \<times> match_method \<times> matched_field \<Rightarrow> ('f \<times> match_method \<times> matched_field, unit) result" where
  "score_aliases uc fo q [] best = Ok best"
| "score_aliases uc fo q (alias # as) best =
     (let norm = normalize uc alias in
      rbind (combined_score fo q norm) (\<lambda>s.
        score_aliases uc fo q as
          (if norm = q \<and> fl_gt fo (fl_lit fo 10 1) (fst best) then (fl_lit fo 10 1, Exact, Alias)
           else if fl_gt fo s (fst best) then (s, Combined, Alias)
           else best)))"

fun score_identifications :: "unicode \<Rightarrow> 'f float_ops \<Rightarrow> str \<Rightarrow> identification list \<Rightarrow> 'f \<times> match_method \<times> matched_field \<Rightarrow> 'f \<times> match_method \<times> matched_field" where
  "score_identifications uc fo q [] best = best"
| "score_identifications uc fo q (d # ds) best =
     score_identifications uc fo q ds (if uc_lower_str uc (id_value d) = q then (fl_lit fo 10 1, Exact, IdentificationField) else best)"

definition score_entity :: "unicode \<Rightarrow> 'f float_ops \<Rightarrow> str \<Rightarrow> sanctioned_entity \<Rightarrow> ('f \<times> match_method \<times> matched_field, unit) result" where
  "score_entity uc fo q e =
     (let best = (fl_lit fo 0 1, Combined, PrimaryName); norm = normalize uc (se_name e) in
      rbind (combined_score fo q norm) (\<lambda>s.
        let best = (if norm = q then (fl_lit fo 10 1, Exact, PrimaryName)
                    else if fl_gt fo s (fst best) then (s, Combined, PrimaryName)
                    else best)
        in rbind (score_aliases uc fo q (se_name_aliases e) best) (\<lambda>best.
             Ok (score_identifications uc fo q (se_identifications e) best))))"

text \<open>\<^verbatim>\<open>sort_by\<close> with the scores compared in descending order: stable, and incomparable scores count as equal.\<close>

fun insert_by_score :: "'f float_ops \<Rightarrow> 'f match_score \<Rightarrow> 'f match_score list \<Rightarrow> 'f match_score list" where
  "insert_by_score fo h [] = [h]"
| "insert_by_score fo h (x # xs) = (if fl_gt fo (ms_score x) (ms_score h) then x # insert_by_score fo h xs else h # x # xs)"

definition sort_by_score :: "'f float_ops \<Rightarrow> 'f match_score list \<Rightarrow> 'f match_score list" where
  "sort_by_score fo hs = foldr (insert_by_score fo) hs []"

fun collect_hits :: "unicode \<Rightarrow> 'f float_ops \<Rightarrow> sanctions_index \<Rightarrow> str \<Rightarrow> 'f \<Rightarrow> str list \<Rightarrow> ('f match_score list, unit) result" where
  "collect_hits uc fo ix q threshold [] = Ok []"
| "collect_hits uc fo ix q threshold (i # is) =
     (case hm_get (ix_by_id ix) i of
        None \<Rightarrow> collect_hits uc fo ix q threshold is
      | Some e \<Rightarrow>
          rbind (score_entity uc fo q e) (\<lambda>(score, meth, fld).
          rbind (collect_hits uc fo ix q threshold is) (\<lambda>hits.
            Ok (if fl_ge fo score threshold
                then \<lparr>ms_entity = e, ms_score = score, ms_method = meth, ms_field = fld\<rparr> # hits
                else hits))))"

definition screen :: "unicode \<Rightarrow> (byte \<Rightarrow> str \<Rightarrow> byte list) \<Rightarrow> 'f float_ops \<Rightarrow> str \<Rightarrow> sanctions_index \<Rightarrow> 'f \<Rightarrow> ('f match_score list, unit) result" where
  "screen uc kh fo query ix threshold =
     (let q = normalize uc query
      in rbind (collect_hits uc fo ix q threshold (candidate_ids kh ix q)) (\<lambda>hits. Ok (sort_by_score fo hits)))"

section \<open>The filter has no false negatives\<close>

lemma and_push_bit: "(x :: 64 word) AND push_bit n 1 \<noteq> 0 \<longleftrightarrow> bit x n"
  by (simp add: push_bit_eq_mult and_exp_eq_0_iff_not_bit)

definition has_bit :: "bloom \<Rightarrow> nat \<Rightarrow> bool" where
  "has_bit bits h \<longleftrightarrow> bit (bits ! (h div 64)) (h mod 64)"

lemma hash_in_range: "fst (bloom_hashes kh t) < 4096" "snd (bloom_hashes kh t) < 4096"
  by (simp_all add: bloom_hashes_def BLOOM_BITS_def)

lemma might_contain_bits: "might_contain kh bits t \<longleftrightarrow> has_bit bits (fst (bloom_hashes kh t)) \<and> has_bit bits (snd (bloom_hashes kh t))"
  by (cases "bloom_hashes kh t") (simp add: might_contain_def has_bit_def and_push_bit del: push_bit_of_1)

lemma set_bit_at_length [simp]: "length (set_bit_at h bits) = length bits"
  by (simp add: set_bit_at_def)

lemma has_bit_set: "length bits = 64 \<Longrightarrow> h < 4096 \<Longrightarrow> has_bit (set_bit_at h bits) h"
  by (simp add: has_bit_def set_bit_at_def bit_or_iff bit_exp_iff)

lemma has_bit_mono: "has_bit bits k \<Longrightarrow> has_bit (set_bit_at h bits) k"
  by (cases "h div 64 < length bits") (auto simp: has_bit_def set_bit_at_def nth_list_update bit_or_iff list_update_beyond)

lemma bloom_insert_contains: "length bits = 64 \<Longrightarrow> might_contain kh (bloom_insert kh t bits) t"
  using hash_in_range [of kh t] by (cases "bloom_hashes kh t") (simp add: might_contain_bits bloom_insert_def has_bit_set has_bit_mono)

lemma bloom_insert_mono: "might_contain kh bits t \<Longrightarrow> might_contain kh (bloom_insert kh u bits) t"
  by (simp add: might_contain_bits bloom_insert_def Let_def has_bit_mono split: prod.split)

lemma bloom_insert_length [simp]: "length (bloom_insert kh t bits) = length bits"
  by (simp add: bloom_insert_def Let_def split: prod.split)

section \<open>The index agrees with a scan\<close>

definition refs_of :: "sanctions_index \<Rightarrow> str \<Rightarrow> str list" where
  "refs_of ix t = (case hm_get (ix_by_name ix) t of Some v \<Rightarrow> v | None \<Rightarrow> [])"

definition filtered_ok :: "(byte \<Rightarrow> str \<Rightarrow> byte list) \<Rightarrow> sanctions_index \<Rightarrow> bool" where
  "filtered_ok kh ix \<longleftrightarrow> length (ix_bloom ix) = 64 \<and> (\<forall>t. refs_of ix t \<noteq> [] \<longrightarrow> might_contain kh (ix_bloom ix) t)"

lemma refs_of_token: "refs_of (index_token kh i t ix) u = (if u = t then refs_of ix u @ [i] else refs_of ix u)"
  by (simp add: refs_of_def index_token_def)

lemma index_token_ok: "filtered_ok kh ix \<Longrightarrow> filtered_ok kh (index_token kh i t ix)"
  unfolding filtered_ok_def refs_of_token
  by (auto simp: index_token_def intro: bloom_insert_contains bloom_insert_mono split: if_splits)

lemma index_tokens:
  "filtered_ok kh ix \<Longrightarrow> filtered_ok kh (fold (index_token kh i) ts ix)
     \<and> (\<forall>u. set (refs_of (fold (index_token kh i) ts ix) u) = set (refs_of ix u) \<union> (if u \<in> set ts then {i} else {}))
     \<and> ix_by_id (fold (index_token kh i) ts ix) = ix_by_id ix"
proof (induction ts arbitrary: ix)
  case (Cons t ts)
  have "ix_by_id (index_token kh i t ix) = ix_by_id ix" by (simp add: index_token_def)
  then show ?case using Cons.IH [OF index_token_ok [OF Cons.prems, of i t]] by (auto simp: refs_of_token split: if_splits)
qed simp

definition indexed :: "unicode \<Rightarrow> (byte \<Rightarrow> str \<Rightarrow> byte list) \<Rightarrow> sanctioned_entity list \<Rightarrow> sanctions_index \<Rightarrow> bool" where
  "indexed uc kh es ix \<longleftrightarrow> filtered_ok kh ix
     \<and> (\<forall>u i. i \<in> set (refs_of ix u) \<longleftrightarrow> (\<exists>e \<in> set es. se_id e = i \<and> u \<in> set (entity_tokens uc e)))
     \<and> (\<forall>i. hm_get (ix_by_id ix) i = find (\<lambda>e. se_id e = i) (rev es))"

lemma index_insert_indexed: "indexed uc kh es ix \<Longrightarrow> indexed uc kh (es @ [e]) (index_insert uc kh e ix)"
  using index_tokens [of kh ix "se_id e" "entity_tokens uc e"]
  unfolding indexed_def index_insert_def Let_def by (auto simp: refs_of_def filtered_ok_def split: if_splits)

lemma index_build_indexed: "indexed uc kh es (index_build uc kh es)"
proof (induction es rule: rev_induct)
  case Nil
  then show ?case
    by (simp add: indexed_def index_build_def index_default_def filtered_ok_def refs_of_def bloom_new_def BLOOM_WORDS_def BLOOM_BITS_def)
next
  case (snoc e es)
  then show ?case using index_insert_indexed [of uc kh es "index_build uc kh es" e] by (simp add: index_build_def)
qed

lemma fold_insert_set: "set (fold List.insert xs out) = set xs \<union> set out"
  by (induction xs arbitrary: out) auto

lemma candidates_refs:
  assumes "filtered_ok kh ix"
  shows "set (candidate_ids kh ix q) = (\<Union>t \<in> set (split_whitespace q). set (refs_of ix t))"
proof -
  have "refs_of ix t = []" if "\<not> might_contain kh (ix_bloom ix) t" for t using assms that unfolding filtered_ok_def by blast
  then have "set (add_token_candidates kh ix t out) = set (refs_of ix t) \<union> set out" for t out
    by (cases "might_contain kh (ix_bloom ix) t") (auto simp: add_token_candidates_def refs_of_def fold_insert_set split: option.split)
  then have "set (fold (add_token_candidates kh ix) ts out) = (\<Union>t \<in> set ts. set (refs_of ix t)) \<union> set out" for ts out
    by (induction ts arbitrary: out) auto
  then show ?thesis by (simp add: candidate_ids_def)
qed

lemma candidates_exact:
  "i \<in> set (candidate_ids kh (index_build uc kh es) q) \<longleftrightarrow>
     (\<exists>e \<in> set es. se_id e = i \<and> set (entity_tokens uc e) \<inter> set (split_whitespace q) \<noteq> {})"
proof -
  have "indexed uc kh es (index_build uc kh es)" by (rule index_build_indexed)
  then have "filtered_ok kh (index_build uc kh es)" "\<And>u. i \<in> set (refs_of (index_build uc kh es) u) \<longleftrightarrow> (\<exists>e \<in> set es. se_id e = i \<and> u \<in> set (entity_tokens uc e))"
    by (simp_all add: indexed_def)
  then show ?thesis using candidates_refs [of kh "index_build uc kh es" q] by auto
qed

lemma insert_by_score_set [simp]: "set (insert_by_score fo h xs) = insert h (set xs)"
  by (induction xs) auto

lemma sort_by_score_set [simp]: "set (sort_by_score fo xs) = set xs"
  by (induction xs) (auto simp: sort_by_score_def)

lemma score_aliases_Ok: "\<exists>best'. score_aliases uc fo q as best = Ok best'"
proof (induction "as" arbitrary: best)
  case (Cons a "as")
  then show ?case unfolding score_aliases.simps Let_def by (intro rbind_returns combined_score_Ok) assumption
qed (simp del: split_paired_Ex)

lemma score_entity_Ok: "\<exists>s. score_entity uc fo q e = Ok s"
  unfolding score_entity_def Let_def by (intro rbind_returns combined_score_Ok score_aliases_Ok) (rule exI, rule refl)

lemma set_map_filter: "set (List.map_filter f xs) = {y. \<exists>x \<in> set xs. f x = Some y}"
  by (force simp: List.map_filter_def image_iff)

definition score_of :: "unicode \<Rightarrow> 'f float_ops \<Rightarrow> str \<Rightarrow> sanctioned_entity \<Rightarrow> 'f \<times> match_method \<times> matched_field" where
  "score_of uc fo q e = (case score_entity uc fo q e of Ok s \<Rightarrow> s | _ \<Rightarrow> (fl_lit fo 0 1, Combined, PrimaryName))"

lemma score_of: "score_entity uc fo q e = Ok (score_of uc fo q e)"
  using score_entity_Ok [of uc fo q e] by (auto simp: score_of_def)

definition hit_of :: "unicode \<Rightarrow> 'f float_ops \<Rightarrow> str \<Rightarrow> sanctioned_entity \<Rightarrow> 'f match_score" where
  "hit_of uc fo q e = (case score_of uc fo q e of (score, meth, fld) \<Rightarrow> \<lparr>ms_entity = e, ms_score = score, ms_method = meth, ms_field = fld\<rparr>)"

lemma hit_of_entity [simp]: "ms_entity (hit_of uc fo q e) = e"
  by (simp add: hit_of_def split: prod.split)

lemma collect_hits_eq:
  "collect_hits uc fo ix q th is =
     Ok (map (hit_of uc fo q) (filter (\<lambda>e. fl_ge fo (fst (score_of uc fo q e)) th) (List.map_filter (hm_get (ix_by_id ix)) is)))"
  by (induction "is") (auto simp: score_of hit_of_def List.map_filter_def case_prod_beta split: option.split)

lemma find_distinct: "distinct (map se_id es) \<Longrightarrow> find (\<lambda>e. se_id e = i) es = Some e \<longleftrightarrow> e \<in> set es \<and> se_id e = i"
  by (induction es) (auto split: if_splits)

lemma find_rev_distinct: "distinct (map se_id es) \<Longrightarrow> find (\<lambda>e. se_id e = i) (rev es) = Some e \<longleftrightarrow> e \<in> set es \<and> se_id e = i"
  using find_distinct [of "rev es"] by (simp flip: rev_map)

lemma screen_hits:
  assumes "distinct (map se_id es)"
  shows "\<exists>hits. screen uc kh fo query (index_build uc kh es) th = Ok hits \<and> set hits = hit_of uc fo (normalize uc query) `
    {e \<in> set es. set (entity_tokens uc e) \<inter> set (split_whitespace (normalize uc query)) \<noteq> {} \<and> fl_ge fo (fst (score_of uc fo (normalize uc query) e)) th}"
proof -
  let ?ix = "index_build uc kh es" and ?q = "normalize uc query"
  let ?E = "filter (\<lambda>e. fl_ge fo (fst (score_of uc fo ?q e)) th) (List.map_filter (hm_get (ix_by_id ?ix)) (candidate_ids kh ?ix ?q))"
  have get: "hm_get (ix_by_id ?ix) i = Some e \<longleftrightarrow> e \<in> set es \<and> se_id e = i" for i e
    using index_build_indexed [of uc kh es] find_rev_distinct [OF assms] by (simp add: indexed_def)
  have "e \<in> set ?E \<longleftrightarrow> se_id e \<in> set (candidate_ids kh ?ix ?q) \<and> e \<in> set es \<and> fl_ge fo (fst (score_of uc fo ?q e)) th" for e
    by (auto simp: set_map_filter get)
  moreover have "se_id e \<in> set (candidate_ids kh ?ix ?q) \<longleftrightarrow> set (entity_tokens uc e) \<inter> set (split_whitespace ?q) \<noteq> {}" if "e \<in> set es" for e
    using that assms by (auto simp: candidates_exact distinct_map dest: inj_onD)
  ultimately have "set ?E = {e \<in> set es. set (entity_tokens uc e) \<inter> set (split_whitespace ?q) \<noteq> {} \<and> fl_ge fo (fst (score_of uc fo ?q e)) th}" by blast
  then have "set (sort_by_score fo (map (hit_of uc fo ?q) ?E)) =
      hit_of uc fo ?q ` {e \<in> set es. set (entity_tokens uc e) \<inter> set (split_whitespace ?q) \<noteq> {} \<and> fl_ge fo (fst (score_of uc fo ?q e)) th}"
    unfolding sort_by_score_set set_map by simp
  then show ?thesis by (simp add: screen_def Let_def collect_hits_eq)
qed

text \<open>
  C26.  The Bloom filter and the inverted index lose and add nothing: the candidates for a query are exactly the ids of the listed entries one of
  whose names shares a token with it, whatever the keyed hash.
\<close>

theorem candidates_are_token_matches:
  "set (candidate_ids kh (index_build uc kh es) q) = {se_id e | e. e \<in> set es \<and> set (entity_tokens uc e) \<inter> set (split_whitespace q) \<noteq> {}}"
  by (rule set_eqI) (auto simp: candidates_exact)

text \<open>
  For entries with different ids, the entries reported are exactly those of the list that share a token with the normalised query and score at least
  the threshold.
\<close>

lemma screen_agrees_with_scan:
  assumes "distinct (map se_id es)"
  shows "\<exists>hits. screen uc kh fo query (index_build uc kh es) th = Ok hits \<and> ms_entity ` set hits =
    {e \<in> set es. set (entity_tokens uc e) \<inter> set (split_whitespace (normalize uc query)) \<noteq> {}
       \<and> (\<exists>s. score_entity uc fo (normalize uc query) e = Ok s \<and> fl_ge fo (fst s) th)}"
  using screen_hits [OF assms, of uc kh fo query th] by (auto simp: image_image score_of)

definition ascii_lower :: unicode where
  "ascii_lower = \<lparr>uc_nfkd = (\<lambda>s. s), uc_lower = (\<lambda>c. c), uc_alphanumeric = (\<lambda>c. 97 \<le> c \<and> c \<le> 122), uc_lower_str = (\<lambda>s. s)\<rparr>"

definition listed :: "str \<Rightarrow> str \<Rightarrow> sanctioned_entity" where
  "listed i name = \<lparr>se_id = i, se_name = name, se_name_aliases = [], se_entity_type = Individual, se_dob = None, se_place_of_birth = None,
     se_addresses = [], se_nationalities = [], se_identifications = [], se_programs = [], se_last_updated = 0, se_source_list = OfacSdn\<rparr>"

lemmas example_names = listed_def ascii_lower_def entity_tokens_def normalize_def split_whitespace_def is_whitespace_def
  is_combining_mark_def transliterate_def transliteration_def expand_abbreviation_def abbreviations_def scalars_def Let_def

text \<open>A query that shares no token with a name or an alias reports nothing, even when it spells out one of the identification
  numbers \<^const>\<open>score_entity\<close> compares with.\<close>

lemma no_shared_token_no_hit:
  assumes "\<And>e. e \<in> set es \<Longrightarrow> set (entity_tokens uc e) \<inter> set (split_whitespace (normalize uc query)) = {}"
  shows "screen uc kh fo query (index_build uc kh es) th = Ok []"
proof -
  have "candidate_ids kh (index_build uc kh es) (normalize uc query) = []"
    using assms candidates_exact [of _ kh uc es "normalize uc query"] by (metis list.set_intros(1) neq_Nil_conv)
  then show ?thesis by (simp add: screen_def sort_by_score_def)
qed

end
