(* ===== verification/Screening_Audit.thy ===== *)
theory Screening_Audit
  imports Screening_Index
begin

text \<open>
  The audit log of \<^verbatim>\<open>op-screening\<close> (\<^verbatim>\<open>audit.rs\<close>).  The signature scheme, the
  hash and the JSON serialiser are parameters (\<open>audit_ops\<close>); the clock and the random bytes of an id are arguments.  A string
  whose bytes are hashed, signed or decoded is its list of bytes.
  Shown: every log the operations can build verifies, and two verified logs with the same last chain hash agree in every
  entry unless they exhibit a hash collision.
\<close>

datatype screening_error =
    HttpError string
  | ParseError string
  | IoError string
  | CborError string
  | AuditSignatureInvalid
  | AuditChainBroken nat
  | InvalidConfig string
  | EntityNotFound string

section \<open>Hexadecimal and ids\<close>

definition hex_table :: "byte list" where
  "hex_table = map of_char ''0123456789abcdef''"

definition hex :: "byte list \<Rightarrow> byte list" where
  "hex bs = concat (map (\<lambda>b. [hex_table ! unat (drop_bit 4 b), hex_table ! unat (b AND 0x0F)]) bs)"

definition hex_digit :: "byte \<Rightarrow> byte option" where
  "hex_digit b =
     (if 0x30 \<le> b \<and> b \<le> 0x39 then Some (b - 0x30)
      else if 0x61 \<le> b \<and> b \<le> 0x66 then Some (b - 0x61 + 10)
      else if 0x41 \<le> b \<and> b \<le> 0x46 then Some (b - 0x41 + 10)
      else None)"

fun unhex_chunks :: "byte list \<Rightarrow> byte list option" where
  "unhex_chunks (a # b # bs) =
     (case hex_digit a of
        None \<Rightarrow> None
      | Some hi \<Rightarrow>
          (case hex_digit b of
             None \<Rightarrow> None
           | Some lo \<Rightarrow> map_option (\<lambda>out. (push_bit 4 hi OR lo) # out) (unhex_chunks bs)))"
| "unhex_chunks _ = Some []"

definition unhex :: "byte list \<Rightarrow> byte list option" where
  "unhex s = (if length s mod 2 \<noteq> 0 then None else unhex_chunks s)"

text \<open>The sixteen random bytes are an argument.\<close>

definition uuid_v4 :: "byte list \<Rightarrow> byte list" where
  "uuid_v4 random =
     (let bytes = random[6 := (random ! 6 AND 0x0F) OR 0x40];
          bytes = bytes[8 := (bytes ! 8 AND 0x3F) OR 0x80];
          dash = [of_char (CHR ''-'')]
      in hex (take 4 bytes) @ dash @ hex (take 2 (drop 4 bytes)) @ dash @ hex (take 2 (drop 6 bytes)) @ dash
           @ hex (take 2 (drop 8 bytes)) @ dash @ hex (take 6 (drop 10 bytes)))"

section \<open>The log\<close>

record audit_body =
  ab_seq :: nat
  ab_at :: nat
  ab_query :: str
  ab_decision :: string
  ab_hit_count :: nat
  ab_top_hit :: "(str \<times> string) option"
  ab_id :: "byte list"

record audit_entry =
  ae_seq :: nat
  ae_at :: nat
  ae_query :: str
  ae_decision :: string
  ae_hit_count :: nat
  ae_top_hit :: "(str \<times> string) option"
  ae_chain_hash :: "byte list"
  ae_signature :: "byte list"
  ae_id :: "byte list"

record ('k, 'v) audit_log =
  al_signing_key :: 'k
  al_verifying_key :: 'v
  al_entries :: "audit_entry list"

text \<open>Ed25519, BLAKE3 and \<^verbatim>\<open>serde_json::to_string\<close>.\<close>

record ('k, 'v) audit_ops =
  ao_public :: "'k \<Rightarrow> 'v"
  ao_sign :: "'k \<Rightarrow> byte list \<Rightarrow> byte list"
  ao_verify :: "'v \<Rightarrow> byte list \<Rightarrow> byte list \<Rightarrow> bool"
  ao_hash :: "byte list \<Rightarrow> byte list"
  ao_json :: "audit_body \<Rightarrow> (byte list, string) result"

definition audit_new :: "('k, 'v) audit_ops \<Rightarrow> 'k \<Rightarrow> ('k, 'v) audit_log" where
  "audit_new ao key = \<lparr>al_signing_key = key, al_verifying_key = ao_public ao key, al_entries = []\<rparr>"

definition last_hash :: "audit_entry list \<Rightarrow> byte list" where
  "last_hash es = (if es = [] then [] else ae_chain_hash (last es))"

definition audit_record :: "('k, 'v) audit_ops \<Rightarrow> nat \<Rightarrow> byte list \<Rightarrow> str \<Rightarrow> 'f match_score list \<Rightarrow> string \<Rightarrow> ('k, 'v) audit_log \<Rightarrow> (byte list \<times> ('k, 'v) audit_log, screening_error) result" where
  "audit_record ao now random query hits decision lg =
     (let seq = length (al_entries lg);
          prev_hash = last_hash (al_entries lg);
          top_hit = (case hits of [] \<Rightarrow> None | h # _ \<Rightarrow> Some (se_id (ms_entity h), list_label (se_source_list (ms_entity h))));
          i = uuid_v4 random
      in rbind (map_err ParseError (ao_json ao \<lparr>ab_seq = seq, ab_at = now, ab_query = query, ab_decision = decision,
                  ab_hit_count = length hits, ab_top_hit = top_hit, ab_id = i\<rparr>)) (\<lambda>body.
         let chain_hash = hex (ao_hash ao (prev_hash @ body));
             signature = hex (ao_sign ao (al_signing_key lg) chain_hash);
             entry = \<lparr>ae_seq = seq, ae_at = now, ae_query = query, ae_decision = decision, ae_hit_count = length hits,
                      ae_top_hit = top_hit, ae_chain_hash = chain_hash, ae_signature = signature, ae_id = i\<rparr>
         in Ok (i, lg\<lparr>al_entries := al_entries lg @ [entry]\<rparr>)))"

definition body_of :: "audit_entry \<Rightarrow> audit_body" where
  "body_of e = \<lparr>ab_seq = ae_seq e, ab_at = ae_at e, ab_query = ae_query e, ab_decision = ae_decision e,
     ab_hit_count = ae_hit_count e, ab_top_hit = ae_top_hit e, ab_id = ae_id e\<rparr>"

definition verify_entry :: "('k, 'v) audit_ops \<Rightarrow> 'v \<Rightarrow> nat \<Rightarrow> byte list \<Rightarrow> audit_entry \<Rightarrow> (unit, screening_error) result" where
  "verify_entry ao vk i prev_hash e =
     rbind (map_err ParseError (ao_json ao (body_of e))) (\<lambda>body.
       if hex (ao_hash ao (prev_hash @ body)) \<noteq> ae_chain_hash e then Err (AuditChainBroken i)
       else rbind (ok_or (unhex (ae_signature e)) AuditSignatureInvalid) (\<lambda>sig_bytes.
         if length sig_bytes \<noteq> 64 then Err AuditSignatureInvalid
         else if ao_verify ao vk (ae_chain_hash e) sig_bytes then Ok ()
         else Err AuditSignatureInvalid))"

fun verify_from :: "('k, 'v) audit_ops \<Rightarrow> 'v \<Rightarrow> nat \<Rightarrow> byte list \<Rightarrow> audit_entry list \<Rightarrow> (unit, screening_error) result" where
  "verify_from ao vk i prev_hash [] = Ok ()"
| "verify_from ao vk i prev_hash (e # es) =
     rbind (verify_entry ao vk i prev_hash e) (\<lambda>_. verify_from ao vk (Suc i) (ae_chain_hash e) es)"

definition audit_verify :: "('k, 'v) audit_ops \<Rightarrow> ('k, 'v) audit_log \<Rightarrow> (unit, screening_error) result" where
  "audit_verify ao lg = verify_from ao (al_verifying_key lg) 0 [] (al_entries lg)"

section \<open>Every log the operations build verifies\<close>

lemma hex_digit_table: "unat n < 16 \<Longrightarrow> hex_digit (hex_table ! unat n) = Some n"
proof -
  assume n: "unat n < 16"
  have "hex_digit (hex_table ! unat (of_nat (unat n) :: byte)) = Some (of_nat (unat n))"
    by (rule all_nibbles [OF _ n]) (simp add: hex_table_def hex_digit_def)
  then show ?thesis by simp
qed

lemma hex_length [simp]: "length (hex bs) = 2 * length bs"
  by (induction bs) (simp_all add: hex_def)

lemma unhex_hex [simp]: "unhex (hex bs) = Some bs"
proof -
  have "unhex_chunks (hex bs) = Some bs" by (induction bs) (simp_all add: hex_def hex_digit_table nibble_bounds nibbles_join)
  then show ?thesis by (simp add: unhex_def)
qed

lemma last_hash_simps [simp]: "last_hash [] = []" "last_hash (es @ [e]) = ae_chain_hash e"
  by (simp_all add: last_hash_def)

lemma verify_from_snoc:
  "verify_from ao vk i p (es @ [e]) =
     rbind (verify_from ao vk i p es) (\<lambda>_. verify_entry ao vk (i + length es) (if es = [] then p else ae_chain_hash (last es)) e)"
proof (induction es arbitrary: i p)
  case (Cons x es)
  then show ?case by (cases "verify_entry ao vk i p x") auto
next
  case Nil
  show ?case by (cases "verify_entry ao vk i p e") simp_all
qed

text \<open>What the code relies on: a signature of 64 bytes that verifies under the key's public half, and a serialiser that does
  not fail on the flat body.\<close>

definition sound_ops :: "('k, 'v) audit_ops \<Rightarrow> bool" where
  "sound_ops ao \<longleftrightarrow> (\<forall>k m. ao_verify ao (ao_public ao k) m (ao_sign ao k m)) \<and> (\<forall>k m. length (ao_sign ao k m) = 64) \<and> (\<forall>b. \<exists>j. ao_json ao b = Ok j)"

definition intact :: "('k, 'v) audit_ops \<Rightarrow> ('k, 'v) audit_log \<Rightarrow> bool" where
  "intact ao lg \<longleftrightarrow> al_verifying_key lg = ao_public ao (al_signing_key lg) \<and> audit_verify ao lg = Ok ()"

lemma audit_record_appends:
  assumes "sound_ops ao"
  shows "\<exists>i e. audit_record ao now random query hits decision lg = Ok (i, lg\<lparr>al_entries := al_entries lg @ [e]\<rparr>)
    \<and> ae_seq e = length (al_entries lg) \<and> ae_query e = query \<and> ae_decision e = decision \<and> ae_hit_count e = length hits \<and> ae_id e = i
    \<and> (\<exists>body. ao_json ao (body_of e) = Ok body \<and> ae_chain_hash e = hex (ao_hash ao (last_hash (al_entries lg) @ body)))
    \<and> ae_signature e = hex (ao_sign ao (al_signing_key lg) (ae_chain_hash e))"
proof -
  define top where "top = (case hits of [] \<Rightarrow> None | h # _ \<Rightarrow> Some (se_id (ms_entity h), list_label (se_source_list (ms_entity h))))"
  obtain body where "ao_json ao \<lparr>ab_seq = length (al_entries lg), ab_at = now, ab_query = query, ab_decision = decision,
      ab_hit_count = length hits, ab_top_hit = top, ab_id = uuid_v4 random\<rparr> = Ok body"
    using assms unfolding sound_ops_def by blast
  then show ?thesis
    by (intro exI [of _ "uuid_v4 random"]
          exI [of _ "\<lparr>ae_seq = length (al_entries lg), ae_at = now, ae_query = query, ae_decision = decision, ae_hit_count = length hits,
             ae_top_hit = top, ae_chain_hash = hex (ao_hash ao (last_hash (al_entries lg) @ body)),
             ae_signature = hex (ao_sign ao (al_signing_key lg) (hex (ao_hash ao (last_hash (al_entries lg) @ body)))), ae_id = uuid_v4 random\<rparr>"])
       (simp add: audit_record_def top_def [symmetric] Let_def body_of_def)
qed

lemma audit_record_intact:
  assumes "sound_ops ao" and "intact ao lg" and "audit_record ao now random query hits decision lg = Ok (i, lg')"
  shows "intact ao lg'"
proof -
  obtain e body where e: "lg' = lg\<lparr>al_entries := al_entries lg @ [e]\<rparr>" "ao_json ao (body_of e) = Ok body"
    "ae_chain_hash e = hex (ao_hash ao (last_hash (al_entries lg) @ body))" "ae_signature e = hex (ao_sign ao (al_signing_key lg) (ae_chain_hash e))"
    using audit_record_appends [OF assms(1), of now random query hits decision lg] assms(3) by auto
  have "verify_entry ao (al_verifying_key lg) n (last_hash (al_entries lg)) e = Ok ()" for n
    using assms(1,2) e by (simp add: verify_entry_def sound_ops_def intact_def del: rbind_eq_Ok)
  then show ?thesis using assms(2) e(1) by (auto simp: intact_def audit_verify_def verify_from_snoc last_hash_def split: if_splits)
qed

text \<open>A sequence of calls, each with its time, random bytes, query, hits and decision.\<close>

fun record_all :: "('k, 'v) audit_ops \<Rightarrow> (nat \<times> byte list \<times> str \<times> 'f match_score list \<times> string) list \<Rightarrow> ('k, 'v) audit_log \<Rightarrow> (('k, 'v) audit_log, screening_error) result" where
  "record_all ao [] lg = Ok lg"
| "record_all ao ((now, random, query, hits, decision) # rs) lg =
     rbind (audit_record ao now random query hits decision lg) (\<lambda>(i, lg). record_all ao rs lg)"

definition entry_digest :: "audit_entry \<Rightarrow> str \<times> nat \<times> string" where
  "entry_digest e = (ae_query e, ae_hit_count e, ae_decision e)"

definition call_digest :: "nat \<times> byte list \<times> str \<times> 'f match_score list \<times> string \<Rightarrow> str \<times> nat \<times> string" where
  "call_digest r = (case r of (now, random, query, hits, decision) \<Rightarrow> (query, length hits, decision))"

lemma record_all_intact:
  assumes "sound_ops ao" and "intact ao lg"
  shows "\<exists>lg'. record_all ao rs lg = Ok lg' \<and> intact ao lg' \<and> map entry_digest (al_entries lg') = map entry_digest (al_entries lg) @ map call_digest rs"
  using assms(2)
proof (induction rs arbitrary: lg)
  case (Cons r rs)
  obtain now random query hits decision where r: "r = (now, random, query, hits, decision)" by (cases r)
  obtain i e where e: "audit_record ao now random query hits decision lg = Ok (i, lg\<lparr>al_entries := al_entries lg @ [e]\<rparr>)"
    "ae_query e = query" "ae_decision e = decision" "ae_hit_count e = length hits"
    using audit_record_appends [OF assms(1), of now random query hits decision lg] by auto
  have "intact ao (lg\<lparr>al_entries := al_entries lg @ [e]\<rparr>)" by (rule audit_record_intact [OF assms(1) Cons.prems e(1)])
  from Cons.IH [OF this] show ?case using e by (auto simp: r entry_digest_def call_digest_def)
qed simp

text \<open>
  Starting from a fresh log, any sequence of calls is recorded without an error, one entry per call and in order, and the log then
  passes its own verification.
\<close>

theorem audit_log_verifies:
  assumes "sound_ops ao"
  shows "\<exists>lg. record_all ao rs (audit_new ao key) = Ok lg \<and> audit_verify ao lg = Ok ()
    \<and> map entry_digest (al_entries lg) = map call_digest rs"
proof -
  have "intact ao (audit_new ao key)" by (simp add: intact_def audit_new_def audit_verify_def)
  from record_all_intact [OF assms this, of rs] show ?thesis by (auto simp: intact_def audit_new_def)
qed

definition toy_ops :: "(nat, nat) audit_ops" where
  "toy_ops = \<lparr>ao_public = (\<lambda>k. k), ao_sign = (\<lambda>k m. replicate 64 0), ao_verify = (\<lambda>v m s. s = replicate 64 0),
     ao_hash = (\<lambda>m. replicate 32 (of_nat (length m))), ao_json = (\<lambda>b. Ok (0x7B # replicate (ab_seq b) 0))\<rparr>"

theorem audit_log_verifies_witness:
  "sound_ops toy_ops \<and> (\<exists>lg. record_all toy_ops [(5, replicate 16 0, [97], [] :: rat match_score list, ''clear''), (6, replicate 16 1, [98], [], ''hit'')] (audit_new toy_ops 7) = Ok lg
     \<and> audit_verify toy_ops lg = Ok () \<and> map entry_digest (al_entries lg) = [([97], 0, ''clear''), ([98], 0, ''hit'')])"
proof -
  have s: "sound_ops toy_ops" by (simp add: sound_ops_def toy_ops_def)
  then show ?thesis
    using audit_log_verifies [OF s, of "[(5, replicate 16 0, [97], [] :: rat match_score list, ''clear''), (6, replicate 16 1, [98], [], ''hit'')]" 7]
    by (simp add: call_digest_def del: rbind_eq_Ok record_all.simps)
qed

text \<open>The check accepts every initial part of a log it accepts: entries removed from the end go unnoticed.\<close>

lemma truncated_log_verifies: "verify_from ao vk i p (es @ es') = Ok () \<Longrightarrow> verify_from ao vk i p es = Ok ()"
  by (induction es arbitrary: i p) auto

section \<open>Tampering\<close>

text \<open>The byte strings whose hashes make up the chain.\<close>

fun preimages :: "('k, 'v) audit_ops \<Rightarrow> byte list \<Rightarrow> audit_entry list \<Rightarrow> byte list set" where
  "preimages ao prev_hash [] = {}"
| "preimages ao prev_hash (e # es) =
     insert (prev_hash @ (case ao_json ao (body_of e) of Ok body \<Rightarrow> body | _ \<Rightarrow> [])) (preimages ao (ae_chain_hash e) es)"

definition collide :: "('k, 'v) audit_ops \<Rightarrow> byte list set \<Rightarrow> byte list set \<Rightarrow> bool" where
  "collide ao X Y \<longleftrightarrow> (\<exists>x \<in> X. \<exists>y \<in> Y. x \<noteq> y \<and> ao_hash ao x = ao_hash ao y)"

definition without_signature :: "audit_entry \<Rightarrow> audit_entry" where
  "without_signature e = e\<lparr>ae_signature := []\<rparr>"

text \<open>Digests have 32 bytes; on the bodies at hand the serialiser is injective and writes an object, which opens with a brace.\<close>

definition faithful_ops :: "('k, 'v) audit_ops \<Rightarrow> audit_body set \<Rightarrow> bool" where
  "faithful_ops ao B \<longleftrightarrow> (\<forall>m. length (ao_hash ao m) = 32) \<and> inj_on (ao_json ao) B \<and> (\<forall>b \<in> B. \<exists>t. ao_json ao b = Ok (0x7B # t))"

lemma preimages_snoc:
  "preimages ao p (es @ [e]) =
     insert ((if es = [] then p else ae_chain_hash (last es)) @ (case ao_json ao (body_of e) of Ok body \<Rightarrow> body | _ \<Rightarrow> [])) (preimages ao p es)"
  by (induction es arbitrary: p) auto

lemma verified_snoc:
  assumes "verify_from ao vk 0 [] (es @ [e]) = Ok ()"
  obtains body where "verify_from ao vk 0 [] es = Ok ()" "ao_json ao (body_of e) = Ok body"
    "ae_chain_hash e = hex (ao_hash ao (last_hash es @ body))" "preimages ao [] (es @ [e]) = insert (last_hash es @ body) (preimages ao [] es)"
proof -
  have v: "verify_from ao vk 0 [] es = Ok ()" "verify_entry ao vk (length es) (last_hash es) e = Ok ()"
    using assms by (auto simp: verify_from_snoc last_hash_def split: if_splits)
  obtain body where "ao_json ao (body_of e) = Ok body" "ae_chain_hash e = hex (ao_hash ao (last_hash es @ body))"
    using v(2) unfolding verify_entry_def by (auto split: if_splits)
  then show thesis using that v(1) by (simp add: preimages_snoc last_hash_def)
qed

lemma last_hash_shape:
  assumes "verify_from ao vk 0 [] es = Ok ()" "es \<noteq> []"
  shows "\<exists>m. last_hash es = hex (ao_hash ao m)"
proof -
  obtain fs f where es: "es = fs @ [f]" using assms(2) by (metis rev_exhaust)
  show ?thesis using assms(1) unfolding es by (rule verified_snoc) auto
qed

lemma last_hash_length: "faithful_ops ao B \<Longrightarrow> verify_from ao vk 0 [] es = Ok () \<Longrightarrow> es \<noteq> [] \<Longrightarrow> length (last_hash es) = 64"
  using last_hash_shape [of ao vk es] by (auto simp: faithful_ops_def)

lemma hex_starts: "bs \<noteq> [] \<Longrightarrow> \<exists>d t. hex bs = d # t \<and> d \<in> set hex_table"
proof -
  assume "bs \<noteq> []"
  then obtain b t where "bs = b # t" by (cases bs) auto
  then have "hex bs = hex_table ! unat (drop_bit 4 b) # hex_table ! unat (b AND 0x0F) # hex t" by (simp add: hex_def)
  moreover have "hex_table ! unat (drop_bit 4 b) \<in> set hex_table" using nibble_bounds(1) [of b] by (intro nth_mem) (simp add: hex_table_def)
  ultimately show ?thesis by blast
qed

lemma brace_not_hex: "(0x7B :: byte) \<notin> set hex_table"
  by (simp add: hex_table_def)

lemma chain_link_injective:
  assumes f: "faithful_ops ao B" and "b \<in> B" "c \<in> B" "ao_json ao b = Ok x" "ao_json ao c = Ok y"
    and es: "verify_from ao vk 0 [] es = Ok ()" and fs: "verify_from ao vk' 0 [] fs = Ok ()"
    and eq: "last_hash es @ x = last_hash fs @ y"
  shows "last_hash es = last_hash fs \<and> b = c"
proof -
  have brace: "\<exists>t. x = 0x7B # t" "\<exists>t. y = 0x7B # t" using f assms(2-5) unfolding faithful_ops_def by fastforce+
  have shape: "gs \<noteq> [] \<Longrightarrow> verify_from ao w 0 [] gs = Ok () \<Longrightarrow> length (last_hash gs) = 64 \<and> (\<exists>d t. last_hash gs = d # t \<and> d \<in> set hex_table)" for gs w
  proof -
    assume "gs \<noteq> []" "verify_from ao w 0 [] gs = Ok ()"
    then obtain m where m: "last_hash gs = hex (ao_hash ao m)" using last_hash_shape [of ao w gs] by blast
    have l: "length (ao_hash ao m) = 32" using f by (simp add: faithful_ops_def)
    then have "ao_hash ao m \<noteq> []" by auto
    then show ?thesis using hex_starts m l by simp
  qed
  have "es = [] \<longleftrightarrow> fs = []" using shape [OF _ es] shape [OF _ fs] eq brace brace_not_hex by (cases "es = []"; cases "fs = []") fastforce+
  then have "length (last_hash es) = length (last_hash fs)" using shape [OF _ es] shape [OF _ fs] by (cases "es = []") simp_all
  then have "last_hash es = last_hash fs" "x = y" using eq by simp_all
  moreover have "b = c" using inj_onD [of "ao_json ao" B b c] f assms(2-5) calculation by (simp add: faithful_ops_def)
  ultimately show ?thesis by simp
qed

lemma without_signature_eqI: "body_of e = body_of f \<Longrightarrow> ae_chain_hash e = ae_chain_hash f \<Longrightarrow> without_signature e = without_signature f"
  by (cases e; cases f) (simp add: body_of_def without_signature_def)

lemma tamper_evident:
  assumes f: "faithful_ops ao B" and "verify_from ao vk 0 [] es = Ok ()" "verify_from ao vk' 0 [] fs = Ok ()" "last_hash es = last_hash fs"
    and "body_of ` set es \<subseteq> B" "body_of ` set fs \<subseteq> B"
  shows "map without_signature es = map without_signature fs \<or> collide ao (preimages ao [] es) (preimages ao [] fs)"
  using assms(2-)
proof (induction es arbitrary: fs rule: rev_induct)
  case Nil
  have "length (last_hash fs) = 0" unfolding Nil.prems(3) [symmetric] by simp
  then have "fs = []" using last_hash_length [OF f Nil.prems(2)] by linarith
  then show ?case by simp
next
  case (snoc e es)
  obtain x where x: "verify_from ao vk 0 [] es = Ok ()" "ao_json ao (body_of e) = Ok x" "ae_chain_hash e = hex (ao_hash ao (last_hash es @ x))"
    "preimages ao [] (es @ [e]) = insert (last_hash es @ x) (preimages ao [] es)"
    by (rule verified_snoc [OF snoc.prems(1)])
  have "length (last_hash fs) = 64" unfolding snoc.prems(3) [symmetric] by (rule last_hash_length [OF f snoc.prems(1)]) simp
  then have "fs \<noteq> []" by auto
  then obtain gs g where fs: "fs = gs @ [g]" by (metis rev_exhaust)
  obtain y where y: "verify_from ao vk' 0 [] gs = Ok ()" "ao_json ao (body_of g) = Ok y" "ae_chain_hash g = hex (ao_hash ao (last_hash gs @ y))"
    "preimages ao [] (gs @ [g]) = insert (last_hash gs @ y) (preimages ao [] gs)"
    by (rule verified_snoc [OF snoc.prems(2) [unfolded fs]])
  have h: "ao_hash ao (last_hash es @ x) = ao_hash ao (last_hash gs @ y)"
    using snoc.prems(3) x(3) y(3) fs unhex_hex by (metis last_hash_simps(2) option.inject)
  show ?case
  proof (cases "last_hash es @ x = last_hash gs @ y")
    case False
    then show ?thesis using h x(4) y(4) fs by (auto simp: collide_def)
  next
    case True
    have "last_hash es = last_hash gs \<and> body_of e = body_of g"
      using chain_link_injective [OF f _ _ x(2) y(2) x(1) y(1) True] snoc.prems(4,5) fs by simp
    moreover have "map without_signature es = map without_signature gs \<or> collide ao (preimages ao [] es) (preimages ao [] gs)"
      using snoc.IH [OF x(1) y(1)] calculation snoc.prems(4,5) fs by simp
    moreover have "ae_chain_hash e = ae_chain_hash g" using snoc.prems(3) fs by simp
    ultimately show ?thesis using without_signature_eqI [of e g] x(4) y(4) fs by (auto simp: collide_def)
  qed
qed

text \<open>
  C25.  The log is tamper evident: two logs that pass verification, under whatever keys, and end in the same chain hash hold the
  same entries in the same order, signatures apart; otherwise two different strings that were hashed for them collide.  So
  whoever keeps the last chain hash notices every edit, removal and reordering.
\<close>

theorem audit_tamper_evident:
  assumes "faithful_ops ao (body_of ` (set es \<union> set fs))"
    and "verify_from ao vk 0 [] es = Ok ()" and "verify_from ao vk' 0 [] fs = Ok ()" and "last_hash es = last_hash fs"
  shows "map without_signature es = map without_signature fs \<or> collide ao (preimages ao [] es) (preimages ao [] fs)"
  using tamper_evident [OF assms] by (simp add: image_Un)

definition sample_entry :: "byte \<Rightarrow> audit_entry" where
  "sample_entry c = \<lparr>ae_seq = 0, ae_at = 5, ae_query = [97], ae_decision = ''clear'', ae_hit_count = 0, ae_top_hit = None,
     ae_chain_hash = hex (replicate 32 1), ae_signature = hex (replicate 64 c), ae_id = []\<rparr>"

theorem audit_tamper_evident_witness:
  "faithful_ops (toy_ops\<lparr>ao_verify := \<lambda>_ _ _. True\<rparr>) (body_of ` (set [sample_entry 0] \<union> set [sample_entry 1]))
   \<and> verify_from (toy_ops\<lparr>ao_verify := \<lambda>_ _ _. True\<rparr>) 7 0 [] [sample_entry 0] = Ok () \<and> verify_from (toy_ops\<lparr>ao_verify := \<lambda>_ _ _. True\<rparr>) 7 0 [] [sample_entry 1] = Ok ()
   \<and> last_hash [sample_entry 0] = last_hash [sample_entry 1]
   \<and> (map without_signature [sample_entry 0] = map without_signature [sample_entry 1]
      \<or> collide (toy_ops\<lparr>ao_verify := \<lambda>_ _ _. True\<rparr>) (preimages (toy_ops\<lparr>ao_verify := \<lambda>_ _ _. True\<rparr>) [] [sample_entry 0]) (preimages (toy_ops\<lparr>ao_verify := \<lambda>_ _ _. True\<rparr>) [] [sample_entry 1]))"
proof -
  let ?ao = "toy_ops\<lparr>ao_verify := \<lambda>_ _ _. True\<rparr>"
  have b: "body_of (sample_entry c) = body_of (sample_entry 0)" for c by (simp add: body_of_def sample_entry_def)
  have f: "faithful_ops ?ao (body_of ` (set [sample_entry 0] \<union> set [sample_entry 1]))"
    using b [of 1] by (simp add: faithful_ops_def toy_ops_def)
  have v: "verify_from ?ao 7 0 [] [sample_entry c] = Ok ()" for c
    by (simp add: verify_entry_def toy_ops_def sample_entry_def body_of_def del: rbind_eq_Ok)
  have l: "last_hash [sample_entry 0] = last_hash [sample_entry 1]" by (simp add: last_hash_def sample_entry_def)
  show ?thesis using f v l audit_tamper_evident [OF f v v l] by blast
qed

end
