(* ===== verification/Screener.thy ===== *)
theory Screener
  imports Screening_Audit
begin

text \<open>
  The screener of \<^verbatim>\<open>op-screening/src/screener.rs\<close>: one request is matched against the index, filtered, demoted by date of birth and
  country, sorted, cut off, classified and written to the audit log.  Poisoned locks are left out; the clock and the
  random bytes of the log entry are arguments.
  Shown: the decision is the one the whole list implies, and each screening adds one entry with that decision to the log.
\<close>

record 'f screener_config =
  cf_threshold :: 'f
  cf_max_results :: nat
  cf_screen_dob :: bool
  cf_screen_address :: bool
  cf_watchlist_filter :: "sanctions_list set"
  cf_hit_threshold :: 'f

definition config_default :: "'f float_ops \<Rightarrow> 'f screener_config" where
  "config_default fo = \<lparr>cf_threshold = fl_lit fo 85 2, cf_max_results = 25, cf_screen_dob = False, cf_screen_address = False,
     cf_watchlist_filter = {}, cf_hit_threshold = fl_lit fo 95 2\<rparr>"

text \<open>Dates are day numbers.\<close>

record screen_request =
  rq_name :: str
  rq_dob :: "int option"
  rq_address :: "list_address option"
  rq_additional_ids :: "identification list"

datatype screen_decision = Clear | Hit | AmbiguousNeedsReview

record 'f screen_result =
  sr_hits :: "'f match_score list"
  sr_decision :: screen_decision
  sr_audit_id :: "byte list"

record ('k, 'v, 'f) screener =
  sc_index :: sanctions_index
  sc_config :: "'f screener_config"
  sc_audit_log :: "('k, 'v) audit_log"

definition screener_new :: "sanctions_index \<Rightarrow> 'f screener_config \<Rightarrow> ('k, 'v) audit_log \<Rightarrow> ('k, 'v, 'f) screener" where
  "screener_new ix cfg lg = \<lparr>sc_index = ix, sc_config = cfg, sc_audit_log = lg\<rparr>"

definition list_filter :: "'f screener_config \<Rightarrow> 'f match_score list \<Rightarrow> 'f match_score list" where
  "list_filter cfg raw_hits =
     (if cf_watchlist_filter cfg = {} then raw_hits
      else filter (\<lambda>h. se_source_list (ms_entity h) \<in> cf_watchlist_filter cfg) raw_hits)"

definition demote_dob :: "'f float_ops \<Rightarrow> 'f screener_config \<Rightarrow> screen_request \<Rightarrow> 'f match_score \<Rightarrow> 'f match_score" where
  "demote_dob fo cfg req h =
     (if cf_screen_dob cfg
      then case rq_dob req of
             Some req_dob \<Rightarrow>
               (case se_dob (ms_entity h) of
                  Some ent_dob \<Rightarrow> if \<bar>ent_dob - req_dob\<bar> > 366 then h\<lparr>ms_score := fl_mul fo (ms_score h) (fl_lit fo 8 1)\<rparr> else h
                | None \<Rightarrow> h)
           | None \<Rightarrow> h
      else h)"

definition demote_address :: "'f float_ops \<Rightarrow> 'f screener_config \<Rightarrow> screen_request \<Rightarrow> 'f match_score \<Rightarrow> 'f match_score" where
  "demote_address fo cfg req h =
     (if cf_screen_address cfg
      then case rq_address req of
             Some addr \<Rightarrow>
               (let any_country_match = (\<exists>a \<in> set (se_addresses (ms_entity h)). la_country a = la_country addr)
                in if \<not> any_country_match \<and> se_addresses (ms_entity h) \<noteq> [] then h\<lparr>ms_score := fl_mul fo (ms_score h) (fl_lit fo 9 1)\<rparr> else h)
           | None \<Rightarrow> h
      else h)"

definition decide :: "'f float_ops \<Rightarrow> 'f screener_config \<Rightarrow> 'f match_score list \<Rightarrow> screen_decision" where
  "decide fo cfg hits =
     (case hits of
        [] \<Rightarrow> Clear
      | h # _ \<Rightarrow> if fl_ge fo (ms_score h) (cf_hit_threshold cfg) then Hit else AmbiguousNeedsReview)"

fun decision_label :: "screen_decision \<Rightarrow> string" where
  "decision_label Clear = ''clear''"
| "decision_label Hit = ''hit''"
| "decision_label AmbiguousNeedsReview = ''review''"

text \<open>\<^const>\<open>screen\<close> stands for a function that does not return a \<^verbatim>\<open>Result\<close>.\<close>

definition screener_screen :: "('k, 'v) audit_ops \<Rightarrow> unicode \<Rightarrow> (byte \<Rightarrow> str \<Rightarrow> byte list) \<Rightarrow> 'f float_ops \<Rightarrow> nat \<Rightarrow> byte list
    \<Rightarrow> screen_request \<Rightarrow> ('k, 'v, 'f) screener \<Rightarrow> ('f screen_result \<times> ('k, 'v, 'f) screener, screening_error) result" where
  "screener_screen ao uc kh fo now random req sc =
     (let cfg = sc_config sc in
      case screen uc kh fo (rq_name req) (sc_index sc) (cf_threshold cfg) of
        Ok raw_hits \<Rightarrow>
          (let filtered = list_filter cfg raw_hits;
               hits = map (demote_address fo cfg req) (map (demote_dob fo cfg req) filtered);
               hits = take (cf_max_results cfg) (sort_by_score fo hits);
               decision = decide fo cfg hits
           in rbind (audit_record ao now random (rq_name req) hits (decision_label decision) (sc_audit_log sc)) (\<lambda>(audit_id, lg).
                Ok (\<lparr>sr_hits = hits, sr_decision = decision, sr_audit_id = audit_id\<rparr>, sc\<lparr>sc_audit_log := lg\<rparr>)))
      | _ \<Rightarrow> Panic)"

section \<open>The decision is the one the list implies\<close>

text \<open>The comparisons are those of a total preorder, as on numbers other than NaN.\<close>

definition ordered_scores :: "'f float_ops \<Rightarrow> bool" where
  "ordered_scores fo \<longleftrightarrow> (\<forall>a b. fl_ge fo a b \<longleftrightarrow> \<not> fl_gt fo b a) \<and> asymp (fl_gt fo) \<and> transp (fl_ge fo)"

lemma ordered_scores_total: "ordered_scores fo \<Longrightarrow> fl_ge fo a b \<or> fl_ge fo b a"
  by (auto simp: ordered_scores_def dest: asympD)

lemma ordered_scores_trans: "ordered_scores fo \<Longrightarrow> fl_ge fo a b \<Longrightarrow> fl_ge fo b c \<Longrightarrow> fl_ge fo a c"
  by (auto simp: ordered_scores_def dest: transpD)

lemma insert_by_score_sorted:
  assumes "ordered_scores fo" "sorted_wrt (\<lambda>x y. fl_ge fo (ms_score x) (ms_score y)) xs"
  shows "sorted_wrt (\<lambda>x y. fl_ge fo (ms_score x) (ms_score y)) (insert_by_score fo h xs)"
  using assms(2)
proof (induction xs)
  case (Cons x xs)
  show ?case
  proof (cases "fl_gt fo (ms_score x) (ms_score h)")
    case True
    then have "fl_ge fo (ms_score x) (ms_score h)" using assms(1) by (auto simp: ordered_scores_def dest: asympD)
    then show ?thesis using Cons True by auto
  next
    case False
    then have "fl_ge fo (ms_score h) (ms_score x)" using assms(1) by (simp add: ordered_scores_def)
    then show ?thesis using Cons False ordered_scores_trans [OF assms(1)] by auto
  qed
qed simp

lemma sort_by_score_sorted: "ordered_scores fo \<Longrightarrow> sorted_wrt (\<lambda>x y. fl_ge fo (ms_score x) (ms_score y)) (sort_by_score fo xs)"
  unfolding sort_by_score_def by (induction xs) (auto intro: insert_by_score_sorted)

lemma sort_by_score_length [simp]: "length (sort_by_score fo xs) = length xs"
proof -
  have "length (insert_by_score fo h ys) = Suc (length ys)" for h ys by (induction ys) auto
  then show ?thesis unfolding sort_by_score_def by (induction xs) simp_all
qed

lemma decide_top:
  assumes "ordered_scores fo" "0 < n"
  shows "decide fo cfg (take n (sort_by_score fo xs)) =
    (if xs = [] then Clear else if \<exists>h \<in> set xs. fl_ge fo (ms_score h) (cf_hit_threshold cfg) then Hit else AmbiguousNeedsReview)"
proof (cases "sort_by_score fo xs")
  case Nil
  then have "xs = []" using sort_by_score_length [of fo xs] by simp
  then show ?thesis by (simp add: decide_def sort_by_score_def)
next
  case (Cons h hs)
  then have "xs \<noteq> []" using sort_by_score_length [of fo xs] by auto
  moreover have "set xs = insert h (set hs)" using Cons sort_by_score_set [of fo xs] by simp
  moreover have "\<forall>y \<in> set hs. fl_ge fo (ms_score h) (ms_score y)" using sort_by_score_sorted [OF assms(1), of xs] Cons by simp
  moreover have "take n (h # hs) = h # take (n - 1) hs" using assms(2) by (cases n) simp_all
  ultimately show ?thesis using Cons ordered_scores_trans [OF assms(1)] by (auto simp: decide_def)
qed

text \<open>The hits a scan of the list gives, before sorting and cutting off.\<close>

definition reportable :: "unicode \<Rightarrow> 'f float_ops \<Rightarrow> 'f screener_config \<Rightarrow> screen_request \<Rightarrow> sanctioned_entity \<Rightarrow> bool" where
  "reportable uc fo cfg req e \<longleftrightarrow>
     set (entity_tokens uc e) \<inter> set (split_whitespace (normalize uc (rq_name req))) \<noteq> {}
     \<and> fl_ge fo (fst (score_of uc fo (normalize uc (rq_name req)) e)) (cf_threshold cfg)
     \<and> (cf_watchlist_filter cfg = {} \<or> se_source_list e \<in> cf_watchlist_filter cfg)"

definition final_score :: "unicode \<Rightarrow> 'f float_ops \<Rightarrow> 'f screener_config \<Rightarrow> screen_request \<Rightarrow> sanctioned_entity \<Rightarrow> 'f" where
  "final_score uc fo cfg req e = ms_score (demote_address fo cfg req (demote_dob fo cfg req (hit_of uc fo (normalize uc (rq_name req)) e)))"

lemma demote_entity [simp]: "ms_entity (demote_dob fo cfg req h) = ms_entity h" "ms_entity (demote_address fo cfg req h) = ms_entity h"
  by (simp_all add: demote_dob_def demote_address_def Let_def split: option.split)

text \<open>The decision a scan of the list implies.\<close>

definition implied_decision :: "unicode \<Rightarrow> 'f float_ops \<Rightarrow> 'f screener_config \<Rightarrow> sanctioned_entity list \<Rightarrow> screen_request \<Rightarrow> screen_decision" where
  "implied_decision uc fo cfg es req =
     (if \<not> (\<exists>e \<in> set es. reportable uc fo cfg req e) then Clear
      else if \<exists>e \<in> set es. reportable uc fo cfg req e \<and> fl_ge fo (final_score uc fo cfg req e) (cf_hit_threshold cfg) then Hit
      else AmbiguousNeedsReview)"

lemma screener_screen_implied:
  assumes "distinct (map se_id es)" and "ordered_scores fo" and "sound_ops ao" and "0 < cf_max_results cfg" and "intact ao lg"
  shows "\<exists>res lg' e. screener_screen ao uc kh fo now random req (screener_new (index_build uc kh es) cfg lg) = Ok (res, screener_new (index_build uc kh es) cfg lg')
    \<and> sr_decision res = implied_decision uc fo cfg es req
    \<and> al_entries lg' = al_entries lg @ [e] \<and> ae_query e = rq_name req \<and> ae_decision e = decision_label (sr_decision res)
    \<and> ae_id e = sr_audit_id res \<and> intact ao lg'"
proof -
  let ?q = "normalize uc (rq_name req)" and ?ix = "index_build uc kh es"
  obtain raw where raw: "screen uc kh fo (rq_name req) ?ix (cf_threshold cfg) = Ok raw"
    "set raw = hit_of uc fo ?q ` {e \<in> set es. set (entity_tokens uc e) \<inter> set (split_whitespace ?q) \<noteq> {} \<and> fl_ge fo (fst (score_of uc fo ?q e)) (cf_threshold cfg)}"
    using screen_hits [OF assms(1), of uc kh fo "rq_name req" "cf_threshold cfg"] by blast
  define hits where "hits = map (demote_address fo cfg req) (map (demote_dob fo cfg req) (list_filter cfg raw))"
  have "set (list_filter cfg raw) = hit_of uc fo ?q ` {e \<in> set es. reportable uc fo cfg req e}"
    using raw(2) by (auto simp: list_filter_def reportable_def)
  then have set_hits: "set hits = (\<lambda>e. demote_address fo cfg req (demote_dob fo cfg req (hit_of uc fo ?q e))) ` {e \<in> set es. reportable uc fo cfg req e}"
    by (simp add: hits_def image_image)
  define top where "top = take (cf_max_results cfg) (sort_by_score fo hits)"
  have dec: "decide fo cfg top = implied_decision uc fo cfg es req"
    using decide_top [OF assms(2,4), of cfg hits] set_hits unfolding top_def final_score_def implied_decision_def set_empty [symmetric, of hits] by auto
  obtain i e where rec: "audit_record ao now random (rq_name req) top (decision_label (decide fo cfg top)) lg = Ok (i, lg\<lparr>al_entries := al_entries lg @ [e]\<rparr>)"
    "ae_query e = rq_name req" "ae_decision e = decision_label (decide fo cfg top)" "ae_id e = i"
    using audit_record_appends [OF assms(3), of now random "rq_name req" top "decision_label (decide fo cfg top)" lg] by auto
  have "screener_screen ao uc kh fo now random req (screener_new ?ix cfg lg) =
      Ok (\<lparr>sr_hits = top, sr_decision = decide fo cfg top, sr_audit_id = i\<rparr>, screener_new ?ix cfg (lg\<lparr>al_entries := al_entries lg @ [e]\<rparr>))"
    using raw(1) rec(1) by (simp add: screener_screen_def screener_new_def hits_def [symmetric] top_def [symmetric] Let_def del: rbind_eq_Ok map_map)
  moreover have "intact ao (lg\<lparr>al_entries := al_entries lg @ [e]\<rparr>)" by (rule audit_record_intact [OF assms(3,5) rec(1)])
  ultimately show ?thesis using dec rec by (intro exI conjI) (assumption | simp)+
qed

text \<open>The score a scan of the list gives an entry, and what counts against it: another date of birth, another country.\<close>

definition scan_score :: "unicode \<Rightarrow> 'f float_ops \<Rightarrow> screen_request \<Rightarrow> sanctioned_entity \<Rightarrow> 'f" where
  "scan_score uc fo req e = fst (score_of uc fo (normalize uc (rq_name req)) e)"

definition dob_differs :: "'f screener_config \<Rightarrow> screen_request \<Rightarrow> sanctioned_entity \<Rightarrow> bool" where
  "dob_differs cfg req e \<longleftrightarrow> cf_screen_dob cfg \<and> (\<exists>d d'. rq_dob req = Some d \<and> se_dob e = Some d' \<and> \<bar>d' - d\<bar> > 366)"

definition country_differs :: "'f screener_config \<Rightarrow> screen_request \<Rightarrow> sanctioned_entity \<Rightarrow> bool" where
  "country_differs cfg req e \<longleftrightarrow> cf_screen_address cfg \<and> se_addresses e \<noteq> []
     \<and> (\<exists>addr. rq_address req = Some addr \<and> (\<forall>a \<in> set (se_addresses e). la_country a \<noteq> la_country addr))"

definition wanted :: "'f screener_config \<Rightarrow> sanctioned_entity \<Rightarrow> bool" where
  "wanted cfg e \<longleftrightarrow> cf_watchlist_filter cfg = {} \<or> se_source_list e \<in> cf_watchlist_filter cfg"

text \<open>
  Two conditions under which the documented decision is the one taken.  The index reaches every entry with a sufficient score (one that shares no
  token of a name with the query is not looked at), and the hit threshold is above what a demotion leaves of a score.
\<close>

definition index_reaches :: "unicode \<Rightarrow> 'f float_ops \<Rightarrow> 'f screener_config \<Rightarrow> screen_request \<Rightarrow> sanctioned_entity list \<Rightarrow> bool" where
  "index_reaches uc fo cfg req es \<longleftrightarrow> (\<forall>e \<in> set es. fl_ge fo (scan_score uc fo req e) (cf_threshold cfg) \<longrightarrow>
     set (entity_tokens uc e) \<inter> set (split_whitespace (normalize uc (rq_name req))) \<noteq> {})"

definition demotion_counts :: "unicode \<Rightarrow> 'f float_ops \<Rightarrow> 'f screener_config \<Rightarrow> screen_request \<Rightarrow> sanctioned_entity list \<Rightarrow> bool" where
  "demotion_counts uc fo cfg req es \<longleftrightarrow> (\<forall>e \<in> set es. let s = scan_score uc fo req e in
     \<not> fl_ge fo (fl_mul fo s (fl_lit fo 8 1)) (cf_hit_threshold cfg) \<and> \<not> fl_ge fo (fl_mul fo s (fl_lit fo 9 1)) (cf_hit_threshold cfg)
     \<and> \<not> fl_ge fo (fl_mul fo (fl_mul fo s (fl_lit fo 8 1)) (fl_lit fo 9 1)) (cf_hit_threshold cfg))"

lemma final_score_eq:
  "final_score uc fo cfg req e =
     (let s = scan_score uc fo req e; s = (if dob_differs cfg req e then fl_mul fo s (fl_lit fo 8 1) else s)
      in if country_differs cfg req e then fl_mul fo s (fl_lit fo 9 1) else s)"
proof -
  let ?h = "hit_of uc fo (normalize uc (rq_name req)) e"
  have 0: "ms_score ?h = scan_score uc fo req e" by (simp add: hit_of_def scan_score_def split: prod.split)
  have 1: "ms_score (demote_dob fo cfg req ?h) = (if dob_differs cfg req e then fl_mul fo (ms_score ?h) (fl_lit fo 8 1) else ms_score ?h)"
    by (auto simp: demote_dob_def dob_differs_def split: option.splits)
  have "ms_score (demote_address fo cfg req g) = (if country_differs cfg req e then fl_mul fo (ms_score g) (fl_lit fo 9 1) else ms_score g)"
    if "ms_entity g = e" for g
    using that by (auto simp: demote_address_def country_differs_def Let_def split: option.splits)
  from this [of "demote_dob fo cfg req ?h"] 0 1 show ?thesis by (simp add: final_score_def Let_def)
qed

lemma final_score_hit:
  assumes "demotion_counts uc fo cfg req es" and "e \<in> set es"
  shows "fl_ge fo (final_score uc fo cfg req e) (cf_hit_threshold cfg) \<longleftrightarrow>
    \<not> dob_differs cfg req e \<and> \<not> country_differs cfg req e \<and> fl_ge fo (scan_score uc fo req e) (cf_hit_threshold cfg)"
  using assms unfolding demotion_counts_def Let_def by (auto simp: final_score_eq Let_def)

lemma reportable_wanted:
  assumes "index_reaches uc fo cfg req es" and "e \<in> set es"
  shows "reportable uc fo cfg req e \<longleftrightarrow> wanted cfg e \<and> fl_ge fo (scan_score uc fo req e) (cf_threshold cfg)"
  using assms by (auto simp: index_reaches_def reportable_def wanted_def scan_score_def)

definition scan_decision :: "unicode \<Rightarrow> 'f float_ops \<Rightarrow> 'f screener_config \<Rightarrow> sanctioned_entity list \<Rightarrow> screen_request \<Rightarrow> screen_decision" where
  "scan_decision uc fo cfg es req =
     (if \<not> (\<exists>e \<in> set es. wanted cfg e \<and> fl_ge fo (scan_score uc fo req e) (cf_threshold cfg)) then Clear
      else if \<exists>e \<in> set es. wanted cfg e \<and> fl_ge fo (scan_score uc fo req e) (cf_threshold cfg)
          \<and> \<not> dob_differs cfg req e \<and> \<not> country_differs cfg req e \<and> fl_ge fo (scan_score uc fo req e) (cf_hit_threshold cfg) then Hit
      else AmbiguousNeedsReview)"

lemma implied_is_scan:
  assumes "index_reaches uc fo cfg req es" and "demotion_counts uc fo cfg req es"
  shows "implied_decision uc fo cfg es req = scan_decision uc fo cfg es req"
  unfolding implied_decision_def scan_decision_def by (auto simp: reportable_wanted [OF assms(1)] final_score_hit [OF assms(2)])


lemma exact_ordered: "ordered_scores exact"
  by (auto simp: ordered_scores_def exact_def intro!: asympI transpI)

lemma sample_scored: "score_of ascii_lower exact [106, 111] (listed [1] [106, 111]) = (1, Exact, PrimaryName)"
proof -
  obtain s where "combined_score exact [106, 111] [106, 111] = Ok s" using combined_score_Ok [of exact "[106, 111]" "[106, 111]"] by (elim exE)
  moreover have "normalize ascii_lower [106, 111] = [106, 111]" by (simp add: example_names)
  ultimately show ?thesis by (simp add: score_of_def score_entity_def listed_def exact_def)
qed

lemma sample_scored_born: "scan_score ascii_lower exact \<lparr>rq_name = [106, 111], rq_dob = d, rq_address = None, rq_additional_ids = []\<rparr>
    ((listed [1] [106, 111])\<lparr>se_dob := b\<rparr>) = 1"
proof -
  have "score_entity ascii_lower exact q ((listed [1] [106, 111])\<lparr>se_dob := b\<rparr>) = score_entity ascii_lower exact q (listed [1] [106, 111])" for q
    by (simp add: score_entity_def)
  moreover have "normalize ascii_lower [106, 111] = [106, 111]" by (simp add: example_names)
  ultimately show ?thesis using sample_scored by (simp add: scan_score_def score_of_def)
qed


text \<open>With a cut-off of zero every name is clear, whatever the list holds.\<close>

lemma zero_results_clear:
  assumes "cf_max_results (sc_config sc) = 0" and "screener_screen ao uc kh fo now random req sc = Ok (res, sc')"
  shows "sr_decision res = Clear"
  using assms by (auto simp: screener_screen_def Let_def decide_def split: result.splits)

end
