(* ===== verification/Connect_Screening.thy ===== *)
theory Connect_Screening
  imports Connect_Onboarding Screener
begin

text \<open>
  Screening at onboarding (\<^verbatim>\<open>op-connect/src/screening.rs\<close>): a business and its owners are screened against the sanctions list, owners also
  against a list of politically exposed persons, all against adverse media.  The three screeners are those of \<open>Screener\<close>;
  the time and the random bytes of the n-th entry of a screener's log are an argument.  A \<^verbatim>\<open>String\<close> of \<open>Connect_Onboarding\<close> is turned
  into its scalar values.
  Shown: the decision on a business follows from what each list implies for each subject, and two owners of one name
  are screened as one.
\<close>

section \<open>Requests\<close>

datatype connect_decision = ConnectClear | ConnectBlock | ConnectReview

record 'f screening_outcome =
  so_sanctions_hits :: "'f match_score list"
  so_pep_hits :: "'f match_score list"
  so_adverse_media_hits :: "'f match_score list"
  so_decision :: connect_decision

definition to_screening_address :: "address \<Rightarrow> list_address" where
  "to_screening_address addr =
     \<lparr>la_street = Some (scalars (case ad_line2 addr of Some l2 \<Rightarrow> ad_line1 addr @ [CHR 0x0A] @ l2 | None \<Rightarrow> ad_line1 addr)),
      la_city = Some (scalars (ad_city addr)), la_region = Some (scalars (ad_region addr)),
      la_postal_code = Some (scalars (ad_postal_code addr)), la_country = Some (scalars (ad_country addr))\<rparr>"

definition business_request :: "business_profile \<Rightarrow> screen_request" where
  "business_request b = \<lparr>rq_name = scalars (bp_legal_name b), rq_dob = None,
     rq_address = Some (to_screening_address (bp_registered_address b)), rq_additional_ids = []\<rparr>"

definition trade_request :: "string \<Rightarrow> screen_request" where
  "trade_request trade = \<lparr>rq_name = scalars trade, rq_dob = None, rq_address = None, rq_additional_ids = []\<rparr>"

definition owner_request :: "(int, 'p) beneficial_owner \<Rightarrow> screen_request" where
  "owner_request ow = \<lparr>rq_name = scalars (pe_legal_name (bo_person ow)), rq_dob = Some (pe_dob (bo_person ow)),
     rq_address = Some (to_screening_address (pe_address (bo_person ow))), rq_additional_ids = []\<rparr>"

text \<open>\<^verbatim>\<open>Display\<close> of the screening errors, and their conversion.\<close>

fun screening_message :: "screening_error \<Rightarrow> string" where
  "screening_message (HttpError s) = ''http error: '' @ s"
| "screening_message (ParseError s) = ''parse error: '' @ s"
| "screening_message (IoError s) = ''storage io error: '' @ s"
| "screening_message (CborError s) = ''cbor error: '' @ s"
| "screening_message AuditSignatureInvalid = ''audit signature invalid''"
| "screening_message (AuditChainBroken i) = ''audit chain broken at index '' @ show_nat i"
| "screening_message (InvalidConfig s) = ''invalid config: '' @ s"
| "screening_message (EntityNotFound s) = ''entity not found: '' @ s"

definition from_screening :: "screening_error \<Rightarrow> connect_error" where
  "from_screening e = Provider (''screening: '' @ screening_message e)"

section \<open>The coordinator\<close>

text \<open>What a screening depends on besides its screener.\<close>

record ('k, 'v, 'f) screening_env =
  ev_audit :: "('k, 'v) audit_ops"
  ev_unicode :: unicode
  ev_keyed :: "byte \<Rightarrow> str \<Rightarrow> byte list"
  ev_float :: "'f float_ops"
  ev_stamp :: "nat \<Rightarrow> nat \<times> byte list"

definition ask :: "('k, 'v, 'f) screening_env \<Rightarrow> screen_request \<Rightarrow> ('k, 'v, 'f) screener \<Rightarrow> ('f screen_result \<times> ('k, 'v, 'f) screener, connect_error) result" where
  "ask ev req sc =
     (let (now, random) = ev_stamp ev (length (al_entries (sc_audit_log sc)))
      in map_err from_screening (screener_screen (ev_audit ev) (ev_unicode ev) (ev_keyed ev) (ev_float ev) now random req sc))"

record ('k, 'v, 'f) connect_screener =
  cs_sanctions :: "('k, 'v, 'f) screener"
  cs_pep :: "('k, 'v, 'f) screener option"
  cs_adverse_media :: "('k, 'v, 'f) screener option"

definition connect_screener_new :: "('k, 'v, 'f) screener \<Rightarrow> ('k, 'v, 'f) screener option \<Rightarrow> ('k, 'v, 'f) screener option \<Rightarrow> ('k, 'v, 'f) connect_screener" where
  "connect_screener_new sanctions pep adverse = \<lparr>cs_sanctions = sanctions, cs_pep = pep, cs_adverse_media = adverse\<rparr>"

text \<open>The local variables of \<^verbatim>\<open>screen\<close>.\<close>

record 'f screening_tally =
  ta_sanctions :: "'f match_score list"
  ta_pep :: "'f match_score list"
  ta_adverse :: "'f match_score list"
  ta_any_review :: bool
  ta_any_block :: bool

type_synonym ('k, 'v, 'f) screening_state = "('k, 'v, 'f) connect_screener \<times> 'f screening_tally"

fun ask_sanctions :: "('k, 'v, 'f) screening_env \<Rightarrow> screen_request \<Rightarrow> ('k, 'v, 'f) screening_state \<Rightarrow> (('k, 'v, 'f) screening_state, connect_error) result" where
  "ask_sanctions ev req (cs, t) =
     rbind (ask ev req (cs_sanctions cs)) (\<lambda>(s, sc).
       Ok (cs\<lparr>cs_sanctions := sc\<rparr>,
           (case sr_decision s of
              Clear \<Rightarrow> t
            | Hit \<Rightarrow> t\<lparr>ta_any_block := True\<rparr>
            | AmbiguousNeedsReview \<Rightarrow> t\<lparr>ta_any_review := True\<rparr>)\<lparr>ta_sanctions := ta_sanctions t @ sr_hits s\<rparr>))"

fun ask_pep :: "('k, 'v, 'f) screening_env \<Rightarrow> screen_request \<Rightarrow> ('k, 'v, 'f) screening_state \<Rightarrow> (('k, 'v, 'f) screening_state, connect_error) result" where
  "ask_pep ev req (cs, t) =
     (case cs_pep cs of
        None \<Rightarrow> Ok (cs, t)
      | Some pep \<Rightarrow>
          rbind (ask ev req pep) (\<lambda>(p, sc).
            Ok (cs\<lparr>cs_pep := Some sc\<rparr>,
                (if sr_decision p \<in> {Hit, AmbiguousNeedsReview} then t\<lparr>ta_any_review := True\<rparr> else t)\<lparr>ta_pep := ta_pep t @ sr_hits p\<rparr>)))"

fun ask_adverse :: "('k, 'v, 'f) screening_env \<Rightarrow> screen_request \<Rightarrow> ('k, 'v, 'f) screening_state \<Rightarrow> (('k, 'v, 'f) screening_state, connect_error) result" where
  "ask_adverse ev req (cs, t) =
     (case cs_adverse_media cs of
        None \<Rightarrow> Ok (cs, t)
      | Some am \<Rightarrow>
          rbind (ask ev req am) (\<lambda>(a, sc).
            Ok (cs\<lparr>cs_adverse_media := Some sc\<rparr>,
                (if sr_decision a \<in> {Hit, AmbiguousNeedsReview} then t\<lparr>ta_any_review := True\<rparr> else t)\<lparr>ta_adverse := ta_adverse t @ sr_hits a\<rparr>)))"

definition screen_business :: "('k, 'v, 'f) screening_env \<Rightarrow> business_profile \<Rightarrow> ('k, 'v, 'f) screening_state \<Rightarrow> (('k, 'v, 'f) screening_state, connect_error) result" where
  "screen_business ev b st =
     rbind (ask_sanctions ev (business_request b) st) (\<lambda>st.
     rbind (case bp_trade_name b of Some trade \<Rightarrow> ask_sanctions ev (trade_request trade) st | None \<Rightarrow> Ok st) (\<lambda>st.
     ask_adverse ev (business_request b) st))"

fun screen_owners :: "('k, 'v, 'f) screening_env \<Rightarrow> string list \<Rightarrow> (int, 'p) beneficial_owner list \<Rightarrow> ('k, 'v, 'f) screening_state \<Rightarrow> (('k, 'v, 'f) screening_state, connect_error) result" where
  "screen_owners ev seen_names [] st = Ok st"
| "screen_owners ev seen_names (ow # ows) st =
     (let nm = pe_legal_name (bo_person ow) in
      if nm \<in> set seen_names then screen_owners ev seen_names ows st
      else rbind (ask_sanctions ev (owner_request ow) st) (\<lambda>st.
           rbind (ask_pep ev (owner_request ow) st) (\<lambda>st.
           rbind (ask_adverse ev (owner_request ow) st) (\<lambda>st.
           screen_owners ev (nm # seen_names) ows st))))"

definition connect_screen :: "('k, 'v, 'f) screening_env \<Rightarrow> business_profile \<Rightarrow> (int, 'p) beneficial_owner list \<Rightarrow> ('k, 'v, 'f) connect_screener
    \<Rightarrow> ('f screening_outcome \<times> ('k, 'v, 'f) connect_screener, connect_error) result" where
  "connect_screen ev business owners cs =
     rbind (screen_business ev business (cs, \<lparr>ta_sanctions = [], ta_pep = [], ta_adverse = [], ta_any_review = False, ta_any_block = False\<rparr>)) (\<lambda>st.
     rbind (screen_owners ev [] owners st) (\<lambda>(cs, t).
       Ok (\<lparr>so_sanctions_hits = ta_sanctions t, so_pep_hits = ta_pep t, so_adverse_media_hits = ta_adverse t,
            so_decision = (if ta_any_block t then ConnectBlock else if ta_any_review t then ConnectReview else ConnectClear)\<rparr>, cs)))"

text \<open>The roster is changed in place: on an error the owners before it keep their new flags.\<close>

fun annotate_pep_flags :: "('k, 'v, 'f) screening_env \<Rightarrow> (int, 'p) beneficial_owner list \<Rightarrow> ('k, 'v, 'f) screener
    \<Rightarrow> (int, 'p) beneficial_owner list \<times> ('k, 'v, 'f) screener \<times> (unit, connect_error) result" where
  "annotate_pep_flags ev [] pep = ([], pep, Ok ())"
| "annotate_pep_flags ev (ow # ows) pep =
     (case ask ev (owner_request ow) pep of
        Ok (res, pep) \<Rightarrow>
          (let (ows, pep, r) = annotate_pep_flags ev ows pep in (ow\<lparr>bo_is_pep := sr_hits res \<noteq> []\<rparr> # ows, pep, r))
      | Err e \<Rightarrow> (ow # ows, pep, Err e)
      | Panic \<Rightarrow> (ow # ows, pep, Panic))"

definition pep_entity :: "nat \<Rightarrow> nat \<Rightarrow> str \<Rightarrow> sanctioned_entity" where
  "pep_entity now i n =
     \<lparr>se_id = scalars (''pep-'' @ show_nat i), se_name = n, se_name_aliases = [], se_entity_type = Individual, se_dob = None,
      se_place_of_birth = None, se_addresses = [], se_nationalities = [], se_identifications = [], se_programs = [scalars ''PEP''],
      se_last_updated = now, se_source_list = OfacConsolidated\<rparr>"

definition build_pep_index_from_names :: "unicode \<Rightarrow> (byte \<Rightarrow> str \<Rightarrow> byte list) \<Rightarrow> nat \<Rightarrow> str list \<Rightarrow> sanctions_index" where
  "build_pep_index_from_names uc kh now names = index_build uc kh (map (\<lambda>(i, n). pep_entity now i n) (enumerate 0 names))"

section \<open>The decision follows from the lists\<close>

definition backed :: "('k, 'v, 'f) screening_env \<Rightarrow> 'f screener_config \<Rightarrow> sanctioned_entity list \<Rightarrow> ('k, 'v, 'f) screener \<Rightarrow> bool" where
  "backed ev cfg es sc \<longleftrightarrow> (\<exists>lg. sc = screener_new (index_build (ev_unicode ev) (ev_keyed ev) es) cfg lg \<and> intact (ev_audit ev) lg)
     \<and> distinct (map se_id es) \<and> 0 < cf_max_results cfg"

definition usable :: "('k, 'v, 'f) screening_env \<Rightarrow> bool" where
  "usable ev \<longleftrightarrow> ordered_scores (ev_float ev) \<and> sound_ops (ev_audit ev)"

definition implied :: "('k, 'v, 'f) screening_env \<Rightarrow> 'f screener_config \<times> sanctioned_entity list \<Rightarrow> screen_request \<Rightarrow> screen_decision" where
  "implied ev l req = implied_decision (ev_unicode ev) (ev_float ev) (fst l) (snd l) req"

lemma ask_implied:
  assumes "usable ev" "backed ev (fst l) (snd l) sc"
  shows "\<exists>res sc'. ask ev req sc = Ok (res, sc') \<and> sr_decision res = implied ev l req \<and> backed ev (fst l) (snd l) sc'"
proof -
  obtain lg where sc: "sc = screener_new (index_build (ev_unicode ev) (ev_keyed ev) (snd l)) (fst l) lg" "intact (ev_audit ev) lg"
    and wf: "distinct (map se_id (snd l))" "0 < cf_max_results (fst l)" using assms(2) unfolding backed_def by blast
  obtain now random where st: "ev_stamp ev (length (al_entries (sc_audit_log sc))) = (now, random)" by fastforce
  have "\<exists>res lg' e. screener_screen (ev_audit ev) (ev_unicode ev) (ev_keyed ev) (ev_float ev) now random req sc
      = Ok (res, screener_new (index_build (ev_unicode ev) (ev_keyed ev) (snd l)) (fst l) lg') \<and> sr_decision res = implied ev l req \<and> intact (ev_audit ev) lg'"
    using screener_screen_implied [OF wf(1) _ _ wf(2) sc(2), of "ev_float ev" "ev_unicode ev" "ev_keyed ev" now random req] assms(1)
    unfolding usable_def sc(1) implied_def by blast
  then show ?thesis using wf st unfolding ask_def backed_def by (fastforce simp: backed_def)
qed

definition ready :: "('k, 'v, 'f) screening_env \<Rightarrow> 'f screener_config \<times> sanctioned_entity list \<Rightarrow> ('f screener_config \<times> sanctioned_entity list) option
    \<Rightarrow> ('f screener_config \<times> sanctioned_entity list) option \<Rightarrow> ('k, 'v, 'f) connect_screener \<Rightarrow> bool" where
  "ready ev S P A cs \<longleftrightarrow> backed ev (fst S) (snd S) (cs_sanctions cs)
     \<and> rel_option (\<lambda>l sc. backed ev (fst l) (snd l) sc) P (cs_pep cs) \<and> rel_option (\<lambda>l sc. backed ev (fst l) (snd l) sc) A (cs_adverse_media cs)"

definition alarm :: "('k, 'v, 'f) screening_env \<Rightarrow> ('f screener_config \<times> sanctioned_entity list) option \<Rightarrow> screen_request \<Rightarrow> bool" where
  "alarm ev L req \<longleftrightarrow> (case L of None \<Rightarrow> False | Some l \<Rightarrow> implied ev l req \<noteq> Clear)"

definition leads :: "('k, 'v, 'f) screening_env \<Rightarrow> 'f screener_config \<times> sanctioned_entity list \<Rightarrow> ('f screener_config \<times> sanctioned_entity list) option
    \<Rightarrow> ('f screener_config \<times> sanctioned_entity list) option \<Rightarrow> (('k, 'v, 'f) screening_state, connect_error) result \<Rightarrow> bool \<Rightarrow> bool \<Rightarrow> bool" where
  "leads ev S P A r block review \<longleftrightarrow> (\<exists>cs t. r = Ok (cs, t) \<and> ready ev S P A cs \<and> ta_any_block t = block \<and> ta_any_review t = review)"

lemma leads_bind:
  assumes "leads ev S P A r b v" and "\<And>cs t. ready ev S P A cs \<Longrightarrow> ta_any_block t = b \<Longrightarrow> ta_any_review t = v \<Longrightarrow> leads ev S P A (f (cs, t)) b' v'"
  shows "leads ev S P A (rbind r f) b' v'"
  using assms unfolding leads_def by (auto simp del: rbind_eq_Ok)

lemma leads_sanctions:
  assumes "usable ev" "ready ev S P A cs"
  shows "leads ev S P A (ask_sanctions ev req (cs, t)) (ta_any_block t \<or> implied ev S req = Hit) (ta_any_review t \<or> implied ev S req = AmbiguousNeedsReview)"
proof -
  obtain res sc where r: "ask ev req (cs_sanctions cs) = Ok (res, sc)" "sr_decision res = implied ev S req" "backed ev (fst S) (snd S) sc"
    using ask_implied [OF assms(1), of S "cs_sanctions cs" req] assms(2) unfolding ready_def by blast
  then have "ready ev S P A (cs\<lparr>cs_sanctions := sc\<rparr>)" using assms(2) by (simp add: ready_def)
  then show ?thesis using r by (cases "implied ev S req") (simp_all add: leads_def del: rbind_eq_Ok)
qed

lemma leads_pep:
  assumes "usable ev" "ready ev S P A cs"
  shows "leads ev S P A (ask_pep ev req (cs, t)) (ta_any_block t) (ta_any_review t \<or> alarm ev P req)"
proof (cases "cs_pep cs")
  case None
  then have "P = None" using assms(2) by (simp add: ready_def option_rel_Some2)
  then show ?thesis using None assms(2) by (simp add: leads_def alarm_def)
next
  case (Some pep)
  then obtain l where l: "P = Some l" "backed ev (fst l) (snd l) pep" using assms(2) by (auto simp: ready_def option_rel_Some2)
  obtain res sc where r: "ask ev req pep = Ok (res, sc)" "sr_decision res = implied ev l req" "backed ev (fst l) (snd l) sc"
    using ask_implied [OF assms(1) l(2), of req] by blast
  then have "ready ev S P A (cs\<lparr>cs_pep := Some sc\<rparr>)" using assms(2) l(1) by (simp add: ready_def)
  then show ?thesis using r Some l(1) by (cases "implied ev l req") (simp_all add: leads_def alarm_def del: rbind_eq_Ok)
qed

lemma leads_adverse:
  assumes "usable ev" "ready ev S P A cs"
  shows "leads ev S P A (ask_adverse ev req (cs, t)) (ta_any_block t) (ta_any_review t \<or> alarm ev A req)"
proof (cases "cs_adverse_media cs")
  case None
  then have "A = None" using assms(2) by (simp add: ready_def option_rel_Some2)
  then show ?thesis using None assms(2) by (simp add: leads_def alarm_def)
next
  case (Some am)
  then obtain l where l: "A = Some l" "backed ev (fst l) (snd l) am" using assms(2) by (auto simp: ready_def option_rel_Some2)
  obtain res sc where r: "ask ev req am = Ok (res, sc)" "sr_decision res = implied ev l req" "backed ev (fst l) (snd l) sc"
    using ask_implied [OF assms(1) l(2), of req] by blast
  then have "ready ev S P A (cs\<lparr>cs_adverse_media := Some sc\<rparr>)" using assms(2) l(1) by (simp add: ready_def)
  then show ?thesis using r Some l(1) by (cases "implied ev l req") (simp_all add: leads_def alarm_def del: rbind_eq_Ok)
qed

text \<open>The requests that reach the sanctions list: legal name, trade name, and each owner whose name has not come up before.\<close>

fun first_named :: "string list \<Rightarrow> (int, 'p) beneficial_owner list \<Rightarrow> (int, 'p) beneficial_owner list" where
  "first_named seen [] = []"
| "first_named seen (ow # ows) =
     (if pe_legal_name (bo_person ow) \<in> set seen then first_named seen ows else ow # first_named (pe_legal_name (bo_person ow) # seen) ows)"

definition business_requests :: "business_profile \<Rightarrow> screen_request list" where
  "business_requests b = business_request b # (case bp_trade_name b of Some trade \<Rightarrow> [trade_request trade] | None \<Rightarrow> [])"

lemma leads_business:
  fixes ev :: "('k, 'v, 'f) screening_env"
  assumes "usable ev" "ready ev S P A cs"
  shows "leads ev S P A (screen_business ev b (cs, t)) (ta_any_block t \<or> (\<exists>q \<in> set (business_requests b). implied ev S q = Hit))
    (ta_any_review t \<or> (\<exists>q \<in> set (business_requests b). implied ev S q = AmbiguousNeedsReview) \<or> alarm ev A (business_request b))"
  unfolding screen_business_def
proof (rule leads_bind [OF leads_sanctions [OF assms]])
  fix cs1 and t1 :: "'f screening_tally" assume 1: "ready ev S P A cs1" "ta_any_block t1 = (ta_any_block t \<or> implied ev S (business_request b) = Hit)"
    "ta_any_review t1 = (ta_any_review t \<or> implied ev S (business_request b) = AmbiguousNeedsReview)"
  have "leads ev S P A (case bp_trade_name b of Some trade \<Rightarrow> ask_sanctions ev (trade_request trade) (cs1, t1) | None \<Rightarrow> Ok (cs1, t1))
      (ta_any_block t \<or> (\<exists>q \<in> set (business_requests b). implied ev S q = Hit))
      (ta_any_review t \<or> (\<exists>q \<in> set (business_requests b). implied ev S q = AmbiguousNeedsReview))"
  proof (cases "bp_trade_name b")
    case None
    then show ?thesis using 1 by (simp add: leads_def business_requests_def)
  next
    case (Some trade)
    then show ?thesis using leads_sanctions [OF assms(1) 1(1), of "trade_request trade" t1] 1(2,3) by (simp add: business_requests_def disj_ac)
  qed
  then show "leads ev S P A (rbind (case bp_trade_name b of Some trade \<Rightarrow> ask_sanctions ev (trade_request trade) (cs1, t1) | None \<Rightarrow> Ok (cs1, t1))
      (ask_adverse ev (business_request b))) (ta_any_block t \<or> (\<exists>q \<in> set (business_requests b). implied ev S q = Hit))
      (ta_any_review t \<or> (\<exists>q \<in> set (business_requests b). implied ev S q = AmbiguousNeedsReview) \<or> alarm ev A (business_request b))"
  proof (rule leads_bind)
    fix cs2 and t2 :: "'f screening_tally" assume 2: "ready ev S P A cs2" "ta_any_block t2 = (ta_any_block t \<or> (\<exists>q \<in> set (business_requests b). implied ev S q = Hit))"
      "ta_any_review t2 = (ta_any_review t \<or> (\<exists>q \<in> set (business_requests b). implied ev S q = AmbiguousNeedsReview))"
    show "leads ev S P A (ask_adverse ev (business_request b) (cs2, t2)) (ta_any_block t \<or> (\<exists>q \<in> set (business_requests b). implied ev S q = Hit))
      (ta_any_review t \<or> (\<exists>q \<in> set (business_requests b). implied ev S q = AmbiguousNeedsReview) \<or> alarm ev A (business_request b))"
      using leads_adverse [OF assms(1) 2(1), of "business_request b" t2] 2(2,3) by simp
  qed
qed

lemma leads_owners:
  fixes ev :: "('k, 'v, 'f) screening_env"
  assumes "usable ev" "ready ev S P A cs"
  shows "leads ev S P A (screen_owners ev seen ows (cs, t)) (ta_any_block t \<or> (\<exists>ow \<in> set (first_named seen ows). implied ev S (owner_request ow) = Hit))
    (ta_any_review t \<or> (\<exists>ow \<in> set (first_named seen ows). implied ev S (owner_request ow) = AmbiguousNeedsReview
        \<or> alarm ev P (owner_request ow) \<or> alarm ev A (owner_request ow)))"
  using assms(2)
proof (induction ows arbitrary: seen cs t)
  case Nil
  then show ?case by (simp add: leads_def)
next
  case (Cons ow ows)
  let ?q = "owner_request ow"
  show ?case
  proof (cases "pe_legal_name (bo_person ow) \<in> set seen")
    case True
    then show ?thesis using Cons by simp
  next
    case False
    have "leads ev S P A (rbind (ask_sanctions ev ?q (cs, t)) (\<lambda>st. rbind (ask_pep ev ?q st) (\<lambda>st. rbind (ask_adverse ev ?q st) (\<lambda>st.
        screen_owners ev (pe_legal_name (bo_person ow) # seen) ows st))))
      (ta_any_block t \<or> (\<exists>ow \<in> set (first_named seen (ow # ows)). implied ev S (owner_request ow) = Hit))
      (ta_any_review t \<or> (\<exists>ow \<in> set (first_named seen (ow # ows)). implied ev S (owner_request ow) = AmbiguousNeedsReview
        \<or> alarm ev P (owner_request ow) \<or> alarm ev A (owner_request ow)))"
    proof (rule leads_bind [OF leads_sanctions [OF assms(1) Cons.prems]], rule leads_bind [OF leads_pep [OF assms(1)]], assumption,
        rule leads_bind [OF leads_adverse [OF assms(1)]], assumption)
      fix cs1 cs2 cs3 and t1 t2 t3 :: "'f screening_tally"
      assume f: "ta_any_block t1 = (ta_any_block t \<or> implied ev S ?q = Hit)" "ta_any_review t1 = (ta_any_review t \<or> implied ev S ?q = AmbiguousNeedsReview)"
        "ta_any_block t2 = ta_any_block t1" "ta_any_review t2 = (ta_any_review t1 \<or> alarm ev P ?q)"
        "ta_any_block t3 = ta_any_block t2" "ta_any_review t3 = (ta_any_review t2 \<or> alarm ev A ?q)" and r: "ready ev S P A cs3"
      show "leads ev S P A (screen_owners ev (pe_legal_name (bo_person ow) # seen) ows (cs3, t3))
          (ta_any_block t \<or> (\<exists>ow \<in> set (first_named seen (ow # ows)). implied ev S (owner_request ow) = Hit))
          (ta_any_review t \<or> (\<exists>ow \<in> set (first_named seen (ow # ows)). implied ev S (owner_request ow) = AmbiguousNeedsReview
            \<or> alarm ev P (owner_request ow) \<or> alarm ev A (owner_request ow)))"
        using Cons.IH [OF r, of "pe_legal_name (bo_person ow) # seen" t3] f False by (simp add: disj_ac)
    qed
    then show ?thesis using False by (simp add: Let_def)
  qed
qed

lemma first_named_all:
  "distinct (map (pe_legal_name \<circ> bo_person) ows) \<Longrightarrow> pe_legal_name ` bo_person ` set ows \<inter> set seen = {} \<Longrightarrow> first_named seen ows = ows"
  by (induction ows arbitrary: seen) (auto simp: image_image)

definition subjects :: "business_profile \<Rightarrow> (int, 'p) beneficial_owner list \<Rightarrow> screen_request list" where
  "subjects b owners = business_requests b @ map owner_request owners"

definition needs_review :: "('k, 'v, 'f) screening_env \<Rightarrow> 'f screener_config \<times> sanctioned_entity list \<Rightarrow> ('f screener_config \<times> sanctioned_entity list) option
    \<Rightarrow> ('f screener_config \<times> sanctioned_entity list) option \<Rightarrow> business_profile \<Rightarrow> (int, 'p) beneficial_owner list \<Rightarrow> bool" where
  "needs_review ev S P A b owners \<longleftrightarrow>
     (\<exists>q \<in> set (subjects b owners). implied ev S q = AmbiguousNeedsReview)
   \<or> (\<exists>ow \<in> set owners. alarm ev P (owner_request ow) \<or> alarm ev A (owner_request ow)) \<or> alarm ev A (business_request b)"

lemma connect_screen_implied:
  assumes "usable ev" and "ready ev S P A cs" and "distinct (map (pe_legal_name \<circ> bo_person) owners)"
  shows "\<exists>out cs'. connect_screen ev b owners cs = Ok (out, cs') \<and> ready ev S P A cs'
    \<and> so_decision out = (if \<exists>q \<in> set (subjects b owners). implied ev S q = Hit then ConnectBlock
        else if needs_review ev S P A b owners then ConnectReview else ConnectClear)"
proof -
  have all: "first_named [] owners = owners" using assms(3) by (simp add: first_named_all)
  obtain cs1 t1 where 1: "screen_business ev b (cs, \<lparr>ta_sanctions = [], ta_pep = [], ta_adverse = [], ta_any_review = False, ta_any_block = False\<rparr>) = Ok (cs1, t1)"
    "ready ev S P A cs1" "ta_any_block t1 = (\<exists>q \<in> set (business_requests b). implied ev S q = Hit)"
    "ta_any_review t1 = ((\<exists>q \<in> set (business_requests b). implied ev S q = AmbiguousNeedsReview) \<or> alarm ev A (business_request b))"
    using leads_business [OF assms(1,2), of b] unfolding leads_def by fastforce
  obtain cs2 t2 where 2: "screen_owners ev [] owners (cs1, t1) = Ok (cs2, t2)" "ready ev S P A cs2"
    "ta_any_block t2 = (ta_any_block t1 \<or> (\<exists>ow \<in> set owners. implied ev S (owner_request ow) = Hit))"
    "ta_any_review t2 = (ta_any_review t1 \<or> (\<exists>ow \<in> set owners. implied ev S (owner_request ow) = AmbiguousNeedsReview
        \<or> alarm ev P (owner_request ow) \<or> alarm ev A (owner_request ow)))"
    using leads_owners [OF assms(1) 1(2), of "[]" owners t1] unfolding leads_def all by blast
  have "ta_any_block t2 \<longleftrightarrow> (\<exists>q \<in> set (subjects b owners). implied ev S q = Hit)" using 1(3) 2(3) by (auto simp: subjects_def)
  moreover have "ta_any_review t2 \<longleftrightarrow> needs_review ev S P A b owners" using 1(4) 2(4) by (auto simp: needs_review_def subjects_def)
  ultimately show ?thesis using 1(1) 2(1,2) by (simp add: connect_screen_def del: rbind_eq_Ok)
qed

text \<open>What a scan of a list says about a request, for one list and for a list that may not be configured.\<close>

definition decided :: "('k, 'v, 'f) screening_env \<Rightarrow> 'f screener_config \<times> sanctioned_entity list \<Rightarrow> screen_request \<Rightarrow> screen_decision" where
  "decided ev l q = scan_decision (ev_unicode ev) (ev_float ev) (fst l) (snd l) q"

definition flagged :: "('k, 'v, 'f) screening_env \<Rightarrow> ('f screener_config \<times> sanctioned_entity list) option \<Rightarrow> screen_request \<Rightarrow> bool" where
  "flagged ev L q \<longleftrightarrow> (case L of None \<Rightarrow> False | Some l \<Rightarrow> decided ev l q \<noteq> Clear)"

text \<open>The conditions of the single screenings, for every list in use and every subject.\<close>

definition lists_reach :: "('k, 'v, 'f) screening_env \<Rightarrow> ('f screener_config \<times> sanctioned_entity list) set \<Rightarrow> screen_request list \<Rightarrow> bool" where
  "lists_reach ev L qs \<longleftrightarrow> (\<forall>l \<in> L. \<forall>q \<in> set qs. index_reaches (ev_unicode ev) (ev_float ev) (fst l) q (snd l)
     \<and> demotion_counts (ev_unicode ev) (ev_float ev) (fst l) q (snd l))"

lemma implied_decided: "lists_reach ev L qs \<Longrightarrow> l \<in> L \<Longrightarrow> q \<in> set qs \<Longrightarrow> implied ev l q = decided ev l q"
  by (simp add: lists_reach_def implied_def decided_def implied_is_scan)

lemma alarm_flagged: "lists_reach ev L qs \<Longrightarrow> set_option P \<subseteq> L \<Longrightarrow> q \<in> set qs \<Longrightarrow> alarm ev P q = flagged ev P q"
  by (auto simp: alarm_def flagged_def implied_decided split: option.split)

text \<open>
  C11.  Screening a business and its owners, no two of one name, succeeds, and its decision is what scans of the lists imply: blocked when the
  sanctions list gives a hit for the legal name, the trade name or any owner; else to be reviewed when the sanctions list is ambiguous about one of
  them, an owner is on the list of exposed persons, or the business or an owner is in adverse media; else clear.  Assumed of each screener in use:
  it was built from a list whose entries have different ids, keeps at least one result, has an intact audit log (and keeps it); scores are ordered, the indexes reach
  every entry with a sufficient score and the hit thresholds are above the demoted scores.
\<close>

theorem connect_screen_decides:
  assumes "usable ev" and "ready ev S P A cs" and "distinct (map (pe_legal_name \<circ> bo_person) owners)"
    and "lists_reach ev ({S} \<union> set_option P \<union> set_option A) (subjects b owners)"
  shows "\<exists>out cs'. connect_screen ev b owners cs = Ok (out, cs') \<and> ready ev S P A cs'
    \<and> so_decision out =
        (if \<exists>q \<in> set (subjects b owners). decided ev S q = Hit then ConnectBlock
         else if (\<exists>q \<in> set (subjects b owners). decided ev S q = AmbiguousNeedsReview)
            \<or> (\<exists>ow \<in> set owners. flagged ev P (owner_request ow) \<or> flagged ev A (owner_request ow)) \<or> flagged ev A (business_request b)
         then ConnectReview else ConnectClear)"
proof -
  note dec = implied_decided [OF assms(4)] alarm_flagged [OF assms(4)]
  have own: "owner_request ow \<in> set (subjects b owners)" if "ow \<in> set owners" for ow using that by (simp add: subjects_def)
  have bus: "business_request b \<in> set (subjects b owners)" by (simp add: subjects_def business_requests_def)
  have hit: "(\<exists>q \<in> set (subjects b owners). implied ev S q = d) \<longleftrightarrow> (\<exists>q \<in> set (subjects b owners). decided ev S q = d)" for d
    by (auto simp: dec(1))
  have al: "alarm ev L q = flagged ev L q" if "q \<in> set (subjects b owners)" "L = P \<or> L = A" for L q using that dec(2) by blast
  have rev: "needs_review ev S P A b owners \<longleftrightarrow> (\<exists>q \<in> set (subjects b owners). decided ev S q = AmbiguousNeedsReview)
      \<or> (\<exists>ow \<in> set owners. flagged ev P (owner_request ow) \<or> flagged ev A (owner_request ow)) \<or> flagged ev A (business_request b)"
    unfolding needs_review_def hit using al own bus by metis
  show ?thesis using connect_screen_implied [OF assms(1-3), of b] unfolding hit rev .
qed

definition sample_env :: "(nat, nat, rat) screening_env" where
  "sample_env = \<lparr>ev_audit = toy_ops, ev_unicode = ascii_lower, ev_keyed = (\<lambda>k t. [k]), ev_float = exact, ev_stamp = (\<lambda>n. (n, replicate 16 0))\<rparr>"

definition sample_screener :: "(nat, nat, rat) connect_screener" where
  "sample_screener = connect_screener_new
     (screener_new (index_build ascii_lower (\<lambda>k t. [k]) [listed [1] [106, 111]]) (config_default exact) (audit_new toy_ops 7)) None None"

definition listed_owner :: "string \<Rightarrow> int \<Rightarrow> (int, int) beneficial_owner" where
  "listed_owner n dob = \<lparr>bo_person = \<lparr>pe_legal_name = n, pe_dob = dob, pe_address = sample_address, pe_ssn_last_4 = None, pe_ssn_or_itin_full = None,
     pe_government_id = None\<rparr>, bo_ownership_pct = 60, bo_control = True, bo_is_pep = False\<rparr>"

theorem connect_screen_decides_witness:
  "usable sample_env \<and> ready sample_env (config_default exact, [listed [1] [106, 111]]) None None sample_screener
   \<and> (\<exists>out cs'. connect_screen sample_env ((sample_profile Partnership)\<lparr>bp_legal_name := ''jo'', bp_trade_name := None\<rparr>) [listed_owner ''jo'' 3650] sample_screener = Ok (out, cs')
        \<and> so_decision out = ConnectBlock)"
proof -
  let ?S = "(config_default exact, [listed [1] [106, 111]])" and ?b = "(sample_profile Partnership)\<lparr>bp_legal_name := ''jo'', bp_trade_name := None\<rparr>"
  let ?ows = "[listed_owner ''jo'' 3650]"
  have u: "usable sample_env" using exact_ordered by (simp add: usable_def sample_env_def sound_ops_def toy_ops_def)
  have r: "ready sample_env ?S None None sample_screener"
    by (auto simp: ready_def backed_def sample_screener_def connect_screener_new_def sample_env_def config_default_def intact_def audit_new_def audit_verify_def)
  have d: "distinct (map (pe_legal_name \<circ> bo_person) ?ows)" by simp
  have nm: "rq_name q = [106, 111]" if "q \<in> set (subjects ?b ?ows)" for q
    using that by (auto simp: subjects_def business_requests_def business_request_def owner_request_def listed_owner_def scalars_def)
  have n: "normalize ascii_lower [106, 111] = [106, 111]" by (simp add: example_names)
  have sc: "scan_score ascii_lower exact q (listed [1] [106, 111]) = 1" if "q \<in> set (subjects ?b ?ows)" for q
    using nm [OF that] n sample_scored by (simp add: scan_score_def)
  have tok: "set (entity_tokens ascii_lower (listed [1] [106, 111])) \<inter> set (split_whitespace [106, 111]) \<noteq> {}" by (simp add: example_names)
  have "index_reaches ascii_lower exact (config_default exact) q [listed [1] [106, 111]]" if "q \<in> set (subjects ?b ?ows)" for q
    using nm [OF that] n tok by (simp add: index_reaches_def)
  moreover have "demotion_counts ascii_lower exact (config_default exact) q [listed [1] [106, 111]]" if "q \<in> set (subjects ?b ?ows)" for q
    using sc [OF that] by (simp add: demotion_counts_def Let_def) (simp add: exact_def config_default_def)
  ultimately have l: "lists_reach sample_env ({?S} \<union> set_option None \<union> set_option None) (subjects ?b ?ows)"
    by (simp add: lists_reach_def sample_env_def)
  have q: "business_request ?b \<in> set (subjects ?b ?ows)" by (simp add: subjects_def business_requests_def)
  have "decided sample_env ?S (business_request ?b) = Hit"
    using sc [OF q] by (simp add: decided_def scan_decision_def sample_env_def) (simp add: wanted_def dob_differs_def country_differs_def exact_def config_default_def)
  then have "\<exists>q \<in> set (subjects ?b ?ows). decided sample_env ?S q = Hit" using q by blast
  then show ?thesis using u r connect_screen_decides [OF u r d l] by auto
qed

text \<open>Owners are told apart by name only: of two owners of one name the second is not screened, whatever the date of birth.\<close>

lemma namesake_not_screened:
  assumes "pe_legal_name (bo_person ow) = pe_legal_name (bo_person ow')"
  shows "screen_owners ev seen (ow # ow' # ows) st = screen_owners ev seen (ow # ows) st"
proof -
  have "screen_owners ev (pe_legal_name (bo_person ow') # seen) (ow' # ows) = screen_owners ev (pe_legal_name (bo_person ow') # seen) ows"
    by (rule ext) (simp add: Let_def)
  then show ?thesis using assms by (simp add: Let_def)
qed

end
