(* ===== verification/Screening_Bsa.thy ===== *)
theory Screening_Bsa
  imports OpenPay_Prelude Hash_Map
begin

text \<open>
  The transaction reports of \<^verbatim>\<open>op-screening/src/bsa.rs\<close>: currency transactions over the reporting threshold, structuring, and the
  patterns of suspicious activity.  Times are nanoseconds, \<^verbatim>\<open>u64\<close> amounts natural numbers; \<open>dollars\<close> is the rendering of an amount
  of cents by \<^verbatim>\<open>{:.2}\<close>.
  Shown: structuring is reported for a customer exactly when some of the customer's cash transactions within a day add up
  to more than the threshold.
\<close>

record bsa_tx =
  bx_id :: string
  bx_customer_id :: string
  bx_at :: int
  bx_amount_cents :: nat
  bx_currency :: string
  bx_is_cash :: bool
  bx_inbound :: bool
  bx_country :: "string option"

datatype trigger_kind = CtrThreshold | Structuring | RoundDollar | RapidInOut | GeographicAnomaly

record trigger =
  tg_kind :: trigger_kind
  tg_transactions :: "string list"
  tg_aggregate_cents :: nat
  tg_note :: string

definition CTR_THRESHOLD_CENTS :: nat where "CTR_THRESHOLD_CENTS = 1000000"
definition STRUCTURING_WINDOW_SECS :: int where "STRUCTURING_WINDOW_SECS = 24 * 60 * 60"
definition RAPID_IN_OUT_WINDOW_SECS :: int where "RAPID_IN_OUT_WINDOW_SECS = 15 * 60"

text \<open>\<^verbatim>\<open>Duration::num_seconds\<close> truncates towards zero.\<close>

definition num_seconds :: "int \<Rightarrow> int" where
  "num_seconds d = d sdiv 1000000000"

section \<open>Currency transaction reports\<close>

definition single_triggers :: "(nat \<Rightarrow> string) \<Rightarrow> bsa_tx list \<Rightarrow> trigger list" where
  "single_triggers dollars txs =
     map (\<lambda>t. \<lparr>tg_kind = CtrThreshold, tg_transactions = [bx_id t], tg_aggregate_cents = bx_amount_cents t,
               tg_note = ''single cash transaction '' @ bx_id t @ '' over CTR threshold ($'' @ dollars (bx_amount_cents t) @ '')''\<rparr>)
       (filter (\<lambda>t. bx_amount_cents t > CTR_THRESHOLD_CENTS) txs)"

definition group_by_customer :: "bsa_tx list \<Rightarrow> (string, bsa_tx list) hashmap" where
  "group_by_customer txs =
     fold (\<lambda>t m. hm_insert (bx_customer_id t) ((case hm_get m (bx_customer_id t) of Some v \<Rightarrow> v | None \<Rightarrow> []) @ [t]) m) txs []"

fun window_loop :: "int \<Rightarrow> bsa_tx list \<Rightarrow> nat \<Rightarrow> string list \<Rightarrow> nat \<times> string list" where
  "window_loop start [] total_cents ids = (total_cents, ids)"
| "window_loop start (t # ts) total_cents ids =
     (if num_seconds (bx_at t - start) > STRUCTURING_WINDOW_SECS then (total_cents, ids)
      else window_loop start ts (u64_saturating_add total_cents (bx_amount_cents t)) (ids @ [bx_id t]))"

text \<open>The loop over the start of the window; \<open>n\<close> is the number of all cash transactions of the customer.\<close>

fun structuring_loop :: "(nat \<Rightarrow> string) \<Rightarrow> string \<Rightarrow> nat \<Rightarrow> bsa_tx list \<Rightarrow> trigger list" where
  "structuring_loop dollars cust n [] = []"
| "structuring_loop dollars cust n (t # ts) =
     (let (total_cents, ids) = window_loop (bx_at t) (t # ts) 0 [] in
      if total_cents > CTR_THRESHOLD_CENTS \<and> length ids > 1
      then [\<lparr>tg_kind = Structuring, tg_transactions = ids, tg_aggregate_cents = total_cents,
             tg_note = show_nat n @ '' cash transactions for customer '' @ cust @ '' aggregating $'' @ dollars total_cents @ '' in 24h''\<rparr>]
      else structuring_loop dollars cust n ts)"

definition ctr_analyze :: "(nat \<Rightarrow> string) \<Rightarrow> bsa_tx list \<Rightarrow> trigger list" where
  "ctr_analyze dollars transactions =
     (let txs = sort_key bx_at (filter bx_is_cash transactions)
      in single_triggers dollars txs
           @ concat (map (\<lambda>(cust, ts). structuring_loop dollars cust (length ts) ts) (group_by_customer txs)))"

section \<open>Suspicious activity\<close>

definition round_triggers :: "(nat \<Rightarrow> string) \<Rightarrow> bsa_tx list \<Rightarrow> trigger list" where
  "round_triggers dollars txs =
     map (\<lambda>t. \<lparr>tg_kind = RoundDollar, tg_transactions = [bx_id t], tg_aggregate_cents = bx_amount_cents t,
               tg_note = ''round-dollar amount $'' @ dollars (bx_amount_cents t) @ '' on tx '' @ bx_id t\<rparr>)
       (filter (\<lambda>t. bx_amount_cents t mod 100000 = 0 \<and> bx_amount_cents t \<ge> 500000) txs)"

text \<open>\<^verbatim>\<open>windows(2)\<close>; the products and the sum are unchecked \<^verbatim>\<open>u64\<close> operators.\<close>

fun rapid_loop :: "(nat \<Rightarrow> string) \<Rightarrow> string \<Rightarrow> bsa_tx list \<Rightarrow> (trigger list, unit) result" where
  "rapid_loop dollars cust (a # b # ts) =
     rbind (if bx_inbound a \<and> \<not> bx_inbound b \<and> num_seconds (bx_at b - bx_at a) \<le> RAPID_IN_OUT_WINDOW_SECS
            then rbind (u64_val (bx_amount_cents b * 100)) (\<lambda>out_scaled.
                 rbind (u64_val (bx_amount_cents a * 80)) (\<lambda>in_scaled.
                   if out_scaled \<ge> in_scaled
                   then rbind (u64_val (bx_amount_cents a + bx_amount_cents b)) (\<lambda>aggregate.
                        Ok [\<lparr>tg_kind = RapidInOut, tg_transactions = [bx_id a, bx_id b], tg_aggregate_cents = aggregate,
                             tg_note = ''rapid in/out for customer '' @ cust @ '': $'' @ dollars (bx_amount_cents a) @ '' in, $''
                               @ dollars (bx_amount_cents b) @ '' out within '' @ show_int (num_seconds (bx_at b - bx_at a)) @ ''s''\<rparr>])
                   else Ok []))
            else Ok []) (\<lambda>here.
     rbind (rapid_loop dollars cust (b # ts)) (\<lambda>rest. Ok (here @ rest)))"
| "rapid_loop dollars cust _ = Ok []"

fun rapid_triggers :: "(nat \<Rightarrow> string) \<Rightarrow> (string \<times> bsa_tx list) list \<Rightarrow> (trigger list, unit) result" where
  "rapid_triggers dollars [] = Ok []"
| "rapid_triggers dollars ((cust, txs) # gs) =
     rbind (rapid_loop dollars cust txs) (\<lambda>here. rbind (rapid_triggers dollars gs) (\<lambda>rest. Ok (here @ rest)))"

record sar_helper =
  sh_customer_home_country :: "(string, string) hashmap"

definition sar_new :: sar_helper where
  "sar_new = \<lparr>sh_customer_home_country = []\<rparr>"

definition set_home_country :: "string \<Rightarrow> string \<Rightarrow> sar_helper \<Rightarrow> sar_helper" where
  "set_home_country customer_id country sar = sar\<lparr>sh_customer_home_country := hm_insert customer_id country (sh_customer_home_country sar)\<rparr>"

fun anomaly_triggers :: "sar_helper \<Rightarrow> bsa_tx list \<Rightarrow> trigger list" where
  "anomaly_triggers sar [] = []"
| "anomaly_triggers sar (t # ts) =
     (case hm_get (sh_customer_home_country sar) (bx_customer_id t) of
        None \<Rightarrow> anomaly_triggers sar ts
      | Some home \<Rightarrow>
          (case bx_country t of
             None \<Rightarrow> anomaly_triggers sar ts
           | Some tx_country \<Rightarrow>
               if tx_country \<noteq> home
               then \<lparr>tg_kind = GeographicAnomaly, tg_transactions = [bx_id t], tg_aggregate_cents = bx_amount_cents t,
                     tg_note = ''tx '' @ bx_id t @ '' in '' @ tx_country @ '' for customer based in '' @ home\<rparr> # anomaly_triggers sar ts
               else anomaly_triggers sar ts))"

definition sar_analyze :: "(nat \<Rightarrow> string) \<Rightarrow> sar_helper \<Rightarrow> bsa_tx list \<Rightarrow> (trigger list, unit) result" where
  "sar_analyze dollars sar transactions =
     (let txs = sort_key bx_at transactions
      in rbind (rapid_triggers dollars (group_by_customer txs)) (\<lambda>rapid.
         Ok (round_triggers dollars txs @ rapid @ anomaly_triggers sar txs)))"

section \<open>Structuring is reported exactly\<close>

definition within_day :: "int \<Rightarrow> bsa_tx \<Rightarrow> bool" where
  "within_day start t \<longleftrightarrow> num_seconds (bx_at t - start) \<le> STRUCTURING_WINDOW_SECS"

lemma window_loop_eq:
  "c \<le> u64_max \<Longrightarrow> window_loop start ts c ids =
     (min (c + sum_list (map bx_amount_cents (takeWhile (within_day start) ts))) u64_max, ids @ map bx_id (takeWhile (within_day start) ts))"
  by (induction ts arbitrary: c ids) (auto simp: within_day_def u64_saturating_add_def min_def)

lemma group_by_customer_get:
  "hm_get (group_by_customer txs) c = (if \<exists>t \<in> set txs. bx_customer_id t = c then Some (filter (\<lambda>t. bx_customer_id t = c) txs) else None)"
proof (induction txs rule: rev_induct)
  case Nil
  show ?case by (simp add: group_by_customer_def)
next
  case (snoc t txs)
  then show ?case by (auto simp: group_by_customer_def filter_empty_conv)
qed

lemma group_by_customer_wf: "hm_wf (group_by_customer txs)"
  by (induction txs rule: rev_induct) (simp_all add: group_by_customer_def hm_wf_insert)

lemma group_by_customer_entry:
  "(c, ts) \<in> set (group_by_customer txs) \<longleftrightarrow> ts = filter (\<lambda>t. bx_customer_id t = c) txs \<and> (\<exists>t \<in> set txs. bx_customer_id t = c)"
proof -
  have "(c, ts) \<in> set (group_by_customer txs) \<longleftrightarrow> hm_get (group_by_customer txs) c = Some ts"
    using group_by_customer_wf [of txs] by (auto simp: hm_wf_def hm_get_def map_of_eq_Some_iff)
  then show ?thesis by (auto simp: group_by_customer_get)
qed

text \<open>The window that opens with the first of a list.\<close>

definition day_window :: "bsa_tx list \<Rightarrow> bsa_tx list" where
  "day_window ts = takeWhile (within_day (bx_at (hd ts))) ts"

definition reportable_window :: "bsa_tx list \<Rightarrow> bool" where
  "reportable_window ts \<longleftrightarrow> CTR_THRESHOLD_CENTS < sum_list (map bx_amount_cents (day_window ts)) \<and> 1 < length (day_window ts)"

lemma structuring_loop_Cons:
  "structuring_loop d c n (t # ts) =
     (if reportable_window (t # ts)
      then [\<lparr>tg_kind = Structuring, tg_transactions = map bx_id (day_window (t # ts)),
             tg_aggregate_cents = min (sum_list (map bx_amount_cents (day_window (t # ts)))) u64_max,
             tg_note = show_nat n @ '' cash transactions for customer '' @ c @ '' aggregating $''
               @ d (min (sum_list (map bx_amount_cents (day_window (t # ts)))) u64_max) @ '' in 24h''\<rparr>]
      else structuring_loop d c n ts)"
proof -
  have "window_loop (bx_at t) (t # ts) 0 [] = (min (sum_list (map bx_amount_cents (day_window (t # ts)))) u64_max, map bx_id (day_window (t # ts)))"
    by (subst window_loop_eq) (simp_all add: day_window_def)
  then show ?thesis unfolding structuring_loop.simps Let_def by (auto simp: reportable_window_def CTR_THRESHOLD_CENTS_def)
qed

lemma structuring_loop_trigger:
  "tr \<in> set (structuring_loop d c n ts) \<Longrightarrow>
     \<exists>pre t post. ts = pre @ t # post \<and> reportable_window (t # post) \<and> tg_kind tr = Structuring \<and> tg_transactions tr = map bx_id (day_window (t # post))"
proof (induction ts)
  case (Cons t ts)
  show ?case
  proof (cases "reportable_window (t # ts)")
    case True
    then show ?thesis using Cons.prems unfolding structuring_loop_Cons by (intro exI [of _ "[]"] exI [of _ t] exI [of _ ts]) simp
  next
    case False
    then obtain pre t' post where "ts = pre @ t' # post" "reportable_window (t' # post)" "tg_kind tr = Structuring" "tg_transactions tr = map bx_id (day_window (t' # post))"
      using Cons unfolding structuring_loop_Cons by auto
    then show ?thesis by (intro exI [of _ "t # pre"]) auto
  qed
qed simp

lemma structuring_loop_fires: "reportable_window (t # post) \<Longrightarrow> structuring_loop d c n (pre @ t # post) \<noteq> []"
  by (induction pre) (simp_all add: structuring_loop_Cons del: structuring_loop.simps)

text \<open>The reference: some transactions, no two more than a day apart, that add up to more than the threshold.\<close>

definition structured :: "bsa_tx set \<Rightarrow> bool" where
  "structured T \<longleftrightarrow> (\<exists>S \<subseteq> T. 2 \<le> card S \<and> (\<forall>s \<in> S. \<forall>t \<in> S. num_seconds (bx_at t - bx_at s) \<le> STRUCTURING_WINDOW_SECS)
     \<and> CTR_THRESHOLD_CENTS < (\<Sum>t \<in> S. bx_amount_cents t))"

lemma num_seconds_mono: "a \<le> b \<Longrightarrow> num_seconds a \<le> num_seconds b"
  by (simp add: num_seconds_def signed_divide_int_def sgn_if) (auto simp: zdiv_mono1 intro: order_trans [of _ 0])

lemma takeWhile_prefix_sorted:
  assumes "sorted (map bx_at ts)" "t \<in> set ts" "within_day start t"
  shows "t \<in> set (takeWhile (within_day start) ts)"
  using assms
proof (induction ts)
  case (Cons x ts)
  have "within_day start x" if "t \<in> set ts"
  proof -
    have "bx_at x - start \<le> bx_at t - start" using Cons.prems(1) that by simp
    then show ?thesis using num_seconds_mono Cons.prems(3) by (fastforce simp: within_day_def)
  qed
  then show ?case using Cons by auto
qed simp

lemma reportable_iff_structured:
  assumes "distinct ts" "sorted (map bx_at ts)"
  shows "(\<exists>pre t post. ts = pre @ t # post \<and> reportable_window (t # post)) \<longleftrightarrow> structured (set ts)"
proof
  assume "\<exists>pre t post. ts = pre @ t # post \<and> reportable_window (t # post)"
  then obtain pre t post where ts: "ts = pre @ t # post" and r: "reportable_window (t # post)" by blast
  let ?S = "set (day_window (t # post))"
  have sub: "?S \<subseteq> set (t # post)" unfolding day_window_def by (auto dest: set_takeWhileD)
  have d: "distinct (day_window (t # post))" unfolding day_window_def using assms(1) ts by (intro distinct_takeWhile) simp
  have "num_seconds (bx_at v - bx_at u) \<le> STRUCTURING_WINDOW_SECS" if "u \<in> ?S" "v \<in> ?S" for u v
  proof -
    have "within_day (bx_at t) v" using that(2) unfolding day_window_def by (auto dest: set_takeWhileD)
    moreover have "bx_at t \<le> bx_at u" using that(1) sub assms(2) ts by (auto simp: sorted_append)
    ultimately show ?thesis using num_seconds_mono [of "bx_at v - bx_at u" "bx_at v - bx_at t"] by (simp add: within_day_def)
  qed
  moreover have "2 \<le> card ?S" using r d by (simp add: reportable_window_def distinct_card)
  moreover have "CTR_THRESHOLD_CENTS < (\<Sum>t \<in> ?S. bx_amount_cents t)" using r d by (simp add: reportable_window_def sum_list_distinct_conv_sum_set)
  moreover have "?S \<subseteq> set ts" using sub ts by auto
  ultimately show "structured (set ts)" unfolding structured_def by blast
next
  assume "structured (set ts)"
  then obtain S where S: "S \<subseteq> set ts" "2 \<le> card S" "\<And>s t. s \<in> S \<Longrightarrow> t \<in> S \<Longrightarrow> num_seconds (bx_at t - bx_at s) \<le> STRUCTURING_WINDOW_SECS"
    "CTR_THRESHOLD_CENTS < (\<Sum>t \<in> S. bx_amount_cents t)" unfolding structured_def by blast
  have "\<exists>x \<in> set ts. x \<in> S" using S(1,2) by (metis all_not_in_conv card.empty not_numeral_le_zero subsetD)
  then obtain pre t post where ts: "ts = pre @ t # post" "t \<in> S" "\<forall>x \<in> set pre. x \<notin> S" by (rule split_list_first_propE) blast
  then have sub: "S \<subseteq> set (t # post)" using S(1) by auto
  have d: "distinct (day_window (t # post))" unfolding day_window_def using assms(1) ts by (intro distinct_takeWhile) simp
  have srt: "sorted (map bx_at (t # post))" using assms(2) ts by (simp add: sorted_append)
  have w: "S \<subseteq> set (day_window (t # post))"
  proof
    fix s assume "s \<in> S"
    moreover have "within_day (bx_at t) s" using S(3) [OF ts(2) \<open>s \<in> S\<close>] by (simp add: within_day_def)
    ultimately show "s \<in> set (day_window (t # post))" using takeWhile_prefix_sorted [OF srt, of s "bx_at t"] sub by (auto simp: day_window_def)
  qed
  have "(\<Sum>t \<in> S. bx_amount_cents t) \<le> (\<Sum>t \<in> set (day_window (t # post)). bx_amount_cents t)" by (rule sum_mono2 [OF _ w]) simp_all
  moreover have "card S \<le> card (set (day_window (t # post)))" by (rule card_mono [OF _ w]) simp
  ultimately have "reportable_window (t # post)"
    using S(2,4) d by (simp add: reportable_window_def sum_list_distinct_conv_sum_set distinct_card)
  then show "\<exists>pre t post. ts = pre @ t # post \<and> reportable_window (t # post)" using ts(1) by blast
qed

lemma single_triggers_kind: "tr \<in> set (single_triggers d ts) \<Longrightarrow> tg_kind tr = CtrThreshold"
  by (auto simp: single_triggers_def)

text \<open>Reports and sets of transactions correspond, whatever the amounts are, with time differences in whole seconds.\<close>

lemma structuring_report_iff:
  assumes "distinct (map bx_id txs)"
  shows "(\<exists>tr \<in> set (ctr_analyze d txs). tg_kind tr = Structuring \<and> set (tg_transactions tr) \<subseteq> bx_id ` {t \<in> set txs. bx_customer_id t = c})
    \<longleftrightarrow> structured {t \<in> set txs. bx_is_cash t \<and> bx_customer_id t = c}"
proof -
  define cash where "cash = sort_key bx_at (filter bx_is_cash txs)"
  define ts where "ts = filter (\<lambda>t. bx_customer_id t = c) cash"
  have set_ts: "set ts = {t \<in> set txs. bx_is_cash t \<and> bx_customer_id t = c}" by (auto simp: ts_def cash_def)
  have "distinct txs" using assms by (simp add: distinct_map)
  then have ts: "distinct ts" "sorted (map bx_at ts)" by (simp_all add: ts_def cash_def sorted_filter)
  have inj: "t = u" if "t \<in> set txs" "u \<in> set txs" "bx_id t = bx_id u" for t u using assms that by (auto simp: distinct_map dest: inj_onD)
  show ?thesis unfolding set_ts [symmetric] reportable_iff_structured [OF ts, symmetric]
  proof
    assume "\<exists>tr \<in> set (ctr_analyze d txs). tg_kind tr = Structuring \<and> set (tg_transactions tr) \<subseteq> bx_id ` {t \<in> set txs. bx_customer_id t = c}"
    then obtain tr where tr: "tr \<in> set (ctr_analyze d txs)" "tg_kind tr = Structuring" "set (tg_transactions tr) \<subseteq> bx_id ` {t \<in> set txs. bx_customer_id t = c}" by blast
    then obtain cust us where g: "(cust, us) \<in> set (group_by_customer cash)" "tr \<in> set (structuring_loop d cust (length us) us)"
      using single_triggers_kind [of tr d cash] by (auto simp: ctr_analyze_def cash_def [symmetric] Let_def)
    obtain pre t post where w: "us = pre @ t # post" "reportable_window (t # post)" "tg_transactions tr = map bx_id (day_window (t # post))"
      using structuring_loop_trigger [OF g(2)] by blast
    have us: "us = filter (\<lambda>t. bx_customer_id t = cust) cash" using g(1) by (simp add: group_by_customer_entry)
    have "day_window (t # post) \<noteq> []" using w(2) by (auto simp: reportable_window_def)
    then have "t \<in> set (day_window (t # post))" by (simp add: day_window_def split: if_splits)
    then have "bx_id t \<in> bx_id ` {t \<in> set txs. bx_customer_id t = c}" using tr(3) w(3) by auto
    moreover have "t \<in> set us" using w(1) by simp
    then have "t \<in> set txs" "bx_customer_id t = cust" by (auto simp: us cash_def)
    ultimately have "cust = c" using inj by auto
    then show "\<exists>pre t post. ts = pre @ t # post \<and> reportable_window (t # post)" using w(1,2) us by (auto simp: ts_def)
  next
    assume "\<exists>pre t post. ts = pre @ t # post \<and> reportable_window (t # post)"
    then obtain pre t post where w: "ts = pre @ t # post" "reportable_window (t # post)" by blast
    then obtain tr where tr: "tr \<in> set (structuring_loop d c (length ts) ts)"
      using structuring_loop_fires [OF w(2), of d c "length ts" pre] by (metis list.set_intros(1) neq_Nil_conv)
    have "t \<in> set ts" using w(1) by simp
    then have "(c, ts) \<in> set (group_by_customer cash)" unfolding group_by_customer_entry by (auto simp: ts_def)
    then have "tr \<in> set (ctr_analyze d txs)" using tr by (auto simp: ctr_analyze_def cash_def [symmetric] Let_def)
    moreover obtain pre' t' post' where "ts = pre' @ t' # post'" "tg_kind tr = Structuring" "tg_transactions tr = map bx_id (day_window (t' # post'))"
      using structuring_loop_trigger [OF tr] by blast
    moreover have "set (day_window us) \<subseteq> set us" for us unfolding day_window_def by (auto dest: set_takeWhileD)
    ultimately show "\<exists>tr \<in> set (ctr_analyze d txs). tg_kind tr = Structuring \<and> set (tg_transactions tr) \<subseteq> bx_id ` {t \<in> set txs. bx_customer_id t = c}"
      using set_ts by (intro bexI [of _ tr]) fastforce+
  qed
qed

text \<open>
  The cash transactions the documentation of the report speaks of: dollars, each not over the threshold itself.  (The code adds up transactions over the threshold and in
  other currencies as well, and truncates time differences to seconds, so times are taken in whole seconds.)
\<close>

definition plain_cash :: "bsa_tx \<Rightarrow> bool" where
  "plain_cash t \<longleftrightarrow> bx_amount_cents t \<le> CTR_THRESHOLD_CENTS \<and> bx_currency t = ''USD'' \<and> 1000000000 dvd bx_at t"

lemma num_seconds_whole: "1000000000 dvd d \<Longrightarrow> num_seconds d \<le> STRUCTURING_WINDOW_SECS \<longleftrightarrow> d \<le> 24 * 60 * 60 * 1000000000"
proof -
  assume "1000000000 dvd d"
  then obtain k where "d = 1000000000 * k" ..
  moreover have "num_seconds (1000000000 * k) = k" by (cases "0 \<le> k") (auto simp: num_seconds_def signed_divide_int_def sgn_if)
  ultimately show ?thesis by (simp add: STRUCTURING_WINDOW_SECS_def)
qed

text \<open>
  C36.  Structuring is reported exactly: among transactions with different ids, when the cash transactions of a customer are in dollars, none over the threshold itself, at
  times of whole seconds, there is a report on transactions of the customer if and only if some of these, two or more and no two of them more than
  24 hours apart, add up to more than the threshold.
\<close>

theorem structuring_reported_exactly:
  assumes "distinct (map bx_id txs)" and "\<forall>t \<in> set txs. bx_is_cash t \<and> bx_customer_id t = c \<longrightarrow> plain_cash t"
  shows "(\<exists>tr \<in> set (ctr_analyze d txs). tg_kind tr = Structuring \<and> set (tg_transactions tr) \<subseteq> bx_id ` {t \<in> set txs. bx_customer_id t = c})
    \<longleftrightarrow> (\<exists>S \<subseteq> {t \<in> set txs. bx_is_cash t \<and> bx_customer_id t = c}. 2 \<le> card S
          \<and> (\<forall>s \<in> S. \<forall>t \<in> S. bx_at t - bx_at s \<le> 24 * 60 * 60 * 1000000000) \<and> CTR_THRESHOLD_CENTS < (\<Sum>t \<in> S. bx_amount_cents t))"
proof -
  let ?T = "{t \<in> set txs. bx_is_cash t \<and> bx_customer_id t = c}"
  have "num_seconds (bx_at t - bx_at s) \<le> STRUCTURING_WINDOW_SECS \<longleftrightarrow> bx_at t - bx_at s \<le> 24 * 60 * 60 * 1000000000" if "s \<in> ?T" "t \<in> ?T" for s t
    using that assms(2) by (intro num_seconds_whole dvd_diff) (auto simp: plain_cash_def)
  then have eq: "(\<forall>s \<in> S. \<forall>t \<in> S. num_seconds (bx_at t - bx_at s) \<le> STRUCTURING_WINDOW_SECS) \<longleftrightarrow> (\<forall>s \<in> S. \<forall>t \<in> S. bx_at t - bx_at s \<le> 24 * 60 * 60 * 1000000000)"
    if "S \<subseteq> ?T" for S using that by (meson subsetD)
  show ?thesis unfolding structuring_report_iff [OF assms(1)] structured_def
    by (rule ex_cong1, rule conj_cong [OF refl], rule conj_cong [OF refl], rule conj_cong [OF eq refl])
qed

definition deposit :: "string \<Rightarrow> int \<Rightarrow> nat \<Rightarrow> bsa_tx" where
  "deposit i at cents = \<lparr>bx_id = i, bx_customer_id = ''c1'', bx_at = at, bx_amount_cents = cents, bx_currency = ''USD'', bx_is_cash = True,
     bx_inbound = True, bx_country = None\<rparr>"

theorem structuring_reported_exactly_witness:
  "distinct (map bx_id [deposit ''a'' 0 600000, deposit ''b'' 1000000000 500000])
   \<and> (\<exists>tr \<in> set (ctr_analyze (\<lambda>_. []) [deposit ''a'' 0 600000, deposit ''b'' 1000000000 500000]). tg_kind tr = Structuring
        \<and> set (tg_transactions tr) \<subseteq> bx_id ` {t \<in> set [deposit ''a'' 0 600000, deposit ''b'' 1000000000 500000]. bx_customer_id t = ''c1''})"
proof -
  let ?txs = "[deposit ''a'' 0 600000, deposit ''b'' 1000000000 500000]"
  have d: "distinct (map bx_id ?txs)" by (simp add: deposit_def)
  have ne: "deposit ''a'' 0 600000 \<noteq> deposit ''b'' 1000000000 500000" by (simp add: deposit_def)
  have p: "\<forall>t \<in> set ?txs. bx_is_cash t \<and> bx_customer_id t = ''c1'' \<longrightarrow> plain_cash t"
    by (simp add: plain_cash_def deposit_def CTR_THRESHOLD_CENTS_def)
  have "\<exists>S \<subseteq> {t \<in> set ?txs. bx_is_cash t \<and> bx_customer_id t = ''c1''}. 2 \<le> card S
      \<and> (\<forall>s \<in> S. \<forall>t \<in> S. bx_at t - bx_at s \<le> 24 * 60 * 60 * 1000000000) \<and> CTR_THRESHOLD_CENTS < (\<Sum>t \<in> S. bx_amount_cents t)"
  proof (intro exI [of _ "set ?txs"] conjI)
    show "set ?txs \<subseteq> {t \<in> set ?txs. bx_is_cash t \<and> bx_customer_id t = ''c1''}" by (simp add: deposit_def)
    show "2 \<le> card (set ?txs)" using ne by simp
    show "\<forall>s \<in> set ?txs. \<forall>t \<in> set ?txs. bx_at t - bx_at s \<le> 24 * 60 * 60 * 1000000000" by (simp add: deposit_def)
    show "CTR_THRESHOLD_CENTS < (\<Sum>t \<in> set ?txs. bx_amount_cents t)" using ne by (simp add: CTR_THRESHOLD_CENTS_def) (simp add: deposit_def)
  qed
  then show ?thesis using d structuring_reported_exactly [OF d p, of "\<lambda>_. []"] by blast
qed

text \<open>Only neighbouring transactions are compared: money that leaves in two parts within the window is not reported.  Large amounts
  overflow the products.\<close>

definition transferred :: "string \<Rightarrow> int \<Rightarrow> nat \<Rightarrow> bool \<Rightarrow> bsa_tx" where
  "transferred i at cents inbound = (deposit i at cents)\<lparr>bx_is_cash := False, bx_inbound := inbound\<rparr>"

lemma split_outflow_unreported:
  "rapid_loop d c [transferred ''in'' 0 1000000 True, transferred ''out1'' 1000000000 1 False, transferred ''out2'' 2000000000 999999 False] = Ok []"
  by (simp add: transferred_def deposit_def u64_val_def del: rbind_eq_Ok)

lemma rapid_overflow_panics:
  assumes "bx_inbound a" "\<not> bx_inbound b" "num_seconds (bx_at b - bx_at a) \<le> RAPID_IN_OUT_WINDOW_SECS" "bx_amount_cents b * 100 > u64_max"
  shows "rapid_loop d c [a, b] = Panic"
  using assms by (simp add: u64_val_def)

end
