(* ===== verification/Orchestrator_Concurrent.thy ===== *)
theory Orchestrator_Concurrent
  imports Orchestrator
begin

text \<open>
  Overlapping runs of the orchestrator (\<^verbatim>\<open>op-orchestrator/src/engine.rs\<close>, \<^verbatim>\<open>run\<close>).  A run touches the shared idempotency store twice: it
  reserves its key at the start and commits or releases it at the end, each under the store's lock, and holds no lock in
  between.  So any number of runs interleave at these two points, with resumptions anywhere; what the rails do meanwhile is
  arbitrary, and a run that panics never comes to its second point.
  Shown: whatever the interleaving, an idempotency key is executed successfully at most once and by one run at a time.
\<close>

section \<open>The two atomic parts of a run\<close>

definition run_begin :: "idempotency_store \<Rightarrow> payment_intent \<Rightarrow> idempotency_store \<times> (orchestration_outcome, orch_error) result option" where
  "run_begin m i =
     (let sig = body_signature i; (m, rec) = reserve m (pi_idempotency_key i) sig
      in (m, case rec of
               Some rec \<Rightarrow>
                 Some (if ir_body_signature rec \<noteq> sig then Err OrchIdempotencyMismatch
                       else case ir_outcome rec of Some cached \<Rightarrow> Ok cached | None \<Rightarrow> Err (AllRailsExhausted 0))
             | None \<Rightarrow> None))"

fun run_end :: "idempotency_store \<Rightarrow> payment_intent \<Rightarrow> (orchestration_outcome, orch_error) result \<Rightarrow> idempotency_store" where
  "run_end m i (Ok out) = commit m (pi_idempotency_key i) out"
| "run_end m i (Err e) = release m (pi_idempotency_key i)"
| "run_end m i Panic = m"

text \<open>A run that nothing interrupts is the two parts in sequence around the execution.\<close>

lemma run_in_parts:
  "run eng s i =
     (let (m, early) = run_begin (os_idempotency s) i; s = s\<lparr>os_idempotency := m\<rparr>
      in case early of
           Some r \<Rightarrow> (s, r)
         | None \<Rightarrow> (let (s, r) = run_inner eng i s in (s\<lparr>os_idempotency := run_end (os_idempotency s) i r\<rparr>, r)))"
proof -
  obtain m rec where m: "reserve (os_idempotency s) (pi_idempotency_key i) (body_signature i) = (m, rec)" by fastforce
  show ?thesis
  proof (cases rec)
    case None
    obtain s' r where "run_inner eng i (s\<lparr>os_idempotency := m\<rparr>) = (s', r)" by fastforce
    then show ?thesis using m None by (cases r) (simp_all add: run_def run_begin_def)
  qed (simp add: run_def run_begin_def m)
qed

section \<open>Interleavings\<close>

text \<open>Calls are numbered; \<open>cc_live\<close> holds the intents of those that are executing.\<close>

record concurrent =
  cc_store :: idempotency_store
  cc_live :: "nat \<Rightarrow> payment_intent option"

datatype call_event =
    Executes nat string
  | Answers nat string "(orchestration_outcome, orch_error) result"
  | Returns nat string "(orchestration_outcome, orch_error) result"
  | Resumes string orchestration_outcome

inductive conc_step :: "concurrent \<Rightarrow> call_event \<Rightarrow> concurrent \<Rightarrow> bool" where
  start: "cc_live c t = None \<Longrightarrow> run_begin (cc_store c) i = (m, None) \<Longrightarrow>
    conc_step c (Executes t (pi_idempotency_key i)) (c\<lparr>cc_store := m, cc_live := (cc_live c)(t \<mapsto> i)\<rparr>)"
| answer: "run_begin (cc_store c) i = (m, Some r) \<Longrightarrow> conc_step c (Answers t (pi_idempotency_key i) r) (c\<lparr>cc_store := m\<rparr>)"
| finish: "cc_live c t = Some i \<Longrightarrow>
    conc_step c (Returns t (pi_idempotency_key i) r) (c\<lparr>cc_store := run_end (cc_store c) i r, cc_live := (cc_live c)(t := None)\<rparr>)"
| resume: "conc_step c (Resumes k out) (c\<lparr>cc_store := commit (cc_store c) k out\<rparr>)"

inductive conc_trace :: "call_event list \<Rightarrow> concurrent \<Rightarrow> bool" where
  idle: "conc_trace [] \<lparr>cc_store = [], cc_live = Map.empty\<rparr>"
| step: "conc_trace es c \<Longrightarrow> conc_step c e c' \<Longrightarrow> conc_trace (es @ [e]) c'"

inductive_cases conc_step_cases: "conc_step c e c'"

section \<open>At most one successful execution per key\<close>

definition settled :: "idempotency_store \<Rightarrow> string \<Rightarrow> bool" where
  "settled m k \<longleftrightarrow> (\<exists>rec out. hm_get m k = Some rec \<and> ir_outcome rec = Some out)"

lemma run_begin_None: "run_begin m i = (m', None) \<longleftrightarrow>
    hm_get m (pi_idempotency_key i) = None \<and> m' = hm_insert (pi_idempotency_key i) \<lparr>ir_body_signature = body_signature i, ir_outcome = None\<rparr> m"
  by (cases "hm_get m (pi_idempotency_key i)") (auto simp: run_begin_def reserve_def Let_def)

lemma run_begin_Some: "run_begin m i = (m', Some r) \<Longrightarrow>
    m' = m \<and> (\<exists>rec. hm_get m (pi_idempotency_key i) = Some rec \<and> (\<forall>out. r = Ok out \<longrightarrow> ir_outcome rec = Some out))"
  by (cases "hm_get m (pi_idempotency_key i)") (auto simp: run_begin_def reserve_def Let_def split: option.splits if_splits)

lemma commit_get: "hm_get (commit m k out) k' = (if k' = k then Some (case hm_get m k of Some rec \<Rightarrow> rec\<lparr>ir_outcome := Some out\<rparr> | None \<Rightarrow> \<lparr>ir_body_signature = [], ir_outcome = Some out\<rparr>) else hm_get m k')"
  by (auto simp: commit_def split: option.split)

lemma release_get: "hm_get (release m k) k' = (if k' = k \<and> \<not> settled m k then None else hm_get m k')"
  by (auto simp: release_def settled_def split: option.split)

lemma run_end_other: "k \<noteq> pi_idempotency_key i \<Longrightarrow> hm_get (run_end m i r) k = hm_get m k"
  by (cases r) (simp_all add: commit_get release_get)

lemma run_end_settled: "settled m k \<Longrightarrow> settled (run_end m i r) k"
  by (cases r) (auto simp: settled_def commit_get release_get split: option.split)

text \<open>What every interleaving keeps: the key of an executing run is reserved, no two runs execute the same key, a key that was
  executed successfully is settled and no longer executed, every settled key was settled by a return or a resumption.\<close>

definition conc_inv :: "call_event list \<Rightarrow> concurrent \<Rightarrow> bool" where
  "conc_inv es c \<longleftrightarrow>
     (\<forall>t i. cc_live c t = Some i \<longrightarrow> hm_get (cc_store c) (pi_idempotency_key i) \<noteq> None)
   \<and> (\<forall>t t' i j. cc_live c t = Some i \<and> cc_live c t' = Some j \<and> pi_idempotency_key i = pi_idempotency_key j \<longrightarrow> t = t')
   \<and> (\<forall>t k out. Returns t k (Ok out) \<in> set es \<longrightarrow> settled (cc_store c) k \<and> (\<forall>t' i. cc_live c t' = Some i \<longrightarrow> pi_idempotency_key i \<noteq> k))
   \<and> (\<forall>k rec out. hm_get (cc_store c) k = Some rec \<and> ir_outcome rec = Some out \<longrightarrow> (\<exists>t. Returns t k (Ok out) \<in> set es) \<or> Resumes k out \<in> set es)"

lemma conc_inv_returned:
  "conc_inv es c \<Longrightarrow> Returns t k (Ok out) \<in> set es \<Longrightarrow> settled (cc_store c) k"
  "conc_inv es c \<Longrightarrow> Returns t k (Ok out) \<in> set es \<Longrightarrow> cc_live c t' = Some i \<Longrightarrow> pi_idempotency_key i \<noteq> k"
  unfolding conc_inv_def by blast+

lemma conc_inv_origin:
  "conc_inv es c \<Longrightarrow> hm_get (cc_store c) k = Some rec \<Longrightarrow> ir_outcome rec = Some out \<Longrightarrow> (\<exists>t. Returns t k (Ok out) \<in> set es) \<or> Resumes k out \<in> set es"
  unfolding conc_inv_def by blast

lemma conc_inv_live:
  "conc_inv es c \<Longrightarrow> cc_live c t = Some i \<Longrightarrow> hm_get (cc_store c) (pi_idempotency_key i) \<noteq> None"
  "conc_inv es c \<Longrightarrow> cc_live c t = Some i \<Longrightarrow> cc_live c t' = Some j \<Longrightarrow> pi_idempotency_key i = pi_idempotency_key j \<Longrightarrow> t = t'"
  unfolding conc_inv_def by blast+

lemma conc_invI:
  assumes "\<And>t i. cc_live c t = Some i \<Longrightarrow> hm_get (cc_store c) (pi_idempotency_key i) \<noteq> None"
    and "\<And>t t' i j. cc_live c t = Some i \<Longrightarrow> cc_live c t' = Some j \<Longrightarrow> pi_idempotency_key i = pi_idempotency_key j \<Longrightarrow> t = t'"
    and "\<And>t k out. Returns t k (Ok out) \<in> set es \<Longrightarrow> settled (cc_store c) k"
    and "\<And>t k out t' i. Returns t k (Ok out) \<in> set es \<Longrightarrow> cc_live c t' = Some i \<Longrightarrow> pi_idempotency_key i \<noteq> k"
    and "\<And>k rec out. hm_get (cc_store c) k = Some rec \<Longrightarrow> ir_outcome rec = Some out \<Longrightarrow> (\<exists>t. Returns t k (Ok out) \<in> set es) \<or> Resumes k out \<in> set es"
  shows "conc_inv es c"
  unfolding conc_inv_def using assms by blast

lemma conc_inv_start:
  assumes "conc_inv es c" and "run_begin (cc_store c) i = (m, None)"
  shows "conc_inv (es @ [Executes t (pi_idempotency_key i)]) (c\<lparr>cc_store := m, cc_live := (cc_live c)(t \<mapsto> i)\<rparr>)"
proof -
  let ?k = "pi_idempotency_key i"
  have free: "hm_get (cc_store c) ?k = None" and m: "m = hm_insert ?k \<lparr>ir_body_signature = body_signature i, ir_outcome = None\<rparr> (cc_store c)"
    using assms(2) by (simp_all add: run_begin_None)
  let ?c = "c\<lparr>cc_store := m, cc_live := (cc_live c)(t \<mapsto> i)\<rparr>"
  have live: "pi_idempotency_key j \<noteq> ?k" if "cc_live c t' = Some j" for t' j using conc_inv_live(1) [OF assms(1) that] free by auto
  have finished: "k \<noteq> ?k" if "Returns t' k (Ok out) \<in> set es" for t' k out using conc_inv_returned(1) [OF assms(1) that] free by (auto simp: settled_def)
  show ?thesis
  proof (rule conc_invI)
    show "hm_get (cc_store ?c) (pi_idempotency_key j) \<noteq> None" if "cc_live ?c t' = Some j" for t' j
      using that conc_inv_live(1) [OF assms(1), of t' j] by (auto simp: m split: if_splits)
    show "t1 = t2" if "cc_live ?c t1 = Some j1" "cc_live ?c t2 = Some j2" "pi_idempotency_key j1 = pi_idempotency_key j2" for t1 t2 j1 j2
      using that live [of t1 j1] live [of t2 j2] conc_inv_live(2) [OF assms(1), of t1 j1 t2 j2] by (auto split: if_splits)
    show "settled (cc_store ?c) k" if "Returns t' k (Ok out) \<in> set (es @ [Executes t ?k])" for t' k out
      using that finished [of t' k out] conc_inv_returned(1) [OF assms(1), of t' k out] by (auto simp: m settled_def)
    show "pi_idempotency_key j \<noteq> k" if "Returns t' k (Ok out) \<in> set (es @ [Executes t ?k])" "cc_live ?c t2 = Some j" for t' k out t2 j
      using that finished [of t' k out] conc_inv_returned(2) [OF assms(1), of t' k out t2 j] by (auto split: if_splits)
    show "(\<exists>t'. Returns t' k (Ok out) \<in> set (es @ [Executes t ?k])) \<or> Resumes k out \<in> set (es @ [Executes t ?k])"
      if "hm_get (cc_store ?c) k = Some rec" "ir_outcome rec = Some out" for k rec out
      using that conc_inv_origin [OF assms(1), of k rec out] by (auto simp: m split: if_splits)
  qed
qed

lemma conc_inv_finish:
  assumes "conc_inv es c" and "cc_live c t = Some i"
  shows "conc_inv (es @ [Returns t (pi_idempotency_key i) r]) (c\<lparr>cc_store := run_end (cc_store c) i r, cc_live := (cc_live c)(t := None)\<rparr>)"
proof -
  let ?k = "pi_idempotency_key i" and ?m = "run_end (cc_store c) i r"
  have alone: "cc_live c t' = Some j \<Longrightarrow> t' \<noteq> t \<Longrightarrow> pi_idempotency_key j \<noteq> ?k" for t' j
    using assms unfolding conc_inv_def by metis
  have new: "r = Ok out \<Longrightarrow> settled ?m ?k" for out by (auto simp: settled_def commit_get split: option.split)
  have origin: "(\<exists>t'. Returns t' k (Ok out) \<in> set es) \<or> Resumes k out \<in> set es \<or> (k = ?k \<and> r = Ok out)"
    if "hm_get ?m k = Some rec" "ir_outcome rec = Some out" for k rec out
  proof (cases "k = ?k")
    case False
    then show ?thesis using that run_end_other [of k i "cc_store c" r] assms(1) unfolding conc_inv_def by metis
  next
    case True
    then show ?thesis using that assms(1) unfolding conc_inv_def
      by (cases r) (auto simp: commit_get release_get split: option.splits if_splits)
  qed
  let ?c = "c\<lparr>cc_store := ?m, cc_live := (cc_live c)(t := None)\<rparr>"
  show ?thesis
  proof (rule conc_invI)
    show "hm_get (cc_store ?c) (pi_idempotency_key j) \<noteq> None" if "cc_live ?c t' = Some j" for t' j
    proof -
      have "t' \<noteq> t" "cc_live c t' = Some j" using that by (auto split: if_splits)
      then show ?thesis using alone [of t' j] run_end_other [of "pi_idempotency_key j" i "cc_store c" r] conc_inv_live(1) [OF assms(1)] by simp
    qed
    show "t1 = t2" if "cc_live ?c t1 = Some j1" "cc_live ?c t2 = Some j2" "pi_idempotency_key j1 = pi_idempotency_key j2" for t1 t2 j1 j2
      using that conc_inv_live(2) [OF assms(1), of t1 j1 t2 j2] by (auto split: if_splits)
    show "settled (cc_store ?c) k" if "Returns t' k (Ok out) \<in> set (es @ [Returns t ?k r])" for t' k out
      using that new run_end_settled [of "cc_store c" k i r] conc_inv_returned(1) [OF assms(1), of t' k out] by auto
    show "pi_idempotency_key j \<noteq> k" if "Returns t' k (Ok out) \<in> set (es @ [Returns t ?k r])" "cc_live ?c t2 = Some j" for t' k out t2 j
      using that alone [of t2 j] conc_inv_returned(2) [OF assms(1), of t' k out t2 j] by (auto split: if_splits)
    show "(\<exists>t'. Returns t' k (Ok out) \<in> set (es @ [Returns t ?k r])) \<or> Resumes k out \<in> set (es @ [Returns t ?k r])"
      if "hm_get (cc_store ?c) k = Some rec" "ir_outcome rec = Some out" for k rec out
      using that origin [of k rec out] by auto
  qed
qed

lemma conc_inv_resume:
  assumes "conc_inv es c"
  shows "conc_inv (es @ [Resumes k out]) (c\<lparr>cc_store := commit (cc_store c) k out\<rparr>)" (is "conc_inv ?es ?c")
proof (rule conc_invI)
  show "hm_get (cc_store ?c) (pi_idempotency_key j) \<noteq> None" if "cc_live ?c t = Some j" for t j
    using that conc_inv_live(1) [OF assms, of t j] by (simp add: commit_get)
  show "t1 = t2" if "cc_live ?c t1 = Some j1" "cc_live ?c t2 = Some j2" "pi_idempotency_key j1 = pi_idempotency_key j2" for t1 t2 j1 j2
    using that conc_inv_live(2) [OF assms, of t1 j1 t2 j2] by simp
  show "settled (cc_store ?c) k'" if "Returns t k' (Ok out') \<in> set ?es" for t k' out'
    using that conc_inv_returned(1) [OF assms, of t k' out'] by (auto simp: settled_def commit_get split: option.split)
  show "pi_idempotency_key j \<noteq> k'" if "Returns t k' (Ok out') \<in> set ?es" "cc_live ?c t2 = Some j" for t k' out' t2 j
    using that conc_inv_returned(2) [OF assms, of t k' out' t2 j] by simp
  show "(\<exists>t. Returns t k' (Ok out') \<in> set ?es) \<or> Resumes k' out' \<in> set ?es"
    if "hm_get (cc_store ?c) k' = Some rec" "ir_outcome rec = Some out'" for k' rec out'
    using that conc_inv_origin [OF assms, of k' rec out'] by (auto simp: commit_get split: if_splits option.splits)
qed

lemma conc_inv_step: "conc_inv es c \<Longrightarrow> conc_step c e c' \<Longrightarrow> conc_inv (es @ [e]) c'"
proof (erule conc_step_cases)
  fix t i m assume "conc_inv es c" "run_begin (cc_store c) i = (m, None)" "e = Executes t (pi_idempotency_key i)" "c' = c\<lparr>cc_store := m, cc_live := (cc_live c)(t \<mapsto> i)\<rparr>"
  then show ?thesis using conc_inv_start by simp
next
  fix t i m r assume "conc_inv es c" "e = Answers t (pi_idempotency_key i) r" "c' = c\<lparr>cc_store := m\<rparr>" "run_begin (cc_store c) i = (m, Some r)"
  moreover have "m = cc_store c" using run_begin_Some calculation(4) by blast
  ultimately show ?thesis by (simp add: conc_inv_def) blast
next
  fix t i r assume "conc_inv es c" "cc_live c t = Some i" "e = Returns t (pi_idempotency_key i) r"
    "c' = c\<lparr>cc_store := run_end (cc_store c) i r, cc_live := (cc_live c)(t := None)\<rparr>"
  then show ?thesis using conc_inv_finish by simp
next
  fix k out assume "conc_inv es c" "e = Resumes k out" "c' = c\<lparr>cc_store := commit (cc_store c) k out\<rparr>"
  then show ?thesis using conc_inv_resume by simp
qed

lemma conc_trace_inv: "conc_trace es c \<Longrightarrow> conc_inv es c"
proof (induction rule: conc_trace.induct)
  case idle
  show ?case by (simp add: conc_inv_def settled_def)
next
  case (step es c e c')
  then show ?case using conc_inv_step by blast
qed

fun executes :: "string \<Rightarrow> call_event \<Rightarrow> bool" where
  "executes k (Executes t k') \<longleftrightarrow> k' = k"
| "executes k (Returns t k' (Ok out)) \<longleftrightarrow> k' = k"
| "executes k _ \<longleftrightarrow> False"

lemma executes_step:
  assumes "conc_inv es c" "conc_step c e c'" "Returns t k (Ok out) \<in> set es"
  shows "\<not> executes k e"
  using assms(2)
proof cases
  case (start t' i m)
  then have "hm_get (cc_store c) (pi_idempotency_key i) = None" by (simp add: run_begin_None)
  then show ?thesis using conc_inv_returned(1) [OF assms(1,3)] start by (auto simp: settled_def)
next
  case (finish t' i r)
  then have "pi_idempotency_key i \<noteq> k" using conc_inv_returned(2) [OF assms(1,3)] by blast
  then show ?thesis using finish by (cases r) simp_all
qed simp_all

lemma trace_no_second_execution: "conc_trace es c \<Longrightarrow> es = es1 @ Returns t k (Ok out) # es2 \<Longrightarrow> list_all (\<lambda>e. \<not> executes k e) es2"
proof (induction arbitrary: es2 rule: conc_trace.induct)
  case (step es c e c')
  show ?case
  proof (cases es2 rule: rev_cases)
    case (snoc es3 e')
    then have es: "es = es1 @ Returns t k (Ok out) # es3" "e' = e" using step.prems by simp_all
    then have "\<not> executes k e" using executes_step [OF conc_trace_inv [OF step.hyps(1)] step.hyps(2), of t k out] by simp
    then show ?thesis using step.IH [OF es(1)] snoc es(2) by simp
  qed simp
qed simp

lemma trace_answers: "conc_trace es c \<Longrightarrow> Answers t k (Ok out) \<in> set es \<Longrightarrow> (\<exists>t'. Returns t' k (Ok out) \<in> set es) \<or> Resumes k out \<in> set es"
proof (induction rule: conc_trace.induct)
  case (step es c e c')
  show ?case
  proof (cases "Answers t k (Ok out) \<in> set es")
    case False
    then have "e = Answers t k (Ok out)" using step.prems by simp
    then obtain i m where i: "run_begin (cc_store c) i = (m, Some (Ok out))" "k = pi_idempotency_key i"
      using step.hyps(2) by (auto elim: conc_step_cases)
    then obtain rec where "hm_get (cc_store c) k = Some rec" "ir_outcome rec = Some out" using run_begin_Some [OF i(1)] by auto
    then show ?thesis using conc_inv_origin [OF conc_trace_inv [OF step.hyps(1)]] by auto
  qed (use step.IH in auto)
qed simp

text \<open>
  C6.  Exactly once under concurrency: in every interleaving of runs and resumptions, no two runs execute the same key at the
  same time; after a run of a key has returned an outcome, no run of the key executes or returns an outcome of its own
  again; and an outcome that is answered without execution is one that a run of that key returned or a resumption
  committed.
\<close>

theorem concurrent_exactly_once:
  assumes "conc_trace es c"
  shows "(\<forall>t t' i j. cc_live c t = Some i \<and> cc_live c t' = Some j \<and> pi_idempotency_key i = pi_idempotency_key j \<longrightarrow> t = t')
    \<and> (\<forall>es1 t k out es2. es = es1 @ Returns t k (Ok out) # es2 \<longrightarrow> list_all (\<lambda>e. \<not> executes k e) es2)
    \<and> (\<forall>t k out. Answers t k (Ok out) \<in> set es \<longrightarrow> (\<exists>t'. Returns t' k (Ok out) \<in> set es) \<or> Resumes k out \<in> set es)"
  using conc_inv_live(2) [OF conc_trace_inv [OF assms]] trace_no_second_execution [OF assms] trace_answers [OF assms] by blast

definition sample_trace :: "call_event list" where
  "sample_trace = [Executes 1 (pi_idempotency_key sample_intent), Answers 2 (pi_idempotency_key sample_intent) (Err (AllRailsExhausted 0)),
     Returns 1 (pi_idempotency_key sample_intent) (Ok sample_outcome), Answers 2 (pi_idempotency_key sample_intent) (Ok sample_outcome)]"

lemma sample_trace_runs: "\<exists>c. conc_trace sample_trace c"
proof -
  let ?k = "pi_idempotency_key sample_intent"
  let ?c0 = "\<lparr>cc_store = [], cc_live = Map.empty\<rparr>"
  let ?m = "fst (run_begin [] sample_intent)"
  let ?c1 = "\<lparr>cc_store = ?m, cc_live = [1 \<mapsto> sample_intent]\<rparr>"
  let ?c3 = "\<lparr>cc_store = commit ?m ?k sample_outcome, cc_live = Map.empty\<rparr>"
  have g: "hm_get ?m ?k = Some \<lparr>ir_body_signature = body_signature sample_intent, ir_outcome = None\<rparr>" by (simp add: run_begin_def reserve_def Let_def)
  have "conc_step ?c0 (Executes 1 ?k) ?c1"
    using conc_step.start [of ?c0 1 sample_intent ?m] by (simp add: run_begin_def reserve_def Let_def)
  note t = conc_trace.step [OF conc_trace.idle this]
  have "conc_step ?c1 (Answers 2 ?k (Err (AllRailsExhausted 0))) ?c1"
    using conc_step.answer [of ?c1 sample_intent ?m "Err (AllRailsExhausted 0)" 2] g by (simp add: run_begin_def [of ?m] reserve_def [of ?m] Let_def)
  note t = conc_trace.step [OF t this]
  have "conc_step ?c1 (Returns 1 ?k (Ok sample_outcome)) ?c3"
    using conc_step.finish [of ?c1 1 sample_intent "Ok sample_outcome"] by simp
  note t = conc_trace.step [OF t this]
  have "conc_step ?c3 (Answers 2 ?k (Ok sample_outcome)) ?c3"
    using conc_step.answer [of ?c3 sample_intent "commit ?m ?k sample_outcome" "Ok sample_outcome" 2] commit_get [of ?m ?k sample_outcome ?k] g
    by (simp add: run_begin_def [of "commit ?m ?k sample_outcome"] reserve_def [of "commit ?m ?k sample_outcome"] Let_def)
  note t = conc_trace.step [OF t this]
  show ?thesis unfolding sample_trace_def using t unfolding append.simps by blast
qed

theorem concurrent_exactly_once_witness:
  "\<exists>c. conc_trace sample_trace c
     \<and> (\<forall>es1 t k out es2. sample_trace = es1 @ Returns t k (Ok out) # es2 \<longrightarrow> list_all (\<lambda>e. \<not> executes k e) es2)
     \<and> (\<exists>t'. Returns t' (pi_idempotency_key sample_intent) (Ok sample_outcome) \<in> set sample_trace)"
proof -
  obtain c where c: "conc_trace sample_trace c" using sample_trace_runs by blast
  have "Answers 2 (pi_idempotency_key sample_intent) (Ok sample_outcome) \<in> set sample_trace"
    "Resumes (pi_idempotency_key sample_intent) sample_outcome \<notin> set sample_trace" by (simp_all add: sample_trace_def)
  then show ?thesis using c concurrent_exactly_once [OF c] by blast
qed

text \<open>A run that panics leaves its key reserved for good: no later call executes the key or frees it, only a resumption settles it.\<close>

definition stuck :: "concurrent \<Rightarrow> string \<Rightarrow> bool" where
  "stuck c k \<longleftrightarrow> (\<exists>rec. hm_get (cc_store c) k = Some rec \<and> ir_outcome rec = None) \<and> (\<forall>t i. cc_live c t = Some i \<longrightarrow> pi_idempotency_key i \<noteq> k)"

lemma panicked_key_stuck:
  assumes "stuck c k" and "conc_step c e c'" and "\<And>out. e \<noteq> Resumes k out"
  shows "stuck c' k \<and> \<not> executes k e"
  using assms(2)
proof cases
  case (start t i m)
  then show ?thesis using assms(1) by (auto simp: stuck_def run_begin_None split: if_splits)
next
  case (answer i m r t)
  then show ?thesis using assms(1) run_begin_Some [of "cc_store c" i m r] by (auto simp: stuck_def)
next
  case (finish t i r)
  then have "pi_idempotency_key i \<noteq> k" using assms(1) by (auto simp: stuck_def)
  then show ?thesis using finish assms(1) run_end_other [of k i "cc_store c" r] by (cases r) (auto simp: stuck_def split: if_splits)
next
  case (resume k' out)
  then show ?thesis using assms(1,3) by (auto simp: stuck_def commit_get split: if_splits)
qed

end
