(* ===== verification/Card_Vault.thy ===== *)
theory Card_Vault
  imports Payment Hash_Map Bin_Range Bytes
begin

text \<open>
  The card vault (\<^verbatim>\<open>op-vault\<close>): validated card data, tokenisation policies and the in-memory vault.  A PAN is the list of its scalar values, as in
  \<open>Bin_Range\<close>; a token is a string.  The cipher AES-256-GCM-SIV is the pair of functions a key gives, the JSON codec of the stored card is a pair of
  functions, and the random nonce, the minted identifier and the time are arguments.  The mutex of the store is never poisoned, because
  nothing panics while it is held, and the bytes of a PAN are always UTF-8.

  Shown: which numbers are accepted, and that the vault's own check-digit test agrees with the one of \<^verbatim>\<open>op-bin\<close>; every call on a token after its issue is
  answered as a small reference machine says; a single-use token resolves at most once.
\<close>

section \<open>Errors and card data\<close>

datatype vault_error =
    InvalidToken
  | TokenNotFound
  | AuthFailed
  | TokenExpired
  | AlreadyConsumed
  | Capacity
  | VaultBackend string
  | InvalidCard string

record raw_pan =
  rp_pan :: scalars
  rp_exp_month :: nat
  rp_exp_year :: nat

record card_data =
  cd_inner :: raw_pan

text \<open>The loop over the reversed digits, with the index and the running \<^verbatim>\<open>u32\<close> sum; \<open>d * 2\<close> and \<open>doubled - 9\<close> stay in range for a digit.\<close>

fun luhn_ok_loop :: "nat \<Rightarrow> nat list \<Rightarrow> nat \<Rightarrow> (nat, vault_error) result" where
  "luhn_ok_loop i [] acc = Ok acc"
| "luhn_ok_loop i (d # ds) acc =
     (let v = (if i mod 2 = 1 then (let doubled = d * 2 in if doubled > 9 then doubled - 9 else doubled) else d)
      in rbind (u32_val (acc + v)) (luhn_ok_loop (i + 1) ds))"

definition luhn_ok :: "scalars \<Rightarrow> (bool, vault_error) result" where
  "luhn_ok pan =
     (let digits = List.map_filter to_digit pan
      in if length digits \<noteq> utf8_len pan then Ok False
         else rbind (luhn_ok_loop 0 (rev digits) 0) (\<lambda>total. Ok (total mod 10 = 0)))"

definition validate_pan :: "scalars \<Rightarrow> (unit, vault_error) result" where
  "validate_pan pan =
     (if \<not> list_all is_digit_scalar pan then Err (InvalidCard ''non-digit characters'')
      else let n = utf8_len pan
      in if \<not> (12 \<le> n \<and> n \<le> 19) then Err (InvalidCard ''length'')
         else rbind (luhn_ok pan) (\<lambda>ok. if \<not> ok then Err (InvalidCard ''luhn'') else Ok ()))"

definition validate_expiration :: "nat \<Rightarrow> nat \<Rightarrow> (unit, vault_error) result" where
  "validate_expiration month year =
     (if \<not> (1 \<le> month \<and> month \<le> 12) then Err (InvalidCard ''expiration month'')
      else if \<not> (2000 \<le> year \<and> year \<le> 2099) then Err (InvalidCard ''expiration year'')
      else Ok ())"

definition card_data_new :: "scalars \<Rightarrow> nat \<Rightarrow> nat \<Rightarrow> (card_data, vault_error) result" where
  "card_data_new pan exp_month exp_year =
     rbind (validate_pan pan) (\<lambda>_.
       rbind (validate_expiration exp_month exp_year) (\<lambda>_.
         Ok \<lparr>cd_inner = \<lparr>rp_pan = pan, rp_exp_month = exp_month, rp_exp_year = exp_year\<rparr>\<rparr>))"

text \<open>The masked views slice by bytes.\<close>

definition last_four :: "raw_pan \<Rightarrow> (scalars, vault_error) result" where
  "last_four r = str_suffix (utf8_len (rp_pan r) - 4) (rp_pan r)"

definition first_six :: "raw_pan \<Rightarrow> (scalars, vault_error) result" where
  "first_six r = str_prefix (min (utf8_len (rp_pan r)) 6) (rp_pan r)"

section \<open>Policies\<close>

datatype token_format = RandomFormat | Deterministic
datatype token_lifetime = Reusable | SingleUse

record tokenization_policy =
  tp_format :: token_format
  tp_lifetime :: token_lifetime
  tp_ttl_seconds :: "nat option"

definition default_policy :: tokenization_policy where
  "default_policy = \<lparr>tp_format = RandomFormat, tp_lifetime = Reusable, tp_ttl_seconds = None\<rparr>"

definition single_use :: "nat \<Rightarrow> tokenization_policy" where
  "single_use ttl = \<lparr>tp_format = RandomFormat, tp_lifetime = SingleUse, tp_ttl_seconds = Some ttl\<rparr>"

definition card_on_file :: tokenization_policy where
  "card_on_file = \<lparr>tp_format = RandomFormat, tp_lifetime = Reusable, tp_ttl_seconds = None\<rparr>"

section \<open>The in-memory vault\<close>

record stored_card =
  sc_pan :: scalars
  sc_exp_month :: nat
  sc_exp_year :: nat

record card_json =
  js_to_vec :: "stored_card \<Rightarrow> string + byte list"
  js_from_slice :: "byte list \<Rightarrow> string + stored_card"

record aead =
  ae_encrypt :: "byte list \<Rightarrow> byte list \<Rightarrow> byte list option"
  ae_decrypt :: "byte list \<Rightarrow> byte list \<Rightarrow> byte list option"

record metadata =
  md_nonce :: "byte list"
  md_ciphertext :: "byte list"
  md_policy :: tokenization_policy
  md_issued_at :: int
  md_consumed :: bool

record in_memory_vault =
  iv_name :: string
  iv_cipher :: aead
  iv_store :: "(string, metadata) hashmap"

definition token_prefix :: string where
  "token_prefix = ''tok_v7_''"

definition with_key :: "(byte list \<Rightarrow> aead) \<Rightarrow> string \<Rightarrow> byte list \<Rightarrow> in_memory_vault" where
  "with_key aes nm key = \<lparr>iv_name = nm, iv_cipher = aes key, iv_store = []\<rparr>"

definition ephemeral :: "(byte list \<Rightarrow> aead) \<Rightarrow> byte list \<Rightarrow> string \<Rightarrow> in_memory_vault" where
  "ephemeral aes random_key nm = with_key aes nm random_key"

definition stored_of :: "card_data \<Rightarrow> stored_card" where
  "stored_of c = \<lparr>sc_pan = rp_pan (cd_inner c), sc_exp_month = rp_exp_month (cd_inner c), sc_exp_year = rp_exp_year (cd_inner c)\<rparr>"

definition tokenize ::
  "card_json \<Rightarrow> byte list \<Rightarrow> string \<Rightarrow> int \<Rightarrow> in_memory_vault \<Rightarrow> card_data \<Rightarrow> tokenization_policy
    \<Rightarrow> in_memory_vault \<times> (vault_ref, vault_error) result" where
  "tokenize js nonce uid now v c pol =
     (case js_to_vec js (stored_of c) of
         Inl e \<Rightarrow> (v, Err (VaultBackend (''serialize: '' @ e)))
       | Inr plaintext \<Rightarrow>
             (case ae_encrypt (iv_cipher v) nonce plaintext of
                None \<Rightarrow> (v, Err (VaultBackend ''encrypt''))
              | Some ciphertext \<Rightarrow>
                  let token_id = token_prefix @ uid;
                      md = \<lparr>md_nonce = nonce, md_ciphertext = ciphertext, md_policy = pol, md_issued_at = now, md_consumed = False\<rparr>
                  in (v\<lparr>iv_store := hm_insert token_id md (iv_store v)\<rparr>, Ok token_id)))"

text \<open>A token is expired when its age, saturating in \<^verbatim>\<open>i64\<close>, is not negative and has reached the time to live.\<close>

definition token_age :: "int \<Rightarrow> int \<Rightarrow> int" where
  "token_age now issued = max i64_min (min i64_max (now - issued))"

definition token_expired :: "nat option \<Rightarrow> int \<Rightarrow> int \<Rightarrow> bool" where
  "token_expired ttl now issued =
     (case ttl of None \<Rightarrow> False | Some n \<Rightarrow> 0 \<le> token_age now issued \<and> n \<le> nat (token_age now issued))"

definition detokenize ::
  "card_json \<Rightarrow> int \<Rightarrow> in_memory_vault \<Rightarrow> vault_ref \<Rightarrow> in_memory_vault \<times> (card_data, vault_error) result" where
  "detokenize js now v tok =
     (if take (length token_prefix) tok \<noteq> token_prefix then (v, Err InvalidToken)
      else case hm_get (iv_store v) tok of
        None \<Rightarrow> (v, Err TokenNotFound)
      | Some md \<Rightarrow>
          if token_expired (tp_ttl_seconds (md_policy md)) now (md_issued_at md) then (v, Err TokenExpired)
          else if tp_lifetime (md_policy md) = SingleUse \<and> md_consumed md then (v, Err AlreadyConsumed)
          else (case ae_decrypt (iv_cipher v) (md_nonce md) (md_ciphertext md) of
              None \<Rightarrow> (v, Err AuthFailed)
            | Some plaintext \<Rightarrow>
                (case js_from_slice js plaintext of
                   Inl e \<Rightarrow> (v, Err (VaultBackend (''deserialize: '' @ e)))
                 | Inr stored \<Rightarrow>
                     let v' = (if tp_lifetime (md_policy md) = SingleUse
                               then v\<lparr>iv_store := hm_insert tok (md\<lparr>md_consumed := True\<rparr>) (iv_store v)\<rparr> else v)
                     in (v', card_data_new (sc_pan stored) (sc_exp_month stored) (sc_exp_year stored)))))"

definition token_exists :: "in_memory_vault \<Rightarrow> vault_ref \<Rightarrow> (bool, vault_error) result" where
  "token_exists v tok =
     (if take (length token_prefix) tok \<noteq> token_prefix then Ok False else Ok (hm_contains_key (iv_store v) tok))"

definition token_delete :: "in_memory_vault \<Rightarrow> vault_ref \<Rightarrow> in_memory_vault \<times> (bool, vault_error) result" where
  "token_delete v tok =
     (if take (length token_prefix) tok \<noteq> token_prefix then (v, Ok False)
      else (v\<lparr>iv_store := hm_remove tok (iv_store v)\<rparr>, Ok (hm_contains_key (iv_store v) tok)))"

definition health_check :: "in_memory_vault \<Rightarrow> (unit, vault_error) result" where
  "health_check v = Ok ()"

text \<open>Sequences of calls, each with its nonce, identifier and time, and their answers.\<close>

datatype vault_call =
    CallTokenize "byte list" string int card_data tokenization_policy
  | CallDetokenize int vault_ref
  | CallExists vault_ref
  | CallDelete vault_ref

datatype vault_reply =
    ReplyToken "(vault_ref, vault_error) result"
  | ReplyCard "(card_data, vault_error) result"
  | ReplyBool "(bool, vault_error) result"

fun vault_step :: "card_json \<Rightarrow> vault_call \<Rightarrow> in_memory_vault \<Rightarrow> in_memory_vault \<times> vault_reply" where
  "vault_step js (CallTokenize nonce uid now c pol) v = (let (v', r) = tokenize js nonce uid now v c pol in (v', ReplyToken r))"
| "vault_step js (CallDetokenize now tok) v = (let (v', r) = detokenize js now v tok in (v', ReplyCard r))"
| "vault_step js (CallExists tok) v = (v, ReplyBool (token_exists v tok))"
| "vault_step js (CallDelete tok) v = (let (v', r) = token_delete v tok in (v', ReplyBool r))"

fun vault_run :: "card_json \<Rightarrow> vault_call list \<Rightarrow> in_memory_vault \<Rightarrow> in_memory_vault \<times> vault_reply list" where
  "vault_run js [] v = (v, [])"
| "vault_run js (c # cs) v = (let (v1, r) = vault_step js c v; (v2, rs) = vault_run js cs v1 in (v2, r # rs))"


section \<open>Accepted card numbers\<close>

lemma digits_are_numerals:
  assumes "list_all is_digit_scalar pan"
  obtains ds where "pan = numerals ds" "list_all (\<lambda>d. d < 10) ds"
proof
  show "pan = numerals (map (\<lambda>c. c - 48) pan)"
    using assms by (induction pan) (auto simp: is_digit_scalar_def)
  show "list_all (\<lambda>d. d < 10) (map (\<lambda>c. c - 48) pan)"
    using assms by (induction pan) (auto simp: is_digit_scalar_def)
qed

lemma numerals_are_digits: "list_all (\<lambda>d. d < 10) ds \<Longrightarrow> list_all is_digit_scalar (numerals ds)"
  by (induction ds) (auto simp: is_digit_scalar_def)

lemma map_filter_numerals: "list_all (\<lambda>d. d < 10) ds \<Longrightarrow> List.map_filter to_digit (numerals ds) = ds"
  by (induction ds) (auto simp: map_filter_simps)

text \<open>The indexed loop of the vault computes the sum of the alternating loop of \<^verbatim>\<open>op-bin\<close>.\<close>

lemma luhn_ok_loop_sum:
  "list_all (\<lambda>d. d < 10) ds \<Longrightarrow> acc + 9 * length ds \<le> u32_max \<Longrightarrow> luhn_ok_loop i ds acc = Ok (acc + luhn_sum (odd i) ds)"
proof (induction ds arbitrary: i acc)
  case (Cons d ds)
  have v: "(if i mod 2 = 1 then let doubled = d * 2 in if doubled > 9 then doubled - 9 else doubled else d) = luhn_digit (odd i) d"
    by (simp add: luhn_digit_def odd_iff_mod_2_eq_one)
  have "luhn_digit (odd i) d \<le> 9" using Cons.prems(1) luhn_digit_le by simp
  moreover have "luhn_ok_loop i (d # ds) acc = rbind (u32_val (acc + luhn_digit (odd i) d)) (luhn_ok_loop (i + 1) ds)"
    by (simp only: luhn_ok_loop.simps v) (simp add: Let_def)
  ultimately show ?case using Cons.IH [of "acc + luhn_digit (odd i) d" "i + 1"] Cons.prems
    by (simp add: u32_val_def add.assoc del: luhn_ok_loop.simps rbind_eq_Ok)
qed simp

lemma luhn_ok_numerals:
  assumes "list_all (\<lambda>d. d < 10) ds" and "2 \<le> length ds" and "length ds \<le> 19"
  shows "luhn_ok (numerals ds) = Ok (is_valid (numerals ds))"
proof -
  have "luhn_ok_loop 0 (rev ds) 0 = Ok (luhn_sum False (rev ds))"
    using luhn_ok_loop_sum [of "rev ds" 0 0] assms by (simp add: list_all_rev)
  then have "luhn_ok (numerals ds) = Ok (luhn_sum False (rev ds) mod 10 = 0)"
    using assms by (simp add: luhn_ok_def map_filter_numerals del: rbind_eq_Ok)
  then show ?thesis using validate_numerals [of ds] assms by (simp add: is_valid_def)
qed

definition pan_accepted :: "scalars \<Rightarrow> bool" where
  "pan_accepted pan \<longleftrightarrow> list_all is_digit_scalar pan \<and> 12 \<le> length pan \<and> length pan \<le> 19 \<and> is_valid pan"

lemma validate_pan_exact:
  "validate_pan pan = (if pan_accepted pan then Ok () else
     Err (InvalidCard (if \<not> list_all is_digit_scalar pan then ''non-digit characters''
                       else if 12 \<le> length pan \<and> length pan \<le> 19 then ''luhn'' else ''length'')))"
proof (cases "list_all is_digit_scalar pan")
  case True
  then obtain ds where ds: "pan = numerals ds" "list_all (\<lambda>d. d < 10) ds" by (rule digits_are_numerals)
  show ?thesis
  proof (cases "12 \<le> length pan \<and> length pan \<le> 19")
    case len: True
    then have "luhn_ok pan = Ok (is_valid pan)" using luhn_ok_numerals [of ds] ds by simp
    then show ?thesis using True len ds by (simp add: validate_pan_def pan_accepted_def)
  next
    case False
    then show ?thesis using True ds unfolding validate_pan_def pan_accepted_def by (auto simp: Let_def)
  qed
qed (simp add: validate_pan_def pan_accepted_def)

text \<open>
  A card is constructed exactly from an accepted number and a plausible expiration date, it holds what it was given, and every refusal is an error.
\<close>

lemma card_data_new_exact:
  "card_data_new pan m y = Ok c \<longleftrightarrow>
     pan_accepted pan \<and> 1 \<le> m \<and> m \<le> 12 \<and> 2000 \<le> y \<and> y \<le> 2099
     \<and> c = \<lparr>cd_inner = \<lparr>rp_pan = pan, rp_exp_month = m, rp_exp_year = y\<rparr>\<rparr>"
  by (auto simp: card_data_new_def validate_pan_exact validate_expiration_def split: if_splits)

lemma card_data_new_not_Panic: "card_data_new pan m y \<noteq> Panic"
  by (simp add: card_data_new_def validate_pan_exact validate_expiration_def rbind_eq_Panic)

text \<open>The masked views of a card are its first six and its last four digits.\<close>

lemma masked_views:
  assumes "card_data_new pan m y = Ok c"
  shows "first_six (cd_inner c) = Ok (take 6 pan)" and "last_four (cd_inner c) = Ok (drop (length pan - 4) pan)"
proof -
  have "list_all is_digit_scalar pan" "12 \<le> length pan" and c: "rp_pan (cd_inner c) = pan"
    using assms by (auto simp: card_data_new_exact pan_accepted_def)
  moreover from this have "is_ascii pan" by (simp add: digits_ascii)
  moreover from this have "is_ascii (take n pan)" for n by (metis append_take_drop_id is_ascii_simps(3))
  ultimately show "first_six (cd_inner c) = Ok (take 6 pan)" "last_four (cd_inner c) = Ok (drop (length pan - 4) pan)"
    by (simp_all add: first_six_def last_four_def str_prefix_take str_suffix_drop utf8_len_ascii [THEN iffD2])
qed

section \<open>One token through a sequence of calls\<close>

text \<open>Laws of the cipher and of the JSON codec: each reads back what it wrote.\<close>

definition aead_correct :: "aead \<Rightarrow> bool" where
  "aead_correct ae \<longleftrightarrow> (\<forall>n p c. ae_encrypt ae n p = Some c \<longrightarrow> ae_decrypt ae n c = Some p)"

definition json_correct :: "card_json \<Rightarrow> bool" where
  "json_correct js \<longleftrightarrow> (\<forall>s b. js_to_vec js s = Inr b \<longrightarrow> js_from_slice js b = Inr s)"

text \<open>
  The reference machine of a token: whether it is still there and whether it has been resolved.  It answers the calls on the token and
  leaves the others open (\<open>None\<close>).
\<close>

definition detokenize_spec :: "tokenization_policy \<Rightarrow> int \<Rightarrow> card_data \<Rightarrow> bool \<Rightarrow> bool \<Rightarrow> int \<Rightarrow> (card_data, vault_error) result" where
  "detokenize_spec pol t0 c alive used now =
     (if \<not> alive then Err TokenNotFound
      else if token_expired (tp_ttl_seconds pol) now t0 then Err TokenExpired
      else if tp_lifetime pol = SingleUse \<and> used then Err AlreadyConsumed
      else Ok c)"

fun token_answers ::
  "tokenization_policy \<Rightarrow> int \<Rightarrow> card_data \<Rightarrow> vault_ref \<Rightarrow> bool \<Rightarrow> bool \<Rightarrow> vault_call list \<Rightarrow> vault_reply option list" where
  "token_answers pol t0 c tok alive used [] = []"
| "token_answers pol t0 c tok alive used (CallDetokenize now t # cs) =
     (if t = tok
      then let r = detokenize_spec pol t0 c alive used now
           in Some (ReplyCard r) # token_answers pol t0 c tok alive (used \<or> r = Ok c) cs
      else None # token_answers pol t0 c tok alive used cs)"
| "token_answers pol t0 c tok alive used (CallExists t # cs) =
     (if t = tok then Some (ReplyBool (Ok alive)) else None) # token_answers pol t0 c tok alive used cs"
| "token_answers pol t0 c tok alive used (CallDelete t # cs) =
     (if t = tok then Some (ReplyBool (Ok alive)) # token_answers pol t0 c tok False used cs
      else None # token_answers pol t0 c tok alive used cs)"
| "token_answers pol t0 c tok alive used (CallTokenize nonce uid now c' pol' # cs) = None # token_answers pol t0 c tok alive used cs"

fun mints_other :: "vault_ref \<Rightarrow> vault_call \<Rightarrow> bool" where
  "mints_other tok (CallTokenize nonce uid now c pol) \<longleftrightarrow> token_prefix @ uid \<noteq> tok"
| "mints_other tok _ \<longleftrightarrow> True"

definition holds_token ::
  "card_json \<Rightarrow> tokenization_policy \<Rightarrow> int \<Rightarrow> card_data \<Rightarrow> vault_ref \<Rightarrow> bool \<Rightarrow> bool \<Rightarrow> in_memory_vault \<Rightarrow> bool" where
  "holds_token js pol t0 c tok alive used v \<longleftrightarrow>
     (if alive
      then \<exists>md pt stored. hm_get (iv_store v) tok = Some md \<and> md_policy md = pol \<and> md_issued_at md = t0
             \<and> md_consumed md = (used \<and> tp_lifetime pol = SingleUse)
             \<and> ae_decrypt (iv_cipher v) (md_nonce md) (md_ciphertext md) = Some pt \<and> js_from_slice js pt = Inr stored
             \<and> card_data_new (sc_pan stored) (sc_exp_month stored) (sc_exp_year stored) = Ok c
      else hm_get (iv_store v) tok = None)"

lemma take_token_prefix [simp]: "take (length token_prefix) (token_prefix @ uid) = token_prefix"
  by simp

lemma tokenize_OkD:
  assumes "tokenize js nonce uid t0 v c pol = (v1, Ok tok)"
  shows "tok = token_prefix @ uid \<and> (\<exists>pt ct. js_to_vec js (stored_of c) = Inr pt \<and> ae_encrypt (iv_cipher v) nonce pt = Some ct
    \<and> v1 = v\<lparr>iv_store := hm_insert tok \<lparr>md_nonce = nonce, md_ciphertext = ct, md_policy = pol, md_issued_at = t0, md_consumed = False\<rparr>
              (iv_store v)\<rparr>)"
proof (cases "js_to_vec js (stored_of c)")
  case (Inr pt)
  then show ?thesis using assms by (cases "ae_encrypt (iv_cipher v) nonce pt") (auto simp: tokenize_def Let_def)
qed (use assms in \<open>simp add: tokenize_def\<close>)

lemma tokenize_holds:
  assumes "tokenize js nonce uid t0 v c pol = (v1, Ok tok)" and "aead_correct (iv_cipher v)" and "json_correct js"
    and "card_data_new pan m y = Ok c"
  shows "holds_token js pol t0 c tok True False v1" and "tok = token_prefix @ uid"
proof -
  show "tok = token_prefix @ uid" using tokenize_OkD [OF assms(1)] by simp
  obtain pt ct where w: "js_to_vec js (stored_of c) = Inr pt" "ae_encrypt (iv_cipher v) nonce pt = Some ct"
    and v1: "v1 = v\<lparr>iv_store := hm_insert tok \<lparr>md_nonce = nonce, md_ciphertext = ct, md_policy = pol, md_issued_at = t0, md_consumed = False\<rparr> (iv_store v)\<rparr>"
    using tokenize_OkD [OF assms(1)] by blast
  have "ae_decrypt (iv_cipher v) nonce ct = Some pt" "js_from_slice js pt = Inr (stored_of c)"
    using assms(2,3) w by (auto simp: aead_correct_def json_correct_def)
  moreover have "card_data_new (sc_pan (stored_of c)) (sc_exp_month (stored_of c)) (sc_exp_year (stored_of c)) = Ok c"
    using assms(4) by (auto simp: stored_of_def card_data_new_exact)
  ultimately show "holds_token js pol t0 c tok True False v1" by (simp add: holds_token_def v1)
qed

text \<open>Calls on other tokens leave the row alone.\<close>

lemma tokenize_other:
  "token_prefix @ uid \<noteq> tok \<Longrightarrow> hm_get (iv_store (fst (tokenize js nonce uid now v c pol))) tok = hm_get (iv_store v) tok"
  by (auto simp: tokenize_def Let_def split: sum.splits option.splits)

lemma detokenize_other: "t \<noteq> tok \<Longrightarrow> hm_get (iv_store (fst (detokenize js now v t))) tok = hm_get (iv_store v) tok"
  by (auto simp: detokenize_def Let_def split: sum.splits option.splits)

lemma token_delete_other: "t \<noteq> tok \<Longrightarrow> hm_get (iv_store (fst (token_delete v t))) tok = hm_get (iv_store v) tok"
  by (auto simp: token_delete_def)

lemma cipher_fixed [simp]:
  "iv_cipher (fst (tokenize js nonce uid now v c pol)) = iv_cipher v"
  "iv_cipher (fst (detokenize js now v t)) = iv_cipher v"
  "iv_cipher (fst (token_delete v t)) = iv_cipher v"
  by (auto simp: tokenize_def detokenize_def token_delete_def Let_def split: sum.splits option.splits)

lemma holds_token_cong:
  "hm_get (iv_store v') tok = hm_get (iv_store v) tok \<Longrightarrow> iv_cipher v' = iv_cipher v \<Longrightarrow>
   holds_token js pol t0 c tok alive used v' = holds_token js pol t0 c tok alive used v"
  by (simp add: holds_token_def)

lemma detokenize_held:
  assumes "holds_token js pol t0 c tok alive used v" and "tok = token_prefix @ uid"
  shows "snd (detokenize js now v tok) = detokenize_spec pol t0 c alive used now"
    and "holds_token js pol t0 c tok alive (used \<or> detokenize_spec pol t0 c alive used now = Ok c) (fst (detokenize js now v tok))"
  using assms by (auto simp: holds_token_def detokenize_def detokenize_spec_def Let_def split: if_splits)

lemma token_delete_held:
  assumes "holds_token js pol t0 c tok alive used v" and "tok = token_prefix @ uid"
  shows "snd (token_delete v tok) = Ok alive" and "holds_token js pol t0 c tok False used (fst (token_delete v tok))"
  using assms by (auto simp: holds_token_def token_delete_def hm_contains_key_def split: if_splits)

lemma token_exists_held:
  "holds_token js pol t0 c tok alive used v \<Longrightarrow> tok = token_prefix @ uid \<Longrightarrow> token_exists v tok = Ok alive"
  by (auto simp: holds_token_def token_exists_def hm_contains_key_def split: if_splits)

abbreviation fits :: "vault_reply option \<Rightarrow> vault_reply \<Rightarrow> bool" where
  "fits a r \<equiv> a = None \<or> a = Some r"

lemma run_answers:
  assumes "tok = token_prefix @ uid" and "list_all (mints_other tok) calls" and "holds_token js pol t0 c tok alive used v"
  shows "list_all2 fits (token_answers pol t0 c tok alive used calls) (snd (vault_run js calls v))"
  using assms(2,3)
proof (induction calls arbitrary: alive used v)
  case (Cons call calls)
  note rest = Cons.IH [OF _ ]
  show ?case
  proof (cases call)
    case (CallTokenize nonce uid' now c' pol')
    have "holds_token js pol t0 c tok alive used (fst (tokenize js nonce uid' now v c' pol'))"
      using holds_token_cong [OF tokenize_other cipher_fixed(1)] Cons.prems CallTokenize by simp
    then show ?thesis using Cons.IH Cons.prems CallTokenize by (auto simp: split_beta)
  next
    case (CallDetokenize now t)
    show ?thesis
    proof (cases "t = tok")
      case True
      then show ?thesis using detokenize_held [OF Cons.prems(2) assms(1), of now] Cons.IH Cons.prems(1) CallDetokenize
        by (auto simp: split_beta Let_def)
    next
      case False
      then have "holds_token js pol t0 c tok alive used (fst (detokenize js now v t))"
        using holds_token_cong [OF detokenize_other cipher_fixed(2)] Cons.prems by simp
      then show ?thesis using Cons.IH Cons.prems CallDetokenize False by (auto simp: split_beta)
    qed
  next
    case (CallExists t)
    then show ?thesis using token_exists_held [OF Cons.prems(2) assms(1)] Cons.IH Cons.prems by (auto simp: split_beta)
  next
    case (CallDelete t)
    show ?thesis
    proof (cases "t = tok")
      case True
      then show ?thesis using token_delete_held [OF Cons.prems(2) assms(1)] Cons.IH Cons.prems(1) CallDelete by (auto simp: split_beta)
    next
      case False
      then have "holds_token js pol t0 c tok alive used (fst (token_delete v t))"
        using holds_token_cong [OF token_delete_other cipher_fixed(3)] Cons.prems by simp
      then show ?thesis using Cons.IH Cons.prems CallDelete False by (auto simp: split_beta)
    qed
  qed
qed simp

text \<open>
  C12.  A token behaves as the reference machine: when a validated card is tokenised with a cipher and a codec that read back what they wrote, then in every
  later sequence of calls that does not mint the same identifier again, each call on the token is answered as the machine says.  It resolves to the
  very card until it is deleted (then not found), its time to live has passed (expired) or, when it is single-use, it has been
  resolved (already consumed); \<^verbatim>\<open>exists\<close> and \<^verbatim>\<open>delete\<close> report whether it is still there.
\<close>

theorem vault_token_refines:
  assumes "card_data_new pan m y = Ok c" and "tokenize js nonce uid t0 v c pol = (v1, Ok tok)"
    and "aead_correct (iv_cipher v)" and "json_correct js" and "list_all (mints_other tok) calls"
  shows "list_all2 fits (token_answers pol t0 c tok True False calls) (snd (vault_run js calls v1))"
  using run_answers [OF tokenize_holds(2) assms(5) tokenize_holds(1), OF assms(2,3,4,1) assms(2,3,4,1)] .


text \<open>A concrete codec and cipher that meet the laws: bytes in order, and a cipher text that carries its nonce.\<close>

definition sample_json :: card_json where
  "sample_json =
     \<lparr>js_to_vec = (\<lambda>s. if list_all (\<lambda>c. c < 256) (sc_pan s) \<and> sc_exp_month s < 256 \<and> sc_exp_year s < 65536
                      then Inr (word_of_nat (sc_exp_month s) # word_of_nat (sc_exp_year s div 256) # word_of_nat (sc_exp_year s mod 256)
                                # map word_of_nat (sc_pan s))
                      else Inl ''range''),
      js_from_slice = (\<lambda>bs. case bs of
          m # h # l # p \<Rightarrow> Inr \<lparr>sc_pan = map unat p, sc_exp_month = unat m, sc_exp_year = unat h * 256 + unat l\<rparr>
        | _ \<Rightarrow> Inl ''eof'')\<rparr>"

definition sample_aead :: "byte list \<Rightarrow> aead" where
  "sample_aead key = \<lparr>ae_encrypt = (\<lambda>n p. Some (key @ n @ p)),
     ae_decrypt = (\<lambda>n ct. if take (length (key @ n)) ct = key @ n then Some (drop (length (key @ n)) ct) else None)\<rparr>"

lemma sample_aead_correct: "aead_correct (sample_aead key)"
  by (auto simp: aead_correct_def sample_aead_def)

lemma unat_small: "n < 256 \<Longrightarrow> unat (word_of_nat n :: byte) = n"
  by (simp add: unat_of_nat take_bit_eq_mod)

lemma sample_json_correct: "json_correct sample_json"
proof -
  have "map unat (map (word_of_nat :: nat \<Rightarrow> byte) p) = p" if "list_all (\<lambda>c. c < 256) p" for p
    using that by (induction p) (auto simp: unat_small)
  then show ?thesis by (auto simp: json_correct_def sample_json_def unat_small split: if_splits)
qed

abbreviation sample_pan :: scalars where
  "sample_pan \<equiv> numerals [4, 2, 4, 2, 4, 2, 4, 2, 4, 2, 4, 2, 4, 2, 4, 2]"

definition sample_card :: card_data where
  "sample_card = \<lparr>cd_inner = \<lparr>rp_pan = sample_pan, rp_exp_month = 12, rp_exp_year = 2030\<rparr>\<rparr>"

lemma sample_card_new: "card_data_new sample_pan 12 2030 = Ok sample_card"
proof -
  have "is_valid sample_pan" using validate_numerals [of "[4, 2, 4, 2, 4, 2, 4, 2, 4, 2, 4, 2, 4, 2, 4, 2]"]
    by (simp add: is_valid_def luhn_digit_def)
  then show ?thesis by (simp add: card_data_new_exact pan_accepted_def is_digit_scalar_def sample_card_def)
qed

definition sample_vault :: in_memory_vault where
  "sample_vault = fst (tokenize sample_json [7] ''ab'' 1000 (with_key sample_aead ''dev'' [1, 2]) sample_card (single_use 60))"

lemma sample_token: "tokenize sample_json [7] ''ab'' 1000 (with_key sample_aead ''dev'' [1, 2]) sample_card (single_use 60) = (sample_vault, Ok (token_prefix @ ''ab''))"
  by (simp add: sample_vault_def tokenize_def sample_json_def stored_of_def sample_card_def with_key_def sample_aead_def Let_def)

theorem vault_token_refines_witness:
  "snd (vault_run sample_json [CallExists (token_prefix @ ''ab''), CallDetokenize 1059 (token_prefix @ ''ab''), CallDetokenize 1059 (token_prefix @ ''ab''),
      CallDetokenize 1060 (token_prefix @ ''ab''), CallDelete (token_prefix @ ''ab''), CallDetokenize 1059 (token_prefix @ ''ab'')] sample_vault)
   = [ReplyBool (Ok True), ReplyCard (Ok sample_card), ReplyCard (Err AlreadyConsumed), ReplyCard (Err TokenExpired), ReplyBool (Ok True),
      ReplyCard (Err TokenNotFound)]"
proof -
  have a: "aead_correct (iv_cipher (with_key sample_aead ''dev'' [1, 2]))" by (simp add: with_key_def sample_aead_correct)
  show ?thesis
    using vault_token_refines [OF sample_card_new sample_token a sample_json_correct, of
        "[CallExists (token_prefix @ ''ab''), CallDetokenize 1059 (token_prefix @ ''ab''), CallDetokenize 1059 (token_prefix @ ''ab''),
          CallDetokenize 1060 (token_prefix @ ''ab''), CallDelete (token_prefix @ ''ab''), CallDetokenize 1059 (token_prefix @ ''ab'')]"]
    by (simp add: list_all2_Cons1 detokenize_spec_def token_expired_def token_age_def single_use_def Let_def)
qed

section \<open>Single use\<close>

definition resolves :: "vault_ref \<Rightarrow> vault_call \<Rightarrow> vault_reply \<Rightarrow> bool" where
  "resolves tok call r = (case (call, r) of (CallDetokenize now t, ReplyCard (Ok _)) \<Rightarrow> t = tok | _ \<Rightarrow> False)"

definition resolutions :: "vault_ref \<Rightarrow> vault_call list \<Rightarrow> vault_reply list \<Rightarrow> nat" where
  "resolutions tok calls rs = length (filter (\<lambda>(call, r). resolves tok call r) (zip calls rs))"

text \<open>How many resolutions a single-use row still allows, and that a row keeps its policy.\<close>

definition uses_left :: "vault_ref \<Rightarrow> in_memory_vault \<Rightarrow> nat" where
  "uses_left tok v = (case hm_get (iv_store v) tok of None \<Rightarrow> 0 | Some md \<Rightarrow> if md_consumed md then 0 else 1)"

definition single_use_row :: "vault_ref \<Rightarrow> in_memory_vault \<Rightarrow> bool" where
  "single_use_row tok v = (case hm_get (iv_store v) tok of None \<Rightarrow> True | Some md \<Rightarrow> tp_lifetime (md_policy md) = SingleUse)"

lemma row_cong:
  "hm_get (iv_store v') tok = hm_get (iv_store v) tok \<Longrightarrow> uses_left tok v' = uses_left tok v \<and> single_use_row tok v' = single_use_row tok v"
  by (simp add: uses_left_def single_use_row_def)

lemma detokenize_uses:
  assumes "single_use_row tok v"
  shows "single_use_row tok (fst (detokenize js now v tok))
    \<and> uses_left tok (fst (detokenize js now v tok)) + (if is_ok (snd (detokenize js now v tok)) then 1 else 0) \<le> uses_left tok v"
  using assms by (auto simp: detokenize_def single_use_row_def uses_left_def Let_def split: option.splits sum.splits)

lemma step_uses:
  assumes "single_use_row tok v" and "mints_other tok call"
  shows "single_use_row tok (fst (vault_step js call v))
    \<and> uses_left tok (fst (vault_step js call v)) + (if resolves tok call (snd (vault_step js call v)) then 1 else 0) \<le> uses_left tok v"
proof (cases call)
  case (CallTokenize nonce uid now c pol)
  then show ?thesis using assms row_cong [OF tokenize_other] by (simp add: split_beta resolves_def)
next
  case (CallDetokenize now t)
  show ?thesis
  proof (cases "t = tok")
    case True
    then show ?thesis using detokenize_uses [OF assms(1), of js now] CallDetokenize
      by (cases "snd (detokenize js now v tok)") (auto simp: split_beta resolves_def)
  next
    case False
    then show ?thesis using assms row_cong [OF detokenize_other] CallDetokenize by (simp add: split_beta resolves_def split: vault_reply.split result.split)
  qed
next
  case (CallExists t)
  then show ?thesis using assms by (simp add: resolves_def)
next
  case (CallDelete t)
  show ?thesis
  proof (cases "t = tok")
    case True
    then show ?thesis using assms CallDelete
      by (auto simp: split_beta resolves_def token_delete_def single_use_row_def uses_left_def)
  next
    case False
    then show ?thesis using assms row_cong [OF token_delete_other] CallDelete by (simp add: split_beta resolves_def)
  qed
qed

lemma run_uses:
  assumes "single_use_row tok v" and "list_all (mints_other tok) calls"
  shows "resolutions tok calls (snd (vault_run js calls v)) \<le> uses_left tok v"
  using assms
proof (induction calls arbitrary: v)
  case (Cons call calls)
  have s: "single_use_row tok (fst (vault_step js call v))"
    "uses_left tok (fst (vault_step js call v)) + (if resolves tok call (snd (vault_step js call v)) then 1 else 0) \<le> uses_left tok v"
    using step_uses [of tok v call js] Cons.prems by simp_all
  have "resolutions tok calls (snd (vault_run js calls (fst (vault_step js call v)))) \<le> uses_left tok (fst (vault_step js call v))"
    using Cons.IH [OF s(1)] Cons.prems(2) by simp
  then show ?case using s(2) by (simp add: resolutions_def split_beta split: if_splits)
qed (simp add: resolutions_def)

text \<open>
  C13.  A single-use token resolves at most once: whatever the cipher and the codec do, in every sequence of calls after its issue that does not mint the same
  identifier again, at most one call turns the token back into a card.
\<close>

theorem single_use_resolves_once:
  assumes "tokenize js nonce uid t0 v c pol = (v1, Ok tok)" and "tp_lifetime pol = SingleUse" and "list_all (mints_other tok) calls"
  shows "resolutions tok calls (snd (vault_run js calls v1)) \<le> 1"
proof -
  have "single_use_row tok v1" "uses_left tok v1 \<le> 1"
    using tokenize_OkD [OF assms(1)] assms(2) by (auto simp: single_use_row_def uses_left_def)
  then show ?thesis using run_uses [of tok v1 calls js] assms(3) by simp
qed

theorem single_use_resolves_once_witness:
  "resolutions (token_prefix @ ''ab'') [CallDetokenize 1001 (token_prefix @ ''ab''), CallDetokenize 1002 (token_prefix @ ''ab'')]
     (snd (vault_run sample_json [CallDetokenize 1001 (token_prefix @ ''ab''), CallDetokenize 1002 (token_prefix @ ''ab'')] sample_vault)) \<le> 1"
  by (rule single_use_resolves_once [OF sample_token]) (simp_all add: single_use_def)

text \<open>The format of the policy is stored and never consulted: under the deterministic format two calls for one card give two tokens.\<close>

lemma deterministic_ignored:
  assumes "tokenize js nonce uid now v c \<lparr>tp_format = Deterministic, tp_lifetime = l, tp_ttl_seconds = ttl\<rparr> = (v1, Ok t1)"
    and "tokenize js nonce' uid' now' v1 c \<lparr>tp_format = Deterministic, tp_lifetime = l, tp_ttl_seconds = ttl\<rparr> = (v2, Ok t2)" and "uid \<noteq> uid'"
  shows "t1 \<noteq> t2"
  using tokenize_OkD [OF assms(1)] tokenize_OkD [OF assms(2)] assms(3) by simp

end
