(* ===== verification/Nacha.thy ===== *)
theory Nacha
  imports Settlement_Batch Bin_Range
begin

text \<open>
  The ACH file of a settled batch (\<^verbatim>\<open>op-settlement/src/nacha.rs\<close>): fixed-width records for the file and batch headers, the entries, the two
  control records and the fillers.  Text is a list of scalar values, because \<^verbatim>\<open>format!\<close> pads to a width in characters while the checks and the slices
  count bytes.

  Shown: a file is produced exactly when every field is well formed and every number fits its field; it then consists of whole blocks of
  ten records of 94 bytes whose control fields hold the number, the hash and the total of the credits.
\<close>

section \<open>Text\<close>

definition ascii_str :: "string \<Rightarrow> scalars" where
  "ascii_str s = map of_char s"

text \<open>\<^verbatim>\<open>{:<w}\<close> and \<^verbatim>\<open>{:>w}\<close> of a text, \<^verbatim>\<open>{:0>w}\<close> of a number.\<close>

definition fmt_left :: "nat \<Rightarrow> scalars \<Rightarrow> scalars" where
  "fmt_left w s = s @ replicate (w - length s) 32"

definition fmt_right :: "nat \<Rightarrow> scalars \<Rightarrow> scalars" where
  "fmt_right w s = replicate (w - length s) 32 @ s"

definition fmt_zeros :: "nat \<Rightarrow> nat \<Rightarrow> scalars" where
  "fmt_zeros w n = ascii_str (pad_zero w (show_nat n))"

text \<open>The bytes of a text, for an error message.\<close>

definition utf8_char :: "nat \<Rightarrow> string" where
  "utf8_char c = map char_of
     (if c < 0x80 then [c]
      else if c < 0x800 then [0xC0 + c div 64, 0x80 + c mod 64]
      else if c < 0x10000 then [0xE0 + c div 4096, 0x80 + c div 64 mod 64, 0x80 + c mod 64]
      else [0xF0 + c div 262144, 0x80 + c div 4096 mod 64, 0x80 + c div 64 mod 64, 0x80 + c mod 64])"

definition utf8_string :: "scalars \<Rightarrow> string" where
  "utf8_string s = concat (map utf8_char s)"

text \<open>\<^verbatim>\<open>str::parse::<u64>\<close>: an optional plus sign and at least one digit, without overflow.\<close>

fun u64_digits :: "scalars \<Rightarrow> nat \<Rightarrow> nat option" where
  "u64_digits [] acc = Some acc"
| "u64_digits (c # cs) acc =
     (case to_digit c of None \<Rightarrow> None | Some d \<Rightarrow> if acc * 10 + d \<le> u64_max then u64_digits cs (acc * 10 + d) else None)"

definition str_parse_u64 :: "scalars \<Rightarrow> nat option" where
  "str_parse_u64 s =
     (let body = (case s of [] \<Rightarrow> [] | c # r \<Rightarrow> if c = 43 then r else s)
      in if body = [] then None else u64_digits body 0)"

section \<open>The generator\<close>

datatype sec_code = Ppd | Ccd

fun sec_as_str :: "sec_code \<Rightarrow> scalars" where
  "sec_as_str Ppd = ascii_str ''PPD''"
| "sec_as_str Ccd = ascii_str ''CCD''"

record nacha_credit =
  nc_rdfi_routing :: scalars
  nc_account_number :: scalars
  nc_receiver_name :: scalars
  nc_amount_cents :: nat
  nc_individual_id :: scalars
  nc_sec :: sec_code

record nacha_profile =
  np_odfi_routing :: scalars
  np_immediate_origin :: scalars
  np_immediate_destination :: scalars
  np_company_name :: scalars
  np_company_id :: scalars
  np_company_entry_description :: scalars
  np_effective_entry_date :: scalars

definition validate_profile :: "nacha_profile \<Rightarrow> (unit, settlement_error) result" where
  "validate_profile p =
     (if utf8_len (np_odfi_routing p) \<noteq> 9 \<or> \<not> list_all is_digit_scalar (np_odfi_routing p)
      then Err (SettlementInvalid ''odfi_routing must be 9 ASCII digits'')
      else if utf8_len (np_immediate_origin p) \<noteq> 10 then Err (SettlementInvalid ''immediate_origin must be exactly 10 chars'')
      else if utf8_len (np_immediate_destination p) \<noteq> 10 then Err (SettlementInvalid ''immediate_destination must be exactly 10 chars'')
      else if utf8_len (np_effective_entry_date p) \<noteq> 6 \<or> \<not> list_all is_digit_scalar (np_effective_entry_date p)
      then Err (SettlementInvalid ''effective_entry_date must be YYMMDD (6 ASCII digits)'')
      else Ok ())"

definition validate_credit :: "nacha_credit \<Rightarrow> (unit, settlement_error) result" where
  "validate_credit c =
     (if utf8_len (nc_rdfi_routing c) \<noteq> 9 \<or> \<not> list_all is_digit_scalar (nc_rdfi_routing c)
      then Err (SettlementInvalid ''rdfi_routing must be 9 ASCII digits'')
      else if nc_account_number c = [] \<or> 17 < utf8_len (nc_account_number c)
      then Err (SettlementInvalid ''account_number must be 1..=17 chars'')
      else if nc_receiver_name c = [] then Err (SettlementInvalid ''receiver_name required'')
      else Ok ())"

definition parse_u64 :: "scalars \<Rightarrow> (nat, settlement_error) result" where
  "parse_u64 s = ok_or (str_parse_u64 s) (SettlementInvalid (''not a u64: '' @ utf8_string s))"

definition pad_truncate :: "scalars \<Rightarrow> nat \<Rightarrow> (scalars, settlement_error) result" where
  "pad_truncate s width = (if width \<le> utf8_len s then str_prefix width s else Ok (fmt_left width s))"

definition push_94 :: "scalars \<Rightarrow> scalars \<Rightarrow> (scalars, settlement_error) result" where
  "push_94 out line =
     (if utf8_len line \<noteq> 94 then Err (SettlementInvalid (''NACHA record must be 94 chars, got '' @ show_nat (utf8_len line)))
      else Ok (out @ line @ [10]))"

definition amount_for_currency_in_cents :: "batch \<Rightarrow> nat \<Rightarrow> (nat, settlement_error) result" where
  "amount_for_currency_in_cents b amount_cents =
     (if bt_currency b \<noteq> USD then Err (BatchCurrencyMismatch (code (bt_currency b)) ''USD'')
      else if i64_max < int amount_cents then Err (SettlementCore Overflow)
      else Ok amount_cents)"

definition nacha_file_header :: "nacha_profile \<Rightarrow> (scalars, settlement_error) result" where
  "nacha_file_header p =
     rbind (pad_truncate (np_company_name p) 23) (\<lambda>dest_name.
     rbind (pad_truncate (np_company_name p) 23) (\<lambda>orig_name.
       Ok (concat [ascii_str ''101'', fmt_right 10 (np_immediate_destination p), fmt_right 10 (np_immediate_origin p),
         fmt_right 6 (np_effective_entry_date p), fmt_right 4 (ascii_str ''0000''), ascii_str ''A'', ascii_str ''094101'',
         fmt_left 23 dest_name, fmt_left 23 orig_name, fmt_left 8 (replicate 8 32)])))"

definition nacha_batch_header :: "nacha_profile \<Rightarrow> sec_code \<Rightarrow> (scalars, settlement_error) result" where
  "nacha_batch_header p sec =
     rbind (pad_truncate (np_company_name p) 16) (\<lambda>co_name.
     rbind (pad_truncate (np_company_id p) 10) (\<lambda>co_id.
     rbind (pad_truncate (np_company_entry_description p) 10) (\<lambda>desc.
     rbind (pad_truncate (np_effective_entry_date p) 6) (\<lambda>descd.
     rbind (pad_truncate (np_effective_entry_date p) 6) (\<lambda>eff.
     rbind (str_prefix (min 8 (utf8_len (np_odfi_routing p))) (np_odfi_routing p)) (\<lambda>odfi_short.
       Ok (concat [ascii_str ''5'', ascii_str ''220'', fmt_left 16 co_name, fmt_left 20 (replicate 20 32), fmt_left 10 co_id,
         fmt_left 3 (sec_as_str sec), fmt_left 10 desc, fmt_right 6 descd, fmt_right 6 eff, ascii_str ''   '', ascii_str ''1'',
         fmt_right 8 odfi_short, fmt_zeros 7 1])))))))"

text \<open>One round of the loop over the credits: the text so far, the wrapping entry hash, the total and the sequence number.\<close>

type_synonym nacha_state = "scalars \<times> nat \<times> nat \<times> nat"

definition nacha_entry :: "batch \<Rightarrow> nacha_profile \<Rightarrow> nacha_state \<Rightarrow> nacha_credit \<Rightarrow> (nacha_state, settlement_error) result" where
  "nacha_entry b p st c =
     (case st of (out, entry_hash, total_credit, sq) \<Rightarrow>
     rbind (validate_credit c) (\<lambda>_.
     rbind (u32_val (sq + 1)) (\<lambda>sq.
     rbind (str_prefix 8 (nc_rdfi_routing c)) (\<lambda>rdfi_8.
     rbind (rbind (str_prefix 9 (nc_rdfi_routing c)) (str_suffix 8)) (\<lambda>check_digit.
     rbind (amount_for_currency_in_cents b (nc_amount_cents c)) (\<lambda>amount.
     rbind (parse_u64 rdfi_8) (\<lambda>h.
     let entry_hash = (entry_hash + h) mod 2 ^ 64 in
     rbind (ok_or (if total_credit + amount \<le> u64_max then Some (total_credit + amount) else None) (SettlementCore Overflow)) (\<lambda>total_credit.
     rbind (str_prefix 8 (np_odfi_routing p)) (\<lambda>odfi_8.
     let trace = odfi_8 @ fmt_zeros 7 sq in
     rbind (pad_truncate (nc_account_number c) 17) (\<lambda>acct.
     rbind (pad_truncate (nc_individual_id c) 15) (\<lambda>ind_id.
     rbind (pad_truncate (nc_receiver_name c) 22) (\<lambda>rcv_name.
     rbind (push_94 out (concat [ascii_str ''6'', ascii_str ''22'', rdfi_8, check_digit, fmt_left 17 acct, fmt_zeros 10 amount,
              fmt_left 15 ind_id, fmt_left 22 rcv_name, ascii_str ''  0'', trace])) (\<lambda>out.
       Ok (out, entry_hash, total_credit, sq))))))))))))))"

fun nacha_entries :: "batch \<Rightarrow> nacha_profile \<Rightarrow> nacha_credit list \<Rightarrow> nacha_state \<Rightarrow> (nacha_state, settlement_error) result" where
  "nacha_entries b p [] st = Ok st"
| "nacha_entries b p (c # cs) st = rbind (nacha_entry b p st c) (nacha_entries b p cs)"

definition nacha_batch_control :: "nacha_profile \<Rightarrow> nat \<Rightarrow> nat \<Rightarrow> nat \<Rightarrow> (scalars, settlement_error) result" where
  "nacha_batch_control p entry_count entry_hash_trim total_credit =
     rbind (pad_truncate (np_company_id p) 10) (\<lambda>co_id.
     rbind (str_prefix (min 8 (utf8_len (np_odfi_routing p))) (np_odfi_routing p)) (\<lambda>odfi_short.
       Ok (concat [ascii_str ''8'', ascii_str ''220'', fmt_zeros 6 entry_count, fmt_zeros 10 entry_hash_trim, fmt_zeros 12 0,
         fmt_zeros 12 total_credit, fmt_left 10 co_id, fmt_left 19 (replicate 19 32), fmt_left 6 (replicate 6 32),
         fmt_right 8 odfi_short, fmt_zeros 7 1])))"

definition nacha_file_control :: "nat \<Rightarrow> nat \<Rightarrow> nat \<Rightarrow> nat \<Rightarrow> scalars" where
  "nacha_file_control block_count entry_count entry_hash_trim total_credit =
     concat [ascii_str ''9'', fmt_zeros 6 1, fmt_zeros 6 block_count, fmt_zeros 8 entry_count, fmt_zeros 10 entry_hash_trim,
       fmt_zeros 12 0, fmt_zeros 12 total_credit, fmt_left 39 (replicate 39 32)]"

fun push_fillers :: "nat \<Rightarrow> scalars \<Rightarrow> (scalars, settlement_error) result" where
  "push_fillers 0 out = Ok out"
| "push_fillers (Suc n) out = rbind (push_94 out (replicate 94 57)) (push_fillers n)"

text \<open>Everything after the entries: the two controls and the fillers up to the block boundary.\<close>

definition nacha_controls :: "nacha_profile \<Rightarrow> nacha_state \<Rightarrow> (scalars, settlement_error) result" where
  "nacha_controls p st =
     (case st of (out, entry_hash, total_credit, sq) \<Rightarrow>
        let entry_count = sq; entry_hash_trim = entry_hash mod 10 ^ 10 in
        rbind (nacha_batch_control p entry_count entry_hash_trim total_credit) (\<lambda>line.
        rbind (push_94 out line) (\<lambda>out.
        rbind (u32_val (1 + 1 + entry_count + 1 + 1)) (\<lambda>records_so_far.
        let block_count = (records_so_far + 9) div 10 in
        rbind (push_94 out (nacha_file_control block_count entry_count entry_hash_trim total_credit)) (\<lambda>out.
          push_fillers ((10 - records_so_far mod 10) mod 10) out)))))"

definition nacha_file :: "batch \<Rightarrow> nacha_profile \<Rightarrow> nacha_credit list \<Rightarrow> (scalars, settlement_error) result" where
  "nacha_file b p credits =
     (if bt_rail b \<noteq> AchNacha then Err (SettlementInvalid (''batch rail is '' @ rail_debug (bt_rail b) @ '', NACHA requires AchNacha''))
      else if bt_currency b \<noteq> USD then Err (BatchCurrencyMismatch (code (bt_currency b)) ''USD'')
      else if credits = [] then Err EmptyBatch
      else if length credits \<noteq> length (bt_entries b)
      then Err (SettlementInvalid (''credit count '' @ show_nat (length credits) @ '' != batch entry count '' @ show_nat (length (bt_entries b))))
      else
        rbind (validate_profile p) (\<lambda>_.
        rbind (nacha_file_header p) (\<lambda>line.
        rbind (push_94 [] line) (\<lambda>out.
        rbind (nacha_batch_header p (nc_sec (hd credits))) (\<lambda>line.
        rbind (push_94 out line) (\<lambda>out.
        rbind (nacha_entries b p credits (out, 0, 0, 0)) (nacha_controls p)))))))"

section \<open>Widths of fields\<close>

lemma utf8_len_replicate [simp]: "utf8_len (replicate n 32) = n" "utf8_len (replicate n 57) = n"
  by (induction n) (auto simp: utf8_width_def)

lemma is_ascii_replicate [simp]: "is_ascii (replicate n c) \<longleftrightarrow> n = 0 \<or> c < 128"
  by (induction n) auto

lemma is_ascii_take: "is_ascii s \<Longrightarrow> is_ascii (take n s)"
  by (metis append_take_drop_id is_ascii_simps(3))

lemma show_nat_bound: "n < 10 ^ length (show_nat n)"
proof (induction n rule: show_nat.induct)
  case (1 n)
  show ?case
  proof (cases "n < 10")
    case True
    then show ?thesis by (simp add: show_nat.simps [of n])
  next
    case False
    with "1.IH" have "n div 10 < 10 ^ length (show_nat (n div 10))" by simp
    then have "n < 10 ^ length (show_nat (n div 10)) * 10" by (simp add: div_less_iff_less_mult)
    then show ?thesis using False by (simp add: show_nat.simps [of n])
  qed
qed

lemma show_nat_length_iff: "0 < w \<Longrightarrow> length (show_nat n) \<le> w \<longleftrightarrow> n < 10 ^ w"
proof
  assume "length (show_nat n) \<le> w"
  then have "10 ^ length (show_nat n) \<le> (10 :: nat) ^ w" by (simp add: power_increasing)
  then show "n < 10 ^ w" using show_nat_bound [of n] by linarith
qed (use show_nat_length in blast)

lemma pad_zero_digits: "c \<in> set (pad_zero w (show_nat n)) \<Longrightarrow> \<exists>d<10. of_char c = 48 + (d :: nat)"
proof -
  assume "c \<in> set (pad_zero w (show_nat n))"
  then have "c = CHR ''0'' \<or> (\<exists>d<10. c = digit_char d)"
    using show_nat_digits [of c n] by (auto simp: pad_zero_def)
  then show ?thesis by (auto simp: digit_char_def)
qed

lemma fmt_zeros_digits: "list_all is_digit_scalar (fmt_zeros w n)"
  using pad_zero_digits [of _ w n] by (force simp: list_all_iff fmt_zeros_def ascii_str_def is_digit_scalar_def)

lemma fmt_zeros_len: "utf8_len (fmt_zeros w n) = max w (length (show_nat n))" "length (fmt_zeros w n) = max w (length (show_nat n))"
proof -
  show "length (fmt_zeros w n) = max w (length (show_nat n))" by (simp add: fmt_zeros_def ascii_str_def pad_zero_def)
  then show "utf8_len (fmt_zeros w n) = max w (length (show_nat n))"
    using utf8_len_ascii [of "fmt_zeros w n"] digits_ascii [OF fmt_zeros_digits, of w n] by simp
qed

lemma fmt_zeros_fits: "0 < w \<Longrightarrow> utf8_len (fmt_zeros w n) = w \<longleftrightarrow> n < 10 ^ w"
  using show_nat_length_iff [of w n] by (auto simp: fmt_zeros_len)

lemma fmt_zeros_ge: "w \<le> utf8_len (fmt_zeros w n)"
  by (simp add: fmt_zeros_len)

text \<open>A text field: the first characters, filled up with spaces; it keeps its width exactly when they are ASCII.\<close>

definition fit_text :: "nat \<Rightarrow> scalars \<Rightarrow> scalars" where
  "fit_text w s = take w s @ replicate (w - length s) 32"

lemma fit_text_length [simp]: "length (fit_text w s) = w"
  by (simp add: fit_text_def)

lemma fit_text_ascii [simp]: "is_ascii (fit_text w s) \<longleftrightarrow> is_ascii (take w s)"
  by (auto simp: fit_text_def)

lemma fmt_left_fit [simp]: "fmt_left w (fit_text w s) = fit_text w s"
  by (simp add: fmt_left_def)

lemma pad_truncate_ascii: "is_ascii (take w s) \<Longrightarrow> pad_truncate s w = Ok (fit_text w s)"
proof (cases "w \<le> length s")
  case True
  assume "is_ascii (take w s)"
  then show ?thesis using True utf8_len_ge [of s] str_prefix_take [of w s] by (simp add: pad_truncate_def fit_text_def)
next
  case False
  assume "is_ascii (take w s)"
  then have "utf8_len s = length s" using False by (simp add: utf8_len_ascii)
  then show ?thesis using False by (simp add: pad_truncate_def fit_text_def fmt_left_def)
qed

lemma pad_truncate_width:
  assumes "pad_truncate s w = Ok t"
  shows "w \<le> utf8_len (fmt_left w t)" and "utf8_len (fmt_left w t) = w \<longleftrightarrow> is_ascii (take w s)"
proof -
  show "w \<le> utf8_len (fmt_left w t)" using utf8_len_ge [of t] by (simp add: fmt_left_def)
  show "utf8_len (fmt_left w t) = w \<longleftrightarrow> is_ascii (take w s)"
  proof
    assume "is_ascii (take w s)"
    moreover from this have t: "t = fit_text w s" using assms pad_truncate_ascii [of w s] by simp
    ultimately show "utf8_len (fmt_left w t) = w" using utf8_len_ascii [of "fit_text w s"] unfolding t by simp
  next
    assume e: "utf8_len (fmt_left w t) = w"
    show "is_ascii (take w s)"
    proof (cases "w \<le> utf8_len s")
      case True
      then have "(str_prefix w s :: (scalars, settlement_error) result) = Ok t" using assms by (simp add: pad_truncate_def)
      note t = str_prefix_OkD [OF this]
      then have "length t = w" using e utf8_len_ge [of t] by (simp add: fmt_left_def)
      then show ?thesis using t utf8_len_ascii [of t] by metis
    next
      case False
      then have "t = s @ replicate (w - length s) 32" "length s \<le> w"
        using assms utf8_len_ge [of s] by (simp_all add: pad_truncate_def fmt_left_def)
      then have "utf8_len s + (w - length s) = w" using e by (simp add: fmt_left_def)
      then have "utf8_len s = length s" using \<open>length s \<le> w\<close> by linarith
      then show ?thesis using utf8_len_ascii [of s] is_ascii_take by blast
    qed
  qed
qed

lemma pad_truncate_fit: "pad_truncate s w = Ok t \<Longrightarrow> is_ascii (take w s) \<Longrightarrow> fmt_left w t = fit_text w s"
  using pad_truncate_ascii [of w s] fmt_left_fit [of w s] by simp

lemma fmt_right_width:
  assumes "utf8_len s = w"
  shows "w \<le> utf8_len (fmt_right w s)" and "utf8_len (fmt_right w s) = w \<longleftrightarrow> is_ascii s" and "is_ascii s \<Longrightarrow> fmt_right w s = s"
proof -
  show "w \<le> utf8_len (fmt_right w s)" using assms by (simp add: fmt_right_def)
  show "utf8_len (fmt_right w s) = w \<longleftrightarrow> is_ascii s"
    using assms utf8_len_ascii [of s] utf8_len_ge [of s] by (auto simp: fmt_right_def)
  show "fmt_right w s = s" if "is_ascii s" using that assms utf8_len_ascii [of s] by (simp add: fmt_right_def)
qed

lemma ascii_str_lit:
  "utf8_len (ascii_str ''6'') = 1" "utf8_len (ascii_str ''22'') = 2" "utf8_len (ascii_str ''  0'') = 3" "utf8_len (ascii_str ''101'') = 3"
  "utf8_len (ascii_str ''0000'') = 4" "utf8_len (ascii_str ''A'') = 1" "utf8_len (ascii_str ''094101'') = 6" "utf8_len (ascii_str ''5'') = 1"
  "utf8_len (ascii_str ''220'') = 3" "utf8_len (ascii_str ''   '') = 3" "utf8_len (ascii_str ''1'') = 1" "utf8_len (ascii_str ''8'') = 1"
  "utf8_len (ascii_str ''9'') = 1"
  by (simp_all add: ascii_str_def utf8_width_def)

section \<open>The entries\<close>

definition credit_ok :: "nacha_credit \<Rightarrow> bool" where
  "credit_ok c \<longleftrightarrow> length (nc_rdfi_routing c) = 9 \<and> list_all is_digit_scalar (nc_rdfi_routing c)
     \<and> nc_account_number c \<noteq> [] \<and> length (nc_account_number c) \<le> 17 \<and> is_ascii (nc_account_number c)
     \<and> nc_receiver_name c \<noteq> [] \<and> is_ascii (take 22 (nc_receiver_name c)) \<and> is_ascii (take 15 (nc_individual_id c))
     \<and> nc_amount_cents c < 10 ^ 10"

definition scalar_num :: "scalars \<Rightarrow> nat" where
  "scalar_num s = foldl (\<lambda>acc c. acc * 10 + (c - 48)) 0 s"

definition routing_hash :: "nacha_credit \<Rightarrow> nat" where
  "routing_hash c = scalar_num (take 8 (nc_rdfi_routing c))"

definition detail_record :: "nacha_profile \<Rightarrow> nat \<Rightarrow> nacha_credit \<Rightarrow> scalars" where
  "detail_record p q c = concat [ascii_str ''6'', ascii_str ''22'', take 8 (nc_rdfi_routing c), drop 8 (nc_rdfi_routing c),
     fit_text 17 (nc_account_number c), fmt_zeros 10 (nc_amount_cents c), fit_text 15 (nc_individual_id c),
     fit_text 22 (nc_receiver_name c), ascii_str ''  0'', take 8 (np_odfi_routing p) @ fmt_zeros 7 q]"

lemma scalar_num_bound:
  "list_all is_digit_scalar s \<Longrightarrow> foldl (\<lambda>acc c. acc * 10 + (c - 48)) acc s < (acc + 1) * 10 ^ length s"
proof (induction s arbitrary: acc)
  case (Cons c s)
  then have "foldl (\<lambda>acc c. acc * 10 + (c - 48)) (acc * 10 + (c - 48)) s < (acc * 10 + (c - 48) + 1) * 10 ^ length s" by simp
  also have "\<dots> \<le> (acc * 10 + 10) * 10 ^ length s" using Cons.prems by (intro mult_right_mono) (auto simp: is_digit_scalar_def)
  also have "\<dots> = (acc + 1) * 10 ^ length (c # s)" by (simp add: algebra_simps)
  finally show ?case by simp
qed simp

lemma u64_digits_num:
  "list_all is_digit_scalar s \<Longrightarrow> (acc + 1) * 10 ^ length s \<le> u64_max \<Longrightarrow>
   u64_digits s acc = Some (foldl (\<lambda>acc c. acc * 10 + (c - 48)) acc s)"
proof (induction s arbitrary: acc)
  case (Cons c s)
  have c: "48 \<le> c" "c \<le> 57" using Cons.prems(1) by (auto simp: is_digit_scalar_def)
  have "(acc * 10 + (c - 48) + 1) * 10 ^ length s \<le> (acc + 1) * 10 ^ length (c # s)"
    using mult_right_mono [of "acc * 10 + (c - 48) + 1" "acc * 10 + 10" "10 ^ length s"] c by (simp add: algebra_simps)
  then have le: "(acc * 10 + (c - 48) + 1) * 10 ^ length s \<le> u64_max" using Cons.prems(2) by linarith
  moreover have "acc * 10 + (c - 48) \<le> (acc * 10 + (c - 48) + 1) * 10 ^ length s"
    by (metis le_add1 le_trans mult.right_neutral mult_le_mono2 one_le_numeral one_le_power)
  ultimately have "acc * 10 + (c - 48) \<le> u64_max" by linarith
  then show ?case using Cons.IH [OF _ le] Cons.prems(1) c by (simp add: to_digit_def)
qed simp

lemma parse_routing:
  assumes "list_all is_digit_scalar s" and "length s = 8"
  shows "parse_u64 s = Ok (scalar_num s)"
proof -
  obtain c r where s: "s = c # r" using assms(2) by (cases s) auto
  have "c \<noteq> 43" using assms(1) s by (auto simp: is_digit_scalar_def)
  then show ?thesis using u64_digits_num [of s 0] assms s by (simp add: parse_u64_def str_parse_u64_def scalar_num_def)
qed

lemma push_94_Ok [simp]: "push_94 out line = Ok r \<longleftrightarrow> utf8_len line = 94 \<and> r = out @ line @ [10]"
  by (auto simp: push_94_def)


definition odfi_ok :: "nacha_profile \<Rightarrow> bool" where
  "odfi_ok p \<longleftrightarrow> length (np_odfi_routing p) = 9 \<and> list_all is_digit_scalar (np_odfi_routing p)"

lemma digits_len: "list_all is_digit_scalar s \<Longrightarrow> utf8_len s = length s"
  using digits_ascii utf8_len_ascii by blast

lemma digits_prefix: "list_all is_digit_scalar s \<Longrightarrow> n \<le> length s \<Longrightarrow> str_prefix n s = Ok (take n s)"
  by (simp add: str_prefix_take is_ascii_take digits_ascii)

lemma digits_suffix: "list_all is_digit_scalar s \<Longrightarrow> n \<le> length s \<Longrightarrow> str_suffix n s = Ok (drop n s)"
  by (simp add: str_suffix_drop is_ascii_take digits_ascii)

lemma digits_take: "list_all is_digit_scalar s \<Longrightarrow> list_all is_digit_scalar (take n s)" "list_all is_digit_scalar s \<Longrightarrow> list_all is_digit_scalar (drop n s)"
  by (auto simp: list_all_iff dest: in_set_takeD in_set_dropD)

lemmas digits_simps = digits_len digits_prefix digits_suffix digits_take

lemma validate_credit_Ok:
  "validate_credit c = Ok () \<longleftrightarrow> length (nc_rdfi_routing c) = 9 \<and> list_all is_digit_scalar (nc_rdfi_routing c)
     \<and> nc_account_number c \<noteq> [] \<and> utf8_len (nc_account_number c) \<le> 17 \<and> nc_receiver_name c \<noteq> []"
  using digits_len [of "nc_rdfi_routing c"] unfolding validate_credit_def by (auto simp: not_le)

text \<open>The checks of the routing number reduce a round to its three text fields and the final length check.\<close>

lemma nacha_entry_reduced:
  assumes "bt_currency b = USD" and "odfi_ok p" and "q < 10 ^ 7" and "validate_credit c = Ok ()"
  shows "nacha_entry b p (out, h, t, q) c = Ok st' \<longleftrightarrow>
    (\<exists>acct ind rcv. int (nc_amount_cents c) \<le> i64_max \<and> t + nc_amount_cents c \<le> u64_max
       \<and> pad_truncate (nc_account_number c) 17 = Ok acct \<and> pad_truncate (nc_individual_id c) 15 = Ok ind \<and> pad_truncate (nc_receiver_name c) 22 = Ok rcv
       \<and> utf8_len (fmt_left 17 acct) + utf8_len (fmt_zeros 10 (nc_amount_cents c)) + utf8_len (fmt_left 15 ind) + utf8_len (fmt_left 22 rcv)
           + utf8_len (fmt_zeros 7 (q + 1)) = 71
       \<and> st' = (out @ concat [ascii_str ''6'', ascii_str ''22'', take 8 (nc_rdfi_routing c), drop 8 (nc_rdfi_routing c), fmt_left 17 acct,
              fmt_zeros 10 (nc_amount_cents c), fmt_left 15 ind, fmt_left 22 rcv, ascii_str ''  0'', take 8 (np_odfi_routing p) @ fmt_zeros 7 (q + 1)] @ [10],
            (h + routing_hash c) mod 2 ^ 64, t + nc_amount_cents c, q + 1))"
proof -
  have r: "length (nc_rdfi_routing c) = 9" "list_all is_digit_scalar (nc_rdfi_routing c)" using assms(4) by (simp_all add: validate_credit_Ok)
  have o: "length (np_odfi_routing p) = 9" "list_all is_digit_scalar (np_odfi_routing p)" using assms(2) by (simp_all add: odfi_ok_def)
  have "str_prefix 8 (nc_rdfi_routing c) = Ok (take 8 (nc_rdfi_routing c))" "str_prefix 9 (nc_rdfi_routing c) = Ok (nc_rdfi_routing c)"
    "str_suffix 8 (nc_rdfi_routing c) = Ok (drop 8 (nc_rdfi_routing c))" "str_prefix 8 (np_odfi_routing p) = Ok (take 8 (np_odfi_routing p))"
    "parse_u64 (take 8 (nc_rdfi_routing c)) = Ok (routing_hash c)" "u32_val (q + 1) = Ok (q + 1)"
    "amount_for_currency_in_cents b (nc_amount_cents c) = (if int (nc_amount_cents c) \<le> i64_max then Ok (nc_amount_cents c) else Err (SettlementCore Overflow))"
    using r o assms(1,3) by (simp_all add: digits_simps parse_routing routing_hash_def u32_val_def amount_for_currency_in_cents_def not_le)
  note calls = this
  have len: "utf8_len (take 8 (nc_rdfi_routing c)) = 8" "utf8_len (drop 8 (nc_rdfi_routing c)) = 1" "utf8_len (take 8 (np_odfi_routing p)) = 8"
    using r o by (simp_all add: digits_simps)
  show ?thesis
    unfolding nacha_entry_def Let_def prod.case assms(4) calls rbind.simps rbind_eq_Ok push_94_Ok ok_or_eq_Ok
    by (auto simp: len ascii_str_lit)
qed

lemma nacha_entry_exact:
  assumes "bt_currency b = USD" and "odfi_ok p" and "q < 10 ^ 7"
  shows "nacha_entry b p (out, h, t, q) c = Ok st' \<longleftrightarrow>
    credit_ok c \<and> q + 1 < 10 ^ 7 \<and> t + nc_amount_cents c \<le> u64_max
    \<and> st' = (out @ detail_record p (q + 1) c @ [10], (h + routing_hash c) mod 2 ^ 64, t + nc_amount_cents c, q + 1)"
proof (cases "validate_credit c = Ok ()")
  case True
  note red = nacha_entry_reduced [OF assms True]
  note v = True [unfolded validate_credit_Ok]
  show ?thesis
  proof
    assume "nacha_entry b p (out, h, t, q) c = Ok st'"
    then obtain acct ind rcv where pads: "pad_truncate (nc_account_number c) 17 = Ok acct" "pad_truncate (nc_individual_id c) 15 = Ok ind"
        "pad_truncate (nc_receiver_name c) 22 = Ok rcv"
      and sum: "utf8_len (fmt_left 17 acct) + utf8_len (fmt_zeros 10 (nc_amount_cents c)) + utf8_len (fmt_left 15 ind) + utf8_len (fmt_left 22 rcv)
           + utf8_len (fmt_zeros 7 (q + 1)) = 71"
      and tot: "t + nc_amount_cents c \<le> u64_max"
      and st: "st' = (out @ concat [ascii_str ''6'', ascii_str ''22'', take 8 (nc_rdfi_routing c), drop 8 (nc_rdfi_routing c), fmt_left 17 acct,
              fmt_zeros 10 (nc_amount_cents c), fmt_left 15 ind, fmt_left 22 rcv, ascii_str ''  0'', take 8 (np_odfi_routing p) @ fmt_zeros 7 (q + 1)] @ [10],
            (h + routing_hash c) mod 2 ^ 64, t + nc_amount_cents c, q + 1)"
      unfolding red by blast
    note ge = pad_truncate_width(1) [OF pads(1)] pad_truncate_width(1) [OF pads(2)] pad_truncate_width(1) [OF pads(3)]
      fmt_zeros_ge [of 10 "nc_amount_cents c"] fmt_zeros_ge [of 7 "q + 1"]
    have a: "is_ascii (take 17 (nc_account_number c))" "is_ascii (take 15 (nc_individual_id c))" "is_ascii (take 22 (nc_receiver_name c))"
      using pad_truncate_width(2) [OF pads(1)] pad_truncate_width(2) [OF pads(2)] pad_truncate_width(2) [OF pads(3)] sum ge by linarith+
    have z: "nc_amount_cents c < 10 ^ 10" "q + 1 < 10 ^ 7"
      using fmt_zeros_fits [of 10 "nc_amount_cents c"] fmt_zeros_fits [of 7 "q + 1"] sum ge by linarith+
    have "length (nc_account_number c) \<le> 17" using v utf8_len_ge [of "nc_account_number c"] by linarith
    then have "credit_ok c" using a z v by (simp add: credit_ok_def)
    moreover have "acct = fit_text 17 (nc_account_number c)" "ind = fit_text 15 (nc_individual_id c)" "rcv = fit_text 22 (nc_receiver_name c)"
      using a pads by (simp_all add: pad_truncate_ascii)
    ultimately show "credit_ok c \<and> q + 1 < 10 ^ 7 \<and> t + nc_amount_cents c \<le> u64_max
      \<and> st' = (out @ detail_record p (q + 1) c @ [10], (h + routing_hash c) mod 2 ^ 64, t + nc_amount_cents c, q + 1)"
      using z tot st by (simp add: detail_record_def)
  next
    assume r: "credit_ok c \<and> q + 1 < 10 ^ 7 \<and> t + nc_amount_cents c \<le> u64_max
      \<and> st' = (out @ detail_record p (q + 1) c @ [10], (h + routing_hash c) mod 2 ^ 64, t + nc_amount_cents c, q + 1)"
    then have a: "is_ascii (take 17 (nc_account_number c))" "is_ascii (take 15 (nc_individual_id c))" "is_ascii (take 22 (nc_receiver_name c))"
      and z: "utf8_len (fmt_zeros 10 (nc_amount_cents c)) = 10" "utf8_len (fmt_zeros 7 (q + 1)) = 7" "int (nc_amount_cents c) \<le> i64_max"
      by (simp_all add: credit_ok_def fmt_zeros_fits)
    have w: "utf8_len (fit_text n s) = n" if "is_ascii (take n s)" for n s using that utf8_len_ascii [of "fit_text n s"] by simp
    show "nacha_entry b p (out, h, t, q) c = Ok st'"
      unfolding red using a z r w
      by (intro exI [of _ "fit_text 17 (nc_account_number c)"] exI [of _ "fit_text 15 (nc_individual_id c)"] exI [of _ "fit_text 22 (nc_receiver_name c)"])
        (simp add: pad_truncate_ascii detail_record_def)
  qed
next
  case False
  have "\<not> credit_ok c" using False utf8_len_ascii [of "nc_account_number c"] by (auto simp: validate_credit_Ok credit_ok_def)
  then show ?thesis using False by (simp add: nacha_entry_def)
qed

fun details :: "nacha_profile \<Rightarrow> nat \<Rightarrow> nacha_credit list \<Rightarrow> scalars list" where
  "details p q [] = []"
| "details p q (c # cs) = detail_record p (q + 1) c # details p (q + 1) cs"

definition as_lines :: "scalars list \<Rightarrow> scalars" where
  "as_lines rs = concat (map (\<lambda>r. r @ [10]) rs)"

definition credit_total :: "nacha_credit list \<Rightarrow> nat" where
  "credit_total cs = sum_list (map nc_amount_cents cs)"

definition hash_total :: "nacha_credit list \<Rightarrow> nat" where
  "hash_total cs = sum_list (map routing_hash cs)"

lemma nacha_entries_exact:
  assumes "bt_currency b = USD" and "odfi_ok p" and "q < 10 ^ 7" and "h < 2 ^ 64" and "t \<le> u64_max"
  shows "nacha_entries b p cs (out, h, t, q) = Ok st' \<longleftrightarrow>
    list_all credit_ok cs \<and> q + length cs < 10 ^ 7 \<and> t + credit_total cs \<le> u64_max
    \<and> st' = (out @ as_lines (details p q cs), (h + hash_total cs) mod 2 ^ 64, t + credit_total cs, q + length cs)"
  using assms(3-5)
proof (induction cs arbitrary: out h t q)
  case Nil
  then show ?case by (auto simp: as_lines_def credit_total_def hash_total_def)
next
  case (Cons c cs)
  note step = nacha_entry_exact [OF assms(1,2) Cons.prems(1)]
  show ?case
  proof (cases "credit_ok c \<and> q + 1 < 10 ^ 7 \<and> t + nc_amount_cents c \<le> u64_max")
    case True
    then have e: "nacha_entry b p (out, h, t, q) c
        = Ok (out @ detail_record p (q + 1) c @ [10], (h + routing_hash c) mod 2 ^ 64, t + nc_amount_cents c, q + 1)" using step by blast
    have m: "((h + routing_hash c) mod 2 ^ 64 + hash_total cs) mod 2 ^ 64 = (h + hash_total (c # cs)) mod 2 ^ 64"
      by (simp add: hash_total_def mod_add_left_eq add.assoc)
    show ?thesis using True Cons.IH [of "q + 1" "(h + routing_hash c) mod 2 ^ 64" "t + nc_amount_cents c" "out @ detail_record p (q + 1) c @ [10]"]
      unfolding nacha_entries.simps e rbind.simps m by (simp add: as_lines_def credit_total_def add.assoc)
  next
    case False
    then have "\<nexists>st. nacha_entry b p (out, h, t, q) c = Ok st" using step by blast
    moreover have "\<not> (list_all credit_ok (c # cs) \<and> q + length (c # cs) < 10 ^ 7 \<and> t + credit_total (c # cs) \<le> u64_max)"
      using False by (auto simp: credit_total_def)
    ultimately show ?thesis unfolding nacha_entries.simps rbind_eq_Ok by blast
  qed
qed


section \<open>Headers and controls\<close>

definition file_header_record :: "nacha_profile \<Rightarrow> scalars" where
  "file_header_record p = concat [ascii_str ''101'', np_immediate_destination p, np_immediate_origin p, np_effective_entry_date p, ascii_str ''0000'',
     ascii_str ''A'', ascii_str ''094101'', fit_text 23 (np_company_name p), fit_text 23 (np_company_name p), replicate 8 32]"

definition batch_header_record :: "nacha_profile \<Rightarrow> sec_code \<Rightarrow> scalars" where
  "batch_header_record p sec = concat [ascii_str ''5'', ascii_str ''220'', fit_text 16 (np_company_name p), replicate 20 32, fit_text 10 (np_company_id p),
     sec_as_str sec, fit_text 10 (np_company_entry_description p), np_effective_entry_date p, np_effective_entry_date p, ascii_str ''   '',
     ascii_str ''1'', take 8 (np_odfi_routing p), fmt_zeros 7 1]"

definition batch_control_record :: "nacha_profile \<Rightarrow> nat \<Rightarrow> nat \<Rightarrow> nat \<Rightarrow> scalars" where
  "batch_control_record p n h t = concat [ascii_str ''8'', ascii_str ''220'', fmt_zeros 6 n, fmt_zeros 10 h, fmt_zeros 12 0, fmt_zeros 12 t,
     fit_text 10 (np_company_id p), replicate 19 32, replicate 6 32, take 8 (np_odfi_routing p), fmt_zeros 7 1]"

definition profile_ok :: "nacha_profile \<Rightarrow> bool" where
  "profile_ok p \<longleftrightarrow> odfi_ok p
     \<and> length (np_immediate_origin p) = 10 \<and> is_ascii (np_immediate_origin p)
     \<and> length (np_immediate_destination p) = 10 \<and> is_ascii (np_immediate_destination p)
     \<and> length (np_effective_entry_date p) = 6 \<and> list_all is_digit_scalar (np_effective_entry_date p)
     \<and> is_ascii (take 23 (np_company_name p)) \<and> is_ascii (take 10 (np_company_id p)) \<and> is_ascii (take 10 (np_company_entry_description p))"

lemma validate_profile_Ok:
  "validate_profile p = Ok () \<longleftrightarrow> odfi_ok p \<and> utf8_len (np_immediate_origin p) = 10 \<and> utf8_len (np_immediate_destination p) = 10
     \<and> length (np_effective_entry_date p) = 6 \<and> list_all is_digit_scalar (np_effective_entry_date p)"
  using digits_len [of "np_odfi_routing p"] digits_len [of "np_effective_entry_date p"]
  unfolding validate_profile_def odfi_ok_def by auto

lemma fmt_left_full: "length s = w \<Longrightarrow> fmt_left w s = s" "length s = w \<Longrightarrow> fmt_right w s = s"
  by (simp_all add: fmt_left_def fmt_right_def)

lemma fit_text_len: "is_ascii (take w s) \<Longrightarrow> utf8_len (fit_text w s) = w"
  using utf8_len_ascii [of "fit_text w s"] by simp

lemma fit_text_full: "length s = w \<Longrightarrow> fit_text w s = s"
  by (simp add: fit_text_def)

lemma sec_len [simp]: "utf8_len (sec_as_str sec) = 3" "length (sec_as_str sec) = 3" "is_ascii (sec_as_str sec)"
  by (cases sec; simp add: ascii_str_def utf8_width_def)+

lemma file_header_exact:
  assumes "validate_profile p = Ok ()"
  shows "nacha_file_header p = Ok l \<and> utf8_len l = 94 \<longleftrightarrow>
    is_ascii (np_immediate_destination p) \<and> is_ascii (np_immediate_origin p) \<and> is_ascii (take 23 (np_company_name p)) \<and> l = file_header_record p"
proof -
  let ?d = "np_immediate_destination p" and ?o = "np_immediate_origin p" and ?e = "np_effective_entry_date p" and ?n = "np_company_name p"
  have v: "utf8_len ?d = 10" "utf8_len ?o = 10" "length ?e = 6" "utf8_len ?e = 6"
    using assms digits_len [of ?e] by (simp_all add: validate_profile_Ok)
  note w = fmt_right_width [OF v(1)] fmt_right_width [OF v(2)]
  have z: "fmt_right 4 (ascii_str ''0000'') = ascii_str ''0000''" by (simp add: fmt_left_full ascii_str_def)
  show ?thesis
  proof
    assume a: "nacha_file_header p = Ok l \<and> utf8_len l = 94"
    then obtain t where t: "pad_truncate ?n 23 = Ok t"
      and l: "l = concat [ascii_str ''101'', fmt_right 10 ?d, fmt_right 10 ?o, fmt_right 6 ?e, fmt_right 4 (ascii_str ''0000''), ascii_str ''A'',
         ascii_str ''094101'', fmt_left 23 t, fmt_left 23 t, fmt_left 8 (replicate 8 32)]"
      unfolding nacha_file_header_def by auto
    have sum: "utf8_len (fmt_right 10 ?d) + utf8_len (fmt_right 10 ?o) + 2 * utf8_len (fmt_left 23 t) = 66"
      using a l v by (simp add: z fmt_left_full ascii_str_lit)
    have "is_ascii ?d" "is_ascii ?o" "is_ascii (take 23 ?n)" using sum w pad_truncate_width [OF t] by linarith+
    then show "is_ascii ?d \<and> is_ascii ?o \<and> is_ascii (take 23 ?n) \<and> l = file_header_record p"
      using l pad_truncate_fit [OF t] w(3,6) v by (simp add: file_header_record_def z fmt_left_full)
  next
    assume r: "is_ascii ?d \<and> is_ascii ?o \<and> is_ascii (take 23 ?n) \<and> l = file_header_record p"
    then show "nacha_file_header p = Ok l \<and> utf8_len l = 94"
      using w(3,6) v by (simp add: nacha_file_header_def file_header_record_def pad_truncate_ascii z fmt_left_full fit_text_len ascii_str_lit)
  qed
qed

lemma odfi_short:
  assumes "odfi_ok p"
  shows "str_prefix (min 8 (utf8_len (np_odfi_routing p))) (np_odfi_routing p) = Ok (take 8 (np_odfi_routing p))"
    and "fmt_right 8 (take 8 (np_odfi_routing p)) = take 8 (np_odfi_routing p)" and "utf8_len (take 8 (np_odfi_routing p)) = 8"
  using assms by (simp_all add: odfi_ok_def digits_simps fmt_left_full)

lemma fmt_zeros_one: "utf8_len (fmt_zeros 7 (Suc 0)) = 7" "utf8_len (fmt_zeros 6 (Suc 0)) = 6" "utf8_len (fmt_zeros 12 0) = 12"
  by (simp_all add: fmt_zeros_fits)

lemma batch_header_exact:
  assumes "validate_profile p = Ok ()"
  shows "nacha_batch_header p sec = Ok l \<and> utf8_len l = 94 \<longleftrightarrow>
    is_ascii (take 16 (np_company_name p)) \<and> is_ascii (take 10 (np_company_id p)) \<and> is_ascii (take 10 (np_company_entry_description p))
    \<and> l = batch_header_record p sec"
proof -
  let ?e = "np_effective_entry_date p" and ?n = "np_company_name p" and ?i = "np_company_id p" and ?x = "np_company_entry_description p"
  have v: "odfi_ok p" "length ?e = 6" "list_all is_digit_scalar ?e" using assms by (simp_all add: validate_profile_Ok)
  note o = odfi_short [OF v(1)]
  have e: "pad_truncate ?e 6 = Ok ?e" "fmt_right 6 ?e = ?e" "utf8_len ?e = 6"
    using v digits_ascii [of ?e] by (simp_all add: pad_truncate_ascii fit_text_full fmt_left_full digits_len)
  show ?thesis
  proof
    assume a: "nacha_batch_header p sec = Ok l \<and> utf8_len l = 94"
    then obtain n i x where t: "pad_truncate ?n 16 = Ok n" "pad_truncate ?i 10 = Ok i" "pad_truncate ?x 10 = Ok x"
      and l: "l = concat [ascii_str ''5'', ascii_str ''220'', fmt_left 16 n, fmt_left 20 (replicate 20 32), fmt_left 10 i,
         fmt_left 3 (sec_as_str sec), fmt_left 10 x, ?e, ?e, ascii_str ''   '', ascii_str ''1'', take 8 (np_odfi_routing p), fmt_zeros 7 1]"
      unfolding nacha_batch_header_def by (auto simp: e o)
    have sum: "utf8_len (fmt_left 16 n) + utf8_len (fmt_left 10 i) + utf8_len (fmt_left 10 x) = 36"
      using a l by (simp add: fmt_left_full ascii_str_lit e o fmt_zeros_one)
    have "is_ascii (take 16 ?n)" "is_ascii (take 10 ?i)" "is_ascii (take 10 ?x)"
      using sum pad_truncate_width [OF t(1)] pad_truncate_width [OF t(2)] pad_truncate_width [OF t(3)] by linarith+
    then show "is_ascii (take 16 ?n) \<and> is_ascii (take 10 ?i) \<and> is_ascii (take 10 ?x) \<and> l = batch_header_record p sec"
      using l t [THEN pad_truncate_fit] by (simp add: batch_header_record_def fmt_left_full)
  next
    assume r: "is_ascii (take 16 ?n) \<and> is_ascii (take 10 ?i) \<and> is_ascii (take 10 ?x) \<and> l = batch_header_record p sec"
    then show "nacha_batch_header p sec = Ok l \<and> utf8_len l = 94"
      by (simp add: nacha_batch_header_def batch_header_record_def pad_truncate_ascii e o fmt_left_full fit_text_len ascii_str_lit fmt_zeros_one)
  qed
qed

lemma batch_control_exact:
  assumes "odfi_ok p"
  shows "nacha_batch_control p n h t = Ok l \<and> utf8_len l = 94 \<longleftrightarrow>
    is_ascii (take 10 (np_company_id p)) \<and> n < 10 ^ 6 \<and> h < 10 ^ 10 \<and> t < 10 ^ 12 \<and> l = batch_control_record p n h t"
proof -
  let ?i = "np_company_id p"
  note o = odfi_short [OF assms]
  show ?thesis
  proof
    assume a: "nacha_batch_control p n h t = Ok l \<and> utf8_len l = 94"
    then obtain i where i: "pad_truncate ?i 10 = Ok i"
      and l: "l = concat [ascii_str ''8'', ascii_str ''220'', fmt_zeros 6 n, fmt_zeros 10 h, fmt_zeros 12 0, fmt_zeros 12 t, fmt_left 10 i,
        fmt_left 19 (replicate 19 32), fmt_left 6 (replicate 6 32), take 8 (np_odfi_routing p), fmt_zeros 7 1]"
      unfolding nacha_batch_control_def by (auto simp: o)
    have sum: "utf8_len (fmt_zeros 6 n) + utf8_len (fmt_zeros 10 h) + utf8_len (fmt_zeros 12 t) + utf8_len (fmt_left 10 i) = 38"
      using a l by (simp add: fmt_left_full ascii_str_lit o fmt_zeros_one)
    note ge = fmt_zeros_ge [of 6 n] fmt_zeros_ge [of 10 h] fmt_zeros_ge [of 12 t] pad_truncate_width(1) [OF i]
    have "is_ascii (take 10 ?i)" "n < 10 ^ 6" "h < 10 ^ 10" "t < 10 ^ 12"
      using sum ge pad_truncate_width(2) [OF i] fmt_zeros_fits [of 6 n] fmt_zeros_fits [of 10 h] fmt_zeros_fits [of 12 t] by linarith+
    then show "is_ascii (take 10 ?i) \<and> n < 10 ^ 6 \<and> h < 10 ^ 10 \<and> t < 10 ^ 12 \<and> l = batch_control_record p n h t"
      using l pad_truncate_fit [OF i] by (simp add: batch_control_record_def fmt_left_full)
  next
    assume r: "is_ascii (take 10 ?i) \<and> n < 10 ^ 6 \<and> h < 10 ^ 10 \<and> t < 10 ^ 12 \<and> l = batch_control_record p n h t"
    then have "utf8_len (fmt_zeros 6 n) = 6" "utf8_len (fmt_zeros 10 h) = 10" "utf8_len (fmt_zeros 12 t) = 12" by (simp_all add: fmt_zeros_fits)
    then show "nacha_batch_control p n h t = Ok l \<and> utf8_len l = 94"
      using r by (simp add: nacha_batch_control_def batch_control_record_def pad_truncate_ascii o fmt_left_full fit_text_len ascii_str_lit fmt_zeros_one)
  qed
qed

lemma file_control_exact:
  "utf8_len (nacha_file_control k n h t) = 94 \<longleftrightarrow> k < 10 ^ 6 \<and> n < 10 ^ 8 \<and> h < 10 ^ 10 \<and> t < 10 ^ 12"
proof -
  have "utf8_len (nacha_file_control k n h t)
      = utf8_len (fmt_zeros 6 k) + utf8_len (fmt_zeros 8 n) + utf8_len (fmt_zeros 10 h) + utf8_len (fmt_zeros 12 t) + 58"
    by (simp add: nacha_file_control_def ascii_str_lit fmt_zeros_one fmt_left_full)
  then show ?thesis
    using fmt_zeros_ge [of 6 k] fmt_zeros_ge [of 8 n] fmt_zeros_ge [of 10 h] fmt_zeros_ge [of 12 t]
      fmt_zeros_fits [of 6 k] fmt_zeros_fits [of 8 n] fmt_zeros_fits [of 10 h] fmt_zeros_fits [of 12 t] by auto
qed

lemma push_fillers_Ok: "push_fillers n out = Ok (out @ as_lines (replicate n (replicate 94 57)))"
  by (induction n arbitrary: out) (simp_all add: as_lines_def push_94_def del: rbind_eq_Ok push_94_Ok)


section \<open>The whole file\<close>

definition nacha_ok :: "batch \<Rightarrow> nacha_profile \<Rightarrow> nacha_credit list \<Rightarrow> bool" where
  "nacha_ok b p cs \<longleftrightarrow> bt_rail b = AchNacha \<and> bt_currency b = USD \<and> cs \<noteq> [] \<and> length cs = length (bt_entries b)
     \<and> profile_ok p \<and> list_all credit_ok cs \<and> length cs < 10 ^ 6 \<and> credit_total cs < 10 ^ 12"

definition nacha_records :: "nacha_profile \<Rightarrow> nacha_credit list \<Rightarrow> scalars list" where
  "nacha_records p cs =
     [file_header_record p, batch_header_record p (nc_sec (hd cs))] @ details p 0 cs
     @ [batch_control_record p (length cs) (hash_total cs mod 10 ^ 10) (credit_total cs),
        nacha_file_control ((length cs + 13) div 10) (length cs) (hash_total cs mod 10 ^ 10) (credit_total cs)]
     @ replicate ((10 - (length cs + 4) mod 10) mod 10) (replicate 94 57)"

lemma routing_hash_bound: "credit_ok c \<Longrightarrow> routing_hash c < 10 ^ 8"
  using scalar_num_bound [of "take 8 (nc_rdfi_routing c)" 0] by (simp add: routing_hash_def scalar_num_def credit_ok_def digits_simps)

lemma hash_total_bound: "list_all credit_ok cs \<Longrightarrow> hash_total cs \<le> 10 ^ 8 * length cs"
proof (induction cs)
  case (Cons c cs)
  then show ?case using routing_hash_bound [of c] by (simp add: hash_total_def)
qed (simp add: hash_total_def)

lemma hash_total_unwrapped: "list_all credit_ok cs \<Longrightarrow> length cs < 10 ^ 7 \<Longrightarrow> hash_total cs mod 2 ^ 64 = hash_total cs"
  using hash_total_bound [of cs] by (intro mod_less) simp

lemma as_lines_simps: "as_lines [] = []" "as_lines (r # rs) = r @ [10] @ as_lines rs" "as_lines (rs @ rs') = as_lines rs @ as_lines rs'"
  by (simp_all add: as_lines_def)

text \<open>A profile that passes its validation yields both headers exactly when its texts are ASCII.\<close>

lemma profile_ok_iff:
  "profile_ok p \<longleftrightarrow> validate_profile p = Ok () \<and> is_ascii (np_immediate_destination p) \<and> is_ascii (np_immediate_origin p)
     \<and> is_ascii (take 23 (np_company_name p)) \<and> is_ascii (take 10 (np_company_id p)) \<and> is_ascii (take 10 (np_company_entry_description p))"
  using utf8_len_ascii [of "np_immediate_origin p"] utf8_len_ascii [of "np_immediate_destination p"]
  unfolding profile_ok_def validate_profile_Ok by auto

text \<open>What remains after the entries: the two controls and the fillers.\<close>

lemma nacha_tail_exact:
  assumes "odfi_ok p" and "list_all credit_ok cs" and "length cs < 10 ^ 7"
  shows "nacha_controls p (out, hash_total cs mod 2 ^ 64, credit_total cs, length cs) = Ok r
    \<longleftrightarrow> is_ascii (take 10 (np_company_id p)) \<and> length cs < 10 ^ 6 \<and> credit_total cs < 10 ^ 12
      \<and> r = out @ as_lines ([batch_control_record p (length cs) (hash_total cs mod 10 ^ 10) (credit_total cs),
        nacha_file_control ((length cs + 13) div 10) (length cs) (hash_total cs mod 10 ^ 10) (credit_total cs)]
        @ replicate ((10 - (length cs + 4) mod 10) mod 10) (replicate 94 57))"
proof -
  let ?n = "length cs" and ?h = "hash_total cs mod 10 ^ 10" and ?t = "credit_total cs"
  let ?f = "nacha_file_control ((?n + 13) div 10) ?n ?h ?t"
  have u: "u32_val (1 + 1 + ?n + 1 + 1) = Ok (?n + 4)" using assms(3) by (simp add: u32_val_def)
  have k: "?n + 4 + 9 = ?n + 13" by simp
  have fc: "utf8_len ?f = 94" if "?n < 10 ^ 6" "?t < 10 ^ 12" using that by (simp add: file_control_exact)
  have "?thesis \<longleftrightarrow> ((\<exists>l. (nacha_batch_control p ?n ?h ?t = Ok l \<and> utf8_len l = 94) \<and> utf8_len ?f = 94
      \<and> r = out @ as_lines ([l, ?f] @ replicate ((10 - (?n + 4) mod 10) mod 10) (replicate 94 57)))
    \<longleftrightarrow> is_ascii (take 10 (np_company_id p)) \<and> ?n < 10 ^ 6 \<and> ?t < 10 ^ 12
      \<and> r = out @ as_lines ([batch_control_record p ?n ?h ?t, ?f] @ replicate ((10 - (?n + 4) mod 10) mod 10) (replicate 94 57)))"
    unfolding nacha_controls_def prod.case Let_def hash_total_unwrapped [OF assms(2,3)] u k by (simp add: push_fillers_Ok as_lines_simps k) blast
  moreover have "\<dots>" unfolding batch_control_exact [OF assms(1)] using fc by (auto simp: less_imp_le)
  ultimately show ?thesis by blast
qed

lemma nacha_body_exact:
  assumes "bt_currency b = USD" and "odfi_ok p"
  shows "rbind (nacha_entries b p cs (out, 0, 0, 0)) (nacha_controls p) = Ok r \<longleftrightarrow>
    list_all credit_ok cs \<and> is_ascii (take 10 (np_company_id p)) \<and> length cs < 10 ^ 6 \<and> credit_total cs < 10 ^ 12
    \<and> r = out @ as_lines (details p 0 cs @ [batch_control_record p (length cs) (hash_total cs mod 10 ^ 10) (credit_total cs),
        nacha_file_control ((length cs + 13) div 10) (length cs) (hash_total cs mod 10 ^ 10) (credit_total cs)]
        @ replicate ((10 - (length cs + 4) mod 10) mod 10) (replicate 94 57))"
proof (cases "list_all credit_ok cs \<and> length cs < 10 ^ 7 \<and> credit_total cs \<le> u64_max")
  case True
  then have "nacha_entries b p cs (out, 0, 0, 0) = Ok (out @ as_lines (details p 0 cs), hash_total cs mod 2 ^ 64, credit_total cs, length cs)"
    using nacha_entries_exact [OF assms, of 0 0 0] by simp
  then show ?thesis unfolding rbind.simps using nacha_tail_exact [OF assms(2), of cs] True
    by (simp add: as_lines_simps)
next
  case False
  then have "\<nexists>st. nacha_entries b p cs (out, 0, 0, 0) = Ok st" using nacha_entries_exact [OF assms, of 0 0 0] by (simp del: split_paired_Ex)
  moreover have "\<not> (list_all credit_ok cs \<and> length cs < 10 ^ 6 \<and> credit_total cs < 10 ^ 12)" using False by auto
  ultimately show ?thesis unfolding rbind_eq_Ok by blast
qed

lemma nacha_file_exact: "nacha_file b p cs = Ok out \<longleftrightarrow> nacha_ok b p cs \<and> out = as_lines (nacha_records p cs)"
proof (cases "bt_rail b = AchNacha \<and> bt_currency b = USD \<and> cs \<noteq> [] \<and> length cs = length (bt_entries b) \<and> validate_profile p = Ok ()")
  case True
  then have v: "validate_profile p = Ok ()" and usd: "bt_currency b = USD" and o: "odfi_ok p" by (simp_all add: validate_profile_Ok)
  have ascii16: "is_ascii (take 23 s) \<Longrightarrow> is_ascii (take 16 s)" for s using is_ascii_take [of "take 23 s" 16] by simp
  have "nacha_file b p cs = Ok out \<longleftrightarrow> (\<exists>l1 l2. (nacha_file_header p = Ok l1 \<and> utf8_len l1 = 94)
      \<and> (nacha_batch_header p (nc_sec (hd cs)) = Ok l2 \<and> utf8_len l2 = 94)
      \<and> rbind (nacha_entries b p cs (as_lines [l1, l2], 0, 0, 0)) (nacha_controls p) = Ok out)"
    using True unfolding nacha_file_def by (simp add: as_lines_simps del: split_paired_Ex)
  also have "\<dots> \<longleftrightarrow> profile_ok p \<and> list_all credit_ok cs \<and> length cs < 10 ^ 6 \<and> credit_total cs < 10 ^ 12 \<and> out = as_lines (nacha_records p cs)"
    unfolding file_header_exact [OF v] batch_header_exact [OF v] nacha_body_exact [OF usd o] profile_ok_iff nacha_records_def
    using v ascii16 by (auto simp: as_lines_simps)
  finally show ?thesis using True by (simp add: nacha_ok_def)
next
  case False
  then have "\<not> nacha_ok b p cs" by (auto simp: nacha_ok_def profile_ok_iff)
  moreover have "nacha_file b p cs \<noteq> Ok out" using False unfolding nacha_file_def by simp blast
  ultimately show ?thesis by blast
qed

section \<open>Reading a file back\<close>

definition window :: "nat \<Rightarrow> nat \<Rightarrow> scalars \<Rightarrow> scalars" where
  "window a n r = take n (drop a r)"

abbreviation number_at :: "nat \<Rightarrow> nat \<Rightarrow> scalars \<Rightarrow> nat" where
  "number_at a n r \<equiv> scalar_num (window a n r)"

lemma scalar_num_zeros [simp]: "scalar_num (fmt_zeros w n) = n"
proof -
  have "foldl (\<lambda>acc c. acc * 10 + (c - 48)) a (map of_char s) = foldl (\<lambda>acc c. acc * 10 + digit_val c) a s" for a s
    by (induction s arbitrary: a) (auto simp: digit_val_def)
  then have "scalar_num (fmt_zeros w n) = read_nat (pad_zero w (show_nat n))" by (simp add: scalar_num_def fmt_zeros_def ascii_str_def read_nat_def)
  then show ?thesis by simp
qed

lemma fmt_zeros_length: "0 < w \<Longrightarrow> n < 10 ^ w \<Longrightarrow> length (fmt_zeros w n) = w"
  using fmt_zeros_fits [of w n] by (simp add: fmt_zeros_len)

lemma fmt_zeros_ascii [simp]: "is_ascii (fmt_zeros w n)"
  by (rule digits_ascii [OF fmt_zeros_digits])

lemma ascii_lits:
  "ascii_str ''6'' = [54]" "ascii_str ''22'' = [50, 50]" "ascii_str ''  0'' = [32, 32, 48]" "ascii_str ''8'' = [56]" "ascii_str ''220'' = [50, 50, 48]"
  "ascii_str ''9'' = [57]" "ascii_str ''101'' = [49, 48, 49]" "ascii_str ''0000'' = [48, 48, 48, 48]" "ascii_str ''A'' = [65]"
  "ascii_str ''094101'' = [48, 57, 52, 49, 48, 49]" "ascii_str ''5'' = [53]" "ascii_str ''   '' = [32, 32, 32]" "ascii_str ''1'' = [49]"
  by (simp_all add: ascii_str_def)

text \<open>What an entry shows: routing and account number, amount and sequence number in their columns.\<close>

definition entry_shows :: "nacha_credit \<Rightarrow> nat \<Rightarrow> scalars \<Rightarrow> bool" where
  "entry_shows c q r \<longleftrightarrow> window 0 3 r = ascii_str ''622'' \<and> window 3 9 r = nc_rdfi_routing c \<and> window 12 17 r = fit_text 17 (nc_account_number c)
     \<and> number_at 29 10 r = nc_amount_cents c \<and> window 39 15 r = fit_text 15 (nc_individual_id c)
     \<and> window 54 22 r = fit_text 22 (nc_receiver_name c) \<and> number_at 87 7 r = q"

definition batch_control_shows :: "nacha_credit list \<Rightarrow> scalars \<Rightarrow> bool" where
  "batch_control_shows cs r \<longleftrightarrow> window 0 4 r = ascii_str ''8220'' \<and> number_at 4 6 r = length cs \<and> number_at 10 10 r = hash_total cs mod 10 ^ 10
     \<and> number_at 20 12 r = 0 \<and> number_at 32 12 r = credit_total cs"

definition file_control_shows :: "nat \<Rightarrow> nacha_credit list \<Rightarrow> scalars \<Rightarrow> bool" where
  "file_control_shows blocks cs r \<longleftrightarrow> window 0 1 r = ascii_str ''9'' \<and> number_at 1 6 r = 1 \<and> number_at 7 6 r = blocks \<and> number_at 13 8 r = length cs
     \<and> number_at 21 10 r = hash_total cs mod 10 ^ 10 \<and> number_at 31 12 r = 0 \<and> number_at 43 12 r = credit_total cs"

definition nacha_layout :: "nacha_credit list \<Rightarrow> scalars \<Rightarrow> bool" where
  "nacha_layout cs out \<longleftrightarrow> (\<exists>recs blocks. out = as_lines recs \<and> length recs = 10 * blocks \<and> list_all (\<lambda>r. length r = 94 \<and> is_ascii r) recs
     \<and> 4 + length cs \<le> length recs
     \<and> window 0 1 (recs ! 0) = ascii_str ''1'' \<and> window 0 1 (recs ! 1) = ascii_str ''5''
     \<and> (\<forall>i<length cs. entry_shows (cs ! i) (i + 1) (recs ! (2 + i)))
     \<and> batch_control_shows cs (recs ! (2 + length cs)) \<and> file_control_shows blocks cs (recs ! (3 + length cs))
     \<and> (\<forall>j<length recs. 4 + length cs \<le> j \<longrightarrow> recs ! j = replicate 94 57))"

lemmas record_widths = fmt_zeros_length digits_ascii digits_take is_ascii_take ascii_lits

lemma take_drop_append: "take n x @ drop n x @ y = x @ y"
  by (metis append.assoc append_take_drop_id)

lemma detail_record_shows:
  assumes "credit_ok c" and "odfi_ok p" and "q < 10 ^ 7"
  shows "length (detail_record p q c) = 94" and "is_ascii (detail_record p q c)" and "entry_shows c q (detail_record p q c)"
proof -
  have c: "length (nc_rdfi_routing c) = 9" "list_all is_digit_scalar (nc_rdfi_routing c)" "is_ascii (nc_account_number c)" "is_ascii (take 22 (nc_receiver_name c))"
    "is_ascii (take 15 (nc_individual_id c))" "nc_amount_cents c < 10 ^ 10" "length (nc_account_number c) \<le> 17" using assms(1) by (simp_all add: credit_ok_def)
  have o: "length (np_odfi_routing p) = 9" "list_all is_digit_scalar (np_odfi_routing p)" using assms(2) by (simp_all add: odfi_ok_def)
  have z: "length (fmt_zeros 10 (nc_amount_cents c)) = 10" "length (fmt_zeros 7 q) = 7" using c(6) assms(3) by (simp_all add: fmt_zeros_length)
  have r: "detail_record p q c = [54, 50, 50] @ nc_rdfi_routing c @ fit_text 17 (nc_account_number c) @ fmt_zeros 10 (nc_amount_cents c)
      @ fit_text 15 (nc_individual_id c) @ fit_text 22 (nc_receiver_name c) @ [32, 32, 48] @ take 8 (np_odfi_routing p) @ fmt_zeros 7 q"
    by (simp add: detail_record_def ascii_lits take_drop_append)
  show "length (detail_record p q c) = 94" using c o z by (simp add: r)
  show "is_ascii (detail_record p q c)" using c o by (simp add: r record_widths)
  show "entry_shows c q (detail_record p q c)"
    using c o z by (simp add: r entry_shows_def window_def ascii_str_def)
qed

lemma details_nth: "i < length cs \<Longrightarrow> details p q cs ! i = detail_record p (q + i + 1) (cs ! i)"
proof (induction cs arbitrary: q i)
  case (Cons c cs)
  then show ?case by (cases i) auto
qed simp

lemma details_length [simp]: "length (details p q cs) = length cs"
  by (induction cs arbitrary: q) auto

lemma control_records_show:
  assumes "profile_ok p" and "length cs < 10 ^ 6" and "credit_total cs < 10 ^ 12" and "k < 10 ^ 6"
  defines "b \<equiv> batch_control_record p (length cs) (hash_total cs mod 10 ^ 10) (credit_total cs)"
    and "f \<equiv> nacha_file_control k (length cs) (hash_total cs mod 10 ^ 10) (credit_total cs)"
  shows "length b = 94 \<and> is_ascii b \<and> batch_control_shows cs b" and "length f = 94 \<and> is_ascii f \<and> file_control_shows k cs f"
proof -
  let ?h = "hash_total cs mod 10 ^ 10"
  have o: "length (np_odfi_routing p) = 9" "list_all is_digit_scalar (np_odfi_routing p)" "is_ascii (take 10 (np_company_id p))"
    using assms(1) by (simp_all add: profile_ok_def odfi_ok_def)
  have z: "length (fmt_zeros 6 (length cs)) = 6" "length (fmt_zeros 10 ?h) = 10" "length (fmt_zeros 12 (credit_total cs)) = 12"
    "length (fmt_zeros 12 0) = 12" "length (fmt_zeros 7 (Suc 0)) = 7" "length (fmt_zeros 6 (Suc 0)) = 6" "length (fmt_zeros 6 k) = 6" "length (fmt_zeros 8 (length cs)) = 8"
    using assms(2-4) by (simp_all add: fmt_zeros_length)
  have b: "b = [56, 50, 50, 48] @ fmt_zeros 6 (length cs) @ fmt_zeros 10 ?h @ fmt_zeros 12 0 @ fmt_zeros 12 (credit_total cs)
      @ fit_text 10 (np_company_id p) @ replicate 19 32 @ replicate 6 32 @ take 8 (np_odfi_routing p) @ fmt_zeros 7 (Suc 0)"
    by (simp add: b_def batch_control_record_def ascii_lits)
  have f: "f = [57] @ fmt_zeros 6 (Suc 0) @ fmt_zeros 6 k @ fmt_zeros 8 (length cs) @ fmt_zeros 10 ?h @ fmt_zeros 12 0
      @ fmt_zeros 12 (credit_total cs) @ replicate 39 32"
    by (simp add: f_def nacha_file_control_def ascii_lits fmt_left_full)
  show "length b = 94 \<and> is_ascii b \<and> batch_control_shows cs b"
    unfolding b batch_control_shows_def window_def using o z by (simp add: record_widths ascii_str_def)
  show "length f = 94 \<and> is_ascii f \<and> file_control_shows k cs f"
    unfolding f file_control_shows_def window_def using z by (simp add: record_widths ascii_str_def)
qed

lemma header_records_show:
  assumes "profile_ok p"
  shows "length (file_header_record p) = 94 \<and> is_ascii (file_header_record p) \<and> window 0 1 (file_header_record p) = ascii_str ''1''"
    and "length (batch_header_record p s) = 94 \<and> is_ascii (batch_header_record p s) \<and> window 0 1 (batch_header_record p s) = ascii_str ''5''"
proof -
  have z: "length (fmt_zeros 7 (Suc 0)) = 7" by (simp add: fmt_zeros_length)
  have a16: "is_ascii (take 16 (np_company_name p))" using assms is_ascii_take [of "take 23 (np_company_name p)" 16] by (simp add: profile_ok_def)
  show "length (file_header_record p) = 94 \<and> is_ascii (file_header_record p) \<and> window 0 1 (file_header_record p) = ascii_str ''1''"
    using assms by (simp add: file_header_record_def profile_ok_def window_def record_widths)
  show "length (batch_header_record p s) = 94 \<and> is_ascii (batch_header_record p s) \<and> window 0 1 (batch_header_record p s) = ascii_str ''5''"
    using assms z a16 by (simp add: batch_header_record_def profile_ok_def odfi_ok_def window_def record_widths)
qed


lemma block_count: "4 + n + (10 - (n + 4) mod 10) mod 10 = 10 * ((n + 13) div 10)" for n :: nat
proof -
  define q r where "q = (n + 4) div 10" and "r = (n + 4) mod 10"
  have n: "n + 4 = 10 * q + r" "r < 10" by (simp_all add: q_def r_def)
  have "(n + 13) div 10 = q + (if r = 0 then 0 else 1)"
  proof (cases "r = 0")
    case True
    then have "n + 13 = 9 + 10 * q" using n by simp
    then show ?thesis using True by simp
  next
    case False
    then have "n + 13 = (r - 1) + 10 * (q + 1)" using n by simp
    moreover have "(r - 1 + 10 * (q + 1)) div 10 = q + 1" using n by simp
    ultimately show ?thesis using False by simp
  qed
  moreover have "(10 - r) mod 10 = (if r = 0 then 0 else 10 - r)" using n(2) by auto
  ultimately show ?thesis using n unfolding r_def [symmetric] by auto
qed

lemma nacha_records_layout:
  assumes "nacha_ok b p cs"
  shows "nacha_layout cs (as_lines (nacha_records p cs))"
proof -
  let ?n = "length cs" and ?k = "(10 - (length cs + 4) mod 10) mod 10" and ?b = "(length cs + 13) div 10"
  let ?r = "nacha_records p cs"
  have ok: "profile_ok p" "list_all credit_ok cs" "?n < 10 ^ 6" "credit_total cs < 10 ^ 12" using assms by (simp_all add: nacha_ok_def)
  then have o: "odfi_ok p" by (simp add: profile_ok_def)
  have kb: "?b < 10 ^ 6" using ok(3) by simp
  note ctl = control_records_show [OF ok(1,3,4) kb] and hdr = header_records_show [OF ok(1)]
  have d: "length (details p 0 cs ! i) = 94 \<and> is_ascii (details p 0 cs ! i) \<and> entry_shows (cs ! i) (i + 1) (details p 0 cs ! i)" if "i < ?n" for i
    using detail_record_shows [of "cs ! i" p "i + 1"] ok(2,3) o that by (simp add: details_nth list_all_length)
  have len: "length ?r = 10 * ?b" using block_count [of ?n] by (simp add: nacha_records_def)
  have "list_all (\<lambda>r. length r = 94 \<and> is_ascii r) (details p 0 cs)" using d by (simp add: list_all_length)
  then have all94: "list_all (\<lambda>r. length r = 94 \<and> is_ascii r) ?r"
    using ctl hdr by (auto simp: nacha_records_def list_all_iff)
  have ent: "?r ! (2 + i) = details p 0 cs ! i" if "i < ?n" for i using that by (simp add: nacha_records_def nth_append)
  have rest: "?r ! j = replicate 94 57" if "4 + ?n \<le> j" "j < length ?r" for j
  proof -
    define m where "m = j - (4 + ?n)"
    have "?r = ([file_header_record p, batch_header_record p (nc_sec (hd cs))] @ details p 0 cs
        @ [batch_control_record p ?n (hash_total cs mod 10 ^ 10) (credit_total cs), nacha_file_control ?b ?n (hash_total cs mod 10 ^ 10) (credit_total cs)])
        @ replicate ?k (replicate 94 57)" by (simp add: nacha_records_def)
    moreover have "m < ?k" using that len block_count [of ?n] unfolding m_def by linarith
    moreover have "j = 4 + ?n + m" using that by (simp add: m_def)
    ultimately show ?thesis by (simp add: nth_append)
  qed
  have "?r ! (2 + ?n) = batch_control_record p ?n (hash_total cs mod 10 ^ 10) (credit_total cs)"
    "?r ! (3 + ?n) = nacha_file_control ?b ?n (hash_total cs mod 10 ^ 10) (credit_total cs)"
    by (simp_all add: nacha_records_def nth_append)
  moreover have "?r ! 0 = file_header_record p" "?r ! 1 = batch_header_record p (nc_sec (hd cs))" by (simp_all add: nacha_records_def)
  moreover have "4 + ?n \<le> length ?r" using len block_count [of ?n] by linarith
  ultimately show ?thesis unfolding nacha_layout_def
    using len all94 ent rest d ctl hdr by (intro exI [of _ ?r] exI [of _ ?b]) simp
qed

text \<open>
  C14.  The file is complete and exact.  A file is produced exactly when the batch is a dollar batch on the ACH rail with one credit per entry, all routing numbers
  and dates are digits of the right length, every text is ASCII as far as it is used, and every number fits its field.  The file
  then consists of whole blocks of ten records of 94 ASCII characters: each credit appears in order with its routing number, account, amount and sequence
  number; both controls state the number of credits, the hash of their routing numbers (which never wraps) and their total; the file
  control states the number of blocks; fillers complete the last one.
\<close>

theorem nacha_file_complete:
  "case nacha_file b p cs of Ok out \<Rightarrow> nacha_ok b p cs \<and> nacha_layout cs out | _ \<Rightarrow> \<not> nacha_ok b p cs"
proof (cases "nacha_file b p cs")
  case (Ok out)
  then show ?thesis using nacha_file_exact [of b p cs out] nacha_records_layout [of b p cs] by simp
qed (use nacha_file_exact [of b p cs "as_lines (nacha_records p cs)"] in auto)

definition sample_profile :: nacha_profile where
  "sample_profile = \<lparr>np_odfi_routing = ascii_str ''121000248'', np_immediate_origin = ascii_str ''1234567890'',
     np_immediate_destination = ascii_str ''0210000211'', np_company_name = ascii_str ''OPENPAY'', np_company_id = ascii_str ''9876543210'',
     np_company_entry_description = ascii_str ''SETTLEMNT'', np_effective_entry_date = ascii_str ''261122''\<rparr>"

definition sample_credit :: nacha_credit where
  "sample_credit = \<lparr>nc_rdfi_routing = ascii_str ''021000021'', nc_account_number = ascii_str ''111'', nc_receiver_name = ascii_str ''ALICE'',
     nc_amount_cents = 750000, nc_individual_id = ascii_str ''A1'', nc_sec = Ppd\<rparr>"

definition sample_ach_batch :: batch where
  "sample_ach_batch = (open_at 1 USD AchNacha 1000)\<lparr>bt_entries := [\<lparr>be_tx_id = 7, be_amount = from_minor 750000 USD, be_reference = None\<rparr>]\<rparr>"

theorem nacha_file_complete_witness:
  "\<exists>out. nacha_file sample_ach_batch sample_profile [sample_credit] = Ok out \<and> nacha_layout [sample_credit] out"
proof -
  have "nacha_ok sample_ach_batch sample_profile [sample_credit]"
    by (simp add: nacha_ok_def sample_ach_batch_def open_at_def profile_ok_def odfi_ok_def credit_ok_def credit_total_def sample_profile_def sample_credit_def
        ascii_str_def is_digit_scalar_def)
  then show ?thesis using nacha_file_complete [of sample_ach_batch sample_profile "[sample_credit]"]
    by (simp split: result.splits)
qed

text \<open>The amounts of the batch are never compared with those of the credits: only rail, currency and number of entries matter.\<close>

lemma batch_amounts_unchecked:
  assumes "bt_rail b = bt_rail b'" and "bt_currency b = bt_currency b'" and "length (bt_entries b) = length (bt_entries b')"
  shows "nacha_file b p cs = Ok out \<longleftrightarrow> nacha_file b' p cs = Ok out"
  unfolding nacha_file_exact nacha_ok_def using assms by auto

text \<open>A company name whose twenty-third byte lies inside a character makes the generator panic instead of returning an error.\<close>

lemma split_character_panics:
  assumes "bt_rail b = AchNacha" and "bt_currency b = USD" and "cs \<noteq> []" and "length cs = length (bt_entries b)" and "validate_profile p = Ok ()"
    and "np_company_name p = replicate 22 65 @ [233]"
  shows "nacha_file b p cs = Panic"
proof -
  have "str_prefix (n + 1) (replicate n 65 @ [233]) = (Panic :: (scalars, settlement_error) result)" for n
    by (induction n) (simp_all add: utf8_width_def)
  from this [of 22] have "str_prefix 23 (replicate 22 65 @ [233]) = (Panic :: (scalars, settlement_error) result)" by simp
  moreover have "utf8_len (replicate n 65 @ [233]) = n + 2" for n by (induction n) (auto simp: utf8_width_def)
  ultimately have "pad_truncate (np_company_name p) 23 = Panic" using assms(6) by (simp add: pad_truncate_def del: utf8_len_simps)
  then show ?thesis using assms by (simp add: nacha_file_def nacha_file_header_def)
qed

end
