(* ===== verification/Routing_Cost.thy ===== *)
theory Routing_Cost
  imports Payment Hash_Map "HOL-Library.Product_Lexorder"
begin

text \<open>
  Least-cost routing (\<^verbatim>\<open>op-routing/src/route.rs\<close>, \<^verbatim>\<open>cost.rs\<close>, \<^verbatim>\<open>lcr.rs\<close>): candidate routes, the three cost estimators and the router that sorts the
  candidates by score.  An estimator is a trait object, so the router holds functions; the estimators of the crate are such
  functions of their tables.  Shown: what an estimate is and when it is exact, and that the router's sort is the
  stable sort of the pool by score.
\<close>

section \<open>Routes and costs\<close>

type_synonym driver_id = string

record route =
  rt_driver :: driver_id
  rt_rail :: rail_kind
  rt_country :: "string option"
  rt_auth_rate_bps :: "nat option"

definition new_route :: "driver_id \<Rightarrow> rail_kind \<Rightarrow> route" where
  "new_route d k = \<lparr>rt_driver = d, rt_rail = k, rt_country = None, rt_auth_rate_bps = None\<rparr>"

definition with_country :: "string \<Rightarrow> route \<Rightarrow> route" where
  "with_country c r = r\<lparr>rt_country := Some c\<rparr>"

definition with_auth_rate_bps :: "nat \<Rightarrow> route \<Rightarrow> route" where
  "with_auth_rate_bps bps r = r\<lparr>rt_auth_rate_bps := Some (min bps 10000)\<rparr>"

record cost_model =
  cm_interchange :: nat
  cm_scheme_fees :: nat
  cm_psp_markup :: nat
  cm_fixed_per_tx :: money

definition total_bps :: "cost_model \<Rightarrow> (nat, core_error) result" where
  "total_bps m = rbind (u32_val (cm_interchange m + cm_scheme_fees m)) (\<lambda>s. u32_val (s + cm_psp_markup m))"

record intent_ref =
  ir_amount :: money
  ir_mcc :: "string option"
  ir_customer_country :: "string option"
  ir_merchant_country :: "string option"

definition from_amount :: "money \<Rightarrow> intent_ref" where
  "from_amount a = \<lparr>ir_amount = a, ir_mcc = None, ir_customer_country = None, ir_merchant_country = None\<rparr>"

definition intent_with_mcc :: "string \<Rightarrow> intent_ref \<Rightarrow> intent_ref" where
  "intent_with_mcc m i = i\<lparr>ir_mcc := Some m\<rparr>"

definition with_customer_country :: "string \<Rightarrow> intent_ref \<Rightarrow> intent_ref" where
  "with_customer_country c i = i\<lparr>ir_customer_country := Some c\<rparr>"

definition with_merchant_country :: "string \<Rightarrow> intent_ref \<Rightarrow> intent_ref" where
  "with_merchant_country c i = i\<lparr>ir_merchant_country := Some c\<rparr>"

text \<open>The product of an \<^verbatim>\<open>i64\<close> and a \<^verbatim>\<open>u32\<close> fits in \<^verbatim>\<open>i128\<close>, so it never saturates; a quotient outside \<^verbatim>\<open>i64\<close> becomes its maximum.\<close>

definition i64_or_max :: "int \<Rightarrow> int" where
  "i64_or_max x = (if in_i64 x then x else i64_max)"

definition i64_saturating :: "int \<Rightarrow> int" where
  "i64_saturating x = max i64_min (min i64_max x)"

definition apply_bps :: "int \<Rightarrow> nat \<Rightarrow> int" where
  "apply_bps p bps = i64_or_max (p * int bps sdiv 10000)"

type_synonym cost_estimator = "intent_ref \<Rightarrow> route \<Rightarrow> (money, core_error) result"

definition fixed_part :: "cost_model \<Rightarrow> currency \<Rightarrow> int" where
  "fixed_part m c = (if currency (cm_fixed_per_tx m) = c then minor_units (cm_fixed_per_tx m) else 0)"

record interchange_plus =
  ip_default_by_driver :: "(driver_id, cost_model) hashmap"
  ip_overrides :: "(driver_id \<times> string, cost_model) hashmap"

definition ip_new :: interchange_plus where
  "ip_new = \<lparr>ip_default_by_driver = [], ip_overrides = []\<rparr>"

definition with_default :: "driver_id \<Rightarrow> cost_model \<Rightarrow> interchange_plus \<Rightarrow> interchange_plus" where
  "with_default d m e = e\<lparr>ip_default_by_driver := hm_insert d m (ip_default_by_driver e)\<rparr>"

definition with_override :: "driver_id \<Rightarrow> string \<Rightarrow> cost_model \<Rightarrow> interchange_plus \<Rightarrow> interchange_plus" where
  "with_override d c m e = e\<lparr>ip_overrides := hm_insert (d, c) m (ip_overrides e)\<rparr>"

definition pick_model :: "interchange_plus \<Rightarrow> route \<Rightarrow> cost_model option" where
  "pick_model e r =
     (case (case rt_country r of None \<Rightarrow> None | Some c \<Rightarrow> hm_get (ip_overrides e) (rt_driver r, c)) of
        Some m \<Rightarrow> Some m
      | None \<Rightarrow> hm_get (ip_default_by_driver e) (rt_driver r))"

definition interchange_plus_estimate :: "interchange_plus \<Rightarrow> cost_estimator" where
  "interchange_plus_estimate e i r =
     (let cur = currency (ir_amount i)
      in case pick_model e r of
           None \<Rightarrow> Ok (from_minor i64_max cur)
         | Some m \<Rightarrow>
             rbind (total_bps m) (\<lambda>bps.
               Ok (from_minor (i64_saturating (apply_bps (minor_units (ir_amount i)) bps + fixed_part m cur)) cur)))"

type_synonym blended_rate = "(driver_id, cost_model) hashmap"

definition blended_estimate :: "blended_rate \<Rightarrow> cost_estimator" where
  "blended_estimate e i r =
     (let cur = currency (ir_amount i)
      in case hm_get e (rt_driver r) of
           None \<Rightarrow> Ok (from_minor i64_max cur)
         | Some m \<Rightarrow>
             Ok (from_minor (i64_saturating (apply_bps (minor_units (ir_amount i)) (cm_psp_markup m) + fixed_part m cur)) cur))"

definition blended_with :: "driver_id \<Rightarrow> cost_model \<Rightarrow> blended_rate \<Rightarrow> blended_rate" where
  "blended_with d m e = hm_insert d m e"

type_synonym tiered_fixed = "(driver_id, (int \<times> money) list) hashmap"

definition tiered_with :: "driver_id \<Rightarrow> (int \<times> money) list \<Rightarrow> tiered_fixed \<Rightarrow> tiered_fixed" where
  "tiered_with d tiers e = hm_insert d (sort_key fst tiers) e"

definition tiered_estimate :: "tiered_fixed \<Rightarrow> cost_estimator" where
  "tiered_estimate e i r =
     (let cur = currency (ir_amount i)
      in case hm_get e (rt_driver r) of
           None \<Rightarrow> Ok (from_minor i64_max cur)
         | Some tiers \<Rightarrow>
             (case (case find (\<lambda>(t, _). t \<ge> minor_units (ir_amount i)) tiers of
                      Some tier \<Rightarrow> Some tier
                    | None \<Rightarrow> if tiers = [] then None else Some (List.last tiers)) of
                None \<Rightarrow> Ok (from_minor i64_max cur)
              | Some (_, fee) \<Rightarrow> if currency fee \<noteq> cur then Ok (from_minor i64_max cur) else Ok fee))"

section \<open>The router\<close>

record least_cost_router =
  lc_estimators :: "(driver_id, cost_estimator) hashmap"
  lc_routes :: "route list"
  lc_auth_rate_bias_bps :: nat

definition lc_new :: least_cost_router where
  "lc_new = \<lparr>lc_estimators = [], lc_routes = [], lc_auth_rate_bias_bps = 0\<rparr>"

definition with_estimator :: "driver_id \<Rightarrow> cost_estimator \<Rightarrow> least_cost_router \<Rightarrow> least_cost_router" where
  "with_estimator d e l = l\<lparr>lc_estimators := hm_insert d e (lc_estimators l)\<rparr>"

definition with_routes :: "route list \<Rightarrow> least_cost_router \<Rightarrow> least_cost_router" where
  "with_routes rs l = l\<lparr>lc_routes := rs\<rparr>"

definition with_auth_rate_bias_bps :: "nat \<Rightarrow> least_cost_router \<Rightarrow> least_cost_router" where
  "with_auth_rate_bias_bps bps l = l\<lparr>lc_auth_rate_bias_bps := bps\<rparr>"

text \<open>The bonus is a product of an \<^verbatim>\<open>i64\<close>, a \<^verbatim>\<open>u32\<close> and a \<^verbatim>\<open>u16\<close>, which fits in \<^verbatim>\<open>i128\<close>.\<close>

definition score :: "least_cost_router \<Rightarrow> intent_ref \<Rightarrow> route \<Rightarrow> (int, core_error) result" where
  "score l i r =
     rbind (case hm_get (lc_estimators l) (rt_driver r) of
              None \<Rightarrow> Ok (from_minor i64_max (currency (ir_amount i)))
            | Some e \<Rightarrow> e i r) (\<lambda>cost.
       if lc_auth_rate_bias_bps l = 0 \<or> minor_units cost = i64_max then Ok (minor_units cost)
       else let auth_bps = (case rt_auth_rate_bps r of None \<Rightarrow> 5000 | Some b \<Rightarrow> b);
                bonus = i64_or_max (minor_units (ir_amount i) * int (lc_auth_rate_bias_bps l) * int auth_bps sdiv 100000000)
            in Ok (i64_saturating (minor_units cost - bonus)))"

text \<open>
  The comparison sort scores both sides of every comparison.  It makes none for fewer than two routes, and otherwise every route takes part in
  one, so a panic of any score is a panic of the sort.
\<close>

fun score_all :: "least_cost_router \<Rightarrow> intent_ref \<Rightarrow> route list \<Rightarrow> (int list, core_error) result" where
  "score_all l i [] = Ok []"
| "score_all l i (r # rs) = rbind (score l i r) (\<lambda>s. rbind (score_all l i rs) (\<lambda>ss. Ok (s # ss)))"

definition select :: "least_cost_router \<Rightarrow> intent_ref \<Rightarrow> (route list, core_error) result" where
  "select l i =
     (if length (lc_routes l) < 2 then Ok (lc_routes l)
      else rbind (score_all l i (lc_routes l)) (\<lambda>ss.
        Ok (map (\<lambda>z. snd (snd z)) (sort_key (\<lambda>z. (fst z, fst (snd z))) (zip ss (enumerate 0 (lc_routes l)))))))"

section \<open>Estimates\<close>

text \<open>A quotient by ten thousand of a product with a rate of at most one hundred percent stays in range, so the estimate is exact.\<close>

lemma apply_bps_exact:
  assumes "in_i64 p" and "bps \<le> 10000"
  shows "apply_bps p bps = p * int bps sdiv 10000" and "\<bar>apply_bps p bps\<bar> \<le> \<bar>p\<bar>"
proof -
  have "0 \<le> \<bar>p\<bar> * int bps div 10000" by (simp add: pos_imp_zdiv_nonneg_iff)
  then have "\<bar>p * int bps sdiv 10000\<bar> = \<bar>p\<bar> * int bps div 10000"
    by (cases "p = 0"; cases "bps = 0") (simp_all add: signed_divide_int_def abs_mult sgn_mult abs_sgn_eq)
  also have "\<dots> \<le> \<bar>p\<bar> * 10000 div 10000" using assms(2) by (intro zdiv_mono1 mult_left_mono) auto
  finally have le: "\<bar>p * int bps sdiv 10000\<bar> \<le> \<bar>p\<bar>" by simp
  show e: "apply_bps p bps = p * int bps sdiv 10000"
  proof (cases "p = i64_min")
    case True
    have "p * int bps sdiv 10000 \<le> 0" using True
      by (cases "bps = 0") (simp_all add: signed_divide_int_def sgn_mult pos_imp_zdiv_nonneg_iff)
    then show ?thesis using le True by (simp add: apply_bps_def i64_or_max_def in_i64_def)
  next
    case False
    then have "\<bar>p\<bar> \<le> i64_max" using assms(1) by (auto simp: in_i64_def)
    then show ?thesis using le by (auto simp: apply_bps_def i64_or_max_def in_i64_def)
  qed
  show "\<bar>apply_bps p bps\<bar> \<le> \<bar>p\<bar>" unfolding e by (rule le)
qed

text \<open>A negative principal whose share leaves the range is priced at the maximum instead of the minimum.\<close>

lemma apply_bps_negative_overflow: "apply_bps i64_min 20000 = i64_max"
  by (simp add: apply_bps_def i64_or_max_def in_i64_def signed_divide_int_def)

text \<open>A tier whose threshold equals the principal applies.\<close>

lemma tier_threshold_inclusive:
  "tiered_estimate (tiered_with d [(t, fee)] []) (from_amount (from_minor t c)) (new_route d k) = Ok (if currency fee = c then fee else from_minor i64_max c)"
  by (simp add: tiered_estimate_def tiered_with_def from_amount_def new_route_def from_minor_def)

section \<open>Sorting\<close>

fun unscored :: "(int, core_error) result \<Rightarrow> int" where
  "unscored (Ok s) = s"
| "unscored _ = 0"

abbreviation score_of :: "least_cost_router \<Rightarrow> intent_ref \<Rightarrow> route \<Rightarrow> int" where
  "score_of l i r \<equiv> unscored (score l i r)"

definition scores_ok :: "least_cost_router \<Rightarrow> intent_ref \<Rightarrow> bool" where
  "scores_ok l i \<longleftrightarrow> list_all (\<lambda>r. \<exists>s. score l i r = Ok s) (lc_routes l)"

lemma score_all_Ok:
  "list_all (\<lambda>r. \<exists>s. score l i r = Ok s) rs \<Longrightarrow> score_all l i rs = Ok (map (score_of l i) rs)"
  by (induction rs) auto

text \<open>Sorting by value and position is the stable sort by value.\<close>

definition scored :: "('a \<Rightarrow> int) \<Rightarrow> nat \<Rightarrow> 'a list \<Rightarrow> (int \<times> nat \<times> 'a) list" where
  "scored f n xs = zip (map f xs) (enumerate n xs)"

lemma scored_simps: "scored f n [] = []" "scored f n (x # xs) = (f x, n, x) # scored f (Suc n) xs"
  by (simp_all add: scored_def)

lemma scored_elems: "z \<in> set (scored f n xs) \<Longrightarrow> fst z = f (snd (snd z)) \<and> n \<le> fst (snd z)"
  by (induction xs arbitrary: n) (auto simp: scored_simps dest: Suc_leD)

lemma insort_with_index:
  "(\<And>z. z \<in> set ys \<Longrightarrow> fst z = f (snd (snd z)) \<and> n < fst (snd z)) \<Longrightarrow>
   map (\<lambda>z. snd (snd z)) (insort_key (\<lambda>z. (fst z, fst (snd z))) (f x, n, x) ys) = insort_key f x (map (\<lambda>z. snd (snd z)) ys)"
proof (induction ys)
  case (Cons y ys)
  have "fst y = f (snd (snd y))" "n < fst (snd y)" using Cons.prems [of y] by simp_all
  then have le: "(f x, n) \<le> (fst y, fst (snd y)) \<longleftrightarrow> f x \<le> f (snd (snd y))" by (auto simp: less_eq_prod_def)
  have IH: "map (\<lambda>z. snd (snd z)) (insort_key (\<lambda>z. (fst z, fst (snd z))) (f x, n, x) ys) = insort_key f x (map (\<lambda>z. snd (snd z)) ys)"
    by (rule Cons.IH, rule Cons.prems) simp
  show ?case using IH le by simp
qed simp

lemma sort_with_index: "map (\<lambda>z. snd (snd z)) (sort_key (\<lambda>z. (fst z, fst (snd z))) (scored f n xs)) = sort_key f xs"
proof (induction xs arbitrary: n)
  case (Cons x xs)
  have "fst z = f (snd (snd z)) \<and> n < fst (snd z)" if "z \<in> set (sort_key (\<lambda>z. (fst z, fst (snd z))) (scored f (Suc n) xs))" for z
    using that scored_elems [of z f "Suc n" xs] by auto
  note ins = insort_with_index [OF this, where x = x]
  show ?case unfolding scored_simps sort_key_simps by (simp only: ins Cons.IH)
qed (simp add: scored_simps)

lemma sort_key_short: "length xs < 2 \<Longrightarrow> sort_key f xs = xs"
  by (cases xs; cases "tl xs") auto

text \<open>Where every score is defined, the router returns the pool in the stable order of the scores.\<close>

lemma select_sorts: "scores_ok l i \<Longrightarrow> select l i = Ok (sort_key (score_of l i) (lc_routes l))"
  using sort_with_index [of "score_of l i" 0 "lc_routes l"]
  by (simp add: select_def scores_ok_def score_all_Ok sort_key_short scored_def)

text \<open>The estimators of the crate fail only where the sum of the rates leaves its range.\<close>

lemma estimates_defined:
  "\<exists>m. blended_estimate eb i r = Ok m" "\<exists>m. tiered_estimate et i r = Ok m"
  "(\<And>m. pick_model ei r = Some m \<Longrightarrow> cm_interchange m + cm_scheme_fees m + cm_psp_markup m \<le> u32_max) \<Longrightarrow> \<exists>m. interchange_plus_estimate ei i r = Ok m"
  by (auto simp: blended_estimate_def tiered_estimate_def interchange_plus_estimate_def total_bps_def u32_val_def Let_def split: option.splits)

lemma score_defined:
  "(\<And>e. hm_get (lc_estimators l) (rt_driver r) = Some e \<Longrightarrow> \<exists>m. e i r = Ok m) \<Longrightarrow> \<exists>s. score l i r = Ok s"
  unfolding score_def by (rule rbind_returns) (auto simp: Let_def split: option.splits)

end
