(* ===== verification/Routing.thy ===== *)
theory Routing
  imports Routing_Cost Bytes
begin

unbundle bit_operations_syntax

text \<open>
  Merchant categories, decline codes, backoff and the composed router (\<^verbatim>\<open>op-routing/src/mcc.rs\<close>, \<^verbatim>\<open>retry.rs\<close>, \<^verbatim>\<open>composer.rs\<close>).  A \<^verbatim>\<open>Duration\<close> is its
  number of nanoseconds, a hash set the list of its elements.  The embedded category catalogue, a JSON file, is left out.

  Shown: a decision is the cheapest of the most preferred routes that are neither excluded nor tried, as a scan of the pool finds it; a
  payment that follows the decisions tries every driver at most once, stops after a hard decline and within the attempt limit.
\<close>

section \<open>Declines and backoff\<close>

datatype decline_code = DeclineCode string

definition is_ascii_alphanumeric :: "char \<Rightarrow> bool" where
  "is_ascii_alphanumeric c \<longleftrightarrow>
     (let b = of_char c :: nat in 48 \<le> b \<and> b \<le> 57 \<or> 65 \<le> b \<and> b \<le> 90 \<or> 97 \<le> b \<and> b \<le> 122)"

definition decline_from_str :: "string \<Rightarrow> decline_code option" where
  "decline_from_str s = (if length s \<noteq> 2 \<or> \<not> list_all is_ascii_alphanumeric s then None else Some (DeclineCode s))"

datatype decline_category = Soft | Hard | UnknownDecline

definition default_soft_declines :: "decline_code list" where
  "default_soft_declines = List.map_filter decline_from_str
     [''05'', ''51'', ''65'', ''75'', ''85'', ''91'', ''92'', ''94'', ''96'', ''6P'', ''N7'', ''R0'', ''R1'', ''57'', ''58'', ''61'', ''19'', ''89'', ''06'']"

definition default_hard_declines :: "decline_code list" where
  "default_hard_declines = List.map_filter decline_from_str
     [''04'', ''07'', ''41'', ''43'', ''54'', ''59'', ''62'', ''14'', ''15'', ''78'', ''R3'', ''12'', ''13'', ''35'', ''36'', ''39'', ''40'', ''46'',
      ''52'', ''53'', ''55'', ''63'', ''93'']"

record backoff_policy =
  bo_initial :: nat
  bo_cap :: nat
  bo_jitter_max :: nat
  bo_jitter_seed :: "64 word"

definition default_backoff :: backoff_policy where
  "default_backoff = \<lparr>bo_initial = 100 * 10 ^ 6, bo_cap = 30 * 10 ^ 9, bo_jitter_max = 250 * 10 ^ 6, bo_jitter_seed = 0xA5A5A5A5A5A5A5A5\<rparr>"

text \<open>SplitMix64 over the seed and the attempt; the sum of two durations from \<^verbatim>\<open>u64\<close> nanoseconds never overflows.\<close>

definition splitmix :: "64 word \<Rightarrow> nat \<Rightarrow> 64 word" where
  "splitmix seed n =
     (let z = seed + of_nat n * 0x9E3779B97F4A7C15;
          z = (z XOR drop_bit 30 z) * 0xBF58476D1CE4E5B9;
          z = (z XOR drop_bit 27 z) * 0x94D049BB133111EB
      in z XOR drop_bit 31 z)"

definition delay_for :: "backoff_policy \<Rightarrow> nat \<Rightarrow> nat" where
  "delay_for p n =
     (if n = 0 then 0
      else let shift = min (n - 1) 20;
               factor = 2 ^ shift;
               initial_nanos = min (bo_initial p) u64_max;
               exp_nanos = min (initial_nanos * factor) u64_max;
               expo = min exp_nanos (bo_cap p);
               z = splitmix (bo_jitter_seed p) n;
               jitter_nanos = (if bo_jitter_max p = 0 then 0
                               else let jmax = min (bo_jitter_max p) u64_max in unat z mod max jmax 1)
           in expo + jitter_nanos)"

record routing_attempt =
  ra_route :: route
  ra_decline_code :: "decline_code option"

record intelligent_retry =
  re_max_attempts :: nat
  re_retry_window :: nat
  re_soft_decline_codes :: "decline_code list"
  re_hard_decline_codes :: "decline_code list"
  re_backoff :: backoff_policy

definition default_retry :: intelligent_retry where
  "default_retry = \<lparr>re_max_attempts = 4, re_retry_window = 30 * 10 ^ 9, re_soft_decline_codes = default_soft_declines,
     re_hard_decline_codes = default_hard_declines, re_backoff = default_backoff\<rparr>"

definition with_max_attempts :: "nat \<Rightarrow> intelligent_retry \<Rightarrow> intelligent_retry" where
  "with_max_attempts n p = p\<lparr>re_max_attempts := n\<rparr>"

definition with_retry_window :: "nat \<Rightarrow> intelligent_retry \<Rightarrow> intelligent_retry" where
  "with_retry_window d p = p\<lparr>re_retry_window := d\<rparr>"

definition with_backoff :: "backoff_policy \<Rightarrow> intelligent_retry \<Rightarrow> intelligent_retry" where
  "with_backoff b p = p\<lparr>re_backoff := b\<rparr>"

definition classify_decline :: "intelligent_retry \<Rightarrow> decline_code \<Rightarrow> decline_category" where
  "classify_decline p c =
     (if c \<in> set (re_hard_decline_codes p) then Hard
      else if c \<in> set (re_soft_decline_codes p) then Soft
      else UnknownDecline)"

definition last_was_hard :: "intelligent_retry \<Rightarrow> routing_attempt list \<Rightarrow> bool" where
  "last_was_hard p prior =
     (if prior = [] then False
      else case ra_decline_code (List.last prior) of None \<Rightarrow> False | Some c \<Rightarrow> classify_decline p c = Hard)"

definition attempts_used :: "routing_attempt list \<Rightarrow> nat" where
  "attempts_used prior = (if length prior \<le> 255 then length prior else 255)"

definition untried :: "routing_attempt list \<Rightarrow> route \<Rightarrow> bool" where
  "untried prior r \<longleftrightarrow> rt_driver r \<notin> set (map (\<lambda>a. rt_driver (ra_route a)) prior)"

definition next_attempt :: "intelligent_retry \<Rightarrow> routing_attempt list \<Rightarrow> route list \<Rightarrow> route option" where
  "next_attempt p prior pool =
     (if last_was_hard p prior then None
      else if attempts_used prior \<ge> re_max_attempts p then None
      else find (untried prior) pool)"

definition duration_max :: nat where
  "duration_max = u64_max * 10 ^ 9 + 999999999"

fun total_delay :: "intelligent_retry \<Rightarrow> nat \<Rightarrow> nat" where
  "total_delay p 0 = 0"
| "total_delay p (Suc n) = min (total_delay p n + delay_for (re_backoff p) (Suc n)) duration_max"

section \<open>Merchant categories\<close>

datatype mcc = Mcc string

definition mcc_from_str :: "string \<Rightarrow> mcc option" where
  "mcc_from_str s = (if length s \<noteq> 4 \<or> \<not> list_all is_ascii_digit s then None else Some (Mcc s))"

record mcu_preferences =
  mp_preferred_drivers :: "driver_id list"
  mp_excluded_drivers :: "driver_id list"
  mp_max_attempts :: nat

definition with_preferred :: "driver_id \<Rightarrow> mcu_preferences \<Rightarrow> mcu_preferences" where
  "with_preferred d p = p\<lparr>mp_preferred_drivers := mp_preferred_drivers p @ [d]\<rparr>"

definition with_excluded :: "driver_id \<Rightarrow> mcu_preferences \<Rightarrow> mcu_preferences" where
  "with_excluded d p = p\<lparr>mp_excluded_drivers := List.insert d (mp_excluded_drivers p)\<rparr>"

definition mcu_with_max_attempts :: "nat \<Rightarrow> mcu_preferences \<Rightarrow> mcu_preferences" where
  "mcu_with_max_attempts n p = p\<lparr>mp_max_attempts := n\<rparr>"

type_synonym mcc_policy = "(mcc, mcu_preferences) hashmap"

definition with_rule :: "mcc \<Rightarrow> mcu_preferences \<Rightarrow> mcc_policy \<Rightarrow> mcc_policy" where
  "with_rule m p pol = hm_insert m p pol"

text \<open>The index map of the preferred drivers; a driver listed twice keeps its last index.\<close>

definition pref_set :: "mcu_preferences \<Rightarrow> (driver_id, nat) hashmap" where
  "pref_set p = fold (\<lambda>(ix, d) m. hm_insert d ix m) (enumerate 0 (mp_preferred_drivers p)) []"

definition mcc_filter :: "mcc_policy \<Rightarrow> mcc option \<Rightarrow> route list \<Rightarrow> route list" where
  "mcc_filter pol mc pool =
     (case mc of
        None \<Rightarrow> pool
      | Some m \<Rightarrow>
          (case hm_get pol m of
             None \<Rightarrow> pool
           | Some prefs \<Rightarrow>
               let surviving = filter (\<lambda>r. rt_driver r \<notin> set (mp_excluded_drivers prefs)) pool;
                   pref = pref_set prefs;
                   preferred = sort_key (\<lambda>r. case hm_get pref (rt_driver r) of Some ix \<Rightarrow> ix | None \<Rightarrow> u64_max)
                                 (filter (\<lambda>r. hm_contains_key pref (rt_driver r)) surviving);
                   other = filter (\<lambda>r. \<not> hm_contains_key pref (rt_driver r)) surviving
               in preferred @ other))"

definition max_attempts_for :: "mcc_policy \<Rightarrow> mcc option \<Rightarrow> nat \<Rightarrow> nat" where
  "max_attempts_for pol mc default_max =
     (case Option.bind mc (hm_get pol) of
        None \<Rightarrow> default_max
      | Some p \<Rightarrow> if mp_max_attempts p > 0 then mp_max_attempts p else default_max)"

section \<open>The composed router\<close>

datatype route_decision = TryRoute route nat | StopRouting string

record composed_router =
  cr_lcr :: least_cost_router
  cr_mcc :: mcc_policy
  cr_retry :: intelligent_retry

definition intent_mcc :: "intent_ref \<Rightarrow> mcc option" where
  "intent_mcc i = Option.bind (ir_mcc i) mcc_from_str"

definition route_next :: "composed_router \<Rightarrow> intent_ref \<Rightarrow> routing_attempt list \<Rightarrow> (route_decision, core_error) result" where
  "route_next cr i prior =
     (if last_was_hard (cr_retry cr) prior then Ok (StopRouting ''hard_decline'')
      else let mc = intent_mcc i;
               effective_max = max_attempts_for (cr_mcc cr) mc (re_max_attempts (cr_retry cr))
      in if attempts_used prior \<ge> effective_max then Ok (StopRouting ''max_attempts_reached'')
         else rbind (select (cr_lcr cr) i) (\<lambda>lcr_sorted.
           let filtered = mcc_filter (cr_mcc cr) mc lcr_sorted
           in case find (untried prior) filtered of
                None \<Rightarrow> Ok (StopRouting ''no_routes_remaining'')
              | Some chosen \<Rightarrow> Ok (TryRoute chosen (delay_for (re_backoff (cr_retry cr)) (min (length prior) u32_max)))))"


section \<open>The choice of a route\<close>

text \<open>The first element that minimises a key is the head of the stable sort.\<close>

definition first_best :: "('a \<Rightarrow> 'b :: linorder) \<Rightarrow> 'a list \<Rightarrow> 'a" where
  "first_best f xs = hd (filter (\<lambda>x. f x = Min (f ` set xs)) xs)"

lemma hd_sort_key:
  assumes "xs \<noteq> []"
  shows "hd (sort_key f xs) = first_best f xs"
proof -
  let ?s = "sort_key f xs" and ?m = "Min (f ` set xs)"
  have ne: "?s \<noteq> []" using assms by (metis length_0_conv length_sort)
  then obtain y ys where s: "?s = y # ys" by (cases ?s) auto
  have "sorted (map f ?s)" by simp
  then have "\<forall>x\<in>set ?s. f y \<le> f x" unfolding s by simp
  moreover have "set ?s = set xs" by simp
  ultimately have "f y \<le> f x" if "x \<in> set xs" for x using that by blast
  moreover have "y \<in> set xs" using s \<open>set ?s = set xs\<close> by (metis list.set_intros(1))
  ultimately have m: "f y = ?m" by (intro Min_eqI [symmetric]) auto
  have "filter (\<lambda>x. f x = ?m) ?s = filter (\<lambda>x. f x = ?m) xs" by (rule sort_key_stable)
  then have "hd (filter (\<lambda>x. f x = ?m) xs) = hd (filter (\<lambda>x. f x = ?m) ?s)" by simp
  also have "\<dots> = y" using m by (simp add: s)
  finally show ?thesis by (simp add: first_best_def s)
qed

lemma sort_key_eq_on: "(\<And>x. x \<in> set xs \<Longrightarrow> f x = g x) \<Longrightarrow> sort_key f xs = sort_key g xs"
proof (induction xs)
  case (Cons x xs)
  have "insort_key f x ys = insort_key g x ys" if "\<And>y. y \<in> set ys \<Longrightarrow> f y = g y" "f x = g x" for ys
    using that by (induction ys) auto
  from this [of "sort_key g xs"] show ?case using Cons by simp
qed simp

text \<open>Sorting the elements below a bound in front of the others is the stable sort of all.\<close>

lemma insort_below: "f x < N \<Longrightarrow> (\<And>z. z \<in> set zs \<Longrightarrow> f z = N) \<Longrightarrow> insort_key f x (ys @ zs) = insort_key f x ys @ zs"
proof (induction ys)
  case Nil
  then show ?case by (cases zs) auto
qed simp

lemma insort_at: "(\<And>y. y \<in> set ys \<Longrightarrow> f y < f x) \<Longrightarrow> (\<And>z. z \<in> set zs \<Longrightarrow> f z = f x) \<Longrightarrow> insort_key f x (ys @ zs) = ys @ x # zs"
proof (induction ys)
  case Nil
  show ?case
  proof (cases zs)
    case (Cons z zs')
    then have "f z = f x" using Nil.prems(2) [of z] by simp
    then show ?thesis using Cons by simp
  qed simp
next
  case (Cons y ys)
  have "\<not> f x \<le> f y" using Cons.prems(1) [of y] by simp
  moreover have "insort_key f x (ys @ zs) = ys @ x # zs" by (rule Cons.IH, rule Cons.prems(1), simp, rule Cons.prems(2))
  ultimately show ?case by simp
qed

lemma sort_below_bound:
  assumes "\<And>x. x \<in> set xs \<Longrightarrow> f x \<le> N"
  shows "sort_key f (filter (\<lambda>x. f x < N) xs) @ filter (\<lambda>x. \<not> f x < N) xs = sort_key f xs"
  using assms
proof (induction xs)
  case (Cons x xs)
  let ?a = "sort_key f (filter (\<lambda>x. f x < N) xs)" and ?b = "filter (\<lambda>x. \<not> f x < N) xs"
  have IH: "sort_key f xs = ?a @ ?b" by (rule Cons.IH [symmetric], rule Cons.prems) simp
  have b: "f z = N" if "z \<in> set ?b" for z using that Cons.prems [of z] by auto
  show ?case
  proof (cases "f x < N")
    case True
    have "insort_key f x (?a @ ?b) = insort_key f x ?a @ ?b" by (rule insort_below [of f x N, OF True]) (rule b)
    then show ?thesis using IH True by simp
  next
    case False
    then have x: "f x = N" using Cons.prems [of x] by simp
    have a: "f y < f x" if "y \<in> set ?a" for y using that x by auto
    have "insort_key f x (?a @ ?b) = ?a @ x # ?b" by (rule insort_at, erule a) (simp only: b x)
    then show ?thesis using IH False by simp
  qed
qed simp

text \<open>The rank of a route under the preferences of a category: its index, and one past the last for a driver without preference.\<close>

definition pref_rank :: "mcc_policy \<Rightarrow> mcc option \<Rightarrow> route \<Rightarrow> nat" where
  "pref_rank pol mc r =
     (case Option.bind mc (hm_get pol) of
        None \<Rightarrow> 0
      | Some p \<Rightarrow> (case hm_get (pref_set p) (rt_driver r) of Some ix \<Rightarrow> ix | None \<Rightarrow> length (mp_preferred_drivers p)))"

definition excluded :: "mcc_policy \<Rightarrow> mcc option \<Rightarrow> route \<Rightarrow> bool" where
  "excluded pol mc r =
     (case Option.bind mc (hm_get pol) of None \<Rightarrow> False | Some p \<Rightarrow> rt_driver r \<in> set (mp_excluded_drivers p))"

lemma pref_fold_bound:
  "(\<And>d ix. hm_get m d = Some ix \<Longrightarrow> ix < n) \<Longrightarrow>
   hm_get (fold (\<lambda>(ix, d) m. hm_insert d ix m) (enumerate n ds) m) d = Some ix \<Longrightarrow> ix < n + length ds"
proof (induction ds arbitrary: m n)
  case (Cons d' ds)
  have "ix' < Suc n" if "hm_get (hm_insert d' n m) d'' = Some ix'" for d'' ix'
    using that Cons.prems(1) [of d'' ix'] by (simp split: if_splits)
  from Cons.IH [of "hm_insert d' n m" "Suc n", OF this] Cons.prems(2) show ?case by simp
qed simp

lemma pref_set_bound: "hm_get (pref_set p) d = Some ix \<Longrightarrow> ix < length (mp_preferred_drivers p)"
  using pref_fold_bound [of "[]" 0 "mp_preferred_drivers p" d ix] by (simp add: pref_set_def)

lemma mcc_filter_sorts: "mcc_filter pol mc pool = sort_key (pref_rank pol mc) (filter (\<lambda>r. \<not> excluded pol mc r) pool)"
proof (cases "Option.bind mc (hm_get pol)")
  case None
  then have "mcc_filter pol mc pool = pool" by (auto simp: mcc_filter_def split: option.splits bind_splits)
  moreover have "sort_key (\<lambda>r. 0 :: nat) pool = pool" by (simp add: sort_key_const)
  ultimately show ?thesis using None by (simp add: pref_rank_def [abs_def] excluded_def)
next
  case (Some p)
  let ?f = "pref_rank pol mc" and ?N = "length (mp_preferred_drivers p)"
  let ?xs = "filter (\<lambda>r. \<not> excluded pol mc r) pool"
  let ?k = "\<lambda>r. case hm_get (pref_set p) (rt_driver r) of Some ix \<Rightarrow> ix | None \<Rightarrow> u64_max"
  obtain m where mc: "mc = Some m" "hm_get pol m = Some p" using Some by (cases mc) auto
  have f: "?f r = (case hm_get (pref_set p) (rt_driver r) of Some ix \<Rightarrow> ix | None \<Rightarrow> ?N)" for r by (simp add: pref_rank_def Some)
  have lt: "hm_contains_key (pref_set p) (rt_driver r) \<longleftrightarrow> ?f r < ?N" for r
    using pref_set_bound [of p "rt_driver r"] by (auto simp: f hm_contains_key_def split: option.splits)
  have le: "?f r \<le> ?N" for r using pref_set_bound [of p "rt_driver r"] by (auto simp: f less_imp_le split: option.splits)
  have "mcc_filter pol mc pool = sort_key ?k (filter (\<lambda>r. ?f r < ?N) ?xs) @ filter (\<lambda>r. \<not> ?f r < ?N) ?xs"
    by (simp add: mcc_filter_def Let_def mc excluded_def lt [unfolded mc] Some [unfolded mc])
  also have "sort_key ?k (filter (\<lambda>r. ?f r < ?N) ?xs) = sort_key ?f (filter (\<lambda>r. ?f r < ?N) ?xs)"
    by (rule sort_key_eq_on) (auto simp: f split: option.splits)
  also have "sort_key ?f (filter (\<lambda>r. ?f r < ?N) ?xs) @ filter (\<lambda>r. \<not> ?f r < ?N) ?xs = sort_key ?f ?xs"
    by (rule sort_below_bound) (rule le)
  finally show ?thesis .
qed

lemma find_sort_key:
  "find P (sort_key f xs) = (if filter P xs = [] then None else Some (hd (sort_key f (filter P xs))))"
proof -
  have "find P ys = (if filter P ys = [] then None else Some (hd (filter P ys)))" for ys by (induction ys) auto
  moreover have "filter P (sort_key f xs) = sort_key f (filter P xs)" by (simp add: filter_sort)
  moreover have "sort_key f ys = [] \<longleftrightarrow> ys = []" for ys by (metis length_0_conv length_sort)
  ultimately show ?thesis by simp
qed

text \<open>The routes a payment may still use, and the cheapest of the best ranked among them.\<close>

definition admissible :: "composed_router \<Rightarrow> intent_ref \<Rightarrow> routing_attempt list \<Rightarrow> route list" where
  "admissible cr i prior =
     filter (\<lambda>r. untried prior r \<and> \<not> excluded (cr_mcc cr) (intent_mcc i) r) (lc_routes (cr_lcr cr))"

definition best_route :: "composed_router \<Rightarrow> intent_ref \<Rightarrow> route list \<Rightarrow> route" where
  "best_route cr i rs =
     (let rank = pref_rank (cr_mcc cr) (intent_mcc i)
      in first_best (score_of (cr_lcr cr) i) (filter (\<lambda>r. rank r = Min (rank ` set rs)) rs))"

lemma min_filter_nonempty:
  assumes "xs \<noteq> []"
  shows "filter (\<lambda>x. f x = Min (f ` set xs)) xs \<noteq> []"
proof -
  have "Min (f ` set xs) \<in> f ` set xs" using assms by (intro Min_in) auto
  then show ?thesis by (auto simp: filter_empty_conv)
qed

lemma two_sorts:
  assumes "xs \<noteq> []"
  shows "hd (sort_key f (sort_key g xs)) = first_best g (filter (\<lambda>x. f x = Min (f ` set xs)) xs)"
proof -
  have ne: "sort_key g xs \<noteq> []" using assms by (metis length_0_conv length_sort)
  have "hd (sort_key f (sort_key g xs)) = hd (filter (\<lambda>x. f x = Min (f ` set xs)) (sort_key g xs))"
    by (simp add: hd_sort_key [OF ne] first_best_def)
  also have "\<dots> = hd (sort_key g (filter (\<lambda>x. f x = Min (f ` set xs)) xs))" by (simp add: filter_sort)
  also have "\<dots> = first_best g (filter (\<lambda>x. f x = Min (f ` set xs)) xs)" by (rule hd_sort_key [OF min_filter_nonempty [OF assms]])
  finally show ?thesis .
qed

lemma chosen_route:
  assumes "scores_ok (cr_lcr cr) i"
  shows "find (untried prior) (mcc_filter (cr_mcc cr) (intent_mcc i) (sort_key (score_of (cr_lcr cr) i) (lc_routes (cr_lcr cr))))
    = (if admissible cr i prior = [] then None else Some (best_route cr i (admissible cr i prior)))"
proof -
  let ?g = "score_of (cr_lcr cr) i" and ?f = "pref_rank (cr_mcc cr) (intent_mcc i)" and ?a = "admissible cr i prior"
  have a: "filter (untried prior) (filter (\<lambda>r. \<not> excluded (cr_mcc cr) (intent_mcc i) r) (sort_key ?g (lc_routes (cr_lcr cr)))) = sort_key ?g ?a"
    by (simp add: filter_sort admissible_def conj_commute)
  have "sort_key ?g ?a = [] \<longleftrightarrow> ?a = []" by (metis length_0_conv length_sort)
  then show ?thesis unfolding mcc_filter_sorts find_sort_key a using two_sorts [of ?a ?f ?g] by (simp add: best_route_def Let_def)
qed

definition attempt_limit :: "composed_router \<Rightarrow> intent_ref \<Rightarrow> nat" where
  "attempt_limit cr i = max_attempts_for (cr_mcc cr) (intent_mcc i) (re_max_attempts (cr_retry cr))"

lemma route_next_exact:
  assumes "scores_ok (cr_lcr cr) i"
  shows "route_next cr i prior =
    Ok (if last_was_hard (cr_retry cr) prior then StopRouting ''hard_decline''
        else if attempts_used prior \<ge> attempt_limit cr i then StopRouting ''max_attempts_reached''
        else if admissible cr i prior = [] then StopRouting ''no_routes_remaining''
        else TryRoute (best_route cr i (admissible cr i prior)) (delay_for (re_backoff (cr_retry cr)) (min (length prior) u32_max)))"
  using select_sorts [OF assms] chosen_route [OF assms, of prior]
  by (simp add: route_next_def attempt_limit_def Let_def)


text \<open>
  The documented reading of the preferences: preferred drivers go first, cost orders the routes inside each group, and the limit of a category caps the
  default.  The code orders preferred drivers by their place in the list and lets the category replace the default, so the two
  agree when the list names the preferred drivers from the cheapest on (one preferred driver, for instance) and the category does not raise the limit.
\<close>

definition category_rule :: "composed_router \<Rightarrow> intent_ref \<Rightarrow> mcu_preferences option" where
  "category_rule cr i = Option.bind (intent_mcc i) (hm_get (cr_mcc cr))"

definition preferred_route :: "composed_router \<Rightarrow> intent_ref \<Rightarrow> route \<Rightarrow> bool" where
  "preferred_route cr i r \<longleftrightarrow> (\<exists>p. category_rule cr i = Some p \<and> rt_driver r \<in> set (mp_preferred_drivers p))"

definition prefers_by_cost :: "composed_router \<Rightarrow> intent_ref \<Rightarrow> bool" where
  "prefers_by_cost cr i \<longleftrightarrow> (\<forall>r \<in> set (lc_routes (cr_lcr cr)). \<forall>r' \<in> set (lc_routes (cr_lcr cr)).
     preferred_route cr i r \<and> preferred_route cr i r' \<and> pref_rank (cr_mcc cr) (intent_mcc i) r < pref_rank (cr_mcc cr) (intent_mcc i) r'
     \<longrightarrow> score_of (cr_lcr cr) i r < score_of (cr_lcr cr) i r')"

definition category_caps :: "composed_router \<Rightarrow> intent_ref \<Rightarrow> bool" where
  "category_caps cr i \<longleftrightarrow> (\<forall>p. category_rule cr i = Some p \<longrightarrow> mp_max_attempts p \<le> re_max_attempts (cr_retry cr))"

definition capped_limit :: "composed_router \<Rightarrow> intent_ref \<Rightarrow> nat" where
  "capped_limit cr i =
     (case category_rule cr i of
        Some p \<Rightarrow> if mp_max_attempts p = 0 then re_max_attempts (cr_retry cr) else min (re_max_attempts (cr_retry cr)) (mp_max_attempts p)
      | None \<Rightarrow> re_max_attempts (cr_retry cr))"

lemma attempt_limit_capped: "category_caps cr i \<Longrightarrow> attempt_limit cr i = capped_limit cr i"
  by (auto simp: category_caps_def attempt_limit_def capped_limit_def max_attempts_for_def category_rule_def min_def split: option.splits)

lemma pref_fold_keys:
  "hm_get (fold (\<lambda>(ix, d) m. hm_insert d ix m) (enumerate n ds) m) d \<noteq> None \<longleftrightarrow> d \<in> set ds \<or> hm_get m d \<noteq> None"
  by (induction ds arbitrary: m n) auto

lemma pref_rank_preferred:
  assumes "category_rule cr i = Some p"
  shows "pref_rank (cr_mcc cr) (intent_mcc i) r < length (mp_preferred_drivers p) \<longleftrightarrow> preferred_route cr i r"
    "pref_rank (cr_mcc cr) (intent_mcc i) r \<le> length (mp_preferred_drivers p)"
  using pref_fold_keys [of 0 "mp_preferred_drivers p" "[]" "rt_driver r"] pref_set_bound [of p "rt_driver r"] assms
  by (auto simp: pref_rank_def preferred_route_def category_rule_def pref_set_def less_imp_le split: option.splits)

lemma rank_unpreferred:
  assumes "\<And>r. r \<in> set rs \<Longrightarrow> \<not> preferred_route cr i r" and "r \<in> set rs" and "r' \<in> set rs"
  shows "pref_rank (cr_mcc cr) (intent_mcc i) r = pref_rank (cr_mcc cr) (intent_mcc i) r'"
proof (cases "category_rule cr i")
  case None
  then show ?thesis by (simp add: pref_rank_def category_rule_def)
next
  case (Some p)
  from pref_rank_preferred [OF this, of r] pref_rank_preferred [OF this, of r'] assms show ?thesis by (metis nat_less_le)
qed

text \<open>Restricting a list to its elements of least rank does not change the first cheapest, when rank orders the cost.\<close>

lemma first_best_restrict:
  fixes g :: "'a \<Rightarrow> 'b :: linorder" and f :: "'a \<Rightarrow> nat"
  assumes "xs \<noteq> []" and "\<And>x y. x \<in> set xs \<Longrightarrow> y \<in> set xs \<Longrightarrow> f x < f y \<Longrightarrow> g x < g y"
  shows "first_best g (filter (\<lambda>x. f x = Min (f ` set xs)) xs) = first_best g xs"
proof -
  let ?m = "Min (f ` set xs)" and ?ys = "filter (\<lambda>x. f x = Min (f ` set xs)) xs"
  have ne: "?ys \<noteq> []" by (rule min_filter_nonempty [OF assms(1)])
  then obtain y where y: "y \<in> set ?ys" by (meson last_in_set)
  have le: "?m \<le> f x" if "x \<in> set xs" for x using that by (intro Min_le) auto
  have out: "g z < g x" if "z \<in> set ?ys" "x \<in> set xs" "f x \<noteq> ?m" for x z
    using that le [of x] by (intro assms(2)) (auto simp: nat_less_le)
  have eq: "Min (g ` set ?ys) = Min (g ` set xs)"
  proof (rule antisym)
    have "Min (g ` set ?ys) \<le> g x" if "x \<in> set xs" for x
    proof (cases "f x = ?m")
      case True
      then show ?thesis using that by (intro Min_le) auto
    next
      case False
      have "Min (g ` set ?ys) \<le> g y" using y by (intro Min_le) auto
      then show ?thesis using out [OF y that False] by order
    qed
    then show "Min (g ` set ?ys) \<le> Min (g ` set xs)" using assms(1) by (simp add: Min_ge_iff)
    show "Min (g ` set xs) \<le> Min (g ` set ?ys)" using y by (intro Min_antimono) auto
  qed
  have "f x = ?m" if "x \<in> set xs" "g x = Min (g ` set xs)" for x
  proof (rule ccontr)
    assume "f x \<noteq> ?m"
    then have "g y < g x" by (rule out [OF y that(1)])
    moreover have "Min (g ` set xs) \<le> g y" using y by (intro Min_le) auto
    ultimately show False using that(2) by order
  qed
  then have "filter (\<lambda>x. g x = Min (g ` set ?ys)) ?ys = filter (\<lambda>x. g x = Min (g ` set xs)) xs"
    unfolding eq filter_filter by (intro filter_cong) auto
  then show ?thesis by (simp add: first_best_def)
qed

definition cheapest_preferred :: "composed_router \<Rightarrow> intent_ref \<Rightarrow> route list \<Rightarrow> route" where
  "cheapest_preferred cr i rs =
     (let pref = filter (preferred_route cr i) rs
      in first_best (score_of (cr_lcr cr) i) (if pref = [] then rs else pref))"

lemma best_is_cheapest_preferred:
  assumes "prefers_by_cost cr i" and "set rs \<subseteq> set (lc_routes (cr_lcr cr))" and "rs \<noteq> []"
  shows "best_route cr i rs = cheapest_preferred cr i rs"
proof (cases "filter (preferred_route cr i) rs = []")
  case True
  let ?f = "pref_rank (cr_mcc cr) (intent_mcc i)"
  have no: "\<not> preferred_route cr i r" if "r \<in> set rs" for r using True that by (simp add: filter_empty_conv)
  have hd: "hd rs \<in> set rs" using assms(3) by simp
  have eq: "?f r = ?f (hd rs)" if "r \<in> set rs" for r by (rule rank_unpreferred [OF no that hd])
  have m: "Min (?f ` set rs) = ?f (hd rs)"
  proof (rule Min_eqI)
    show "?f (hd rs) \<le> y" if "y \<in> ?f ` set rs" for y using that eq by (metis image_iff order_refl)
    show "?f (hd rs) \<in> ?f ` set rs" by (rule imageI [OF hd])
  qed simp
  have "filter (\<lambda>r. ?f r = Min (?f ` set rs)) rs = rs" unfolding m by (rule filter_True) (blast intro: eq)
  then show ?thesis unfolding best_route_def cheapest_preferred_def Let_def True by (simp only: simp_thms if_True)
next
  case False
  let ?f = "pref_rank (cr_mcc cr) (intent_mcc i)" and ?g = "score_of (cr_lcr cr) i" and ?ps = "filter (preferred_route cr i) rs"
  from False obtain x where x: "x \<in> set ?ps" by (meson last_in_set)
  then obtain p where p: "category_rule cr i = Some p" by (auto simp: preferred_route_def)
  note rank = pref_rank_preferred [OF p]
  have lo: "?f r < ?f q" if "r \<in> set ?ps" "q \<in> set rs" "\<not> preferred_route cr i q" for r q
    using that rank(1) [of r] rank(1) [of q] by auto
  have le: "Min (?f ` set ?ps) \<le> ?f r" if "r \<in> set rs" for r
  proof (cases "preferred_route cr i r")
    case True
    then show ?thesis using that by (intro Min_le) auto
  next
    case no: False
    have "Min (?f ` set ?ps) \<le> ?f x" using x by (intro Min_le) auto
    then show ?thesis using lo [OF x that no] by simp
  qed
  have "Min (?f ` set ?ps) \<in> ?f ` set ?ps" using x by (intro Min_in) auto
  then have m: "Min (?f ` set rs) = Min (?f ` set ?ps)" using le by (intro Min_eqI) auto
  have "preferred_route cr i r" if "r \<in> set rs" "?f r = Min (?f ` set ?ps)" for r
  proof (rule ccontr)
    assume "\<not> preferred_route cr i r"
    then have "?f x < ?f r" by (rule lo [OF x that(1)])
    moreover have "Min (?f ` set ?ps) \<le> ?f x" using x by (intro Min_le) auto
    ultimately show False using that(2) by simp
  qed
  then have "filter (\<lambda>r. ?f r = Min (?f ` set rs)) rs = filter (\<lambda>r. ?f r = Min (?f ` set ?ps)) ?ps"
    unfolding m filter_filter by (intro filter_cong) auto
  moreover have "first_best ?g (filter (\<lambda>r. ?f r = Min (?f ` set ?ps)) ?ps) = first_best ?g ?ps"
    by (rule first_best_restrict [OF False]) (use assms(1,2) in \<open>auto simp: prefers_by_cost_def\<close>)
  ultimately show ?thesis using False by (simp add: best_route_def cheapest_preferred_def Let_def)
qed


definition sample_model :: "nat \<Rightarrow> cost_model" where
  "sample_model bps = \<lparr>cm_interchange = 0, cm_scheme_fees = 0, cm_psp_markup = bps, cm_fixed_per_tx = from_minor 10 USD\<rparr>"

definition sample_router :: composed_router where
  "sample_router =
     \<lparr>cr_lcr = \<lparr>lc_estimators = [(''a'', blended_estimate [(''a'', sample_model 300)]), (''b'', blended_estimate [(''b'', sample_model 100)])],
        lc_routes = [new_route ''a'' RailCard, new_route ''b'' RailCard], lc_auth_rate_bias_bps = 0\<rparr>,
      cr_mcc = [], cr_retry = with_backoff \<lparr>bo_initial = 5, bo_cap = 7, bo_jitter_max = 0, bo_jitter_seed = 0\<rparr> default_retry\<rparr>"

definition sample_intent :: intent_ref where
  "sample_intent = from_amount (from_minor 10000 USD)"

lemma sample_scores:
  "score (cr_lcr sample_router) sample_intent (new_route ''a'' RailCard) = Ok 310"
  "score (cr_lcr sample_router) sample_intent (new_route ''b'' RailCard) = Ok 110"
  by (simp_all add: score_def sample_router_def sample_intent_def new_route_def hm_get_def blended_estimate_def sample_model_def from_amount_def from_minor_def
      apply_bps_def i64_or_max_def in_i64_def i64_saturating_def fixed_part_def signed_divide_int_def Let_def)

lemma sample_routes: "lc_routes (cr_lcr sample_router) = [new_route ''a'' RailCard, new_route ''b'' RailCard]"
  by (simp add: sample_router_def)

lemma sample_ok: "scores_ok (cr_lcr sample_router) sample_intent"
  by (simp add: scores_ok_def sample_routes sample_scores)

lemma sample_limit: "attempt_limit sample_router sample_intent = 4"
  by (simp add: attempt_limit_def max_attempts_for_def intent_mcc_def sample_intent_def from_amount_def sample_router_def with_backoff_def default_retry_def)

lemma sample_admissible:
  "admissible sample_router sample_intent prior = filter (untried prior) [new_route ''a'' RailCard, new_route ''b'' RailCard]"
  by (simp add: admissible_def sample_routes excluded_def intent_mcc_def sample_intent_def from_amount_def)

lemma sample_rank: "pref_rank (cr_mcc sample_router) (intent_mcc sample_intent) r = 0"
  by (simp add: pref_rank_def intent_mcc_def sample_intent_def from_amount_def)

lemma sample_first: "route_next sample_router sample_intent [] = Ok (TryRoute (new_route ''b'' RailCard) 0)"
proof -
  have "best_route sample_router sample_intent [new_route ''a'' RailCard, new_route ''b'' RailCard] = new_route ''b'' RailCard"
    by (simp add: best_route_def first_best_def sample_scores sample_rank)
  then show ?thesis
    using route_next_exact [OF sample_ok, of "[]"]
    by (simp add: sample_admissible sample_limit untried_def last_was_hard_def attempts_used_def delay_for_def)
qed

abbreviation sample_declined :: routing_attempt where
  "sample_declined \<equiv> \<lparr>ra_route = new_route ''b'' RailCard, ra_decline_code = decline_from_str ''05''\<rparr>"

lemma sample_soft: "\<not> last_was_hard (cr_retry sample_router) [sample_declined]"
proof -
  have "decline_from_str ''05'' = Some (DeclineCode ''05'')" by (simp add: decline_from_str_def is_ascii_alphanumeric_def)
  moreover have "DeclineCode ''05'' \<notin> set default_hard_declines" by code_simp
  ultimately show ?thesis
    by (simp add: last_was_hard_def classify_decline_def sample_router_def with_backoff_def default_retry_def)
qed

text \<open>A grocer whose category prefers the dearer driver and allows two attempts.\<close>

definition grocer_router :: composed_router where
  "grocer_router = sample_router\<lparr>cr_mcc := with_rule (Mcc ''5411'') \<lparr>mp_preferred_drivers = [''a''], mp_excluded_drivers = [], mp_max_attempts = 2\<rparr> []\<rparr>"

definition grocer_intent :: intent_ref where
  "grocer_intent = sample_intent\<lparr>ir_mcc := Some ''5411''\<rparr>"


section \<open>A payment that follows the decisions\<close>

inductive routing_session :: "composed_router \<Rightarrow> intent_ref \<Rightarrow> routing_attempt list \<Rightarrow> bool" for cr i where
  start: "routing_session cr i []"
| attempt: "routing_session cr i prior \<Longrightarrow> route_next cr i prior = Ok (TryRoute r d) \<Longrightarrow>
    routing_session cr i (prior @ [\<lparr>ra_route = r, ra_decline_code = dc\<rparr>])"

lemma score_all_length: "score_all l i rs = Ok ss \<Longrightarrow> length ss = length rs"
  by (induction rs arbitrary: ss) auto

lemma select_set:
  assumes "select l i = Ok xs"
  shows "set xs = set (lc_routes l)"
proof (cases "length (lc_routes l) < 2")
  case False
  then obtain ss where ss: "score_all l i (lc_routes l) = Ok ss"
    and xs: "xs = map (\<lambda>z. snd (snd z)) (sort_key (\<lambda>z. (fst z, fst (snd z))) (zip ss (enumerate 0 (lc_routes l))))"
    using assms by (auto simp: select_def)
  let ?z = "zip ss (enumerate 0 (lc_routes l))"
  have "set xs = set (map snd (map snd ?z))" unfolding xs by auto
  also have "map snd (map snd ?z) = lc_routes l" using score_all_length [OF ss] by (simp add: map_snd_zip)
  finally show ?thesis .
qed (use assms in \<open>simp add: select_def\<close>)

lemma route_next_TryRoute:
  assumes "route_next cr i prior = Ok (TryRoute r d)"
  shows "\<not> last_was_hard (cr_retry cr) prior" and "attempts_used prior < attempt_limit cr i" and "r \<in> set (admissible cr i prior)"
    and "d = delay_for (re_backoff (cr_retry cr)) (min (length prior) u32_max)"
proof -
  show h: "\<not> last_was_hard (cr_retry cr) prior" and l: "attempts_used prior < attempt_limit cr i"
    using assms by (auto simp: route_next_def attempt_limit_def Let_def split: if_splits)
  obtain xs where xs: "select (cr_lcr cr) i = Ok xs"
    and f: "find (untried prior) (mcc_filter (cr_mcc cr) (intent_mcc i) xs) = Some r"
    and d: "d = delay_for (re_backoff (cr_retry cr)) (min (length prior) u32_max)"
    using assms h l by (auto simp: route_next_def attempt_limit_def Let_def split: option.splits)
  show "d = delay_for (re_backoff (cr_retry cr)) (min (length prior) u32_max)" by (rule d)
  have "r \<in> set (mcc_filter (cr_mcc cr) (intent_mcc i) xs)" "untried prior r"
    using f by (auto simp: find_Some_iff)
  then show "r \<in> set (admissible cr i prior)"
    using select_set [OF xs] by (simp add: mcc_filter_sorts admissible_def)
qed

definition was_hard :: "intelligent_retry \<Rightarrow> routing_attempt \<Rightarrow> bool" where
  "was_hard p a = (case ra_decline_code a of None \<Rightarrow> False | Some c \<Rightarrow> classify_decline p c = Hard)"

lemma session_sound:
  assumes "routing_session cr i as" and "attempt_limit cr i \<le> 255"
  shows "distinct (map (\<lambda>a. rt_driver (ra_route a)) as) \<and> length as \<le> attempt_limit cr i
    \<and> list_all (\<lambda>a. ra_route a \<in> set (lc_routes (cr_lcr cr)) \<and> \<not> excluded (cr_mcc cr) (intent_mcc i) (ra_route a)) as
    \<and> list_all (\<lambda>a. \<not> was_hard (cr_retry cr) a) (butlast as)"
  using assms(1)
proof induction
  case (attempt prior r d dc)
  note t = route_next_TryRoute [OF attempt.hyps(2)]
  have len: "length prior < attempt_limit cr i" using t(2) assms(2) by (auto simp: attempts_used_def split: if_splits)
  have r: "rt_driver r \<notin> (\<lambda>a. rt_driver (ra_route a)) ` set prior" "r \<in> set (lc_routes (cr_lcr cr))" "\<not> excluded (cr_mcc cr) (intent_mcc i) r"
    using t(3) by (auto simp: admissible_def untried_def)
  have "list_all (\<lambda>a. \<not> was_hard (cr_retry cr) a) prior"
  proof (cases "prior = []")
    case False
    then have "\<not> was_hard (cr_retry cr) (List.last prior)" using t(1) by (simp add: last_was_hard_def was_hard_def)
    then have "list_all (\<lambda>a. \<not> was_hard (cr_retry cr) a) (butlast prior @ [List.last prior])" using attempt.IH by simp
    then show ?thesis unfolding append_butlast_last_id [OF False] .
  qed simp
  then show ?case using attempt.IH r len by simp
qed simp

text \<open>
  C16.  A payment that follows the decisions, whatever the issuers answer, never tries a driver twice, makes at most the allowed number of attempts, uses
  only routes of the pool that the merchant category does not exclude, and makes no attempt after a hard decline.
\<close>

theorem routing_session_sound:
  assumes "routing_session cr i as" and "attempt_limit cr i \<le> 255"
  shows "distinct (map (\<lambda>a. rt_driver (ra_route a)) as) \<and> length as \<le> attempt_limit cr i
    \<and> list_all (\<lambda>a. ra_route a \<in> set (lc_routes (cr_lcr cr)) \<and> \<not> excluded (cr_mcc cr) (intent_mcc i) (ra_route a)) as
    \<and> list_all (\<lambda>a. \<not> was_hard (cr_retry cr) a) (butlast as)"
  by (rule session_sound [OF assms])

theorem routing_session_sound_witness:
  "routing_session sample_router sample_intent [sample_declined] \<and> attempt_limit sample_router sample_intent = 4
   \<and> new_route ''b'' RailCard \<in> set (lc_routes (cr_lcr sample_router))"
proof -
  have r: "routing_session sample_router sample_intent [sample_declined]"
    using routing_session.attempt [OF routing_session.start sample_first, of "decline_from_str ''05''"] by simp
  then show ?thesis using routing_session_sound [OF r] sample_limit by simp
qed

text \<open>Delays: none before the first attempt, later at most the cap and the jitter.\<close>

lemma delay_for_bounds: "delay_for p 0 = 0" "delay_for p n \<le> bo_cap p + bo_jitter_max p"
proof -
  show "delay_for p 0 = 0" by (simp add: delay_for_def)
  have "unat z mod max (min (bo_jitter_max p) u64_max) 1 \<le> bo_jitter_max p" if "bo_jitter_max p \<noteq> 0" for z :: "64 word"
  proof -
    have "unat z mod max (min (bo_jitter_max p) u64_max) 1 < max (min (bo_jitter_max p) u64_max) 1" by (rule mod_less_divisor) simp
    also have "\<dots> \<le> bo_jitter_max p" using that by simp
    finally show ?thesis by (rule less_imp_le)
  qed
  then show "delay_for p n \<le> bo_cap p + bo_jitter_max p" by (auto simp: delay_for_def Let_def intro: add_mono)
qed

text \<open>The retry window is never consulted, and the limit of a category replaces the global one even when it is larger.\<close>

lemma retry_window_ignored: "route_next (cr\<lparr>cr_retry := with_retry_window w (cr_retry cr)\<rparr>) i prior = route_next cr i prior"
proof -
  have "classify_decline (with_retry_window w p) c = classify_decline p c" for p c
    by (simp add: classify_decline_def with_retry_window_def)
  then have "last_was_hard (with_retry_window w p) prior = last_was_hard p prior" for p by (simp add: last_was_hard_def split: option.split)
  then show ?thesis by (simp add: route_next_def Let_def with_retry_window_def cong: option.case_cong)
qed

lemma category_raises_limit: "max_attempts_for [(m, \<lparr>mp_preferred_drivers = [], mp_excluded_drivers = [], mp_max_attempts = 9\<rparr>)] (Some m) 4 = 9"
  by (simp add: max_attempts_for_def hm_get_def)

end
