(* ===== verification/Spec2Isabelle.thy ===== *)
theory Spec2Isabelle
  imports Refund Dispute Payment Ledger_Store Settlement Fx Subscription Orchestrator Emv Iso_De55 Iso_Dialect Bin_Tree Reconciliation Revenue_Ledger Connect_Payout Connect_Screening Screening_Bsa Orchestrator_Concurrent Card_Vault Nacha Routing
begin

text \<open>
  \<^bold>\<open>The payment core of OpenPay.\<close>

  OpenPay (\<^verbatim>\<open>src/openpay/crates\<close>) is a set of Rust crates for running payments.  This development models the crates that decide about money and its
  states: the money type and the payment lifecycle (\<^verbatim>\<open>op-core\<close>), the double-entry ledger (\<^verbatim>\<open>op-ledger\<close>), refunds (\<^verbatim>\<open>op-refund\<close>), disputes (\<^verbatim>\<open>op-dispute\<close>),
  settlement batches (\<^verbatim>\<open>op-settlement\<close>), currency conversion (\<^verbatim>\<open>op-fx\<close>), recurring billing (\<^verbatim>\<open>op-subscriptions\<close>), revenue recognition (\<^verbatim>\<open>op-revrec\<close>), the
  engine that executes a payment over the rails (\<^verbatim>\<open>op-orchestrator\<close>), routing by cost and retries (\<^verbatim>\<open>op-routing\<close>), the wire formats (\<^verbatim>\<open>op-emv\<close>, \<^verbatim>\<open>op-iso8583\<close>), issuer prefixes (\<^verbatim>\<open>op-bin\<close>), the card
  vault (\<^verbatim>\<open>op-vault\<close>), webhooks (\<^verbatim>\<open>op-webhook\<close>), reconciliation of bank statements (\<^verbatim>\<open>op-reconciliation\<close>), marketplace accounts (\<^verbatim>\<open>op-connect\<close>) and
  sanctions screening (\<^verbatim>\<open>op-screening\<close>).

  \<^bold>\<open>How the parts interact.\<close>  Every crate computes with the amounts of \<^verbatim>\<open>op-core\<close>.  The orchestrator takes a payment intent, reserves its
  idempotency key, asks the router for a chain of drivers, tries those the circuit breaker admits until one answers, and commits the
  outcome under the key; runs overlap, and meet only in the key store.  A payment moves through its lifecycle; what it moves is booked as
  balanced transactions in the ledger; refunds, disputes and settlement batches refer to ledger transactions by id; a batch sums its entries,
  withholds a reserve, is paid out and is written as an ACH file; a subscription produces charges period by period; a contract's price is allocated
  and recognised over time in its own ledger; conversion applies a quote to an amount.  Webhook events are signed and delivered with
  retries, and those that report settlements feed reconciliation, which pairs statement lines with ledger transactions.  A marketplace splits
  payments over connected accounts, whose onboarding screens the business and its owners; the screener looks the names up in the sanctions
  index, scores them and writes every decision to a hash-chained audit log.  The data element 55 of a card message carries EMV
  tags; the vault and the prefix tables share the check digit.  Five crates keep their records in stores of one shape: rows by id, an index
  from the caller's external id, creation idempotent on that id, and an update that commits only on success.

  \<^bold>\<open>Theories, shared.\<close>
  \<^item> \<open>OpenPay_Prelude\<close>: outcomes of calls (\<open>Ok\<close>, \<open>Err\<close>, \<open>Panic\<close>), machine integers, truncating division, decimal rendering.  \<open>Bytes\<close>: bytes and big-endian
    numbers.  \<open>Hash_Map\<close>: the standard hash map, its contract as the locale \<open>hash_table\<close>; \<open>Btree_Map\<close>: the ordered map, \<open>ordered_table\<close>, which extends it.
    \<open>Ext_Store\<close>: the store contract as the locales \<open>ext_store\<close> and \<open>ext_store_update\<close>, with idempotency, atomicity and index consistency proved once.

  \<^bold>\<open>Theories, money and its books.\<close>
  \<^item> \<open>Money\<close> (\<^verbatim>\<open>op-core/src/money.rs\<close>, \<^verbatim>\<open>error.rs\<close>): addition is exact and reversible, rendering reads back, and which amounts lose their sign in it.
  \<^item> \<open>Payment\<close> (\<^verbatim>\<open>op-core/src/payment.rs\<close>, \<^verbatim>\<open>method.rs\<close>, \<^verbatim>\<open>rails.rs\<close>): the typestate machine as a step relation; captured and refunded
    amounts stay ordered on every run; what negative requests do.
  \<^item> \<open>Ledger\<close> (\<^verbatim>\<open>op-ledger/src/account.rs\<close>, \<^verbatim>\<open>entry.rs\<close>, \<^verbatim>\<open>transaction.rs\<close>, \<^verbatim>\<open>ledger.rs\<close>, \<^verbatim>\<open>balance.rs\<close>): construction accepts only balanced
    transactions and every error it reports is true; reversals cancel.  \<open>Ledger_Store\<close> (\<^verbatim>\<open>store.rs\<close>): the accounting equation in every reachable
    store, exact balances, terminal rows that change only when their own id is posted again, the effect of posting and archiving, idempotent posting.
  \<^item> \<open>Refund\<close> (\<^verbatim>\<open>op-refund\<close>) and \<open>Dispute\<close> (\<^verbatim>\<open>op-dispute\<close>): the two state machines and their stores.
  \<^item> \<open>Settlement_Batch\<close> (\<^verbatim>\<open>op-settlement/src/batch.rs\<close>, \<^verbatim>\<open>cutoff.rs\<close>, \<^verbatim>\<open>holdback.rs\<close>, \<^verbatim>\<open>payout.rs\<close>) and \<open>Settlement\<close> (\<^verbatim>\<open>store.rs\<close>, \<^verbatim>\<open>engine.rs\<close>): closed batches are
    frozen, the reserve is exact and bounded, cutoffs fire exactly when a scheduled hour passes, a tick (\<open>tick_pick\<close> under the first lock, \<open>tick_close\<close> under the
    second) closes the one open batch or nothing, and payouts rest on the exact sum of the entries.  \<open>Nacha\<close> (\<^verbatim>\<open>nacha.rs\<close>): a file is produced exactly for well-formed input, in blocks of ten records of 94 bytes whose control totals are those of the credits.
  \<^item> \<open>Fx\<close> (\<^verbatim>\<open>op-fx\<close>): conversion is the uniquely determined rounding in each mode; cached quotes are genuine and valid (the locale
    \<open>quote_source\<close> is the provider contract).
  \<^item> \<open>Subscription\<close> (\<^verbatim>\<open>op-subscriptions\<close>): billing catches up in a computed number of ticks through contiguous periods, cancellation is honoured and final,
    proration never over-credits, months are added with the day clamped.
  \<^item> \<open>Revenue\<close> (\<^verbatim>\<open>op-revrec/src/contract.rs\<close>, \<^verbatim>\<open>variable.rs\<close>, \<^verbatim>\<open>schedule.rs\<close>, \<^verbatim>\<open>modification.rs\<close>, \<^verbatim>\<open>principal_agent.rs\<close>) and \<open>Revenue_Ledger\<close> (\<^verbatim>\<open>ledger.rs\<close>): the
    allocation and the straight-line schedule add up to the price to the last minor unit and the loop over months ends; what was opened is deferred, recognised or
    refunded, and posting the schedules recognises the whole price of contracts whose progress reaches the end.

  \<^bold>\<open>Theories, executing payments.\<close>
  \<^item> \<open>Intent\<close> (\<^verbatim>\<open>op-orchestrator/src/intent.rs\<close>, \<^verbatim>\<open>outcome.rs\<close>, \<^verbatim>\<open>error.rs\<close>), \<open>Circuit_Breaker\<close> (\<^verbatim>\<open>circuit_breaker.rs\<close>), \<open>Idempotency\<close> (\<^verbatim>\<open>idempotency.rs\<close>, its
    contract as the locale \<open>idempotency_backend\<close>), \<open>Router\<close> (\<^verbatim>\<open>router.rs\<close>), \<open>Orchestrator\<close> (\<^verbatim>\<open>engine.rs\<close>): a breaker's state is a function of the failures since the
    last success; the chain is made of the drivers of the one rail the method supports; an outcome is the last of at most the configured number of
    attempts along the chain; a returned outcome is replayed, never executed again, and only for the same amount; a failed run frees its key.
    \<open>Orchestrator_Concurrent\<close>: under every interleaving of overlapping runs a key is executed successfully at most once; a run that panics keeps its key reserved.
  \<^item> \<open>Routing_Cost\<close>, \<open>Routing\<close> (\<^verbatim>\<open>op-routing\<close>): estimates are exact in range; a decision is the first cheapest of the best preferred routes that are neither tried nor
    excluded; a payment that follows the decisions tries no driver twice and stops at a hard decline and at the limit.
  \<^item> \<open>Emv\<close> (\<^verbatim>\<open>op-emv\<close>), \<open>Iso_Codec\<close>, \<open>Iso_Bitmap\<close>, \<open>Iso_Message\<close>, \<open>Iso_De55\<close>, \<open>Iso_Dialect\<close> (\<^verbatim>\<open>op-iso8583\<close>): parsing is total and reads back what was written, for tags,
    field codecs, bitmaps, messages and the flat walker; the reference MAC shows a change within a block.
  \<^item> \<open>Bin_Range\<close>, \<open>Bin_Tree\<close> (\<^verbatim>\<open>op-bin\<close>): the check digit shows typing errors, prefixes are read exactly, the tree finds the interval that contains a prefix,
    and the built-in table agrees with the rules on leading digits.
  \<^item> \<open>Card_Vault\<close> (\<^verbatim>\<open>op-vault\<close>): the vault answers every call on a token as a small reference machine does, a single-use token resolves at most once, and its check-digit test is that of \<open>Bin_Range\<close>.

  \<^bold>\<open>Theories, around the payment.\<close>
  \<^item> \<open>Webhook_Signing\<close>, \<open>Webhook\<close> (\<^verbatim>\<open>op-webhook\<close>): signatures verify what was signed and bound its age; every request the dispatcher hands out is signed for its
    endpoint; delays are bounded; every attempt is on record.
  \<^item> \<open>Reconciliation\<close> (\<^verbatim>\<open>op-reconciliation\<close>): every statement line is accounted for once, every reported pair is justified, and two weaknesses of the matcher.
  \<^item> \<open>Connect\<close>, \<open>Connect_Onboarding\<close>, \<open>Connect_Payout\<close>, \<open>Connect_Screening\<close> (\<^verbatim>\<open>op-connect\<close>): splits are accepted exactly when their legs partition the payment, transfers make no
    money, an account is active only when its items were submitted (the tax id apart) and the canonical sequence makes it active, payouts split the gross exactly, and the screening decision
    follows from every list and subject whose names differ.
  \<^item> \<open>Screening_Match\<close>, \<open>Screening_Score\<close>, \<open>Screening_Index\<close>, \<open>Screening_Audit\<close>, \<open>Screener\<close>, \<open>Screening_Bsa\<close> (\<^verbatim>\<open>op-screening\<close>): the rolling rows compute the edit distance, scores in
    rational arithmetic stay in range, the index with its Bloom filter returns exactly the entities that share a token with the name, the audit log (the locale \<open>block_chain\<close> is the argument on linked hashes)
    shows tampering, a decision is the one a scan of the whole list implies where the index reaches what the scan would report, and structuring is
    reported exactly when sub-threshold cash of a day exceeds the threshold together.

  \<^bold>\<open>Conventions.\<close>  A struct is a record, an enum a datatype with the source's constructors (prefixed where two crates share a name), a method a
  function.  A method that changes its receiver returns the changed value; a store method returns the changed store and its outcome.  Mutexes are
  left out because each method holds its lock for the whole body; where a call takes a lock twice, the two sections are two steps.  A poisoned lock is
  left out.  An id that a call mints and the current time are arguments.  \<^verbatim>\<open>i64\<close> and \<^verbatim>\<open>u64\<close> values are \<open>int\<close> and \<open>nat\<close> with the range checks of each checked,
  saturating or plain operator written out.  A plain operator that leaves its range is \<open>Panic\<close>, the behaviour of a build with overflow checks;
  a build without them wraps, and the two agree wherever the model does not panic.  Products formed in \<^verbatim>\<open>i128\<close> stay in range and are plain products.
  In the wire formats a byte is an 8-bit word and bitmaps and MAC blocks are words.  A string is its bytes, except where the code walks \<^verbatim>\<open>chars()\<close> or slices at
  character boundaries: there (prefixes, vault, ACH file, screening) it is the list of its scalar values.

  \<^bold>\<open>Reachability.\<close>  Store invariants are proved over step relations with one rule per call that changes the store, or over all sequences of calls.  Their
  guards are that minted ids are fresh, that values come from their constructors, and that an update closure changes its row through the methods of
  the row's type (the closures may write public fields, and such writes are excluded).  In \<open>ledger_step\<close> a transaction is posted under an id not yet in
  use; \<open>repost_replaces_terminal\<close> shows what happens in the ledger otherwise.  The theorems on history and on idempotent posting range over all
  sequences of calls and name the id that must not be posted again.

  \<^bold>\<open>Loops.\<close>  Every recursion is structural or has a termination proof, so no definition needs fuel.  The one loop that can run forever, the months of a
  straight-line schedule (\<open>month_loop\<close> in \<open>Revenue\<close>), is a partial function whose outer \<open>None\<close> is not returning, and it is proved to return.

  \<^bold>\<open>Parameters.\<close>  Code of third-party crates is an argument: HMAC, AEAD, signature and hash functions, JSON codecs, the civil calendar, decimal and floating-point
  arithmetic, Unicode tables, the keyed hash of the Bloom filter, the rendering of a UUID, debug renderings in error texts.  The orchestrator's rail adapters,
  telemetry and clock are functions that act on an arbitrary outside world, so the theorems hold for every adapter; the clock, the minted ids and the transport of
  the webhook dispatcher are functions of a counter of such calls, so each call may answer differently.  The fraud scorer
  and the router of the orchestrator are functions of the intent: one that keeps state of its own between calls is outside the model.  Laws of such code are hypotheses of the theorems that need them.

  \<^bold>\<open>Not modelled.\<close>  Serialisation derives, redacted debug output, tracing, diagnostic counters of some stores; the floating-point signal combiner
  and the tracing wrappers of \<^verbatim>\<open>op-orchestrator\<close>; the HTTP transport of \<^verbatim>\<open>op-webhook\<close>; the camt readers of \<^verbatim>\<open>op-reconciliation\<close>, whose amounts
  are floating-point numbers of ISO 20022 documents; the downloaders, list parsers and disk snapshots of \<^verbatim>\<open>op-screening\<close>.  Of the other crates of OpenPay the rail drivers, wallets, servers, command line and bindings
  are input and output over the modelled core; payouts, statements, tax and the graph stores are separate products on top of
  it and are left out.  The other projects of the repository (model inference, user interface, file formats) share no code with OpenPay.
\<close>

end
